(* ===== verification/Sling_Prelude.thy ===== *)
theory Sling_Prelude
  imports Main "HOL-Library.Word"
begin

text \<open>
  Shared vocabulary of the development: the machine types of \<^verbatim>\<open>sling/base/types.h\<close>,
  the outcome type of routines that scan memory through a pointer, and the generic
  facts about words and lists that the component theories use. The collections
  \<open>scan_simps\<close> and \<open>width_simps\<close> carry the proofs of the coding layer.
\<close>

unbundle bit_operations_syntax

named_theorems scan_simps \<open>rewriting of pointer scans\<close>
named_theorems width_simps \<open>moving between words of different widths\<close>
named_theorems store_simps \<open>reading back the effect of store operations\<close>

type_synonym byte = "8 word"
type_synonym uint32 = "32 word"
type_synonym uint64 = "64 word"

text \<open>The result of an operation (\<^verbatim>\<open>sling/base/status.h\<close>): success or an error code.\<close>

datatype Status = OK | Status_Error nat

text \<open>
  A routine that reads through a \<^verbatim>\<open>const char *\<close> is modelled as a function of the bytes
  that are readable from the pointer on. It may run off that memory (\<open>Overrun\<close>),
  execute an operation the C++ standard leaves undefined (\<open>Undefined\<close>), return
  \<^verbatim>\<open>nullptr\<close> (\<open>NullPtr\<close>), or deliver a value and the bytes that follow the returned
  pointer.
\<close>

datatype 'a scan = Overrun | Undefined | NullPtr | Parsed 'a "byte list"

definition fetch :: "byte list \<Rightarrow> (byte \<Rightarrow> byte list \<Rightarrow> 'a scan) \<Rightarrow> 'a scan" where
  "fetch ptr k = (case ptr of [] \<Rightarrow> Overrun | b # bs \<Rightarrow> k b bs)"

lemma fetch_Nil [simp, scan_simps]: "fetch [] k = Overrun"
  by (simp add: fetch_def)

lemma fetch_Cons [simp, scan_simps]: "fetch (b # bs) k = k b bs"
  by (simp add: fetch_def)

fun map_scan_value :: "('a \<Rightarrow> 'b) \<Rightarrow> 'a scan \<Rightarrow> 'b scan" where
  "map_scan_value f Overrun = Overrun"
| "map_scan_value f Undefined = Undefined"
| "map_scan_value f NullPtr = NullPtr"
| "map_scan_value f (Parsed v r) = Parsed (f v) r"

subsection \<open>Words\<close>

lemma unat_ucast_up:
  fixes w :: "'a::len word"
  assumes "LENGTH('a) \<le> LENGTH('b::len)"
  shows "unat (ucast w :: 'b word) = unat w"
proof -
  have "unat w < 2 ^ LENGTH('b)"
    by (rule less_le_trans [OF unsigned_less]) (simp add: assms)
  then show ?thesis
    by (simp add: unsigned_ucast_eq take_bit_nat_eq_self)
qed

lemma unat_uint32_less: "unat (v :: uint32) < 4294967296"
  using unsigned_less [of v, where 'a = nat] by simp

lemma unat_uint64_less: "unat (v :: uint64) < 18446744073709551616"
  using unsigned_less [of v, where 'a = nat] by simp

lemma mod_div_mod_pow2:
  fixes n :: nat
  assumes "k + j \<le> m"
  shows "n mod 2 ^ m div 2 ^ k mod 2 ^ j = n div 2 ^ k mod 2 ^ j"
proof -
  have "take_bit j (drop_bit k (take_bit m n)) = take_bit j (drop_bit k n)"
    using add_le_imp_le_diff [of j k m] assms
    by (simp add: drop_bit_take_bit min_def add.commute)
  then show ?thesis by (simp add: take_bit_eq_mod drop_bit_eq_div)
qed

lemma ucast_byte_less_128 [simp, width_simps]:
  "(ucast (b :: byte) :: uint32) < 128 \<longleftrightarrow> b < 128"
  "(ucast (b :: byte) :: uint64) < 128 \<longleftrightarrow> b < 128"
  by (simp_all add: word_less_nat_alt unat_ucast_up)

lemma split_low_bits:
  fixes v :: "'a::len word"
  shows "(v AND mask n) OR push_bit n (drop_bit n v) = v"
proof (rule bit_word_eqI)
  fix k assume "k < LENGTH('a)"
  then show "bit ((v AND mask n) OR push_bit n (drop_bit n v)) k = bit v k"
    by (cases "n \<le> k") (auto simp: bit_simps)
qed

lemma split7:
  fixes v :: "'a::len word"
  shows "(v AND 127) OR push_bit 7 (drop_bit 7 v) = v"
  using split_low_bits [of v 7] by (simp add: mask_eq_exp_minus_1)

lemma drop_bit_eq_0_iff_less:
  fixes v :: "'a::len word"
  assumes "n < LENGTH('a)"
  shows "drop_bit n v = 0 \<longleftrightarrow> v < 2 ^ n"
proof -
  have "unat (drop_bit n v) = unat v div 2 ^ n"
    using unat_drop_bit_eq [of n v] drop_bit_eq_div [of n "unat v"] by simp
  then have "drop_bit n v = 0 \<longleftrightarrow> unat v div 2 ^ n = 0"
    using unat_eq_0 [of "drop_bit n v"] by (simp only:)
  also have "\<dots> \<longleftrightarrow> unat v < 2 ^ n"
    by (simp add: div_eq_0_iff)
  also have "\<dots> \<longleftrightarrow> uint v < 2 ^ n"
    by (simp only: unat_eq_nat_uint nat_less_numeral_power_cancel_iff)
  also have "\<dots> \<longleftrightarrow> v < 2 ^ n"
    using word_2p_lem [of n v] assms by (simp add: word_size)
  finally show ?thesis .
qed

lemma or_push_bit_add:
  fixes acc :: "'a::len word"
  assumes "take_bit s acc = acc"
  shows "acc OR push_bit s w = acc + push_bit s w"
proof -
  have "acc AND push_bit s w = 0"
    by (rule bit_word_eqI)
      (metis assms bit_and_iff bit_push_bit_iff bit_take_bit_iff bit_0_eq bot_apply bot_bool_def linorder_not_less)
  then show ?thesis by (simp add: disjunctive_add_eq_or)
qed

lemma and_mask_mod:
  fixes w :: "'a::len word"
  assumes "m = 2 ^ k - 1"
  shows "w AND m = of_nat (unat w mod 2 ^ k)"
proof -
  have "w AND m = take_bit k w"
    by (simp only: take_bit_eq_mask mask_eq_exp_minus_1 assms)
  also have "\<dots> = take_bit k (of_nat (unat w))" by simp
  also have "\<dots> = of_nat (take_bit k (unat w))" by (rule take_bit_of_nat)
  finally show ?thesis by (simp only: take_bit_eq_mod)
qed

subsection \<open>Lists\<close>

lemma length_filter_update:
  assumes "a < length m" "P (m ! a)" "\<not> P y"
  shows "length (filter P (m[a := y])) < length (filter P m)"
proof -
  have "m = take a m @ m ! a # drop (Suc a) m" using assms(1) by (simp add: id_take_nth_drop)
  from arg_cong [OF this, of "\<lambda>l. length (filter P l)"] show ?thesis
    using assms by (simp add: upd_conv_take_nth_drop)
qed

end
