(* ===== verification/Varint.thy ===== *)
theory Varint
  imports Sling_Prelude
begin

text \<open>
  Variable-length integers: \<^verbatim>\<open>sling/util/varint.h\<close> and \<^verbatim>\<open>sling/util/varint.cc\<close>. Every
  routine of the class \<^verbatim>\<open>Varint\<close> is translated from the source, the unrolled fast paths
  and the bounds-checked slow paths alike. The encoders return the bytes they write at
  the pointer, the forward decoders work on the bytes readable from the pointer, and
  the backward decoders on the bytes before the pointer, nearest first, down to
  \<^verbatim>\<open>base\<close>. The reference definitions \<open>varint_bytes\<close> and \<open>varint_loop\<close> say what the
  format is; the lemmas show that each routine agrees with them.
\<close>

section \<open>Encoding\<close>

definition kMax32 :: nat where "kMax32 = 5"

definition kMax64 :: nat where "kMax64 = 10"

definition Encode32Inline :: "uint32 \<Rightarrow> byte list" where
  "Encode32Inline v =
     (if v < 2 ^ 7 then [ucast v]
      else if v < 2 ^ 14 then [ucast (v OR 128), ucast (drop_bit 7 v)]
      else if v < 2 ^ 21 then
        [ucast (v OR 128), ucast (drop_bit 7 v OR 128), ucast (drop_bit 14 v)]
      else if v < 2 ^ 28 then
        [ucast (v OR 128), ucast (drop_bit 7 v OR 128), ucast (drop_bit 14 v OR 128),
         ucast (drop_bit 21 v)]
      else
        [ucast (v OR 128), ucast (drop_bit 7 v OR 128), ucast (drop_bit 14 v OR 128),
         ucast (drop_bit 21 v OR 128), ucast (drop_bit 28 v)])"

definition Encode32 :: "uint32 \<Rightarrow> byte list" where
  "Encode32 v = Encode32Inline v"

definition Encode64 :: "uint64 \<Rightarrow> byte list" where
  "Encode64 v =
     (if v < 2 ^ 28 then Encode32 (ucast v)
      else
        (let v32 = (ucast v :: uint32);
             head = [ucast (v32 OR 128), ucast (drop_bit 7 v32 OR 128),
                     ucast (drop_bit 14 v32 OR 128), ucast (drop_bit 21 v32 OR 128)]
         in if v < 2 ^ 35 then head @ [ucast (drop_bit 28 v)]
            else head @ [ucast (drop_bit 28 v OR 128)] @ Encode32 (ucast (drop_bit 35 v))))"

section \<open>Decoding forwards\<close>

definition Parse32FallbackInline :: "byte list \<Rightarrow> uint32 scan" where
  "Parse32FallbackInline p =
     fetch p (\<lambda>byte ptr. let result = (ucast byte AND 127 :: uint32) in
     fetch ptr (\<lambda>byte ptr. let result = result OR push_bit 7 (ucast byte AND 127) in
       if byte < 128 then Parsed result ptr else
     fetch ptr (\<lambda>byte ptr. let result = result OR push_bit 14 (ucast byte AND 127) in
       if byte < 128 then Parsed result ptr else
     fetch ptr (\<lambda>byte ptr. let result = result OR push_bit 21 (ucast byte AND 127) in
       if byte < 128 then Parsed result ptr else
     fetch ptr (\<lambda>byte ptr. let result = result OR push_bit 28 (ucast byte AND 127) in
       if byte < 128 then Parsed result ptr else
     NullPtr)))))"

definition Parse32Fallback :: "byte list \<Rightarrow> uint32 scan" where
  "Parse32Fallback p = Parse32FallbackInline p"

definition Parse32 :: "byte list \<Rightarrow> uint32 scan" where
  "Parse32 p = fetch p (\<lambda>byte ptr.
     if byte < 128 then Parsed (ucast byte) ptr else Parse32Fallback p)"

definition Parse32Inline :: "byte list \<Rightarrow> uint32 scan" where
  "Parse32Inline p = fetch p (\<lambda>byte ptr.
     if byte < 128 then Parsed (ucast byte) ptr else Parse32FallbackInline p)"

text \<open>
  \<^verbatim>\<open>Parse64Fallback\<close> accumulates the value in three 32-bit fragments and joins them at
  the labels \<^verbatim>\<open>done1\<close>, \<^verbatim>\<open>done2\<close> and \<^verbatim>\<open>done3\<close>.
\<close>

definition Parse64Fallback :: "byte list \<Rightarrow> uint64 scan" where
  "Parse64Fallback p =
     (let done1 = (\<lambda>res1 ptr. Parsed (ucast (res1 :: uint32)) ptr);
          done2 = (\<lambda>res1 (res2 :: uint32) ptr.
             Parsed (ucast (res1 :: uint32) OR push_bit 28 (ucast res2)) ptr);
          done3 = (\<lambda>res1 (res2 :: uint32) (res3 :: uint32) ptr.
             Parsed (ucast (res1 :: uint32) OR push_bit 28 (ucast res2)
                     OR push_bit 56 (ucast res3)) ptr) in
     fetch p (\<lambda>byte ptr. let res1 = ucast byte AND 127 in
     fetch ptr (\<lambda>byte ptr. let res1 = res1 OR push_bit 7 (ucast byte AND 127) in
       if byte < 128 then done1 res1 ptr else
     fetch ptr (\<lambda>byte ptr. let res1 = res1 OR push_bit 14 (ucast byte AND 127) in
       if byte < 128 then done1 res1 ptr else
     fetch ptr (\<lambda>byte ptr. let res1 = res1 OR push_bit 21 (ucast byte AND 127) in
       if byte < 128 then done1 res1 ptr else
     fetch ptr (\<lambda>byte ptr. let res2 = ucast byte AND 127 in
       if byte < 128 then done2 res1 res2 ptr else
     fetch ptr (\<lambda>byte ptr. let res2 = res2 OR push_bit 7 (ucast byte AND 127) in
       if byte < 128 then done2 res1 res2 ptr else
     fetch ptr (\<lambda>byte ptr. let res2 = res2 OR push_bit 14 (ucast byte AND 127) in
       if byte < 128 then done2 res1 res2 ptr else
     fetch ptr (\<lambda>byte ptr. let res2 = res2 OR push_bit 21 (ucast byte AND 127) in
       if byte < 128 then done2 res1 res2 ptr else
     fetch ptr (\<lambda>byte ptr. let res3 = ucast byte AND 127 in
       if byte < 128 then done3 res1 res2 res3 ptr else
     fetch ptr (\<lambda>byte ptr. let res3 = res3 OR push_bit 7 (ucast byte AND 127) in
       if byte < 128 then done3 res1 res2 res3 ptr else
     NullPtr)))))))))))"

definition Parse64 :: "byte list \<Rightarrow> uint64 scan" where
  "Parse64 p = fetch p (\<lambda>byte ptr.
     if byte < 128 then Parsed (ucast byte) ptr else Parse64Fallback p)"

text \<open>
  The versions with a limit get the bytes up to \<^verbatim>\<open>limit\<close> only; the check
  \<^verbatim>\<open>ptr >= limit\<close> is that no byte is left. They fall through to the unchecked routine
  when at least \<^verbatim>\<open>kMax\<close> bytes are available. The bounds-checked path is stricter on the
  last byte (\<^verbatim>\<open>b < 16\<close>, \<^verbatim>\<open>b < 2\<close>) than the unchecked one.
\<close>

definition limited :: "byte list \<Rightarrow> (byte \<Rightarrow> byte list \<Rightarrow> 'a scan) \<Rightarrow> 'a scan" where
  "limited ptr k = (case ptr of [] \<Rightarrow> NullPtr | b # bs \<Rightarrow> k b bs)"

definition Parse32WithLimit :: "byte list \<Rightarrow> uint32 scan" where
  "Parse32WithLimit p =
     (if kMax32 \<le> length p then Parse32 p else
     limited p (\<lambda>b ptr. let result = (ucast b AND 127 :: uint32) in
       if b < 128 then Parsed result ptr else
     limited ptr (\<lambda>b ptr. let result = result OR push_bit 7 (ucast b AND 127) in
       if b < 128 then Parsed result ptr else
     limited ptr (\<lambda>b ptr. let result = result OR push_bit 14 (ucast b AND 127) in
       if b < 128 then Parsed result ptr else
     limited ptr (\<lambda>b ptr. let result = result OR push_bit 21 (ucast b AND 127) in
       if b < 128 then Parsed result ptr else
     limited ptr (\<lambda>b ptr. let result = result OR push_bit 28 (ucast b AND 127) in
       if b < 16 then Parsed result ptr else NullPtr))))))"

definition Parse64WithLimit :: "byte list \<Rightarrow> uint64 scan" where
  "Parse64WithLimit p =
     (if kMax64 \<le> length p then Parse64 p else
     limited p (\<lambda>b ptr. let result = (ucast b AND 127 :: uint64) in
       if b < 128 then Parsed result ptr else
     limited ptr (\<lambda>b ptr. let result = result OR push_bit 7 (ucast b AND 127) in
       if b < 128 then Parsed result ptr else
     limited ptr (\<lambda>b ptr. let result = result OR push_bit 14 (ucast b AND 127) in
       if b < 128 then Parsed result ptr else
     limited ptr (\<lambda>b ptr. let result = result OR push_bit 21 (ucast b AND 127) in
       if b < 128 then Parsed result ptr else
     limited ptr (\<lambda>b ptr. let result = result OR push_bit 28 (ucast b AND 127) in
       if b < 128 then Parsed result ptr else
     limited ptr (\<lambda>b ptr. let result = result OR push_bit 35 (ucast b AND 127) in
       if b < 128 then Parsed result ptr else
     limited ptr (\<lambda>b ptr. let result = result OR push_bit 42 (ucast b AND 127) in
       if b < 128 then Parsed result ptr else
     limited ptr (\<lambda>b ptr. let result = result OR push_bit 49 (ucast b AND 127) in
       if b < 128 then Parsed result ptr else
     limited ptr (\<lambda>b ptr. let result = result OR push_bit 56 (ucast b AND 127) in
       if b < 128 then Parsed result ptr else
     limited ptr (\<lambda>b ptr. let result = result OR push_bit 63 (ucast b AND 127) in
       if b < 2 then Parsed result ptr else NullPtr)))))))))))"

text \<open>\<open>skip_byte\<close> is one line \<^verbatim>\<open>if (*ptr++ < 128) return ptr;\<close> of the skip routines.\<close>

definition skip_byte :: "(byte list \<Rightarrow> unit scan) \<Rightarrow> byte list \<Rightarrow> unit scan" where
  "skip_byte k ptr = fetch ptr (\<lambda>b ptr. if b < 128 then Parsed () ptr else k ptr)"

definition Skip32 :: "byte list \<Rightarrow> unit scan" where
  "Skip32 = skip_byte (skip_byte (skip_byte (skip_byte (skip_byte (\<lambda>_. NullPtr)))))"

definition Skip64 :: "byte list \<Rightarrow> unit scan" where
  "Skip64 = skip_byte (skip_byte (skip_byte (skip_byte (skip_byte (skip_byte (skip_byte
     (skip_byte (skip_byte (skip_byte (\<lambda>_. NullPtr))))))))))"

section \<open>Decoding backwards\<close>

text \<open>
  The argument lists the bytes between \<^verbatim>\<open>base\<close> and the pointer, the byte just before
  the pointer first. The result carries the bytes before the decoded varint, again
  nearest first. \<open>p > base + kMax\<close> is that there are more than \<^verbatim>\<open>kMax\<close> such bytes.
  The slow loop of \<^verbatim>\<open>Skip32BackwardSlow\<close> is \<open>skip_back\<close>: it returns the pointer when it
  stands on \<^verbatim>\<open>base\<close>, or just after a byte below 128.
\<close>

fun skip_back :: "nat \<Rightarrow> byte list \<Rightarrow> nat \<Rightarrow> (nat \<times> byte list) option" where
  "skip_back 0 ptr n = None"
| "skip_back (Suc i) [] n = Some (n, [])"
| "skip_back (Suc i) (b # ptr) n =
     (if b < 128 then Some (n, b # ptr) else skip_back i ptr (Suc n))"

definition skip_backward_slow :: "nat \<Rightarrow> byte list \<Rightarrow> (nat \<times> byte list) option" where
  "skip_backward_slow rounds before =
     (case before of
        [] \<Rightarrow> None
      | b # ptr \<Rightarrow> if b > 127 then None else skip_back rounds ptr 1)"

definition Skip32BackwardSlow :: "byte list \<Rightarrow> unit scan" where
  "Skip32BackwardSlow before =
     (case skip_backward_slow 5 before of None \<Rightarrow> NullPtr | Some (_, ptr) \<Rightarrow> Parsed () ptr)"

definition Skip64BackwardSlow :: "byte list \<Rightarrow> unit scan" where
  "Skip64BackwardSlow before =
     (case skip_backward_slow 10 before of None \<Rightarrow> NullPtr | Some (_, ptr) \<Rightarrow> Parsed () ptr)"

text \<open>
  The slow parsers skip backwards and parse the skipped bytes, which stand before the
  bytes \<open>after\<close> the pointer, forwards; the outcome of the forward parse is not tested,
  so when it fails the output is left as it was (\<open>old\<close>).
\<close>

definition Parse32BackwardSlow :: "uint32 \<Rightarrow> byte list \<Rightarrow> byte list \<Rightarrow> uint32 scan" where
  "Parse32BackwardSlow old before after =
     (case skip_backward_slow 5 before of
        None \<Rightarrow> NullPtr
      | Some (n, prev) \<Rightarrow>
          (case Parse32 (rev (take n before) @ after) of
             Parsed v _ \<Rightarrow> Parsed v prev
           | Overrun \<Rightarrow> Overrun
           | Undefined \<Rightarrow> Undefined
           | NullPtr \<Rightarrow> Parsed old prev))"

definition Parse64BackwardSlow :: "uint64 \<Rightarrow> byte list \<Rightarrow> byte list \<Rightarrow> uint64 scan" where
  "Parse64BackwardSlow old before after =
     (case skip_backward_slow 10 before of
        None \<Rightarrow> NullPtr
      | Some (n, prev) \<Rightarrow>
          (case Parse64 (rev (take n before) @ after) of
             Parsed v _ \<Rightarrow> Parsed v prev
           | Overrun \<Rightarrow> Overrun
           | Undefined \<Rightarrow> Undefined
           | NullPtr \<Rightarrow> Parsed old prev))"

text \<open>
  \<open>back_byte\<close> is one step of the fast paths: read the byte below the pointer, stop just
  above it when it belongs to the previous varint, otherwise shift it into the result.
\<close>

definition back_byte ::
  "('a::len word \<Rightarrow> byte list \<Rightarrow> 'a word scan) \<Rightarrow> 'a word \<Rightarrow> byte list \<Rightarrow> 'a word scan" where
  "back_byte k result ptr = fetch ptr (\<lambda>byte ptr'.
     if byte < 128 then Parsed result ptr
     else k (push_bit 7 result OR (ucast byte AND 127)) ptr')"

definition back_last :: "'a::len word \<Rightarrow> byte list \<Rightarrow> 'a word scan" where
  "back_last result ptr = fetch ptr (\<lambda>byte ptr'.
     if byte < 128 then Parsed result ptr else NullPtr)"

definition Parse32Backward :: "uint32 \<Rightarrow> byte list \<Rightarrow> byte list \<Rightarrow> uint32 scan" where
  "Parse32Backward old before after =
     (if length before > kMax32 then
        fetch before (\<lambda>byte ptr. if byte > 127 then NullPtr else
          back_byte (back_byte (back_byte (back_byte back_last))) (ucast byte) ptr)
      else Parse32BackwardSlow old before after)"

definition Parse64Backward :: "uint64 \<Rightarrow> byte list \<Rightarrow> byte list \<Rightarrow> uint64 scan" where
  "Parse64Backward old before after =
     (if length before > kMax64 then
        fetch before (\<lambda>byte ptr. if byte > 127 then NullPtr else
          back_byte (back_byte (back_byte (back_byte (back_byte (back_byte (back_byte
            (back_byte (back_byte back_last)))))))) (ucast byte) ptr)
      else Parse64BackwardSlow old before after)"

definition skip_back_byte :: "(byte list \<Rightarrow> unit scan) \<Rightarrow> byte list \<Rightarrow> unit scan" where
  "skip_back_byte k ptr = fetch ptr (\<lambda>b ptr'. if b < 128 then Parsed () ptr else k ptr')"

definition Skip32Backward :: "byte list \<Rightarrow> unit scan" where
  "Skip32Backward before =
     (if length before > kMax32 then
        fetch before (\<lambda>b ptr. if b > 127 then NullPtr else
          skip_back_byte (skip_back_byte (skip_back_byte (skip_back_byte
            (skip_back_byte (\<lambda>_. NullPtr))))) ptr)
      else Skip32BackwardSlow before)"

definition Skip64Backward :: "byte list \<Rightarrow> unit scan" where
  "Skip64Backward before =
     (if length before > kMax64 then
        fetch before (\<lambda>b ptr. if b > 127 then NullPtr else
          skip_back_byte (skip_back_byte (skip_back_byte (skip_back_byte
            (skip_back_byte (skip_back_byte (skip_back_byte (skip_back_byte
            (skip_back_byte (skip_back_byte (\<lambda>_. NullPtr)))))))))) ptr)
      else Skip64BackwardSlow before)"

section \<open>Lengths\<close>

text \<open>
  \<open>bsr\<close> is the bit-scan-reverse instruction followed by the conditional move, plus one:
  the number of the highest set bit counted from 1, and 0 for the value 0.
\<close>

fun bsr :: "nat \<Rightarrow> nat" where
  "bsr n = (if n = 0 then 0 else Suc (bsr (n div 2)))"

declare bsr.simps [simp del]

definition length32_bytes_required :: "nat list" where
  "length32_bytes_required =
     [1,
      1, 1, 1, 1, 1, 1, 1,
      2, 2, 2, 2, 2, 2, 2,
      3, 3, 3, 3, 3, 3, 3,
      4, 4, 4, 4, 4, 4, 4,
      5, 5, 5, 5]"

definition Length32 :: "uint32 \<Rightarrow> nat" where
  "Length32 v = length32_bytes_required ! bsr (unat v)"

text \<open>The portable version of the same routine, compiled on other processors.\<close>

function Length32_portable :: "uint32 \<Rightarrow> nat \<Rightarrow> nat" where
  "Length32_portable v nbytes =
     (let nbytes = Suc nbytes; v = drop_bit 7 v
      in if v \<noteq> 0 then Length32_portable v nbytes else nbytes)"
  by pat_completeness auto
termination
proof (relation "measure (\<lambda>(v, n). unat v)")
  fix v :: uint32 and n x xa
  assume "x = Suc n" "xa = drop_bit 7 v" and nz: "xa \<noteq> 0"
  then have "unat xa = unat v div 128"
    using unat_drop_bit_eq [of 7 v] drop_bit_eq_div [of 7 "unat v"] by simp
  moreover from nz have "unat xa \<noteq> 0" by (simp add: unat_eq_0)
  ultimately show "((xa, x), v, n) \<in> measure (\<lambda>(v, n). unat v)"
    by (simp add: div_less_dividend)
qed simp

declare Length32_portable.simps [simp del]

definition FastLength32 :: "uint32 \<Rightarrow> nat" where
  "FastLength32 v =
     (if v < 2 ^ 14 then (if v < 2 ^ 7 then 1 else 2)
      else if v < 2 ^ 28 then (if v < 2 ^ 21 then 3 else 4)
      else 5)"

definition Length32NonInline :: "uint32 \<Rightarrow> nat" where
  "Length32NonInline v = FastLength32 v"

definition Length64 :: "uint64 \<Rightarrow> nat" where
  "Length64 v =
     (if v < 2 ^ 28 then Length32 (ucast v)
      else if v < 2 ^ 35 then 5
      else 5 + Length32 (ucast (drop_bit 35 v)))"

section \<open>Appending, pairs and deltas\<close>

definition Append32Slow :: "byte list \<Rightarrow> uint32 \<Rightarrow> byte list" where
  "Append32Slow s value = s @ Encode32 value"

definition Append64Slow :: "byte list \<Rightarrow> uint64 \<Rightarrow> byte list" where
  "Append64Slow s value = s @ Encode64 value"

text \<open>\<open>capacity\<close> is the capacity of the string.\<close>

definition Append32 :: "nat \<Rightarrow> byte list \<Rightarrow> uint32 \<Rightarrow> byte list" where
  "Append32 capacity s value =
     (if value < 128 \<and> length s < capacity then s @ [ucast value] else Append32Slow s value)"

definition Append64 :: "nat \<Rightarrow> byte list \<Rightarrow> uint64 \<Rightarrow> byte list" where
  "Append64 capacity s value =
     (if value < 128 \<and> length s < capacity then s @ [ucast value] else Append64Slow s value)"

lemma unat_drop_bit_less:
  fixes a :: "'a::len word"
  assumes "a > 0" "0 < n"
  shows "unat (drop_bit n a) < unat a"
proof -
  have "unat (drop_bit n a) = unat a div 2 ^ n"
    using unat_drop_bit_eq [of n a] drop_bit_eq_div [of n "unat a"] by simp
  moreover have "0 < unat a"
    using assms(1) by (simp add: word_less_nat_alt)
  moreover have "(1::nat) < 2 ^ n"
    by (rule one_less_power) (use assms(2) in simp_all)
  ultimately show ?thesis by (simp add: div_less_dividend)
qed

lemma unat_drop_bit_le:
  fixes a :: "'a::len word"
  shows "unat (drop_bit n a) \<le> unat a"
  using unat_drop_bit_eq [of n a] drop_bit_eq_div [of n "unat a"] by simp

function weave :: "uint32 \<Rightarrow> uint32 \<Rightarrow> nat \<Rightarrow> uint64 \<Rightarrow> uint64" where
  "weave a b shift v =
     (if a > 0 \<or> b > 0 then
        (let one_byte = (ucast ((a AND 15) OR push_bit 4 (b AND 15)) :: byte)
         in weave (drop_bit 4 a) (drop_bit 4 b) (shift + 8) (v OR push_bit shift (ucast one_byte)))
      else v)"
  by pat_completeness auto
termination
proof (relation "measure (\<lambda>(a, b, shift, v). unat a + unat b)")
  fix a b :: uint32 and shift v x
  assume "a > 0 \<or> b > 0"
  then show "((drop_bit 4 a, drop_bit 4 b, shift + 8, v OR push_bit shift (ucast x)), a, b, shift, v)
      \<in> measure (\<lambda>(a, b, shift, v). unat a + unat b)"
    using unat_drop_bit_less [of a 4] unat_drop_bit_less [of b 4]
      unat_drop_bit_le [of 4 a] unat_drop_bit_le [of 4 b]
    by auto
qed simp

declare weave.simps [simp del]

definition EncodeTwo32Values :: "nat \<Rightarrow> byte list \<Rightarrow> uint32 \<Rightarrow> uint32 \<Rightarrow> byte list" where
  "EncodeTwo32Values capacity s a b = Append64 capacity s (weave a b 0 0)"

function unweave :: "uint64 \<Rightarrow> nat \<Rightarrow> uint32 \<Rightarrow> uint32 \<Rightarrow> uint32 \<times> uint32" where
  "unweave v shift a b =
     (if v > 0 then
        unweave (drop_bit 8 v) (shift + 4)
          (a OR ucast (push_bit shift (v AND 15)))
          (b OR ucast (push_bit shift (drop_bit 4 v AND 15)))
      else (a, b))"
  by pat_completeness auto
termination
  by (relation "measure (\<lambda>(v, shift, a, b). unat v)") (auto intro: unat_drop_bit_less)

declare unweave.simps [simp del]

text \<open>
  The result of the nested \<^verbatim>\<open>Parse64\<close> is returned as it is; when it is \<^verbatim>\<open>nullptr\<close> the two
  outputs have been set from \<open>v = 0\<close>.
\<close>

definition DecodeTwo32ValuesSlow :: "byte list \<Rightarrow> (uint32 \<times> uint32) scan" where
  "DecodeTwo32ValuesSlow ptr = map_scan_value (\<lambda>v. unweave v 0 0 0) (Parse64 ptr)"

definition DecodeTwo32Values :: "byte list \<Rightarrow> (uint32 \<times> uint32) scan" where
  "DecodeTwo32Values p = fetch p (\<lambda>byte ptr.
     if byte < 128 then Parsed (ucast byte AND 15, ucast (drop_bit 4 byte)) ptr
     else DecodeTwo32ValuesSlow p)"

text \<open>
  \<^verbatim>\<open>FastDecodeDeltas\<close> sums deltas until the sum reaches the goal. The variables are
  64-bit signed integers; a shift by 64 or more, which a delta of more than ten bytes
  leads to, and a sum or a shifted part beyond the range of the type are undefined.
\<close>

fun deltas_loop :: "int \<Rightarrow> int \<Rightarrow> nat \<Rightarrow> byte list \<Rightarrow> int scan" where
  "deltas_loop goal acc shift [] = Overrun"
| "deltas_loop goal acc shift (b # ptr) =
     (if 64 \<le> shift then Undefined
      else
        (let value = sint b;
             part = push_bit shift (value AND 127);
             acc = acc + part;
             shift = (if value < 0 then shift + 7 else 0)
         in if 2 ^ 63 \<le> part \<or> 2 ^ 63 \<le> acc then Undefined
            else if acc < 0 \<or> value < 0 then deltas_loop goal acc shift ptr
            else Parsed (goal + acc) ptr))"

definition FastDecodeDeltas :: "byte list \<Rightarrow> int \<Rightarrow> int scan" where
  "FastDecodeDeltas ptr goal = deltas_loop goal (- goal) 0 ptr"


section \<open>The format: reference definitions on natural numbers\<close>

fun varint_bytes :: "nat \<Rightarrow> byte list" where
  "varint_bytes n =
     (if n < 128 then [of_nat n] else of_nat (n mod 128 + 128) # varint_bytes (n div 128))"

declare varint_bytes.simps [simp del]

fun varint_read :: "nat \<Rightarrow> byte list \<Rightarrow> nat scan" where
  "varint_read 0 bs = NullPtr"
| "varint_read (Suc k) [] = Overrun"
| "varint_read (Suc k) (b # bs) =
     (if b < 128 then Parsed (unat b) bs
      else map_scan_value (\<lambda>v. unat b mod 128 + 128 * v) (varint_read k bs))"

fun varint_loop :: "nat \<Rightarrow> nat \<Rightarrow> 'a::len word \<Rightarrow> byte list \<Rightarrow> 'a word scan" where
  "varint_loop 0 s acc bs = NullPtr"
| "varint_loop (Suc k) s acc [] = Overrun"
| "varint_loop (Suc k) s acc (b # bs) =
     (let acc = acc OR push_bit s (ucast b AND 127)
      in if b < 128 then Parsed acc bs else varint_loop k (s + 7) acc bs)"

subsection \<open>The reference reader inverts the reference writer\<close>

lemma byte_unat_of_nat [simp]:
  assumes "n < 128"
  shows "unat (of_nat n :: byte) = n" "unat (of_nat n + 128 :: byte) = n + 128"
proof -
  show "unat (of_nat n :: byte) = n"
    using assms by (simp add: unat_of_nat)
  have "unat (of_nat (n + 128) :: byte) = n + 128"
    unfolding unat_of_nat using assms by simp
  then show "unat (of_nat n + 128 :: byte) = n + 128" by simp
qed

lemma byte_of_nat_less_128 [simp]:
  "n < 128 \<Longrightarrow> (of_nat n :: byte) < 128"
  "n < 128 \<Longrightarrow> \<not> (of_nat n + 128 :: byte) < 128"
  by (simp_all add: word_less_nat_alt)

lemma varint_bytes_not_Nil [simp]: "varint_bytes n \<noteq> []"
  by (subst varint_bytes.simps) simp

lemma varint_read_bytes:
  "n < 128 ^ k \<Longrightarrow> 0 < k \<Longrightarrow> varint_read k (varint_bytes n @ r) = Parsed n r"
proof (induction n arbitrary: k rule: varint_bytes.induct)
  case (1 n)
  obtain j where k: "k = Suc j" using "1.prems"(2) by (cases k) auto
  show ?case
  proof (cases "n < 128")
    case True
    then show ?thesis by (simp add: k varint_bytes.simps [of n])
  next
    case False
    then have "j \<noteq> 0" using "1.prems"(1) by (auto simp: k intro: Nat.gr0I)
    moreover have "n div 128 < 128 ^ j"
      using "1.prems"(1) by (simp add: k less_mult_imp_div_less mult.commute)
    ultimately have "varint_read j (varint_bytes (n div 128) @ r) = Parsed (n div 128) r"
      using "1.IH" False by simp
    with False show ?thesis
      by (simp add: k varint_bytes.simps [of n])
  qed
qed

subsection \<open>The word loop computes the reference value modulo the word size\<close>

lemma take_bit_extend:
  fixes v :: "'a::len word"
  assumes "take_bit s v = v" "take_bit k x = x"
  shows "take_bit (s + k) (v OR push_bit s x) = v OR push_bit s x"
proof -
  have "take_bit (s + k) v = v"
    by (metis assms(1) le_add1 min.absorb2 take_bit_take_bit)
  then show ?thesis using assms(2) by (simp add: take_bit_push_bit)
qed

lemma ucast_and_127:
  "(ucast (b :: byte) AND 127 :: 'a::len word) = of_nat (unat b mod 128)"
proof -
  have "(ucast b AND 127 :: 'a word) = take_bit 7 (ucast b)"
    by (simp add: take_bit_eq_mask mask_eq_exp_minus_1)
  also have "\<dots> = of_nat (take_bit 7 (unat b))"
    by (metis of_nat_unat take_bit_of_nat)
  finally show ?thesis by (simp add: take_bit_eq_mod)
qed

lemma varint_loop_read:
  fixes acc :: "'a::len word"
  assumes "take_bit s acc = acc"
  shows "varint_loop k s acc bs =
    map_scan_value (\<lambda>v. acc + push_bit s (of_nat v)) (varint_read k bs)"
  using assms
proof (induction k s acc bs rule: varint_loop.induct)
  case (3 k s acc b bs)
  define acc' where "acc' = acc OR push_bit s (ucast b AND 127 :: 'a word)"
  have acc': "acc' = acc + push_bit s (of_nat (unat b mod 128))"
    using or_push_bit_add [OF "3.prems"] by (simp add: acc'_def ucast_and_127)
  have tb: "take_bit (s + 7) acc' = acc'"
  proof -
    have "(ucast b AND 127 :: 'a word) = take_bit 7 (ucast b)"
      by (simp add: take_bit_eq_mask mask_eq_exp_minus_1)
    then have "take_bit 7 (ucast b AND 127 :: 'a word) = ucast b AND 127"
      by (simp only: take_bit_take_bit) simp
    then show ?thesis unfolding acc'_def by (rule take_bit_extend [OF "3.prems"])
  qed
  show ?case
  proof (cases "b < 128")
    case True
    then have "unat b mod 128 = unat b"
      by (simp add: word_less_nat_alt)
    moreover have "varint_loop (Suc k) s acc (b # bs) = Parsed acc' bs"
      using True by (simp add: acc'_def)
    ultimately show ?thesis using True by (simp add: acc')
  next
    case False
    have "varint_loop k (s + 7) acc' bs =
        map_scan_value (\<lambda>v. acc' + push_bit (s + 7) (of_nat v)) (varint_read k bs)"
      using "3.IH" [OF _ False] tb by (simp add: acc'_def)
    moreover have "acc' + push_bit (s + 7) (of_nat v) =
        acc + push_bit s (of_nat (unat b mod 128 + 128 * v))" for v
      by (simp add: acc' push_bit_eq_mult power_add algebra_simps)
    moreover have "varint_loop (Suc k) s acc (b # bs) = varint_loop k (s + 7) acc' bs"
      using False by (simp add: acc'_def)
    ultimately show ?thesis
      using False by (cases "varint_read k bs") simp_all
  qed
qed simp_all

lemma varint_loop_0:
  "varint_loop k 0 (0 :: 'a::len word) bs = map_scan_value of_nat (varint_read k bs)"
  by (simp add: varint_loop_read)

subsection \<open>The forward decoders\<close>

lemma varint_loop_fetch:
  "0 < k \<Longrightarrow> varint_loop k s acc ptr = fetch ptr (\<lambda>byte ptr.
     let acc = acc OR push_bit s (ucast byte AND 127)
     in if byte < 128 then Parsed acc ptr else varint_loop (k - 1) (s + 7) acc ptr)"
  by (cases k; cases ptr) (simp_all add: Let_def)

lemma varint_loop_first:
  "0 < k \<Longrightarrow> varint_loop k 0 0 (b # bs) =
     (if b < 128 then Parsed (ucast b) bs else varint_loop (k - 1) 7 (ucast b AND 127) bs)"
proof -
  assume "0 < k"
  moreover have "b < 128 \<Longrightarrow> (ucast b AND 127 :: 'a word) = ucast b"
    by (simp add: ucast_and_127 word_less_nat_alt)
  ultimately show ?thesis by (simp add: varint_loop_fetch)
qed

lemma Parse32FallbackInline_loop:
  "Parse32FallbackInline (b # bs) = varint_loop 4 7 (ucast b AND 127) bs"
  by (simp add: Parse32FallbackInline_def varint_loop_fetch Let_def cong: if_cong)

lemma Parse32_loop: "Parse32 bs = varint_loop 5 0 0 bs"
  by (cases bs)
    (simp_all add: Parse32_def Parse32Fallback_def Parse32FallbackInline_loop varint_loop_first
      varint_loop_fetch [of 5 _ _ "[]"])

lemma Parse32_read: "Parse32 bs = map_scan_value of_nat (varint_read 5 bs)"
  by (simp add: Parse32_loop varint_loop_0)

lemma Parse32Inline_eq: "Parse32Inline bs = Parse32 bs"
  unfolding Parse32Inline_def Parse32_def Parse32Fallback_def by (rule refl)

lemma ucast_push_bit_32_64:
  assumes "s + 7 \<le> 32"
  shows "(ucast (push_bit s (ucast (b :: byte) AND 127 :: uint32)) :: uint64) =
    push_bit s (ucast b AND 127)"
proof -
  define m where "m = unat b mod 128"
  have "m * 2 ^ s < 2 ^ 7 * 2 ^ s"
    by (simp add: m_def)
  also have "\<dots> \<le> (2 :: nat) ^ 32"
    using power_increasing [of "7 + s" 32 "2 :: nat"] assms by (simp only: power_add)
  finally have bound: "push_bit s m < 2 ^ 32"
    by (simp add: push_bit_eq_mult)
  have "push_bit s (of_nat m :: uint32) = of_nat (push_bit s m)"
    "push_bit s (of_nat m :: uint64) = of_nat (push_bit s m)"
    by (simp_all add: push_bit_of_nat)
  moreover have "(ucast (of_nat (push_bit s m) :: uint32) :: uint64) = of_nat (push_bit s m)"
    using bound by (simp only: unsigned_of_nat) (simp add: take_bit_nat_eq_self)
  ultimately show ?thesis
    by (simp only: ucast_and_127 m_def)
qed

lemma ucast_and_127_32_64:
  "(ucast (ucast (b :: byte) AND 127 :: uint32) :: uint64) = ucast b AND 127"
  using ucast_push_bit_32_64 [of 0 b] by simp

lemma Parse64Fallback_loop:
  "Parse64Fallback (b # bs) = varint_loop 9 7 (ucast b AND 127) bs"
  by (simp add: Parse64Fallback_def varint_loop_fetch Let_def unsigned_or_eq
      ucast_push_bit_32_64 ucast_and_127_32_64 or.assoc
      del: push_bit_and cong: if_cong)

lemma Parse64_loop: "Parse64 bs = varint_loop 10 0 0 bs"
  by (cases bs)
    (simp_all add: Parse64_def Parse64Fallback_loop varint_loop_first
      varint_loop_fetch [of 10 _ _ "[]"])

lemma Parse64_read: "Parse64 bs = map_scan_value of_nat (varint_read 10 bs)"
  by (simp add: Parse64_loop varint_loop_0)

subsection \<open>The encoders\<close>

lemma byte_or_128: "(x :: byte) OR 128 = of_nat (unat x mod 128) + 128"
proof -
  have "x OR 128 = (x AND 127) OR 128"
  proof -
    have "(127 OR 128 :: byte) = - 1" by simp
    then show ?thesis by (simp only: bit.disj_conj_distrib2 bit.conj_one_right)
  qed
  also have "\<dots> = (x AND 127) + 128"
  proof (rule disjunctive_add_eq_or [symmetric])
    show "(x AND 127) AND 128 = 0" by (simp add: and.assoc)
  qed
  also have "x AND 127 = of_nat (unat x mod 128)"
    using ucast_and_127 [of x, where 'a = 8] by simp
  finally show ?thesis .
qed

lemma unat_ucast_byte_mod_128:
  fixes v :: "'a::len word"
  shows "unat (ucast v :: byte) mod 128 = unat v mod 128"
  by (simp add: unsigned_ucast_eq take_bit_eq_mod mod_mod_cancel)

lemma ucast_or_128 [width_simps]:
  "(ucast ((v :: uint32) OR 128) :: byte) = of_nat (unat v mod 128) + 128"
  "(ucast ((w :: uint64) OR 128) :: byte) = of_nat (unat w mod 128) + 128"
  by (simp_all add: unsigned_or_eq byte_or_128 unat_ucast_byte_mod_128)

lemma unat_drop_bit_div:
  fixes v :: "'a::len word"
  shows "unat (drop_bit n v) = unat v div 2 ^ n"
  using unat_drop_bit_eq [of n v] drop_bit_eq_div [of n "unat v"] by simp

lemma varint_bytes_unfold:
  "varint_bytes n =
     (if n < 2 ^ 7 then [of_nat n]
      else if n < 2 ^ 14 then [of_nat (n mod 128) + 128, of_nat (n div 2 ^ 7)]
      else if n < 2 ^ 21 then
        [of_nat (n mod 128) + 128, of_nat (n div 2 ^ 7 mod 128) + 128, of_nat (n div 2 ^ 14)]
      else if n < 2 ^ 28 then
        [of_nat (n mod 128) + 128, of_nat (n div 2 ^ 7 mod 128) + 128,
         of_nat (n div 2 ^ 14 mod 128) + 128, of_nat (n div 2 ^ 21)]
      else
        [of_nat (n mod 128) + 128, of_nat (n div 2 ^ 7 mod 128) + 128,
         of_nat (n div 2 ^ 14 mod 128) + 128, of_nat (n div 2 ^ 21 mod 128) + 128]
        @ varint_bytes (n div 2 ^ 28))"
  by (simp add: varint_bytes.simps [of n] varint_bytes.simps [of "n div 128"]
      varint_bytes.simps [of "n div 16384"] varint_bytes.simps [of "n div 2097152"]
      div_mult2_eq [symmetric] less_mult_imp_div_less div_less_iff_less_mult)

lemma Encode32_bytes: "Encode32 v = varint_bytes (unat v)"
proof -
  have "unat v < 2 ^ 32" using unat_uint32_less [of v] by simp
  then have "unat v div 2 ^ 28 < 128" by (simp add: div_less_iff_less_mult)
  then have "varint_bytes (unat v div 2 ^ 28) = [of_nat (unat v div 2 ^ 28)]"
    by (simp add: varint_bytes.simps)
  moreover have "(ucast (drop_bit n v) :: byte) = of_nat (unat v div 2 ^ n)" for n
    using of_nat_unat [of "drop_bit n v", where 'a = byte] by (simp add: unat_drop_bit_div)
  ultimately show ?thesis
    by (simp add: Encode32_def Encode32Inline_def varint_bytes_unfold [of "unat v"]
        word_less_nat_alt ucast_or_128 unat_drop_bit_div)
qed

lemma ucast_div:
  fixes v :: "'a::len word"
  shows "(ucast (drop_bit n v) :: byte) = of_nat (unat v div 2 ^ n)"
  using of_nat_unat [of "drop_bit n v", where 'a = byte] by (simp add: unat_drop_bit_div)

lemma Encode64_bytes: "Encode64 v = varint_bytes (unat v)"
proof -
  have low: "unat (ucast v :: uint32) = unat v mod 2 ^ 32"
    by (simp add: unsigned_ucast_eq take_bit_eq_mod)
  have frag: "unat v mod 2 ^ 32 mod 128 = unat v mod 128"
    "unat v mod 2 ^ 32 div 2 ^ 7 mod 128 = unat v div 2 ^ 7 mod 128"
    "unat v mod 2 ^ 32 div 2 ^ 14 mod 128 = unat v div 2 ^ 14 mod 128"
    "unat v mod 2 ^ 32 div 2 ^ 21 mod 128 = unat v div 2 ^ 21 mod 128"
    using mod_div_mod_pow2 [of 0 7 32 "unat v"] mod_div_mod_pow2 [of 7 7 32 "unat v"]
      mod_div_mod_pow2 [of 14 7 32 "unat v"] mod_div_mod_pow2 [of 21 7 32 "unat v"]
    by simp_all
  consider "unat v < 2 ^ 28" | "2 ^ 28 \<le> unat v" "unat v < 2 ^ 35" | "2 ^ 35 \<le> unat v"
    by linarith
  then show ?thesis
  proof cases
    case 1
    then have "unat (ucast v :: uint32) = unat v" using low by simp
    with 1 show ?thesis
      by (simp add: Encode64_def word_less_nat_alt Encode32_bytes)
  next
    case 2
    then have "unat v div 2 ^ 28 < 128" by (simp add: div_less_iff_less_mult)
    then have "varint_bytes (unat v div 2 ^ 28) = [of_nat (unat v div 2 ^ 28)]"
      by (simp add: varint_bytes.simps)
    with 2 show ?thesis
      by (simp add: Encode64_def Let_def word_less_nat_alt varint_bytes_unfold [of "unat v"]
          ucast_or_128 unat_drop_bit_div low frag [simplified] ucast_div)
  next
    case 3
    have "unat v < 2 ^ 64" using unat_uint64_less [of v] by simp
    then have "unat v div 2 ^ 35 < 2 ^ 32" by (simp add: div_less_iff_less_mult)
    then have "unat (ucast (drop_bit 35 v) :: uint32) = unat v div 2 ^ 35"
      by (simp add: unsigned_ucast_eq unat_drop_bit_div take_bit_eq_mod)
    moreover have "varint_bytes (unat v div 2 ^ 28) =
        (of_nat (unat v div 2 ^ 28 mod 128) + 128) # varint_bytes (unat v div 2 ^ 35)"
      using 3 by (simp add: varint_bytes.simps [of "unat v div 268435456"] div_mult2_eq [symmetric]
          div_less_iff_less_mult)
    ultimately show ?thesis
      using 3 by (simp add: Encode64_def Let_def word_less_nat_alt varint_bytes_unfold [of "unat v"]
          ucast_or_128 unat_drop_bit_div low frag [simplified] Encode32_bytes)
  qed
qed

lemma Parse32_Encode32: "Parse32 (Encode32 v @ r) = Parsed v r"
proof -
  have "unat v < 128 ^ 5" using unat_uint32_less [of v] by simp
  then show ?thesis by (simp add: Parse32_read Encode32_bytes varint_read_bytes)
qed

lemma Parse64_Encode64: "Parse64 (Encode64 v @ r) = Parsed v r"
proof -
  have "unat v < 128 ^ 10" using unat_uint64_less [of v] by simp
  then show ?thesis by (simp add: Parse64_read Encode64_bytes varint_read_bytes)
qed

subsection \<open>The bounds-checked decoders and the skip routines\<close>

text \<open>What a limit changes: running out of bytes is \<^verbatim>\<open>nullptr\<close> and not an overrun.\<close>

fun at_limit :: "'a scan \<Rightarrow> 'a scan" where
  "at_limit Overrun = NullPtr"
| "at_limit r = r"

lemma limited_Nil [simp]: "limited [] k = NullPtr"
  by (simp add: limited_def)

lemma limited_Cons [simp]: "limited (b # bs) k = k b bs"
  by (simp add: limited_def)

fun limited_loop ::
  "('a::len word \<Rightarrow> byte list \<Rightarrow> 'a word scan) \<Rightarrow> nat \<Rightarrow> nat \<Rightarrow> 'a word \<Rightarrow> byte list \<Rightarrow> 'a word scan"
  where
  "limited_loop final 0 s acc bs = final acc bs"
| "limited_loop final (Suc k) s acc bs = limited bs (\<lambda>b bs.
     let acc = acc OR push_bit s (ucast b AND 127)
     in if b < 128 then Parsed acc bs else limited_loop final k (s + 7) acc bs)"

lemma limited_loop_at_limit:
  assumes "\<And>acc. final acc [] = NullPtr" and "length bs \<le> k"
  shows "limited_loop final k s acc bs = at_limit (varint_loop (Suc k) s acc bs)"
  using assms(2)
proof (induction k arbitrary: s acc bs)
  case 0
  then show ?case by (simp add: assms(1))
next
  case (Suc k)
  then show ?case by (cases bs) (simp_all add: Let_def)
qed

lemma limited_loop_unfold:
  "0 < k \<Longrightarrow> limited_loop final k s acc bs = limited bs (\<lambda>b bs.
     let acc = acc OR push_bit s (ucast b AND 127)
     in if b < 128 then Parsed acc bs else limited_loop final (k - 1) (s + 7) acc bs)"
  by (cases k) (simp_all cong: if_cong)

lemma varint_loop_no_overrun:
  "k \<le> length q \<Longrightarrow> varint_loop k s acc q \<noteq> Overrun"
  by (induction k s acc q rule: varint_loop.induct) (auto simp: Let_def)

lemma at_limit_id: "r \<noteq> Overrun \<Longrightarrow> at_limit r = r"
  by (cases r) simp_all

lemma Parse32WithLimit_at_limit: "Parse32WithLimit p = at_limit (Parse32 p)"
proof (cases "kMax32 \<le> length p")
  case True
  then have "Parse32 p \<noteq> Overrun"
    by (simp add: Parse32_loop kMax32_def varint_loop_no_overrun)
  then show ?thesis using True by (simp add: Parse32WithLimit_def at_limit_id)
next
  case False
  define final where "final = (\<lambda>result ptr. limited ptr (\<lambda>b ptr.
     let result = result OR push_bit 28 (ucast b AND 127 :: uint32)
     in if b < 16 then Parsed result ptr else NullPtr))"
  from False have "Parse32WithLimit p = limited_loop final 4 0 0 p"
    by (simp add: Parse32WithLimit_def limited_loop_unfold final_def Let_def cong: if_cong)
  also have "\<dots> = at_limit (varint_loop (Suc 4) 0 0 p)"
    using False by (intro limited_loop_at_limit) (simp_all add: final_def kMax32_def)
  finally show ?thesis by (simp add: Parse32_loop)
qed

lemma Parse64WithLimit_at_limit: "Parse64WithLimit p = at_limit (Parse64 p)"
proof (cases "kMax64 \<le> length p")
  case True
  then have "Parse64 p \<noteq> Overrun"
    by (simp add: Parse64_loop kMax64_def varint_loop_no_overrun)
  then show ?thesis using True by (simp add: Parse64WithLimit_def at_limit_id)
next
  case False
  define final where "final = (\<lambda>result ptr. limited ptr (\<lambda>b ptr.
     let result = result OR push_bit 63 (ucast b AND 127 :: uint64)
     in if b < 2 then Parsed result ptr else NullPtr))"
  from False have "Parse64WithLimit p = limited_loop final 9 0 0 p"
    by (simp add: Parse64WithLimit_def limited_loop_unfold final_def Let_def cong: if_cong)
  also have "\<dots> = at_limit (varint_loop (Suc 9) 0 0 p)"
    using False by (intro limited_loop_at_limit) (simp_all add: final_def kMax64_def)
  finally show ?thesis by (simp add: Parse64_loop)
qed

lemma skip_byte_simps [simp]:
  "skip_byte k [] = Overrun"
  "skip_byte k (b # bs) = (if b < 128 then Parsed () bs else k bs)"
  by (simp_all add: skip_byte_def)

lemma skip_bytes_loop:
  "(skip_byte ^^ k) (\<lambda>_. NullPtr) bs = map_scan_value (\<lambda>_. ()) (varint_loop k s acc bs)"
proof (induction k arbitrary: bs s acc)
  case (Suc k)
  show ?case
    using Suc.IH by (cases bs) (simp_all add: Let_def)
qed simp

lemma Skip32_Parse32: "Skip32 bs = map_scan_value (\<lambda>_. ()) (Parse32 bs)"
proof -
  have "Skip32 = (skip_byte ^^ 5) (\<lambda>_. NullPtr)"
    by (simp add: Skip32_def numeral_eq_Suc)
  then show ?thesis using skip_bytes_loop [of 5 bs 0 0] by (simp only: Parse32_loop)
qed

lemma Skip64_Parse64: "Skip64 bs = map_scan_value (\<lambda>_. ()) (Parse64 bs)"
proof -
  have "Skip64 = (skip_byte ^^ 10) (\<lambda>_. NullPtr)"
    by (simp add: Skip64_def numeral_eq_Suc)
  then show ?thesis using skip_bytes_loop [of 10 bs 0 0] by (simp only: Parse64_loop)
qed

subsection \<open>The backward decoders\<close>

text \<open>
  A varint seen backwards: its last byte is below 128, the bytes before it are not, and
  the byte before the varint (if any) is below 128 again.
\<close>

definition continuation :: "byte list \<Rightarrow> bool" where
  "continuation bs \<longleftrightarrow> (\<forall>b \<in> set bs. \<not> b < 128)"

lemma continuation_simps [simp]:
  "continuation []"
  "continuation (b # bs) \<longleftrightarrow> \<not> b < 128 \<and> continuation bs"
  "continuation (xs @ ys) \<longleftrightarrow> continuation xs \<and> continuation ys"
  "continuation (rev xs) \<longleftrightarrow> continuation xs"
  by (auto simp: continuation_def)

definition boundary :: "byte list \<Rightarrow> bool" where
  "boundary bs \<longleftrightarrow> (case bs of [] \<Rightarrow> True | b # _ \<Rightarrow> b < 128)"

fun group_value :: "byte list \<Rightarrow> nat" where
  "group_value [] = 0"
| "group_value (b # bs) = unat b mod 128 + 128 * group_value bs"

lemma varint_bytes_snoc:
  "\<exists>cs l. varint_bytes n = cs @ [l] \<and> continuation cs \<and> l < 128 \<and>
     n = group_value (cs @ [l]) \<and> (\<forall>k. n < 128 ^ Suc k \<longrightarrow> length cs \<le> k)"
proof (induction n rule: varint_bytes.induct)
  case (1 n)
  show ?case
  proof (cases "n < 128")
    case True
    then have "varint_bytes n = [] @ [of_nat n]" by (simp add: varint_bytes.simps [of n])
    with True show ?thesis by (intro exI [of _ "[]"] exI [of _ "of_nat n"]) simp
  next
    case False
    with "1.IH" obtain cs l where IH: "varint_bytes (n div 128) = cs @ [l]" "continuation cs" "l < 128"
      "n div 128 = group_value (cs @ [l])" "\<forall>k. n div 128 < 128 ^ Suc k \<longrightarrow> length cs \<le> k"
      by auto
    let ?c = "of_nat (n mod 128) + 128 :: byte"
    have "varint_bytes n = (?c # cs) @ [l]"
      using False IH(1) by (simp add: varint_bytes.simps [of n])
    moreover have "continuation (?c # cs)" using IH(2) by simp
    moreover have "n = group_value ((?c # cs) @ [l])"
      using IH(4) [symmetric] by simp
    moreover have "length (?c # cs) \<le> k" if "n < 128 ^ Suc k" for k
    proof (cases k)
      case 0
      with that False show ?thesis by simp
    next
      case (Suc j)
      with that have "n div 128 < 128 ^ Suc j"
        by (simp add: div_less_iff_less_mult mult.commute)
      with IH(5) Suc show ?thesis by simp
    qed
    ultimately show ?thesis using IH(3) by blast
  qed
qed

lemma varint_read_group:
  "continuation cs \<Longrightarrow> l < 128 \<Longrightarrow> length cs < k \<Longrightarrow>
     varint_read k (cs @ l # r) = Parsed (group_value (cs @ [l])) r"
proof (induction cs arbitrary: k)
  case Nil
  then show ?case by (cases k) (simp_all add: word_less_nat_alt)
next
  case (Cons c cs)
  then show ?case by (cases k) simp_all
qed

fun back_value :: "nat \<Rightarrow> byte list \<Rightarrow> nat" where
  "back_value v [] = v"
| "back_value v (b # bs) = back_value (128 * v + unat b mod 128) bs"

lemma back_value_group: "back_value (group_value ds) (rev cs) = group_value (cs @ ds)"
proof (induction cs arbitrary: ds rule: rev_induct)
  case (snoc c cs)
  show ?case using snoc.IH [of "c # ds"] by (simp add: add.commute)
qed simp

lemma back_shift:
  "push_bit 7 (of_nat v) OR (ucast (b :: byte) AND 127) =
     (of_nat (128 * v + unat b mod 128) :: 'a::len word)"
proof -
  have "take_bit 7 (ucast b AND 127 :: 'a word) = ucast b AND 127"
  proof -
    have "(ucast b AND 127 :: 'a word) = take_bit 7 (ucast b)"
      by (simp add: take_bit_eq_mask mask_eq_exp_minus_1)
    then show ?thesis by simp
  qed
  then have "push_bit 7 (of_nat v) OR (ucast b AND 127) =
      (ucast b AND 127) + push_bit 7 (of_nat v :: 'a word)"
    by (metis or_push_bit_add or.commute)
  then show ?thesis
    by (simp add: ucast_and_127 push_bit_eq_mult algebra_simps)
qed

lemma back_bytes:
  assumes "t < 128"
  shows "continuation cs \<Longrightarrow> length cs \<le> k \<Longrightarrow>
     (back_byte ^^ k) back_last (of_nat v :: 'a::len word) (cs @ t # before) =
       Parsed (of_nat (back_value v cs)) (t # before)"
proof (induction k arbitrary: cs v)
  case 0
  with assms show ?case by (simp add: back_last_def)
next
  case (Suc k)
  then show ?case
    using assms by (cases cs) (simp_all add: back_byte_def back_shift del: of_nat_add of_nat_mult)
qed

lemma skip_back_bytes:
  "continuation cs \<Longrightarrow> length cs < k \<Longrightarrow> boundary before \<Longrightarrow>
     skip_back k (cs @ before) n = Some (n + length cs, before)"
proof (induction k arbitrary: cs n)
  case (Suc k)
  then show ?case
    by (cases cs; cases before) (simp_all add: boundary_def)
qed simp

lemma backward_fast:
  assumes "n < 128 ^ Suc k" "t < 128"
  shows "fetch (rev (varint_bytes n) @ t # before) (\<lambda>byte ptr. if byte > 127 then NullPtr
      else (back_byte ^^ k) back_last (ucast byte :: 'a::len word) ptr) =
    Parsed (of_nat n) (t # before)"
proof -
  obtain cs l where enc: "varint_bytes n = cs @ [l]" "continuation cs" "l < 128"
    "n = group_value (cs @ [l])" "length cs \<le> k"
    using varint_bytes_snoc [of n] assms(1) by metis
  have l: "\<not> l > 127" "group_value [l] = unat l"
    using enc(3) by (simp_all add: word_less_nat_alt)
  have "(back_byte ^^ k) back_last (of_nat (unat l) :: 'a word) (rev cs @ t # before) =
      Parsed (of_nat (back_value (unat l) (rev cs))) (t # before)"
    using enc(2,5) assms(2) by (intro back_bytes) simp_all
  then show ?thesis
    unfolding enc(1) using l back_value_group [of "[l]" cs] enc(4) by simp
qed

lemma backward_slow:
  assumes "n < 128 ^ Suc k" "k < rounds" "boundary before"
  shows "skip_backward_slow rounds (rev (varint_bytes n) @ before) =
    Some (length (varint_bytes n), before)"
proof -
  obtain cs l where enc: "varint_bytes n = cs @ [l]" "continuation cs" "l < 128" "length cs \<le> k"
    using varint_bytes_snoc [of n] assms(1) by metis
  have "\<not> l > 127" using enc(3) by (simp add: word_less_nat_alt)
  then show ?thesis
    using enc(2,4) assms(2,3) by (simp add: skip_backward_slow_def enc(1) skip_back_bytes)
qed

lemma length_varint_bytes: "n < 128 ^ Suc k \<Longrightarrow> length (varint_bytes n) \<le> Suc k"
  using varint_bytes_snoc [of n] by auto

lemma back_byte_unroll:
  "back_byte (back_byte (back_byte (back_byte k))) = (back_byte ^^ 4) k"
  "back_byte (back_byte (back_byte (back_byte (back_byte (back_byte (back_byte (back_byte
     (back_byte k)))))))) = (back_byte ^^ 9) k"
  by (simp_all add: numeral_eq_Suc)

lemma Parse32Backward_Encode32:
  assumes "boundary before"
  shows "Parse32Backward old (rev (Encode32 v) @ before) after = Parsed v before"
proof -
  have n: "unat v < 128 ^ Suc 4" using unat_uint32_less [of v] by simp
  show ?thesis
  proof (cases "length (rev (Encode32 v) @ before) > kMax32")
    case True
    then obtain t before' where b: "before = t # before'"
      using length_varint_bytes [OF n] by (cases before) (auto simp: Encode32_bytes kMax32_def)
    with assms True show ?thesis
      using backward_fast [OF n, of t before', where 'a = 32]
      unfolding Parse32Backward_def back_byte_unroll(1)
      by (simp add: Encode32_bytes boundary_def)
  next
    case False
    then show ?thesis
      using backward_slow [OF n, of 5 before] assms Parse32_Encode32 [of v after]
      by (simp add: Parse32Backward_def Parse32BackwardSlow_def Encode32_bytes)
  qed
qed

lemma Parse64Backward_Encode64:
  assumes "boundary before"
  shows "Parse64Backward old (rev (Encode64 v) @ before) after = Parsed v before"
proof -
  have n: "unat v < 128 ^ Suc 9" using unat_uint64_less [of v] by simp
  show ?thesis
  proof (cases "length (rev (Encode64 v) @ before) > kMax64")
    case True
    then obtain t before' where b: "before = t # before'"
      using length_varint_bytes [OF n] by (cases before) (auto simp: Encode64_bytes kMax64_def)
    with assms True show ?thesis
      using backward_fast [OF n, of t before', where 'a = 64]
      unfolding Parse64Backward_def back_byte_unroll(2)
      by (simp add: Encode64_bytes boundary_def)
  next
    case False
    then show ?thesis
      using backward_slow [OF n, of 10 before] assms Parse64_Encode64 [of v after]
      by (simp add: Parse64Backward_def Parse64BackwardSlow_def Encode64_bytes)
  qed
qed

subsection \<open>Lengths\<close>

lemma bsr_le_iff: "bsr n \<le> k \<longleftrightarrow> n < 2 ^ k"
proof (induction n arbitrary: k rule: bsr.induct)
  case (1 n)
  show ?case
  proof (cases "n = 0")
    case True
    then show ?thesis by (simp add: bsr.simps)
  next
    case False
    with "1.IH" show ?thesis
      by (cases k) (simp_all add: bsr.simps [of n] div_less_iff_less_mult mult.commute)
  qed
qed

lemma length_varint_bytes_bsr: "length (varint_bytes n) = max 1 ((bsr n + 6) div 7)"
proof (induction n rule: varint_bytes.induct)
  case (1 n)
  show ?case
  proof (cases "n < 128")
    case True
    then have "bsr n \<le> 7" by (simp add: bsr_le_iff)
    then have "(bsr n + 6) div 7 \<le> 1" by simp
    with True show ?thesis by (simp add: varint_bytes.simps [of n])
  next
    case False
    then have big: "\<not> bsr n \<le> 7" by (simp add: bsr_le_iff)
    have "bsr n = Suc (Suc (Suc (Suc (Suc (Suc (Suc (bsr (n div 128))))))))"
      using False by (simp add: bsr.simps [of n] bsr.simps [of "n div 2"] bsr.simps [of "n div 4"]
          bsr.simps [of "n div 8"] bsr.simps [of "n div 16"] bsr.simps [of "n div 32"]
          bsr.simps [of "n div 64"] div_mult2_eq [symmetric] div_eq_0_iff)
    with False big "1.IH" show ?thesis by (simp add: varint_bytes.simps [of n])
  qed
qed

lemma length32_table:
  "m \<le> 32 \<Longrightarrow> length32_bytes_required ! m = max 1 ((m + 6) div 7)"
proof -
  have "\<forall>m \<in> set [0..<33]. length32_bytes_required ! m = max 1 ((m + 6) div 7)"
    by code_simp
  moreover assume "m \<le> 32"
  ultimately show ?thesis by auto
qed

lemma Length32_bytes: "Length32 v = length (varint_bytes (unat v))"
proof -
  have "bsr (unat v) \<le> 32" using unat_uint32_less [of v] by (simp add: bsr_le_iff)
  then show ?thesis by (simp add: Length32_def length32_table length_varint_bytes_bsr)
qed

lemma Length32_Encode32: "Length32 v = length (Encode32 v)"
  by (simp add: Length32_bytes Encode32_bytes)

lemma FastLength32_Encode32: "FastLength32 v = length (Encode32 v)"
  by (simp add: FastLength32_def Encode32_def Encode32Inline_def word_less_nat_alt)

lemma Length32_portable_Encode32: "Length32_portable v n = n + length (Encode32 v)"
proof (induction v n rule: Length32_portable.induct)
  case (1 v n)
  have d: "unat (drop_bit 7 v) = unat v div 128"
    by (simp add: unat_drop_bit_div)
  have "drop_bit 7 v = 0 \<longleftrightarrow> unat v < 128"
    using drop_bit_eq_0_iff_less [of 7 v] by (simp add: word_less_nat_alt)
  then show ?case
    using "1.IH" [OF refl refl] d
    by (simp add: Length32_portable.simps [of v] Encode32_bytes varint_bytes.simps [of "unat v"] Let_def)
qed

lemma Length64_Encode64: "Length64 v = length (Encode64 v)"
  by (simp add: Length64_def Encode64_def Length32_Encode32 Let_def)

subsection \<open>Pairs\<close>

function weave_nat :: "nat \<Rightarrow> nat \<Rightarrow> nat" where
  "weave_nat a b =
     (if a = 0 \<and> b = 0 then 0
      else a mod 16 + 16 * (b mod 16) + 256 * weave_nat (a div 16) (b div 16))"
  by pat_completeness auto
termination
proof (relation "measure (\<lambda>(a, b). a + b)")
  fix a b :: nat
  assume "\<not> (a = 0 \<and> b = 0)"
  then have "a div 16 + b div 16 < a + b" by linarith
  then show "((a div 16, b div 16), a, b) \<in> measure (\<lambda>(a, b). a + b)" by simp
qed simp

fun unweave_nat :: "nat \<Rightarrow> nat \<times> nat" where
  "unweave_nat w =
     (if w = 0 then (0, 0)
      else (case unweave_nat (w div 256) of (a, b) \<Rightarrow>
        (w mod 16 + 16 * a, w div 16 mod 16 + 16 * b)))"

declare weave_nat.simps [simp del] unweave_nat.simps [simp del]

lemma unweave_nat_step:
  "unweave_nat w = (case unweave_nat (w div 256) of (a, b) \<Rightarrow>
     (w mod 16 + 16 * a, w div 16 mod 16 + 16 * b))"
  by (cases "w = 0") (simp_all add: unweave_nat.simps [of w] unweave_nat.simps [of 0])

lemma unweave_weave_nat: "unweave_nat (weave_nat a b) = (a, b)"
proof (induction a b rule: weave_nat.induct)
  case (1 a b)
  show ?case
  proof (cases "a = 0 \<and> b = 0")
    case True
    then show ?thesis by (simp add: weave_nat.simps unweave_nat.simps)
  next
    case False
    let ?w = "weave_nat a b"
    define t where "t = b mod 16 + 16 * weave_nat (a div 16) (b div 16)"
    have w: "?w = a mod 16 + 16 * t"
      using False by (auto simp: weave_nat.simps [of a b] t_def)
    have w16: "?w mod 16 = a mod 16" "?w div 16 = t"
      unfolding w by simp_all
    moreover have "t mod 16 = b mod 16" "t div 16 = weave_nat (a div 16) (b div 16)"
      unfolding t_def by simp_all
    moreover have "?w div 256 = ?w div 16 div 16"
      by (simp add: div_mult2_eq [symmetric])
    ultimately show ?thesis
      using "1.IH" [OF False] by (simp add: unweave_nat_step [of ?w])
  qed
qed

lemma weave_nat_bound: "a < 16 ^ k \<Longrightarrow> b < 16 ^ k \<Longrightarrow> weave_nat a b < 256 ^ k"
proof (induction k arbitrary: a b)
  case (Suc k)
  then have "weave_nat (a div 16) (b div 16) < 256 ^ k"
    by (simp add: div_less_iff_less_mult mult.commute)
  moreover have "a mod 16 + 16 * (b mod 16) < 256"
    using mod_less_divisor [of 16 a] mod_less_divisor [of 16 b] by simp
  ultimately show ?case by (auto simp: weave_nat.simps [of a b])
qed (simp add: weave_nat.simps)

lemma and_15: "(x :: 'a::len word) AND 15 = of_nat (unat x mod 16)"
proof -
  have "x AND 15 = take_bit 4 x"
    by (simp add: take_bit_eq_mask mask_eq_exp_minus_1)
  also have "\<dots> = of_nat (take_bit 4 (unat x))"
    by (metis of_nat_unat take_bit_of_nat ucast_id)
  finally show ?thesis by (simp add: take_bit_eq_mod)
qed

lemma ucast_of_nat_32_8: "(ucast (of_nat n :: uint32) :: byte) = of_nat n"
  by (simp only: unsigned_of_nat) (simp add: word_of_nat_eq_iff take_bit_eq_mod mod_mod_cancel)

lemma ucast_of_nat_64_32: "(ucast (of_nat n :: uint64) :: uint32) = of_nat n"
  by (simp only: unsigned_of_nat) (simp add: word_of_nat_eq_iff take_bit_eq_mod mod_mod_cancel)

lemma pack_nibbles:
  "(ucast (ucast (((a :: uint32) AND 15) OR push_bit 4 (b AND 15)) :: byte) :: uint64) =
     of_nat (unat a mod 16 + 16 * (unat b mod 16))"
proof -
  let ?n = "unat a mod 16 + 16 * (unat b mod 16)"
  have "take_bit 4 (a AND 15) = a AND 15"
    by (simp add: take_bit_eq_mask mask_eq_exp_minus_1 and.assoc)
  then have "(a AND 15) OR push_bit 4 (b AND 15) = (a AND 15) + push_bit 4 (b AND 15)"
    by (rule or_push_bit_add)
  also have "\<dots> = of_nat ?n"
    by (simp add: and_15 push_bit_eq_mult mult.commute)
  finally have "(ucast ((a AND 15) OR push_bit 4 (b AND 15)) :: byte) = of_nat ?n"
    by (simp only: ucast_of_nat_32_8)
  moreover have "?n < 256"
    using mod_less_divisor [of 16 "unat a"] mod_less_divisor [of 16 "unat b"] by simp
  ultimately show ?thesis
    by (simp only: unsigned_of_nat) (simp add: take_bit_nat_eq_self)
qed

lemma weave_weave_nat:
  "take_bit s v = v \<Longrightarrow>
     weave a b s v = v + push_bit s (of_nat (weave_nat (unat a) (unat b)))"
proof (induction a b s v rule: weave.induct)
  case (1 a b s v)
  show ?case
  proof (cases "a > 0 \<or> b > 0")
    case False
    then have "a = 0" "b = 0" by (simp_all add: word_neq_0_conv [symmetric])
    then show ?thesis by (simp add: weave.simps [of 0 0] weave_nat.simps [of 0 0])
  next
    case True
    let ?n = "unat a mod 16 + 16 * (unat b mod 16)"
    let ?x = "ucast (ucast ((a AND 15) OR push_bit 4 (b AND 15)) :: byte) :: uint64"
    define v' where "v' = v OR push_bit s ?x"
    have v': "v' = v + push_bit s (of_nat ?n)"
      using or_push_bit_add [OF "1.prems"] by (simp only: v'_def pack_nibbles)
    have "?n < 256"
      using mod_less_divisor [of 16 "unat a"] mod_less_divisor [of 16 "unat b"] by simp
    then have "take_bit 8 ?x = ?x"
      by (simp only: pack_nibbles take_bit_of_nat) (simp add: take_bit_nat_eq_self)
    then have tb: "take_bit (s + 8) v' = v'"
      unfolding v'_def by (rule take_bit_extend [OF "1.prems"])
    have ne: "\<not> (unat a = 0 \<and> unat b = 0)"
      using True by (auto simp: unat_eq_0)
    have "weave a b s v = weave (drop_bit 4 a) (drop_bit 4 b) (s + 8) v'"
      using True by (simp only: weave.simps [of a] if_True Let_def v'_def)
    also have "\<dots> = v' + push_bit (s + 8)
        (of_nat (weave_nat (unat a div 16) (unat b div 16)))"
      using "1.IH" [OF True refl] tb by (simp only: v'_def unat_drop_bit_div) simp
    also have "\<dots> = v + push_bit s (of_nat (weave_nat (unat a) (unat b)))"
      using ne by (auto simp add: v' weave_nat.simps [of "unat a"] push_bit_eq_mult power_add algebra_simps)
    finally show ?thesis .
  qed
qed

lemma unweave_unweave_nat:
  assumes "take_bit s a = a" "take_bit s b = b"
  shows "unweave v s a b = (case unweave_nat (unat v) of (x, y) \<Rightarrow>
     (a + push_bit s (of_nat x), b + push_bit s (of_nat y)))"
  using assms
proof (induction v s a b rule: unweave.induct)
  case (1 v s a b)
  show ?case
  proof (cases "v > 0")
    case False
    then have "v = 0" by (simp add: word_neq_0_conv [symmetric])
    then show ?thesis by (simp add: unweave.simps [of 0] unweave_nat.simps [of 0])
  next
    case True
    let ?x = "of_nat (unat v mod 16) :: uint32" and ?y = "of_nat (unat v div 16 mod 16) :: uint32"
    have cast: "ucast (push_bit s (v AND 15)) = push_bit s ?x"
      "ucast (push_bit s (drop_bit 4 v AND 15)) = push_bit s ?y"
      by (simp_all only: and_15 unat_drop_bit_div push_bit_of_nat ucast_of_nat_64_32) simp_all
    have tb: "take_bit 4 ?x = ?x" "take_bit 4 ?y = ?y"
      by (simp_all only: take_bit_of_nat) (simp_all add: take_bit_eq_mod)
    have step: "unweave v s a b =
        unweave (drop_bit 8 v) (s + 4) (a OR push_bit s ?x) (b OR push_bit s ?y)"
      using True by (simp only: unweave.simps [of v] if_True cast)
    obtain p q where pq: "unweave_nat (unat v div 256) = (p, q)" by fastforce
    have "unweave (drop_bit 8 v) (s + 4) (a OR push_bit s ?x) (b OR push_bit s ?y) =
        ((a OR push_bit s ?x) + push_bit (s + 4) (of_nat p),
         (b OR push_bit s ?y) + push_bit (s + 4) (of_nat q))"
      using "1.IH" [OF True] take_bit_extend [OF "1.prems"(1) tb(1)]
        take_bit_extend [OF "1.prems"(2) tb(2)] pq
      by (simp only: cast unat_drop_bit_div) simp
    then show ?thesis
      using pq or_push_bit_add [OF "1.prems"(1), of ?x] or_push_bit_add [OF "1.prems"(2), of ?y]
      by (simp add: step unweave_nat_step [of "unat v"] push_bit_eq_mult power_add algebra_simps)
  qed
qed

lemma DecodeTwo32Values_slow: "DecodeTwo32Values bs = DecodeTwo32ValuesSlow bs"
proof (cases bs)
  case (Cons b r)
  show ?thesis
  proof (cases "b < 128")
    case True
    then have p: "Parse64 bs = Parsed (ucast b) r" by (simp add: Cons Parse64_def)
    have b: "unat b < 128" using True by (simp add: word_less_nat_alt)
    have "unat (ucast b :: uint64) = unat b" by (simp add: unat_ucast_up)
    then have "unweave (ucast b) 0 0 0 = (of_nat (unat b mod 16), of_nat (unat b div 16))"
      using b by (simp add: unweave_unweave_nat unweave_nat_step [of "unat b"] unweave_nat.simps [of 0])
    moreover have "(ucast b AND 15 :: uint32) = of_nat (unat b mod 16)"
      by (simp add: and_15 unat_ucast_up)
    moreover have "(ucast (drop_bit 4 b) :: uint32) = of_nat (unat b div 16)"
      using of_nat_unat [of "drop_bit 4 b", where 'a = uint32] by (simp add: unat_drop_bit_div)
    ultimately show ?thesis
      using True p by (simp add: DecodeTwo32Values_def DecodeTwo32ValuesSlow_def Cons)
  qed (simp add: Cons DecodeTwo32Values_def)
qed (simp add: DecodeTwo32Values_def DecodeTwo32ValuesSlow_def Parse64_def)

lemma Append64_Encode64: "Append64 capacity s v = s @ Encode64 v"
proof -
  have "v < 128 \<Longrightarrow> Encode64 v = [ucast v]"
    by (simp add: Encode64_bytes varint_bytes.simps [of "unat v"] word_less_nat_alt)
  then show ?thesis by (simp add: Append64_def Append64Slow_def)
qed

lemma Append32_Encode32: "Append32 capacity s v = s @ Encode32 v"
proof -
  have "v < 128 \<Longrightarrow> Encode32 v = [ucast v]"
    by (simp add: Encode32_bytes varint_bytes.simps [of "unat v"] word_less_nat_alt)
  then show ?thesis by (simp add: Append32_def Append32Slow_def)
qed

lemma DecodeTwo32Values_EncodeTwo32Values:
  "\<exists>bs. EncodeTwo32Values capacity s a b = s @ bs \<and> DecodeTwo32Values (bs @ r) = Parsed (a, b) r"
proof -
  let ?w = "weave_nat (unat a) (unat b)"
  have "?w < 256 ^ 8"
    using unat_uint32_less [of a] unat_uint32_less [of b] by (intro weave_nat_bound) simp_all
  then have "unat (weave a b 0 0) = ?w"
    by (simp add: weave_weave_nat unat_of_nat)
  then have "unweave (weave a b 0 0) 0 0 0 = (a, b)"
    by (simp add: unweave_unweave_nat unweave_weave_nat)
  then have "DecodeTwo32Values (Encode64 (weave a b 0 0) @ r) = Parsed (a, b) r"
    by (simp add: DecodeTwo32Values_slow DecodeTwo32ValuesSlow_def Parse64_Encode64)
  then show ?thesis by (auto simp: EncodeTwo32Values_def Append64_Encode64)
qed

subsection \<open>Deltas\<close>

lemma wrap_byte:
  assumes "0 \<le> (x :: int)" "x < 256"
  shows "(x + 128) mod 256 = (if x < 128 then x + 128 else x - 128)"
proof (cases "x < 128")
  case False
  have "(x + 128) mod 256 = ((x - 128) + 256) mod 256" by (simp add: add.commute)
  also have "\<dots> = (x - 128) mod 256" by (rule mod_add_self2)
  also have "\<dots> = x - 128" using assms False by (intro mod_pos_pos_trivial) auto
  finally show ?thesis using False by simp
qed (use assms in \<open>simp add: mod_pos_pos_trivial\<close>)

lemma sint_byte: "sint (b :: byte) = (if b < 128 then int (unat b) else int (unat b) - 256)"
proof -
  have u: "0 \<le> uint b" "uint b < 256"
    using unsigned_less [of b, where 'a = int] by simp_all
  have "sint b = (uint b + 128) mod 256 - 128"
    by (simp only: sint_uint signed_take_bit_eq_take_bit_shift take_bit_eq_mod) simp
  moreover have "b < 128 \<longleftrightarrow> uint b < 128" by (simp add: word_less_def)
  ultimately show ?thesis by (simp only: wrap_byte [OF u]) simp
qed

lemma int_and_127: "(x :: int) AND 127 = x mod 128"
  using take_bit_eq_mask [of 7 x] by (simp add: mask_eq_exp_minus_1 take_bit_eq_mod)

lemma deltas_loop_varint:
  assumes "n = 0 \<longrightarrow> s = 0" "int n * 2 ^ s < 2 ^ 63" "acc + int n * 2 ^ s < 2 ^ 63"
  shows "deltas_loop goal acc s (varint_bytes n @ r) =
    (if acc + int n * 2 ^ s < 0 then deltas_loop goal (acc + int n * 2 ^ s) 0 r
     else Parsed (goal + (acc + int n * 2 ^ s)) r)"
  using assms
proof (induction n arbitrary: acc s rule: less_induct)
  case (less n)
  have s: "s < 64"
  proof (cases "n = 0")
    case False
    then have "(2 :: int) ^ s \<le> int n * 2 ^ s" by simp
    then have "(2 :: int) ^ s < 2 ^ 63" using less.prems(2) by linarith
    then have "s < 63" by (simp only: power_strict_increasing_iff)
    then show ?thesis by simp
  qed (use less.prems in simp)
  show ?case
  proof (cases "n < 128")
    case True
    then have "sint (of_nat n :: byte) = int n" by (simp add: sint_byte)
    then show ?thesis
      using True s less.prems(2,3) by (simp add: varint_bytes.simps [of n] int_and_127 push_bit_eq_mult)
  next
    case False
    let ?b = "of_nat (n mod 128 + 128) :: byte"
    have b: "sint ?b = int (n mod 128) - 128"
      using byte_unat_of_nat [of "n mod 128 + 128"] byte_of_nat_less_128 [of "n mod 128 + 128"]
      by (simp add: sint_byte)
    have part: "(int (n mod 128) - 128) AND 127 = int (n mod 128)"
      by (simp add: int_and_127 zmod_int)
    have neg: "int (n mod 128) - 128 < 0" by simp
    have split: "int (n mod 128) * 2 ^ s + int (n div 128) * 2 ^ (s + 7) = int n * 2 ^ s"
    proof -
      have "int n = int (n mod 128) + 128 * int (n div 128)"
        by (metis mod_mult_div_eq of_nat_add of_nat_mult of_nat_numeral)
      then show ?thesis by (simp add: power_add algebra_simps)
    qed
    have le: "0 \<le> int (n mod 128) * 2 ^ s" "0 \<le> int (n div 128) * 2 ^ (s + 7)" by simp_all
    have acc': "acc + int (n mod 128) * 2 ^ s + int (n div 128) * 2 ^ (s + 7) = acc + int n * 2 ^ s"
      using split by linarith
    have "int (n div 128) * 2 ^ (s + 7) < 2 ^ 63"
      using split le less.prems(2) by linarith
    then have "deltas_loop goal (acc + int (n mod 128) * 2 ^ s) (s + 7) (varint_bytes (n div 128) @ r) =
      (if acc + int n * 2 ^ s < 0 then deltas_loop goal (acc + int n * 2 ^ s) 0 r
       else Parsed (goal + (acc + int n * 2 ^ s)) r)"
      using less.IH [of "n div 128" "s + 7" "acc + int (n mod 128) * 2 ^ s"] False less.prems
      unfolding acc' by (simp add: div_greater_zero_iff)
    moreover have "\<not> 2 ^ 63 \<le> int (n mod 128) * 2 ^ s" "\<not> 2 ^ 63 \<le> acc + int (n mod 128) * 2 ^ s"
      using less.prems split le by linarith+
    moreover have "varint_bytes n = ?b # varint_bytes (n div 128)"
      using False by (simp add: varint_bytes.simps [of n])
    ultimately show ?thesis
      using s neg by (simp only: append_Cons deltas_loop.simps b part Let_def push_bit_eq_mult
          not_le [symmetric] if_False if_True simp_thms)
  qed
qed

text \<open>The bytes of a sequence of deltas as an index writes them, one 64-bit varint each.\<close>

definition delta_bytes :: "nat list \<Rightarrow> byte list" where
  "delta_bytes ds = concat (map (\<lambda>d. Encode64 (of_nat d)) ds)"

lemma FastDecodeDeltas_deltas:
  assumes "int (sum_list pre) < goal" "goal \<le> int (sum_list pre + d)"
    and "goal < 2 ^ 63" "sum_list pre + d < 2 ^ 63"
  shows "FastDecodeDeltas (delta_bytes (pre @ [d]) @ r) goal = Parsed (int (sum_list pre + d)) r"
proof -
  have enc: "x < 2 ^ 63 \<Longrightarrow> Encode64 (of_nat x) = varint_bytes x" for x
    by (simp add: Encode64_bytes unat_of_nat)
  have "deltas_loop goal (int a - goal) 0 (delta_bytes (ds @ [d]) @ r) =
      Parsed (int (a + sum_list ds + d)) r"
    if "int (a + sum_list ds) < goal" "goal \<le> int (a + sum_list ds + d)" "a + sum_list ds + d < 2 ^ 63" for a ds
    using that
  proof (induction ds arbitrary: a)
    case Nil
    then show ?case
      using deltas_loop_varint [of d 0 "int a - goal" goal r] assms(3) enc [of d]
      by (simp add: delta_bytes_def)
  next
    case (Cons x ds)
    then have "int a + int x - goal < 0" by simp
    then show ?case
      using deltas_loop_varint [of x 0 "int a - goal" goal] Cons.IH [of "a + x"] Cons.prems
        assms(1,3) enc [of x]
      by (simp add: delta_bytes_def algebra_simps)
  qed
  from this [of 0 pre] show ?thesis using assms by (simp add: FastDecodeDeltas_def)
qed

section \<open>Properties\<close>

text \<open>
  C16: 32-bit varint round trip. Whatever follows the encoding, every parser reads back the
  value and stops right behind it, skipping stops there too, and the encoding has at most
  five bytes.
\<close>

theorem varint32_round_trip:
  "Parse32 (Encode32 v @ r) = Parsed v r \<and> Parse32Inline (Encode32 v @ r) = Parsed v r \<and>
   Parse32WithLimit (Encode32 v @ r) = Parsed v r \<and> Skip32 (Encode32 v @ r) = Parsed () r \<and>
   length (Encode32 v) \<le> kMax32"
proof -
  have "unat v < 2 ^ 32" using unsigned_less [of v] by simp
  then have "length (Encode32 v) \<le> kMax32"
    using length_varint_bytes [of "unat v" 4] by (simp add: Encode32_bytes kMax32_def)
  then show ?thesis
    by (simp add: Parse32_Encode32 Parse32Inline_eq Parse32WithLimit_at_limit Skip32_Parse32)
qed

text \<open>
  C20: 64-bit varint round trip. Whatever follows the encoding, both parsers read back the
  value and stop right behind it, skipping stops there too, and the encoding has at most ten
  bytes.
\<close>

theorem varint64_round_trip:
  "Parse64 (Encode64 v @ r) = Parsed v r \<and> Parse64WithLimit (Encode64 v @ r) = Parsed v r \<and>
   Skip64 (Encode64 v @ r) = Parsed () r \<and> length (Encode64 v) \<le> kMax64"
proof -
  have "unat v < 2 ^ 64" using unsigned_less [of v] by simp
  then have "length (Encode64 v) \<le> kMax64"
    using length_varint_bytes [of "unat v" 9] by (simp add: Encode64_bytes kMax64_def)
  then show ?thesis
    by (simp add: Parse64_Encode64 Parse64WithLimit_at_limit Skip64_Parse64)
qed

text \<open>
  C22: The parsers with a limit are safe and lose nothing. On every input they return what the
  parsers without a limit return, except that they report failure where those would read past
  the limit.
\<close>

theorem varint_limit_exact:
  "Parse32WithLimit p = at_limit (Parse32 p) \<and> Parse64WithLimit p = at_limit (Parse64 p) \<and>
   Parse32WithLimit p \<noteq> Overrun \<and> Parse64WithLimit p \<noteq> Overrun"
  by (cases "Parse32 p"; cases "Parse64 p")
    (simp_all add: Parse32WithLimit_at_limit Parse64WithLimit_at_limit)

text \<open>
  Backward parsing. Where a varint ends at a position and the bytes before it end another
  varint or are at the start of the buffer, the backward parsers return its value and the
  position where it starts.
\<close>

theorem varint_backward:
  assumes "boundary before"
  shows "Parse32Backward old (rev (Encode32 v) @ before) after = Parsed v before \<and>
    Parse64Backward old' (rev (Encode64 w) @ before) after = Parsed w before"
  using assms by (simp add: Parse32Backward_Encode32 Parse64Backward_Encode64)

theorem varint_backward_witness:
  "boundary [5, 200] \<and> Parse32Backward 0 (rev (Encode32 300) @ [5, 200]) [] = Parsed 300 [5, 200] \<and>
   Parse64Backward 0 (rev (Encode64 0xFFFFFFFFFF) @ [5, 200]) [] = Parsed 0xFFFFFFFFFF [5, 200]"
proof -
  have "boundary [5, 200]" by (simp add: boundary_def)
  from varint_backward [OF this] this show ?thesis by blast
qed

text \<open>
  The length functions. All four of them, the one that indexes a table by the position of
  the highest bit included, return the number of bytes the encoder writes.
\<close>

theorem varint_length_exact:
  "Length32 v = length (Encode32 v) \<and> Length32NonInline v = length (Encode32 v) \<and>
   Length32_portable v 0 = length (Encode32 v) \<and> Length64 w = length (Encode64 w)"
  by (simp add: Length32_Encode32 Length32NonInline_def FastLength32_Encode32
      Length32_portable_Encode32 Length64_Encode64)

text \<open>
  Two interleaved 32-bit values. What \<^verbatim>\<open>EncodeTwo32Values\<close> appends to a string,
  \<^verbatim>\<open>DecodeTwo32Values\<close> reads back, with both values intact and the position behind them.
\<close>

theorem two32_round_trip:
  "\<exists>bs. EncodeTwo32Values capacity s a b = s @ bs \<and> DecodeTwo32Values (bs @ r) = Parsed (a, b) r"
  by (rule DecodeTwo32Values_EncodeTwo32Values)

text \<open>
  Delta decoding. From the encodings of a list of deltas, \<^verbatim>\<open>FastDecodeDeltas\<close> returns the
  first partial sum that reaches the goal and the position behind its last delta, as long as
  the sums fit in 63 bits.
\<close>

theorem fast_decode_deltas:
  assumes "int (sum_list pre) < goal" "goal \<le> int (sum_list pre + d)"
    and "goal < 2 ^ 63" "sum_list pre + d < 2 ^ 63"
  shows "FastDecodeDeltas (delta_bytes (pre @ [d]) @ r) goal = Parsed (int (sum_list pre + d)) r"
  using assms by (rule FastDecodeDeltas_deltas)

theorem fast_decode_deltas_witness:
  "FastDecodeDeltas (delta_bytes [3, 0, 200] @ [7]) 100 = Parsed 203 [7]"
  using fast_decode_deltas [of "[3, 0]" 100 200 "[7]"] by simp

end
