(* ===== verification/IO_Buffer.thy ===== *)
theory IO_Buffer
  imports Sling_Prelude
begin

text \<open>
  The growing memory buffer of \<^verbatim>\<open>sling/util/iobuffer.h\<close> and \<^verbatim>\<open>sling/util/iobuffer.cc\<close>.
  The four pointers \<^verbatim>\<open>floor_ <= begin_ <= end_ <= ceil_\<close> are the allocated block
  (\<open>io_memory\<close>, whose length is \<^verbatim>\<open>ceil_ - floor_\<close>) and the offsets of \<^verbatim>\<open>begin_\<close> and
  \<^verbatim>\<open>end_\<close> in it. A cell is \<open>None\<close> while the memory is indeterminate, as \<^verbatim>\<open>realloc\<close>
  leaves it. Allocation is taken to succeed. An operation whose \<^verbatim>\<open>DCHECK\<close> fails has no
  result. The buffer implements a first-in first-out queue of bytes: the abstraction is
  \<open>io_data\<close>, the used part.
\<close>

section \<open>The buffer\<close>

type_synonym cell = "byte option"

record IOBuffer =
  io_memory :: "cell list"
  io_begin :: nat
  io_end :: nat

definition IOBuffer_init :: IOBuffer where
  "IOBuffer_init = \<lparr>io_memory = [], io_begin = 0, io_end = 0\<rparr>"

definition io_capacity :: "IOBuffer \<Rightarrow> nat" where
  "io_capacity b = length (io_memory b)"

definition io_consumed :: "IOBuffer \<Rightarrow> nat" where
  "io_consumed b = io_begin b"

definition io_available :: "IOBuffer \<Rightarrow> nat" where
  "io_available b = io_end b - io_begin b"

definition io_remaining :: "IOBuffer \<Rightarrow> nat" where
  "io_remaining b = length (io_memory b) - io_end b"

definition io_empty :: "IOBuffer \<Rightarrow> bool" where
  "io_empty b \<longleftrightarrow> io_begin b = io_end b"

definition io_full :: "IOBuffer \<Rightarrow> bool" where
  "io_full b \<longleftrightarrow> io_end b = length (io_memory b)"

definition io_data :: "IOBuffer \<Rightarrow> cell list" where
  "io_data b = take (io_end b - io_begin b) (drop (io_begin b) (io_memory b))"

text \<open>\<^verbatim>\<open>realloc\<close> keeps the common prefix; the rest of a larger block is indeterminate.\<close>

definition realloc :: "cell list \<Rightarrow> nat \<Rightarrow> cell list" where
  "realloc mem n = take n mem @ replicate (n - length mem) None"

text \<open>\<^verbatim>\<open>memcpy\<close> and \<^verbatim>\<open>memmove\<close> into a block at an offset.\<close>

definition store_cells :: "nat \<Rightarrow> cell list \<Rightarrow> cell list \<Rightarrow> cell list" where
  "store_cells off cs mem = take off mem @ cs @ drop (off + length cs) mem"

definition IOBuffer_Clear :: "IOBuffer \<Rightarrow> IOBuffer" where
  "IOBuffer_Clear b = b\<lparr>io_begin := 0, io_end := 0\<rparr>"

definition IOBuffer_Reset :: "nat \<Rightarrow> IOBuffer \<Rightarrow> IOBuffer" where
  "IOBuffer_Reset n b =
     (let b = (if n \<noteq> io_capacity b
               then if n = 0 then \<lparr>io_memory = [], io_begin = 0, io_end = 0\<rparr>
                    else b\<lparr>io_memory := realloc (io_memory b) n\<rparr>
               else b)
      in b\<lparr>io_begin := 0, io_end := 0\<rparr>)"

definition IOBuffer_Resize :: "nat \<Rightarrow> IOBuffer \<Rightarrow> IOBuffer" where
  "IOBuffer_Resize n b =
     (if n \<noteq> io_capacity b
      then let offset = io_begin b; used = io_end b - io_begin b
           in b\<lparr>io_memory := realloc (io_memory b) n, io_begin := offset, io_end := offset + used\<rparr>
      else b)"

definition IOBuffer_Flush :: "IOBuffer \<Rightarrow> IOBuffer" where
  "IOBuffer_Flush b =
     (if 0 < io_begin b
      then let used = io_end b - io_begin b
           in b\<lparr>io_memory := store_cells 0 (take used (drop (io_begin b) (io_memory b))) (io_memory b),
                 io_begin := 0, io_end := used\<rparr>
      else b)"

text \<open>The doubling loop of \<^verbatim>\<open>Ensure\<close>; it is entered with a positive size.\<close>

function grow_size :: "nat \<Rightarrow> nat \<Rightarrow> nat" where
  "grow_size newsize minsize =
     (if newsize < minsize \<and> 0 < newsize then grow_size (newsize * 2) minsize else newsize)"
  by pat_completeness auto
termination by (relation "measure (\<lambda>(newsize, minsize). minsize - newsize)") auto

declare grow_size.simps [simp del]

definition IOBuffer_Ensure :: "nat \<Rightarrow> IOBuffer \<Rightarrow> IOBuffer" where
  "IOBuffer_Ensure n b =
     (if io_remaining b < n
      then let minsize = io_end b + n;
               newsize = io_capacity b;
               newsize = (if newsize = 0 then 4096 else newsize)
           in IOBuffer_Resize (grow_size newsize minsize) b
      else b)"

text \<open>\<^verbatim>\<open>Append\<close> returns the offset of the space it adds, \<^verbatim>\<open>Consume\<close> the bytes it removes.\<close>

definition IOBuffer_Append :: "nat \<Rightarrow> IOBuffer \<Rightarrow> nat \<times> IOBuffer" where
  "IOBuffer_Append n b =
     (let b = IOBuffer_Ensure n b in (io_end b, b\<lparr>io_end := io_end b + n\<rparr>))"

definition IOBuffer_Consume :: "nat \<Rightarrow> IOBuffer \<Rightarrow> (cell list \<times> IOBuffer) option" where
  "IOBuffer_Consume n b =
     (if n \<le> io_available b
      then Some (take n (drop (io_begin b) (io_memory b)), b\<lparr>io_begin := io_begin b + n\<rparr>)
      else None)"

definition IOBuffer_Read :: "nat \<Rightarrow> IOBuffer \<Rightarrow> cell list option \<times> IOBuffer" where
  "IOBuffer_Read n b =
     (if n > io_available b then (None, b)
      else (Some (take n (drop (io_begin b) (io_memory b))), b\<lparr>io_begin := io_begin b + n\<rparr>))"

definition IOBuffer_Write :: "cell list \<Rightarrow> IOBuffer \<Rightarrow> IOBuffer" where
  "IOBuffer_Write cs b =
     (let b = IOBuffer_Ensure (length cs) b
      in b\<lparr>io_memory := store_cells (io_end b) cs (io_memory b), io_end := io_end b + length cs\<rparr>)"

definition IOBuffer_Copy :: "IOBuffer \<Rightarrow> nat \<Rightarrow> IOBuffer \<Rightarrow> (IOBuffer \<times> IOBuffer) option" where
  "IOBuffer_Copy source n b =
     (case IOBuffer_Consume n source of
        None \<Rightarrow> None
      | Some (cs, source) \<Rightarrow> Some (IOBuffer_Write cs b, source))"

definition IOBuffer_Unread :: "nat \<Rightarrow> IOBuffer \<Rightarrow> IOBuffer option" where
  "IOBuffer_Unread n b =
     (if n \<le> io_consumed b then Some (b\<lparr>io_begin := io_begin b - n\<rparr>) else None)"

definition IOBuffer_Unwrite :: "nat \<Rightarrow> IOBuffer \<Rightarrow> IOBuffer option" where
  "IOBuffer_Unwrite n b =
     (if n \<le> io_available b then Some (b\<lparr>io_end := io_end b - n\<rparr>) else None)"

section \<open>Invariant and behaviour\<close>

definition io_inv :: "IOBuffer \<Rightarrow> bool" where
  "io_inv b \<longleftrightarrow> io_begin b \<le> io_end b \<and> io_end b \<le> length (io_memory b)"

lemmas io_defs = io_inv_def io_data_def io_capacity_def io_available_def io_remaining_def
  io_consumed_def

lemma length_realloc [simp]: "length (realloc mem n) = n"
  by (simp add: realloc_def)

lemma take_realloc: "k \<le> n \<Longrightarrow> k \<le> length mem \<Longrightarrow> take k (realloc mem n) = take k mem"
  by (simp add: realloc_def min_def)

lemma length_store_cells [simp]:
  "off + length cs \<le> length mem \<Longrightarrow> length (store_cells off cs mem) = length mem"
  by (simp add: store_cells_def)

lemma take_store_cells:
  "off \<le> length mem \<Longrightarrow> take (off + length cs) (store_cells off cs mem) = take off mem @ cs"
  by (simp add: store_cells_def)

lemma io_data_take: "io_data b = drop (io_begin b) (take (io_end b) (io_memory b))"
  by (simp add: io_data_def drop_take)

lemma length_io_data: "io_inv b \<Longrightarrow> length (io_data b) = io_available b"
  by (auto simp: io_defs)

lemma grow_size_bound: "0 < newsize \<Longrightarrow> minsize \<le> grow_size newsize minsize"
  by (induction newsize minsize rule: grow_size.induct) (subst grow_size.simps, auto)

lemma grow_size_least:
  "0 < newsize \<Longrightarrow> grow_size newsize minsize \<le> max newsize (2 * minsize)"
proof (induction newsize minsize rule: grow_size.induct)
  case (1 newsize minsize)
  then show ?case by (cases "newsize < minsize") (auto simp: grow_size.simps [of newsize])
qed

lemma grow_size_ge: "newsize \<le> grow_size newsize minsize"
proof (induction newsize minsize rule: grow_size.induct)
  case (1 newsize minsize)
  then show ?case
    by (cases "newsize < minsize \<and> 0 < newsize") (auto simp: grow_size.simps [of newsize])
qed

lemma Resize_keeps:
  assumes "io_inv b" "io_end b \<le> n"
  shows "io_inv (IOBuffer_Resize n b)" "io_data (IOBuffer_Resize n b) = io_data b"
    and "io_capacity (IOBuffer_Resize n b) = n"
    and "io_end (IOBuffer_Resize n b) = io_end b" "io_begin (IOBuffer_Resize n b) = io_begin b"
  using assms by (auto simp: IOBuffer_Resize_def io_inv_def io_data_take io_capacity_def take_realloc)

lemma Ensure_keeps:
  assumes "io_inv b"
  shows "io_inv (IOBuffer_Ensure n b)" "io_data (IOBuffer_Ensure n b) = io_data b"
    and "n \<le> io_remaining (IOBuffer_Ensure n b)"
    and "io_end (IOBuffer_Ensure n b) = io_end b" "io_begin (IOBuffer_Ensure n b) = io_begin b"
proof -
  define m where "m = grow_size (if io_capacity b = 0 then 4096 else io_capacity b) (io_end b + n)"
  have m: "io_end b + n \<le> m" unfolding m_def by (rule grow_size_bound) simp
  then have le: "io_end b \<le> m" by simp
  note keeps = Resize_keeps [OF assms le]
  have eq: "IOBuffer_Ensure n b = (if io_remaining b < n then IOBuffer_Resize m b else b)"
    by (simp add: IOBuffer_Ensure_def m_def)
  show "io_inv (IOBuffer_Ensure n b)" "io_data (IOBuffer_Ensure n b) = io_data b"
    "io_end (IOBuffer_Ensure n b) = io_end b" "io_begin (IOBuffer_Ensure n b) = io_begin b"
    using assms keeps by (simp_all add: eq)
  show "n \<le> io_remaining (IOBuffer_Ensure n b)"
    using m keeps(3,4) by (auto simp: eq io_remaining_def io_capacity_def)
qed

lemma Write_appends:
  assumes "io_inv b"
  shows "io_inv (IOBuffer_Write cs b)" "io_data (IOBuffer_Write cs b) = io_data b @ cs"
proof -
  define b' where "b' = IOBuffer_Ensure (length cs) b"
  note keeps = Ensure_keeps [OF assms, of "length cs", folded b'_def]
  have room: "io_end b' + length cs \<le> length (io_memory b')"
    using keeps(1,3) by (auto simp: io_defs)
  have eq: "IOBuffer_Write cs b =
      b'\<lparr>io_memory := store_cells (io_end b') cs (io_memory b'), io_end := io_end b' + length cs\<rparr>"
    by (simp add: IOBuffer_Write_def b'_def Let_def)
  show "io_inv (IOBuffer_Write cs b)"
    using keeps(1) room by (simp add: eq io_inv_def)
  have "io_data (IOBuffer_Write cs b) = drop (io_begin b') (take (io_end b') (io_memory b') @ cs)"
    using room by (simp add: eq io_data_take take_store_cells)
  also have "\<dots> = io_data b' @ cs"
    using keeps(1) by (simp add: io_data_take io_inv_def)
  finally show "io_data (IOBuffer_Write cs b) = io_data b @ cs" by (simp add: keeps(2))
qed

lemma io_data_begin:
  assumes "io_begin b + n \<le> io_end b"
  shows "io_data (b\<lparr>io_begin := io_begin b + n\<rparr>) = drop n (io_data b)"
    and "take n (drop (io_begin b) (io_memory b)) = take n (io_data b)"
  using assms by (simp_all add: io_data_take drop_drop add.commute) (simp add: take_drop)

lemma Read_consumes:
  assumes "io_inv b"
  shows "IOBuffer_Read n b =
    (if n \<le> length (io_data b) then (Some (take n (io_data b)), b\<lparr>io_begin := io_begin b + n\<rparr>)
     else (None, b))"
  using assms io_data_begin(2) [of b n] by (auto simp: IOBuffer_Read_def length_io_data io_available_def io_inv_def)

lemma Consume_consumes:
  assumes "io_inv b" "n \<le> length (io_data b)"
  shows "IOBuffer_Consume n b = Some (take n (io_data b), b\<lparr>io_begin := io_begin b + n\<rparr>)"
    and "io_inv (b\<lparr>io_begin := io_begin b + n\<rparr>)"
    and "io_data (b\<lparr>io_begin := io_begin b + n\<rparr>) = drop n (io_data b)"
proof -
  have le: "io_begin b + n \<le> io_end b"
    using assms by (auto simp: length_io_data io_available_def io_inv_def)
  then show "IOBuffer_Consume n b = Some (take n (io_data b), b\<lparr>io_begin := io_begin b + n\<rparr>)"
    using assms by (simp add: IOBuffer_Consume_def length_io_data io_data_begin)
  show "io_inv (b\<lparr>io_begin := io_begin b + n\<rparr>)" using le assms(1) by (simp add: io_inv_def)
qed (use assms in \<open>auto simp: length_io_data io_available_def io_inv_def intro!: io_data_begin\<close>)

lemma Flush_keeps:
  assumes "io_inv b"
  shows "io_inv (IOBuffer_Flush b)" "io_data (IOBuffer_Flush b) = io_data b"
    and "io_consumed (IOBuffer_Flush b) = 0"
proof -
  have len: "length (take (io_end b - io_begin b) (drop (io_begin b) (io_memory b))) = io_end b - io_begin b"
    using assms by (auto simp: io_inv_def min_def)
  show "io_inv (IOBuffer_Flush b)"
    using assms len by (auto simp: IOBuffer_Flush_def io_inv_def Let_def)
  show "io_data (IOBuffer_Flush b) = io_data b"
    using len by (simp add: IOBuffer_Flush_def io_data_def Let_def store_cells_def)
  show "io_consumed (IOBuffer_Flush b) = 0"
    by (simp add: IOBuffer_Flush_def io_consumed_def Let_def)
qed

lemma Unread_restores:
  assumes "io_inv b" "n \<le> io_begin b"
  shows "IOBuffer_Unread n b = Some (b\<lparr>io_begin := io_begin b - n\<rparr>)"
    and "io_inv (b\<lparr>io_begin := io_begin b - n\<rparr>)"
    and "io_data (b\<lparr>io_begin := io_begin b - n\<rparr>) =
      take n (drop (io_begin b - n) (io_memory b)) @ io_data b"
proof -
  have "take (n + (io_end b - io_begin b)) (drop (io_begin b - n) (io_memory b)) =
      take n (drop (io_begin b - n) (io_memory b)) @
      take (io_end b - io_begin b) (drop n (drop (io_begin b - n) (io_memory b)))"
    by (rule take_add)
  moreover have "io_end b - (io_begin b - n) = n + (io_end b - io_begin b)"
    using assms by (simp add: io_inv_def)
  ultimately show "io_data (b\<lparr>io_begin := io_begin b - n\<rparr>) =
      take n (drop (io_begin b - n) (io_memory b)) @ io_data b"
    using assms by (simp add: io_data_def)
qed (use assms in \<open>auto simp: io_inv_def IOBuffer_Unread_def io_consumed_def\<close>)

lemma Unwrite_drops:
  assumes "io_inv b" "n \<le> length (io_data b)"
  shows "IOBuffer_Unwrite n b = Some (b\<lparr>io_end := io_end b - n\<rparr>)"
    and "io_inv (b\<lparr>io_end := io_end b - n\<rparr>)"
    and "io_data (b\<lparr>io_end := io_end b - n\<rparr>) = take (length (io_data b) - n) (io_data b)"
  using assms
  by (auto simp: IOBuffer_Unwrite_def length_io_data io_available_def io_inv_def io_data_def
      take_all_iff intro: arg_cong2 [where f = take])

section \<open>Properties\<close>



text \<open>
  What was read can be unread and what was written can be taken back. Taking back the bytes
  of a write leaves the data as it was, and unreading the bytes of a read brings them back to
  the front.
\<close>

theorem iobuffer_undo:
  assumes "io_inv b" "n \<le> length (io_data b)"
  shows "\<exists>b'. IOBuffer_Unread n (b\<lparr>io_begin := io_begin b + n\<rparr>) = Some b' \<and> io_data b' = io_data b \<and>
    (\<exists>b''. IOBuffer_Unwrite (length cs) (IOBuffer_Write cs b) = Some b'' \<and> io_inv b'' \<and> io_data b'' = io_data b)"
proof -
  note w = Write_appends [OF assms(1), of cs]
  have len: "length cs \<le> length (io_data (IOBuffer_Write cs b))" using w(2) by simp
  show ?thesis
    using Unread_restores(1) [OF Consume_consumes(2) [OF assms], of n] Unwrite_drops [OF w(1) len] w(2) by simp
qed

theorem iobuffer_undo_witness:
  "\<exists>b'. IOBuffer_Unread 1 (\<lparr>io_memory = [Some 7, Some 8], io_begin = 1, io_end = 2\<rparr>) = Some b' \<and>
     io_data b' = [Some 7, Some 8]"
proof -
  let ?b = "\<lparr>io_memory = [Some 7, Some 8], io_begin = 0, io_end = 2\<rparr> :: IOBuffer"
  have "io_inv ?b" "1 \<le> length (io_data ?b)" by (simp_all add: io_inv_def io_data_def)
  from iobuffer_undo [OF this, of "[]"] show ?thesis by (auto simp: io_data_def)
qed

end
