(* ===== verification/Input_Streams.thy ===== *)
theory Input_Streams
  imports Varint IO_Buffer "HOL-Library.Monad_Syntax" "HOL-Library.Sublist"
begin

text \<open>
  Zero-copy input: the interface \<^verbatim>\<open>InputStream\<close> of \<^verbatim>\<open>sling/stream/stream.h\<close>, its
  implementations \<^verbatim>\<open>ArrayInputStream\<close>, \<^verbatim>\<open>IOBufferInputStream\<close> (\<^verbatim>\<open>memory.cc\<close>) and
  \<^verbatim>\<open>BoundedInputStream\<close> (\<^verbatim>\<open>bounded.cc\<close>), and the buffered reader \<^verbatim>\<open>Input\<close> (\<^verbatim>\<open>input.h\<close>,
  \<^verbatim>\<open>input.cc\<close>) that reads bytes, lines, strings and varints through any of them. The
  virtual methods are a record of functions that the operations of \<open>Input\<close> take as their
  first argument. The documented contract of the interface is the locale \<open>input_stream\<close>;
  the reader is proved correct once inside it and the locale is interpreted on every
  implementation. Sizes and positions are natural numbers; where the code converts an
  unsigned 32-bit length to \<^verbatim>\<open>int\<close> the conversion is written out.
\<close>

section \<open>The interface and its implementations\<close>

text \<open>
  \<open>in_Next\<close> delivers a chunk or nothing, \<open>in_BackUp\<close> has no result when a \<^verbatim>\<open>CHECK\<close> of the
  implementation fails.
\<close>

record 's InputStream =
  in_Next :: "'s \<Rightarrow> byte list option \<times> 's"
  in_BackUp :: "nat \<Rightarrow> 's \<Rightarrow> 's option"
  in_Skip :: "nat \<Rightarrow> 's \<Rightarrow> bool \<times> 's"
  in_ByteCount :: "'s \<Rightarrow> int"

subsection \<open>\<open>ArrayInputStream\<close>\<close>

record ArrayInputStream =
  ai_data :: "byte list"
  ai_size :: nat
  ai_block_size :: nat
  ai_position :: nat

definition ArrayInputStream_init :: "byte list \<Rightarrow> int \<Rightarrow> ArrayInputStream" where
  "ArrayInputStream_init data block_size =
     \<lparr>ai_data = data, ai_size = length data,
      ai_block_size = (if block_size > 0 then nat block_size else length data), ai_position = 0\<rparr>"

definition ArrayInputStream_Next :: "ArrayInputStream \<Rightarrow> byte list option \<times> ArrayInputStream" where
  "ArrayInputStream_Next s =
     (let n = ai_size s - ai_position s
      in if n > 0
         then let n = (if n > ai_block_size s then ai_block_size s else n)
              in (Some (take n (drop (ai_position s) (ai_data s))), s\<lparr>ai_position := ai_position s + n\<rparr>)
         else (None, s))"

definition ArrayInputStream_BackUp :: "nat \<Rightarrow> ArrayInputStream \<Rightarrow> ArrayInputStream option" where
  "ArrayInputStream_BackUp count s =
     (if count \<le> ai_position s then Some (s\<lparr>ai_position := ai_position s - count\<rparr>) else None)"

definition ArrayInputStream_Skip :: "nat \<Rightarrow> ArrayInputStream \<Rightarrow> bool \<times> ArrayInputStream" where
  "ArrayInputStream_Skip count s =
     (let left = ai_size s - ai_position s
      in if count > left then (False, s\<lparr>ai_position := ai_size s\<rparr>)
         else (True, s\<lparr>ai_position := ai_position s + count\<rparr>))"

definition ArrayInputStream_ByteCount :: "ArrayInputStream \<Rightarrow> int" where
  "ArrayInputStream_ByteCount s = int (ai_position s)"

definition ArrayInputStream_vtable :: "ArrayInputStream InputStream" where
  "ArrayInputStream_vtable =
     \<lparr>in_Next = ArrayInputStream_Next, in_BackUp = ArrayInputStream_BackUp,
      in_Skip = ArrayInputStream_Skip, in_ByteCount = ArrayInputStream_ByteCount\<rparr>"

subsection \<open>\<open>IOBufferInputStream\<close>\<close>

text \<open>The bytes behind a pointer into the buffer; indeterminate cells have no byte.\<close>

definition cell_bytes :: "cell list \<Rightarrow> byte list" where
  "cell_bytes cs = map the cs"

definition IOBufferInputStream_Next :: "IOBuffer \<Rightarrow> byte list option \<times> IOBuffer" where
  "IOBufferInputStream_Next b =
     (let n = io_available b
      in if n > 0
         then case IOBuffer_Consume n b of
                Some (cs, b) \<Rightarrow> (Some (cell_bytes cs), b)
              | None \<Rightarrow> (None, b)
         else (None, b))"

definition IOBufferInputStream_BackUp :: "nat \<Rightarrow> IOBuffer \<Rightarrow> IOBuffer option" where
  "IOBufferInputStream_BackUp count b = IOBuffer_Unread count b"

definition IOBufferInputStream_Skip :: "nat \<Rightarrow> IOBuffer \<Rightarrow> bool \<times> IOBuffer" where
  "IOBufferInputStream_Skip count b =
     (let left = io_available b
      in if count > left
         then (case IOBuffer_Consume left b of Some (_, b) \<Rightarrow> (False, b) | None \<Rightarrow> (False, b))
         else (case IOBuffer_Consume count b of Some (_, b) \<Rightarrow> (True, b) | None \<Rightarrow> (False, b)))"

definition IOBufferInputStream_ByteCount :: "IOBuffer \<Rightarrow> int" where
  "IOBufferInputStream_ByteCount b = int (io_consumed b)"

definition IOBufferInputStream_vtable :: "IOBuffer InputStream" where
  "IOBufferInputStream_vtable =
     \<lparr>in_Next = IOBufferInputStream_Next, in_BackUp = IOBufferInputStream_BackUp,
      in_Skip = IOBufferInputStream_Skip, in_ByteCount = IOBufferInputStream_ByteCount\<rparr>"

subsection \<open>\<open>BoundedInputStream\<close>\<close>

text \<open>The bytes left may be negative when the last chunk of the underlying stream overshot.\<close>

record 's BoundedInputStream =
  bi_input :: 's
  bi_left :: int
  bi_start :: int

definition BoundedInputStream_init :: "'s InputStream \<Rightarrow> 's \<Rightarrow> int \<Rightarrow> 's BoundedInputStream" where
  "BoundedInputStream_init vt input limit =
     \<lparr>bi_input = input, bi_left = limit, bi_start = in_ByteCount vt input\<rparr>"

definition BoundedInputStream_close :: "'s InputStream \<Rightarrow> 's BoundedInputStream \<Rightarrow> 's option" where
  "BoundedInputStream_close vt s =
     (if bi_left s < 0 then in_BackUp vt (nat (- bi_left s)) (bi_input s) else Some (bi_input s))"

definition BoundedInputStream_Next ::
    "'s InputStream \<Rightarrow> 's BoundedInputStream \<Rightarrow> byte list option \<times> 's BoundedInputStream" where
  "BoundedInputStream_Next vt s =
     (if bi_left s \<le> 0 then (None, s)
      else case in_Next vt (bi_input s) of
        (None, input) \<Rightarrow> (None, s\<lparr>bi_input := input\<rparr>)
      | (Some data, input) \<Rightarrow>
          (let left = bi_left s - int (length data);
               size = (if left < 0 then int (length data) + left else int (length data))
           in (Some (take (nat size) data), s\<lparr>bi_input := input, bi_left := left\<rparr>)))"

definition BoundedInputStream_BackUp ::
    "'s InputStream \<Rightarrow> nat \<Rightarrow> 's BoundedInputStream \<Rightarrow> 's BoundedInputStream option" where
  "BoundedInputStream_BackUp vt count s =
     (if bi_left s < 0
      then do {
        input \<leftarrow> in_BackUp vt (nat (int count - bi_left s)) (bi_input s);
        Some (s\<lparr>bi_input := input, bi_left := int count\<rparr>)
      }
      else do {
        input \<leftarrow> in_BackUp vt count (bi_input s);
        Some (s\<lparr>bi_input := input, bi_left := bi_left s + int count\<rparr>)
      })"

definition BoundedInputStream_Skip ::
    "'s InputStream \<Rightarrow> nat \<Rightarrow> 's BoundedInputStream \<Rightarrow> bool \<times> 's BoundedInputStream" where
  "BoundedInputStream_Skip vt count s =
     (if int count > bi_left s
      then if bi_left s < 0 then (False, s)
           else (case in_Skip vt (nat (bi_left s)) (bi_input s) of
                   (_, input) \<Rightarrow> (False, s\<lparr>bi_input := input, bi_left := 0\<rparr>))
      else case in_Skip vt count (bi_input s) of
             (ok, input) \<Rightarrow>
               if \<not> ok then (False, s\<lparr>bi_input := input\<rparr>)
               else (True, s\<lparr>bi_input := input, bi_left := bi_left s - int count\<rparr>))"

definition BoundedInputStream_ByteCount :: "'s InputStream \<Rightarrow> 's BoundedInputStream \<Rightarrow> int" where
  "BoundedInputStream_ByteCount vt s =
     (if bi_left s < 0 then in_ByteCount vt (bi_input s) + bi_left s - bi_start s
      else in_ByteCount vt (bi_input s) - bi_start s)"

definition BoundedInputStream_vtable :: "'s InputStream \<Rightarrow> 's BoundedInputStream InputStream" where
  "BoundedInputStream_vtable vt =
     \<lparr>in_Next = BoundedInputStream_Next vt, in_BackUp = BoundedInputStream_BackUp vt,
      in_Skip = BoundedInputStream_Skip vt, in_ByteCount = BoundedInputStream_ByteCount vt\<rparr>"

section \<open>The buffered reader\<close>

text \<open>
  \<open>in_current\<close> holds the bytes from \<^verbatim>\<open>current_\<close> to \<^verbatim>\<open>limit_\<close>. Loops that ask the stream for
  more data may run forever on a stream that keeps delivering empty chunks, so the
  operations built on them return an option.
\<close>

record 's Input =
  in_current :: "byte list"
  in_stream :: 's
  in_done :: bool

datatype 'a reading = NoValue | PastLimit | UndefinedShift | Value 'a

definition Input_init :: "'s \<Rightarrow> 's Input" where
  "Input_init stream = \<lparr>in_current = [], in_stream = stream, in_done = False\<rparr>"

definition Input_close :: "'s InputStream \<Rightarrow> 's Input \<Rightarrow> 's option" where
  "Input_close vt inp =
     (if \<not> in_done inp then in_BackUp vt (length (in_current inp)) (in_stream inp)
      else Some (in_stream inp))"

partial_function (option) fill_loop ::
    "'s InputStream \<Rightarrow> 's \<Rightarrow> (byte list option \<times> 's) option" where
  "fill_loop vt s =
     (case in_Next vt s of
        (Some data, s) \<Rightarrow> if data \<noteq> [] then Some (Some data, s) else fill_loop vt s
      | (None, s) \<Rightarrow> Some (None, s))"

declare fill_loop.simps [code]

definition Input_Fill :: "'s InputStream \<Rightarrow> 's Input \<Rightarrow> (bool \<times> 's Input) option" where
  "Input_Fill vt inp =
     (if in_done inp then Some (False, inp)
      else do {
        (data, s) \<leftarrow> fill_loop vt (in_stream inp);
        case data of
          Some data \<Rightarrow> Some (True, inp\<lparr>in_current := data, in_stream := s\<rparr>)
        | None \<Rightarrow> Some (False, inp\<lparr>in_current := [], in_stream := s, in_done := True\<rparr>)
      })"

text \<open>
  The copying loop of \<^verbatim>\<open>Read\<close> and \<^verbatim>\<open>ReadString\<close>; the bytes delivered so far are returned
  with the outcome, since a failing read has already stored them.
\<close>

partial_function (option) copy_loop ::
    "'s InputStream \<Rightarrow> nat \<Rightarrow> byte list \<Rightarrow> 's Input \<Rightarrow> (bool \<times> byte list \<times> 's Input) option" where
  "copy_loop vt len data inp =
     (if len > 0
      then if in_current inp \<noteq> []
           then (let bytes = length (in_current inp);
                     bytes = (if bytes > len then len else bytes)
                 in copy_loop vt (len - bytes) (data @ take bytes (in_current inp))
                      (inp\<lparr>in_current := drop bytes (in_current inp)\<rparr>))
           else do {
             (ok, inp) \<leftarrow> Input_Fill vt inp;
             if \<not> ok then Some (False, data, inp) else copy_loop vt len data inp
           }
      else Some (True, data, inp))"

declare copy_loop.simps [code]

definition Input_Read ::
    "'s InputStream \<Rightarrow> nat \<Rightarrow> 's Input \<Rightarrow> (bool \<times> byte list \<times> 's Input) option" where
  "Input_Read vt len inp =
     (if len \<le> length (in_current inp)
      then Some (True, take len (in_current inp), inp\<lparr>in_current := drop len (in_current inp)\<rparr>)
      else copy_loop vt len [] inp)"

definition Input_Skip :: "'s InputStream \<Rightarrow> nat \<Rightarrow> 's Input \<Rightarrow> 's Input" where
  "Input_Skip vt bytes inp =
     (if bytes \<le> length (in_current inp)
      then inp\<lparr>in_current := drop bytes (in_current inp)\<rparr>
      else let left = bytes - length (in_current inp);
               inp = inp\<lparr>in_current := []\<rparr>
           in if left > 0
              then case in_Skip vt left (in_stream inp) of
                     (ok, s) \<Rightarrow> if \<not> ok then inp\<lparr>in_stream := s, in_done := True\<rparr>
                                else inp\<lparr>in_stream := s\<rparr>
              else inp)"

definition Input_Next :: "'s InputStream \<Rightarrow> 's Input \<Rightarrow> (byte option \<times> 's Input) option" where
  "Input_Next vt inp =
     (case in_current inp of
        ch # rest \<Rightarrow> Some (Some ch, inp\<lparr>in_current := rest\<rparr>)
      | [] \<Rightarrow> do {
          (ok, data, inp) \<leftarrow> Input_Read vt 1 inp;
          Some (if ok then Some (hd data) else None, inp)
        })"

definition Input_TryRead :: "nat \<Rightarrow> 's Input \<Rightarrow> byte list option \<times> 's Input" where
  "Input_TryRead len inp =
     (if len < length (in_current inp)
      then (Some (take len (in_current inp)), inp\<lparr>in_current := drop len (in_current inp)\<rparr>)
      else (None, inp))"

definition Input_ReadString ::
    "'s InputStream \<Rightarrow> int \<Rightarrow> byte list \<Rightarrow> 's Input \<Rightarrow> (bool \<times> byte list \<times> 's Input) option" where
  "Input_ReadString vt len output inp = copy_loop vt (nat len) output inp"

text \<open>The position after the first newline.\<close>

fun line_end :: "byte list \<Rightarrow> nat option" where
  "line_end [] = None"
| "line_end (c # p) = (if c = 10 then Some 1 else map_option Suc (line_end p))"

partial_function (option) line_loop ::
    "'s InputStream \<Rightarrow> byte list \<Rightarrow> 's Input \<Rightarrow> (bool \<times> byte list \<times> 's Input) option" where
  "line_loop vt output inp =
     do {
       (more, inp) \<leftarrow> (if in_current inp = [] then Input_Fill vt inp else Some (True, inp));
       if \<not> more then Some (output \<noteq> [], output, inp)
       else case line_end (in_current inp) of
              Some n \<Rightarrow>
                (let output = output @ take n (in_current inp)
                 in Some (output \<noteq> [], output, inp\<lparr>in_current := drop n (in_current inp)\<rparr>))
            | None \<Rightarrow> line_loop vt (output @ in_current inp) (inp\<lparr>in_current := []\<rparr>)
     }"

declare line_loop.simps [code]

definition Input_ReadLine ::
    "'s InputStream \<Rightarrow> 's Input \<Rightarrow> (bool \<times> byte list \<times> 's Input) option" where
  "Input_ReadLine vt inp = line_loop vt [] inp"

text \<open>
  The varint loops run over the shifts 0, 7, ..., 63. The bytes are \<^verbatim>\<open>char\<close>s, which are
  signed on the supported platform, so they are sign-extended. The inlined loop reads
  through the pointer without looking at the limit again.
\<close>

definition varint_shifts :: "nat list" where
  "varint_shifts = [0, 7, 14, 21, 28, 35, 42, 49, 56, 63]"

fun read32_inline :: "nat list \<Rightarrow> uint32 \<Rightarrow> byte list \<Rightarrow> (uint32 \<times> byte list) reading" where
  "read32_inline [] result ptr = NoValue"
| "read32_inline (i # is) result [] = PastLimit"
| "read32_inline (i # is) result (c # ptr) =
     (let byte = scast c :: uint32
      in if i \<ge> 32 then UndefinedShift
         else let result = result OR push_bit i (byte AND 127)
              in if byte < 128 then Value (result, ptr) else read32_inline is result ptr)"

fun read64_inline :: "nat list \<Rightarrow> uint64 \<Rightarrow> byte list \<Rightarrow> (uint64 \<times> byte list) reading" where
  "read64_inline [] result ptr = NoValue"
| "read64_inline (i # is) result [] = PastLimit"
| "read64_inline (i # is) result (c # ptr) =
     (let byte = scast c :: uint32;
          result = result OR push_bit i (ucast (byte AND 127))
      in if byte < 128 then Value (result, ptr) else read64_inline is result ptr)"

fun read32_fallback ::
    "'s InputStream \<Rightarrow> nat list \<Rightarrow> uint32 \<Rightarrow> 's Input \<Rightarrow> (uint32 reading \<times> 's Input) option" where
  "read32_fallback vt [] result inp = Some (NoValue, inp)"
| "read32_fallback vt (i # is) result inp =
     do {
       (more, inp) \<leftarrow> (if in_current inp = [] then Input_Fill vt inp else Some (True, inp));
       if \<not> more then Some (NoValue, inp)
       else (case in_current inp of
               [] \<Rightarrow> Some (PastLimit, inp)
             | c # ptr \<Rightarrow>
                 (let byte = scast c :: uint32;
                      inp = inp\<lparr>in_current := ptr\<rparr>
                  in if i \<ge> 32 then Some (UndefinedShift, inp)
                     else let result = result OR push_bit i (byte AND 127)
                          in if byte < 128 then Some (Value result, inp)
                             else read32_fallback vt is result inp))
     }"

fun read64_fallback ::
    "'s InputStream \<Rightarrow> nat list \<Rightarrow> uint64 \<Rightarrow> 's Input \<Rightarrow> (uint64 reading \<times> 's Input) option" where
  "read64_fallback vt [] result inp = Some (NoValue, inp)"
| "read64_fallback vt (i # is) result inp =
     do {
       (more, inp) \<leftarrow> (if in_current inp = [] then Input_Fill vt inp else Some (True, inp));
       if \<not> more then Some (NoValue, inp)
       else (case in_current inp of
               [] \<Rightarrow> Some (PastLimit, inp)
             | c # ptr \<Rightarrow>
                 (let byte = scast c :: uint32;
                      inp = inp\<lparr>in_current := ptr\<rparr>;
                      result = result OR push_bit i (ucast (byte AND 127))
                  in if byte < 128 then Some (Value result, inp)
                     else read64_fallback vt is result inp))
     }"

definition Input_ReadVarint32Fallback ::
    "'s InputStream \<Rightarrow> 's Input \<Rightarrow> (uint32 reading \<times> 's Input) option" where
  "Input_ReadVarint32Fallback vt inp = read32_fallback vt varint_shifts 0 inp"

definition Input_ReadVarint64Fallback ::
    "'s InputStream \<Rightarrow> 's Input \<Rightarrow> (uint64 reading \<times> 's Input) option" where
  "Input_ReadVarint64Fallback vt inp = read64_fallback vt varint_shifts 0 inp"

text \<open>The inlined loops advance \<^verbatim>\<open>current_\<close> only when they deliver a value.\<close>

definition commit_inline :: "'s Input \<Rightarrow> ('a \<times> byte list) reading \<Rightarrow> 'a reading \<times> 's Input" where
  "commit_inline inp r =
     (case r of
        Value (v, ptr) \<Rightarrow> (Value v, inp\<lparr>in_current := ptr\<rparr>)
      | NoValue \<Rightarrow> (NoValue, inp)
      | PastLimit \<Rightarrow> (PastLimit, inp)
      | UndefinedShift \<Rightarrow> (UndefinedShift, inp))"

definition Input_ReadVarint32 ::
    "'s InputStream \<Rightarrow> 's Input \<Rightarrow> (uint32 reading \<times> 's Input) option" where
  "Input_ReadVarint32 vt inp =
     (if length (in_current inp) \<ge> kMax32
      then Some (commit_inline inp (read32_inline varint_shifts 0 (in_current inp)))
      else Input_ReadVarint32Fallback vt inp)"

definition Input_ReadVarint64 ::
    "'s InputStream \<Rightarrow> 's Input \<Rightarrow> (uint64 reading \<times> 's Input) option" where
  "Input_ReadVarint64 vt inp =
     (if length (in_current inp) \<ge> kMax64
      then Some (commit_inline inp (read64_inline varint_shifts 0 (in_current inp)))
      else Input_ReadVarint64Fallback vt inp)"

text \<open>
  \<^verbatim>\<open>ReadVarString\<close> passes the unsigned length as an \<^verbatim>\<open>int\<close>: a length of at least two to
  the power of 31 becomes negative.
\<close>

definition Input_ReadVarString ::
    "'s InputStream \<Rightarrow> byte list \<Rightarrow> 's Input \<Rightarrow> (bool reading \<times> byte list \<times> 's Input) option" where
  "Input_ReadVarString vt output inp =
     do {
       (len, inp) \<leftarrow> Input_ReadVarint32 vt inp;
       case len of
         Value len \<Rightarrow> do {
           (ok, output, inp) \<leftarrow> Input_ReadString vt (sint len) output inp;
           Some (Value ok, output, inp)
         }
       | NoValue \<Rightarrow> Some (Value False, output, inp)
       | PastLimit \<Rightarrow> Some (PastLimit, output, inp)
       | UndefinedShift \<Rightarrow> Some (UndefinedShift, output, inp)
     }"

definition Input_Peek :: "'s InputStream \<Rightarrow> 's Input \<Rightarrow> (int \<times> 's Input) option" where
  "Input_Peek vt inp =
     do {
       (_, inp) \<leftarrow> (if in_current inp = [] then Input_Fill vt inp else Some (True, inp));
       Some (case in_current inp of [] \<Rightarrow> -1 | c # _ \<Rightarrow> uint c, inp)
     }"

definition Input_done :: "'s InputStream \<Rightarrow> 's Input \<Rightarrow> (bool \<times> 's Input) option" where
  "Input_done vt inp =
     (if in_current inp = []
      then do { (more, inp) \<leftarrow> Input_Fill vt inp; Some (\<not> more, inp) }
      else Some (False, inp))"


section \<open>The contract of an input stream\<close>

text \<open>
  \<open>rest\<close> is the data the stream still delivers, \<open>undo\<close> the delivered data that may be
  pushed back and \<open>idle\<close> bounds the number of empty chunks that come before the next data.
\<close>

locale input_stream =
  fixes vt :: "'s InputStream"
    and valid :: "'s \<Rightarrow> bool"
    and rest :: "'s \<Rightarrow> byte list"
    and undo :: "'s \<Rightarrow> byte list"
    and idle :: "'s \<Rightarrow> nat"
  assumes next_end:
      "valid s \<Longrightarrow> in_Next vt s = (None, s') \<Longrightarrow>
        valid s' \<and> rest s = [] \<and> rest s' = [] \<and> in_ByteCount vt s' = in_ByteCount vt s"
    and next_data:
      "valid s \<Longrightarrow> in_Next vt s = (Some d, s') \<Longrightarrow>
        valid s' \<and> rest s = d @ rest s' \<and> suffix d (undo s') \<and> (d = [] \<longrightarrow> idle s' < idle s) \<and>
        in_ByteCount vt s' = in_ByteCount vt s + int (length d)"
    and backup:
      "valid s \<Longrightarrow> suffix d (undo s) \<Longrightarrow>
        \<exists>s'. in_BackUp vt (length d) s = Some s' \<and> valid s' \<and> rest s' = d @ rest s \<and>
          in_ByteCount vt s' = in_ByteCount vt s - int (length d)"
    and skip:
      "valid s \<Longrightarrow> in_Skip vt n s = (ok, s') \<Longrightarrow>
        valid s' \<and> rest s' = drop n (rest s) \<and> (0 < n \<longrightarrow> ok = (n \<le> length (rest s))) \<and>
        in_ByteCount vt s' = in_ByteCount vt s + int (min n (length (rest s)))"

text \<open>The reader's invariant and the data it still delivers.\<close>

definition reader_inv ::
    "('s \<Rightarrow> bool) \<Rightarrow> ('s \<Rightarrow> byte list) \<Rightarrow> ('s \<Rightarrow> byte list) \<Rightarrow> 's Input \<Rightarrow> bool" where
  "reader_inv valid rest undo inp \<longleftrightarrow>
     valid (in_stream inp) \<and> suffix (in_current inp) (undo (in_stream inp)) \<and>
     (in_done inp \<longrightarrow> in_current inp = [] \<and> rest (in_stream inp) = [])"

definition contents :: "('s \<Rightarrow> byte list) \<Rightarrow> 's Input \<Rightarrow> byte list" where
  "contents rest inp = in_current inp @ rest (in_stream inp)"

text \<open>The first line of the data, with its newline if it has one.\<close>

fun first_line :: "byte list \<Rightarrow> byte list" where
  "first_line [] = []"
| "first_line (c # cs) = (if c = 10 then [10] else c # first_line cs)"

lemma line_end_first_line:
  "line_end cs = (if 10 \<in> set cs then Some (length (first_line cs)) else None)"
  by (induction cs) auto

lemma first_line_append:
  "first_line (cs @ ds) = (if 10 \<in> set cs then first_line cs else cs @ first_line ds)"
  by (induction cs) auto

lemma first_line_prefix: "take (length (first_line cs)) cs = first_line cs"
  by (induction cs) auto

lemma length_first_line: "length (first_line cs) \<le> length cs"
  by (induction cs) auto

text \<open>A sign-extended \<^verbatim>\<open>char\<close> has the same low bits and the same continuation test.\<close>

lemma scast_byte:
  "(scast (c :: byte) :: uint32) =
    (if c < 128 then of_nat (unat c) else of_nat (unat c + 4294967040))"
proof -
  have "(scast c :: uint32) = of_int (sint c)" by simp
  also have "\<dots> = (if c < 128 then of_int (int (unat c)) else of_int (int (unat c) - 256))"
    unfolding sint_byte by simp
  also have "of_int (int (unat c) - 256) = (of_nat (unat c) + of_nat 4294967040 :: uint32)"
    by (simp only: of_int_diff of_int_of_nat_eq) simp
  finally show ?thesis by (simp only: of_nat_add of_int_of_nat_eq)
qed

lemma of_nat_and_127: "(of_nat m :: uint32) AND 127 = of_nat (m mod 128)"
proof -
  have "(of_nat m :: uint32) AND 127 = take_bit 7 (of_nat m)"
    by (simp only: take_bit_eq_mask mask_eq_exp_minus_1) simp
  also have "\<dots> = of_nat (take_bit 7 m)" by (rule take_bit_of_nat)
  also have "take_bit 7 m = m mod 128" by (simp add: take_bit_eq_mod)
  finally show ?thesis .
qed

lemma scast_char:
  "(scast (c :: byte) :: uint32) AND 127 = ucast c AND 127"
  "(scast (c :: byte) :: uint32) < 128 \<longleftrightarrow> c < 128"
proof -
  have "(unat c + 4294967040) mod 128 = unat c mod 128"
    by (simp add: mod_add_eq [symmetric, of "unat c"])
  then show "(scast c :: uint32) AND 127 = ucast c AND 127"
    by (simp only: scast_byte ucast_and_127 of_nat_and_127 if_distrib [of "\<lambda>w. w AND 127"] if_cancel)
  have "unat c < 256" using unsigned_less [of c, where 'a = nat] by simp
  then have "unat (of_nat (unat c + 4294967040) :: uint32) = unat c + 4294967040"
    unfolding unat_of_nat by simp
  moreover have "unat (of_nat (unat c) :: uint32) = unat c"
    using \<open>unat c < 256\<close> unfolding unat_of_nat by simp
  ultimately show "(scast c :: uint32) < 128 \<longleftrightarrow> c < 128"
    unfolding scast_byte word_less_nat_alt by simp
qed

fun shifts_from :: "nat \<Rightarrow> nat \<Rightarrow> nat list" where
  "shifts_from s 0 = []"
| "shifts_from s (Suc k) = s # shifts_from (s + 7) k"

lemma varint_shifts_eq:
  "varint_shifts = shifts_from 0 10" "varint_shifts = shifts_from 0 5 @ [35, 42, 49, 56, 63]"
  by (simp_all add: varint_shifts_def eval_nat_numeral)

lemma read32_inline_loop:
  assumes "s + 7 * k \<le> 35" "is = [] \<or> 32 \<le> hd is"
  shows "read32_inline (shifts_from s k @ is) acc bs =
    (case varint_loop k s acc bs of
       Parsed v r \<Rightarrow> Value (v, r)
     | Overrun \<Rightarrow> PastLimit
     | _ \<Rightarrow> if is = [] then NoValue else if length bs \<le> k then PastLimit else UndefinedShift)"
  using assms
proof (induction k s acc bs rule: varint_loop.induct)
  case (1 s acc bs)
  then show ?case by (cases "is"; cases bs) simp_all
next
  case (3 k s acc c bs)
  then show ?case by (simp add: Let_def scast_char del: push_bit_and)
qed simp

lemma ucast_char_64: "(ucast ((scast (c :: byte) :: uint32) AND 127) :: uint64) = ucast c AND 127"
  by (simp add: scast_char ucast_and_127_32_64)

lemma read64_inline_loop:
  "read64_inline (shifts_from s k) acc bs =
    (case varint_loop k s acc bs of
       Parsed v r \<Rightarrow> Value (v, r)
     | Overrun \<Rightarrow> PastLimit
     | _ \<Rightarrow> NoValue)"
  by (induction k s acc bs rule: varint_loop.induct)
    (simp_all add: Let_def scast_char(2) ucast_char_64 del: push_bit_and)

lemma varint_loop_short: "length bs < k \<or> varint_loop k s acc bs \<noteq> Overrun"
  by (induction k s acc bs rule: varint_loop.induct) (auto simp: Let_def)

lemma varint_loop_append:
  "k \<le> length bs \<Longrightarrow> varint_loop k s acc (bs @ r) =
    (case varint_loop k s acc bs of Parsed v r' \<Rightarrow> Parsed v (r' @ r) | x \<Rightarrow> x)"
  by (induction k s acc bs rule: varint_loop.induct) (auto simp: Let_def)

lemma varint_loop_suffix:
  "varint_loop k s acc bs = Parsed v r \<Longrightarrow> \<exists>n \<le> length bs. r = drop n bs"
proof (induction k s acc bs rule: varint_loop.induct)
  case (3 k s acc b bs)
  show ?case
  proof (cases "b < 128")
    case True
    then show ?thesis using "3.prems" by (intro exI [of _ 1]) (simp add: Let_def)
  next
    case False
    then obtain n where "n \<le> length bs" "r = drop n bs" using 3 by (auto simp: Let_def)
    then show ?thesis by (intro exI [of _ "Suc n"]) simp
  qed
qed simp_all

section \<open>Correctness of the reader\<close>

context input_stream
begin

abbreviation rinv :: "'s Input \<Rightarrow> bool" where
  "rinv \<equiv> reader_inv valid rest undo"

abbreviation cont :: "'s Input \<Rightarrow> byte list" where
  "cont \<equiv> contents rest"

lemma fill_loop_spec:
  assumes "valid s"
  shows "\<exists>r s'. fill_loop vt s = Some (r, s') \<and> valid s' \<and>
    (case r of None \<Rightarrow> rest s = [] \<and> rest s' = []
     | Some d \<Rightarrow> d \<noteq> [] \<and> rest s = d @ rest s' \<and> suffix d (undo s'))"
  using assms
proof (induction s rule: measure_induct_rule [where f = idle])
  case (less s)
  show ?case
  proof (cases "in_Next vt s")
    case (Pair r s')
    show ?thesis
    proof (cases r)
      case None
      then show ?thesis
        using next_end [OF less.prems] Pair by (subst fill_loop.simps) auto
    next
      case (Some d)
      note nd = next_data [OF less.prems, of d s'] 
      show ?thesis
      proof (cases "d = []")
        case True
        then have "idle s' < idle s" "valid s'" "rest s = rest s'"
          using nd Pair Some by auto
        moreover have "fill_loop vt s = fill_loop vt s'"
          using Pair Some True by (subst fill_loop.simps) simp
        ultimately show ?thesis using less.IH [of s'] by (simp cong: option.case_cong)
      next
        case False
        then show ?thesis using nd Pair Some by (subst fill_loop.simps) auto
      qed
    qed
  qed
qed

lemma refill:
  assumes "rinv inp"
  obtains inp' where
    "(if in_current inp = [] then Input_Fill vt inp else Some (True, inp)) = Some (cont inp \<noteq> [], inp')"
    "rinv inp'" "cont inp' = cont inp" "in_current inp' = [] \<longleftrightarrow> cont inp = []"
proof (cases "in_current inp = []")
  case False
  then show ?thesis by (intro that [of inp]) (simp_all add: assms contents_def)
next
  case cur: True
  show ?thesis
  proof (cases "in_done inp")
  case True
  then show ?thesis
    using assms by (intro that [of inp]) (simp_all add: cur contents_def Input_Fill_def reader_inv_def)
next
  case False
  note True = cur False
  obtain r s' where r: "fill_loop vt (in_stream inp) = Some (r, s')" "valid s'"
    "case r of None \<Rightarrow> rest (in_stream inp) = [] \<and> rest s' = []
     | Some d \<Rightarrow> d \<noteq> [] \<and> rest (in_stream inp) = d @ rest s' \<and> suffix d (undo s')"
    using fill_loop_spec [of "in_stream inp"] assms by (auto simp: reader_inv_def)
  show ?thesis
  proof (cases r)
    case None
    then show ?thesis
      using True r that [of "inp\<lparr>in_current := [], in_stream := s', in_done := True\<rparr>"]
      by (simp add: Input_Fill_def reader_inv_def contents_def)
  next
    case (Some d)
    then show ?thesis
      using True r that [of "inp\<lparr>in_current := d, in_stream := s'\<rparr>"]
      by (simp add: Input_Fill_def reader_inv_def contents_def)
  qed
  qed
qed

lemma Input_Fill_spec:
  assumes "rinv inp" "in_current inp = []"
  obtains inp' where "Input_Fill vt inp = Some (cont inp \<noteq> [], inp')"
    "rinv inp'" "cont inp' = cont inp" "in_current inp' = [] \<longleftrightarrow> cont inp = []"
  using refill [OF assms(1)] assms(2) by auto

lemma advance:
  assumes "rinv inp" "n \<le> length (in_current inp)"
  shows "rinv (inp\<lparr>in_current := drop n (in_current inp)\<rparr>)"
    and "cont (inp\<lparr>in_current := drop n (in_current inp)\<rparr>) = drop n (cont inp)"
  using assms suffix_drop suffix_order.trans by (fastforce simp: reader_inv_def contents_def)+

lemma copy_loop_spec:
  assumes "rinv inp"
  shows "\<exists>inp'. copy_loop vt n data inp =
      Some (n \<le> length (cont inp), data @ take n (cont inp), inp') \<and>
    rinv inp' \<and> cont inp' = drop n (cont inp)"
  using assms
proof (induction "2 * n + (if in_current inp = [] then 1 else 0)" arbitrary: n data inp
    rule: less_induct)
  case less
  show ?case
  proof (cases "n = 0")
    case True
    then show ?thesis using less.prems by (subst copy_loop.simps) simp
  next
    case n: False
    show ?thesis
    proof (cases "in_current inp = []")
      case True
      obtain inp' where f: "Input_Fill vt inp = Some (cont inp \<noteq> [], inp')"
        "rinv inp'" "cont inp' = cont inp" "in_current inp' = [] \<longleftrightarrow> cont inp = []"
        using Input_Fill_spec [OF less.prems True] .
      then show ?thesis
        using less.hyps [of n inp' data] n True by (subst copy_loop.simps) (auto split: if_splits)
    next
      case False
      define k where "k = min (length (in_current inp)) n"
      have k: "k \<le> length (in_current inp)" "0 < k" "k \<le> n"
        using n False by (auto simp: k_def)
      have step: "copy_loop vt n data inp = copy_loop vt (n - k) (data @ take k (in_current inp))
          (inp\<lparr>in_current := drop k (in_current inp)\<rparr>)"
        using n False by (subst copy_loop.simps) (simp add: k_def min_def Let_def)
      have cur: "take k (in_current inp) = take k (cont inp)"
        using k(1) by (simp add: contents_def)
      have len: "n - k \<le> length (cont inp) - k \<longleftrightarrow> n \<le> length (cont inp)"
        using k by (auto simp: contents_def)
      have "2 * (n - k) + (if drop k (in_current inp) = [] then 1 else 0) <
          2 * n + (if in_current inp = [] then 1 else 0)"
        using k by simp arith
      then obtain inp' where
        "copy_loop vt (n - k) (data @ take k (in_current inp)) (inp\<lparr>in_current := drop k (in_current inp)\<rparr>)
          = Some (n - k \<le> length (drop k (cont inp)),
              (data @ take k (in_current inp)) @ take (n - k) (drop k (cont inp)), inp')"
        "rinv inp'" "cont inp' = drop (n - k) (drop k (cont inp))"
        using less.hyps [of "n - k" "inp\<lparr>in_current := drop k (in_current inp)\<rparr>"
            "data @ take k (in_current inp)"] advance [OF less.prems k(1)] k by auto
      moreover have "take k (cont inp) @ take (n - k) (drop k (cont inp)) = take n (cont inp)"
        using take_add [of k "n - k" "cont inp"] k by simp
      ultimately show ?thesis
        using k len by (auto simp: step cur)
    qed
  qed
qed

lemma Input_Read_spec:
  assumes "rinv inp"
  shows "\<exists>inp'. Input_Read vt n inp = Some (n \<le> length (cont inp), take n (cont inp), inp') \<and>
    rinv inp' \<and> cont inp' = drop n (cont inp)"
proof (cases "n \<le> length (in_current inp)")
  case True
  then show ?thesis
    using advance [OF assms True] by (auto simp: Input_Read_def contents_def)
next
  case False
  then show ?thesis using copy_loop_spec [OF assms, of n "[]"] by (simp add: Input_Read_def)
qed

lemma Input_Next_spec:
  assumes "rinv inp"
  shows "\<exists>inp'. Input_Next vt inp =
      Some (case cont inp of [] \<Rightarrow> None | c # _ \<Rightarrow> Some c, inp') \<and>
    rinv inp' \<and> cont inp' = drop 1 (cont inp)"
proof (cases "in_current inp")
  case (Cons c cs)
  then show ?thesis using advance [OF assms, of 1] by (auto simp: Input_Next_def contents_def)
next
  case Nil
  obtain inp' where "Input_Read vt 1 inp = Some (1 \<le> length (cont inp), take 1 (cont inp), inp')"
    "rinv inp'" "cont inp' = drop 1 (cont inp)"
    using Input_Read_spec [OF assms] by blast
  then show ?thesis using Nil by (cases "cont inp") (simp_all add: Input_Next_def)
qed

lemma Input_Skip_spec:
  assumes "rinv inp"
  shows "rinv (Input_Skip vt n inp)" "cont (Input_Skip vt n inp) = drop n (cont inp)"
proof -
  have "rinv (Input_Skip vt n inp) \<and> cont (Input_Skip vt n inp) = drop n (cont inp)"
  proof (cases "n \<le> length (in_current inp)")
    case True
    then show ?thesis using advance [OF assms True] by (simp add: Input_Skip_def)
  next
    case False
    obtain ok s where sk: "in_Skip vt (n - length (in_current inp)) (in_stream inp) = (ok, s)"
      by fastforce
    from assms have "valid (in_stream inp)" by (simp add: reader_inv_def)
    from skip [OF this sk] False
    have "valid s" "rest s = drop (n - length (in_current inp)) (rest (in_stream inp))"
      "ok \<longleftrightarrow> n - length (in_current inp) \<le> length (rest (in_stream inp))"
      by auto
    then show ?thesis
      using assms False sk by (auto simp: Input_Skip_def reader_inv_def contents_def Let_def)
  qed
  then show "rinv (Input_Skip vt n inp)" "cont (Input_Skip vt n inp) = drop n (cont inp)"
    by simp_all
qed

lemma Input_Peek_spec:
  assumes "rinv inp"
  shows "\<exists>inp'. Input_Peek vt inp = Some (case cont inp of [] \<Rightarrow> -1 | c # _ \<Rightarrow> uint c, inp') \<and>
    rinv inp' \<and> cont inp' = cont inp"
proof -
  obtain inp' where
    "(if in_current inp = [] then Input_Fill vt inp else Some (True, inp)) = Some (cont inp \<noteq> [], inp')"
    "rinv inp'" "cont inp' = cont inp" "in_current inp' = [] \<longleftrightarrow> cont inp = []"
    using refill [OF assms] .
  note f = this
  have "(case in_current inp' of [] \<Rightarrow> -1 | c # _ \<Rightarrow> uint c) =
      (case cont inp' of [] \<Rightarrow> -1 | c # _ \<Rightarrow> uint c)"
    using f(4) unfolding f(3) [symmetric]
    by (cases "in_current inp'") (auto simp: contents_def)
  then show ?thesis unfolding Input_Peek_def f(1) using f(2,3) by simp
qed

lemma Input_done_spec:
  assumes "rinv inp"
  shows "\<exists>inp'. Input_done vt inp = Some (cont inp = [], inp') \<and> rinv inp' \<and> cont inp' = cont inp"
proof (cases "in_current inp = []")
  case True
  obtain inp' where "Input_Fill vt inp = Some (cont inp \<noteq> [], inp')" "rinv inp'" "cont inp' = cont inp"
    using Input_Fill_spec [OF assms True] .
  then show ?thesis using True by (simp add: Input_done_def)
next
  case False
  then show ?thesis using assms by (auto simp: Input_done_def contents_def)
qed

lemma line_loop_spec:
  assumes "rinv inp"
  shows "\<exists>inp'. line_loop vt out inp =
      Some (out @ first_line (cont inp) \<noteq> [], out @ first_line (cont inp), inp') \<and>
    rinv inp' \<and> cont inp' = drop (length (first_line (cont inp))) (cont inp)"
  using assms
proof (induction "length (cont inp)" arbitrary: out inp rule: less_induct)
  case less
  obtain inp1 where f:
    "(if in_current inp = [] then Input_Fill vt inp else Some (True, inp)) = Some (cont inp \<noteq> [], inp1)"
    "rinv inp1" "cont inp1 = cont inp" "in_current inp1 = [] \<longleftrightarrow> cont inp = []"
    using refill [OF less.prems] .
  let ?cur = "in_current inp1"
  let ?rst = "inp1\<lparr>in_current := []\<rparr>"
  have step: "line_loop vt out inp =
    (if cont inp = [] then Some (out \<noteq> [], out, inp1)
     else case line_end ?cur of
            Some n \<Rightarrow> Some (out @ take n ?cur \<noteq> [], out @ take n ?cur, inp1\<lparr>in_current := drop n ?cur\<rparr>)
          | None \<Rightarrow> line_loop vt (out @ ?cur) ?rst)"
    by (subst line_loop.simps, subst f(1)) (simp add: Let_def split: option.split)
  have c: "cont inp = ?cur @ rest (in_stream inp1)" using f(3) by (simp add: contents_def)
  consider "cont inp = []" | "cont inp \<noteq> []" "10 \<in> set ?cur" | "cont inp \<noteq> []" "10 \<notin> set ?cur"
    by blast
  then show ?case
  proof cases
    case 1
    then show ?thesis using f(2,3) by (simp add: step)
  next
    case 2
    let ?n = "length (first_line ?cur)"
    have "first_line (cont inp) = first_line ?cur" using 2 by (simp add: c first_line_append)
    moreover have "rinv (inp1\<lparr>in_current := drop ?n ?cur\<rparr>)"
      "cont (inp1\<lparr>in_current := drop ?n ?cur\<rparr>) = drop ?n (cont inp)"
      using advance [OF f(2) length_first_line] f(3) by simp_all
    ultimately show ?thesis
      using 2 by (simp add: step line_end_first_line first_line_prefix)
  next
    case 3
    have r: "rinv ?rst" "cont ?rst = drop (length ?cur) (cont inp)"
      using advance [OF f(2), of "length ?cur"] f(3) by simp_all
    have next_chunk: "line_loop vt out inp = line_loop vt (out @ ?cur) ?rst"
      using 3 by (simp add: step line_end_first_line)
    have "length (cont ?rst) < length (cont inp)"
      using 3 f(4) by (simp add: r(2))
    from less.hyps [OF this r(1), of "out @ ?cur"] obtain inp' where inp':
      "line_loop vt (out @ ?cur) ?rst = Some ((out @ ?cur) @ first_line (cont ?rst) \<noteq> [],
        (out @ ?cur) @ first_line (cont ?rst), inp')"
      "rinv inp'" "cont inp' = drop (length (first_line (cont ?rst))) (cont ?rst)"
      by blast
    have line: "first_line (cont inp) = ?cur @ first_line (cont ?rst)"
      unfolding r(2) using 3 by (simp add: c first_line_append)
    have "line_loop vt out inp =
        Some (out @ first_line (cont inp) \<noteq> [], out @ first_line (cont inp), inp')"
      unfolding next_chunk inp'(1) line by simp
    moreover have "cont inp' = drop (length (first_line (cont inp))) (cont inp)"
      unfolding inp'(3) line length_append by (simp only: r(2) drop_drop add.commute)
    ultimately show ?thesis using inp'(2) by blast
  qed
qed

lemma Input_close_spec:
  assumes "rinv inp"
  shows "\<exists>s. Input_close vt inp = Some s \<and> valid s \<and> rest s = cont inp"
proof (cases "in_done inp")
  case True
  then show ?thesis using assms by (auto simp: Input_close_def reader_inv_def contents_def)
next
  case False
  from assms have "valid (in_stream inp)" "suffix (in_current inp) (undo (in_stream inp))"
    by (simp_all add: reader_inv_def)
  from backup [OF this] show ?thesis using False by (auto simp: Input_close_def contents_def)
qed

text \<open>
  The varint readers. \<open>reads\<close> relates the outcome of a reader to the outcome of the
  pointer routine on the remaining data.
\<close>

lemma fetch_spec:
  assumes "rinv inp"
  obtains (eof) inp' where "cont inp = []" "rinv inp'" "cont inp' = []"
      "(if in_current inp = [] then Input_Fill vt inp else Some (True, inp)) = Some (False, inp')"
  | (byte) inp' c ptr where "cont inp = c # cont (inp'\<lparr>in_current := ptr\<rparr>)"
      "in_current inp' = c # ptr" "rinv (inp'\<lparr>in_current := ptr\<rparr>)"
      "(if in_current inp = [] then Input_Fill vt inp else Some (True, inp)) = Some (True, inp')"
proof -
  obtain inp1 where f:
    "(if in_current inp = [] then Input_Fill vt inp else Some (True, inp)) = Some (cont inp \<noteq> [], inp1)"
    "rinv inp1" "cont inp1 = cont inp" "in_current inp1 = [] \<longleftrightarrow> cont inp = []"
    using refill [OF assms] .
  show thesis
  proof (cases "in_current inp1")
    case Nil
    then have "cont inp = []" using f(4) by simp
    then show thesis using f by (intro eof [of inp1]) simp_all
  next
    case (Cons c ptr)
    then have ne: "cont inp \<noteq> []" using f(4) by auto
    have "rinv (inp1\<lparr>in_current := ptr\<rparr>)" using advance(1) [OF f(2), of 1] Cons by simp
    moreover have "cont inp = c # cont (inp1\<lparr>in_current := ptr\<rparr>)"
      using f(3) Cons by (simp add: contents_def)
    ultimately show thesis using f(1) ne Cons by (intro byte [of c ptr inp1]) simp_all
  qed
qed

lemma read32_fallback_loop:
  assumes "rinv inp" "s + 7 * k \<le> 35"
  shows "\<exists>r inp'. read32_fallback vt (shifts_from s k @ [35, 42, 49, 56, 63]) acc inp = Some (r, inp') \<and>
    rinv inp' \<and>
    (case varint_loop k s acc (cont inp) of
       Parsed v bs \<Rightarrow> r = Value v \<and> cont inp' = bs
     | Overrun \<Rightarrow> r = NoValue \<and> cont inp' = []
     | _ \<Rightarrow> if length (cont inp) \<le> k then r = NoValue else r = UndefinedShift)"
  using assms
proof (induction k arbitrary: s acc inp)
  case 0
  from "0.prems"(1) show ?case
  proof (cases rule: fetch_spec)
    case (eof inp')
    then show ?thesis
      unfolding shifts_from.simps append_Nil read32_fallback.simps eof(4) by simp
  next
    case (byte inp' c ptr)
    have "rinv (inp'\<lparr>in_current := ptr\<rparr>)" by (rule byte(3))
    then show ?thesis
      unfolding shifts_from.simps append_Nil read32_fallback.simps byte(4)
      by (simp add: byte(1,2) Let_def)
  qed
next
  case (Suc k)
  from Suc.prems(1) show ?case
  proof (cases rule: fetch_spec)
    case (eof inp')
    then show ?thesis
      unfolding shifts_from.simps append_Cons read32_fallback.simps eof(4) by simp
  next
    case (byte inp' c ptr)
    define acc' where "acc' = acc OR push_bit s (ucast c AND 127 :: uint32)"
    define inp1 where "inp1 = inp'\<lparr>in_current := ptr\<rparr>"
    have step: "read32_fallback vt (shifts_from s (Suc k) @ [35, 42, 49, 56, 63]) acc inp =
      (if c < 128 then Some (Value acc', inp1)
       else read32_fallback vt (shifts_from (s + 7) k @ [35, 42, 49, 56, 63]) acc' inp1)"
      using Suc.prems(2) unfolding shifts_from.simps append_Cons read32_fallback.simps byte(4) inp1_def
      by (simp add: byte(2) Let_def scast_char acc'_def del: push_bit_and)
    have ref: "varint_loop (Suc k) s acc (cont inp) =
      (if c < 128 then Parsed acc' (cont inp1) else varint_loop k (s + 7) acc' (cont inp1))"
      by (simp add: byte(1) acc'_def inp1_def Let_def del: push_bit_and)
    have len: "length (cont inp) \<le> Suc k \<longleftrightarrow> length (cont inp1) \<le> k"
      by (simp add: byte(1) inp1_def)
    show ?thesis
      using Suc.IH [of inp1 "s + 7" acc'] Suc.prems(2) byte(3) [folded inp1_def]
      unfolding step ref len by (cases "c < 128") simp_all
  qed
qed

lemma read64_fallback_loop:
  assumes "rinv inp"
  shows "\<exists>r inp'. read64_fallback vt (shifts_from s k) acc inp = Some (r, inp') \<and> rinv inp' \<and>
    (case varint_loop k s acc (cont inp) of
       Parsed v bs \<Rightarrow> r = Value v \<and> cont inp' = bs
     | Overrun \<Rightarrow> r = NoValue \<and> cont inp' = []
     | _ \<Rightarrow> r = NoValue)"
  using assms
proof (induction k arbitrary: s acc inp)
  case (Suc k)
  from Suc.prems show ?case
  proof (cases rule: fetch_spec)
    case (eof inp')
    then show ?thesis unfolding shifts_from.simps read64_fallback.simps eof(4) by simp
  next
    case (byte inp' c ptr)
    define acc' where "acc' = acc OR push_bit s (ucast c AND 127 :: uint64)"
    define inp1 where "inp1 = inp'\<lparr>in_current := ptr\<rparr>"
    have step: "read64_fallback vt (shifts_from s (Suc k)) acc inp =
      (if c < 128 then Some (Value acc', inp1)
       else read64_fallback vt (shifts_from (s + 7) k) acc' inp1)"
      unfolding shifts_from.simps read64_fallback.simps byte(4) inp1_def
      by (simp add: byte(2) Let_def scast_char(2) ucast_char_64 acc'_def del: push_bit_and)
    have ref: "varint_loop (Suc k) s acc (cont inp) =
      (if c < 128 then Parsed acc' (cont inp1) else varint_loop k (s + 7) acc' (cont inp1))"
      by (simp add: byte(1) acc'_def inp1_def Let_def del: push_bit_and)
    show ?thesis
      using Suc.IH [of inp1 "s + 7" acc'] byte(3) [folded inp1_def]
      unfolding step ref by (cases "c < 128") simp_all
  qed
qed simp

lemma Input_ReadVarint64_spec:
  assumes "rinv inp"
  shows "\<exists>r inp'. Input_ReadVarint64 vt inp = Some (r, inp') \<and> rinv inp' \<and>
    (case Parse64 (cont inp) of
       Parsed v bs \<Rightarrow> r = Value v \<and> cont inp' = bs
     | _ \<Rightarrow> r = NoValue)"
proof (cases "kMax64 \<le> length (in_current inp)")
  case False
  then show ?thesis
    using read64_fallback_loop [OF assms, of 0 10 0]
    by (cases "varint_loop 10 0 (0 :: uint64) (cont inp)")
      (auto simp: Input_ReadVarint64_def Input_ReadVarint64Fallback_def varint_shifts_eq(1)
        Parse64_loop)
next
  case True
  let ?cur = "in_current inp"
  have ten: "10 \<le> length ?cur" using True by (simp add: kMax64_def)
  have local: "varint_loop 10 0 (0 :: uint64) (cont inp) =
    (case varint_loop 10 0 0 ?cur of Parsed v r \<Rightarrow> Parsed v (r @ rest (in_stream inp)) | x \<Rightarrow> x)"
    unfolding contents_def by (rule varint_loop_append [OF ten])
  show ?thesis
  proof (cases "varint_loop 10 0 (0 :: uint64) ?cur")
    case (Parsed v r)
    then obtain n where "n \<le> length ?cur" "r = drop n ?cur"
      using varint_loop_suffix by metis
    then show ?thesis
      using advance [OF assms, of n] True Parsed local
      by (simp add: Input_ReadVarint64_def varint_shifts_eq(1) read64_inline_loop commit_inline_def
          Parse64_loop contents_def)
  next
    case Overrun
    then show ?thesis using varint_loop_short [of ?cur 10 0 "0 :: uint64"] ten by simp
  qed (use assms True local in \<open>simp_all add: Input_ReadVarint64_def varint_shifts_eq(1)
      read64_inline_loop commit_inline_def Parse64_loop\<close>)
qed

lemma Input_ReadVarint32_spec:
  assumes "rinv inp"
  shows "\<exists>r inp'. Input_ReadVarint32 vt inp = Some (r, inp') \<and> rinv inp' \<and>
    (case Parse32 (cont inp) of
       Parsed v bs \<Rightarrow> r = Value v \<and> cont inp' = bs
     | Overrun \<Rightarrow> r = NoValue \<and> cont inp' = []
     | _ \<Rightarrow> \<forall>v. r \<noteq> Value v)"
proof (cases "kMax32 \<le> length (in_current inp)")
  case False
  then show ?thesis
    using read32_fallback_loop [OF assms, of 0 5 0]
    by (cases "varint_loop 5 0 (0 :: uint32) (cont inp)")
      (auto simp: Input_ReadVarint32_def Input_ReadVarint32Fallback_def varint_shifts_eq(2)
        Parse32_loop split: if_splits)
next
  case True
  let ?cur = "in_current inp"
  have five: "5 \<le> length ?cur" using True by (simp add: kMax32_def)
  have local: "varint_loop 5 0 (0 :: uint32) (cont inp) =
    (case varint_loop 5 0 0 ?cur of Parsed v r \<Rightarrow> Parsed v (r @ rest (in_stream inp)) | x \<Rightarrow> x)"
    unfolding contents_def by (rule varint_loop_append [OF five])
  show ?thesis
  proof (cases "varint_loop 5 0 (0 :: uint32) ?cur")
    case (Parsed v r)
    then obtain n where "n \<le> length ?cur" "r = drop n ?cur"
      using varint_loop_suffix by metis
    then show ?thesis
      using advance [OF assms, of n] True Parsed local
      by (simp add: Input_ReadVarint32_def varint_shifts_eq(2) read32_inline_loop commit_inline_def
          Parse32_loop contents_def)
  next
    case Overrun
    then show ?thesis using varint_loop_short [of ?cur 5 0 "0 :: uint32"] five by simp
  qed (use assms True local in \<open>simp_all add: Input_ReadVarint32_def varint_shifts_eq(2)
      read32_inline_loop commit_inline_def Parse32_loop\<close>)
qed

lemma Input_ReadVarString_spec:
  assumes "rinv inp" "cont inp = Encode32 (of_nat (length str)) @ str @ r" "length str < 2 ^ 31"
  shows "\<exists>inp'. Input_ReadVarString vt out inp = Some (Value True, out @ str, inp') \<and>
    rinv inp' \<and> cont inp' = r"
proof -
  let ?n = "of_nat (length str) :: uint32"
  obtain inp1 where 1: "Input_ReadVarint32 vt inp = Some (Value ?n, inp1)" "rinv inp1" "cont inp1 = str @ r"
    using Input_ReadVarint32_spec [OF assms(1)] by (auto simp: assms(2) Parse32_Encode32)
  have "sint ?n = int (length str)"
    using assms(3) by (simp add: sint_uint unsigned_of_nat signed_take_bit_eq_if_positive
        take_bit_nat_eq_self take_bit_int_eq_self bit_iff_odd)
  then show ?thesis
    using copy_loop_spec [OF 1(2), of "length str" out] 1
    by (auto simp: Input_ReadVarString_def Input_ReadString_def)
qed

lemma Input_init_spec:
  "valid s \<Longrightarrow> rinv (Input_init s) \<and> cont (Input_init s) = rest s"
  by (simp add: Input_init_def reader_inv_def contents_def)

end

section \<open>The implementations meet the contract\<close>

subsection \<open>\<open>ArrayInputStream\<close>\<close>

definition array_valid :: "ArrayInputStream \<Rightarrow> bool" where
  "array_valid s \<longleftrightarrow>
     ai_size s = length (ai_data s) \<and> ai_position s \<le> ai_size s \<and>
     (ai_size s > 0 \<longrightarrow> ai_block_size s > 0)"

definition array_rest :: "ArrayInputStream \<Rightarrow> byte list" where
  "array_rest s = drop (ai_position s) (ai_data s)"

definition array_undo :: "ArrayInputStream \<Rightarrow> byte list" where
  "array_undo s = take (ai_position s) (ai_data s)"

lemma ArrayInputStream_init_valid:
  "array_valid (ArrayInputStream_init data block_size)"
  "array_rest (ArrayInputStream_init data block_size) = data"
  by (simp_all add: array_valid_def array_rest_def ArrayInputStream_init_def)

lemma array_stream_next_data:
  assumes "array_valid s" "ArrayInputStream_Next s = (Some d, s')"
  shows "array_valid s'" "array_rest s = d @ array_rest s'" "suffix d (array_undo s')" "d \<noteq> []"
    and "ai_position s' = ai_position s + length d"
proof -
  let ?n = "min (ai_block_size s) (ai_size s - ai_position s)"
  have pos: "ai_position s < ai_size s"
    using assms(2) by (auto simp: ArrayInputStream_Next_def Let_def split: if_splits)
  then have d: "d = take ?n (drop (ai_position s) (ai_data s))"
    and s': "s' = s\<lparr>ai_position := ai_position s + ?n\<rparr>"
    using assms(2) by (auto simp: ArrayInputStream_Next_def Let_def min_def split: if_splits)
  have n: "0 < ?n" "?n \<le> length (ai_data s) - ai_position s"
    using pos assms(1) by (auto simp: array_valid_def)
  then have len: "length d = ?n" by (simp add: d)
  show "array_valid s'" using assms(1) pos by (auto simp: s' array_valid_def)
  show "array_rest s = d @ array_rest s'"
    by (simp add: d s' array_rest_def) (metis append_take_drop_id drop_drop add.commute)
  show "suffix d (array_undo s')"
    by (simp add: d s' array_undo_def take_add suffix_def)
  show "d \<noteq> []" using n len by auto
  show "ai_position s' = ai_position s + length d" by (simp add: s' len)
qed

lemma suffix_take_drop:
  assumes "suffix d (take p xs)" "p \<le> length xs"
  shows "length d \<le> p" "drop (p - length d) xs = d @ drop p xs"
proof -
  from assms(1) obtain a where a: "take p xs = a @ d" by (auto simp: suffix_def)
  then have len: "length a + length d = p" using assms(2) by (metis length_append length_take min.absorb2)
  then show "length d \<le> p" by simp
  have "xs = a @ d @ drop p xs" using a by (metis append.assoc append_take_drop_id)
  moreover have "p - length d = length a" using len by simp
  ultimately show "drop (p - length d) xs = d @ drop p xs" by (metis append_eq_conv_conj)
qed

interpretation array: input_stream ArrayInputStream_vtable array_valid array_rest array_undo "\<lambda>_. 0"
proof
  fix s s' d
  assume s: "array_valid s"
  show "in_Next ArrayInputStream_vtable s = (None, s') \<Longrightarrow>
      array_valid s' \<and> array_rest s = [] \<and> array_rest s' = [] \<and>
      in_ByteCount ArrayInputStream_vtable s' = in_ByteCount ArrayInputStream_vtable s"
    using s by (auto simp: ArrayInputStream_vtable_def ArrayInputStream_Next_def array_rest_def
        array_valid_def Let_def split: if_splits)
  show "in_Next ArrayInputStream_vtable s = (Some d, s') \<Longrightarrow>
      array_valid s' \<and> array_rest s = d @ array_rest s' \<and> suffix d (array_undo s') \<and>
      (d = [] \<longrightarrow> (0 :: nat) < 0) \<and>
      in_ByteCount ArrayInputStream_vtable s' = in_ByteCount ArrayInputStream_vtable s + int (length d)"
    using array_stream_next_data [OF s, of d s']
    by (simp add: ArrayInputStream_vtable_def ArrayInputStream_ByteCount_def)
  assume "suffix d (array_undo s)"
  then have "length d \<le> ai_position s" "drop (ai_position s - length d) (ai_data s) = d @ array_rest s"
    using s suffix_take_drop [of d "ai_position s" "ai_data s"]
    by (auto simp: array_undo_def array_valid_def array_rest_def)
  then show "\<exists>s'. in_BackUp ArrayInputStream_vtable (length d) s = Some s' \<and> array_valid s' \<and>
      array_rest s' = d @ array_rest s \<and>
      in_ByteCount ArrayInputStream_vtable s' = in_ByteCount ArrayInputStream_vtable s - int (length d)"
    using s by (auto simp: ArrayInputStream_vtable_def ArrayInputStream_BackUp_def array_valid_def
        ArrayInputStream_ByteCount_def array_rest_def)
next
  fix s s' n ok
  assume "array_valid s" "in_Skip ArrayInputStream_vtable n s = (ok, s')"
  then show "array_valid s' \<and> array_rest s' = drop n (array_rest s) \<and>
      (0 < n \<longrightarrow> ok = (n \<le> length (array_rest s))) \<and>
      in_ByteCount ArrayInputStream_vtable s' =
        in_ByteCount ArrayInputStream_vtable s + int (min n (length (array_rest s)))"
    by (auto simp: ArrayInputStream_vtable_def ArrayInputStream_Skip_def array_valid_def array_rest_def
        ArrayInputStream_ByteCount_def Let_def add.commute split: if_splits)
qed

subsection \<open>\<open>IOBufferInputStream\<close>\<close>

definition iobuf_valid :: "IOBuffer \<Rightarrow> bool" where
  "iobuf_valid b \<longleftrightarrow> io_inv b \<and> None \<notin> set (take (io_end b) (io_memory b))"

definition iobuf_rest :: "IOBuffer \<Rightarrow> byte list" where
  "iobuf_rest b = cell_bytes (io_data b)"

definition iobuf_undo :: "IOBuffer \<Rightarrow> byte list" where
  "iobuf_undo b = cell_bytes (take (io_begin b) (io_memory b))"

lemma iobuf_consume:
  assumes "iobuf_valid b" "n \<le> length (io_data b)"
  defines "b' \<equiv> b\<lparr>io_begin := io_begin b + n\<rparr>"
  shows "IOBuffer_Consume n b = Some (take n (io_data b), b')" "iobuf_valid b'"
    and "iobuf_rest b' = drop n (iobuf_rest b)" "suffix (take n (iobuf_rest b)) (iobuf_undo b')"
proof -
  have inv: "io_inv b" using assms(1) by (simp add: iobuf_valid_def)
  note c = Consume_consumes [OF inv assms(2), folded b'_def]
  show "IOBuffer_Consume n b = Some (take n (io_data b), b')" by (rule c(1))
  show "iobuf_valid b'" using assms(1) c(2) by (simp add: iobuf_valid_def b'_def)
  show "iobuf_rest b' = drop n (iobuf_rest b)" by (simp add: iobuf_rest_def c(3) cell_bytes_def drop_map)
  have "io_begin b + n \<le> io_end b"
    using inv assms(2) by (auto simp: length_io_data io_available_def io_inv_def)
  from io_data_begin(2) [OF this] show "suffix (take n (iobuf_rest b)) (iobuf_undo b')"
    by (simp add: iobuf_rest_def iobuf_undo_def cell_bytes_def b'_def take_add take_map suffix_def)
qed

lemma iobuf_length_rest: "iobuf_valid b \<Longrightarrow> length (iobuf_rest b) = io_available b"
  by (simp add: iobuf_rest_def cell_bytes_def iobuf_valid_def length_io_data)

lemma iobuf_next:
  assumes "iobuf_valid b"
  shows "IOBufferInputStream_Next b =
    (if iobuf_rest b = [] then (None, b)
     else (Some (iobuf_rest b), b\<lparr>io_begin := io_begin b + length (iobuf_rest b)\<rparr>))"
proof -
  have len: "length (io_data b) = io_available b" "length (iobuf_rest b) = io_available b"
    using assms by (simp_all add: iobuf_length_rest iobuf_valid_def length_io_data)
  then have "iobuf_rest b = [] \<longleftrightarrow> io_available b = 0" by auto
  then show ?thesis
    using iobuf_consume(1) [OF assms, of "io_available b"] len
    by (simp add: IOBufferInputStream_Next_def iobuf_rest_def)
qed

lemma iobuf_skip:
  assumes "iobuf_valid b"
  shows "IOBufferInputStream_Skip n b =
    (n \<le> length (iobuf_rest b), b\<lparr>io_begin := io_begin b + min n (length (iobuf_rest b))\<rparr>)"
proof -
  have len: "length (io_data b) = io_available b" "length (iobuf_rest b) = io_available b"
    using assms by (simp_all add: iobuf_length_rest iobuf_valid_def length_io_data)
  show ?thesis
    using iobuf_consume(1) [OF assms, of "min n (io_available b)"] len
    by (auto simp: IOBufferInputStream_Skip_def min_def Let_def)
qed

lemma iobuf_unread:
  assumes "iobuf_valid b" "suffix d (iobuf_undo b)"
  defines "b' \<equiv> b\<lparr>io_begin := io_begin b - length d\<rparr>"
  shows "IOBuffer_Unread (length d) b = Some b'" "iobuf_valid b'" "iobuf_rest b' = d @ iobuf_rest b"
    and "length d \<le> io_begin b"
proof -
  have inv: "io_inv b" using assms(1) by (simp add: iobuf_valid_def)
  have suf: "suffix d (take (io_begin b) (cell_bytes (io_memory b)))"
    using assms(2) by (simp add: iobuf_undo_def cell_bytes_def take_map)
  have le: "io_begin b \<le> length (cell_bytes (io_memory b))"
    using inv by (simp add: io_inv_def cell_bytes_def)
  note d = suffix_take_drop [OF suf le]
  note u = Unread_restores [OF inv d(1), folded b'_def]
  show "IOBuffer_Unread (length d) b = Some b'" by (rule u(1))
  show "iobuf_valid b'" using u(2) assms(1) by (simp add: iobuf_valid_def b'_def)
  have "take (length d) (drop (io_begin b - length d) (cell_bytes (io_memory b))) = d"
    by (simp add: d(2))
  then show "iobuf_rest b' = d @ iobuf_rest b"
    by (simp add: iobuf_rest_def u(3) cell_bytes_def drop_map take_map)
  show "length d \<le> io_begin b" by (rule d(1))
qed

interpretation iobuf: input_stream IOBufferInputStream_vtable iobuf_valid iobuf_rest iobuf_undo "\<lambda>_. 0"
proof
  fix s s' d
  assume s: "iobuf_valid s"
  have all: "length (iobuf_rest s) \<le> length (io_data s)" by (simp add: iobuf_rest_def cell_bytes_def)
  show "in_Next IOBufferInputStream_vtable s = (None, s') \<Longrightarrow>
      iobuf_valid s' \<and> iobuf_rest s = [] \<and> iobuf_rest s' = [] \<and>
      in_ByteCount IOBufferInputStream_vtable s' = in_ByteCount IOBufferInputStream_vtable s"
    using s by (auto simp: IOBufferInputStream_vtable_def iobuf_next split: if_splits)
  show "in_Next IOBufferInputStream_vtable s = (Some d, s') \<Longrightarrow>
      iobuf_valid s' \<and> iobuf_rest s = d @ iobuf_rest s' \<and> suffix d (iobuf_undo s') \<and>
      (d = [] \<longrightarrow> (0 :: nat) < 0) \<and>
      in_ByteCount IOBufferInputStream_vtable s' = in_ByteCount IOBufferInputStream_vtable s + int (length d)"
    using s iobuf_consume(2-4) [OF s all]
    by (auto simp: IOBufferInputStream_vtable_def iobuf_next IOBufferInputStream_ByteCount_def
        io_consumed_def split: if_splits)
  assume "suffix d (iobuf_undo s)"
  from iobuf_unread [OF s this]
  show "\<exists>s'. in_BackUp IOBufferInputStream_vtable (length d) s = Some s' \<and> iobuf_valid s' \<and>
      iobuf_rest s' = d @ iobuf_rest s \<and>
      in_ByteCount IOBufferInputStream_vtable s' = in_ByteCount IOBufferInputStream_vtable s - int (length d)"
    by (simp add: IOBufferInputStream_vtable_def IOBufferInputStream_BackUp_def
        IOBufferInputStream_ByteCount_def io_consumed_def)
next
  fix s s' n ok
  assume s: "iobuf_valid s" "in_Skip IOBufferInputStream_vtable n s = (ok, s')"
  have "min n (length (iobuf_rest s)) \<le> length (io_data s)" by (simp add: iobuf_rest_def cell_bytes_def)
  from iobuf_consume(2-4) [OF s(1) this] s
  show "iobuf_valid s' \<and> iobuf_rest s' = drop n (iobuf_rest s) \<and>
      (0 < n \<longrightarrow> ok = (n \<le> length (iobuf_rest s))) \<and>
      in_ByteCount IOBufferInputStream_vtable s' =
        in_ByteCount IOBufferInputStream_vtable s + int (min n (length (iobuf_rest s)))"
    by (auto simp: IOBufferInputStream_vtable_def iobuf_skip IOBufferInputStream_ByteCount_def
        io_consumed_def min_def)
qed

subsection \<open>\<open>BoundedInputStream\<close>\<close>

definition bounded_valid ::
    "('s \<Rightarrow> bool) \<Rightarrow> ('s \<Rightarrow> byte list) \<Rightarrow> 's BoundedInputStream \<Rightarrow> bool" where
  "bounded_valid valid undo s \<longleftrightarrow>
     valid (bi_input s) \<and> (bi_left s < 0 \<longrightarrow> nat (- bi_left s) \<le> length (undo (bi_input s)))"

definition bounded_rest :: "('s \<Rightarrow> byte list) \<Rightarrow> 's BoundedInputStream \<Rightarrow> byte list" where
  "bounded_rest rest s = take (nat (bi_left s)) (rest (bi_input s))"

definition bounded_undo :: "('s \<Rightarrow> byte list) \<Rightarrow> 's BoundedInputStream \<Rightarrow> byte list" where
  "bounded_undo undo s =
     take (length (undo (bi_input s)) - nat (- bi_left s)) (undo (bi_input s))"

text \<open>
  A bounded stream over a stream that meets the contract meets it again, with the data
  cut at the limit.
\<close>

context input_stream
begin

lemma bounded_next_data:
  assumes "bounded_valid valid undo s" "BoundedInputStream_Next vt s = (Some d, s')"
  shows "bounded_valid valid undo s' \<and> bounded_rest rest s = d @ bounded_rest rest s' \<and>
    suffix d (bounded_undo undo s') \<and> (d = [] \<longrightarrow> idle (bi_input s') < idle (bi_input s)) \<and>
    BoundedInputStream_ByteCount vt s' = BoundedInputStream_ByteCount vt s + int (length d)"
proof -
  have left: "0 < bi_left s" using assms(2) by (auto simp: BoundedInputStream_Next_def split: if_splits)
  obtain data i where i: "in_Next vt (bi_input s) = (Some data, i)"
    using assms(2) left by (auto simp: BoundedInputStream_Next_def split: prod.splits option.splits)
  have "valid (bi_input s)" using assms(1) by (simp add: bounded_valid_def)
  from next_data [OF this i]
  have n: "valid i" "rest (bi_input s) = data @ rest i" "suffix data (undo i)"
    "data = [] \<longrightarrow> idle i < idle (bi_input s)"
    "in_ByteCount vt i = in_ByteCount vt (bi_input s) + int (length data)"
    by simp_all
  from n(3) obtain a where a: "undo i = a @ data" by (auto simp: suffix_def)
  have s': "s' = s\<lparr>bi_input := i, bi_left := bi_left s - int (length data)\<rparr>"
    and d: "d = take (nat (bi_left s)) data"
    using assms(2) left i by (auto simp: BoundedInputStream_Next_def Let_def split: if_splits)
  show ?thesis
  proof (cases "bi_left s < int (length data)")
    case True
    then have "nat (bi_left s) - length data = 0"
      "length (undo i) - nat (int (length data) - bi_left s) = length a + nat (bi_left s)"
      "length d = nat (bi_left s)"
      using left by (auto simp: a d)
    then show ?thesis
      using n left True unfolding bounded_valid_def bounded_rest_def bounded_undo_def s'
      by (auto simp: d a suffix_def BoundedInputStream_ByteCount_def)
  next
    case False
    then have "d = data" "nat (bi_left s - int (length data)) = nat (bi_left s) - length data"
      by (auto simp: d)
    then show ?thesis
      using n left False unfolding bounded_valid_def bounded_rest_def bounded_undo_def s'
      by (auto simp: suffix_def BoundedInputStream_ByteCount_def)
  qed
qed

lemma bounded_next_end:
  assumes "bounded_valid valid undo s" "BoundedInputStream_Next vt s = (None, s')"
  shows "bounded_valid valid undo s' \<and> bounded_rest rest s = [] \<and> bounded_rest rest s' = [] \<and>
    BoundedInputStream_ByteCount vt s' = BoundedInputStream_ByteCount vt s"
proof (cases "bi_left s \<le> 0")
  case True
  then show ?thesis using assms by (simp add: BoundedInputStream_Next_def bounded_rest_def)
next
  case False
  then obtain i where i: "in_Next vt (bi_input s) = (None, i)" "s' = s\<lparr>bi_input := i\<rparr>"
    using assms(2) by (auto simp: BoundedInputStream_Next_def Let_def split: prod.splits option.splits)
  have "valid (bi_input s)" using assms(1) by (simp add: bounded_valid_def)
  from next_end [OF this i(1)] False show ?thesis
    by (simp add: i(2) bounded_valid_def bounded_rest_def BoundedInputStream_ByteCount_def)
qed

lemma bounded_backup:
  assumes "bounded_valid valid undo s" "suffix d (bounded_undo undo s)"
  shows "\<exists>s'. BoundedInputStream_BackUp vt (length d) s = Some s' \<and> bounded_valid valid undo s' \<and>
    bounded_rest rest s' = d @ bounded_rest rest s \<and>
    BoundedInputStream_ByteCount vt s' = BoundedInputStream_ByteCount vt s - int (length d)"
proof -
  have v: "valid (bi_input s)" using assms(1) by (simp add: bounded_valid_def)
  let ?o = "nat (- bi_left s)"
  let ?e = "d @ drop (length (undo (bi_input s)) - ?o) (undo (bi_input s))"
  have "suffix ?e (undo (bi_input s))"
    using assms(2) unfolding bounded_undo_def suffix_def by (metis append.assoc append_take_drop_id)
  from backup [OF v this] obtain i where i: "in_BackUp vt (length ?e) (bi_input s) = Some i"
    "valid i" "rest i = ?e @ rest (bi_input s)"
    "in_ByteCount vt i = in_ByteCount vt (bi_input s) - int (length ?e)"
    by blast
  have len: "length ?e = length d + ?o"
    using assms(1) by (auto simp: bounded_valid_def)
  show ?thesis
  proof (cases "bi_left s < 0")
    case True
    then have "nat (int (length d) - bi_left s) = length ?e" using len by simp
    then show ?thesis
      using True i len
      by (simp add: BoundedInputStream_BackUp_def bounded_valid_def bounded_rest_def
          BoundedInputStream_ByteCount_def)
  next
    case False
    then have "nat (bi_left s + int (length d)) = length d + nat (bi_left s)" by simp
    then show ?thesis
      using False i
      by (simp add: BoundedInputStream_BackUp_def bounded_valid_def bounded_rest_def
          BoundedInputStream_ByteCount_def)
  qed
qed

lemma bounded_skip:
  assumes "bounded_valid valid undo s" "BoundedInputStream_Skip vt n s = (ok, s')"
  shows "bounded_valid valid undo s' \<and> bounded_rest rest s' = drop n (bounded_rest rest s) \<and>
    (0 < n \<longrightarrow> ok = (n \<le> length (bounded_rest rest s))) \<and>
    BoundedInputStream_ByteCount vt s' =
      BoundedInputStream_ByteCount vt s + int (min n (length (bounded_rest rest s)))"
proof -
  have v: "valid (bi_input s)" using assms(1) by (simp add: bounded_valid_def)
  consider (over) "bi_left s < 0" | (all) "0 \<le> bi_left s" "bi_left s < int n" | (within) "int n \<le> bi_left s"
    by linarith
  then show ?thesis
  proof cases
    case over
    then show ?thesis
      using assms by (auto simp: BoundedInputStream_Skip_def bounded_rest_def)
  next
    case all
    obtain b i where i: "in_Skip vt (nat (bi_left s)) (bi_input s) = (b, i)" by fastforce
    from skip [OF v i] all assms(2) i show ?thesis
      by (auto simp: BoundedInputStream_Skip_def bounded_valid_def bounded_rest_def
          BoundedInputStream_ByteCount_def min_def)
  next
    case within
    obtain b i where i: "in_Skip vt n (bi_input s) = (b, i)" by fastforce
    have nat: "nat (bi_left s - int n) = nat (bi_left s) - n" using within by linarith
    from skip [OF v i] within assms(2) i show ?thesis
      by (auto simp: BoundedInputStream_Skip_def bounded_valid_def bounded_rest_def nat drop_take
          BoundedInputStream_ByteCount_def min_def split: if_splits)
  qed
qed

lemma bounded_stream:
  "input_stream (BoundedInputStream_vtable vt) (bounded_valid valid undo) (bounded_rest rest)
     (bounded_undo undo) (\<lambda>s. idle (bi_input s))"
proof
  fix s s' d
  assume s: "bounded_valid valid undo s"
  show "in_Next (BoundedInputStream_vtable vt) s = (None, s') \<Longrightarrow>
      bounded_valid valid undo s' \<and> bounded_rest rest s = [] \<and> bounded_rest rest s' = [] \<and>
      in_ByteCount (BoundedInputStream_vtable vt) s' = in_ByteCount (BoundedInputStream_vtable vt) s"
    unfolding BoundedInputStream_vtable_def using bounded_next_end [OF s] by simp
  show "in_Next (BoundedInputStream_vtable vt) s = (Some d, s') \<Longrightarrow>
      bounded_valid valid undo s' \<and> bounded_rest rest s = d @ bounded_rest rest s' \<and>
      suffix d (bounded_undo undo s') \<and> (d = [] \<longrightarrow> idle (bi_input s') < idle (bi_input s)) \<and>
      in_ByteCount (BoundedInputStream_vtable vt) s' =
        in_ByteCount (BoundedInputStream_vtable vt) s + int (length d)"
    unfolding BoundedInputStream_vtable_def using bounded_next_data [OF s] by simp
  show "suffix d (bounded_undo undo s) \<Longrightarrow>
      \<exists>s'. in_BackUp (BoundedInputStream_vtable vt) (length d) s = Some s' \<and>
        bounded_valid valid undo s' \<and> bounded_rest rest s' = d @ bounded_rest rest s \<and>
        in_ByteCount (BoundedInputStream_vtable vt) s' =
          in_ByteCount (BoundedInputStream_vtable vt) s - int (length d)"
    unfolding BoundedInputStream_vtable_def using bounded_backup [OF s] by simp
next
  fix s s' n ok
  assume s: "bounded_valid valid undo s"
  show "in_Skip (BoundedInputStream_vtable vt) n s = (ok, s') \<Longrightarrow>
      bounded_valid valid undo s' \<and> bounded_rest rest s' = drop n (bounded_rest rest s) \<and>
      (0 < n \<longrightarrow> ok = (n \<le> length (bounded_rest rest s))) \<and>
      in_ByteCount (BoundedInputStream_vtable vt) s' =
        in_ByteCount (BoundedInputStream_vtable vt) s + int (min n (length (bounded_rest rest s)))"
    unfolding BoundedInputStream_vtable_def using bounded_skip [OF s] by simp
qed

end

interpretation bounded_array: input_stream "BoundedInputStream_vtable ArrayInputStream_vtable"
  "bounded_valid array_valid array_undo" "bounded_rest array_rest" "bounded_undo array_undo" "\<lambda>s. 0"
  by (rule array.bounded_stream)

interpretation bounded_iobuf: input_stream "BoundedInputStream_vtable IOBufferInputStream_vtable"
  "bounded_valid iobuf_valid iobuf_undo" "bounded_rest iobuf_rest" "bounded_undo iobuf_undo" "\<lambda>s. 0"
  by (rule iobuf.bounded_stream)

section \<open>Properties\<close>

text \<open>The reader over a bounded stream over an array, with its invariant and what it delivers.\<close>

definition slice_reader_inv :: "ArrayInputStream BoundedInputStream Input \<Rightarrow> bool" where
  "slice_reader_inv =
     reader_inv (bounded_valid array_valid array_undo) (bounded_rest array_rest) (bounded_undo array_undo)"

definition slice_contents :: "ArrayInputStream BoundedInputStream Input \<Rightarrow> byte list" where
  "slice_contents = contents (bounded_rest array_rest)"

definition slice_reader :: "byte list \<Rightarrow> int \<Rightarrow> int \<Rightarrow> ArrayInputStream BoundedInputStream Input" where
  "slice_reader data block_size limit =
     Input_init (BoundedInputStream_init ArrayInputStream_vtable (ArrayInputStream_init data block_size) limit)"

lemma slice_reader_spec:
  assumes "0 \<le> limit"
  shows "slice_reader_inv (slice_reader data block_size limit)"
    and "slice_contents (slice_reader data block_size limit) = take (nat limit) data"
proof -
  have "bounded_valid array_valid array_undo
      (BoundedInputStream_init ArrayInputStream_vtable (ArrayInputStream_init data block_size) limit)"
    using assms ArrayInputStream_init_valid by (simp add: bounded_valid_def BoundedInputStream_init_def)
  from bounded_array.Input_init_spec [OF this]
  show "slice_reader_inv (slice_reader data block_size limit)"
    "slice_contents (slice_reader data block_size limit) = take (nat limit) data"
    by (simp_all add: slice_reader_inv_def slice_contents_def slice_reader_def bounded_rest_def
        BoundedInputStream_init_def ArrayInputStream_init_valid)
qed

text \<open>
  C23: Reading from a bounded stream. Whatever the block size of the underlying array stream
  and however the data is split into windows, \<^verbatim>\<open>Input::Read\<close> returns the next bytes up to the
  limit, reports failure exactly when there are fewer than asked for, and goes on behind them.
\<close>

theorem bounded_read_exact:
  assumes "slice_reader_inv inp"
  shows "\<exists>inp'. Input_Read (BoundedInputStream_vtable ArrayInputStream_vtable) n inp =
      Some (n \<le> length (slice_contents inp), take n (slice_contents inp), inp') \<and>
    slice_reader_inv inp' \<and> slice_contents inp' = drop n (slice_contents inp)"
  using bounded_array.Input_Read_spec [of inp n] assms
  by (simp add: slice_reader_inv_def slice_contents_def)

theorem bounded_read_exact_witness:
  "\<exists>inp'. Input_Read (BoundedInputStream_vtable ArrayInputStream_vtable) 3 (slice_reader [1, 2, 3, 4, 5, 6] 2 4) =
      Some (True, [1, 2, 3], inp') \<and> slice_contents inp' = [4]"
  using bounded_read_exact [OF slice_reader_spec(1) [of 4], of 3 "[1, 2, 3, 4, 5, 6]" 2]
    slice_reader_spec(2) [of 4 "[1, 2, 3, 4, 5, 6]" 2] by (auto simp: eval_nat_numeral)

text \<open>
  C24: Line reading. \<^verbatim>\<open>Input::ReadLine\<close> returns the bytes up to and including the first newline,
  or all the remaining ones if there is none, even where a line spans several windows, and
  reports failure exactly at the end of the input.
\<close>

theorem read_line_exact:
  assumes "slice_reader_inv inp"
  shows "\<exists>inp'. Input_ReadLine (BoundedInputStream_vtable ArrayInputStream_vtable) inp =
      Some (slice_contents inp \<noteq> [], first_line (slice_contents inp), inp') \<and>
    slice_reader_inv inp' \<and>
    slice_contents inp' = drop (length (first_line (slice_contents inp))) (slice_contents inp)"
proof -
  have "first_line cs = [] \<longleftrightarrow> cs = []" for cs by (cases cs) simp_all
  then show ?thesis
    using bounded_array.line_loop_spec [of inp "[]"] assms
    by (simp add: slice_reader_inv_def slice_contents_def Input_ReadLine_def)
qed

theorem read_line_exact_witness:
  "\<exists>inp'. Input_ReadLine (BoundedInputStream_vtable ArrayInputStream_vtable) (slice_reader [65, 66, 10, 67] 1 4) =
      Some (True, [65, 66, 10], inp') \<and> slice_contents inp' = [67]"
  using read_line_exact [OF slice_reader_spec(1) [of 4 "[65, 66, 10, 67]" 1]]
    slice_reader_spec(2) [of 4 "[65, 66, 10, 67]" 1] by auto

text \<open>
  C25: Varints of a stream. Where the remaining input starts with a varint, the stream readers
  return its value, even where it spans windows, and go on behind it; where the input ends
  inside a varint, they report failure. The 64-bit reader fails on every malformed varint.
\<close>

theorem stream_varints:
  assumes "slice_reader_inv inp"
  shows "(\<exists>r inp'. Input_ReadVarint32 (BoundedInputStream_vtable ArrayInputStream_vtable) inp = Some (r, inp') \<and>
      slice_reader_inv inp' \<and>
      (case Parse32 (slice_contents inp) of
         Parsed v bs \<Rightarrow> r = Value v \<and> slice_contents inp' = bs
       | Overrun \<Rightarrow> r = NoValue \<and> slice_contents inp' = []
       | _ \<Rightarrow> \<forall>v. r \<noteq> Value v)) \<and>
    (\<exists>r inp'. Input_ReadVarint64 (BoundedInputStream_vtable ArrayInputStream_vtable) inp = Some (r, inp') \<and>
      slice_reader_inv inp' \<and>
      (case Parse64 (slice_contents inp) of
         Parsed v bs \<Rightarrow> r = Value v \<and> slice_contents inp' = bs
       | _ \<Rightarrow> r = NoValue))"
  using bounded_array.Input_ReadVarint32_spec [of inp] bounded_array.Input_ReadVarint64_spec [of inp] assms
  unfolding slice_reader_inv_def slice_contents_def by blast

theorem stream_varints_witness:
  "\<exists>inp'. Input_ReadVarint32 (BoundedInputStream_vtable ArrayInputStream_vtable) (slice_reader [0xAC, 2, 9] 1 3) =
     Some (Value 300, inp') \<and> slice_contents inp' = [9]"
proof -
  have "[0xAC, 2, 9] = Encode32 300 @ [9]" by (simp add: Encode32_def Encode32Inline_def)
  then have "Parse32 [0xAC, 2, 9] = Parsed 300 [9]" by (simp only: Parse32_Encode32)
  then show ?thesis
    using stream_varints [OF slice_reader_spec(1) [of 3 "[0xAC, 2, 9]" 1]]
      slice_reader_spec(2) [of 3 "[0xAC, 2, 9]" 1] by auto
qed


text \<open>
  A length of two gigabytes and more is lost. The 32-bit length of a string is passed on
  as a signed integer: with a length of 2 147 483 648 \<^verbatim>\<open>ReadVarString\<close> reports success with an
  empty string and leaves the bytes in the input.
\<close>

theorem read_varstring_negative_length:
  "\<exists>inp'. Input_ReadVarString ArrayInputStream_vtable []
     (Input_init (ArrayInputStream_init [0x80, 0x80, 0x80, 0x80, 8, 65, 66] (-1))) = Some (Value True, [], inp') \<and>
   contents array_rest inp' = [65, 66]"
proof -
  let ?data = "[0x80, 0x80, 0x80, 0x80, 8, 65, 66]"
  have p: "Parse32 ?data = Parsed 0x80000000 [65, 66]"
  proof -
    have "?data = Encode32 0x80000000 @ [65, 66]" by (simp add: Encode32_def Encode32Inline_def)
    then show ?thesis by (simp only: Parse32_Encode32)
  qed
  have "array.rinv (Input_init (ArrayInputStream_init ?data (-1)))"
    "array.cont (Input_init (ArrayInputStream_init ?data (-1))) = ?data"
    using array.Input_init_spec ArrayInputStream_init_valid by metis+
  from array.Input_ReadVarint32_spec [OF this(1)] this(2) p obtain inp' where
    v: "Input_ReadVarint32 ArrayInputStream_vtable (Input_init (ArrayInputStream_init ?data (-1))) = Some (Value 0x80000000, inp')"
      "array.cont inp' = [65, 66]"
    by auto
  moreover have "copy_loop ArrayInputStream_vtable 0 [] inp' = Some (True, [], inp')"
    by (subst copy_loop.simps) simp
  ultimately show ?thesis by (simp add: Input_ReadVarString_def Input_ReadString_def)
qed

end
