(* ===== verification/Output_Streams.thy ===== *)
theory Output_Streams
  imports Input_Streams
begin

text \<open>
  Zero-copy output: the interface \<^verbatim>\<open>OutputStream\<close> of \<^verbatim>\<open>sling/stream/stream.h\<close>, its
  implementations \<^verbatim>\<open>ArrayOutputStream\<close>, \<^verbatim>\<open>StringOutputStream\<close> and \<^verbatim>\<open>IOBufferOutputStream\<close>
  (\<^verbatim>\<open>memory.cc\<close>), and the buffered writer \<^verbatim>\<open>Output\<close> (\<^verbatim>\<open>output.h\<close>, \<^verbatim>\<open>output.cc\<close>). A stream
  hands out windows of its own memory and the writer stores through pointers into them, so
  a stream has, besides its virtual methods, the effect \<open>out_store\<close> of a store through
  such a pointer. A pointer is the offset in the stream's block. The contract is the locale
  \<open>output_stream\<close>.
\<close>

section \<open>The interface and its implementations\<close>

record 's OutputStream =
  out_Next :: "'s \<Rightarrow> (nat \<times> nat) option \<times> 's"
  out_BackUp :: "nat \<Rightarrow> 's \<Rightarrow> 's option"
  out_ByteCount :: "'s \<Rightarrow> int"
  out_store :: "nat \<Rightarrow> byte list \<Rightarrow> 's \<Rightarrow> 's"

subsection \<open>\<open>ArrayOutputStream\<close>\<close>

text \<open>
  \<open>can_alloc\<close> tells for which sizes \<^verbatim>\<open>realloc\<close> succeeds. A failing \<^verbatim>\<open>realloc\<close> leaves
  \<^verbatim>\<open>data_\<close> null, the new \<^verbatim>\<open>size_\<close> is kept.
\<close>

record ArrayOutputStream =
  ao_data :: "cell list"
  ao_size :: nat
  ao_position :: nat
  ao_block_size :: nat

definition ArrayOutputStream_init :: "nat \<Rightarrow> ArrayOutputStream" where
  "ArrayOutputStream_init block_size =
     \<lparr>ao_data = [], ao_size = 0, ao_position = 0, ao_block_size = block_size\<rparr>"

definition ArrayOutputStream_data :: "ArrayOutputStream \<Rightarrow> cell list" where
  "ArrayOutputStream_data s = take (ao_position s) (ao_data s)"

definition ArrayOutputStream_release :: "ArrayOutputStream \<Rightarrow> cell list \<times> ArrayOutputStream" where
  "ArrayOutputStream_release s =
     (ao_data s, s\<lparr>ao_data := [], ao_size := 0, ao_position := 0\<rparr>)"

definition ArrayOutputStream_Next ::
    "(nat \<Rightarrow> bool) \<Rightarrow> ArrayOutputStream \<Rightarrow> (nat \<times> nat) option \<times> ArrayOutputStream" where
  "ArrayOutputStream_Next can_alloc s =
     (let grow = (ao_size s - ao_position s = 0);
          newsize = (if ao_size s > 0 then ao_size s * 2 else ao_block_size s)
      in if grow \<and> \<not> can_alloc newsize
         then (None, s\<lparr>ao_size := newsize, ao_data := []\<rparr>)
         else let s = (if grow then s\<lparr>ao_size := newsize, ao_data := realloc (ao_data s) newsize\<rparr> else s);
                  n = ao_size s - ao_position s;
                  n = (if n > ao_block_size s then ao_block_size s else n)
              in (Some (ao_position s, n), s\<lparr>ao_position := ao_position s + n\<rparr>))"

definition ArrayOutputStream_BackUp :: "nat \<Rightarrow> ArrayOutputStream \<Rightarrow> ArrayOutputStream option" where
  "ArrayOutputStream_BackUp count s =
     (if count \<le> ao_position s then Some (s\<lparr>ao_position := ao_position s - count\<rparr>) else None)"

definition ArrayOutputStream_ByteCount :: "ArrayOutputStream \<Rightarrow> int" where
  "ArrayOutputStream_ByteCount s = int (ao_position s)"

definition ArrayOutputStream_vtable :: "(nat \<Rightarrow> bool) \<Rightarrow> ArrayOutputStream OutputStream" where
  "ArrayOutputStream_vtable can_alloc =
     \<lparr>out_Next = ArrayOutputStream_Next can_alloc, out_BackUp = ArrayOutputStream_BackUp,
      out_ByteCount = ArrayOutputStream_ByteCount,
      out_store = (\<lambda>off bs s. s\<lparr>ao_data := store_cells off (map Some bs) (ao_data s)\<rparr>)\<rparr>"

subsection \<open>\<open>StringOutputStream\<close>\<close>

text \<open>
  A \<^verbatim>\<open>std::string\<close> with its capacity. Growing beyond the capacity reallocates; the new
  capacity is up to the library (\<open>policy\<close>) but never below the new size. Characters added
  by \<^verbatim>\<open>resize\<close> are zero.
\<close>

record cpp_string =
  cs_chars :: "byte list"
  cs_capacity :: nat

definition string_resize :: "(nat \<Rightarrow> nat \<Rightarrow> nat) \<Rightarrow> nat \<Rightarrow> cpp_string \<Rightarrow> cpp_string" where
  "string_resize policy n s =
     \<lparr>cs_chars = take n (cs_chars s) @ replicate (n - length (cs_chars s)) 0,
      cs_capacity = (if n \<le> cs_capacity s then cs_capacity s else max n (policy (cs_capacity s) n))\<rparr>"

definition StringOutputStream_Next ::
    "(nat \<Rightarrow> nat \<Rightarrow> nat) \<Rightarrow> cpp_string \<Rightarrow> (nat \<times> nat) option \<times> cpp_string" where
  "StringOutputStream_Next policy s =
     (let position = length (cs_chars s);
          s = (if position < cs_capacity s then string_resize policy (cs_capacity s) s
               else let new_size = (if position > 0 then position * 2 else 8192)
                    in string_resize policy new_size s)
      in (Some (position, length (cs_chars s) - position), s))"

definition StringOutputStream_BackUp ::
    "(nat \<Rightarrow> nat \<Rightarrow> nat) \<Rightarrow> nat \<Rightarrow> cpp_string \<Rightarrow> cpp_string option" where
  "StringOutputStream_BackUp policy count s =
     (if count \<le> length (cs_chars s)
      then Some (string_resize policy (length (cs_chars s) - count) s) else None)"

definition StringOutputStream_ByteCount :: "cpp_string \<Rightarrow> int" where
  "StringOutputStream_ByteCount s = int (length (cs_chars s))"

definition StringOutputStream_vtable :: "(nat \<Rightarrow> nat \<Rightarrow> nat) \<Rightarrow> cpp_string OutputStream" where
  "StringOutputStream_vtable policy =
     \<lparr>out_Next = StringOutputStream_Next policy, out_BackUp = StringOutputStream_BackUp policy,
      out_ByteCount = StringOutputStream_ByteCount,
      out_store = (\<lambda>off bs s. s\<lparr>cs_chars := take off (cs_chars s) @ bs @ drop (off + length bs) (cs_chars s)\<rparr>)\<rparr>"

subsection \<open>\<open>IOBufferOutputStream\<close>\<close>

record IOBufferOutputStream =
  ob_buffer :: IOBuffer
  ob_block_size :: nat

definition IOBufferOutputStream_Next ::
    "IOBufferOutputStream \<Rightarrow> (nat \<times> nat) option \<times> IOBufferOutputStream" where
  "IOBufferOutputStream_Next s =
     (let b = (if io_full (ob_buffer s) then IOBuffer_Ensure (ob_block_size s) (ob_buffer s)
               else ob_buffer s);
          n = io_remaining b;
          n = (if n > ob_block_size s then ob_block_size s else n)
      in case IOBuffer_Append n b of (data, b) \<Rightarrow> (Some (data, n), s\<lparr>ob_buffer := b\<rparr>))"

definition IOBufferOutputStream_BackUp ::
    "nat \<Rightarrow> IOBufferOutputStream \<Rightarrow> IOBufferOutputStream option" where
  "IOBufferOutputStream_BackUp count s =
     (case IOBuffer_Unwrite count (ob_buffer s) of
        Some b \<Rightarrow> Some (s\<lparr>ob_buffer := b\<rparr>)
      | None \<Rightarrow> None)"

definition IOBufferOutputStream_ByteCount :: "IOBufferOutputStream \<Rightarrow> int" where
  "IOBufferOutputStream_ByteCount s = int (io_available (ob_buffer s))"

definition IOBufferOutputStream_vtable :: "IOBufferOutputStream OutputStream" where
  "IOBufferOutputStream_vtable =
     \<lparr>out_Next = IOBufferOutputStream_Next, out_BackUp = IOBufferOutputStream_BackUp,
      out_ByteCount = IOBufferOutputStream_ByteCount,
      out_store = (\<lambda>off bs s. s\<lparr>ob_buffer :=
        (ob_buffer s)\<lparr>io_memory := store_cells off (map Some bs) (io_memory (ob_buffer s))\<rparr>\<rparr>)\<rparr>"

section \<open>The buffered writer\<close>

text \<open>
  \<open>LOG(FATAL)\<close> in \<^verbatim>\<open>Next\<close> ends the process: the outcome is \<open>Fatal\<close>. A stream that keeps
  handing out empty windows makes \<^verbatim>\<open>Next\<close> loop: there is no outcome.
\<close>

record 's Output =
  out_buffer :: "nat option"
  out_current :: nat
  out_limit :: nat
  out_stream :: 's

datatype 'a outcome = Fatal | Done 'a

partial_function (option) window_loop ::
    "'s OutputStream \<Rightarrow> 's \<Rightarrow> ((nat \<times> nat) option \<times> 's) option" where
  "window_loop vt s =
     (case out_Next vt s of
        (Some (data, n), s) \<Rightarrow> if n > 0 then Some (Some (data, n), s) else window_loop vt s
      | (None, s) \<Rightarrow> Some (None, s))"

declare window_loop.simps [code]

definition Output_Next :: "'s OutputStream \<Rightarrow> 's Output \<Rightarrow> 's Output outcome option" where
  "Output_Next vt out =
     do {
       (w, s) \<leftarrow> window_loop vt (out_stream out);
       case w of
         Some (data, n) \<Rightarrow> Some (Done (out\<lparr>out_buffer := Some data, out_current := data,
                                          out_limit := data + n, out_stream := s\<rparr>))
       | None \<Rightarrow> Some Fatal
     }"

definition Output_init :: "'s OutputStream \<Rightarrow> 's \<Rightarrow> 's Output outcome option" where
  "Output_init vt s =
     Output_Next vt \<lparr>out_buffer = None, out_current = 0, out_limit = 0, out_stream = s\<rparr>"

definition Output_Flush :: "'s OutputStream \<Rightarrow> 's Output \<Rightarrow> 's Output option" where
  "Output_Flush vt out =
     (if out_buffer out = None then Some out
      else let unused = out_limit out - out_current out
           in if unused = 0 then Some out
              else do {
                s \<leftarrow> out_BackUp vt unused (out_stream out);
                Some \<lparr>out_buffer = None, out_current = 0, out_limit = 0, out_stream = s\<rparr>
              })"

text \<open>\<^verbatim>\<open>memcpy\<close> to the current position, and the copying loop of \<^verbatim>\<open>Write\<close>.\<close>

definition put_bytes :: "'s OutputStream \<Rightarrow> byte list \<Rightarrow> 's Output \<Rightarrow> 's Output" where
  "put_bytes vt bs out =
     (if bs = [] then out
      else out\<lparr>out_stream := out_store vt (out_current out) bs (out_stream out),
               out_current := out_current out + length bs\<rparr>)"

partial_function (option) write_loop ::
    "'s OutputStream \<Rightarrow> byte list \<Rightarrow> 's Output \<Rightarrow> 's Output outcome option" where
  "write_loop vt data out =
     (if length data > 0
      then if out_current out \<noteq> out_limit out
           then (let bytes = out_limit out - out_current out;
                     bytes = (if bytes > length data then length data else bytes)
                 in write_loop vt (drop bytes data) (put_bytes vt (take bytes data) out))
           else do {
             r \<leftarrow> Output_Next vt out;
             case r of Fatal \<Rightarrow> Some Fatal | Done out \<Rightarrow> write_loop vt data out
           }
      else Some (Done out))"

declare write_loop.simps [code]

definition Output_Write ::
    "'s OutputStream \<Rightarrow> byte list \<Rightarrow> 's Output \<Rightarrow> 's Output outcome option" where
  "Output_Write vt data out =
     (if out_limit out - out_current out \<ge> length data then Some (Done (put_bytes vt data out))
      else write_loop vt data out)"

definition Output_WriteChar :: "'s OutputStream \<Rightarrow> byte \<Rightarrow> 's Output \<Rightarrow> 's Output outcome option" where
  "Output_WriteChar vt ch out =
     (if out_current out \<noteq> out_limit out then Some (Done (put_bytes vt [ch] out))
      else Output_Write vt [ch] out)"

definition Output_WriteVarint32 ::
    "'s OutputStream \<Rightarrow> uint32 \<Rightarrow> 's Output \<Rightarrow> 's Output outcome option" where
  "Output_WriteVarint32 vt v out =
     (if out_limit out - out_current out \<ge> kMax32
      then Some (Done (put_bytes vt (Encode32Inline v) out))
      else Output_Write vt (Encode32 v) out)"

definition Output_WriteVarint64 ::
    "'s OutputStream \<Rightarrow> uint64 \<Rightarrow> 's Output \<Rightarrow> 's Output outcome option" where
  "Output_WriteVarint64 vt v out =
     (if out_limit out - out_current out \<ge> kMax64
      then Some (Done (put_bytes vt (Encode64 v) out))
      else Output_Write vt (Encode64 v) out)"

definition Output_WriteVarString ::
    "'s OutputStream \<Rightarrow> byte list \<Rightarrow> 's Output \<Rightarrow> 's Output outcome option" where
  "Output_WriteVarString vt str out =
     do {
       r \<leftarrow> Output_WriteVarint32 vt (of_nat (length str)) out;
       case r of Fatal \<Rightarrow> Some Fatal | Done out \<Rightarrow> Output_Write vt str out
     }"

section \<open>The contract of an output stream\<close>

text \<open>
  \<open>written\<close> is everything the stream has handed out, the current window being its last
  part; \<open>tail\<close> is the offset of the end of that window and \<open>stall\<close> bounds the number of empty
  windows in a row. The contract is for a stream whose memory does not run out.
\<close>

locale output_stream =
  fixes vt :: "'s OutputStream"
    and valid :: "'s \<Rightarrow> bool"
    and written :: "'s \<Rightarrow> cell list"
    and tail :: "'s \<Rightarrow> nat"
    and stall :: "'s \<Rightarrow> nat"
  assumes next_window:
      "valid s \<Longrightarrow> \<exists>off n s' fresh. out_Next vt s = (Some (off, n), s') \<and> valid s' \<and>
        written s' = written s @ fresh \<and> length fresh = n \<and> off + n = tail s' \<and>
        (n = 0 \<longrightarrow> stall s' < stall s)"
    and store:
      "valid s \<Longrightarrow> off + length bs \<le> tail s \<Longrightarrow> tail s - off \<le> length (written s) \<Longrightarrow>
        valid (out_store vt off bs s) \<and> tail (out_store vt off bs s) = tail s \<and>
        written (out_store vt off bs s) =
          store_cells (length (written s) - (tail s - off)) (map Some bs) (written s)"
    and backup:
      "valid s \<Longrightarrow> n \<le> length (written s) \<Longrightarrow>
        \<exists>s'. out_BackUp vt n s = Some s' \<and> valid s' \<and>
          written s' = take (length (written s) - n) (written s)"
    and byte_count: "valid s \<Longrightarrow> out_ByteCount vt s = int (length (written s))"

definition writer_inv ::
    "('s \<Rightarrow> bool) \<Rightarrow> ('s \<Rightarrow> cell list) \<Rightarrow> ('s \<Rightarrow> nat) \<Rightarrow> 's Output \<Rightarrow> bool" where
  "writer_inv valid written tail out \<longleftrightarrow>
     valid (out_stream out) \<and> out_current out \<le> out_limit out \<and>
     (out_buffer out = None \<longrightarrow> out_current out = out_limit out) \<and>
     (out_current out < out_limit out \<longrightarrow>
        out_limit out = tail (out_stream out) \<and>
        out_limit out - out_current out \<le> length (written (out_stream out)))"

definition produced :: "('s \<Rightarrow> cell list) \<Rightarrow> 's Output \<Rightarrow> cell list" where
  "produced written out =
     take (length (written (out_stream out)) - (out_limit out - out_current out))
       (written (out_stream out))"

context output_stream
begin

abbreviation winv :: "'s Output \<Rightarrow> bool" where
  "winv \<equiv> writer_inv valid written tail"

abbreviation prod :: "'s Output \<Rightarrow> cell list" where
  "prod \<equiv> produced written"

lemma window_loop_spec:
  assumes "valid s"
  shows "\<exists>off n s' fresh. window_loop vt s = Some (Some (off, n), s') \<and> 0 < n \<and> valid s' \<and>
    written s' = written s @ fresh \<and> length fresh = n \<and> off + n = tail s'"
  using assms
proof (induction s rule: measure_induct_rule [where f = stall])
  case (less s)
  obtain off n s' fresh where n: "out_Next vt s = (Some (off, n), s')" "valid s'"
    "written s' = written s @ fresh" "length fresh = n" "off + n = tail s'" "n = 0 \<longrightarrow> stall s' < stall s"
    using next_window [OF less.prems] by blast
  show ?case
  proof (cases "n = 0")
    case True
    then have "window_loop vt s = window_loop vt s'" by (subst window_loop.simps) (simp add: n(1))
    then show ?thesis using less.IH [of s'] n True by simp
  next
    case False
    then have "window_loop vt s = Some (Some (off, n), s')" by (subst window_loop.simps) (simp add: n(1))
    then show ?thesis using n False by auto
  qed
qed

lemma Output_Next_spec:
  assumes "valid (out_stream out)" "out_current out = out_limit out"
  shows "\<exists>out'. Output_Next vt out = Some (Done out') \<and> winv out' \<and>
    prod out' = prod out \<and> out_current out' < out_limit out'"
proof -
  obtain off n s' fresh where n: "window_loop vt (out_stream out) = Some (Some (off, n), s')"
    "0 < n" "valid s'" "written s' = written (out_stream out) @ fresh" "length fresh = n" "off + n = tail s'"
    using window_loop_spec [OF assms(1)] by blast
  then show ?thesis
    using assms(2) by (simp add: Output_Next_def writer_inv_def produced_def)
qed

lemma put_bytes_spec:
  assumes "winv out" "length bs \<le> out_limit out - out_current out"
  shows "winv (put_bytes vt bs out)" "prod (put_bytes vt bs out) = prod out @ map Some bs"
proof -
  have "winv (put_bytes vt bs out) \<and> prod (put_bytes vt bs out) = prod out @ map Some bs"
  proof (cases "bs = []")
    case True
    then show ?thesis using assms(1) by (simp add: put_bytes_def)
  next
    case False
    let ?s = "out_stream out" and ?c = "out_current out" and ?l = "out_limit out"
    let ?s' = "out_store vt ?c bs ?s" and ?p = "length (written (out_stream out)) - (out_limit out - out_current out)"
    have lt: "?c < ?l" "?c + length bs \<le> ?l" using assms False by (cases bs; simp)+
    then have tl: "?l = tail ?s" "?l - ?c \<le> length (written ?s)" "valid ?s"
      using assms(1) by (auto simp: writer_inv_def)
    have "?c + length bs \<le> tail ?s" "tail ?s - ?c \<le> length (written ?s)" using tl lt by simp_all
    note st = store [OF tl(3) this, folded tl(1)]
    have room: "?p + length (map Some bs) \<le> length (written ?s)" using tl lt by simp
    have put: "out_stream (put_bytes vt bs out) = ?s'" "out_limit (put_bytes vt bs out) = ?l"
      "out_current (put_bytes vt bs out) = ?c + length bs" "out_buffer (put_bytes vt bs out) = out_buffer out"
      using False by (simp_all add: put_bytes_def)
    have len: "length (written ?s') = length (written ?s)"
      using st room by (metis length_store_cells)
    have "length (written ?s) - (?l - (?c + length bs)) = ?p + length (map Some bs)"
      using tl lt by simp
    then have "prod (put_bytes vt bs out) = prod out @ map Some bs"
      unfolding produced_def put len using st room by (metis take_store_cells add_leE)
    moreover have "winv (put_bytes vt bs out)"
      using st assms(1) lt tl(2) len False by (auto simp: writer_inv_def put)
    ultimately show ?thesis by simp
  qed
  then show "winv (put_bytes vt bs out)" "prod (put_bytes vt bs out) = prod out @ map Some bs"
    by simp_all
qed

lemma write_loop_spec:
  assumes "winv out"
  shows "\<exists>out'. write_loop vt data out = Some (Done out') \<and> winv out' \<and>
    prod out' = prod out @ map Some data"
  using assms
proof (induction "2 * length data + (if out_current out = out_limit out then 1 else 0)"
    arbitrary: data out rule: less_induct)
  case less
  show ?case
  proof (cases "data = []")
    case True
    then show ?thesis using less.prems by (subst write_loop.simps) simp
  next
    case data: False
    show ?thesis
    proof (cases "out_current out = out_limit out")
      case True
      obtain out1 where 1: "Output_Next vt out = Some (Done out1)" "winv out1"
        "prod out1 = prod out" "out_current out1 < out_limit out1"
        using Output_Next_spec [of out] less.prems True by (auto simp: writer_inv_def)
      have "write_loop vt data out = write_loop vt data out1"
        using data True by (subst write_loop.simps) (simp add: 1(1))
      then show ?thesis
        using less.hyps [of data out1] 1 True by simp
    next
      case False
      define k where "k = min (out_limit out - out_current out) (length data)"
      define out1 where "out1 = put_bytes vt (take k data) out"
      have lt: "out_current out < out_limit out" using False less.prems by (auto simp: writer_inv_def)
      then have k: "0 < k" "k \<le> length data" "length (take k data) \<le> out_limit out - out_current out"
        using data by (auto simp: k_def)
      note p = put_bytes_spec [OF less.prems k(3), folded out1_def]
      have step: "write_loop vt data out = write_loop vt (drop k data) out1"
        using data False by (subst write_loop.simps) (simp add: k_def out1_def min_def Let_def)
      have "2 * length (drop k data) + (if out_current out1 = out_limit out1 then 1 else 0) <
          2 * length data + (if out_current out = out_limit out then 1 else 0)"
        using k by simp arith
      from less.hyps [OF this p(1)] obtain out' where
        "write_loop vt (drop k data) out1 = Some (Done out')" "winv out'"
        "prod out' = prod out1 @ map Some (drop k data)" by blast
      then show ?thesis
        by (simp add: step p(2) flip: map_append)
    qed
  qed
qed

lemma Output_Write_spec:
  assumes "winv out"
  shows "\<exists>out'. Output_Write vt data out = Some (Done out') \<and> winv out' \<and>
    prod out' = prod out @ map Some data"
  using write_loop_spec [OF assms] put_bytes_spec [OF assms] by (auto simp: Output_Write_def)

lemma Output_WriteChar_spec:
  assumes "winv out"
  shows "\<exists>out'. Output_WriteChar vt ch out = Some (Done out') \<and> winv out' \<and>
    prod out' = prod out @ [Some ch]"
proof (cases "out_current out = out_limit out")
  case True
  then show ?thesis using Output_Write_spec [OF assms, of "[ch]"] by (simp add: Output_WriteChar_def)
next
  case False
  then have "length [ch] \<le> out_limit out - out_current out" using assms by (auto simp: writer_inv_def)
  from put_bytes_spec [OF assms this] False show ?thesis by (simp add: Output_WriteChar_def)
qed

lemma length_Encode32: "length (Encode32 v) \<le> 5"
  using unat_uint32_less [of v] length_varint_bytes [of "unat v" 4] by (simp add: Encode32_bytes)

lemma length_Encode64: "length (Encode64 v) \<le> 10"
  using unat_uint64_less [of v] length_varint_bytes [of "unat v" 9] by (simp add: Encode64_bytes)

lemma Output_WriteVarint32_spec:
  assumes "winv out"
  shows "\<exists>out'. Output_WriteVarint32 vt v out = Some (Done out') \<and> winv out' \<and>
    prod out' = prod out @ map Some (Encode32 v)"
proof (cases "kMax32 \<le> out_limit out - out_current out")
  case True
  then have "length (Encode32 v) \<le> out_limit out - out_current out"
    using length_Encode32 [of v] by (simp add: kMax32_def)
  from put_bytes_spec [OF assms this] True show ?thesis
    by (simp add: Output_WriteVarint32_def Encode32_def)
next
  case False
  then show ?thesis using Output_Write_spec [OF assms] by (simp add: Output_WriteVarint32_def)
qed

lemma Output_WriteVarint64_spec:
  assumes "winv out"
  shows "\<exists>out'. Output_WriteVarint64 vt v out = Some (Done out') \<and> winv out' \<and>
    prod out' = prod out @ map Some (Encode64 v)"
proof (cases "kMax64 \<le> out_limit out - out_current out")
  case True
  then have "length (Encode64 v) \<le> out_limit out - out_current out"
    using length_Encode64 [of v] by (simp add: kMax64_def)
  from put_bytes_spec [OF assms this] True show ?thesis
    by (simp add: Output_WriteVarint64_def)
next
  case False
  then show ?thesis using Output_Write_spec [OF assms] by (simp add: Output_WriteVarint64_def)
qed

lemma Output_WriteVarString_spec:
  assumes "winv out"
  shows "\<exists>out'. Output_WriteVarString vt str out = Some (Done out') \<and> winv out' \<and>
    prod out' = prod out @ map Some (Encode32 (of_nat (length str)) @ str)"
proof -
  obtain out1 where 1: "Output_WriteVarint32 vt (of_nat (length str)) out = Some (Done out1)" "winv out1"
    "prod out1 = prod out @ map Some (Encode32 (of_nat (length str)))"
    using Output_WriteVarint32_spec [OF assms] by blast
  then show ?thesis using Output_Write_spec [OF 1(2), of str] by (simp add: Output_WriteVarString_def)
qed

lemma Output_Flush_spec:
  assumes "winv out"
  shows "\<exists>out'. Output_Flush vt out = Some out' \<and> winv out' \<and>
    prod out' = prod out \<and> written (out_stream out') = prod out"
proof (cases "out_current out = out_limit out")
  case True
  then show ?thesis using assms by (simp add: Output_Flush_def produced_def)
next
  case False
  then have lt: "out_current out < out_limit out" "out_buffer out \<noteq> None"
    "out_limit out - out_current out \<le> length (written (out_stream out))" "valid (out_stream out)"
    using assms by (auto simp: writer_inv_def)
  from backup [OF lt(4,3)] show ?thesis
    using lt(1,2) by (auto simp: Output_Flush_def writer_inv_def produced_def)
qed

lemma Output_init_spec:
  assumes "valid s"
  shows "\<exists>out. Output_init vt s = Some (Done out) \<and> winv out \<and> prod out = written s"
  using Output_Next_spec [of "\<lparr>out_buffer = None, out_current = 0, out_limit = 0, out_stream = s\<rparr>"] assms
  by (auto simp: Output_init_def produced_def)

end

section \<open>The implementations meet the contract\<close>

subsection \<open>\<open>ArrayOutputStream\<close>\<close>

definition array_out_valid :: "ArrayOutputStream \<Rightarrow> bool" where
  "array_out_valid s \<longleftrightarrow>
     ao_size s = length (ao_data s) \<and> ao_position s \<le> ao_size s \<and> 0 < ao_block_size s"

lemma store_cells_take:
  assumes "off + length cs \<le> p" "p \<le> length mem"
  shows "take p (store_cells off cs mem) = store_cells off cs (take p mem)"
proof -
  obtain q where q: "p = off + length cs + q" using assms(1) le_Suc_ex by blast
  then show ?thesis using assms(2) by (simp add: store_cells_def take_drop add.commute)
qed

lemma array_out_next:
  assumes "array_out_valid s"
  shows "\<exists>off n s' fresh. ArrayOutputStream_Next (\<lambda>_. True) s = (Some (off, n), s') \<and>
    array_out_valid s' \<and> ArrayOutputStream_data s' = ArrayOutputStream_data s @ fresh \<and>
    length fresh = n \<and> off + n = ao_position s' \<and> 0 < n"
proof -
  let ?grow = "ao_size s = ao_position s"
  let ?newsize = "if ao_size s > 0 then ao_size s * 2 else ao_block_size s"
  define t where
    "t = (if ?grow then s\<lparr>ao_size := ?newsize, ao_data := realloc (ao_data s) ?newsize\<rparr> else s)"
  define n where "n = min (ao_size t - ao_position t) (ao_block_size t)"
  have t: "ao_size t = length (ao_data t)" "ao_position t < ao_size t" "0 < ao_block_size t"
    "take (ao_position t) (ao_data t) = take (ao_position s) (ao_data s)" "ao_position t = ao_position s"
    using assms by (auto simp: t_def array_out_valid_def take_realloc)
  have "ao_size s - ao_position s = 0 \<longleftrightarrow> ?grow" using assms by (auto simp: array_out_valid_def)
  then have "ArrayOutputStream_Next (\<lambda>_. True) s =
      (Some (ao_position t, n), t\<lparr>ao_position := ao_position t + n\<rparr>)"
    by (simp add: ArrayOutputStream_Next_def t_def n_def min_def Let_def)
  moreover have "array_out_valid (t\<lparr>ao_position := ao_position t + n\<rparr>)" "0 < n"
    using t(1-3) by (auto simp: array_out_valid_def n_def)
  moreover have "ArrayOutputStream_data (t\<lparr>ao_position := ao_position t + n\<rparr>) =
      ArrayOutputStream_data s @ take n (drop (ao_position t) (ao_data t))"
    by (simp add: ArrayOutputStream_data_def take_add t(4))
  moreover have "length (take n (drop (ao_position t) (ao_data t))) = n"
    using t(1) by (simp add: n_def)
  ultimately show ?thesis by fastforce
qed

interpretation array_out: output_stream "ArrayOutputStream_vtable (\<lambda>_. True)" array_out_valid
  ArrayOutputStream_data ao_position "\<lambda>_. 0"
proof
  fix s
  assume s: "array_out_valid s"
  then have len: "length (ArrayOutputStream_data s) = ao_position s"
    by (simp add: ArrayOutputStream_data_def array_out_valid_def)
  show "\<exists>off n s' fresh. out_Next (ArrayOutputStream_vtable (\<lambda>_. True)) s = (Some (off, n), s') \<and>
      array_out_valid s' \<and> ArrayOutputStream_data s' = ArrayOutputStream_data s @ fresh \<and>
      length fresh = n \<and> off + n = ao_position s' \<and> (n = 0 \<longrightarrow> (0 :: nat) < 0)"
    using array_out_next [OF s] by (fastforce simp: ArrayOutputStream_vtable_def)
  show "out_ByteCount (ArrayOutputStream_vtable (\<lambda>_. True)) s = int (length (ArrayOutputStream_data s))"
    by (simp add: len ArrayOutputStream_vtable_def ArrayOutputStream_ByteCount_def)
  {
    fix off and bs :: "byte list"
    assume off: "off + length bs \<le> ao_position s"
    then show "array_out_valid (out_store (ArrayOutputStream_vtable (\<lambda>_. True)) off bs s) \<and>
        ao_position (out_store (ArrayOutputStream_vtable (\<lambda>_. True)) off bs s) = ao_position s \<and>
        ArrayOutputStream_data (out_store (ArrayOutputStream_vtable (\<lambda>_. True)) off bs s) =
          store_cells (length (ArrayOutputStream_data s) - (ao_position s - off)) (map Some bs)
            (ArrayOutputStream_data s)"
      using s unfolding len
      by (simp add: ArrayOutputStream_vtable_def array_out_valid_def ArrayOutputStream_data_def
          store_cells_take)
  next
    fix n
    assume "n \<le> length (ArrayOutputStream_data s)"
    then show "\<exists>s'. out_BackUp (ArrayOutputStream_vtable (\<lambda>_. True)) n s = Some s' \<and> array_out_valid s' \<and>
        ArrayOutputStream_data s' =
          take (length (ArrayOutputStream_data s) - n) (ArrayOutputStream_data s)"
      using s unfolding len
      by (auto simp: ArrayOutputStream_vtable_def ArrayOutputStream_BackUp_def array_out_valid_def
          ArrayOutputStream_data_def)
  }
qed

subsection \<open>\<open>StringOutputStream\<close>\<close>

definition string_valid :: "cpp_string \<Rightarrow> bool" where
  "string_valid s \<longleftrightarrow> length (cs_chars s) \<le> cs_capacity s"

definition string_written :: "cpp_string \<Rightarrow> cell list" where
  "string_written s = map Some (cs_chars s)"

definition string_tail :: "cpp_string \<Rightarrow> nat" where
  "string_tail s = length (cs_chars s)"

lemma string_resize_grows:
  assumes "length (cs_chars s) \<le> n"
  shows "string_valid (string_resize policy n s)"
    and "cs_chars (string_resize policy n s) = cs_chars s @ replicate (n - length (cs_chars s)) 0"
  using assms by (simp_all add: string_valid_def string_resize_def)

interpretation string_out: output_stream "StringOutputStream_vtable policy" string_valid
  string_written string_tail "\<lambda>_. 0" for policy
proof
  fix s
  assume s: "string_valid s"
  define n where "n = (if length (cs_chars s) < cs_capacity s then cs_capacity s
    else if length (cs_chars s) > 0 then length (cs_chars s) * 2 else 8192)"
  have n: "length (cs_chars s) < n" using s by (auto simp: n_def string_valid_def)
  have "StringOutputStream_Next policy s =
      (Some (length (cs_chars s), n - length (cs_chars s)), string_resize policy n s)"
    using n string_resize_grows(2) [of s n policy] by (auto simp: StringOutputStream_Next_def n_def Let_def)
  then show "\<exists>off n s' fresh. out_Next (StringOutputStream_vtable policy) s = (Some (off, n), s') \<and>
      string_valid s' \<and> string_written s' = string_written s @ fresh \<and> length fresh = n \<and>
      off + n = string_tail s' \<and> (n = 0 \<longrightarrow> (0 :: nat) < 0)"
    using n string_resize_grows [of s n policy]
    by (simp add: StringOutputStream_vtable_def string_written_def string_tail_def)
  show "out_ByteCount (StringOutputStream_vtable policy) s = int (length (string_written s))"
    by (simp add: StringOutputStream_vtable_def StringOutputStream_ByteCount_def string_written_def)
  {
    fix off and bs :: "byte list"
    assume "off + length bs \<le> string_tail s"
    then show "string_valid (out_store (StringOutputStream_vtable policy) off bs s) \<and>
        string_tail (out_store (StringOutputStream_vtable policy) off bs s) = string_tail s \<and>
        string_written (out_store (StringOutputStream_vtable policy) off bs s) =
          store_cells (length (string_written s) - (string_tail s - off)) (map Some bs) (string_written s)"
      using s
      by (simp add: StringOutputStream_vtable_def string_valid_def string_tail_def string_written_def
          store_cells_def take_map drop_map)
  next
    fix n
    assume "n \<le> length (string_written s)"
    then show "\<exists>s'. out_BackUp (StringOutputStream_vtable policy) n s = Some s' \<and> string_valid s' \<and>
        string_written s' = take (length (string_written s) - n) (string_written s)"
      using s
      by (auto simp: StringOutputStream_vtable_def StringOutputStream_BackUp_def string_resize_def
          string_valid_def string_written_def take_map)
  }
qed

subsection \<open>\<open>IOBufferOutputStream\<close>\<close>

definition iobuf_out_valid :: "IOBufferOutputStream \<Rightarrow> bool" where
  "iobuf_out_valid s \<longleftrightarrow> io_inv (ob_buffer s) \<and> 0 < ob_block_size s"

definition iobuf_written :: "IOBufferOutputStream \<Rightarrow> cell list" where
  "iobuf_written s = io_data (ob_buffer s)"

definition iobuf_tail :: "IOBufferOutputStream \<Rightarrow> nat" where
  "iobuf_tail s = io_end (ob_buffer s)"

lemma iobuf_out_next:
  assumes "iobuf_out_valid s"
  shows "\<exists>off n s' fresh. IOBufferOutputStream_Next s = (Some (off, n), s') \<and>
    iobuf_out_valid s' \<and> iobuf_written s' = iobuf_written s @ fresh \<and>
    length fresh = n \<and> off + n = iobuf_tail s' \<and> 0 < n"
proof -
  have inv: "io_inv (ob_buffer s)" "0 < ob_block_size s" using assms by (simp_all add: iobuf_out_valid_def)
  define b where "b = (if io_full (ob_buffer s) then IOBuffer_Ensure (ob_block_size s) (ob_buffer s)
    else ob_buffer s)"
  define n where "n = min (io_remaining b) (ob_block_size s)"
  have b: "io_inv b" "io_data b = io_data (ob_buffer s)"
    using Ensure_keeps(1,2) [OF inv(1)] inv(1) by (simp_all add: b_def)
  have "0 < io_remaining b"
    using Ensure_keeps(3) [OF inv(1), of "ob_block_size s"] inv
    by (auto simp: b_def io_full_def io_remaining_def io_inv_def)
  then have n: "0 < n" "n \<le> io_remaining b" using inv(2) by (auto simp: n_def)
  have app: "IOBuffer_Append n b = (io_end b, b\<lparr>io_end := io_end b + n\<rparr>)"
    using n by (simp add: IOBuffer_Append_def IOBuffer_Ensure_def)
  have next_eq: "IOBufferOutputStream_Next s =
      (Some (io_end b, n), s\<lparr>ob_buffer := b\<lparr>io_end := io_end b + n\<rparr>\<rparr>)"
  proof -
    have "n = (if ob_block_size s < io_remaining b then ob_block_size s else io_remaining b)"
      by (simp add: n_def min_def)
    then show ?thesis using app by (simp add: IOBufferOutputStream_Next_def b_def [symmetric] Let_def)
  qed
  have "io_data (b\<lparr>io_end := io_end b + n\<rparr>) = io_data b @ take n (drop (io_end b) (io_memory b))"
    using b(1) by (simp add: io_data_take take_add io_inv_def)
  then show ?thesis
    using n b inv(2) unfolding next_eq
    by (auto simp: iobuf_out_valid_def iobuf_written_def iobuf_tail_def io_inv_def io_remaining_def)
qed

interpretation iobuf_out: output_stream IOBufferOutputStream_vtable iobuf_out_valid
  iobuf_written iobuf_tail "\<lambda>_. 0"
proof
  fix s
  assume s: "iobuf_out_valid s"
  then have inv: "io_inv (ob_buffer s)" by (simp add: iobuf_out_valid_def)
  have len: "length (iobuf_written s) = io_end (ob_buffer s) - io_begin (ob_buffer s)"
    using inv by (simp add: iobuf_written_def length_io_data io_available_def)
  show "\<exists>off n s' fresh. out_Next IOBufferOutputStream_vtable s = (Some (off, n), s') \<and>
      iobuf_out_valid s' \<and> iobuf_written s' = iobuf_written s @ fresh \<and> length fresh = n \<and>
      off + n = iobuf_tail s' \<and> (n = 0 \<longrightarrow> (0 :: nat) < 0)"
    using iobuf_out_next [OF s] by (fastforce simp: IOBufferOutputStream_vtable_def)
  show "out_ByteCount IOBufferOutputStream_vtable s = int (length (iobuf_written s))"
    by (simp add: len IOBufferOutputStream_vtable_def IOBufferOutputStream_ByteCount_def io_available_def)
  {
    fix off and bs :: "byte list"
    assume off: "off + length bs \<le> iobuf_tail s" "iobuf_tail s - off \<le> length (iobuf_written s)"
    have bounds: "off + length (map Some bs) \<le> io_end (ob_buffer s)" "io_end (ob_buffer s) \<le> length (io_memory (ob_buffer s))"
      "io_begin (ob_buffer s) \<le> off"
      "length (iobuf_written s) - (iobuf_tail s - off) = off - io_begin (ob_buffer s)"
      using off inv unfolding len by (auto simp: iobuf_tail_def io_inv_def)
    then show "iobuf_out_valid (out_store IOBufferOutputStream_vtable off bs s) \<and>
        iobuf_tail (out_store IOBufferOutputStream_vtable off bs s) = iobuf_tail s \<and>
        iobuf_written (out_store IOBufferOutputStream_vtable off bs s) =
          store_cells (length (iobuf_written s) - (iobuf_tail s - off)) (map Some bs) (iobuf_written s)"
      using s unfolding bounds(4)
      by (simp add: IOBufferOutputStream_vtable_def iobuf_out_valid_def io_inv_def iobuf_tail_def
          iobuf_written_def io_data_take store_cells_take) (simp add: store_cells_def take_drop)
  next
    fix n
    assume "n \<le> length (iobuf_written s)"
    from Unwrite_drops [OF inv this [unfolded iobuf_written_def]] s
    show "\<exists>s'. out_BackUp IOBufferOutputStream_vtable n s = Some s' \<and> iobuf_out_valid s' \<and>
        iobuf_written s' = take (length (iobuf_written s) - n) (iobuf_written s)"
      by (simp add: IOBufferOutputStream_vtable_def IOBufferOutputStream_BackUp_def iobuf_out_valid_def
          iobuf_written_def)
  }
qed

section \<open>Properties\<close>

text \<open>
  Writing to a string. Whatever capacity the string gets when it grows, every write
  operation appends exactly its bytes to what was written, and flushing leaves the string with
  those bytes and no more.
\<close>

theorem string_writer_exact:
  assumes "writer_inv string_valid string_written string_tail out"
  shows "(\<exists>out'. Output_Write (StringOutputStream_vtable policy) data out = Some (Done out') \<and>
      writer_inv string_valid string_written string_tail out' \<and>
      produced string_written out' = produced string_written out @ map Some data) \<and>
    (\<exists>out'. Output_WriteVarString (StringOutputStream_vtable policy) data out = Some (Done out') \<and>
      writer_inv string_valid string_written string_tail out' \<and>
      produced string_written out' =
        produced string_written out @ map Some (Encode32 (of_nat (length data)) @ data)) \<and>
    (\<exists>out'. Output_Flush (StringOutputStream_vtable policy) out = Some out' \<and>
      map Some (cs_chars (out_stream out')) = produced string_written out)"
  using string_out.Output_Write_spec [OF assms] string_out.Output_WriteVarString_spec [OF assms]
    string_out.Output_Flush_spec [OF assms] unfolding string_written_def by blast

theorem string_writer_exact_witness:
  "\<exists>out out' out''. Output_init (StringOutputStream_vtable (\<lambda>n _. n)) \<lparr>cs_chars = [1], cs_capacity = 15\<rparr> = Some (Done out) \<and>
     Output_Write (StringOutputStream_vtable (\<lambda>n _. n)) [2, 3] out = Some (Done out') \<and>
     Output_Flush (StringOutputStream_vtable (\<lambda>n _. n)) out' = Some out'' \<and> cs_chars (out_stream out'') = [1, 2, 3]"
proof -
  let ?vt = "StringOutputStream_vtable (\<lambda>n _. n)"
  have "string_valid \<lparr>cs_chars = [1], cs_capacity = 15\<rparr>" by (simp add: string_valid_def)
  from string_out.Output_init_spec [OF this] obtain out where
    i: "Output_init ?vt \<lparr>cs_chars = [1], cs_capacity = 15\<rparr> = Some (Done out)" 
      "writer_inv string_valid string_written string_tail out" "produced string_written out = [Some 1]"
    by (auto simp: string_written_def)
  obtain out' where w: "Output_Write ?vt [2, 3] out = Some (Done out')"
    "writer_inv string_valid string_written string_tail out'"
    "produced string_written out' = [Some 1, Some 2, Some 3]"
    using string_writer_exact [OF i(2), of "\<lambda>n _. n" "[2, 3]"] i(3) by auto
  obtain out'' where f: "Output_Flush ?vt out' = Some out''"
    "map Some (cs_chars (out_stream out'')) = produced string_written out'"
    using string_writer_exact [OF w(2), of "\<lambda>n _. n" "[]"] by blast
  have "map Some (cs_chars (out_stream out'')) = map Some [1, 2, 3]" using f(2) w(3) by simp
  then have "cs_chars (out_stream out'') = [1, 2, 3]" by (simp only: inj_map_eq_map [OF inj_Some])
  then show ?thesis using i(1) w(1) f(1) by blast
qed

text \<open>
  Writing to an I/O buffer. A writer over an \<^verbatim>\<open>IOBufferOutputStream\<close> appends its varints to
  what the buffer holds; after flushing the buffer holds exactly that.
\<close>

theorem iobuffer_writer_exact:
  assumes "writer_inv iobuf_out_valid iobuf_written iobuf_tail out"
  shows "(\<exists>out'. Output_WriteVarint64 IOBufferOutputStream_vtable v out = Some (Done out') \<and>
      writer_inv iobuf_out_valid iobuf_written iobuf_tail out' \<and>
      produced iobuf_written out' = produced iobuf_written out @ map Some (Encode64 v)) \<and>
    (\<exists>out'. Output_WriteVarint32 IOBufferOutputStream_vtable w out = Some (Done out') \<and>
      writer_inv iobuf_out_valid iobuf_written iobuf_tail out' \<and>
      produced iobuf_written out' = produced iobuf_written out @ map Some (Encode32 w)) \<and>
    (\<exists>out'. Output_Flush IOBufferOutputStream_vtable out = Some out' \<and>
      io_data (ob_buffer (out_stream out')) = produced iobuf_written out)"
  using iobuf_out.Output_WriteVarint64_spec [OF assms] iobuf_out.Output_WriteVarint32_spec [OF assms]
    iobuf_out.Output_Flush_spec [OF assms] unfolding iobuf_written_def by blast

theorem iobuffer_writer_exact_witness:
  "\<exists>out out'. Output_init IOBufferOutputStream_vtable \<lparr>ob_buffer = IOBuffer_init, ob_block_size = 8192\<rparr> = Some (Done out) \<and>
     Output_WriteVarint64 IOBufferOutputStream_vtable 300 out = Some (Done out') \<and>
     produced iobuf_written out' = [Some 0xAC, Some 2]"
proof -
  have "iobuf_out_valid \<lparr>ob_buffer = IOBuffer_init, ob_block_size = 8192\<rparr>"
    by (simp add: iobuf_out_valid_def io_inv_def IOBuffer_init_def)
  from iobuf_out.Output_init_spec [OF this] obtain out where
    i: "Output_init IOBufferOutputStream_vtable \<lparr>ob_buffer = IOBuffer_init, ob_block_size = 8192\<rparr> = Some (Done out)"
      "writer_inv iobuf_out_valid iobuf_written iobuf_tail out" "produced iobuf_written out = []"
    by (auto simp: iobuf_written_def io_data_def IOBuffer_init_def)
  have "Encode64 300 = [0xAC, 2]" by (simp add: Encode64_def Encode32_def Encode32Inline_def)
  then show ?thesis using iobuffer_writer_exact [OF i(2), of 300] i(1,3) by auto
qed

end
