(* ===== verification/Handles.thy ===== *)
theory Handles
  imports Sling_Prelude
begin

text \<open>
  The tagged 32-bit handles of \<^verbatim>\<open>sling/frame/store.h\<close> (struct \<^verbatim>\<open>Handle\<close>): references into
  the global or the local handle table, 30-bit signed integers, 30-bit floating point
  numbers (by their bit pattern) and 20-bit indices. The lemmas show that the four tags
  partition the handles and that every constructor is inverted by its accessor on the range
  the encoding supports.
\<close>

section \<open>Handles\<close>

datatype Handle = Handle (bits: uint32)

definition kTagMask :: uint32 where "kTagMask = 3"
definition kIntTag :: uint32 where "kIntTag = 2"
definition kFloatTag :: uint32 where "kFloatTag = 3"
definition kNumber :: uint32 where "kNumber = 2"
definition kPoolMask :: uint32 where "kPoolMask = 1"
definition kGlobalTag :: uint32 where "kGlobalTag = 0"
definition kLocalTag :: uint32 where "kLocalTag = 1"
definition kIndexMask :: uint32 where "kIndexMask = 0xFFC00000 OR kFloatTag"
definition kError :: uint32 where "kError = kFloatTag OR 0xFFBFFF00"
definition kMinInt :: int where "kMinInt = -2147483648 div 4"
definition kMaxInt :: int where "kMaxInt = 2147483647 div 4"
definition kMaxHandles :: nat where "kMaxHandles = 2 ^ 30"

definition tag :: "Handle \<Rightarrow> uint32" where "tag h = bits h AND kTagMask"

definition IsInt :: "Handle \<Rightarrow> bool" where "IsInt h \<longleftrightarrow> tag h = kIntTag"
definition IsFloat :: "Handle \<Rightarrow> bool" where "IsFloat h \<longleftrightarrow> tag h = kFloatTag"
definition IsNumber :: "Handle \<Rightarrow> bool" where "IsNumber h \<longleftrightarrow> bits h AND kNumber \<noteq> 0"
definition IsRef :: "Handle \<Rightarrow> bool" where "IsRef h \<longleftrightarrow> bits h AND kNumber = 0"
definition IsGlobalRef :: "Handle \<Rightarrow> bool" where "IsGlobalRef h \<longleftrightarrow> tag h = kGlobalTag"
definition IsLocalRef :: "Handle \<Rightarrow> bool" where "IsLocalRef h \<longleftrightarrow> tag h = kLocalTag"

definition Handle_nil :: Handle where "Handle_nil = Handle 0"
definition Handle_id :: Handle where "Handle_id = Handle 4"
definition Handle_isa :: Handle where "Handle_isa = Handle 8"
definition Handle_is :: Handle where "Handle_is = Handle 12"
definition Handle_name :: Handle where "Handle_name = Handle 16"
definition Handle_zero :: Handle where "Handle_zero = Handle kIntTag"
definition Handle_one :: Handle where "Handle_one = Handle (kIntTag OR push_bit 2 1)"
definition Handle_error :: Handle where "Handle_error = Handle kError"

definition IsNil :: "Handle \<Rightarrow> bool" where "IsNil h \<longleftrightarrow> bits h = 0"
definition IsFalse :: "Handle \<Rightarrow> bool" where "IsFalse h \<longleftrightarrow> bits h = kIntTag"
definition IsTrue :: "Handle \<Rightarrow> bool" where "IsTrue h \<longleftrightarrow> \<not> IsFalse h"
definition IsError :: "Handle \<Rightarrow> bool" where "IsError h \<longleftrightarrow> bits h = kError"

text \<open>The shift of a signed value is arithmetic: it rounds towards minus infinity.\<close>

definition AsInt :: "Handle \<Rightarrow> int" where "AsInt h = sint (bits h) div 4"
definition AsBool :: "Handle \<Rightarrow> bool" where "AsBool h = IsTrue h"

text \<open>Floating point numbers are bit patterns; \<open>int_to_float\<close> is the hardware conversion.\<close>

definition AsFloat :: "(int \<Rightarrow> uint32) \<Rightarrow> Handle \<Rightarrow> uint32" where
  "AsFloat int_to_float h = (if IsFloat h then bits h AND NOT kTagMask else int_to_float (AsInt h))"

definition idx :: "Handle \<Rightarrow> uint32" where "idx h = drop_bit 2 (bits h)"
definition pool :: "Handle \<Rightarrow> uint32" where "pool h = bits h AND kPoolMask"
definition untagged :: "Handle \<Rightarrow> uint32" where "untagged h = bits h AND NOT kTagMask"

definition Handle_Integer :: "int \<Rightarrow> Handle" where
  "Handle_Integer n = Handle (push_bit 2 (word_of_int n) OR kIntTag)"

definition Handle_Float :: "uint32 \<Rightarrow> Handle" where
  "Handle_Float n = Handle ((n AND NOT kTagMask) OR kFloatTag)"

definition Handle_Bool :: "bool \<Rightarrow> Handle" where
  "Handle_Bool b = (if b then Handle_one else Handle_zero)"

definition Handle_Ref :: "uint32 \<Rightarrow> uint32 \<Rightarrow> Handle" where
  "Handle_Ref i t = Handle (push_bit 2 i OR t)"

definition FromFloatBits :: "uint32 \<Rightarrow> Handle" where
  "FromFloatBits b = Handle (push_bit 2 b OR kFloatTag)"

definition FloatBits :: "Handle \<Rightarrow> uint32" where "FloatBits h = drop_bit 2 (bits h)"

definition IsIndex :: "Handle \<Rightarrow> bool" where "IsIndex h \<longleftrightarrow> bits h AND kIndexMask = kIndexMask"

definition AsIndex :: "Handle \<Rightarrow> int" where
  "AsIndex h = uint (drop_bit 2 (bits h AND NOT kIndexMask))"

definition Handle_Index :: "int \<Rightarrow> Handle" where
  "Handle_Index n = Handle (push_bit 2 (word_of_int n) OR kIndexMask)"

definition Handle_Add :: "int \<Rightarrow> Handle \<Rightarrow> Handle" where
  "Handle_Add n h = Handle (bits h + push_bit 2 (word_of_int n))"

definition Handle_Subtract :: "int \<Rightarrow> Handle \<Rightarrow> Handle" where
  "Handle_Subtract n h = Handle (bits h - push_bit 2 (word_of_int n))"

definition HandleHash :: "Handle \<Rightarrow> uint32" where "HandleHash h = drop_bit 2 (bits h)"

section \<open>The tags\<close>

lemmas tag_defs = tag_def kTagMask_def kIntTag_def kFloatTag_def kNumber_def kPoolMask_def
  kGlobalTag_def kLocalTag_def

lemma tag_nat: "tag h = of_nat (unat (bits h) mod 4)"
  by (simp add: tag_def kTagMask_def and_mask_mod [of 3 2])

lemma mod_4_cases:
  obtains "n mod 4 = 0" | "n mod 4 = 1" | "n mod 4 = 2" | "n mod 4 = (3 :: nat)"
proof -
  have "n mod 4 < 4" by simp
  then have "n mod 4 = 0 \<or> n mod 4 = 1 \<or> n mod 4 = 2 \<or> n mod 4 = 3" by linarith
  then show thesis using that by (elim disjE) simp_all
qed

lemma tag_tests:
  "IsGlobalRef h \<longleftrightarrow> unat (bits h) mod 4 = 0"
  "IsLocalRef h \<longleftrightarrow> unat (bits h) mod 4 = 1"
  "IsInt h \<longleftrightarrow> unat (bits h) mod 4 = 2"
  "IsFloat h \<longleftrightarrow> unat (bits h) mod 4 = 3"
  by (rule mod_4_cases [of "unat (bits h)"];
      simp add: IsGlobalRef_def IsLocalRef_def IsInt_def IsFloat_def tag_nat kGlobalTag_def
        kLocalTag_def kIntTag_def kFloatTag_def)+

lemma number_bit: "(w :: uint32) AND 2 = 0 \<longleftrightarrow> unat w mod 4 < 2"
proof -
  have "w AND 2 = (w AND 3) AND 2" by (simp add: and.assoc)
  also have "\<dots> = of_nat (unat w mod 4) AND 2" by (simp add: and_mask_mod [of 3 2])
  finally show ?thesis by (cases rule: mod_4_cases [of "unat w"]) simp_all
qed

lemma ref_tests:
  "IsRef h \<longleftrightarrow> unat (bits h) mod 4 < 2" "IsNumber h \<longleftrightarrow> \<not> unat (bits h) mod 4 < 2"
  by (simp_all add: IsRef_def IsNumber_def kNumber_def number_bit)

lemma unat_shift_or:
  assumes "unat t < 4"
  shows "unat (push_bit 2 x OR t :: uint32) = unat x mod 1073741824 * 4 + unat t"
proof -
  have "take_bit 2 t = t"
    using assms by (simp add: take_bit_eq_mod unat_mod word_unat_eq_iff)
  then have "push_bit 2 x OR t = t + push_bit 2 x" by (simp add: or_push_bit_add or.commute)
  also have "\<dots> = of_nat (unat t + unat x * 4)" by (simp add: push_bit_eq_mult)
  also have "unat \<dots> = (unat t + unat x * 4) mod 4294967296"
    unfolding unat_of_nat by simp
  also have "\<dots> = unat x mod 1073741824 * 4 + unat t"
  proof -
    have "(unat x * 4) mod (1073741824 * 4) = unat x mod 1073741824 * 4" by (rule mult_mod_left [symmetric])
    then have "(unat t + unat x * 4) mod 4294967296 = (unat t + unat x mod 1073741824 * 4) mod 4294967296"
      using mod_add_right_eq [of "unat t" "unat x * 4" 4294967296] by simp
    moreover have "unat x mod 1073741824 * 4 + unat t < 4294967296"
      using assms mod_less_divisor [of 1073741824 "unat x"] by linarith
    ultimately show ?thesis by (simp only: add.commute [of "unat t"] mod_less)
  qed
  finally show ?thesis .
qed

section \<open>References\<close>

lemma idx_nat: "unat (idx h) = unat (bits h) div 4"
  unfolding idx_def unat_drop_bit_eq by (simp add: drop_bit_eq_div)

lemma Ref_idx:
  assumes "unat i < kMaxHandles" "t = kGlobalTag \<or> t = kLocalTag"
  shows "idx (Handle_Ref i t) = i" "tag (Handle_Ref i t) = t" "IsRef (Handle_Ref i t)"
    and "pool (Handle_Ref i t) = t"
proof -
  have t: "unat t < 2" "unat t < 4" using assms(2) by (auto simp: kGlobalTag_def kLocalTag_def)
  have u: "unat (bits (Handle_Ref i t)) = unat i * 4 + unat t"
    using unat_shift_or [OF t(2), of i] assms(1) by (simp add: Handle_Ref_def kMaxHandles_def)
  show "idx (Handle_Ref i t) = i"
    using t by (simp add: word_unat_eq_iff idx_nat u)
  show "tag (Handle_Ref i t) = t" "IsRef (Handle_Ref i t)"
    using t by (simp_all add: tag_nat ref_tests u)
  have "pool (Handle_Ref i t) = of_nat (unat (bits (Handle_Ref i t)) mod 2)"
    by (simp add: pool_def kPoolMask_def and_mask_mod [of 1 1])
  also have "unat (bits (Handle_Ref i t)) mod 2 = unat t"
    using t(1) unfolding u by (simp add: mod_add_eq [symmetric, of "unat i * 4"])
  finally show "pool (Handle_Ref i t) = t" by simp
qed

lemma Ref_surj:
  assumes "IsRef h"
  shows "h = Handle_Ref (idx h) (tag h)" "unat (idx h) < kMaxHandles"
proof -
  have t: "unat (tag h) = unat (bits h) mod 4" by (simp add: tag_nat unat_of_nat)
  have lt: "unat (bits h) < 4294967296" by (rule unat_uint32_less)
  then show "unat (idx h) < kMaxHandles" by (simp add: idx_nat kMaxHandles_def)
  have "unat (tag h) < 4" by (simp add: t)
  from unat_shift_or [OF this, of "idx h"]
  have "unat (bits (Handle_Ref (idx h) (tag h))) = unat (bits h)"
    using lt by (simp add: Handle_Ref_def idx_nat t)
  then show "h = Handle_Ref (idx h) (tag h)"
    by (metis Handle.expand word_unat_eq_iff)
qed

section \<open>Integers\<close>

lemma Integer_bits: "bits (Handle_Integer n) = word_of_int (4 * n + 2)"
proof -
  have "take_bit 2 (2 :: uint32) = 2" by simp
  then have "push_bit 2 (word_of_int n) OR 2 = (2 :: uint32) + push_bit 2 (word_of_int n)"
    using or_push_bit_add [of 2 "2 :: uint32"] by (simp only: or.commute)
  then show ?thesis
    by (simp add: Handle_Integer_def kIntTag_def push_bit_eq_mult)
qed

lemma unat_word_of_int_mod_4: "int (unat (word_of_int k :: uint32) mod 4) = k mod 4"
proof -
  have "int (unat (word_of_int k :: uint32)) = k mod 4294967296"
    by (simp add: unsigned_of_int take_bit_eq_mod)
  then have "int (unat (word_of_int k :: uint32) mod 4) = k mod 4294967296 mod 4"
    by (simp add: zmod_int)
  also have "\<dots> = k mod 4" by (rule mod_mod_cancel) simp
  finally show ?thesis .
qed

lemma Integer_IsInt [simp]: "IsInt (Handle_Integer n)"
  using unat_word_of_int_mod_4 [of "4 * n + 2"] by (simp add: tag_tests Integer_bits)

lemma sint_Integer:
  assumes "kMinInt \<le> n" "n \<le> kMaxInt"
  shows "sint (bits (Handle_Integer n)) = 4 * n + 2"
proof -
  have "- (2 ^ 31) \<le> 4 * n + 2" "4 * n + 2 < 2 ^ 31"
    using assms by (simp_all add: kMinInt_def kMaxInt_def)
  then show ?thesis
    unfolding Integer_bits signed_of_int by (simp add: signed_take_bit_int_eq_self)
qed

lemma AsInt_Integer:
  assumes "kMinInt \<le> n" "n \<le> kMaxInt"
  shows "AsInt (Handle_Integer n) = n"
  unfolding AsInt_def sint_Integer [OF assms] by simp

lemma Integer_AsInt:
  assumes "IsInt h"
  shows "Handle_Integer (AsInt h) = h" "kMinInt \<le> AsInt h" "AsInt h \<le> kMaxInt"
proof -
  let ?k = "sint (bits h)"
  have "?k mod 4 = 2"
    using assms unat_word_of_int_mod_4 [of ?k] by (simp add: tag_tests)
  then have "4 * AsInt h + 2 = ?k" unfolding AsInt_def by presburger
  then have "bits (Handle_Integer (AsInt h)) = bits h" by (simp add: Integer_bits)
  then show "Handle_Integer (AsInt h) = h" by (rule Handle.expand)
  have "- 2147483648 \<le> ?k" "?k < 2147483648"
    using sint_greater_eq [of "bits h"] sint_lt [of "bits h"] by simp_all
  then show "kMinInt \<le> AsInt h" "AsInt h \<le> kMaxInt"
    by (simp_all add: AsInt_def kMinInt_def kMaxInt_def)
qed

lemma Add_Integer:
  "Handle_Add n (Handle_Integer a) = Handle_Integer (a + n)"
  "Handle_Subtract n (Handle_Integer a) = Handle_Integer (a - n)"
  by (rule Handle.expand; simp add: Handle_Add_def Handle_Subtract_def Integer_bits push_bit_eq_mult
      algebra_simps)+

section \<open>Floats and indices\<close>

lemma Float_bits: "unat (bits (Handle_Float f)) = unat f div 4 * 4 + 3"
proof -
  have "f AND NOT 3 = f AND NOT (mask 2)" by (simp add: mask_eq_exp_minus_1)
  also have "\<dots> = push_bit 2 (drop_bit 2 f)"
  proof (rule bit_word_eqI)
    fix n
    assume "n < LENGTH(32)"
    moreover have "2 \<le> n \<Longrightarrow> Suc (Suc (n - 2)) = n" by arith
    ultimately show "bit (f AND NOT (mask 2)) n \<longleftrightarrow> bit (push_bit 2 (drop_bit 2 f)) n"
      by (auto simp: bit_simps)
  qed
  finally have "f AND NOT 3 = push_bit 2 (drop_bit 2 f)" .
  moreover have "unat f div 4 mod 1073741824 = unat f div 4"
    using unat_uint32_less [of f] by simp
  ultimately show ?thesis
    using unat_shift_or [of 3 "drop_bit 2 f"] idx_nat [of "Handle f", unfolded idx_def]
    by (simp add: Handle_Float_def kTagMask_def kFloatTag_def)
qed

lemma Float_IsFloat [simp]: "IsFloat (Handle_Float f)"
  by (simp add: tag_tests Float_bits)

lemma IsFloat_Float:
  assumes "IsFloat h"
  shows "Handle_Float (bits h) = h" "FromFloatBits (FloatBits h) = h"
proof -
  have "unat (bits h) div 4 * 4 + 3 = unat (bits h)"
    using assms div_mult_mod_eq [of "unat (bits h)" 4] by (simp add: tag_tests)
  then have "bits (Handle_Float (bits h)) = bits h"
    by (simp add: word_unat_eq_iff Float_bits)
  then show "Handle_Float (bits h) = h" by (rule Handle.expand)
  have "unat (drop_bit 2 (bits h)) = unat (bits h) div 4" by (rule idx_nat [unfolded idx_def])
  moreover have "unat (bits h) div 4 mod 1073741824 = unat (bits h) div 4"
    using unat_uint32_less [of "bits h"] by simp
  ultimately have "unat (bits (FromFloatBits (FloatBits h))) = unat (bits h)"
    using unat_shift_or [of 3 "drop_bit 2 (bits h)"] \<open>unat (bits h) div 4 * 4 + 3 = unat (bits h)\<close>
    by (simp add: FromFloatBits_def FloatBits_def kFloatTag_def)
  then show "FromFloatBits (FloatBits h) = h" by (metis Handle.expand word_unat_eq_iff)
qed

lemma Index_AsIndex:
  assumes "0 \<le> n" "n < 2 ^ 20"
  shows "IsIndex (Handle_Index n)" "AsIndex (Handle_Index n) = n"
proof -
  define y :: uint32 where "y = word_of_int n"
  have "take_bit 20 y = word_of_int (take_bit 20 n)" unfolding y_def by (rule take_bit_of_int)
  then have y: "uint y = n" "take_bit 20 y = y"
    using assms by (simp_all add: y_def unsigned_of_int take_bit_int_eq_self)
  show "IsIndex (Handle_Index n)"
    by (simp add: IsIndex_def Handle_Index_def bit.conj_disj_distrib2)
  have m: "NOT kIndexMask = push_bit 2 (mask 20)"
    by (simp add: kIndexMask_def kFloatTag_def mask_eq_exp_minus_1 push_bit_eq_mult)
  have "(push_bit 2 y OR kIndexMask) AND NOT kIndexMask = push_bit 2 y AND NOT kIndexMask"
    by (simp add: bit.conj_disj_distrib2)
  also have "\<dots> = push_bit 2 y AND push_bit 2 (mask 20)" by (simp only: m)
  also have "\<dots> = push_bit 2 (take_bit 20 y)"
    by (simp only: take_bit_eq_mask push_bit_and)
  also have "drop_bit 2 \<dots> = take_bit 20 y"
    by (rule bit_word_eqI) (auto simp: bit_simps)
  also note y(2)
  finally show "AsIndex (Handle_Index n) = n"
    by (simp add: AsIndex_def Handle_Index_def y_def [symmetric] y(1))
qed

section \<open>Properties\<close>

text \<open>
  Integers in handles. Every integer in the range of integer handles is read back from its
  handle, every integer handle is the handle of an integer in the range, and the arithmetic on
  handles is that of the integers.
\<close>

theorem integer_handles:
  assumes "kMinInt \<le> n" "n \<le> kMaxInt" "IsInt h"
  shows "IsInt (Handle_Integer n) \<and> AsInt (Handle_Integer n) = n \<and>
    Handle_Integer (AsInt h) = h \<and> kMinInt \<le> AsInt h \<and> AsInt h \<le> kMaxInt \<and>
    Handle_Add m h = Handle_Integer (AsInt h + m) \<and> Handle_Subtract m h = Handle_Integer (AsInt h - m)"
proof -
  have "Handle_Add m h = Handle_Integer (AsInt h + m)" "Handle_Subtract m h = Handle_Integer (AsInt h - m)"
    using Add_Integer [of m "AsInt h"] Integer_AsInt(1) [OF assms(3)] by simp_all
  then show ?thesis using AsInt_Integer [OF assms(1,2)] Integer_AsInt [OF assms(3)] by simp
qed

theorem integer_handles_witness:
  "AsInt (Handle_Integer (-536870912)) = -536870912 \<and> Handle_Add 5 (Handle_Integer 7) = Handle_Integer (AsInt (Handle_Integer 7) + 5)"
proof -
  have "kMinInt \<le> -536870912" "-536870912 \<le> kMaxInt" by (simp_all add: kMinInt_def kMaxInt_def)
  from integer_handles [OF this Integer_IsInt [of 7], of 5] show ?thesis by simp
qed

text \<open>
  References. The handle for an index below the maximum and the tag of a store yields that
  index and that tag, and every reference is such a handle. The four kinds of handle exclude
  each other and there is no other kind.
\<close>

theorem reference_handles:
  assumes "unat i < kMaxHandles" "t = kGlobalTag \<or> t = kLocalTag" "IsRef h"
  shows "idx (Handle_Ref i t) = i \<and> tag (Handle_Ref i t) = t \<and> pool (Handle_Ref i t) = t \<and>
    h = Handle_Ref (idx h) (tag h) \<and> unat (idx h) < kMaxHandles \<and>
    (IsGlobalRef h \<or> IsLocalRef h) \<and> \<not> IsInt h \<and> \<not> IsFloat h \<and> \<not> (IsGlobalRef h \<and> IsLocalRef h)"
  using Ref_idx [OF assms(1,2)] Ref_surj [OF assms(3)] assms(3) by (auto simp: tag_tests ref_tests)

theorem reference_handles_witness:
  "idx (Handle_Ref 5 kLocalTag) = 5 \<and> Handle 0x14 = Handle_Ref (idx (Handle 0x14)) (tag (Handle 0x14))"
proof -
  have "unat (5 :: uint32) < kMaxHandles" by (simp add: kMaxHandles_def)
  moreover have "IsRef (Handle 0x14)" by (simp add: IsRef_def kNumber_def)
  ultimately show ?thesis using reference_handles [of 5 kLocalTag "Handle 0x14"] by simp
qed

lemma or_and_absorb:
  fixes a b c :: "'a::len word"
  assumes "b AND c = c"
  shows "(a OR b) AND c = c"
proof (rule bit_word_eqI)
  fix n
  show "bit ((a OR b) AND c) n = bit c n"
    using arg_cong [OF assms, of "\<lambda>w. bit w n"] by (auto simp: bit_and_iff bit_or_iff)
qed

text \<open>
  Index handles. The index handles hold twenty bits: every index in that range is read back,
  and an index handle is a floating-point handle and not an integer, a reference or the error
  value.
\<close>

theorem index_handles:
  assumes "0 \<le> n" "n < 2 ^ 20"
  shows "IsIndex (Handle_Index n) \<and> AsIndex (Handle_Index n) = n \<and>
    IsFloat (Handle_Index n) \<and> \<not> IsInt (Handle_Index n) \<and> \<not> IsRef (Handle_Index n) \<and>
    \<not> IsError (Handle_Index n)"
proof -
  have ix: "IsIndex (Handle_Index n)" by (rule Index_AsIndex(1) [OF assms])
  have "kIndexMask AND 3 = 3" by (simp add: kIndexMask_def kFloatTag_def)
  then have t: "tag (Handle_Index n) = 3"
    unfolding tag_def kTagMask_def Handle_Index_def Handle.sel by (rule or_and_absorb)
  have fl: "IsFloat (Handle_Index n)" using t by (simp add: IsFloat_def kFloatTag_def)
  have "kError AND kIndexMask \<noteq> kIndexMask" by (simp add: kError_def kIndexMask_def kFloatTag_def)
  then have "\<not> IsError (Handle_Index n)" using ix unfolding IsError_def IsIndex_def by metis
  then show ?thesis using ix Index_AsIndex(2) [OF assms] fl unfolding tag_tests ref_tests by simp
qed

theorem index_handles_witness: "AsIndex (Handle_Index 1048575) = 1048575 \<and> IsFloat (Handle_Index 1048575)"
  using index_handles [of 1048575] by simp

end
