(* ===== verification/City_Hash.thy ===== *)
theory City_Hash
  imports Sling_Prelude "HOL-Library.Monad_Syntax"
begin

text \<open>
  The string hash functions of \<^verbatim>\<open>sling/util/city.cc\<close> that the frame store uses for its
  symbol table and fingerprints. A hash function takes the bytes of the string; a load at an
  offset that is not inside the string has no result, so the totality theorems show that no
  variant reads outside its argument. The machine is little endian.
\<close>

section \<open>Loads and mixing\<close>

definition load_bytes :: "byte list \<Rightarrow> int \<Rightarrow> nat \<Rightarrow> byte list option" where
  "load_bytes s off n =
     (if 0 \<le> off \<and> nat off + n \<le> length s then Some (take n (drop (nat off) s)) else None)"

fun load_le :: "byte list \<Rightarrow> 'a::len word" where
  "load_le [] = 0"
| "load_le (b # bs) = ucast b OR push_bit 8 (load_le bs)"

definition Fetch64 :: "byte list \<Rightarrow> int \<Rightarrow> uint64 option" where
  "Fetch64 s off = map_option load_le (load_bytes s off 8)"

definition Fetch32 :: "byte list \<Rightarrow> int \<Rightarrow> uint32 option" where
  "Fetch32 s off = map_option load_le (load_bytes s off 4)"

fun bswap_bytes :: "nat \<Rightarrow> 'a::len word \<Rightarrow> 'a word" where
  "bswap_bytes 0 x = 0"
| "bswap_bytes (Suc k) x = push_bit (8 * k) (x AND 255) OR bswap_bytes k (drop_bit 8 x)"

definition bswap_32 :: "uint32 \<Rightarrow> uint32" where "bswap_32 x = bswap_bytes 4 x"
definition bswap_64 :: "uint64 \<Rightarrow> uint64" where "bswap_64 x = bswap_bytes 8 x"

definition k0 :: uint64 where "k0 = 0xc3a5c85c97cb3127"
definition k1 :: uint64 where "k1 = 0xb492b66fbe98f273"
definition k2 :: uint64 where "k2 = 0x9ae16a3b2f90404f"
definition c1 :: uint32 where "c1 = 0xcc9e2d51"
definition c2 :: uint32 where "c2 = 0x1b873593"

definition fmix :: "uint32 \<Rightarrow> uint32" where
  "fmix h =
     (let h = h XOR drop_bit 16 h;
          h = h * 0x85ebca6b;
          h = h XOR drop_bit 13 h;
          h = h * 0xc2b2ae35;
          h = h XOR drop_bit 16 h
      in h)"

definition Rotate32 :: "uint32 \<Rightarrow> nat \<Rightarrow> uint32" where
  "Rotate32 val shift =
     (if shift = 0 then val else drop_bit shift val OR push_bit (32 - shift) val)"

definition Mur :: "uint32 \<Rightarrow> uint32 \<Rightarrow> uint32" where
  "Mur a h =
     (let a = a * c1;
          a = Rotate32 a 17;
          a = a * c2;
          h = h XOR a;
          h = Rotate32 h 19
      in h * 5 + 0xe6546b64)"

section \<open>The 32-bit hash\<close>

definition Hash32Len13to24 :: "byte list \<Rightarrow> uint32 option" where
  "Hash32Len13to24 s =
     (let len = length s in do {
        a \<leftarrow> Fetch32 s (int (len div 2) - 4);
        b \<leftarrow> Fetch32 s 4;
        c \<leftarrow> Fetch32 s (int len - 8);
        d \<leftarrow> Fetch32 s (int (len div 2));
        e \<leftarrow> Fetch32 s 0;
        f \<leftarrow> Fetch32 s (int len - 4);
        let h = of_nat len;
        Some (fmix (Mur f (Mur e (Mur d (Mur c (Mur b (Mur a h)))))))
      })"

fun hash32_short :: "byte list \<Rightarrow> uint32 \<Rightarrow> uint32 \<Rightarrow> uint32 \<times> uint32" where
  "hash32_short [] b c = (b, c)"
| "hash32_short (v # s) b c =
     (let b = b * c1 + scast v; c = c XOR b in hash32_short s b c)"

definition Hash32Len0to4 :: "byte list \<Rightarrow> uint32 option" where
  "Hash32Len0to4 s =
     (case hash32_short s 0 9 of (b, c) \<Rightarrow> Some (fmix (Mur b (Mur (of_nat (length s)) c))))"

definition Hash32Len5to12 :: "byte list \<Rightarrow> uint32 option" where
  "Hash32Len5to12 s =
     (let len = length s; a = of_nat len; b = of_nat len * 5; c = 9; d = b in do {
        x \<leftarrow> Fetch32 s 0;
        y \<leftarrow> Fetch32 s (int len - 4);
        z \<leftarrow> Fetch32 s (int (len div 2 mod 8 div 4 * 4));
        Some (fmix (Mur (c + z) (Mur (b + y) (Mur (a + x) d))))
      })"

text \<open>The loop over blocks of 20 bytes; \<open>p\<close> is the distance \<^verbatim>\<open>s\<close> has advanced.\<close>

fun city32_loop ::
    "nat \<Rightarrow> byte list \<Rightarrow> int \<Rightarrow> uint32 \<Rightarrow> uint32 \<Rightarrow> uint32 \<Rightarrow> (uint32 \<times> uint32 \<times> uint32) option" where
  "city32_loop 0 s p f g h = Some (f, g, h)"
| "city32_loop (Suc iters) s p f g h = do {
     x0 \<leftarrow> Fetch32 s p;
     let a0 = Rotate32 (x0 * c1) 17 * c2;
     a1 \<leftarrow> Fetch32 s (p + 4);
     x2 \<leftarrow> Fetch32 s (p + 8);
     let a2 = Rotate32 (x2 * c1) 17 * c2;
     x3 \<leftarrow> Fetch32 s (p + 12);
     let a3 = Rotate32 (x3 * c1) 17 * c2;
     a4 \<leftarrow> Fetch32 s (p + 16);
     let h = h XOR a0;
     let h = Rotate32 h 18;
     let h = h * 5 + 0xe6546b64;
     let f = f + a1;
     let f = Rotate32 f 19;
     let f = f * c1;
     let g = g + a2;
     let g = Rotate32 g 18;
     let g = g * 5 + 0xe6546b64;
     let h = h XOR (a3 + a1);
     let h = Rotate32 h 19;
     let h = h * 5 + 0xe6546b64;
     let g = g XOR a4;
     let g = bswap_32 g * 5;
     let h = h + a4 * 5;
     let h = bswap_32 h;
     let f = f + a0;
     city32_loop iters s (p + 20) g h f
   }"

definition CityHash32 :: "byte list \<Rightarrow> uint32 option" where
  "CityHash32 s =
     (let len = length s in
      if len \<le> 24
      then if len \<le> 12
           then if len \<le> 4 then Hash32Len0to4 s else Hash32Len5to12 s
           else Hash32Len13to24 s
      else do {
        let h = of_nat len;
        let g = c1 * of_nat len;
        let f = g;
        x0 \<leftarrow> Fetch32 s (int len - 4);
        let a0 = Rotate32 (x0 * c1) 17 * c2;
        x1 \<leftarrow> Fetch32 s (int len - 8);
        let a1 = Rotate32 (x1 * c1) 17 * c2;
        x2 \<leftarrow> Fetch32 s (int len - 16);
        let a2 = Rotate32 (x2 * c1) 17 * c2;
        x3 \<leftarrow> Fetch32 s (int len - 12);
        let a3 = Rotate32 (x3 * c1) 17 * c2;
        x4 \<leftarrow> Fetch32 s (int len - 20);
        let a4 = Rotate32 (x4 * c1) 17 * c2;
        let h = h XOR a0;
        let h = Rotate32 h 19;
        let h = h * 5 + 0xe6546b64;
        let h = h XOR a2;
        let h = Rotate32 h 19;
        let h = h * 5 + 0xe6546b64;
        let g = g XOR a1;
        let g = Rotate32 g 19;
        let g = g * 5 + 0xe6546b64;
        let g = g XOR a3;
        let g = Rotate32 g 19;
        let g = g * 5 + 0xe6546b64;
        let f = f + a4;
        let f = Rotate32 f 19;
        let f = f * 5 + 0xe6546b64;
        (f, g, h) \<leftarrow> city32_loop ((len - 1) div 20) s 0 f g h;
        let g = Rotate32 g 11 * c1;
        let g = Rotate32 g 17 * c1;
        let f = Rotate32 f 11 * c1;
        let f = Rotate32 f 17 * c1;
        let h = Rotate32 (h + g) 19;
        let h = h * 5 + 0xe6546b64;
        let h = Rotate32 h 17 * c1;
        let h = Rotate32 (h + f) 19;
        let h = h * 5 + 0xe6546b64;
        let h = Rotate32 h 17 * c1;
        Some h
      })"

section \<open>The 64-bit hash\<close>

definition Rotate :: "uint64 \<Rightarrow> nat \<Rightarrow> uint64" where
  "Rotate val shift =
     (if shift = 0 then val else drop_bit shift val OR push_bit (64 - shift) val)"

definition ShiftMix :: "uint64 \<Rightarrow> uint64" where
  "ShiftMix val = val XOR drop_bit 47 val"

definition HashLen16Mul :: "uint64 \<Rightarrow> uint64 \<Rightarrow> uint64 \<Rightarrow> uint64" where
  "HashLen16Mul u v mul =
     (let a = (u XOR v) * mul;
          a = a XOR drop_bit 47 a;
          b = (v XOR a) * mul;
          b = b XOR drop_bit 47 b;
          b = b * mul
      in b)"

definition HashLen16 :: "uint64 \<Rightarrow> uint64 \<Rightarrow> uint64" where
  "HashLen16 u v =
     (let kMul = 0x9ddfea08eb382d69;
          a = (u XOR v) * kMul;
          a = a XOR drop_bit 47 a;
          b = (v XOR a) * kMul;
          b = b XOR drop_bit 47 b;
          b = b * kMul
      in b)"

definition HashLen0to16 :: "byte list \<Rightarrow> uint64 option" where
  "HashLen0to16 s =
     (let len = length s in
      if len \<ge> 8 then do {
        let mul = k2 + of_nat len * 2;
        x \<leftarrow> Fetch64 s 0;
        let a = x + k2;
        b \<leftarrow> Fetch64 s (int len - 8);
        let c = Rotate b 37 * mul + a;
        let d = (Rotate a 25 + b) * mul;
        Some (HashLen16Mul c d mul)
      }
      else if len \<ge> 4 then do {
        let mul = k2 + of_nat len * 2;
        a \<leftarrow> Fetch32 s 0;
        b \<leftarrow> Fetch32 s (int len - 4);
        Some (HashLen16Mul (of_nat len + push_bit 3 (ucast a)) (ucast b) mul)
      }
      else if len > 0 then do {
        let a = s ! 0;
        let b = s ! (len div 2);
        let c = s ! (len - 1);
        let y = (ucast a + push_bit 8 (ucast b) :: uint32);
        let z = (of_nat len + push_bit 2 (ucast c) :: uint32);
        Some (ShiftMix (ucast y * k2 XOR ucast z * k0) * k2)
      }
      else Some k2)"

definition HashLen17to32 :: "byte list \<Rightarrow> uint64 option" where
  "HashLen17to32 s =
     (let len = length s; mul = k2 + of_nat len * 2 in do {
        a \<leftarrow> Fetch64 s 0;
        let a = a * k1;
        b \<leftarrow> Fetch64 s 8;
        c \<leftarrow> Fetch64 s (int len - 8);
        let c = c * mul;
        d \<leftarrow> Fetch64 s (int len - 16);
        let d = d * k2;
        Some (HashLen16Mul (Rotate (a + b) 43 + Rotate c 30 + d) (a + Rotate (b + k2) 18 + c) mul)
      })"

definition WeakHashLen32 ::
    "uint64 \<Rightarrow> uint64 \<Rightarrow> uint64 \<Rightarrow> uint64 \<Rightarrow> uint64 \<Rightarrow> uint64 \<Rightarrow> uint64 \<times> uint64" where
  "WeakHashLen32 w x y z a b =
     (let a = a + w;
          b = Rotate (b + a + z) 21;
          c = a;
          a = a + x;
          a = a + y;
          b = b + Rotate a 44
      in (a + z, b + c))"

definition WeakHashLen32WithSeeds ::
    "byte list \<Rightarrow> int \<Rightarrow> uint64 \<Rightarrow> uint64 \<Rightarrow> (uint64 \<times> uint64) option" where
  "WeakHashLen32WithSeeds s p a b = do {
     w \<leftarrow> Fetch64 s p;
     x \<leftarrow> Fetch64 s (p + 8);
     y \<leftarrow> Fetch64 s (p + 16);
     z \<leftarrow> Fetch64 s (p + 24);
     Some (WeakHashLen32 w x y z a b)
   }"

definition HashLen33to64 :: "byte list \<Rightarrow> uint64 option" where
  "HashLen33to64 s =
     (let len = length s; mul = k2 + of_nat len * 2 in do {
        a \<leftarrow> Fetch64 s 0;
        let a = a * k2;
        b \<leftarrow> Fetch64 s 8;
        c \<leftarrow> Fetch64 s (int len - 24);
        d \<leftarrow> Fetch64 s (int len - 32);
        e \<leftarrow> Fetch64 s 16;
        let e = e * k2;
        f \<leftarrow> Fetch64 s 24;
        let f = f * 9;
        g \<leftarrow> Fetch64 s (int len - 8);
        h \<leftarrow> Fetch64 s (int len - 16);
        let h = h * mul;
        let u = Rotate (a + g) 43 + (Rotate b 30 + c) * 9;
        let v = ((a + g) XOR d) + f + 1;
        let w = bswap_64 ((u + v) * mul) + h;
        let x = Rotate (e + f) 42 + c;
        let y = (bswap_64 ((v + w) * mul) + g) * mul;
        let z = e + f + c;
        let a = bswap_64 ((x + z) * mul + y) + b;
        let b = ShiftMix ((z + a) * mul + d + h) * mul;
        Some (b + x)
      })"

text \<open>The loop over blocks of 64 bytes at distance \<open>p\<close>.\<close>

fun city64_loop ::
    "nat \<Rightarrow> byte list \<Rightarrow> int \<Rightarrow> uint64 \<Rightarrow> uint64 \<Rightarrow> uint64 \<Rightarrow> uint64 \<times> uint64 \<Rightarrow> uint64 \<times> uint64 \<Rightarrow>
     (uint64 \<times> uint64 \<times> uint64 \<times> (uint64 \<times> uint64) \<times> uint64 \<times> uint64) option" where
  "city64_loop 0 s p x y z v w = Some (x, y, z, v, w)"
| "city64_loop (Suc n) s p x y z v w = do {
     f8 \<leftarrow> Fetch64 s (p + 8);
     let x = Rotate (x + y + fst v + f8) 37 * k1;
     f48 \<leftarrow> Fetch64 s (p + 48);
     let y = Rotate (y + snd v + f48) 42 * k1;
     let x = x XOR snd w;
     f40 \<leftarrow> Fetch64 s (p + 40);
     let y = y + (fst v + f40);
     let z = Rotate (z + fst w) 33 * k1;
     v \<leftarrow> WeakHashLen32WithSeeds s p (snd v * k1) (x + fst w);
     f16 \<leftarrow> Fetch64 s (p + 16);
     w \<leftarrow> WeakHashLen32WithSeeds s (p + 32) (z + snd w) (y + f16);
     city64_loop n s (p + 64) z y x v w
   }"

definition CityHash64 :: "byte list \<Rightarrow> uint64 option" where
  "CityHash64 s =
     (let len = length s in
      if len \<le> 32 then if len \<le> 16 then HashLen0to16 s else HashLen17to32 s
      else if len \<le> 64 then HashLen33to64 s
      else do {
        x \<leftarrow> Fetch64 s (int len - 40);
        y1 \<leftarrow> Fetch64 s (int len - 16);
        y2 \<leftarrow> Fetch64 s (int len - 56);
        let y = y1 + y2;
        z1 \<leftarrow> Fetch64 s (int len - 48);
        z2 \<leftarrow> Fetch64 s (int len - 24);
        let z = HashLen16 (z1 + of_nat len) z2;
        v \<leftarrow> WeakHashLen32WithSeeds s (int len - 64) (of_nat len) z;
        w \<leftarrow> WeakHashLen32WithSeeds s (int len - 32) (y + k1) x;
        f \<leftarrow> Fetch64 s 0;
        let x = x * k1 + f;
        (x, y, z, v, w) \<leftarrow> city64_loop ((len - 1) div 64) s 0 x y z v w;
        Some (HashLen16 (HashLen16 (fst v) (fst w) + ShiftMix y * k1 + z)
                        (HashLen16 (snd v) (snd w) + x))
      })"

definition CityHash64WithSeeds :: "byte list \<Rightarrow> uint64 \<Rightarrow> uint64 \<Rightarrow> uint64 option" where
  "CityHash64WithSeeds s seed0 seed1 =
     do { h \<leftarrow> CityHash64 s; Some (HashLen16 (h - seed0) seed1) }"

definition CityHash64WithSeed :: "byte list \<Rightarrow> uint64 \<Rightarrow> uint64 option" where
  "CityHash64WithSeed s seed = CityHash64WithSeeds s k2 seed"

definition CityHash64Mix :: "uint64 \<Rightarrow> uint64 \<Rightarrow> uint64" where
  "CityHash64Mix fp1 fp2 = HashLen16 fp1 fp2"

section \<open>No load leaves the string\<close>

definition defined :: "'a option \<Rightarrow> bool" where
  "defined r \<longleftrightarrow> r \<noteq> None"

named_theorems in_bounds \<open>a computation whose loads stay inside the string has a result\<close>

lemma defined_bind [in_bounds]: "defined m \<Longrightarrow> (\<And>v. defined (f v)) \<Longrightarrow> defined (m \<bind> f)"
  by (cases m) (simp_all add: defined_def)

lemma defined_let [in_bounds]: "(\<And>x. defined (f x)) \<Longrightarrow> defined (let x = e in f x)"
  by (simp add: Let_def)

lemma defined_prod [in_bounds]: "(\<And>x y. defined (f x y)) \<Longrightarrow> defined (case p of (x, y) \<Rightarrow> f x y)"
  by (cases p) simp

lemma defined_if [in_bounds]:
  "(b \<Longrightarrow> defined m) \<Longrightarrow> (\<not> b \<Longrightarrow> defined n) \<Longrightarrow> defined (if b then m else n)"
  by simp

lemma defined_Some [in_bounds]: "defined (Some v)"
  by (simp add: defined_def)

lemma defined_Fetch [in_bounds]:
  "0 \<le> off \<Longrightarrow> off + 8 \<le> int (length s) \<Longrightarrow> defined (Fetch64 s off)"
  "0 \<le> off \<Longrightarrow> off + 4 \<le> int (length s) \<Longrightarrow> defined (Fetch32 s off)"
  by (auto simp: Fetch64_def Fetch32_def load_bytes_def defined_def)

lemma defined_Weak [in_bounds]:
  "0 \<le> p \<Longrightarrow> p + 32 \<le> int (length s) \<Longrightarrow> defined (WeakHashLen32WithSeeds s p a b)"
  unfolding WeakHashLen32WithSeeds_def by (intro in_bounds) simp_all

lemma defined_loop64 [in_bounds]:
  "0 \<le> p \<Longrightarrow> p + 64 * int n \<le> int (length s) \<Longrightarrow> defined (city64_loop n s p x y z v w)"
proof (induction n arbitrary: p x y z v w)
  case (Suc n)
  then show ?case
    unfolding city64_loop.simps by (intro in_bounds Suc.IH) simp_all
qed (simp add: defined_def)

lemma defined_loop32 [in_bounds]:
  "0 \<le> p \<Longrightarrow> p + 20 * int n \<le> int (length s) \<Longrightarrow> defined (city32_loop n s p f g h)"
proof (induction n arbitrary: p f g h)
  case (Suc n)
  then show ?case
    unfolding city32_loop.simps by (intro in_bounds Suc.IH) simp_all
qed (simp add: defined_def)

lemma CityHash64_defined: "defined (CityHash64 s)"
proof -
  have "length s \<le> 16 \<Longrightarrow> defined (HashLen0to16 s)"
    unfolding HashLen0to16_def Let_def [of "length s"] by (intro in_bounds) simp_all
  moreover have "16 < length s \<Longrightarrow> defined (HashLen17to32 s)"
    unfolding HashLen17to32_def Let_def [of "length s"] by (intro in_bounds) simp_all
  moreover have "32 < length s \<Longrightarrow> defined (HashLen33to64 s)"
    unfolding HashLen33to64_def Let_def [of "length s"] by (intro in_bounds) simp_all
  moreover have "64 * ((length s - 1) div 64) \<le> length s" by simp
  ultimately show ?thesis
    unfolding CityHash64_def Let_def [of "length s"] by (intro in_bounds) simp_all
qed

lemma CityHash32_defined: "defined (CityHash32 s)"
proof -
  have mid: "length s div 2 mod 8 div 4 * 4 + 4 \<le> length s" if "4 < length s"
  proof (cases "8 \<le> length s")
    case True
    have "length s div 2 mod 8 < 8" by simp
    then have "length s div 2 mod 8 div 4 \<le> 1" by (simp add: div_less_iff_less_mult less_Suc_eq_le [symmetric])
    with True show ?thesis by linarith
  qed (use that in simp)
  have "4 < length s \<Longrightarrow> defined (Hash32Len5to12 s)"
    unfolding Hash32Len5to12_def Let_def [of "length s"] using mid by (intro in_bounds; linarith)
  moreover have "12 < length s \<Longrightarrow> defined (Hash32Len13to24 s)"
    unfolding Hash32Len13to24_def Let_def [of "length s"] by (intro in_bounds) simp_all
  moreover have "defined (Hash32Len0to4 s)"
    unfolding Hash32Len0to4_def by (intro in_bounds)
  moreover have "20 * ((length s - 1) div 20) \<le> length s" by simp
  ultimately show ?thesis
    unfolding CityHash32_def Let_def [of "length s"] by (intro in_bounds) simp_all
qed

section \<open>Properties\<close>

text \<open>
  Hashing reads nothing but the string. For every string, of whatever length, all the
  unaligned four and eight byte loads of the 64-bit and the 32-bit hash lie inside it, so both
  hashes are defined.
\<close>

theorem city_hash_in_bounds: "\<exists>h k. CityHash64 s = Some h \<and> CityHash32 s = Some k"
  using CityHash64_defined [of s] CityHash32_defined [of s] by (simp add: defined_def)

end
