(* ===== verification/Frame_Objects.thy ===== *)
theory Frame_Objects
  imports Handles
begin

text \<open>
  The heap objects of \<^verbatim>\<open>sling/frame/store.h\<close>: \<^verbatim>\<open>Datum\<close> with its kinds \<^verbatim>\<open>StringDatum\<close>,
  \<^verbatim>\<open>SymbolDatum\<close>, \<^verbatim>\<open>ArrayDatum\<close>, \<^verbatim>\<open>MapDatum\<close>, \<^verbatim>\<open>FrameDatum\<close> and \<^verbatim>\<open>ProxyDatum\<close>. An object is
  its preamble (mark bit and self handle) and a body; the type bits of the preamble are the
  constructor of the body and, for frames, the two flags. The body \<open>Remainder\<close> is what
  \<^verbatim>\<open>Store::Delete\<close> leaves behind a shortened frame: the words that follow its preamble, with
  the type bits that happened to be in the deleted slot.
\<close>

section \<open>Objects\<close>

type_synonym slot = "Handle \<times> Handle"

datatype body =
    StringBody "byte list"
  | QStringBody "byte list" Handle
  | SymbolBody (sym_next: Handle) (sym_value: Handle) (sym_hash: Handle) (sym_name: "byte list")
  | ArrayBody "Handle list"
  | FrameBody bool bool "slot list"
  | Remainder uint32 "Handle list"

record Datum =
  d_self :: Handle
  d_marked :: bool
  d_body :: body

datatype otype = STRING | QSTRING | SYMBOL | ARRAY | FRAME

text \<open>The type encoded in the top three bits of the \<^verbatim>\<open>info\<close> word.\<close>

definition word_type :: "uint32 \<Rightarrow> otype" where
  "word_type info =
     (let t = unat (drop_bit 29 info)
      in if t = 0 then STRING else if t = 1 then QSTRING else if t = 2 then SYMBOL
         else if t = 3 then ARRAY else FRAME)"

fun body_type :: "body \<Rightarrow> otype" where
  "body_type (StringBody _) = STRING"
| "body_type (QStringBody _ _) = QSTRING"
| "body_type (SymbolBody _ _ _ _) = SYMBOL"
| "body_type (ArrayBody _) = ARRAY"
| "body_type (FrameBody _ _ _) = FRAME"
| "body_type (Remainder info _) = word_type info"

definition sizeof_Handle :: nat where "sizeof_Handle = 4"
definition sizeof_Slot :: nat where "sizeof_Slot = 8"
definition sizeof_Datum :: nat where "sizeof_Datum = 8"

text \<open>The payload size in bytes and the space the object takes.\<close>

fun body_size :: "body \<Rightarrow> nat" where
  "body_size (StringBody s) = length s"
| "body_size (QStringBody s q) = length s + sizeof_Handle"
| "body_size (SymbolBody _ _ _ name) = 3 * sizeof_Handle + length name"
| "body_size (ArrayBody es) = length es * sizeof_Handle"
| "body_size (FrameBody _ _ slots) = length slots * sizeof_Slot"
| "body_size (Remainder _ ws) = length ws * sizeof_Handle"

definition kObjectAlign :: nat where "kObjectAlign = 8"

definition Align :: "nat \<Rightarrow> nat" where
  "Align n = (n + kObjectAlign - 1) div kObjectAlign * kObjectAlign"

definition object_bytes :: "body \<Rightarrow> nat" where
  "object_bytes b = Align (sizeof_Datum + body_size b)"

definition IsString :: "body \<Rightarrow> bool" where
  "IsString b \<longleftrightarrow> body_type b = STRING \<or> body_type b = QSTRING"

definition IsSymbol :: "body \<Rightarrow> bool" where
  "IsSymbol b \<longleftrightarrow> body_type b = SYMBOL"

definition IsArray :: "body \<Rightarrow> bool" where
  "IsArray b \<longleftrightarrow> body_type b = ARRAY"

definition IsFrame :: "body \<Rightarrow> bool" where
  "IsFrame b \<longleftrightarrow> body_type b = FRAME"

fun IsProxy :: "body \<Rightarrow> bool" where
  "IsProxy (FrameBody proxy _ _) = proxy"
| "IsProxy (Remainder info _) = (word_type info = FRAME \<and> bit info 29)"
| "IsProxy _ = False"

definition invalid :: "Datum \<Rightarrow> bool" where
  "invalid d \<longleftrightarrow> IsNil (d_self d)"

definition invalidate :: "Datum \<Rightarrow> Datum" where
  "invalidate d = d\<lparr>d_self := Handle_nil\<rparr>"

section \<open>Frames\<close>

fun frame_get :: "slot list \<Rightarrow> Handle \<Rightarrow> Handle" where
  "frame_get [] name = Handle_nil"
| "frame_get ((n, v) # slots) name = (if n = name then v else frame_get slots name)"

fun frame_has :: "slot list \<Rightarrow> Handle \<Rightarrow> bool" where
  "frame_has [] name = False"
| "frame_has ((n, v) # slots) name = (if n = name then True else frame_has slots name)"

fun frame_has_value :: "slot list \<Rightarrow> Handle \<Rightarrow> Handle \<Rightarrow> bool" where
  "frame_has_value [] name val = False"
| "frame_has_value ((n, v) # slots) name val =
     (if n = name \<and> v = val then True else frame_has_value slots name val)"

definition frame_isa :: "slot list \<Rightarrow> Handle \<Rightarrow> bool" where
  "frame_isa slots t = frame_has_value slots Handle_isa t"

definition frame_is :: "slot list \<Rightarrow> Handle \<Rightarrow> bool" where
  "frame_is slots t = frame_has_value slots Handle_is t"

fun frame_count :: "slot list \<Rightarrow> Handle \<Rightarrow> nat" where
  "frame_count [] name = 0"
| "frame_count ((n, v) # slots) name = (if n = name then 1 else 0) + frame_count slots name"

text \<open>The update loop of \<^verbatim>\<open>Store::Set\<close>: the first slot with the name.\<close>

fun update_slot :: "slot list \<Rightarrow> Handle \<Rightarrow> Handle \<Rightarrow> slot list option" where
  "update_slot [] name val = None"
| "update_slot ((n, v) # slots) name val =
     (if n = name then Some ((n, val) # slots)
      else map_option ((#) (n, v)) (update_slot slots name val))"

text \<open>
  The compacting loop of \<^verbatim>\<open>Store::Delete\<close>: \<open>slot\<close> is the number of slots inspected and
  \<open>current\<close> the position the next kept slot is moved to.
\<close>

function delete_loop :: "slot list \<Rightarrow> Handle \<Rightarrow> nat \<Rightarrow> nat \<Rightarrow> slot list \<times> nat" where
  "delete_loop slots name slot current =
     (if slot < length slots
      then if fst (slots ! slot) = name
           then delete_loop slots name (slot + 1) current
           else delete_loop (slots[current := slots ! slot]) name (slot + 1) (current + 1)
      else (slots, current))"
  by pat_completeness auto
termination by (relation "measure (\<lambda>(slots, name, slot, current). length slots - slot)") auto

declare delete_loop.simps [simp del]

section \<open>Maps\<close>

text \<open>The bucket of a hash value: the byte offset is masked with the map size minus one.\<close>

definition bucket :: "nat \<Rightarrow> Handle \<Rightarrow> nat" where
  "bucket n hash = unat (untagged hash AND (of_nat (n * sizeof_Handle) - 1)) div sizeof_Handle"

section \<open>Laws of slot lists\<close>

lemma frame_has_iff: "frame_has slots name \<longleftrightarrow> name \<in> fst ` set slots"
  by (induction slots name rule: frame_has.induct) auto

lemma frame_has_value_iff: "frame_has_value slots name val \<longleftrightarrow> (name, val) \<in> set slots"
  by (induction slots name val rule: frame_has_value.induct) auto

lemma frame_count_filter: "frame_count slots name = length (filter (\<lambda>s. fst s = name) slots)"
  by (induction slots name rule: frame_count.induct) auto

lemma frame_get_map_of:
  "frame_get slots name = (case map_of slots name of Some v \<Rightarrow> v | None \<Rightarrow> Handle_nil)"
  by (induction slots name rule: frame_get.induct) auto

lemma frame_get_nil: "\<not> frame_has slots name \<Longrightarrow> frame_get slots name = Handle_nil"
  by (induction slots name rule: frame_get.induct) (auto split: if_splits)

lemma update_slot_None: "update_slot slots name val = None \<longleftrightarrow> \<not> frame_has slots name"
  by (induction slots name val rule: update_slot.induct) auto

lemma update_slot_get:
  assumes "update_slot slots name val = Some slots'"
  shows "frame_get slots' n = (if n = name then val else frame_get slots n)"
  using assms by (induction slots name val arbitrary: slots' rule: update_slot.induct)
    (auto split: if_splits)

lemma update_slot_names:
  "update_slot slots name val = Some slots' \<Longrightarrow> map fst slots' = map fst slots"
  by (induction slots name val arbitrary: slots' rule: update_slot.induct) (auto split: if_splits)

lemma frame_get_append:
  "frame_get (slots @ [(name, val)]) n =
    (if frame_has slots n then frame_get slots n else if n = name then val else Handle_nil)"
  by (induction slots n rule: frame_get.induct) auto

lemma delete_loop_spec:
  assumes "current \<le> slot" "slot \<le> length slots"
  shows "\<exists>junk. delete_loop slots name slot current =
    (take current slots @ filter (\<lambda>s. fst s \<noteq> name) (drop slot slots) @ junk,
     current + length (filter (\<lambda>s. fst s \<noteq> name) (drop slot slots))) \<and>
    current + length (filter (\<lambda>s. fst s \<noteq> name) (drop slot slots)) + length junk = length slots"
  using assms
proof (induction slots name slot current rule: delete_loop.induct)
  case (1 slots name slot current)
  show ?case
  proof (cases "slot < length slots")
    case False
    then have "take current slots @ drop current slots = slots" "slot = length slots"
      using "1.prems" by simp_all
    then show ?thesis
      using False "1.prems" by (subst delete_loop.simps) (auto intro!: exI [of _ "drop current slots"])
  next
    case True
    then have d: "drop slot slots = slots ! slot # drop (slot + 1) slots"
      by (simp add: Cons_nth_drop_Suc)
    show ?thesis
    proof (cases "fst (slots ! slot) = name")
      case del: True
      have "delete_loop slots name slot current = delete_loop slots name (slot + 1) current"
        using True del by (subst delete_loop.simps) simp
      then show ?thesis
        using "1.IH"(1) [OF True del] True del "1.prems" by (simp add: d)
    next
      case keep: False
      let ?slots = "slots[current := slots ! slot]"
      have step: "delete_loop slots name slot current = delete_loop ?slots name (slot + 1) (current + 1)"
        using True keep by (subst delete_loop.simps) simp
      have "take (current + 1) ?slots = take current slots @ [slots ! slot]"
        using True "1.prems" by (simp add: take_Suc_conv_app_nth)
      moreover have "drop (slot + 1) ?slots = drop (slot + 1) slots"
        using "1.prems" by (simp add: drop_update_cancel)
      ultimately show ?thesis
        using "1.IH"(2) [OF True keep] True keep "1.prems" unfolding step by (simp add: d)
    qed
  qed
qed

lemma bucket_less: "0 < n \<Longrightarrow> n * sizeof_Handle < 2 ^ 32 \<Longrightarrow> bucket n hash < n"
proof -
  assume n: "0 < n" "n * sizeof_Handle < 2 ^ 32"
  let ?m = "of_nat (n * sizeof_Handle) :: uint32"
  have m: "unat ?m = n * sizeof_Handle" using n(2) by (simp only: unat_of_nat) simp
  have "unat (untagged hash AND (?m - 1)) \<le> unat (?m - 1)"
    by (simp add: word_and_le1 flip: word_le_nat_alt)
  also have "\<dots> = n * sizeof_Handle - 1"
    using n m by (subst unat_sub) (auto simp: word_le_nat_alt sizeof_Handle_def)
  finally show ?thesis
    using n(1) by (simp add: bucket_def sizeof_Handle_def)
qed

end
