(* ===== verification/Frame_Store.thy ===== *)
theory Frame_Store
  imports Frame_Objects IO_Buffer City_Hash
begin

text \<open>
  The frame store of \<^verbatim>\<open>sling/frame/store.h\<close> and \<^verbatim>\<open>sling/frame/store.cc\<close>: object heaps,
  handle table with free list, garbage collector, symbol table and the operations on
  strings, arrays and frames. The address of an object is its index in \<open>memory\<close>: an
  identity that does not change when the compaction moves the object, so the updates of
  the handle table that follow a move do not show. A heap is the list of the addresses of
  its objects with its capacity in bytes. A local store holds the pool of its frozen global
  store. An operation has no result where the process aborts: a failing \<^verbatim>\<open>CHECK\<close>, a
  \<^verbatim>\<open>LOG(FATAL)\<close> or the dereferencing of an invalid handle.
\<close>

section \<open>State\<close>

record Options =
  initial_heap_size :: nat
  maximum_heap_size :: nat
  initial_handles :: nat
  map_buckets :: nat
  string_buckets :: nat
  expansion_free_fraction :: nat
  symbol_rebinding :: bool

record Heap =
  h_objects :: "nat list"
  h_capacity :: nat
  h_frozen :: bool

text \<open>
  An element of the handle table refers to an object, links to the next element of the free
  list, is null after freezing, or is the trap that the nil handle points to.
\<close>

datatype Reference = Object nat | FreeRef "nat option" | NullRef | Trap

record Pool =
  memory :: "Datum list"
  heaps :: "Heap list"
  current_heap :: nat
  handles :: "Reference list"
  handles_capacity :: nat
  free_handle :: "nat option"
  roots :: "Handle list"
  externals :: "Handle list list"
  symbols :: Handle
  num_symbols :: nat
  num_buckets :: nat
  gc_locks :: nat
  gc_pending :: bool
  num_gcs :: nat
  num_dead_handles :: int
  frozen :: bool
  options :: Options

record Store = Pool +
  store_tag :: uint32
  globals :: "Pool option"

definition kObjectSizeLimit :: nat where "kObjectSizeLimit = 2 ^ 28"
definition kMapSizeLimit :: nat where "kMapSizeLimit = kObjectSizeLimit div 4"
definition sizeof_Reference :: nat where "sizeof_Reference = 8"

section \<open>References\<close>

definition Owned :: "Store \<Rightarrow> Handle \<Rightarrow> bool" where
  "Owned st h \<longleftrightarrow> tag h = store_tag st"

text \<open>The address behind an element of a handle table.\<close>

definition pool_address :: "'a Pool_scheme \<Rightarrow> Handle \<Rightarrow> nat option" where
  "pool_address p h =
     (if unat (idx h) < length (handles p)
      then case handles p ! unat (idx h) of
             Object a \<Rightarrow> if a < length (memory p) then Some a else None
           | _ \<Rightarrow> None
      else None)"

definition pool_deref :: "'a Pool_scheme \<Rightarrow> Handle \<Rightarrow> Datum option" where
  "pool_deref p h = map_option (\<lambda>a. memory p ! a) (pool_address p h)"

definition Deref :: "Store \<Rightarrow> Handle \<Rightarrow> Datum option" where
  "Deref st h =
     (if \<not> IsRef h \<or> IsNil h then None
      else if pool h = kGlobalTag
           then (case globals st of None \<Rightarrow> pool_deref st h | Some g \<Rightarrow> pool_deref g h)
           else (case globals st of None \<Rightarrow> None | Some _ \<Rightarrow> pool_deref st h))"

definition GetFrame :: "Store \<Rightarrow> Handle \<Rightarrow> (bool \<times> bool \<times> slot list) option" where
  "GetFrame st h =
     (case Deref st h of
        Some d \<Rightarrow> (case d_body d of FrameBody proxy public slots \<Rightarrow> Some (proxy, public, slots) | _ \<Rightarrow> None)
      | None \<Rightarrow> None)"

definition GetSymbol :: "Store \<Rightarrow> Handle \<Rightarrow> Datum option" where
  "GetSymbol st h =
     (case Deref st h of
        Some d \<Rightarrow> (case d_body d of SymbolBody _ _ _ _ \<Rightarrow> Some d | _ \<Rightarrow> None)
      | None \<Rightarrow> None)"

definition GetArray :: "Store \<Rightarrow> Handle \<Rightarrow> Handle list option" where
  "GetArray st h =
     (case Deref st h of
        Some d \<Rightarrow> (case d_body d of ArrayBody es \<Rightarrow> Some es | _ \<Rightarrow> None)
      | None \<Rightarrow> None)"

definition put_object :: "nat \<Rightarrow> Datum \<Rightarrow> 'a Pool_scheme \<Rightarrow> 'a Pool_scheme" where
  "put_object a d st = st\<lparr>memory := (memory st)[a := d]\<rparr>"

text \<open>Changing an object of the own pool through its handle.\<close>

definition modify :: "Handle \<Rightarrow> (Datum \<Rightarrow> Datum) \<Rightarrow> Store \<Rightarrow> Store option" where
  "modify h f st =
     (if Owned st h \<and> \<not> IsNil h
      then case pool_address st h of
             Some a \<Rightarrow> Some (put_object a (f (memory st ! a)) st)
           | None \<Rightarrow> None
      else None)"

definition set_body :: "body \<Rightarrow> Datum \<Rightarrow> Datum" where
  "set_body b d = d\<lparr>d_body := b\<rparr>"

definition set_value :: "Handle \<Rightarrow> Datum \<Rightarrow> Datum" where
  "set_value v d =
     (case d_body d of SymbolBody n _ h s \<Rightarrow> d\<lparr>d_body := SymbolBody n v h s\<rparr> | _ \<Rightarrow> d)"

definition set_next :: "Handle \<Rightarrow> Datum \<Rightarrow> Datum" where
  "set_next n d =
     (case d_body d of SymbolBody _ v h s \<Rightarrow> d\<lparr>d_body := SymbolBody n v h s\<rparr> | _ \<Rightarrow> d)"

section \<open>Garbage collection\<close>

text \<open>The handles the collector traverses in an object.\<close>

fun object_refs :: "body \<Rightarrow> Handle list" where
  "object_refs (StringBody _) = []"
| "object_refs (QStringBody _ q) = [q]"
| "object_refs (SymbolBody n v _ _) = [n, v]"
| "object_refs (ArrayBody es) = es"
| "object_refs (FrameBody _ _ slots) = concat (map (\<lambda>(n, v). [n, v]) slots)"
| "object_refs (Remainder info ws) =
     (case word_type info of
        STRING \<Rightarrow> []
      | QSTRING \<Rightarrow> drop (length ws - 1) ws
      | SYMBOL \<Rightarrow> take 2 ws
      | _ \<Rightarrow> ws)"

definition mark_object :: "nat \<Rightarrow> 'a Pool_scheme \<Rightarrow> 'a Pool_scheme" where
  "mark_object a st = put_object a ((memory st ! a)\<lparr>d_marked := True\<rparr>) st"

definition unmarked :: "'a Pool_scheme \<Rightarrow> nat" where
  "unmarked st = length (filter (\<lambda>d. \<not> d_marked d) (memory st))"

lemma unmarked_mark_object:
  assumes "a < length (memory st)" "\<not> d_marked (memory st ! a)"
  shows "unmarked (mark_object a st) < unmarked st"
  using length_filter_update [OF assms(1), of "\<lambda>d. \<not> d_marked d"] assms(2)
  by (simp add: unmarked_def mark_object_def put_object_def)

text \<open>The marking stack holds the ranges of handles that are still to be traversed.\<close>

function mark_loop :: "Store \<Rightarrow> Handle list list \<Rightarrow> Store option" where
  "mark_loop st [] = Some st"
| "mark_loop st ([] # stack) = mark_loop st stack"
| "mark_loop st ((h # rng) # stack) =
     (if \<not> IsNil h \<and> tag h = store_tag st
      then case pool_address st h of
             None \<Rightarrow> None
           | Some a \<Rightarrow>
               if \<not> d_marked (memory st ! a)
               then mark_loop (mark_object a st) (object_refs (d_body (memory st ! a)) # rng # stack)
               else mark_loop st (rng # stack)
      else mark_loop st (rng # stack))"
  by pat_completeness auto
termination
proof (relation "(\<lambda>(st, stack). unmarked st) <*mlex*> measure (\<lambda>(st, stack). \<Sum>r\<leftarrow>stack. length r + 1)",
    goal_cases)
  case (3 st h rng stack a)
  then have "a < length (memory st)"
    by (auto simp: pool_address_def split: if_splits Reference.splits)
  then show ?case using 3 by (simp add: mlex_iff unmarked_mark_object)
qed (auto simp: mlex_iff wf_mlex)

definition Mark :: "Store \<Rightarrow> Store option" where
  "Mark st = mark_loop st (rev (externals st) @ [roots st])"

text \<open>
  The objects of one heap: invalid objects vanish, marked ones survive unmarked, the
  handle of a dead one joins the free list.
\<close>

fun compact_objects :: "nat list \<Rightarrow> Store \<Rightarrow> nat list \<times> Store" where
  "compact_objects [] st = ([], st)"
| "compact_objects (a # rest) st =
     (let d = memory st ! a in
      if invalid d then compact_objects rest st
      else if d_marked d
           then (case compact_objects rest (put_object a (d\<lparr>d_marked := False\<rparr>) st) of
                   (kept, st) \<Rightarrow> (a # kept, st))
           else compact_objects rest
                  (st\<lparr>handles := (handles st)[unat (idx (d_self d)) := FreeRef (free_handle st)],
                      free_handle := Some (unat (idx (d_self d)))\<rparr>))"

fun compact_heaps :: "Heap list \<Rightarrow> Store \<Rightarrow> Heap list \<times> Store" where
  "compact_heaps [] st = ([], st)"
| "compact_heaps (hp # hps) st =
     (if h_frozen hp
      then (case compact_heaps hps st of (hps, st) \<Rightarrow> (hp # hps, st))
      else case compact_objects (h_objects hp) st of
             (kept, st) \<Rightarrow>
               (case compact_heaps hps st of (hps, st) \<Rightarrow> (hp\<lparr>h_objects := kept\<rparr> # hps, st)))"

definition Compact :: "Store \<Rightarrow> Store" where
  "Compact st =
     (case compact_heaps (heaps st) st of (hps, st) \<Rightarrow> st\<lparr>heaps := hps, current_heap := 0\<rparr>)"

definition GC :: "Store \<Rightarrow> Store option" where
  "GC st =
     (if frozen st then Some st
      else if gc_locks st > 0 then Some (st\<lparr>gc_pending := True\<rparr>)
      else do {
        st \<leftarrow> Mark st;
        let st = Compact st;
        Some (st\<lparr>gc_pending := False, num_gcs := num_gcs st + 1\<rparr>)
      })"

definition LockGC :: "Store \<Rightarrow> Store" where
  "LockGC st = st\<lparr>gc_locks := gc_locks st + 1\<rparr>"

definition UnlockGC :: "Store \<Rightarrow> Store option" where
  "UnlockGC st =
     (let st = st\<lparr>gc_locks := gc_locks st - 1\<rparr>
      in if gc_locks st = 0 \<and> gc_pending st then GC st else Some st)"

section \<open>Allocation\<close>

definition heap_used :: "'a Pool_scheme \<Rightarrow> Heap \<Rightarrow> nat" where
  "heap_used st hp = (\<Sum>a\<leftarrow>h_objects hp. object_bytes (d_body (memory st ! a)))"

definition heap_fits :: "'a Pool_scheme \<Rightarrow> nat \<Rightarrow> nat \<Rightarrow> bool" where
  "heap_fits st k bytes \<longleftrightarrow>
     k < length (heaps st) \<and> heap_used st (heaps st ! k) + bytes \<le> h_capacity (heaps st ! k)"

text \<open>The self handle of a fresh object is set by \<^verbatim>\<open>AllocateHandle\<close> or \<^verbatim>\<open>Replace\<close>.\<close>

definition new_object :: "nat \<Rightarrow> body \<Rightarrow> Store \<Rightarrow> nat \<times> Store" where
  "new_object k b st =
     (let a = length (memory st);
          hp = heaps st ! k
      in (a, st\<lparr>memory := memory st @ [\<lparr>d_self = Handle_nil, d_marked = False, d_body = b\<rparr>],
                heaps := (heaps st)[k := hp\<lparr>h_objects := h_objects hp @ [a]\<rparr>],
                current_heap := k\<rparr>))"

definition find_heap :: "'a Pool_scheme \<Rightarrow> nat \<Rightarrow> nat list \<Rightarrow> nat option" where
  "find_heap st bytes ks = find (\<lambda>k. heap_fits st k bytes) ks"

definition add_heap :: "nat \<Rightarrow> Store \<Rightarrow> Store" where
  "add_heap n st =
     st\<lparr>heaps := heaps st @ [\<lparr>h_objects = [], h_capacity = n, h_frozen = False\<rparr>]\<rparr>"

definition AllocateDatumSlow :: "body \<Rightarrow> Store \<Rightarrow> (nat \<times> Store) option" where
  "AllocateDatumSlow b st =
     (let bytes = object_bytes b in
      if frozen st \<or> \<not> bytes < kObjectSizeLimit then None
      else case find_heap st bytes [current_heap st + 1 ..< length (heaps st)] of
        Some k \<Rightarrow> Some (new_object k b st)
      | None \<Rightarrow> do {
          st \<leftarrow> GC st;
          let all = (\<Sum>hp\<leftarrow>heaps st. h_capacity hp);
          let free = (\<Sum>hp\<leftarrow>heaps st. h_capacity hp - heap_used st hp);
          case (if free * expansion_free_fraction (options st) > all
                then find_heap st bytes [0 ..< length (heaps st)] else None) of
            Some k \<Rightarrow> Some (new_object k b st)
          | None \<Rightarrow>
              (let n = h_capacity (last (heaps st)) * 2;
                   n = (if n > maximum_heap_size (options st) then maximum_heap_size (options st) else n);
                   n = grow_size n bytes;
                   st = add_heap n st;
                   k = length (heaps st) - 1
               in if heap_fits st k bytes then Some (new_object k b st) else None)
        })"

definition AllocateDatum :: "body \<Rightarrow> Store \<Rightarrow> (nat \<times> Store) option" where
  "AllocateDatum b st =
     (if heap_fits st (current_heap st) (object_bytes b)
      then Some (new_object (current_heap st) b st)
      else AllocateDatumSlow b st)"

definition bind_handle :: "nat \<Rightarrow> nat \<Rightarrow> Store \<Rightarrow> Handle \<times> Store" where
  "bind_handle i a st =
     (let h = Handle_Ref (of_nat i) (store_tag st)
      in (h, put_object a ((memory st ! a)\<lparr>d_self := h\<rparr>) (st\<lparr>handles := (handles st)[i := Object a]\<rparr>)))"

definition AllocateHandleSlow :: "nat \<Rightarrow> Store \<Rightarrow> (Handle \<times> Store) option" where
  "AllocateHandleSlow a st =
     (let used = length (handles st) * sizeof_Reference;
          limit = kMaxHandles * sizeof_Reference
      in if frozen st \<or> used \<ge> limit then None
         else let newsize = used * 2;
                  newsize = (if newsize > limit then limit else newsize);
                  st = st\<lparr>handles_capacity := newsize\<rparr>
              in if used + sizeof_Reference \<le> newsize
                 then Some (bind_handle (length (handles st)) a (st\<lparr>handles := handles st @ [NullRef]\<rparr>))
                 else None)"

definition AllocateHandle :: "nat \<Rightarrow> Store \<Rightarrow> (Handle \<times> Store) option" where
  "AllocateHandle a st =
     (case free_handle st of
        Some i \<Rightarrow>
          if i < length (handles st)
          then case handles st ! i of
                 FreeRef n \<Rightarrow> Some (bind_handle i a (st\<lparr>free_handle := n\<rparr>))
               | _ \<Rightarrow> None
          else None
      | None \<Rightarrow>
          if length (handles st) * sizeof_Reference + sizeof_Reference \<le> handles_capacity st
          then Some (bind_handle (length (handles st)) a (st\<lparr>handles := handles st @ [NullRef]\<rparr>))
          else AllocateHandleSlow a st)"

definition Allocate :: "body \<Rightarrow> Store \<Rightarrow> (Handle \<times> Store) option" where
  "Allocate b st = do { (a, st) \<leftarrow> AllocateDatum b st; AllocateHandle a st }"

text \<open>\<^verbatim>\<open>Replace\<close> makes the handle of an object refer to another one.\<close>

definition Replace :: "Handle \<Rightarrow> nat \<Rightarrow> Store \<Rightarrow> Store option" where
  "Replace h a st =
     (if Owned st h \<and> \<not> IsNil h
      then case pool_address st h of
             Some old \<Rightarrow>
               (let st = put_object old (invalidate (memory st ! old)) st;
                    st = st\<lparr>handles := (handles st)[unat (idx h) := Object a]\<rparr>
                in Some (put_object a ((memory st ! a)\<lparr>d_self := h\<rparr>) st))
           | None \<Rightarrow> None
      else None)"

definition AllocateString :: "byte list \<Rightarrow> Store \<Rightarrow> (Handle \<times> Store) option" where
  "AllocateString str st = Allocate (StringBody str) st"

definition AllocateQString :: "byte list \<Rightarrow> Handle \<Rightarrow> Store \<Rightarrow> (Handle \<times> Store) option" where
  "AllocateQString str qual st = Allocate (QStringBody str qual) st"

definition AllocateArray :: "nat \<Rightarrow> Store \<Rightarrow> (Handle \<times> Store) option" where
  "AllocateArray n st = Allocate (ArrayBody (replicate n Handle_nil)) st"

definition AllocateArrayOf :: "Handle list \<Rightarrow> Store \<Rightarrow> (Handle \<times> Store) option" where
  "AllocateArrayOf es st = Allocate (ArrayBody es) st"

definition AllocateEmptyFrame :: "nat \<Rightarrow> Store \<Rightarrow> (Handle \<times> Store) option" where
  "AllocateEmptyFrame n st =
     Allocate (FrameBody False False (replicate n (Handle_nil, Handle_nil))) st"

text \<open>
  \<^verbatim>\<open>ResizeArray\<close> copies the whole old array into the new one: it has no result when the new
  array is smaller, where the copy writes past its end.
\<close>

definition ResizeArray :: "Handle \<Rightarrow> nat \<Rightarrow> Store \<Rightarrow> Store option" where
  "ResizeArray array n st = do {
     (a, st) \<leftarrow> AllocateDatum (ArrayBody (replicate n Handle_nil)) st;
     es \<leftarrow> GetArray st array;
     if length es \<le> n
     then Replace array a
            (put_object a (set_body (ArrayBody (es @ replicate (n - length es) Handle_nil)) (memory st ! a)) st)
     else None
   }"

section \<open>Operations on frames\<close>

definition Store_Get :: "Store \<Rightarrow> Handle \<Rightarrow> Handle \<Rightarrow> Handle option" where
  "Store_Get st frame name =
     (case GetFrame st frame of
        Some (_, _, slots) \<Rightarrow> Some (frame_get slots name)
      | None \<Rightarrow> (case Deref st frame of Some _ \<Rightarrow> Some Handle_error | None \<Rightarrow> None))"

text \<open>A replacement keeps the public flag only: \<^verbatim>\<open>AddFlags\<close> masks the flags with \<^verbatim>\<open>PUBLIC\<close>.\<close>

text \<open>
  \<^verbatim>\<open>Set\<close>, \<^verbatim>\<open>Add\<close>, \<^verbatim>\<open>Clone\<close> and \<^verbatim>\<open>Extend\<close> allocate a frame for the slots and some more, fetch
  the frame again, since the allocation may have collected, and copy its slots.
\<close>

definition copy_frame :: "Handle \<Rightarrow> bool \<Rightarrow> slot list \<Rightarrow> Store \<Rightarrow> (nat \<times> Store) option" where
  "copy_frame frame flags extra st = do {
     (_, _, slots) \<leftarrow> GetFrame st frame;
     (a, st) \<leftarrow> AllocateDatum
       (FrameBody False False (replicate (length slots + length extra) (Handle_nil, Handle_nil))) st;
     (_, public, slots) \<leftarrow> GetFrame st frame;
     Some (a, put_object a (set_body (FrameBody False (flags \<and> public) (slots @ extra)) (memory st ! a)) st)
   }"

definition Store_Add :: "Handle \<Rightarrow> Handle \<Rightarrow> Handle \<Rightarrow> Store \<Rightarrow> Store option" where
  "Store_Add frame name val st =
     (if Owned st frame \<and> name \<noteq> Handle_id
      then do { (a, st) \<leftarrow> copy_frame frame True [(name, val)] st; Replace frame a st }
      else None)"

definition Store_Set :: "Handle \<Rightarrow> Handle \<Rightarrow> Handle \<Rightarrow> Store \<Rightarrow> Store option" where
  "Store_Set frame name val st =
     (if Owned st frame \<and> name \<noteq> Handle_id
      then do {
        (proxy, public, slots) \<leftarrow> GetFrame st frame;
        case update_slot slots name val of
          Some slots \<Rightarrow> modify frame (set_body (FrameBody proxy public slots)) st
        | None \<Rightarrow> do { (a, st) \<leftarrow> copy_frame frame True [(name, val)] st; Replace frame a st }
      }
      else None)"

definition Store_Clone :: "Handle \<Rightarrow> Store \<Rightarrow> (Handle \<times> Store) option" where
  "Store_Clone frame st = do {
     (_, public, slots) \<leftarrow> GetFrame st frame;
     if public then None
     else do { (a, st) \<leftarrow> copy_frame frame False [] st; AllocateHandle a st }
   }"

definition Store_Extend :: "Handle \<Rightarrow> Handle \<Rightarrow> Handle \<Rightarrow> Store \<Rightarrow> (Handle \<times> Store) option" where
  "Store_Extend frame name val st = do {
     (_, public, slots) \<leftarrow> GetFrame st frame;
     if public \<or> name = Handle_id then None
     else do { (a, st) \<leftarrow> copy_frame frame False [(name, val)] st; AllocateHandle a st }
   }"

text \<open>The heap position after an object, for the object that a shortened frame leaves behind.\<close>

fun insert_after :: "nat \<Rightarrow> nat \<Rightarrow> nat list \<Rightarrow> nat list" where
  "insert_after a b [] = []"
| "insert_after a b (x # xs) = (if x = a then x # b # xs else x # insert_after a b xs)"

text \<open>
  The frame at \<open>a\<close> keeps the first \<open>current\<close> of the moved slots; the slot after them becomes the
  preamble of an invalid object, whose type and mark bits are those of the slot name there.
\<close>

definition shrink_frame :: "nat \<Rightarrow> bool \<Rightarrow> bool \<Rightarrow> slot list \<Rightarrow> nat \<Rightarrow> 'a Pool_scheme \<Rightarrow> 'a Pool_scheme" where
  "shrink_frame a proxy public moved current p =
     (let b = length (memory p);
          rest = concat (map (\<lambda>(n, v). [n, v]) (drop (current + 1) moved));
          remainder = \<lparr>d_self = Handle_nil, d_marked = bit (bits (fst (moved ! current))) 28,
                       d_body = Remainder (bits (fst (moved ! current))) rest\<rparr>;
          p = put_object a (set_body (FrameBody proxy public (take current moved)) (memory p ! a)) p
      in p\<lparr>memory := memory p @ [remainder],
            heaps := map (\<lambda>hp. hp\<lparr>h_objects := insert_after a b (h_objects hp)\<rparr>) (heaps p)\<rparr>)"

text \<open>
  \<^verbatim>\<open>Delete\<close> does not check that the frame is owned: with the handle of a global frame it
  changes the global store of a local one.
\<close>

definition Store_Delete :: "Handle \<Rightarrow> Handle \<Rightarrow> Store \<Rightarrow> Store option" where
  "Store_Delete frame name st =
     (if name = Handle_id then None
      else do {
        (proxy, public, slots) \<leftarrow> GetFrame st frame;
        let first = length (takeWhile (\<lambda>s. fst s \<noteq> name) slots);
        if first = length slots then Some st
        else do {
          let (moved, current) = delete_loop slots name first first;
          if Owned st frame
          then do {
            a \<leftarrow> pool_address st frame;
            Some (shrink_frame a proxy public moved current st)
          }
          else do {
            g \<leftarrow> globals st;
            a \<leftarrow> pool_address g frame;
            Some (st\<lparr>globals := Some (shrink_frame a proxy public moved current g)\<rparr>)
          }
        }
      })"

section \<open>Invariant of the handle table\<close>

fun free_chain :: "Reference list \<Rightarrow> nat option \<Rightarrow> nat list \<Rightarrow> bool" where
  "free_chain hs None [] = True"
| "free_chain hs (Some i) (j # js) =
     (i = j \<and> i < length hs \<and> i \<notin> set js \<and>
      (case hs ! i of FreeRef n \<Rightarrow> free_chain hs n js | _ \<Rightarrow> False))"
| "free_chain hs _ _ = False"

definition ref_ok :: "Store \<Rightarrow> nat \<Rightarrow> bool" where
  "ref_ok st i \<longleftrightarrow>
     (case handles st ! i of
        Object a \<Rightarrow> a < length (memory st) \<and> d_self (memory st ! a) = Handle_Ref (of_nat i) (store_tag st)
      | _ \<Rightarrow> True)"

definition handle_inv :: "Store \<Rightarrow> bool" where
  "handle_inv st \<longleftrightarrow>
     store_tag st = (if globals st = None then kGlobalTag else kLocalTag) \<and>
     length (handles st) \<le> kMaxHandles \<and>
     (\<forall>i < length (handles st). ref_ok st i) \<and>
     (store_tag st = kGlobalTag \<longrightarrow> handles st \<noteq> [] \<and> handles st ! 0 = Trap) \<and>
     (\<exists>fl. free_chain (handles st) (free_handle st) fl)"

text \<open>A store in which collections are locked and that can grow.\<close>

definition growable :: "Store \<Rightarrow> bool" where
  "growable st \<longleftrightarrow>
     gc_locks st > 0 \<and> \<not> frozen st \<and> heaps st \<noteq> [] \<and> (\<forall>hp \<in> set (heaps st). 0 < h_capacity hp) \<and>
     0 < maximum_heap_size (options st)"

text \<open>The handle table has room: a free handle, or space below the maximum.\<close>

definition has_room :: "Store \<Rightarrow> bool" where
  "has_room st \<longleftrightarrow> free_handle st \<noteq> None \<or> (handles st \<noteq> [] \<and> length (handles st) < kMaxHandles)"

lemma object_bytes_pos: "0 < object_bytes b"
  by (simp add: object_bytes_def Align_def kObjectAlign_def sizeof_Datum_def)

lemma GC_locked: "gc_locks st > 0 \<Longrightarrow> \<not> frozen st \<Longrightarrow> GC st = Some (st\<lparr>gc_pending := True\<rparr>)"
  by (simp add: GC_def)

definition fresh_datum :: "body \<Rightarrow> Datum" where
  "fresh_datum b = \<lparr>d_self = Handle_nil, d_marked = False, d_body = b\<rparr>"

lemma new_object_spec:
  assumes "growable st" "k < length (heaps st)"
  shows "\<exists>hps. new_object k b st =
      (length (memory st), st\<lparr>memory := memory st @ [fresh_datum b], heaps := hps, current_heap := k\<rparr>) \<and>
    hps \<noteq> [] \<and> (\<forall>hp \<in> set hps. 0 < h_capacity hp)"
proof -
  let ?hps = "(heaps st)[k := (heaps st ! k)\<lparr>h_objects := h_objects (heaps st ! k) @ [length (memory st)]\<rparr>]"
  have "\<forall>hp \<in> set (heaps st). 0 < h_capacity hp" using assms(1) by (simp add: growable_def)
  then have "\<forall>hp \<in> set ?hps. 0 < h_capacity hp"
    using assms(2) by (auto simp: in_set_conv_nth nth_list_update Ball_def)
  moreover have "?hps \<noteq> []" using assms by (auto simp: growable_def)
  ultimately show ?thesis
    by (intro exI [of _ ?hps]) (simp add: new_object_def fresh_datum_def Let_def)
qed

definition allocated :: "body \<Rightarrow> Store \<Rightarrow> (nat \<times> Store) option \<Rightarrow> bool" where
  "allocated b st r \<longleftrightarrow>
     (\<exists>hps k p. r = Some (length (memory st), st\<lparr>memory := memory st @ [fresh_datum b], heaps := hps,
        current_heap := k, gc_pending := p\<rparr>) \<and>
      hps \<noteq> [] \<and> (\<forall>hp \<in> set hps. 0 < h_capacity hp))"

lemma new_object_allocated:
  assumes "growable st" "heap_fits st k n"
  shows "allocated b st (Some (new_object k b st))"
proof -
  obtain hps where "new_object k b st =
      (length (memory st), st\<lparr>memory := memory st @ [fresh_datum b], heaps := hps, current_heap := k\<rparr>)"
    "hps \<noteq> []" "\<forall>hp \<in> set hps. 0 < h_capacity hp"
    using new_object_spec [OF assms(1)] assms(2) unfolding heap_fits_def by blast
  then show ?thesis
    unfolding allocated_def by (intro exI [of _ hps] exI [of _ k] exI [of _ "gc_pending st"]) simp
qed

lemma AllocateDatum_spec:
  assumes "growable st" "object_bytes b < kObjectSizeLimit"
  shows "allocated b st (AllocateDatum b st)"
proof -
  consider (here) "heap_fits st (current_heap st) (object_bytes b)"
    | (there) k where "\<not> heap_fits st (current_heap st) (object_bytes b)"
        "find_heap st (object_bytes b) [current_heap st + 1 ..< length (heaps st)] = Some k"
    | (gc) "\<not> heap_fits st (current_heap st) (object_bytes b)"
        "find_heap st (object_bytes b) [current_heap st + 1 ..< length (heaps st)] = None"
    by fastforce
  then show ?thesis
  proof cases
    case here
    then show ?thesis
      using new_object_allocated [OF assms(1) here] by (simp add: AllocateDatum_def)
  next
    case there
    then have "heap_fits st k (object_bytes b)" by (auto simp: find_heap_def find_Some_iff)
    from new_object_allocated [OF assms(1) this] show ?thesis
      using there assms by (simp add: AllocateDatum_def AllocateDatumSlow_def growable_def)
  next
    case gc
    let ?st = "st\<lparr>gc_pending := True\<rparr>"
    let ?n = "object_bytes b"
    let ?m = "min (h_capacity (last (heaps st)) * 2) (maximum_heap_size (options st))"
    let ?big = "add_heap (grow_size ?m ?n) ?st"
    have grow: "growable ?st" using assms(1) by (simp add: growable_def)
    have "0 < ?m" using assms(1) by (auto simp: growable_def)
    then have m: "?n \<le> grow_size ?m ?n" by (rule grow_size_bound)
    then have "0 < grow_size ?m ?n" using object_bytes_pos [of b] by linarith
    then have big: "growable ?big" "heap_fits ?big (length (heaps ?big) - 1) ?n"
      using grow m by (auto simp: growable_def add_heap_def heap_fits_def heap_used_def)
    define r where "r = (if (\<Sum>hp\<leftarrow>heaps ?st. h_capacity hp) <
        (\<Sum>hp\<leftarrow>heaps ?st. h_capacity hp - heap_used ?st hp) * expansion_free_fraction (options ?st)
      then find_heap ?st ?n [0 ..< length (heaps ?st)] else None)"
    have eq: "AllocateDatum b st = (case r of Some k \<Rightarrow> Some (new_object k b ?st)
        | None \<Rightarrow> Some (new_object (length (heaps ?big) - 1) b ?big))"
    proof -
      have "GC st = Some ?st" using assms(1) by (intro GC_locked) (simp_all add: growable_def)
      moreover have "(if h_capacity (last (heaps ?st)) * 2 > maximum_heap_size (options ?st)
          then maximum_heap_size (options ?st) else h_capacity (last (heaps ?st)) * 2) = ?m"
        by (simp add: min_def)
      ultimately show ?thesis
        using gc assms big(2) unfolding AllocateDatum_def AllocateDatumSlow_def r_def Let_def
        by (simp only: growable_def simp_thms if_False if_True not_le not_less option.case bind.bind_lunit)
    qed
    show ?thesis
    proof (cases r)
      case None
      from new_object_allocated [OF big, of b] show ?thesis
        unfolding eq None by (auto simp: add_heap_def allocated_def)
    next
      case (Some k)
      then have "heap_fits ?st k ?n" by (auto simp: r_def find_heap_def find_Some_iff split: if_splits)
      from new_object_allocated [OF grow this, of b] show ?thesis
        unfolding eq Some by (auto simp: allocated_def)
    qed
  qed
qed


lemma free_chain_update: "free_chain hs o1 fl \<Longrightarrow> j \<notin> set fl \<Longrightarrow> free_chain (hs[j := x]) o1 fl"
  by (induction hs o1 fl rule: free_chain.induct) (auto split: Reference.splits)

lemma free_chain_append: "free_chain hs o1 fl \<Longrightarrow> free_chain (hs @ [x]) o1 fl"
  by (induction hs o1 fl rule: free_chain.induct) (auto simp: nth_append split: Reference.splits)

lemma free_chain_head:
  assumes "free_chain hs (Some i) fl"
  obtains n js where "i < length hs" "hs ! i = FreeRef n" "free_chain hs n js" "i \<notin> set js"
  using assms by (cases fl) (auto split: Reference.splits)

lemma pool_tag: "IsRef h \<Longrightarrow> pool h = tag h"
proof -
  assume r: "IsRef h"
  then have "tag h = kGlobalTag \<or> tag h = kLocalTag"
    by (auto simp: ref_tests tag_nat kGlobalTag_def kLocalTag_def numeral_2_eq_2 less_Suc_eq)
  then show ?thesis using Ref_idx(4) [OF Ref_surj(2) [OF r]] Ref_surj(1) [OF r] by metis
qed

lemma Deref_own:
  assumes "handle_inv st" "IsRef h" "\<not> IsNil h" "tag h = store_tag st"
  shows "Deref st h = pool_deref st h"
  using assms pool_tag [OF assms(2)]
  by (auto simp: Deref_def handle_inv_def kGlobalTag_def kLocalTag_def split: option.split)

lemma Deref_foreign:
  assumes "handle_inv st" "tag h \<noteq> store_tag st" "globals st' = globals st"
  shows "Deref st' h = Deref st h"
proof (cases "IsRef h \<and> \<not> IsNil h")
  case True
  then have "pool h = tag h" using pool_tag by blast
  moreover have "tag h = kGlobalTag \<or> tag h = kLocalTag"
    using True by (auto simp: ref_tests tag_nat kGlobalTag_def kLocalTag_def numeral_2_eq_2 less_Suc_eq)
  ultimately show ?thesis
    using assms True
    by (auto simp: Deref_def handle_inv_def kGlobalTag_def kLocalTag_def split: option.splits)
qed (auto simp: Deref_def)

lemma store_tag_cases:
  "handle_inv st \<Longrightarrow> store_tag st = kGlobalTag \<or> store_tag st = kLocalTag"
  by (auto simp: handle_inv_def split: if_splits)

lemma own_Ref:
  assumes "handle_inv st" "i < kMaxHandles"
  defines "h \<equiv> Handle_Ref (of_nat i) (store_tag st)"
  shows "unat (idx h) = i" "tag h = store_tag st" "IsRef h"
    and "i \<noteq> 0 \<or> store_tag st = kLocalTag \<Longrightarrow> \<not> IsNil h"
proof -
  have i: "unat (of_nat i :: uint32) = i"
    using assms(2) unfolding unat_of_nat by (simp add: kMaxHandles_def)
  have room: "unat (of_nat i :: uint32) < kMaxHandles" unfolding i by (rule assms(2))
  note r = Ref_idx [OF room store_tag_cases [OF assms(1)], folded h_def]
  show "unat (idx h) = i" "tag h = store_tag st" "IsRef h" using r i by simp_all
  show "\<not> IsNil h" if "i \<noteq> 0 \<or> store_tag st = kLocalTag"
  proof
    assume "IsNil h"
    then have "bits h = 0" by (simp add: IsNil_def)
    then have "unat (idx h) = 0" "tag h = 0" by (simp_all add: idx_nat tag_def)
    then show False using that r i by (auto simp: kLocalTag_def)
  qed
qed

lemma own_handle_eq:
  assumes "handle_inv st" "IsRef h" "tag h = store_tag st"
  shows "h = Handle_Ref (of_nat (unat (idx h))) (store_tag st)" "unat (idx h) < kMaxHandles"
  using Ref_surj [OF assms(2)] assms(3) by simp_all

text \<open>The effect of giving an object a handle.\<close>

definition handle_bound :: "nat \<Rightarrow> Store \<Rightarrow> Handle \<Rightarrow> Store \<Rightarrow> bool" where
  "handle_bound a st h st' \<longleftrightarrow>
     (\<exists>i hs fh c. h = Handle_Ref (of_nat i) (store_tag st) \<and>
        st' = put_object a ((memory st ! a)\<lparr>d_self := h\<rparr>)
                (st\<lparr>handles := hs, free_handle := fh, handles_capacity := c\<rparr>) \<and>
        i < length hs \<and> length hs \<le> kMaxHandles \<and> length (handles st) \<le> length hs \<and> hs ! i = Object a \<and>
        (\<forall>j < length hs. j \<noteq> i \<longrightarrow> j < length (handles st) \<and> hs ! j = handles st ! j) \<and>
        (i < length (handles st) \<longrightarrow> (\<exists>n. handles st ! i = FreeRef n)) \<and>
        (\<exists>fl. free_chain hs fh fl))"

lemma AllocateHandle_spec:
  assumes "handle_inv st" "has_room st" "\<not> frozen st"
  shows "\<exists>h st'. AllocateHandle a st = Some (h, st') \<and> handle_bound a st h st'"
proof (cases "free_handle st")
  case (Some i)
  obtain fl where "free_chain (handles st) (Some i) fl"
    using assms(1) Some by (auto simp: handle_inv_def)
  then obtain n js where f: "i < length (handles st)" "handles st ! i = FreeRef n"
    "free_chain (handles st) n js" "i \<notin> set js"
    by (rule free_chain_head)
  have "free_chain ((handles st)[i := Object a]) n js"
    using free_chain_update [OF f(3,4)] .
  then have "handle_bound a st (Handle_Ref (of_nat i) (store_tag st))
      (put_object a ((memory st ! a)\<lparr>d_self := Handle_Ref (of_nat i) (store_tag st)\<rparr>)
         (st\<lparr>handles := (handles st)[i := Object a], free_handle := n, handles_capacity := handles_capacity st\<rparr>))"
    unfolding handle_bound_def using f assms(1)
    by (intro exI [of _ i] exI [of _ "(handles st)[i := Object a]"] exI [of _ n]
        exI [of _ "handles_capacity st"]) (auto simp: handle_inv_def)
  moreover have "AllocateHandle a st = Some (Handle_Ref (of_nat i) (store_tag st),
      put_object a ((memory st ! a)\<lparr>d_self := Handle_Ref (of_nat i) (store_tag st)\<rparr>)
        (st\<lparr>handles := (handles st)[i := Object a], free_handle := n, handles_capacity := handles_capacity st\<rparr>))"
    using Some f by (simp add: AllocateHandle_def bind_handle_def put_object_def Let_def)
  ultimately show ?thesis by blast
next
  case None
  let ?n = "length (handles st)"
  obtain fl where fl: "free_chain (handles st) None fl"
    using assms(1) None by (auto simp: handle_inv_def)
  have room: "handles st \<noteq> []" "?n < kMaxHandles" using assms(2) None by (auto simp: has_room_def)
  have chain: "free_chain (handles st @ [Object a]) None fl" using free_chain_append [OF fl] .
  have eq: "\<exists>c. AllocateHandle a st = Some (bind_handle ?n a (st\<lparr>handles_capacity := c, handles := handles st @ [NullRef]\<rparr>))"
  proof (cases "?n * sizeof_Reference + sizeof_Reference \<le> handles_capacity st")
    case True
    then show ?thesis using None
      by (intro exI [of _ "handles_capacity st"]) (simp add: AllocateHandle_def)
  next
    case False
    have "Suc 0 \<le> ?n" using room by (cases "handles st") simp_all
    then show ?thesis
      using False None room assms(3)
      by (auto simp: AllocateHandle_def AllocateHandleSlow_def Let_def sizeof_Reference_def kMaxHandles_def)
  qed
  then obtain c where c: "AllocateHandle a st =
      Some (bind_handle ?n a (st\<lparr>handles_capacity := c, handles := handles st @ [NullRef]\<rparr>))" by blast
  have "handle_bound a st (Handle_Ref (of_nat ?n) (store_tag st))
      (put_object a ((memory st ! a)\<lparr>d_self := Handle_Ref (of_nat ?n) (store_tag st)\<rparr>)
         (st\<lparr>handles := handles st @ [Object a], free_handle := None, handles_capacity := c\<rparr>))"
    unfolding handle_bound_def using room chain None
    by (intro exI [of _ ?n] exI [of _ "handles st @ [Object a]"] exI [of _ "None"] exI [of _ c])
      (auto simp: nth_append)
  moreover have "AllocateHandle a st = Some (Handle_Ref (of_nat ?n) (store_tag st),
      put_object a ((memory st ! a)\<lparr>d_self := Handle_Ref (of_nat ?n) (store_tag st)\<rparr>)
         (st\<lparr>handles := handles st @ [Object a], free_handle := None, handles_capacity := c\<rparr>))"
    unfolding c using None by (simp add: bind_handle_def put_object_def Let_def)
  ultimately show ?thesis by blast
qed

text \<open>The part of the state that allocation leaves alone.\<close>

definition others :: "Store \<Rightarrow> _" where
  "others st = (roots st, externals st, symbols st, num_symbols st, num_buckets st, gc_locks st,
     frozen st, options st, store_tag st, globals st)"

definition unreferenced :: "Store \<Rightarrow> nat \<Rightarrow> bool" where
  "unreferenced st a \<longleftrightarrow> (\<forall>i < length (handles st). handles st ! i \<noteq> Object a)"

lemma handle_bound_inv:
  assumes inv: "handle_inv st" and a: "a < length (memory st)" "unreferenced st a"
    and hb: "handle_bound a st h st'"
  shows "handle_inv st'" "Deref st h = None" "Deref st' h = Some ((memory st ! a)\<lparr>d_self := h\<rparr>)"
    and "IsRef h" "\<not> IsNil h" "tag h = store_tag st"
    and "\<And>h'. h' \<noteq> h \<Longrightarrow> Deref st' h' = Deref st h'"
    and "others st' = others st" "heaps st' = heaps st" "length (memory st') = length (memory st)"
proof -
  obtain i hs fh c where i: "h = Handle_Ref (of_nat i) (store_tag st)"
    and st': "st' = put_object a ((memory st ! a)\<lparr>d_self := h\<rparr>)
                (st\<lparr>handles := hs, free_handle := fh, handles_capacity := c\<rparr>)"
    and hs: "i < length hs" "length hs \<le> kMaxHandles" "length (handles st) \<le> length hs" "hs ! i = Object a"
      "\<And>j. j < length hs \<Longrightarrow> j \<noteq> i \<Longrightarrow> j < length (handles st) \<and> hs ! j = handles st ! j"
    and free: "i < length (handles st) \<Longrightarrow> \<exists>n. handles st ! i = FreeRef n"
    and chain: "\<exists>fl. free_chain hs fh fl"
    using hb unfolding handle_bound_def by blast
  have sel: "handles st' = hs" "memory st' = (memory st)[a := (memory st ! a)\<lparr>d_self := h\<rparr>]"
    "store_tag st' = store_tag st" "globals st' = globals st" "free_handle st' = fh"
    by (simp_all add: st' put_object_def)
  show "others st' = others st" "heaps st' = heaps st" "length (memory st') = length (memory st)"
    by (simp_all add: st' put_object_def others_def)
  have trap: "store_tag st = kGlobalTag \<Longrightarrow> handles st \<noteq> [] \<and> handles st ! 0 = Trap"
    and refs: "\<And>j. j < length (handles st) \<Longrightarrow> ref_ok st j"
    and tag_ok: "store_tag st = (if globals st = None then kGlobalTag else kLocalTag)"
    using inv by (auto simp: handle_inv_def)
  have i0: "i \<noteq> 0 \<or> store_tag st = kLocalTag"
    using trap free store_tag_cases [OF inv] by (cases "i = 0"; cases "handles st") auto
  have lt: "i < kMaxHandles" using hs(1,2) by simp
  note own = own_Ref [OF inv lt, folded i]
  show r: "IsRef h" "tag h = store_tag st" by (rule own(3), rule own(2))
  show nn: "\<not> IsNil h" by (rule own(4) [OF i0])
  have ne: "j < length (handles st) \<Longrightarrow> handles st ! j \<noteq> Object a" for j
    using a(2) by (auto simp: unreferenced_def)
  show inv': "handle_inv st'"
    unfolding handle_inv_def sel
  proof (intro conjI allI impI)
    show "store_tag st = (if globals st = None then kGlobalTag else kLocalTag)" by (rule tag_ok)
    show "length hs \<le> kMaxHandles" by (rule hs(2))
    show "\<exists>fl. free_chain hs fh fl" by (rule chain)
    fix j
    assume j: "j < length hs"
    show "ref_ok st' j"
    proof (cases "j = i")
      case True
      then show ?thesis using hs(4) a(1) i by (simp add: ref_ok_def sel)
    next
      case False
      then have eq: "j < length (handles st)" "hs ! j = handles st ! j" using hs(5) j by auto
      then show ?thesis
        using refs [OF eq(1)] ne [OF eq(1)]
        by (auto simp: ref_ok_def sel nth_list_update split: Reference.splits)
    qed
  next
    assume g: "store_tag st = kGlobalTag"
    then show "hs \<noteq> []" using hs(1) by auto
    have "i \<noteq> 0" using i0 g by (auto simp: kGlobalTag_def kLocalTag_def)
    moreover have "0 < length hs" by (rule le_less_trans [OF le0 hs(1)])
    ultimately show "hs ! 0 = Trap" using hs(5) [of 0] trap [OF g] by auto
  qed
  have "pool_deref st h = None"
    using free by (auto simp: pool_deref_def pool_address_def own(1))
  then show "Deref st h = None" using Deref_own [OF inv r(1) nn r(2)] by simp
  have "pool_deref st' h = Some ((memory st ! a)\<lparr>d_self := h\<rparr>)"
    using hs(1,4) a(1) by (simp add: pool_deref_def pool_address_def own(1) sel)
  then show "Deref st' h = Some ((memory st ! a)\<lparr>d_self := h\<rparr>)"
    using Deref_own [OF inv' r(1) nn] r(2) by (simp add: sel)
  fix h'
  assume h': "h' \<noteq> h"
  show "Deref st' h' = Deref st h'"
  proof (cases "tag h' = store_tag st \<and> IsRef h' \<and> \<not> IsNil h'")
    case False
    then show ?thesis
      using Deref_foreign [OF inv, of h' st'] by (auto simp: sel Deref_def)
  next
    case True
    let ?j = "unat (idx h')"
    have "?j \<noteq> i" using own_handle_eq(1) [OF inv, of h'] True h' i by auto
    then have "pool_deref st' h' = pool_deref st h'"
      using hs(3) hs(5) [of ?j] ne [of ?j] a(1)
      by (auto simp: pool_deref_def pool_address_def sel nth_list_update split: Reference.splits)
    then show ?thesis
      using Deref_own [OF inv, of h'] Deref_own [OF inv', of h'] True by (simp add: sel)
  qed
qed

lemma allocated_inv:
  assumes inv: "handle_inv st" and al: "allocated b st (Some (a, st1))"
  shows "handle_inv st1" "\<And>h. Deref st1 h = Deref st h" "a = length (memory st)"
    "memory st1 ! a = fresh_datum b" "a < length (memory st1)" "unreferenced st1 a"
    and "others st1 = others st" "growable st \<Longrightarrow> growable st1" "has_room st1 = has_room st"
    and "handles st1 = handles st"
proof -
  obtain hps k p where a: "a = length (memory st)"
    and st1: "st1 = st\<lparr>memory := memory st @ [fresh_datum b], heaps := hps, current_heap := k, gc_pending := p\<rparr>"
    and hps: "hps \<noteq> []" "\<forall>hp \<in> set hps. 0 < h_capacity hp"
    using al unfolding allocated_def by blast
  have refs: "ref_ok st j" if "j < length (handles st)" for j using inv that by (simp add: handle_inv_def)
  show "a = length (memory st)" by (rule a)
  show "memory st1 ! a = fresh_datum b" "a < length (memory st1)" "others st1 = others st"
    "has_room st1 = has_room st" "handles st1 = handles st"
    by (simp_all add: a st1 others_def has_room_def)
  show "growable st \<Longrightarrow> growable st1" using hps by (simp add: growable_def st1)
  show "unreferenced st1 a"
    using refs by (fastforce simp: unreferenced_def st1 a ref_ok_def)
  have "ref_ok st1 j" if "j < length (handles st)" for j
    using refs [OF that] by (auto simp: ref_ok_def st1 nth_append split: Reference.splits)
  then show "handle_inv st1" using inv by (simp add: handle_inv_def st1)
  have "pool_deref st1 h = pool_deref st h" for h
    using refs [of "unat (idx h)"]
    by (auto simp: pool_deref_def pool_address_def st1 nth_append ref_ok_def split: Reference.splits)
  then show "Deref st1 h = Deref st h" for h by (auto simp: Deref_def st1 split: option.splits)
qed

text \<open>Allocation of an object with a handle of its own.\<close>

lemma allocated_handle:
  assumes inv: "handle_inv st" "growable st" "has_room st" and r: "allocated b st r"
  shows "\<exists>h st'. (do { (a, st) \<leftarrow> r; AllocateHandle a st }) = Some (h, st') \<and> handle_inv st' \<and> growable st' \<and>
    Deref st h = None \<and> Deref st' h = Some \<lparr>d_self = h, d_marked = False, d_body = b\<rparr> \<and>
    Owned st' h \<and> \<not> IsNil h \<and> others st' = others st \<and> (\<forall>h'. h' \<noteq> h \<longrightarrow> Deref st' h' = Deref st h')"
proof -
  obtain a st1 where a: "r = Some (a, st1)" "allocated b st (Some (a, st1))"
    using r unfolding allocated_def by blast
  note al = allocated_inv [OF inv(1) a(2)]
  have "\<not> frozen st1" using al(8) inv(2) by (simp add: growable_def)
  then obtain h st' where h: "AllocateHandle a st1 = Some (h, st')" "handle_bound a st1 h st'"
    using AllocateHandle_spec [OF al(1)] al(9) inv(3) by blast
  note hb = handle_bound_inv [OF al(1,5,6) h(2)]
  have "growable st'"
    using al(8) inv(2) hb(8,9) by (simp add: growable_def others_def)
  moreover have "store_tag st' = store_tag st1" using hb(8) by (simp add: others_def)
  ultimately show ?thesis
    using a(1) h(1) hb al(2,4,7) by (simp add: fresh_datum_def Owned_def)
qed

lemma Allocate_spec:
  assumes "handle_inv st" "growable st" "has_room st" "object_bytes b < kObjectSizeLimit"
  shows "\<exists>h st'. Allocate b st = Some (h, st') \<and> handle_inv st' \<and> growable st' \<and>
    Deref st h = None \<and> Deref st' h = Some \<lparr>d_self = h, d_marked = False, d_body = b\<rparr> \<and>
    Owned st' h \<and> \<not> IsNil h \<and> others st' = others st \<and> (\<forall>h'. h' \<noteq> h \<longrightarrow> Deref st' h' = Deref st h')"
  unfolding Allocate_def by (rule allocated_handle [OF assms(1-3) AllocateDatum_spec [OF assms(2,4)]])


lemma Owned_IsRef: "handle_inv st \<Longrightarrow> Owned st h \<Longrightarrow> IsRef h"
proof -
  assume a: "handle_inv st" "Owned st h"
  then have "tag h = 0 \<or> tag h = 1"
    using store_tag_cases [OF a(1)] by (simp add: Owned_def kGlobalTag_def kLocalTag_def)
  then show ?thesis
    by (cases rule: mod_4_cases [of "unat (bits h)"]) (simp_all add: tag_nat ref_tests)
qed

lemma Deref_own_address:
  assumes "handle_inv st" "Owned st h" "Deref st h = Some d"
  obtains a where "pool_address st h = Some a" "memory st ! a = d" "a < length (memory st)"
    "unat (idx h) < length (handles st)" "handles st ! unat (idx h) = Object a" "\<not> IsNil h" "IsRef h"
proof -
  have r: "IsRef h" by (rule Owned_IsRef [OF assms(1,2)])
  have n: "\<not> IsNil h" using assms(3) by (auto simp: Deref_def)
  have "pool_deref st h = Some d"
    using Deref_own [OF assms(1) r n] assms(2,3) by (simp add: Owned_def)
  then show thesis
    using that r n by (auto simp: pool_deref_def pool_address_def split: if_splits Reference.splits)
qed

lemma handles_inj:
  assumes inv: "handle_inv st"
    and ij: "i < length (handles st)" "j < length (handles st)" "handles st ! i = Object a" "handles st ! j = Object a"
  shows "i = j"
proof -
  have "ref_ok st i" "ref_ok st j" "length (handles st) \<le> kMaxHandles"
    using inv ij by (simp_all add: handle_inv_def)
  then have "Handle_Ref (of_nat i) (store_tag st) = Handle_Ref (of_nat j) (store_tag st)"
    using ij by (simp add: ref_ok_def)
  moreover have "i < kMaxHandles" "j < kMaxHandles"
    using ij \<open>length (handles st) \<le> kMaxHandles\<close> by simp_all
  ultimately show ?thesis
    using own_Ref(1) [OF inv, of i] own_Ref(1) [OF inv, of j] by metis
qed

lemma free_chain_free: "free_chain hs o1 fl \<Longrightarrow> j \<in> set fl \<Longrightarrow> \<exists>n. hs ! j = FreeRef n"
  by (induction hs o1 fl rule: free_chain.induct) (auto split: Reference.splits)

text \<open>Storing an object behind a handle, in place or by replacing its object.\<close>

lemma put_spec:
  assumes inv: "handle_inv st" "Owned st h" "Deref st h = Some d" "a < length (memory st)"
    and new: "unreferenced st a \<or> pool_address st h = Some a" "d_self e = h"
    and st': "handles st' = (handles st)[unat (idx h) := Object a]"
      "length (memory st') = length (memory st)" "memory st' ! a = e"
      "\<And>b. b \<noteq> a \<Longrightarrow> pool_address st h \<noteq> Some b \<Longrightarrow> memory st' ! b = memory st ! b"
      "free_handle st' = free_handle st" "store_tag st' = store_tag st" "globals st' = globals st"
  shows "handle_inv st'" "Deref st' h = Some e" "\<And>h'. h' \<noteq> h \<Longrightarrow> Deref st' h' = Deref st h'"
proof -
  obtain old where old: "pool_address st h = Some old" "old < length (memory st)"
      "unat (idx h) < length (handles st)" "handles st ! unat (idx h) = Object old" "\<not> IsNil h" "IsRef h"
    using Deref_own_address [OF inv(1-3)] by metis
  let ?i = "unat (idx h)"
  have tag: "tag h = store_tag st" using inv(2) by (simp add: Owned_def)
  have h: "h = Handle_Ref (of_nat ?i) (store_tag st)"
    using own_handle_eq(1) [OF inv(1) old(6) tag] .
  have other: "memory st' ! b = memory st ! b \<and> b \<noteq> a" if "j < length (handles st)" "j \<noteq> ?i" "handles st ! j = Object b" for j b
  proof -
    have "b \<noteq> old" using handles_inj [OF inv(1) that(1) old(3) that(3)] old(4) that(2) by auto
    moreover have "b \<noteq> a" using new(1) that(1,3) old(1) \<open>b \<noteq> old\<close> by (auto simp: unreferenced_def)
    ultimately show ?thesis using st'(4) [of b] old(1) by auto
  qed
  obtain fl where fl: "free_chain (handles st) (free_handle st) fl"
    using inv(1) by (auto simp: handle_inv_def)
  have nfl: "?i \<notin> set fl" using free_chain_free [OF fl, of ?i] old(4) by auto
  show inv': "handle_inv st'"
    unfolding handle_inv_def
  proof (intro conjI allI impI)
    show "store_tag st' = (if globals st' = None then kGlobalTag else kLocalTag)"
      "length (handles st') \<le> kMaxHandles"
      using inv(1) by (simp_all add: handle_inv_def st')
    show "\<exists>fl. free_chain (handles st') (free_handle st') fl"
      using free_chain_update [OF fl nfl] by (auto simp: st')
    fix j
    assume j: "j < length (handles st')"
    show "ref_ok st' j"
    proof (cases "j = ?i")
      case True
      then show ?thesis using old(3) inv(4) new(2) h by (simp add: ref_ok_def st')
    next
      case False
      then show ?thesis
        using j other [of j] inv(1)
        by (auto simp: ref_ok_def st' handle_inv_def split: Reference.splits)
    qed
  next
    assume "store_tag st' = kGlobalTag"
    then have "handles st \<noteq> [] \<and> handles st ! 0 = Trap" using inv(1) by (simp add: handle_inv_def st')
    moreover from this have "?i \<noteq> 0" using old(4) by (metis Reference.distinct(5))
    ultimately show "handles st' \<noteq> []" "handles st' ! 0 = Trap" by (auto simp: st')
  qed
  have "pool_deref st' h = Some e"
    using old(3) inv(4) by (simp add: pool_deref_def pool_address_def st')
  then show "Deref st' h = Some e"
    using Deref_own [OF inv' old(6,5)] tag by (simp add: st')
  fix h'
  assume h': "h' \<noteq> h"
  show "Deref st' h' = Deref st h'"
  proof (cases "tag h' = store_tag st \<and> IsRef h' \<and> \<not> IsNil h'")
    case False
    then show ?thesis
      using Deref_foreign [OF inv(1), of h' st'] by (auto simp: st' Deref_def)
  next
    case True
    let ?j = "unat (idx h')"
    have "?j \<noteq> ?i" using own_handle_eq(1) [OF inv(1), of h'] True h' h by metis
    then have "pool_deref st' h' = pool_deref st h'"
      using other [of ?j]
      by (auto simp: pool_deref_def pool_address_def st' nth_list_update split: Reference.splits)
    then show ?thesis
      using Deref_own [OF inv(1), of h'] Deref_own [OF inv', of h'] True by (simp add: st')
  qed
qed


lemma modify_spec:
  assumes inv: "handle_inv st" "Owned st h" "Deref st h = Some d" and f: "d_self (f d) = d_self d"
  shows "\<exists>st'. modify h f st = Some st' \<and> handle_inv st' \<and> Deref st' h = Some (f d) \<and>
    others st' = others st \<and> growable st' = growable st \<and> (\<forall>h'. h' \<noteq> h \<longrightarrow> Deref st' h' = Deref st h')"
proof -
  obtain a where a: "pool_address st h = Some a" "memory st ! a = d" "a < length (memory st)"
      "unat (idx h) < length (handles st)" "handles st ! unat (idx h) = Object a" "\<not> IsNil h" "IsRef h"
    using Deref_own_address [OF inv] by metis
  have "ref_ok st (unat (idx h))" using inv(1) a(4) by (simp add: handle_inv_def)
  then have "d_self d = h"
    using own_handle_eq(1) [OF inv(1) a(7)] inv(2) a(2,5) by (simp add: ref_ok_def Owned_def)
  then have self: "d_self (f d) = h" using f by simp
  let ?st = "put_object a (f d) st"
  have "(handles st)[unat (idx h) := Object a] = handles st" using a(5) by (metis list_update_id)
  then have "handle_inv ?st" "Deref ?st h = Some (f d)" "\<And>h'. h' \<noteq> h \<Longrightarrow> Deref ?st h' = Deref st h'"
    using put_spec [OF inv a(3) _ self, of ?st] a by (auto simp: put_object_def)
  then show ?thesis
    using inv(2) a by (simp add: modify_def put_object_def others_def growable_def)
qed

lemma Replace_spec:
  assumes inv: "handle_inv st" "Owned st h" "Deref st h = Some d"
    and a: "a < length (memory st)" "unreferenced st a"
  shows "\<exists>st'. Replace h a st = Some st' \<and> handle_inv st' \<and>
    Deref st' h = Some ((memory st ! a)\<lparr>d_self := h\<rparr>) \<and> others st' = others st \<and>
    growable st' = growable st \<and> (\<forall>h'. h' \<noteq> h \<longrightarrow> Deref st' h' = Deref st h')"
proof -
  obtain old where old: "pool_address st h = Some old" "old < length (memory st)"
      "unat (idx h) < length (handles st)" "handles st ! unat (idx h) = Object old" "\<not> IsNil h" "IsRef h"
    using Deref_own_address [OF inv] by metis
  have ne: "a \<noteq> old" using a(2) old by (auto simp: unreferenced_def)
  let ?e = "(memory st ! a)\<lparr>d_self := h\<rparr>"
  let ?st = "put_object a ?e ((put_object old (invalidate (memory st ! old)) st)
      \<lparr>handles := (handles st)[unat (idx h) := Object a]\<rparr>)"
  have "handle_inv ?st" "Deref ?st h = Some ?e" "\<And>h'. h' \<noteq> h \<Longrightarrow> Deref ?st h' = Deref st h'"
    using put_spec [OF inv a(1), of ?e ?st] a old ne by (auto simp: put_object_def)
  moreover have "Replace h a st = Some ?st"
    using inv(2) old ne by (simp add: Replace_def put_object_def Let_def)
  ultimately show ?thesis by (simp add: put_object_def others_def growable_def)
qed

text \<open>Allocating a new object for an existing handle.\<close>

lemma allocated_replace:
  assumes inv: "handle_inv st" "growable st" "Owned st h" "Deref st h = Some d" and r: "allocated b st r"
  shows "\<exists>st'. (do { (a, st) \<leftarrow> r; Replace h a st }) = Some st' \<and> handle_inv st' \<and>
    growable st' \<and> Deref st' h = Some \<lparr>d_self = h, d_marked = False, d_body = b\<rparr> \<and>
    others st' = others st \<and> (\<forall>h'. h' \<noteq> h \<longrightarrow> Deref st' h' = Deref st h')"
proof -
  obtain a st1 where a: "r = Some (a, st1)" "allocated b st (Some (a, st1))"
    using r unfolding allocated_def by blast
  note al = allocated_inv [OF inv(1) a(2)]
  have "Owned st1 h" using inv(3) al(7) by (simp add: Owned_def others_def)
  moreover have "Deref st1 h = Some d" using al(2) inv(4) by simp
  ultimately obtain st' where "Replace h a st1 = Some st'" "handle_inv st'"
    "Deref st' h = Some ((memory st1 ! a)\<lparr>d_self := h\<rparr>)" "others st' = others st1"
    "growable st' = growable st1" "\<forall>h'. h' \<noteq> h \<longrightarrow> Deref st' h' = Deref st1 h'"
    using Replace_spec [OF al(1) _ _ al(5,6)] by blast
  then show ?thesis using a(1) al inv(2) by (simp add: fresh_datum_def)
qed

section \<open>Frames as slot lists\<close>

text \<open>The slots behind a handle, the abstraction of a frame.\<close>

definition slots_of :: "Store \<Rightarrow> Handle \<Rightarrow> slot list option" where
  "slots_of st h = map_option (\<lambda>(proxy, public, slots). slots) (GetFrame st h)"

definition fits_frame :: "nat \<Rightarrow> bool" where
  "fits_frame n \<longleftrightarrow> object_bytes (FrameBody False False (replicate n (Handle_nil, Handle_nil))) < kObjectSizeLimit"

lemma fits_frame_bytes:
  "fits_frame (length slots) \<Longrightarrow> object_bytes (FrameBody proxy public slots) < kObjectSizeLimit"
  by (simp add: fits_frame_def object_bytes_def)

lemma slots_of_Deref:
  "slots_of st h = Some slots \<longleftrightarrow>
    (\<exists>d proxy public. Deref st h = Some d \<and> d_body d = FrameBody proxy public slots)"
  by (auto simp: slots_of_def GetFrame_def split: option.splits body.splits)

lemma slots_of_cong: "Deref st' h = Deref st h \<Longrightarrow> slots_of st' h = slots_of st h"
  by (simp add: slots_of_def GetFrame_def)

lemma copy_frame_spec:
  assumes "handle_inv st" "growable st" "GetFrame st h = Some (proxy, public, slots)"
    "fits_frame (length slots + length extra)"
  shows "allocated (FrameBody False (flags \<and> public) (slots @ extra)) st (copy_frame h flags extra st)"
proof -
  let ?b = "FrameBody False False (replicate (length slots + length extra) (Handle_nil, Handle_nil))"
  have al: "allocated ?b st (AllocateDatum ?b st)"
    by (rule AllocateDatum_spec [OF assms(2)]) (use assms(4) in \<open>simp add: fits_frame_def\<close>)
  then obtain hps k p where st1: "AllocateDatum ?b st = Some (length (memory st), st\<lparr>memory := memory st @ [fresh_datum ?b],
      heaps := hps, current_heap := k, gc_pending := p\<rparr>)" "hps \<noteq> []" "\<forall>hp \<in> set hps. 0 < h_capacity hp"
    unfolding allocated_def by blast
  have "GetFrame (st\<lparr>memory := memory st @ [fresh_datum ?b], heaps := hps, current_heap := k, gc_pending := p\<rparr>) h =
      GetFrame st h"
    using allocated_inv(2) [OF assms(1) al [unfolded st1(1)]] by (simp add: GetFrame_def)
  then have "copy_frame h flags extra st = Some (length (memory st),
      st\<lparr>memory := memory st @ [fresh_datum (FrameBody False (flags \<and> public) (slots @ extra))],
        heaps := hps, current_heap := k, gc_pending := p\<rparr>)"
    using assms(3) st1(1) by (simp add: copy_frame_def put_object_def set_body_def fresh_datum_def list_update_append)
  then show ?thesis using st1(2,3) unfolding allocated_def by blast
qed

lemma Add_spec:
  assumes inv: "handle_inv st" "growable st" "Owned st h" "slots_of st h = Some slots"
    and name: "name \<noteq> Handle_id" and room: "fits_frame (length slots + 1)"
  shows "\<exists>st'. Store_Add h name val st = Some st' \<and> handle_inv st' \<and> growable st' \<and>
    slots_of st' h = Some (slots @ [(name, val)]) \<and> others st' = others st \<and>
    (\<forall>h'. h' \<noteq> h \<longrightarrow> Deref st' h' = Deref st h')"
proof -
  obtain d proxy public where d: "Deref st h = Some d" "d_body d = FrameBody proxy public slots"
    using inv(4) by (auto simp: slots_of_Deref)
  have "GetFrame st h = Some (proxy, public, slots)" using d by (simp add: GetFrame_def)
  from allocated_replace [OF inv(1-3) d(1) copy_frame_spec [OF inv(1,2) this, of "[(name, val)]" True]] show ?thesis
    using inv(3) name room by (auto simp: Store_Add_def slots_of_Deref)
qed

lemma Set_spec:
  assumes inv: "handle_inv st" "growable st" "Owned st h" "slots_of st h = Some slots"
    and name: "name \<noteq> Handle_id" and room: "fits_frame (length slots + 1)"
  shows "\<exists>st'. Store_Set h name val st = Some st' \<and> handle_inv st' \<and> growable st' \<and>
    slots_of st' h = Some (case update_slot slots name val of Some s \<Rightarrow> s | None \<Rightarrow> slots @ [(name, val)]) \<and>
    others st' = others st \<and> (\<forall>h'. h' \<noteq> h \<longrightarrow> Deref st' h' = Deref st h')"
proof -
  obtain d proxy public where d: "Deref st h = Some d" "d_body d = FrameBody proxy public slots"
    using inv(4) by (auto simp: slots_of_Deref)
  show ?thesis
  proof (cases "update_slot slots name val")
    case None
    have get: "GetFrame st h = Some (proxy, public, slots)" using d by (simp add: GetFrame_def)
    from allocated_replace [OF inv(1-3) d(1) copy_frame_spec [OF inv(1,2) this, of "[(name, val)]" True]] show ?thesis
      using inv(3) name room None get by (auto simp: Store_Set_def slots_of_Deref)
  next
    case (Some s)
    obtain st' where "modify h (set_body (FrameBody proxy public s)) st = Some st'" "handle_inv st'"
      "Deref st' h = Some (set_body (FrameBody proxy public s) d)" "others st' = others st"
      "growable st' = growable st" "\<forall>h'. h' \<noteq> h \<longrightarrow> Deref st' h' = Deref st h'"
      using modify_spec [OF inv(1,3) d(1), of "set_body (FrameBody proxy public s)"]
      by (auto simp: set_body_def)
    then show ?thesis
      using inv(2,3) name d Some by (auto simp: Store_Set_def GetFrame_def slots_of_Deref set_body_def)
  qed
qed

lemma Get_spec:
  "slots_of st h = Some slots \<Longrightarrow> Store_Get st h name = Some (frame_get slots name)"
  by (auto simp: slots_of_def Store_Get_def)

lemma Clone_spec:
  assumes inv: "handle_inv st" "growable st" "has_room st" "GetFrame st h = Some (proxy, False, slots)"
    and room: "fits_frame (length slots)"
  shows "\<exists>h' st'. Store_Clone h st = Some (h', st') \<and> handle_inv st' \<and> growable st' \<and> Owned st' h' \<and>
    Deref st h' = None \<and> GetFrame st' h' = Some (False, False, slots) \<and> others st' = others st \<and>
    (\<forall>x. x \<noteq> h' \<longrightarrow> Deref st' x = Deref st x)"
  using allocated_handle [OF inv(1-3) copy_frame_spec [OF inv(1,2,4), of "[]" False]] inv(4) room
  by (auto simp: Store_Clone_def GetFrame_def)

lemma Extend_spec:
  assumes inv: "handle_inv st" "growable st" "has_room st" "GetFrame st h = Some (proxy, False, slots)"
    and room: "fits_frame (length slots + 1)" and name: "name \<noteq> Handle_id"
  shows "\<exists>h' st'. Store_Extend h name val st = Some (h', st') \<and> handle_inv st' \<and> growable st' \<and> Owned st' h' \<and>
    Deref st h' = None \<and> GetFrame st' h' = Some (False, False, slots @ [(name, val)]) \<and>
    others st' = others st \<and> (\<forall>x. x \<noteq> h' \<longrightarrow> Deref st' x = Deref st x)"
  using allocated_handle [OF inv(1-3) copy_frame_spec [OF inv(1,2,4), of "[(name, val)]" False]] inv(4) room name
  by (auto simp: Store_Extend_def GetFrame_def)

text \<open>Adding an object without a handle, as \<^verbatim>\<open>Delete\<close> does, changes no other object.\<close>

lemma append_object_Deref:
  assumes "handle_inv st"
  shows "handle_inv (st\<lparr>memory := memory st @ [d], heaps := hps\<rparr>)"
    and "Deref (st\<lparr>memory := memory st @ [d], heaps := hps\<rparr>) h = Deref st h"
proof -
  let ?st = "st\<lparr>memory := memory st @ [d], heaps := hps\<rparr>"
  have refs: "ref_ok st j" if "j < length (handles st)" for j using assms that by (simp add: handle_inv_def)
  have "ref_ok ?st j" if "j < length (handles st)" for j
    using refs [OF that] by (auto simp: ref_ok_def nth_append split: Reference.splits)
  then show "handle_inv ?st" using assms by (simp add: handle_inv_def)
  have "pool_deref ?st h = pool_deref st h"
    using refs [of "unat (idx h)"]
    by (auto simp: pool_deref_def pool_address_def nth_append ref_ok_def split: Reference.splits)
  then show "Deref ?st h = Deref st h" by (auto simp: Deref_def split: option.splits)
qed

lemma delete_loop_filter:
  fixes slots :: "slot list" and name :: Handle
  defines "first \<equiv> length (takeWhile (\<lambda>s. fst s \<noteq> name) slots)"
  shows "\<exists>junk. delete_loop slots name first first =
      (filter (\<lambda>s. fst s \<noteq> name) slots @ junk, length (filter (\<lambda>s. fst s \<noteq> name) slots)) \<and>
    length (filter (\<lambda>s. fst s \<noteq> name) slots) + length junk = length slots"
proof -
  have le: "first \<le> length slots" unfolding first_def by (rule length_takeWhile_le)
  have "take first slots = takeWhile (\<lambda>s. fst s \<noteq> name) slots"
    unfolding first_def by (metis takeWhile_eq_take)
  then have pre: "filter (\<lambda>s. fst s \<noteq> name) (take first slots) = take first slots"
    by (simp add: filter_id_conv) (metis set_takeWhileD)
  have split: "filter (\<lambda>s. fst s \<noteq> name) slots = take first slots @ filter (\<lambda>s. fst s \<noteq> name) (drop first slots)"
    using pre by (metis append_take_drop_id filter_append)
  obtain junk where "delete_loop slots name first first =
      (take first slots @ filter (\<lambda>s. fst s \<noteq> name) (drop first slots) @ junk,
       first + length (filter (\<lambda>s. fst s \<noteq> name) (drop first slots)))"
    "first + length (filter (\<lambda>s. fst s \<noteq> name) (drop first slots)) + length junk = length slots"
    using delete_loop_spec [OF order_refl le, of name] by blast
  then show ?thesis using le by (simp add: split)
qed

lemma Delete_spec:
  assumes inv: "handle_inv st" "Owned st h" "slots_of st h = Some slots" and name: "name \<noteq> Handle_id"
  shows "\<exists>st'. Store_Delete h name st = Some st' \<and> handle_inv st' \<and>
    slots_of st' h = Some (filter (\<lambda>s. fst s \<noteq> name) slots) \<and> others st' = others st \<and>
    (\<forall>h'. h' \<noteq> h \<longrightarrow> Deref st' h' = Deref st h')"
proof -
  obtain d proxy public where d: "Deref st h = Some d" "d_body d = FrameBody proxy public slots"
    using inv(3) by (auto simp: slots_of_Deref)
  let ?first = "length (takeWhile (\<lambda>s. fst s \<noteq> name) slots)"
  let ?kept = "filter (\<lambda>s. fst s \<noteq> name) slots"
  have get: "GetFrame st h = Some (proxy, public, slots)" using d by (simp add: GetFrame_def)
  show ?thesis
  proof (cases "?first = length slots")
    case True
    then have "takeWhile (\<lambda>s. fst s \<noteq> name) slots = slots" by (metis takeWhile_eq_take take_all order_refl)
    then have "?kept = slots" by (metis filter_True set_takeWhileD)
    then show ?thesis using True inv name get by (simp add: Store_Delete_def)
  next
    case False
    obtain junk where junk: "delete_loop slots name ?first ?first = (?kept @ junk, length ?kept)"
      using delete_loop_filter [of slots name] by blast
    obtain a where a: "pool_address st h = Some a" "\<not> IsNil h"
      using Deref_own_address [OF inv(1,2) d(1)] by metis
    let ?st = "put_object a (set_body (FrameBody proxy public ?kept) (memory st ! a)) st"
    obtain st1 where st1: "modify h (set_body (FrameBody proxy public ?kept)) st = Some st1" "handle_inv st1"
      "Deref st1 h = Some (set_body (FrameBody proxy public ?kept) d)" "others st1 = others st"
      "\<forall>h'. h' \<noteq> h \<longrightarrow> Deref st1 h' = Deref st h'"
      using modify_spec [OF inv(1,2) d(1), of "set_body (FrameBody proxy public ?kept)"]
      by (auto simp: set_body_def)
    have st1_eq: "st1 = ?st" using st1(1) a inv(2) by (simp add: modify_def)
    obtain rm hps where "Store_Delete h name st = Some (st1\<lparr>memory := memory st1 @ [rm], heaps := hps\<rparr>)"
      using False name inv(2) get a(1) junk by (auto simp: Store_Delete_def shrink_frame_def st1_eq Let_def)
    then show ?thesis
      using append_object_Deref(1) [OF st1(2)] append_object_Deref(2) [OF st1(2)] st1(3-5)
      by (auto simp: slots_of_Deref set_body_def others_def)
  qed
qed

section \<open>Properties\<close>

text \<open>
  A local store with its symbol table, a frame with a name, the string that is its name and a
  string that nothing refers to.
\<close>

definition sample_globals :: Pool where
  "sample_globals =
     \<lparr>memory = [], heaps = [], current_heap = 0, handles = [Trap], handles_capacity = 8, free_handle = None,
      roots = [], externals = [], symbols = Handle_nil, num_symbols = 0, num_buckets = 0, gc_locks = 0,
      gc_pending = False, num_gcs = 0, num_dead_handles = 0, frozen = True,
      options = \<lparr>initial_heap_size = 1024, maximum_heap_size = 4096, initial_handles = 64, map_buckets = 4,
        string_buckets = 4, expansion_free_fraction = 20, symbol_rebinding = True\<rparr>\<rparr>"

definition sample_store :: Store where
  "sample_store =
     \<lparr>memory =
        [\<lparr>d_self = Handle 1, d_marked = False, d_body = ArrayBody [Handle_nil]\<rparr>,
         \<lparr>d_self = Handle 5, d_marked = False, d_body = FrameBody False False [(Handle_name, Handle 9)]\<rparr>,
         \<lparr>d_self = Handle 9, d_marked = False, d_body = StringBody [0x61, 0x62]\<rparr>,
         \<lparr>d_self = Handle 13, d_marked = False, d_body = StringBody [0x63]\<rparr>],
      heaps = [\<lparr>h_objects = [0, 1, 2, 3], h_capacity = 1024, h_frozen = False\<rparr>], current_heap = 0,
      handles = [Object 0, Object 1, Object 2, Object 3], handles_capacity = 64, free_handle = None,
      roots = [Handle 1], externals = [[Handle 5]], symbols = Handle 1, num_symbols = 0, num_buckets = 1,
      gc_locks = 0, gc_pending = False, num_gcs = 0, num_dead_handles = 0, frozen = False,
      options = options sample_globals, store_tag = kLocalTag, globals = Some sample_globals\<rparr>"

lemma sample_handle_inv: "handle_inv sample_store"
proof -
  have "ref_ok sample_store i" if "i < 4" for i
  proof -
    have "i = 0 \<or> i = 1 \<or> i = 2 \<or> i = 3" using that by (auto simp: eval_nat_numeral less_Suc_eq)
    then show ?thesis
      by (elim disjE) (simp_all add: ref_ok_def sample_store_def Handle_Ref_def kLocalTag_def)
  qed
  moreover have "\<exists>fl. free_chain (handles sample_store) (free_handle sample_store) fl"
    by (rule exI [of _ "[]"]) (simp add: sample_store_def)
  ultimately show ?thesis
    by (simp add: handle_inv_def sample_store_def kMaxHandles_def kLocalTag_def kGlobalTag_def)
qed

lemma LockGC_inv: "handle_inv (LockGC st) = handle_inv st" "Deref (LockGC st) h = Deref st h"
  by (simp_all add: handle_inv_def LockGC_def ref_ok_def Deref_def pool_deref_def pool_address_def
      cong: option.case_cong Reference.case_cong)

lemma sample_locked:
  "handle_inv (LockGC sample_store)" "growable (LockGC sample_store)" "has_room (LockGC sample_store)"
  "Owned (LockGC sample_store) (Handle 5)"
  "GetFrame (LockGC sample_store) (Handle 5) = Some (False, False, [(Handle_name, Handle 9)])"
  "slots_of (LockGC sample_store) (Handle 5) = Some [(Handle_name, Handle 9)]"
  "n < 100 \<Longrightarrow> fits_frame n"
proof -
  show "handle_inv (LockGC sample_store)" by (simp add: LockGC_inv sample_handle_inv)
  show "growable (LockGC sample_store)" "has_room (LockGC sample_store)"
    by (simp_all add: growable_def has_room_def LockGC_def sample_store_def sample_globals_def kMaxHandles_def)
  show "Owned (LockGC sample_store) (Handle 5)"
    by (simp add: Owned_def LockGC_def sample_store_def tag_def kTagMask_def kLocalTag_def)
  show fr: "GetFrame (LockGC sample_store) (Handle 5) = Some (False, False, [(Handle_name, Handle 9)])"
    unfolding GetFrame_def LockGC_inv
    by (simp add: Deref_def pool_deref_def pool_address_def sample_store_def
        IsRef_def kNumber_def IsNil_def Handle_nil_def pool_def kPoolMask_def kGlobalTag_def idx_def)
  show "slots_of (LockGC sample_store) (Handle 5) = Some [(Handle_name, Handle 9)]"
    by (simp add: slots_of_def fr)
  show "n < 100 \<Longrightarrow> fits_frame n"
    by (simp add: fits_frame_def object_bytes_def Align_def sizeof_Datum_def sizeof_Slot_def kObjectAlign_def
        kObjectSizeLimit_def)
qed





text \<open>
  Deleting slots. Deleting a name from a frame of the store removes every slot with that name
  and keeps the others in their order; the space behind the shortened frame becomes an invalid
  object, no other object changes, and the handle table stays well formed.
\<close>

theorem store_delete:
  assumes "handle_inv st" "Owned st h" "slots_of st h = Some slots" "name \<noteq> Handle_id"
  shows "\<exists>st'. Store_Delete h name st = Some st' \<and> handle_inv st' \<and>
    slots_of st' h = Some (filter (\<lambda>s. fst s \<noteq> name) slots) \<and>
    (\<forall>h'. h' \<noteq> h \<longrightarrow> Deref st' h' = Deref st h')"
  using Delete_spec [OF assms] by blast

theorem store_delete_witness:
  "\<exists>st'. Store_Delete (Handle 5) Handle_name (LockGC sample_store) = Some st' \<and> slots_of st' (Handle 5) = Some []"
  using store_delete [OF sample_locked(1,4,6), of Handle_name] by (auto simp: Handle_id_def Handle_name_def)

text \<open>
  Copying frames. \<^verbatim>\<open>Clone\<close> and \<^verbatim>\<open>Extend\<close> return a handle that was not in use, for an anonymous
  frame with the slots of the original, with the additional slot behind them for \<^verbatim>\<open>Extend\<close>, and
  change no existing object.
\<close>

theorem store_copies:
  assumes "handle_inv st" "growable st" "has_room st" "GetFrame st h = Some (proxy, False, slots)"
    "fits_frame (length slots + 1)" "fits_frame (length slots)" "name \<noteq> Handle_id"
  shows "(\<exists>h' st'. Store_Clone h st = Some (h', st') \<and> handle_inv st' \<and> Deref st h' = None \<and>
      GetFrame st' h' = Some (False, False, slots) \<and> (\<forall>x. x \<noteq> h' \<longrightarrow> Deref st' x = Deref st x)) \<and>
    (\<exists>h' st'. Store_Extend h name val st = Some (h', st') \<and> handle_inv st' \<and> Deref st h' = None \<and>
      GetFrame st' h' = Some (False, False, slots @ [(name, val)]) \<and> (\<forall>x. x \<noteq> h' \<longrightarrow> Deref st' x = Deref st x))"
  using Clone_spec [OF assms(1-4,6)] Extend_spec [OF assms(1-5,7), of val] by blast

theorem store_copies_witness:
  "\<exists>h' st'. Store_Clone (Handle 5) (LockGC sample_store) = Some (h', st') \<and>
     GetFrame st' h' = Some (False, False, [(Handle_name, Handle 9)])"
proof -
  have "fits_frame (length [(Handle_name, Handle 9)] + 1)" "fits_frame (length [(Handle_name, Handle 9)])"
    "Handle_name \<noteq> Handle_id"
    by (simp_all add: Handle_id_def Handle_name_def sample_locked(7))
  from store_copies [OF sample_locked(1-3,5) this] show ?thesis by blast
qed



end
