(* ===== verification/Frame_GC.thy ===== *)
theory Frame_GC
  imports Frame_Store
begin

text \<open>
  Correctness of the garbage collector of the frame store (\<^verbatim>\<open>Store::Mark\<close>, \<^verbatim>\<open>Store::Compact\<close>,
  \<^verbatim>\<open>Store::GC\<close>): a collection keeps every object that can be reached from the roots and the
  externals, with its handle and its contents, frees the handles of all the others and
  preserves the invariant of the handle table. The result is for stores without frozen
  heaps, which only snapshots create.
\<close>

section \<open>Reachability\<close>

inductive reachable :: "Store \<Rightarrow> Handle \<Rightarrow> bool" for st where
  root: "h \<in> set (roots st) \<union> set (concat (externals st)) \<Longrightarrow> \<not> IsNil h \<Longrightarrow> tag h = store_tag st \<Longrightarrow>
    reachable st h"
| step: "reachable st h \<Longrightarrow> pool_address st h = Some a \<Longrightarrow> g \<in> set (object_refs (d_body (memory st ! a))) \<Longrightarrow>
    \<not> IsNil g \<Longrightarrow> tag g = store_tag st \<Longrightarrow> reachable st g"

text \<open>No reachable handle dangles.\<close>

definition refs_valid :: "Store \<Rightarrow> bool" where
  "refs_valid st \<longleftrightarrow> (\<forall>h. reachable st h \<longrightarrow> pool_address st h \<noteq> None)"

definition heap_addresses :: "'a Pool_scheme \<Rightarrow> nat list" where
  "heap_addresses st = concat (map h_objects (heaps st))"

definition heap_inv :: "Store \<Rightarrow> bool" where
  "heap_inv st \<longleftrightarrow>
     distinct (heap_addresses st) \<and>
     (\<forall>a \<in> set (heap_addresses st). a < length (memory st)) \<and>
     (\<forall>a \<in> set (heap_addresses st). \<not> invalid (memory st ! a) \<longrightarrow>
        pool_address st (d_self (memory st ! a)) = Some a) \<and>
     (\<forall>a. Object a \<in> set (handles st) \<longrightarrow> a \<in> set (heap_addresses st)) \<and>
     (\<forall>hp \<in> set (heaps st). \<not> h_frozen hp) \<and>
     (\<forall>d \<in> set (memory st). \<not> d_marked d)"

section \<open>Marking\<close>

definition clear_mark :: "Datum \<Rightarrow> Datum" where
  "clear_mark d = d\<lparr>d_marked := False\<rparr>"

text \<open>Marking changes nothing but mark bits.\<close>

definition only_marks :: "Store \<Rightarrow> Store \<Rightarrow> bool" where
  "only_marks st st' \<longleftrightarrow>
     (\<exists>m. st' = st\<lparr>memory := m\<rparr> \<and> length m = length (memory st) \<and>
        (\<forall>a < length m. clear_mark (m ! a) = clear_mark (memory st ! a) \<and>
           (d_marked (memory st ! a) \<longrightarrow> d_marked (m ! a))))"

lemma only_marks_refl: "only_marks st st"
  by (auto simp: only_marks_def intro!: exI [of _ "memory st"])

lemma only_marks_trans: "only_marks a b \<Longrightarrow> only_marks b c \<Longrightarrow> only_marks a c"
  by (auto simp: only_marks_def)

lemma only_marks_mark_object:
  "a < length (memory st) \<Longrightarrow> only_marks st (mark_object a st)"
  by (auto simp: only_marks_def mark_object_def put_object_def clear_mark_def nth_list_update)

lemma clear_mark_eq:
  "clear_mark d = clear_mark e \<Longrightarrow> d_body d = d_body e \<and> d_self d = d_self e"
  by (cases d; cases e) (simp add: clear_mark_def)

lemma only_marks_select:
  assumes "only_marks st st'"
  shows "handles st' = handles st" "store_tag st' = store_tag st" "length (memory st') = length (memory st)"
    and "pool_address st' h = pool_address st h" "roots st' = roots st" "externals st' = externals st"
    and "a < length (memory st) \<Longrightarrow> d_body (memory st' ! a) = d_body (memory st ! a)"
    and "a < length (memory st) \<Longrightarrow> d_self (memory st' ! a) = d_self (memory st ! a)"
    and "a < length (memory st) \<Longrightarrow> d_marked (memory st ! a) \<Longrightarrow> d_marked (memory st' ! a)"
proof -
  obtain m where m: "st' = st\<lparr>memory := m\<rparr>" "length m = length (memory st)"
    "\<And>a. a < length m \<Longrightarrow> clear_mark (m ! a) = clear_mark (memory st ! a) \<and>
       (d_marked (memory st ! a) \<longrightarrow> d_marked (m ! a))"
    using assms unfolding only_marks_def by blast
  show "handles st' = handles st" "store_tag st' = store_tag st" "length (memory st') = length (memory st)"
    "pool_address st' h = pool_address st h" "roots st' = roots st" "externals st' = externals st"
    using m(2) by (simp_all add: m(1) pool_address_def split: Reference.split)
  show "a < length (memory st) \<Longrightarrow> d_body (memory st' ! a) = d_body (memory st ! a)"
    "a < length (memory st) \<Longrightarrow> d_self (memory st' ! a) = d_self (memory st ! a)"
    "a < length (memory st) \<Longrightarrow> d_marked (memory st ! a) \<Longrightarrow> d_marked (memory st' ! a)"
    using m(2) m(3) [of a] clear_mark_eq [of "m ! a" "memory st ! a"] by (simp_all add: m(1))
qed

lemma only_marks_clear:
  "only_marks st st' \<Longrightarrow> a < length (memory st) \<Longrightarrow> clear_mark (memory st' ! a) = clear_mark (memory st ! a)"
  by (auto simp: only_marks_def)

lemma clear_mark_id: "\<not> d_marked d \<Longrightarrow> clear_mark d = d"
  by (cases d) (simp add: clear_mark_def)

definition marked_at :: "Store \<Rightarrow> Handle \<Rightarrow> bool" where
  "marked_at st h \<longleftrightarrow> (\<exists>a. pool_address st h = Some a \<and> d_marked (memory st ! a))"

definition own_ref :: "Store \<Rightarrow> Handle \<Rightarrow> bool" where
  "own_ref st h \<longleftrightarrow> \<not> IsNil h \<and> tag h = store_tag st"

lemma pool_address_less: "pool_address st h = Some a \<Longrightarrow> a < length (memory st)"
  by (auto simp: pool_address_def split: if_splits Reference.splits)

lemma mark_loop_only_marks: "mark_loop st stack = Some st' \<Longrightarrow> only_marks st st'"
proof (induction st stack rule: mark_loop.induct)
  case (3 st h rng stack)
  then show ?case
    by (auto split: if_splits option.splits
        intro: only_marks_trans [OF only_marks_mark_object] dest: pool_address_less)
qed (auto simp: only_marks_refl)

text \<open>The handles in the ranges on the stack are still to be marked; all others are done.\<close>

definition closed_but :: "Store \<Rightarrow> Handle set \<Rightarrow> bool" where
  "closed_but st S \<longleftrightarrow>
     (\<forall>a < length (memory st). d_marked (memory st ! a) \<longrightarrow>
        (\<forall>h \<in> set (object_refs (d_body (memory st ! a))). own_ref st h \<longrightarrow> marked_at st h \<or> h \<in> S))"

lemma marked_at_mono:
  assumes "only_marks st st'" "marked_at st h"
  shows "marked_at st' h"
  using assms only_marks_select [OF assms(1)] pool_address_less unfolding marked_at_def by metis

lemma mark_loop_closed:
  assumes "mark_loop st stack = Some st'" "closed_but st (set (concat stack))"
  shows "closed_but st' {} \<and> (\<forall>h \<in> set (concat stack). own_ref st h \<longrightarrow> marked_at st' h)"
  using assms
proof (induction st stack rule: mark_loop.induct)
  case (3 st h rng stack)
  show ?case
  proof (cases "own_ref st h")
    case False
    then have eq: "mark_loop st ((h # rng) # stack) = mark_loop st (rng # stack)"
      by (auto simp: own_ref_def)
    have "closed_but st (set (concat (rng # stack)))"
      using "3.prems"(2) False by (auto simp: closed_but_def)
    then show ?thesis
      using "3.IH"(3) "3.prems"(1) False unfolding eq by (auto simp: own_ref_def)
  next
    case own: True
    then have c: "\<not> IsNil h \<and> tag h = store_tag st" by (simp add: own_ref_def)
    then obtain a where a: "pool_address st h = Some a"
      using "3.prems"(1) by (auto split: option.splits)
    show ?thesis
    proof (cases "d_marked (memory st ! a)")
      case True
      then have m: "marked_at st h" using a by (auto simp: marked_at_def)
      have eq: "mark_loop st ((h # rng) # stack) = mark_loop st (rng # stack)"
        using c a True by simp
      have "closed_but st (set (concat (rng # stack)))"
        using "3.prems"(2) m by (auto simp: closed_but_def)
      then show ?thesis
        using "3.IH"(2) [OF c a] True "3.prems"(1) m marked_at_mono [OF mark_loop_only_marks]
        unfolding eq by auto
    next
      case False
      let ?st = "mark_object a st" and ?refs = "object_refs (d_body (memory st ! a))"
      have al: "a < length (memory st)" using pool_address_less [OF a] .
      have om: "only_marks st ?st" by (rule only_marks_mark_object [OF al])
      have eq: "mark_loop st ((h # rng) # stack) = mark_loop ?st (?refs # rng # stack)"
        using c a False by simp
      have own_eq: "own_ref ?st g = own_ref st g" for g
        using only_marks_select(2) [OF om] by (simp add: own_ref_def)
      have mh: "marked_at ?st h"
        using a al only_marks_select(4) [OF om, of h]
        by (auto simp: marked_at_def mark_object_def put_object_def)
      have "closed_but ?st (set (concat (?refs # rng # stack)))"
        unfolding closed_but_def
      proof (intro allI impI ballI)
        fix b g
        assume b: "b < length (memory ?st)" "d_marked (memory ?st ! b)"
          and g: "g \<in> set (object_refs (d_body (memory ?st ! b)))" "own_ref ?st g"
        show "marked_at ?st g \<or> g \<in> set (concat (?refs # rng # stack))"
        proof (cases "b = a")
          case True
          then show ?thesis using g(1) only_marks_select(7) [OF om al] by auto
        next
          case False
          then have "d_marked (memory st ! b)" "g \<in> set (object_refs (d_body (memory st ! b)))"
            "b < length (memory st)"
            using b g(1) by (auto simp: mark_object_def put_object_def)
          then have "marked_at st g \<or> g \<in> set (concat ((h # rng) # stack))"
            using "3.prems"(2) g(2) unfolding closed_but_def own_eq by blast
          then show ?thesis using marked_at_mono [OF om] mh by auto
        qed
      qed
      then have "closed_but st' {} \<and> (\<forall>g \<in> set (concat (?refs # rng # stack)). own_ref ?st g \<longrightarrow> marked_at st' g)"
        using "3.IH"(1) [OF c a False] "3.prems"(1) unfolding eq by blast
      moreover have "marked_at st' h"
        using marked_at_mono [OF mark_loop_only_marks mh] "3.prems"(1) unfolding eq by blast
      ultimately show ?thesis by (auto simp: own_eq)
    qed
  qed
qed auto

text \<open>Only reachable objects are marked, and marking succeeds if no reachable handle dangles.\<close>

definition marks_reachable :: "Store \<Rightarrow> Store \<Rightarrow> bool" where
  "marks_reachable st0 st \<longleftrightarrow>
     (\<forall>a < length (memory st). d_marked (memory st ! a) \<longrightarrow>
        (\<exists>h. reachable st0 h \<and> pool_address st0 h = Some a))"

lemma mark_loop_reachable:
  assumes "refs_valid st0" "only_marks st0 st" "marks_reachable st0 st"
    "\<forall>h \<in> set (concat stack). own_ref st h \<longrightarrow> reachable st0 h"
  shows "\<exists>st'. mark_loop st stack = Some st' \<and> marks_reachable st0 st'"
  using assms(2-)
proof (induction st stack rule: mark_loop.induct)
  case (3 st h rng stack)
  show ?case
  proof (cases "own_ref st h")
    case False
    then have "\<not> (\<not> IsNil h \<and> tag h = store_tag st)" by (auto simp: own_ref_def)
    then show ?thesis using "3.IH"(3) "3.prems" by auto
  next
    case own: True
    then have c: "\<not> IsNil h \<and> tag h = store_tag st" by (simp add: own_ref_def)
    have r: "reachable st0 h" using "3.prems"(3) own by simp
    then obtain a where a0: "pool_address st0 h = Some a" using assms(1) by (auto simp: refs_valid_def)
    then have a: "pool_address st h = Some a" using only_marks_select(4) [OF "3.prems"(1)] by simp
    have al: "a < length (memory st)" using pool_address_less [OF a] .
    show ?thesis
    proof (cases "d_marked (memory st ! a)")
      case True
      then show ?thesis using "3.IH"(2) [OF c a] "3.prems" c a by auto
    next
      case False
      let ?st = "mark_object a st"
      have om: "only_marks st0 ?st"
        using only_marks_trans [OF "3.prems"(1) only_marks_mark_object [OF al]] .
      have "marks_reachable st0 ?st"
        using "3.prems"(2) r a0 al
        by (auto simp: marks_reachable_def mark_object_def put_object_def nth_list_update split: if_splits)
      moreover have "\<forall>g \<in> set (concat (object_refs (d_body (memory st ! a)) # rng # stack)).
          own_ref ?st g \<longrightarrow> reachable st0 g"
      proof (intro ballI impI)
        fix g
        assume g: "g \<in> set (concat (object_refs (d_body (memory st ! a)) # rng # stack))" "own_ref ?st g"
        have body: "d_body (memory st ! a) = d_body (memory st0 ! a)"
          using only_marks_select(7) [OF "3.prems"(1)] pool_address_less [OF a0] by simp
        have own_g: "own_ref st g" "\<not> IsNil g" "tag g = store_tag st0"
          using g(2) only_marks_select(2) [OF om] only_marks_select(2) [OF "3.prems"(1)]
          by (auto simp: own_ref_def)
        show "reachable st0 g"
        proof (cases "g \<in> set (object_refs (d_body (memory st ! a)))")
          case True
          then show ?thesis using reachable.step [OF r a0] own_g(2,3) unfolding body by blast
        next
          case False
          then show ?thesis using "3.prems"(3) g(1) own_g(1) by auto
        qed
      qed
      ultimately show ?thesis using "3.IH"(1) [OF c a False om] c a False by simp
    qed
  qed
qed auto

lemma Mark_spec:
  assumes "refs_valid st" "\<forall>d \<in> set (memory st). \<not> d_marked d"
  shows "\<exists>st'. Mark st = Some st' \<and> only_marks st st' \<and>
    (\<forall>a < length (memory st).
       d_marked (memory st' ! a) \<longleftrightarrow> (\<exists>g. reachable st g \<and> pool_address st g = Some a))"
proof -
  let ?stack = "rev (externals st) @ [roots st]"
  have un: "\<not> d_marked (memory st ! a)" if "a < length (memory st)" for a using assms(2) that by simp
  have "marks_reachable st st" using un by (auto simp: marks_reachable_def)
  moreover have "\<forall>h \<in> set (concat ?stack). own_ref st h \<longrightarrow> reachable st h"
    by (auto simp: own_ref_def intro: reachable.root)
  ultimately obtain st' where st': "mark_loop st ?stack = Some st'" "marks_reachable st st'"
    using mark_loop_reachable [OF assms(1) only_marks_refl] by blast
  have om: "only_marks st st'" by (rule mark_loop_only_marks [OF st'(1)])
  have "closed_but st (set (concat ?stack))" using un by (auto simp: closed_but_def)
  note cl = mark_loop_closed [OF st'(1) this]
  have "marked_at st' h" if "reachable st h" for h
    using that
  proof (induction rule: reachable.induct)
    case (root h)
    then show ?case using cl by (auto simp: own_ref_def)
  next
    case (step h a g)
    have al: "a < length (memory st')"
      using pool_address_less [OF step.hyps(2)] only_marks_select(3) [OF om] by simp
    have "d_marked (memory st' ! a)"
      using step.IH step.hyps(2) only_marks_select(4) [OF om, of h] by (auto simp: marked_at_def)
    moreover have "g \<in> set (object_refs (d_body (memory st' ! a)))"
      using step.hyps(2,3) only_marks_select(7) [OF om] pool_address_less by metis
    moreover have "own_ref st' g"
      using step.hyps(4,5) only_marks_select(2) [OF om] by (simp add: own_ref_def)
    ultimately show ?case using cl al unfolding closed_but_def by blast
  qed
  then have "d_marked (memory st' ! a)" if "reachable st g" "pool_address st g = Some a" for g a
    using that only_marks_select(4) [OF om, of g] by (fastforce simp: marked_at_def)
  then show ?thesis
    using st' om only_marks_select(3) [OF om] by (auto simp: Mark_def marks_reachable_def)
qed

section \<open>Compaction\<close>

definition dead :: "Datum \<Rightarrow> bool" where
  "dead d \<longleftrightarrow> \<not> invalid d \<and> \<not> d_marked d"

lemma compact_objects_append:
  "compact_objects (xs @ ys) st =
    (case compact_objects xs st of (ks, st1) \<Rightarrow>
      (case compact_objects ys st1 of (ks2, st2) \<Rightarrow> (ks @ ks2, st2)))"
  by (induction xs arbitrary: st) (auto simp: Let_def split: prod.splits)

lemma compact_heaps_concat:
  assumes "\<forall>hp \<in> set hps. \<not> h_frozen hp" "compact_heaps hps st = (hps', st')"
  shows "compact_objects (concat (map h_objects hps)) st = (concat (map h_objects hps'), st')"
    and "length hps' = length hps" "\<forall>hp \<in> set hps'. \<not> h_frozen hp"
  using assms by (induction hps arbitrary: st hps' st')
    (auto simp: compact_objects_append split: prod.splits if_splits)

definition self_index :: "Datum \<Rightarrow> nat" where
  "self_index d = unat (idx (d_self d))"

definition survives :: "Datum \<Rightarrow> bool" where
  "survives d \<longleftrightarrow> \<not> invalid d \<and> d_marked d"

text \<open>The state after the objects at \<open>as\<close> have been compacted.\<close>

definition compacted :: "nat list \<Rightarrow> Store \<Rightarrow> nat list \<Rightarrow> Store \<Rightarrow> bool" where
  "compacted as st kept st' \<longleftrightarrow>
     others st' = others st \<and> heaps st' = heaps st \<and>
     kept = filter (\<lambda>a. survives (memory st ! a)) as \<and>
     length (memory st') = length (memory st) \<and> length (handles st') = length (handles st) \<and>
     (\<forall>a < length (memory st). memory st' ! a =
        (if a \<in> set as \<and> survives (memory st ! a) then clear_mark (memory st ! a) else memory st ! a)) \<and>
     (\<forall>a \<in> set as. dead (memory st ! a) \<longrightarrow> (\<exists>n. handles st' ! self_index (memory st ! a) = FreeRef n)) \<and>
     (\<forall>i < length (handles st). (\<forall>a \<in> set as. dead (memory st ! a) \<longrightarrow> self_index (memory st ! a) \<noteq> i) \<longrightarrow>
        handles st' ! i = handles st ! i) \<and>
     (\<exists>fl. free_chain (handles st') (free_handle st') fl)"

definition dead_handles_ok :: "nat list \<Rightarrow> Store \<Rightarrow> bool" where
  "dead_handles_ok as st \<longleftrightarrow>
     (\<forall>a \<in> set as. a < length (memory st) \<and>
        (dead (memory st ! a) \<longrightarrow>
           self_index (memory st ! a) < length (handles st) \<and>
           handles st ! self_index (memory st ! a) = Object a))"

lemma compact_objects_spec:
  assumes "distinct as" "dead_handles_ok as st" "\<exists>fl. free_chain (handles st) (free_handle st) fl"
  shows "case compact_objects as st of (kept, st') \<Rightarrow> compacted as st kept st'"
  using assms
proof (induction as arbitrary: st)
  case Nil
  then show ?case by (simp add: compacted_def)
next
  case (Cons a as)
  let ?d = "memory st ! a"
  have al: "a < length (memory st)" "a \<notin> set as" "distinct as"
    using Cons.prems by (auto simp: dead_handles_ok_def)
  consider (gone) "invalid ?d" | (live) "survives ?d" | (dead) "dead ?d"
    by (auto simp: survives_def dead_def)
  then show ?case
  proof cases
    case gone
    have ok: "dead_handles_ok as st" using Cons.prems(2) by (simp add: dead_handles_ok_def)
    obtain kept st' where c: "compact_objects as st = (kept, st')" "compacted as st kept st'"
      using Cons.IH [OF al(3) ok Cons.prems(3)] by (auto split: prod.splits)
    have "compacted (a # as) st kept st'"
      using c(2) gone unfolding compacted_def by (simp add: survives_def dead_def)
    then show ?thesis using c(1) gone by (simp add: Let_def)
  next
    case live
    let ?st = "put_object a (clear_mark ?d) st"
    have nd: "\<not> dead ?d" "\<not> invalid ?d" "d_marked ?d" using live by (auto simp: dead_def survives_def)
    have same: "memory ?st ! b = memory st ! b" if "b \<in> set as" for b
      using that al(2) by (cases "a = b") (simp_all add: put_object_def)
    have ok: "dead_handles_ok as ?st"
      using Cons.prems(2) same by (auto simp: dead_handles_ok_def put_object_def)
    obtain kept st' where c: "compact_objects as ?st = (kept, st')" "compacted as ?st kept st'"
      using Cons.IH [OF al(3) ok] Cons.prems(3) by (auto simp: put_object_def split: prod.splits)
    have "compact_objects (a # as) st = (a # kept, st')"
      using c(1) nd by (simp add: Let_def clear_mark_def)
    moreover have "compacted (a # as) st (a # kept) st'"
    proof -
      have "filter (\<lambda>b. survives (memory ?st ! b)) as = filter (\<lambda>b. survives (memory st ! b)) as"
        using same by (intro filter_cong) simp_all
      moreover have "memory st' ! b =
          (if b \<in> set (a # as) \<and> survives (memory st ! b) then clear_mark (memory st ! b) else memory st ! b)"
        if "b < length (memory st)" for b
      proof -
        have "memory ?st ! b = (if b = a then clear_mark ?d else memory st ! b)"
          using al(1) that by (cases "a = b") (simp_all add: put_object_def)
        moreover have "b < length (memory ?st)" using that by (simp add: put_object_def)
        then have "memory st' ! b =
            (if b \<in> set as \<and> survives (memory ?st ! b) then clear_mark (memory ?st ! b) else memory ?st ! b)"
          using c(2) unfolding compacted_def by blast
        ultimately show ?thesis using al(2) live by (cases "b = a") simp_all
      qed
      ultimately show ?thesis
        using c(2) live nd(1) same unfolding compacted_def by (simp add: put_object_def others_def)
    qed
    ultimately show ?thesis by simp
  next
    case dead
    let ?i = "self_index ?d"
    let ?st = "st\<lparr>handles := (handles st)[?i := FreeRef (free_handle st)], free_handle := Some ?i\<rparr>"
    have i: "?i < length (handles st)" "handles st ! ?i = Object a"
      using Cons.prems(2) dead by (auto simp: dead_handles_ok_def)
    have ok: "dead_handles_ok as ?st"
      using Cons.prems(2) i al(2) by (fastforce simp: dead_handles_ok_def nth_list_update)
    obtain fl where fl: "free_chain (handles st) (free_handle st) fl" using Cons.prems(3) by blast
    have "?i \<notin> set fl" using free_chain_free [OF fl, of ?i] i(2) by auto
    then have "free_chain (handles ?st) (free_handle ?st) (?i # fl)"
      using free_chain_update [OF fl] i(1) by simp
    then have "\<exists>fl. free_chain (handles ?st) (free_handle ?st) fl" by blast
    from Cons.IH [OF al(3) ok this]
    obtain kept st' where c: "compact_objects as ?st = (kept, st')" "compacted as ?st kept st'"
      by (cases "compact_objects as ?st") simp
    have "compact_objects (a # as) st = (kept, st')"
      using c(1) dead by (simp add: Let_def dead_def self_index_def)
    moreover have "compacted (a # as) st kept st'"
    proof -
      have "\<exists>n. handles st' ! ?i = FreeRef n"
      proof (cases "\<exists>b \<in> set as. dead (memory st ! b) \<and> self_index (memory st ! b) = ?i")
        case True
        then show ?thesis using c(2) unfolding compacted_def by fastforce
      next
        case False
        then have "handles st' ! ?i = handles ?st ! ?i" using c(2) i(1) unfolding compacted_def by simp
        then show ?thesis using i(1) by simp
      qed
      moreover have "\<not> survives ?d" using dead by (simp add: dead_def survives_def)
      ultimately show ?thesis
        using c(2) dead unfolding compacted_def by (auto simp: others_def)
    qed
    ultimately show ?thesis by simp
  qed
qed

section \<open>Collections\<close>

lemma reachable_own: "reachable st h \<Longrightarrow> tag h = store_tag st \<and> \<not> IsNil h"
  by (erule reachable.cases) auto

lemma address_handle:
  assumes inv: "handle_inv st" and h: "pool_address st h = Some a" "tag h = store_tag st" "\<not> IsNil h"
  shows "d_self (memory st ! a) = h" "unat (idx h) < length (handles st)"
    "handles st ! unat (idx h) = Object a" "IsRef h" "\<not> invalid (memory st ! a)"
proof -
  show r: "IsRef h" using Owned_IsRef [OF inv] h(2) by (simp add: Owned_def)
  show lt: "unat (idx h) < length (handles st)" and o: "handles st ! unat (idx h) = Object a"
    using h(1) by (auto simp: pool_address_def split: if_splits Reference.splits)
  have "ref_ok st (unat (idx h))" using inv lt by (simp add: handle_inv_def)
  then show s: "d_self (memory st ! a) = h"
    using own_handle_eq(1) [OF inv r h(2)] o by (simp add: ref_ok_def)
  show "\<not> invalid (memory st ! a)" using s h(3) by (simp add: invalid_def)
qed

lemma Object_handle:
  assumes inv: "handle_inv st" and i: "i < length (handles st)" "handles st ! i = Object a"
  defines "h \<equiv> Handle_Ref (of_nat i) (store_tag st)"
  shows "pool_address st h = Some a" "tag h = store_tag st" "\<not> IsNil h" "unat (idx h) = i"
proof -
  have "i < kMaxHandles" "ref_ok st i" using inv i(1) by (auto simp: handle_inv_def)
  note own = own_Ref [OF inv this(1), folded h_def]
  have "store_tag st = kGlobalTag \<Longrightarrow> i \<noteq> 0"
    using inv i by (cases "i = 0") (auto simp: handle_inv_def)
  then show "\<not> IsNil h" using own(4) store_tag_cases [OF inv] by blast
  show "tag h = store_tag st" "unat (idx h) = i" by (rule own)+
  show "pool_address st h = Some a"
    using \<open>ref_ok st i\<close> i own(1) by (simp add: pool_address_def ref_ok_def)
qed

lemma address_unique:
  assumes "handle_inv st" "pool_address st h = Some a" "tag h = store_tag st" "\<not> IsNil h"
    "pool_address st g = Some a" "tag g = store_tag st" "\<not> IsNil g"
  shows "g = h"
  using address_handle(1) [OF assms(1-4)] address_handle(1) [OF assms(1,5-7)] by simp

text \<open>What the collection does to an object, by its handle and its address.\<close>

lemma collection:
  assumes inv: "handle_inv st" "heap_inv st" "refs_valid st" and gc: "\<not> frozen st" "gc_locks st = 0"
  obtains st' where "GC st = Some st'" "others st' = others st"
    "heap_addresses st' = filter (\<lambda>a. \<exists>g. reachable st g \<and> pool_address st g = Some a) (heap_addresses st)"
    "\<forall>hp \<in> set (heaps st'). \<not> h_frozen hp"
    "memory st' = memory st" "length (handles st') = length (handles st)"
    "\<exists>fl. free_chain (handles st') (free_handle st') fl"
    "\<And>i. i < length (handles st) \<Longrightarrow> handles st' ! i =
       handles st ! i \<and> (\<forall>a. handles st ! i = Object a \<longrightarrow> (\<exists>g. reachable st g \<and> pool_address st g = Some a)) \<or>
       (\<exists>n a. handles st' ! i = FreeRef n \<and> handles st ! i = Object a \<and>
          \<not> (\<exists>g. reachable st g \<and> pool_address st g = Some a))"
proof -
  let ?as = "heap_addresses st"
  let ?live = "\<lambda>a. \<exists>g. reachable st g \<and> pool_address st g = Some a"
  have un: "\<forall>d \<in> set (memory st). \<not> d_marked d" using inv(2) by (simp add: heap_inv_def)
  obtain st1 where m: "Mark st = Some st1" "only_marks st st1"
    "\<And>a. a < length (memory st) \<Longrightarrow> d_marked (memory st1 ! a) \<longleftrightarrow> ?live a"
    using Mark_spec [OF inv(3) un] by blast
  obtain mem where st1: "st1 = st\<lparr>memory := mem\<rparr>" using m(2) by (auto simp: only_marks_def)
  note sel = only_marks_select [OF m(2)]
  have less: "a < length (memory st)" if "a \<in> set ?as" for a using inv(2) that by (simp add: heap_inv_def)
  have inval: "invalid (memory st1 ! a) = invalid (memory st ! a)" if "a < length (memory st)" for a
    using sel(8) [OF that] by (simp add: invalid_def)
  have self: "pool_address st (d_self (memory st ! a)) = Some a" if "a \<in> set ?as" "\<not> invalid (memory st ! a)" for a
    using inv(2) that by (simp add: heap_inv_def)
  have ok: "dead_handles_ok ?as st1"
    unfolding dead_handles_ok_def
  proof (intro ballI conjI impI)
    fix a assume a: "a \<in> set ?as"
    then show "a < length (memory st1)" using less sel(3) by simp
    assume "dead (memory st1 ! a)"
    then have "\<not> invalid (memory st ! a)" using inval less a by (simp add: dead_def)
    from self [OF a this] show "self_index (memory st1 ! a) < length (handles st1)"
      "handles st1 ! self_index (memory st1 ! a) = Object a"
      using sel(1,8) less [OF a]
      by (auto simp: self_index_def pool_address_def split: if_splits Reference.splits)
  qed
  have frozen: "\<forall>hp \<in> set (heaps st1). \<not> h_frozen hp" and heaps1: "heap_addresses st1 = ?as"
    and dist: "distinct ?as" and fc: "\<exists>fl. free_chain (handles st1) (free_handle st1) fl"
    using inv(1,2) by (auto simp: heap_inv_def handle_inv_def st1 heap_addresses_def)
  obtain hps st2 where c: "compact_heaps (heaps st1) st1 = (hps, st2)" by fastforce
  note ch = compact_heaps_concat [OF frozen c]
  have cp: "compacted ?as st1 (concat (map h_objects hps)) st2"
    using compact_objects_spec [OF dist ok fc] ch(1) heaps1 by (simp add: heap_addresses_def)
  let ?st' = "st2\<lparr>heaps := hps, current_heap := 0, gc_pending := False, num_gcs := num_gcs st2 + 1\<rparr>"
  have surv: "survives (memory st1 ! a) = ?live a" if "a \<in> set ?as" for a
  proof -
    have "?live a \<Longrightarrow> \<not> invalid (memory st ! a)"
      using address_handle(5) [OF inv(1)] reachable_own by blast
    then show ?thesis using m(3) [OF less [OF that]] inval [OF less [OF that]] by (auto simp: survives_def)
  qed
  show thesis
  proof (rule that [of ?st'])
    show "GC st = Some ?st'" using gc m(1) c by (simp add: GC_def Compact_def)
    show "others ?st' = others st" using cp unfolding compacted_def by (simp add: others_def st1)
    show "heap_addresses ?st' = filter ?live ?as"
    proof -
      have "heap_addresses ?st' = filter (\<lambda>a. survives (memory st1 ! a)) ?as"
        using cp unfolding compacted_def by (simp add: heap_addresses_def)
      also have "\<dots> = filter ?live ?as" using surv by (rule filter_cong [OF refl])
      finally show ?thesis .
    qed
    show "\<forall>hp \<in> set (heaps ?st'). \<not> h_frozen hp" using ch(3) by simp
    show "length (handles ?st') = length (handles st)" "\<exists>fl. free_chain (handles ?st') (free_handle ?st') fl"
      using cp sel(1) unfolding compacted_def by simp_all
    have ptr: "a \<in> set ?as" if "?live a" for a
      using that inv(2) unfolding heap_inv_def
      by (auto simp: pool_address_def in_set_conv_nth split: if_splits Reference.splits)
    have "memory st2 ! a = memory st ! a" if a: "a < length (memory st)" for a
    proof -
      have eq: "memory st2 ! a = (if a \<in> set ?as \<and> survives (memory st1 ! a)
          then clear_mark (memory st1 ! a) else memory st1 ! a)"
        using cp a sel(3) unfolding compacted_def by simp
      have cl: "clear_mark (memory st1 ! a) = memory st ! a"
        using only_marks_clear [OF m(2) a] clear_mark_id [of "memory st ! a"] un a by simp
      show ?thesis
      proof (cases "?live a")
        case True
        then show ?thesis using eq cl surv [OF ptr [OF True]] ptr [OF True] by simp
      next
        case False
        then have "\<not> d_marked (memory st1 ! a)" using m(3) [OF a] by simp
        then show ?thesis using eq cl clear_mark_id [of "memory st1 ! a"] by (simp split: if_splits)
      qed
    qed
    moreover have "length (memory st2) = length (memory st)"
      using cp sel(3) unfolding compacted_def by simp
    ultimately show "memory ?st' = memory st" by (simp add: nth_equalityI)
    fix i
    assume i: "i < length (handles st)"
    have frees: "\<exists>n. handles st2 ! self_index (memory st1 ! a) = FreeRef n" if "a \<in> set ?as" "dead (memory st1 ! a)" for a
      using cp that unfolding compacted_def by blast
    have keeps: "handles st2 ! i = handles st ! i"
      if "\<And>b. b \<in> set ?as \<Longrightarrow> dead (memory st1 ! b) \<Longrightarrow> self_index (memory st1 ! b) \<noteq> i"
      using cp that i sel(1) unfolding compacted_def by simp
    have target: "handles st ! i = Object b" if "b \<in> set ?as" "dead (memory st1 ! b)" "self_index (memory st1 ! b) = i" for b
      using ok that sel(1) unfolding dead_handles_ok_def by auto
    show "handles ?st' ! i = handles st ! i \<and> (\<forall>a. handles st ! i = Object a \<longrightarrow> ?live a) \<or>
        (\<exists>n a. handles ?st' ! i = FreeRef n \<and> handles st ! i = Object a \<and> \<not> ?live a)"
    proof (cases "\<exists>a. handles st ! i = Object a \<and> \<not> ?live a")
      case True
      then obtain a where a: "handles st ! i = Object a" "\<not> ?live a" by blast
      then have in_as: "a \<in> set ?as" using inv(2) nth_mem [OF i] by (auto simp: heap_inv_def)
      note oh = Object_handle [OF inv(1) i a(1)]
      note ah = address_handle [OF inv(1) oh(1-3)]
      have "dead (memory st1 ! a)"
        using surv [OF in_as] a(2) inval [OF less [OF in_as]] ah(5) by (simp add: dead_def survives_def)
      moreover have "self_index (memory st1 ! a) = i"
        using sel(8) [OF less [OF in_as]] ah(1) oh(4) by (simp add: self_index_def)
      ultimately show ?thesis using frees [OF in_as] a by auto
    next
      case False
      have "handles st2 ! i = handles st ! i"
      proof (rule keeps)
        fix b
        assume b: "b \<in> set ?as" "dead (memory st1 ! b)"
        show "self_index (memory st1 ! b) \<noteq> i"
        proof
          assume "self_index (memory st1 ! b) = i"
          then have "?live b" using target [OF b] False by blast
          then show False using surv [OF b(1)] b(2) by (simp add: dead_def survives_def)
        qed
      qed
      then show ?thesis using False by auto
    qed
  qed
qed

lemma pool_address_iff:
  "pool_address p h = Some a \<longleftrightarrow>
     unat (idx h) < length (handles p) \<and> handles p ! unat (idx h) = Object a \<and> a < length (memory p)"
  by (auto simp: pool_address_def split: if_splits Reference.splits)

lemma GC_spec:
  assumes inv: "handle_inv st" "heap_inv st" "refs_valid st" and gc: "\<not> frozen st" "gc_locks st = 0"
  shows "\<exists>st'. GC st = Some st' \<and> handle_inv st' \<and> heap_inv st' \<and> refs_valid st' \<and> others st' = others st \<and>
    (\<forall>h. reachable st h \<longrightarrow> Deref st' h = Deref st h) \<and>
    (\<forall>h. Owned st h \<longrightarrow> \<not> reachable st h \<longrightarrow> Deref st' h = None) \<and>
    (\<forall>h. \<not> Owned st h \<longrightarrow> Deref st' h = Deref st h)"
proof (rule collection [OF assms])
  let ?live = "\<lambda>a. \<exists>g. reachable st g \<and> pool_address st g = Some a"
  fix st'
  assume c: "GC st = Some st'" "others st' = others st"
    "heap_addresses st' = filter ?live (heap_addresses st)"
    "\<forall>hp \<in> set (heaps st'). \<not> h_frozen hp"
    "memory st' = memory st" "length (handles st') = length (handles st)"
    "\<exists>fl. free_chain (handles st') (free_handle st') fl"
    and hs: "\<And>i. i < length (handles st) \<Longrightarrow> handles st' ! i =
       handles st ! i \<and> (\<forall>a. handles st ! i = Object a \<longrightarrow> ?live a) \<or>
       (\<exists>n a. handles st' ! i = FreeRef n \<and> handles st ! i = Object a \<and> \<not> ?live a)"
  have tg: "store_tag st' = store_tag st" "globals st' = globals st"
    using c(2) by (simp_all add: others_def)
  have entry: "handles st' ! i = Object a \<longleftrightarrow> handles st ! i = Object a \<and> ?live a" if "i < length (handles st)" for i a
    using hs [OF that] by auto
  have addr: "pool_address st' h = Some a \<longleftrightarrow> pool_address st h = Some a \<and> ?live a" for h a
    using entry [of "unat (idx h)" a] pool_address_iff [of st' h a] pool_address_iff [of st h a] c(5,6)
    by metis
  have live_iff: "?live a \<longleftrightarrow> reachable st h" if "pool_address st h = Some a" "tag h = store_tag st" "\<not> IsNil h" for h a
    using address_unique [OF inv(1) that] reachable_own that(1) by blast
  have inv': "handle_inv st'"
  proof -
    have "ref_ok st' i" if "i < length (handles st)" for i
    proof -
      have "ref_ok st i" using inv(1) that by (simp add: handle_inv_def)
      then show ?thesis using entry [OF that] c(5) tg by (auto simp: ref_ok_def split: Reference.splits)
    qed
    moreover have "handles st ! 0 = Trap \<Longrightarrow> handles st \<noteq> [] \<Longrightarrow> handles st' ! 0 = Trap"
      using hs [of 0] by auto
    moreover have "handles st \<noteq> [] \<longleftrightarrow> handles st' \<noteq> []" using c(6) by auto
    ultimately show ?thesis using inv(1) c(6,7) tg by (auto simp: handle_inv_def)
  qed
  have heap': "heap_inv st'"
    unfolding heap_inv_def
  proof (intro conjI allI impI ballI)
    show "distinct (heap_addresses st')" using inv(2) c(3) by (simp add: heap_inv_def)
    fix a
    show "a \<in> set (heap_addresses st') \<Longrightarrow> a < length (memory st')"
      using inv(2) c(3,5) by (simp add: heap_inv_def)
    show "a \<in> set (heap_addresses st') \<Longrightarrow> \<not> invalid (memory st' ! a) \<Longrightarrow>
        pool_address st' (d_self (memory st' ! a)) = Some a"
      using inv(2) c(3,5) addr by (simp add: heap_inv_def)
    show "Object a \<in> set (handles st') \<Longrightarrow> a \<in> set (heap_addresses st')"
      using inv(2) c(3,6) entry by (fastforce simp: heap_inv_def in_set_conv_nth)
  qed (use inv(2) c(4,5) in \<open>auto simp: heap_inv_def\<close>)
  have own: "Deref st' h = (if reachable st h then Deref st h else None)" if o: "Owned st h" for h
  proof (cases "IsNil h")
    case True
    then show ?thesis by (simp add: Deref_def)
  next
    case False
    have t: "tag h = store_tag st" "IsRef h" using o Owned_IsRef [OF inv(1) o] by (simp_all add: Owned_def)
    have "Deref st' h = pool_deref st' h" "Deref st h = pool_deref st h"
      using Deref_own [OF inv' t(2) False] Deref_own [OF inv(1) t(2) False] t(1) tg(1) by simp_all
    moreover have "pool_deref st' h = (if reachable st h then pool_deref st h else None)"
    proof (cases "pool_address st h")
      case None
      then have "pool_address st' h = None" using addr by (metis not_None_eq)
      then show ?thesis using None by (simp add: pool_deref_def)
    next
      case (Some a)
      have "pool_address st' h = (if reachable st h then Some a else None)"
        using addr [of h a] addr [of h] live_iff [OF Some t(1) False] Some
        by (metis option.inject not_None_eq)
      then show ?thesis using Some c(5) by (simp add: pool_deref_def)
    qed
    ultimately show ?thesis by simp
  qed
  have rootset: "roots st' = roots st" "externals st' = externals st"
    using c(2) by (simp_all add: others_def)
  have kept: "pool_address st' h \<noteq> None" if "reachable st h" for h
  proof -
    obtain a where "pool_address st h = Some a" using inv(3) \<open>reachable st h\<close> by (auto simp: refs_valid_def)
    then have "pool_address st' h = Some a" using addr \<open>reachable st h\<close> by blast
    then show ?thesis by simp
  qed
  have "reachable st h \<and> pool_address st' h \<noteq> None" if "reachable st' h" for h
    using that
  proof induction
    case (root h)
    then have "reachable st h" using reachable.root rootset tg(1) by metis
    then show ?case using kept by blast
  next
    case (step h a g)
    then have "reachable st h" "pool_address st h = Some a" using addr by auto
    then have "reachable st g" using reachable.step step(3-5) c(5) tg(1) by metis
    then show ?case using kept by blast
  qed
  then have refs': "refs_valid st'" by (simp add: refs_valid_def)
  have "Deref st' h = Deref st h" if "\<not> Owned st h" for h
    using Deref_foreign [OF inv(1), of h st'] that tg by (simp add: Owned_def)
  then show ?thesis
    using c(1,2) inv' heap' refs' own reachable_own by (auto simp: Owned_def)
qed

section \<open>Properties\<close>

lemma sample_reachable:
  assumes "reachable sample_store h"
  shows "h = Handle 1 \<or> h = Handle 5 \<or> h = Handle 9"
  using assms
proof induction
  case (root h)
  then show ?case by (auto simp: sample_store_def)
next
  case (step h a g)
  have "tag Handle_name \<noteq> store_tag sample_store"
    by (simp add: sample_store_def tag_def Handle_name_def kTagMask_def kLocalTag_def)
  then show ?case
    using step by (auto simp: sample_store_def pool_address_def idx_def IsNil_def Handle_nil_def)
qed

lemma sample_pool_address:
  "pool_address sample_store (Handle 1) = Some 0" "pool_address sample_store (Handle 5) = Some 1"
  "pool_address sample_store (Handle 9) = Some 2" "pool_address sample_store (Handle 13) = Some 3"
  by (simp_all add: sample_store_def pool_address_def idx_def)

lemma sample_refs_valid: "refs_valid sample_store"
  using sample_reachable sample_pool_address by (auto simp: refs_valid_def)

lemma sample_heap_inv: "heap_inv sample_store"
proof -
  have "pool_address sample_store (d_self (memory sample_store ! a)) = Some a" if "a \<in> {0, 1, 2, 3}" for a
    using that sample_pool_address by (auto simp: sample_store_def)
  then show ?thesis by (auto simp: heap_inv_def heap_addresses_def sample_store_def)
qed

text \<open>
  C2: Garbage collection is safe and complete. In a store whose reachable handles do not dangle
  a collection returns; every handle reachable from the roots and externals yields the same
  object as before, every other handle of the store is freed, handles of the global store are
  not affected, and all the invariants hold again.
\<close>

theorem gc_keeps_exactly_the_reachable:
  assumes "handle_inv st" "heap_inv st" "refs_valid st" "\<not> frozen st" "gc_locks st = 0"
  shows "\<exists>st'. GC st = Some st' \<and> handle_inv st' \<and> heap_inv st' \<and> refs_valid st' \<and> others st' = others st \<and>
    (\<forall>h. reachable st h \<longrightarrow> Deref st' h = Deref st h) \<and>
    (\<forall>h. Owned st h \<longrightarrow> \<not> reachable st h \<longrightarrow> Deref st' h = None) \<and>
    (\<forall>h. \<not> Owned st h \<longrightarrow> Deref st' h = Deref st h)"
  using assms by (rule GC_spec)

theorem gc_keeps_exactly_the_reachable_witness:
  "\<exists>st'. GC sample_store = Some st' \<and> Deref st' (Handle 5) = Deref sample_store (Handle 5) \<and>
     Deref sample_store (Handle 13) \<noteq> None \<and> Deref st' (Handle 13) = None"
proof -
  have run: "\<not> frozen sample_store" "gc_locks sample_store = 0" by (simp_all add: sample_store_def)
  have "reachable sample_store (Handle 5)"
    by (rule reachable.root)
      (simp_all add: sample_store_def IsNil_def Handle_nil_def tag_def kTagMask_def kLocalTag_def)
  moreover have "\<not> reachable sample_store (Handle 13)" using sample_reachable [of "Handle 13"] by auto
  moreover have "Owned sample_store (Handle 13)"
    by (simp add: Owned_def sample_store_def tag_def kTagMask_def kLocalTag_def)
  moreover have "Deref sample_store (Handle 13) \<noteq> None"
    by (simp add: Deref_def pool_deref_def pool_address_def sample_store_def IsRef_def kNumber_def IsNil_def
        Handle_nil_def pool_def kPoolMask_def kGlobalTag_def idx_def)
  ultimately show ?thesis
    using gc_keeps_exactly_the_reachable [OF sample_handle_inv sample_heap_inv sample_refs_valid run] by blast
qed

end
