(* ===== verification/Frame_Symbols.thy ===== *)
theory Frame_Symbols
  imports Frame_Store
begin

text \<open>
  The symbol table of the frame store (\<^verbatim>\<open>sling/frame/store.cc\<close>) and the operations that bind
  frames to symbols: hashing of names, lookup along the bucket chains, insertion with resizing
  of the table, proxies, \<^verbatim>\<open>AllocateFrame\<close> with its id slots, \<^verbatim>\<open>UpdateFrame\<close>, \<^verbatim>\<open>Unbind\<close>,
  \<^verbatim>\<open>ReplaceProxy\<close> and \<^verbatim>\<open>ReplaceHandle\<close>. The walks along chains are partial functions: on a
  cyclic chain the code does not return. A failing \<^verbatim>\<open>DCHECK\<close> has no result, like a failing
  \<^verbatim>\<open>CHECK\<close>.
\<close>

section \<open>Objects of both pools\<close>

text \<open>The handles of the global store as its own operations see them.\<close>

definition global_deref :: "Pool \<Rightarrow> Handle \<Rightarrow> Datum option" where
  "global_deref g h = (if \<not> IsGlobalRef h \<or> IsNil h then None else pool_deref g h)"

text \<open>Changing an object through its handle, whichever store holds it.\<close>

definition update_object :: "Handle \<Rightarrow> (Datum \<Rightarrow> Datum) \<Rightarrow> Store \<Rightarrow> Store option" where
  "update_object h f st =
     (if \<not> IsRef h \<or> IsNil h then None
      else if Owned st h then modify h f st
      else do {
        g \<leftarrow> globals st;
        a \<leftarrow> pool_address g h;
        Some (st\<lparr>globals := Some (put_object a (f (memory g ! a)) g)\<rparr>)
      })"

section \<open>Lookup\<close>

text \<open>The 64-bit hash is cut to an \<^verbatim>\<open>int\<close> before it becomes an integer handle.\<close>

definition Store_Hash :: "byte list \<Rightarrow> Handle option" where
  "Store_Hash str = map_option (\<lambda>h. Handle_Integer (sint (ucast h :: uint32))) (CityHash64 str)"

partial_function (option) find_chain ::
    "(Handle \<Rightarrow> Datum option) \<Rightarrow> byte list \<Rightarrow> Handle \<Rightarrow> Handle \<Rightarrow> Handle option" where
  "find_chain deref name hash h =
     (if IsNil h then Some Handle_nil
      else case deref h of
        None \<Rightarrow> None
      | Some d \<Rightarrow>
          (case d_body d of
             SymbolBody n v hs s \<Rightarrow>
               if hs = hash \<and> s = name then Some h else find_chain deref name hash n
           | _ \<Rightarrow> None))"

declare find_chain.simps [code]

definition find_symbol ::
    "(Handle \<Rightarrow> Datum option) \<Rightarrow> Handle \<Rightarrow> nat \<Rightarrow> byte list \<Rightarrow> Handle \<Rightarrow> Handle option" where
  "find_symbol deref table n name hash =
     (if n > 0
      then case deref table of
        Some d \<Rightarrow>
          (case d_body d of
             ArrayBody es \<Rightarrow>
               if bucket (length es) hash < length es
               then find_chain deref name hash (es ! bucket (length es) hash)
               else None
           | _ \<Rightarrow> None)
      | None \<Rightarrow> None
      else Some Handle_nil)"

definition FindSymbol :: "byte list \<Rightarrow> Handle \<Rightarrow> Store \<Rightarrow> Handle option" where
  "FindSymbol name hash st = find_symbol (Deref st) (symbols st) (num_symbols st) name hash"

definition FindGlobalSymbol :: "byte list \<Rightarrow> Handle \<Rightarrow> Pool \<Rightarrow> Handle option" where
  "FindGlobalSymbol name hash g = find_symbol (global_deref g) (symbols g) (num_symbols g) name hash"

definition ExistingSymbol :: "byte list \<Rightarrow> Store \<Rightarrow> Handle option" where
  "ExistingSymbol name st = do {
     hash \<leftarrow> Store_Hash name;
     h \<leftarrow> FindSymbol name hash st;
     if \<not> IsNil h then Some h
     else case globals st of
            Some g \<Rightarrow> FindGlobalSymbol name hash g
          | None \<Rightarrow> Some Handle_nil
   }"

definition LookupExisting :: "byte list \<Rightarrow> Store \<Rightarrow> Handle option" where
  "LookupExisting name st = do {
     symb \<leftarrow> ExistingSymbol name st;
     if IsNil symb then Some Handle_nil
     else map_option (\<lambda>d. sym_value (d_body d)) (GetSymbol st symb)
   }"

section \<open>Insertion\<close>

text \<open>\<^verbatim>\<open>MapDatum::insert\<close> on the buckets of a map.\<close>

definition map_insert :: "Handle list \<Rightarrow> Handle \<Rightarrow> Store \<Rightarrow> (Handle list \<times> Store) option" where
  "map_insert es symb st = do {
     d \<leftarrow> GetSymbol st symb;
     let b = bucket (length es) (sym_hash (d_body d));
     if b < length es
     then do {
       st \<leftarrow> update_object symb (set_next (es ! b)) st;
       Some (es[b := d_self d], st)
     }
     else None
   }"

text \<open>The symbols of a bucket up to the first one in a frozen heap.\<close>

partial_function (option) move_chain ::
    "Handle list \<Rightarrow> Handle \<Rightarrow> Store \<Rightarrow> (Handle list \<times> Handle \<times> Store) option" where
  "move_chain es h st =
     (if IsNil h then Some (es, h, st)
      else do {
        d \<leftarrow> GetSymbol st h;
        if d_marked d then Some (es, h, st)
        else do {
          (es, st) \<leftarrow> map_insert es h st;
          move_chain es (sym_next (d_body d)) st
        }
      })"

declare move_chain.simps [code]

text \<open>The last symbol before which a frozen symbol cannot be inserted.\<close>

partial_function (option) last_unfrozen :: "Handle \<Rightarrow> Store \<Rightarrow> Handle option" where
  "last_unfrozen prev st = do {
     d \<leftarrow> GetSymbol st prev;
     if \<not> d_marked d \<and> \<not> IsNil (sym_next (d_body d))
     then last_unfrozen (sym_next (d_body d)) st
     else Some prev
   }"

declare last_unfrozen.simps [code]

definition insert_frozen :: "Handle list \<Rightarrow> Handle \<Rightarrow> Store \<Rightarrow> (Handle list \<times> Store) option" where
  "insert_frozen es symb st = do {
     d \<leftarrow> GetSymbol st symb;
     let b = bucket (length es) (sym_hash (d_body d));
     if \<not> b < length es then None
     else if IsNil (es ! b)
     then do { st \<leftarrow> update_object symb (set_next Handle_nil) st; Some (es[b := d_self d], st) }
     else do {
       head \<leftarrow> GetSymbol st (es ! b);
       if d_marked head
       then do { st \<leftarrow> update_object symb (set_next (es ! b)) st; Some (es[b := d_self d], st) }
       else do {
         prev \<leftarrow> last_unfrozen (es ! b) st;
         p \<leftarrow> GetSymbol st prev;
         st \<leftarrow> update_object symb (set_next (sym_next (d_body p))) st;
         st \<leftarrow> update_object prev (set_next (d_self d)) st;
         Some (es, st)
       }
     }
   }"

partial_function (option) move_frozen ::
    "Handle list \<Rightarrow> Handle \<Rightarrow> Store \<Rightarrow> (Handle list \<times> Store) option" where
  "move_frozen es h st =
     (if IsNil h then Some (es, st)
      else do {
        d \<leftarrow> GetSymbol st h;
        (es, st) \<leftarrow> (if \<not> d_marked d then map_insert es h st else insert_frozen es h st);
        move_frozen es (sym_next (d_body d)) st
      })"

declare move_frozen.simps [code]

fun move_buckets :: "Handle list \<Rightarrow> Handle list \<Rightarrow> Store \<Rightarrow> (Handle list \<times> Store) option" where
  "move_buckets es [] st = Some (es, st)"
| "move_buckets es (h # hs) st = do {
     (es, h, st) \<leftarrow> move_chain es h st;
     (es, st) \<leftarrow> move_frozen es h st;
     move_buckets es hs st
   }"

definition ResizeSymbolTable :: "Store \<Rightarrow> Store option" where
  "ResizeSymbolTable st = do {
     let n = (if num_buckets st = 1 then map_buckets (options st) else num_buckets st * 2);
     let st = st\<lparr>num_buckets := n\<rparr>;
     (a, st) \<leftarrow> AllocateDatum (ArrayBody (replicate n Handle_nil)) st;
     old \<leftarrow> GetArray st (symbols st);
     (es, st) \<leftarrow> move_buckets (replicate n Handle_nil) old st;
     Replace (symbols st) a (put_object a (set_body (ArrayBody es) (memory st ! a)) st)
   }"

definition InsertSymbol :: "Handle \<Rightarrow> Store \<Rightarrow> Store option" where
  "InsertSymbol symb st = do {
     es \<leftarrow> GetArray st (symbols st);
     (es, st) \<leftarrow> map_insert es symb st;
     st \<leftarrow> modify (symbols st) (set_body (ArrayBody es)) st;
     let st = st\<lparr>num_symbols := num_symbols st + 1\<rparr>;
     if num_symbols st > num_buckets st \<and> num_buckets st < kMapSizeLimit div 2
     then ResizeSymbolTable st
     else Some st
   }"

definition AllocateSymbol :: "byte list \<Rightarrow> Handle \<Rightarrow> Store \<Rightarrow> (Handle \<times> Store) option" where
  "AllocateSymbol name hash st = do {
     (symb, st) \<leftarrow> Allocate (SymbolBody Handle_nil Handle_nil hash name) st;
     st \<leftarrow> InsertSymbol symb st;
     Some (symb, st)
   }"

definition Store_Symbol :: "byte list \<Rightarrow> Store \<Rightarrow> (Handle \<times> Store) option" where
  "Store_Symbol name st = do {
     hash \<leftarrow> Store_Hash name;
     h \<leftarrow> FindSymbol name hash st;
     if \<not> IsNil h then Some (h, st)
     else do {
       h \<leftarrow> (case globals st of
              Some g \<Rightarrow> FindGlobalSymbol name hash g
            | None \<Rightarrow> Some Handle_nil);
       if \<not> IsNil h then Some (h, st)
       else if frozen st then Some (Handle_nil, st)
       else AllocateSymbol name hash st
     }
   }"

section \<open>Proxies\<close>

definition AllocateProxy :: "Handle \<Rightarrow> Store \<Rightarrow> (Handle \<times> Store) option" where
  "AllocateProxy symbol st = do {
     d \<leftarrow> GetSymbol st symbol;
     if IsNil (sym_value (d_body d))
     then Allocate (FrameBody True True [(Handle_id, symbol)]) st
     else None
   }"

text \<open>
  \<^verbatim>\<open>Lookup\<close> only tests whether this store is frozen: an unbound symbol of the global store
  is bound to the local proxy.
\<close>

definition Store_Lookup :: "byte list \<Rightarrow> Store \<Rightarrow> (Handle \<times> Store) option" where
  "Store_Lookup name st = do {
     (symb, st) \<leftarrow> Store_Symbol name st;
     if IsNil symb then Some (Handle_nil, st)
     else do {
       d \<leftarrow> GetSymbol st symb;
       if \<not> IsNil (sym_value (d_body d)) then Some (sym_value (d_body d), st)
       else if frozen st then Some (Handle_nil, st)
       else do {
         (proxy, st) \<leftarrow> AllocateProxy symb st;
         st \<leftarrow> update_object symb (set_value proxy) st;
         Some (proxy, st)
       }
     }
   }"

definition LocalSymbol :: "Datum \<Rightarrow> Store \<Rightarrow> (Handle \<times> Store) option" where
  "LocalSymbol d st =
     (if Owned st (d_self d) then Some (d_self d, st)
      else do {
        h \<leftarrow> FindSymbol (sym_name (d_body d)) (sym_hash (d_body d)) st;
        if \<not> IsNil h then Some (h, st)
        else AllocateSymbol (sym_name (d_body d)) (sym_hash (d_body d)) st
      })"

section \<open>Replacing objects and handles\<close>

text \<open>The handles of the proxy and the frame change places and the proxy is cleared.\<close>

definition ReplaceProxy :: "Handle \<Rightarrow> Handle \<Rightarrow> Store \<Rightarrow> Store option" where
  "ReplaceProxy proxy frame st =
     (if Owned st proxy \<and> Owned st frame \<and> \<not> IsNil proxy \<and> \<not> IsNil frame
      then do {
        p \<leftarrow> pool_address st proxy;
        f \<leftarrow> pool_address st frame;
        case d_body (memory st ! p) of
          FrameBody True public _ \<Rightarrow>
            (let st = st\<lparr>handles := (handles st)[unat (idx proxy) := Object f, unat (idx frame) := Object p]\<rparr>;
                 st = put_object p \<lparr>d_self = frame, d_marked = d_marked (memory st ! p),
                        d_body = FrameBody False public [(Handle_nil, Handle_nil)]\<rparr> st
             in Some (put_object f ((memory st ! f)\<lparr>d_self := proxy\<rparr>) st))
        | _ \<Rightarrow> None
      }
      else None)"

definition replace_handle :: "Handle \<Rightarrow> Handle \<Rightarrow> Handle \<Rightarrow> Handle" where
  "replace_handle old new h = (if h = old then new else h)"

definition handle_bytes :: "Handle \<Rightarrow> byte list" where
  "handle_bytes h =
     [ucast (bits h), ucast (drop_bit 8 (bits h)), ucast (drop_bit 16 (bits h)), ucast (drop_bit 24 (bits h))]"

text \<open>
  \<^verbatim>\<open>ReplaceHandle\<close> scans the whole payload of a symbol, its name included, word by word. The
  word that holds the end of a name also holds padding; it is taken not to match.
\<close>

fun replace_name :: "Handle \<Rightarrow> Handle \<Rightarrow> byte list \<Rightarrow> byte list" where
  "replace_name old new (a # b # c # d # s) =
     (if [a, b, c, d] = handle_bytes old then handle_bytes new else [a, b, c, d]) @ replace_name old new s"
| "replace_name old new s = s"

fun replace_body :: "Handle \<Rightarrow> Handle \<Rightarrow> body \<Rightarrow> body" where
  "replace_body old new (StringBody s) = StringBody s"
| "replace_body old new (QStringBody s q) = QStringBody s (replace_handle old new q)"
| "replace_body old new (SymbolBody n v h s) =
     SymbolBody (replace_handle old new n) (replace_handle old new v) (replace_handle old new h)
       (replace_name old new s)"
| "replace_body old new (ArrayBody es) = ArrayBody (map (replace_handle old new) es)"
| "replace_body old new (FrameBody proxy public slots) =
     FrameBody proxy public (map (\<lambda>(n, v). (replace_handle old new n, replace_handle old new v)) slots)"
| "replace_body old new (Remainder info ws) = Remainder info ws"

fun replace_objects :: "Handle \<Rightarrow> Handle \<Rightarrow> nat list \<Rightarrow> Store \<Rightarrow> Store" where
  "replace_objects old new [] st = st"
| "replace_objects old new (a # rest) st =
     (let d = memory st ! a
      in replace_objects old new rest
           (if invalid d then st else put_object a (set_body (replace_body old new (d_body d)) d) st))"

definition ReplaceHandle :: "Handle \<Rightarrow> Handle \<Rightarrow> Store \<Rightarrow> Store" where
  "ReplaceHandle old new st =
     (let st = replace_objects old new (concat (map h_objects (heaps st))) st
      in st\<lparr>roots := map (replace_handle old new) (roots st),
            externals := map (map (replace_handle old new)) (externals st)\<rparr>)"

section \<open>Frames with ids\<close>

text \<open>The symbols in the id slots of the frame lose their value.\<close>

fun unbind_slots :: "Handle \<Rightarrow> slot list \<Rightarrow> Store \<Rightarrow> Store option" where
  "unbind_slots h [] st = Some st"
| "unbind_slots h ((n, v) # slots) st =
     (if n = Handle_id
      then do {
        d \<leftarrow> GetSymbol st v;
        if sym_value (d_body d) = h
        then do { st \<leftarrow> update_object v (set_value Handle_nil) st; unbind_slots h slots st }
        else None
      }
      else unbind_slots h slots st)"

definition Unbind :: "Handle \<Rightarrow> Store \<Rightarrow> Store option" where
  "Unbind h st = do { (_, _, slots) \<leftarrow> GetFrame st h; unbind_slots h slots st }"

text \<open>
  The first loop of \<^verbatim>\<open>AllocateFrame\<close> over the positions \<open>s\<close>: the values of id slots become
  local symbols, the slots are moved to the front, of which \<open>ids\<close> are taken, and a bound symbol
  gives the handle of the new frame.
\<close>

definition id_symbol :: "Handle \<Rightarrow> Store \<Rightarrow> (Handle \<times> Handle \<times> Store) option" where
  "id_symbol val st = do {
     d \<leftarrow> Deref st val;
     symb \<leftarrow> (case d_body d of
              SymbolBody _ _ _ _ \<Rightarrow> Some (Some d)
            | FrameBody True _ slots \<Rightarrow> map_option Some (GetSymbol st (snd (hd slots)))
            | _ \<Rightarrow> Some None);
     case symb of
       None \<Rightarrow> Some (val, Handle_nil, st)
     | Some d \<Rightarrow> do {
         (h, st) \<leftarrow> LocalSymbol d st;
         s \<leftarrow> GetSymbol st h;
         Some (d_self s, sym_value (d_body s), st)
       }
   }"

fun id_loop :: "nat list \<Rightarrow> slot list \<Rightarrow> nat \<Rightarrow> Handle \<Rightarrow> Store \<Rightarrow> (slot list \<times> nat \<times> Handle \<times> Store) option" where
  "id_loop [] slots ids handle st = Some (slots, ids, handle, st)"
| "id_loop (s # ss) slots ids handle st =
     (if fst (slots ! s) = Handle_id
      then if IsNil (snd (slots ! s)) then None
           else do {
             (val, id, st) \<leftarrow> id_symbol (snd (slots ! s)) st;
             let handle = (if IsNil handle \<and> \<not> IsNil id then id else handle);
             let slots = slots[s := (Handle_id, val)];
             let slots = slots[s := slots ! ids, ids := slots ! s];
             id_loop ss slots (ids + 1) handle st
           }
      else id_loop ss slots ids handle st)"

definition add_public :: "bool \<Rightarrow> Datum \<Rightarrow> Datum" where
  "add_public flag d =
     (case d_body d of
        FrameBody proxy public slots \<Rightarrow> d\<lparr>d_body := FrameBody proxy (public \<or> flag) slots\<rparr>
      | _ \<Rightarrow> d)"

text \<open>The second loop: every id slot binds its symbol to the frame.\<close>

fun bind_loop :: "Handle \<Rightarrow> nat list \<Rightarrow> nat \<Rightarrow> Store \<Rightarrow> Store option" where
  "bind_loop handle [] ids st = (if ids = 0 then Some st else None)"
| "bind_loop handle (i # is) ids st =
     (if ids = 0 then Some st
      else do {
        (_, _, slots) \<leftarrow> GetFrame st handle;
        if \<not> i < length slots then None
        else if fst (slots ! i) \<noteq> Handle_id then bind_loop handle is ids st
        else do {
          let val = snd (slots ! i);
          d \<leftarrow> Deref st val;
          case d_body d of
            SymbolBody _ v _ _ \<Rightarrow>
              if (if symbol_rebinding (options st) then \<not> d_marked d else IsNil v) \<and>
                 tag handle = tag (d_self d)
              then do {
                st \<leftarrow> update_object val (set_value handle) st;
                st \<leftarrow> modify handle (add_public True) st;
                bind_loop handle is (ids - 1) st
              }
              else None
          | FrameBody True public _ \<Rightarrow>
              if val \<noteq> handle \<and> tag handle = tag val
              then do {
                st \<leftarrow> modify handle (add_public public) st;
                bind_loop handle is (ids - 1) (ReplaceHandle val handle st)
              }
              else None
          | _ \<Rightarrow> None
        }
      })"

definition AllocateFrame :: "slot list \<Rightarrow> Handle \<Rightarrow> Store \<Rightarrow> (Handle \<times> Store) option" where
  "AllocateFrame slots original st = do {
     (slots, ids, handle, st) \<leftarrow> id_loop [0 ..< length slots] slots 0 original st;
     (a, st) \<leftarrow> AllocateDatum (FrameBody False False slots) st;
     (handle, st) \<leftarrow>
       (if IsNil handle then AllocateHandle a st
        else if Owned st handle
        then do { st \<leftarrow> Unbind handle st; st \<leftarrow> Replace handle a st; Some (handle, st) }
        else None);
     st \<leftarrow> bind_loop handle [0 ..< length slots] ids st;
     Some (handle, st)
   }"

text \<open>\<^verbatim>\<open>UpdateFrame\<close> stores the new slots one by one and binds the symbols of the id slots.\<close>

fun update_loop :: "Handle \<Rightarrow> nat \<Rightarrow> slot list \<Rightarrow> Store \<Rightarrow> Store option" where
  "update_loop h i [] st = Some st"
| "update_loop h i ((n, v) # slots) st = do {
     (proxy, public, old) \<leftarrow> GetFrame st h;
     st \<leftarrow> modify h (set_body (FrameBody proxy public (old[i := (n, v)]))) st;
     if n = Handle_id
     then do {
       d \<leftarrow> GetSymbol st v;
       if (symbol_rebinding (options st) \<longrightarrow> \<not> d_marked d) \<and> tag h = tag (d_self d)
       then do {
         st \<leftarrow> update_object v (set_value h) st;
         st \<leftarrow> modify h (add_public True) st;
         update_loop h (i + 1) slots st
       }
       else None
     }
     else update_loop h (i + 1) slots st
   }"

definition UpdateFrame :: "Handle \<Rightarrow> slot list \<Rightarrow> Store \<Rightarrow> Store option" where
  "UpdateFrame h slots st =
     (if Owned st h
      then do {
        (_, public, old) \<leftarrow> GetFrame st h;
        if length slots = length old \<and> \<not> public then update_loop h 0 slots st else None
      }
      else None)"

end
