(* ===== verification/Frame_Compare.thy ===== *)
theory Frame_Compare
  imports Frame_Symbols
begin

text \<open>
  The operations of the frame store that compare and inspect objects: \<^verbatim>\<open>Equal\<close>, \<^verbatim>\<open>Fingerprint\<close>,
  \<^verbatim>\<open>Resolve\<close>, \<^verbatim>\<open>GetText\<close>, \<^verbatim>\<open>IsPublic\<close>, \<^verbatim>\<open>SymbolName\<close>, \<^verbatim>\<open>FrameId\<close>, \<^verbatim>\<open>IsValidReference\<close>,
  \<^verbatim>\<open>ForAll\<close>. The recursions of \<^verbatim>\<open>Equal\<close> and \<^verbatim>\<open>Fingerprint\<close> run depth first over the handles
  of an object and do not return on cycles: they are written with the list of the handles that
  remain, in the order of the recursion. The main result is that objects that compare equal
  have the same fingerprint.
\<close>

section \<open>Inspection\<close>

definition GetText :: "Store \<Rightarrow> Handle \<Rightarrow> byte list option" where
  "GetText st h =
     (if \<not> IsRef h \<or> IsNil h then Some []
      else do {
        d \<leftarrow> Deref st h;
        case d_body d of
          StringBody s \<Rightarrow> Some s
        | QStringBody s _ \<Rightarrow> Some s
        | _ \<Rightarrow> Some []
      })"

definition IsPublic :: "Store \<Rightarrow> Handle \<Rightarrow> bool option" where
  "IsPublic st h =
     (if \<not> IsRef h \<or> IsNil h then Some False
      else do {
        d \<leftarrow> Deref st h;
        case d_body d of FrameBody _ public _ \<Rightarrow> Some public | _ \<Rightarrow> Some False
      })"

partial_function (option) Resolve :: "Store \<Rightarrow> Handle \<Rightarrow> Handle option" where
  "Resolve st h =
     (if \<not> IsRef h \<or> IsNil h then Some h
      else do {
        d \<leftarrow> Deref st h;
        case d_body d of
          FrameBody _ public slots \<Rightarrow>
            if public then Some h
            else if frame_get slots Handle_is = Handle_nil then Some h
            else Resolve st (frame_get slots Handle_is)
        | _ \<Rightarrow> Some h
      })"

declare Resolve.simps [code]

definition SymbolName :: "Store \<Rightarrow> Handle \<Rightarrow> byte list option" where
  "SymbolName st h =
     (if \<not> IsRef h \<or> IsNil h then Some []
      else do {
        d \<leftarrow> Deref st h;
        case d_body d of SymbolBody _ _ _ s \<Rightarrow> Some s | _ \<Rightarrow> Some []
      })"

definition FrameId :: "Store \<Rightarrow> Handle \<Rightarrow> byte list option" where
  "FrameId st h =
     (if \<not> IsRef h \<or> IsNil h then Some []
      else do {
        d \<leftarrow> Deref st h;
        case d_body d of
          FrameBody _ _ slots \<Rightarrow> SymbolName st (frame_get slots Handle_id)
        | _ \<Rightarrow> Some []
      })"

text \<open>An element of the free list points into the table or, the last one, nowhere.\<close>

definition IsValidReference :: "Store \<Rightarrow> Handle \<Rightarrow> bool" where
  "IsValidReference st h =
     (if IsNil h then True
      else if \<not> IsRef h then False
      else if globals st = None \<and> \<not> IsGlobalRef h then False
      else let table = (if IsGlobalRef h then case globals st of None \<Rightarrow> handles st | Some g \<Rightarrow> handles g
                        else handles st)
           in if \<not> unat (idx h) < length table then False
              else case table ! unat (idx h) of
                     NullRef \<Rightarrow> False
                   | FreeRef _ \<Rightarrow> False
                   | Object _ \<Rightarrow> True
                   | Trap \<Rightarrow> True)"

partial_function (option) chain_values :: "Store \<Rightarrow> Handle \<Rightarrow> Handle list \<Rightarrow> Handle list option" where
  "chain_values st h acc =
     (if IsNil h then Some acc
      else do {
        d \<leftarrow> GetSymbol st h;
        chain_values st (sym_next (d_body d))
          (if IsNil (sym_value (d_body d)) then acc else acc @ [sym_value (d_body d)])
      })"

declare chain_values.simps [code]

fun bucket_values :: "Store \<Rightarrow> Handle list \<Rightarrow> Handle list \<Rightarrow> Handle list option" where
  "bucket_values st [] acc = Some acc"
| "bucket_values st (h # hs) acc = do { acc \<leftarrow> chain_values st h acc; bucket_values st hs acc }"

text \<open>The handles that \<^verbatim>\<open>ForAll\<close> passes to its callback, in order.\<close>

definition ForAll :: "Store \<Rightarrow> Handle list option" where
  "ForAll st = do { es \<leftarrow> GetArray st (symbols st); bucket_values st es [] }"

section \<open>Comparison\<close>

text \<open>The payload of an object as \<^verbatim>\<open>StringDatum::equals\<close> compares it, the qualifier included.\<close>

fun string_bytes :: "body \<Rightarrow> byte list" where
  "string_bytes (StringBody s) = s"
| "string_bytes (QStringBody s q) = s @ handle_bytes q"
| "string_bytes (Remainder _ ws) = concat (map handle_bytes ws)"
| "string_bytes _ = []"

text \<open>
  One level of \<^verbatim>\<open>Equal\<close>: the answer, or the pairs of handles that have to be equal. They are
  compared by value, whatever \<open>byref\<close> is. A remainder is an invalid object without a handle.
\<close>

datatype comparison = Answer bool | Elements "(Handle \<times> Handle) list"

definition compare_objects :: "body \<Rightarrow> body \<Rightarrow> bool \<Rightarrow> comparison" where
  "compare_objects x y byref =
     (if body_type x \<noteq> body_type y \<or> body_size x \<noteq> body_size y then Answer False
      else case (x, y) of
        (FrameBody _ xpublic xslots, FrameBody _ ypublic yslots) \<Rightarrow>
          if byref then Answer False
          else if xpublic \<or> ypublic then Answer False
          else Elements (concat (map2 (\<lambda>(xn, xv) (yn, yv). [(xn, yn), (xv, yv)]) xslots yslots))
      | (StringBody _, StringBody _) \<Rightarrow> Answer (string_bytes x = string_bytes y)
      | (QStringBody _ _, QStringBody _ _) \<Rightarrow> Answer (string_bytes x = string_bytes y)
      | (ArrayBody xs, ArrayBody ys) \<Rightarrow> Elements (zip xs ys)
      | _ \<Rightarrow> Answer False)"

partial_function (option) equal_loop :: "Store \<Rightarrow> bool \<Rightarrow> (Handle \<times> Handle) list \<Rightarrow> bool option" where
  "equal_loop st byref ps =
     (case ps of
        [] \<Rightarrow> Some True
      | (x, y) # rest \<Rightarrow>
          if x = y then equal_loop st False rest
          else if IsNumber x \<or> IsNumber y \<or> IsNil x \<or> IsNil y then Some False
          else do {
            xd \<leftarrow> Deref st x;
            yd \<leftarrow> Deref st y;
            case compare_objects (d_body xd) (d_body yd) byref of
              Answer b \<Rightarrow> if b then equal_loop st False rest else Some False
            | Elements es \<Rightarrow> equal_loop st False (es @ rest)
          })"

declare equal_loop.simps [code]

definition Store_Equal :: "Store \<Rightarrow> Handle \<Rightarrow> Handle \<Rightarrow> bool \<Rightarrow> bool option" where
  "Store_Equal st x y byref = equal_loop st byref [(x, y)]"

section \<open>Fingerprints\<close>

definition FP_NUMBER :: uint64 where "FP_NUMBER = 0xd1ac3c3a168f9a23"
definition FP_STRING :: uint64 where "FP_STRING = 0xedbf08a562d55ca0"
definition FP_FRAME :: uint64 where "FP_FRAME = 0x07a535307e971126"
definition FP_SYMBOL :: uint64 where "FP_SYMBOL = 0x06c498392bf66124"
definition FP_ARRAY :: uint64 where "FP_ARRAY = 0x7e71d2f093c19cd1"
definition FP_NIL :: uint64 where "FP_NIL = 0xe958f32bf433420c"
definition FP_INVALID :: uint64 where "FP_INVALID = 0x159ba7c32c364f9b"

definition HashMix :: "uint64 \<Rightarrow> uint64 \<Rightarrow> uint64" where
  "HashMix fp1 fp2 = CityHash64Mix fp1 fp2"

text \<open>One level of \<^verbatim>\<open>Fingerprint\<close>: the fingerprint so far and the handles to mix into it.\<close>

definition mix_object ::
    "Store \<Rightarrow> bool \<Rightarrow> Handle \<Rightarrow> uint64 \<Rightarrow> (uint64 \<times> Handle list) option" where
  "mix_object st byref h seed =
     (if IsNumber h then Some (HashMix (HashMix seed FP_NUMBER) (ucast (bits h)), [])
      else if IsNil h then Some (HashMix seed FP_NIL, [])
      else do {
        d \<leftarrow> Deref st h;
        case d_body d of
          FrameBody _ public slots \<Rightarrow>
            if public
            then do {
              s \<leftarrow> GetSymbol st (frame_get slots Handle_id);
              Some (HashMix seed (ucast (bits (sym_hash (d_body s)))), [])
            }
            else if byref then Some (HashMix (HashMix seed FP_FRAME) (ucast (bits h)), [])
            else Some (HashMix seed FP_FRAME, concat (map (\<lambda>(n, v). [n, v]) slots))
        | StringBody s \<Rightarrow> map_option (\<lambda>fp. (fp, [])) (CityHash64WithSeeds s seed FP_STRING)
        | QStringBody s q \<Rightarrow> map_option (\<lambda>fp. (fp, [q])) (CityHash64WithSeeds s seed FP_STRING)
        | SymbolBody _ _ hash _ \<Rightarrow> Some (HashMix (HashMix seed FP_SYMBOL) (ucast (bits hash)), [])
        | ArrayBody es \<Rightarrow> Some (HashMix seed FP_ARRAY, es)
        | Remainder _ _ \<Rightarrow> Some (HashMix seed FP_INVALID, [])
      })"

partial_function (option) fingerprint_loop :: "Store \<Rightarrow> bool \<Rightarrow> Handle list \<Rightarrow> uint64 \<Rightarrow> uint64 option" where
  "fingerprint_loop st byref hs seed =
     (case hs of
        [] \<Rightarrow> Some seed
      | h # rest \<Rightarrow> do {
          (fp, es) \<leftarrow> mix_object st byref h seed;
          fingerprint_loop st byref (es @ rest) fp
        })"

declare fingerprint_loop.simps [code]

definition Fingerprint :: "Store \<Rightarrow> Handle \<Rightarrow> bool \<Rightarrow> uint64 \<Rightarrow> uint64 option" where
  "Fingerprint st h byref seed = fingerprint_loop st byref [h] seed"

definition FingerprintRange :: "Store \<Rightarrow> Handle list \<Rightarrow> uint64 option" where
  "FingerprintRange st hs = fingerprint_loop st True hs (HashMix 0 FP_ARRAY)"

text \<open>The elements of an array slice; a step that misses the end leaves the array.\<close>

partial_function (option) slice :: "Handle list \<Rightarrow> int \<Rightarrow> int \<Rightarrow> int \<Rightarrow> Handle list \<Rightarrow> Handle list option" where
  "slice es i e step acc =
     (if i = e then Some acc
      else if 0 \<le> i \<and> nat i < length es then slice es (i + step) e step (acc @ [es ! nat i])
      else None)"

declare slice.simps [code]

definition FingerprintSlice :: "Store \<Rightarrow> Handle list \<Rightarrow> int \<Rightarrow> int \<Rightarrow> int \<Rightarrow> uint64 option" where
  "FingerprintSlice st es b e step = do { hs \<leftarrow> slice es b e step []; FingerprintRange st hs }"

section \<open>Equal objects have equal fingerprints\<close>

lemma fingerprint_loop_Nil [simp]: "fingerprint_loop st byref [] seed = Some seed"
  by (subst fingerprint_loop.simps) simp

lemma fingerprint_loop_Cons:
  "fingerprint_loop st byref (h # rest) seed =
     Option.bind (mix_object st byref h seed) (\<lambda>(fp, es). fingerprint_loop st byref (es @ rest) fp)"
  by (subst fingerprint_loop.simps) simp

lemma fingerprint_loop_split:
  assumes "fingerprint_loop st byref zs seed = Some r"
  shows "fingerprint_loop st byref zs seed = Some r \<and> (\<forall>xs ys. zs = xs @ ys \<longrightarrow>
    (\<exists>s. fingerprint_loop st byref xs seed = Some s \<and> fingerprint_loop st byref ys s = Some r))"
  using assms
proof (induction rule: fingerprint_loop.raw_induct [rotated, consumes 1, case_names step])
  case (step loop st byref zs seed r)
  show ?case
  proof (cases zs)
    case Nil
    then show ?thesis using step(2) by simp
  next
    case (Cons h rest)
    obtain fp es where m: "mix_object st byref h seed = Some (fp, es)"
      and "loop st byref (es @ rest) fp = Some r"
      using step(2) Cons by (auto split: bind_splits)
    note IH = step(1) [OF this(2)]
    have all: "fingerprint_loop st byref zs seed = Some r" using IH m Cons by (simp add: fingerprint_loop_Cons)
    have "\<exists>s. fingerprint_loop st byref xs seed = Some s \<and> fingerprint_loop st byref ys s = Some r"
      if "zs = xs @ ys" for xs ys
    proof (cases xs)
      case Nil
      then show ?thesis using all that by simp
    next
      case (Cons h' xs')
      then have "es @ rest = (es @ xs') @ ys" "h' = h" using that \<open>zs = h # rest\<close> by simp_all
      then show ?thesis using IH m Cons by (simp add: fingerprint_loop_Cons)
    qed
    then show ?thesis using all by blast
  qed
qed

lemma fingerprint_loop_prefix:
  assumes "fingerprint_loop st byref xs seed = Some s"
  shows "fingerprint_loop st byref (xs @ ys) seed = fingerprint_loop st byref ys s"
  using assms
proof (induction arbitrary: ys rule: fingerprint_loop.raw_induct [rotated, consumes 1, case_names step])
  case (step loop st byref xs seed s)
  show ?case
  proof (cases xs)
    case Nil
    then show ?thesis using step(2) by simp
  next
    case (Cons h rest)
    obtain fp es where m: "mix_object st byref h seed = Some (fp, es)"
      and "loop st byref (es @ rest) fp = Some s"
      using step(2) Cons by (auto split: bind_splits)
    from step(1) [OF this(2)] show ?thesis using m Cons by (simp add: fingerprint_loop_Cons)
  qed
qed

lemma fingerprint_loop_append:
  "fingerprint_loop st byref (xs @ ys) seed =
     Option.bind (fingerprint_loop st byref xs seed) (fingerprint_loop st byref ys)"
proof (cases "fingerprint_loop st byref xs seed")
  case None
  then show ?thesis using fingerprint_loop_split [of st byref "xs @ ys" seed]
    by (cases "fingerprint_loop st byref (xs @ ys) seed") fastforce+
qed (simp add: fingerprint_loop_prefix)

lemma handle_bytes_inj: "handle_bytes g = handle_bytes h \<longleftrightarrow> g = h"
proof
  assume eq: "handle_bytes g = handle_bytes h"
  have "bit (bits g) n = bit (bits h) n" if n: "n < 32" for n
  proof -
    consider "n < 8" | "8 \<le> n \<and> n < 16" | "16 \<le> n \<and> n < 24" | "24 \<le> n \<and> n < 32" using n by linarith
    then show ?thesis
    proof cases
      case 1
      have "bit (ucast (bits g) :: byte) n = bit (ucast (bits h) :: byte) n" using eq by (simp add: handle_bytes_def)
      then show ?thesis using 1 by (simp add: bit_ucast_iff)
    next
      case 2
      have "bit (ucast (drop_bit 8 (bits g)) :: byte) (n - 8) = bit (ucast (drop_bit 8 (bits h)) :: byte) (n - 8)"
        using eq by (simp add: handle_bytes_def)
      moreover have "n - 8 < 8" using 2 by linarith
      ultimately show ?thesis using 2 by (simp add: bit_ucast_iff bit_drop_bit_eq)
    next
      case 3
      have "bit (ucast (drop_bit 16 (bits g)) :: byte) (n - 16) = bit (ucast (drop_bit 16 (bits h)) :: byte) (n - 16)"
        using eq by (simp add: handle_bytes_def)
      moreover have "n - 16 < 8" using 3 by linarith
      ultimately show ?thesis using 3 by (simp add: bit_ucast_iff bit_drop_bit_eq)
    next
      case 4
      have "bit (ucast (drop_bit 24 (bits g)) :: byte) (n - 24) = bit (ucast (drop_bit 24 (bits h)) :: byte) (n - 24)"
        using eq by (simp add: handle_bytes_def)
      moreover have "n - 24 < 8" using 4 by linarith
      ultimately show ?thesis using 4 by (simp add: bit_ucast_iff bit_drop_bit_eq)
    qed
  qed
  then have "bits g = bits h" by (intro bit_word_eqI) simp
  then show "g = h" by (simp add: Handle.expand)
qed simp

lemma slot_pairs:
  assumes "length xs = length ys"
  shows "map fst (concat (map2 (\<lambda>(xn, xv) (yn, yv). [(xn, yn), (xv, yv)]) xs ys)) = concat (map (\<lambda>(n, v). [n, v]) xs)"
    and "map snd (concat (map2 (\<lambda>(xn, xv) (yn, yv). [(xn, yn), (xv, yv)]) xs ys)) = concat (map (\<lambda>(n, v). [n, v]) ys)"
  using assms by (induction rule: list_induct2) auto

text \<open>Objects that agree on one level mix in the same way.\<close>

lemma compare_mix:
  assumes d: "Deref st x = Some xd" "Deref st y = Some yd"
    and ref: "\<not> IsNumber x" "\<not> IsNumber y" "\<not> IsNil x" "\<not> IsNil y"
  shows "compare_objects (d_body xd) (d_body yd) byref = Answer True \<Longrightarrow>
      mix_object st False x seed = mix_object st False y seed"
    and "compare_objects (d_body xd) (d_body yd) byref = Elements es \<Longrightarrow>
      \<exists>fp. mix_object st False x seed = Some (fp, map fst es) \<and> mix_object st False y seed = Some (fp, map snd es)"
  using assms
  by (auto simp: compare_objects_def mix_object_def slot_pairs handle_bytes_inj handle_bytes_def [THEN arg_cong [of _ _ length]]
      sizeof_Handle_def sizeof_Slot_def split: body.splits if_splits)

lemma equal_fingerprint_loop:
  assumes "equal_loop st byref ps = Some b"
  shows "b \<longrightarrow> (\<forall>seed. fingerprint_loop st False (map fst ps) seed = fingerprint_loop st False (map snd ps) seed)"
  using assms
proof (induction rule: equal_loop.raw_induct [rotated, consumes 1, case_names step])
  case (step loop st byref ps b)
  show ?case
  proof (cases ps)
    case Nil
    then show ?thesis by simp
  next
    case (Cons p rest)
    obtain x y where p: "p = (x, y)" by fastforce
    have congr: "fingerprint_loop st False (es @ map fst rest) fp = fingerprint_loop st False (es @ map snd rest) fp"
      if "loop st False rest = Some True" for es fp
      using step(1) [OF that] by (simp add: fingerprint_loop_append cong: bind_option_cong)
    show ?thesis
    proof (intro impI allI)
      fix seed
      assume b: "b"
      show "fingerprint_loop st False (map fst ps) seed = fingerprint_loop st False (map snd ps) seed"
      proof (cases "x = y")
        case True
        then have "loop st False rest = Some True" using step(2) Cons p b by simp
        from congr [OF this] show ?thesis using Cons p True by (simp add: fingerprint_loop_Cons)
      next
        case False
        then have ref: "\<not> IsNumber x" "\<not> IsNumber y" "\<not> IsNil x" "\<not> IsNil y"
          using step(2) Cons p b by (auto split: if_splits)
        obtain xd yd where d: "Deref st x = Some xd" "Deref st y = Some yd"
          using step(2) Cons p b False ref by (auto split: bind_splits)
        show ?thesis
        proof (cases "compare_objects (d_body xd) (d_body yd) byref")
          case (Answer a)
          then have "a" "loop st False rest = Some True"
            using step(2) Cons p b False ref d by (auto split: if_splits)
          then show ?thesis
            using congr compare_mix(1) [OF d ref, of byref seed] Answer Cons p by (simp add: fingerprint_loop_Cons)
        next
          case (Elements es)
          then have "loop st False (es @ rest) = Some True" using step(2) Cons p b False ref d by simp
          from step(1) [OF this] show ?thesis
            using compare_mix(2) [OF d ref Elements, of seed] Cons p by (auto simp: fingerprint_loop_Cons)
        qed
      qed
    qed
  qed
qed

lemma Equal_Fingerprint:
  "Store_Equal st x y byref = Some True \<Longrightarrow> Fingerprint st x False seed = Fingerprint st y False seed"
  using equal_fingerprint_loop [of st byref "[(x, y)]" True] by (simp add: Store_Equal_def Fingerprint_def)

section \<open>Properties\<close>

text \<open>Two strings with the same contents, and two arrays that hold one anonymous frame each.\<close>

definition twin_store :: Store where
  "twin_store = sample_store\<lparr>memory :=
     [\<lparr>d_self = Handle 1, d_marked = False, d_body = ArrayBody [Handle 5]\<rparr>,
      \<lparr>d_self = Handle 5, d_marked = False, d_body = FrameBody False False []\<rparr>,
      \<lparr>d_self = Handle 9, d_marked = False, d_body = ArrayBody [Handle 13]\<rparr>,
      \<lparr>d_self = Handle 13, d_marked = False, d_body = FrameBody False False []\<rparr>]\<rparr>"

text \<open>
  C11: Equal objects have equal fingerprints. Whenever \<^verbatim>\<open>Equal\<close> returns true for two handles,
  comparing by value or by reference, their fingerprints by value agree for every seed; on
  cyclic objects neither fingerprint returns.
\<close>

theorem equal_same_fingerprint:
  assumes "Store_Equal st x y byref = Some True"
  shows "Fingerprint st x False seed = Fingerprint st y False seed"
  using assms by (rule Equal_Fingerprint)

theorem equal_same_fingerprint_witness:
  "Handle 1 \<noteq> Handle 9 \<and> Fingerprint twin_store (Handle 1) False 7 = Fingerprint twin_store (Handle 9) False 7"
proof -
  have "Store_Equal twin_store (Handle 1) (Handle 9) False = Some True" by code_simp
  from equal_same_fingerprint [OF this] show ?thesis by simp
qed


end
