(* ===== verification/Frame_Lifecycle.thy ===== *)
theory Frame_Lifecycle
  imports Frame_Compare
begin

text \<open>
  The life of a frame store (\<^verbatim>\<open>sling/frame/store.cc\<close>): the constructors of global and local
  stores with the initial heap of standard symbols, freezing, the coalescing of equal strings
  and the separate heap for the symbol table.
\<close>

section \<open>Construction\<close>

text \<open>\<^verbatim>\<open>Store::Options::Options\<close>; the options of local stores are the same.\<close>

definition kDefaultOptions :: Options where
  "kDefaultOptions =
     \<lparr>initial_heap_size = 32 * 1024, maximum_heap_size = 128 * 2 ^ 20, initial_handles = 1024,
      map_buckets = 1024, string_buckets = 2 ^ 20, expansion_free_fraction = 20, symbol_rebinding = True\<rparr>"

text \<open>\<^verbatim>\<open>kInitialHeap\<close>: the frames and symbols for \<^verbatim>\<open>id\<close>, \<^verbatim>\<open>isa\<close>, \<^verbatim>\<open>is\<close> and \<^verbatim>\<open>name\<close>.\<close>

definition initial_frame :: "uint32 \<Rightarrow> uint32 \<Rightarrow> Datum" where
  "initial_frame self symb =
     \<lparr>d_self = Handle self, d_marked = False, d_body = FrameBody False True [(Handle 0x04, Handle symb)]\<rparr>"

definition initial_symbol :: "uint32 \<Rightarrow> uint32 \<Rightarrow> uint32 \<Rightarrow> byte list \<Rightarrow> Datum" where
  "initial_symbol self val hash s =
     \<lparr>d_self = Handle self, d_marked = False, d_body = SymbolBody Handle_nil (Handle val) (Handle hash) s\<rparr>"

definition kInitialHeap :: "Datum list" where
  "kInitialHeap =
     [initial_frame 0x04 0x14, initial_frame 0x08 0x18, initial_frame 0x0C 0x1C, initial_frame 0x10 0x20,
      initial_symbol 0x14 0x04 0x307A1C66 [0x69, 0x64],
      initial_symbol 0x18 0x08 0x6966506A [0x69, 0x73, 0x61],
      initial_symbol 0x1C 0x0C 0xC089FC02 [0x69, 0x73],
      initial_symbol 0x20 0x10 0x2C9346CE [0x6E, 0x61, 0x6D, 0x65]]"

definition kPristineSymbols :: nat where "kPristineSymbols = 4"
definition kPristineHandles :: nat where "kPristineHandles = 10"

text \<open>\<^verbatim>\<open>Space::add\<close>: the capacity after taking \<open>bytes\<close> of a region, doubled while too small.\<close>

definition region_add :: "nat \<Rightarrow> nat \<Rightarrow> nat \<Rightarrow> nat" where
  "region_add capacity used bytes =
     (if used + bytes > capacity
      then grow_size (if capacity = 0 then 1 else capacity) (used + bytes)
      else capacity)"

fun insert_symbols :: "Handle list \<Rightarrow> Store \<Rightarrow> Store option" where
  "insert_symbols [] st = Some st"
| "insert_symbols (h # hs) st = do { st \<leftarrow> InsertSymbol h st; insert_symbols hs st }"

definition initial_store :: "Options \<Rightarrow> Store" where
  "initial_store opts =
     (let n = length kInitialHeap;
          used = (\<Sum>d\<leftarrow>kInitialHeap. object_bytes (d_body d))
      in \<lparr>memory = kInitialHeap,
          heaps = [\<lparr>h_objects = [0 ..< n], h_capacity = region_add (initial_heap_size opts) 0 used, h_frozen = False\<rparr>],
          current_heap = 0,
          handles = Trap # map Object [0 ..< n],
          handles_capacity =
            foldl (\<lambda>c i. region_add c (i * sizeof_Reference) sizeof_Reference) (initial_handles opts) [0 ..< n + 1],
          free_handle = None, roots = [Handle_nil], externals = [], symbols = Handle_nil,
          num_symbols = 0, num_buckets = map_buckets opts, gc_locks = 0, gc_pending = False,
          num_gcs = 0, num_dead_handles = 0, frozen = False, options = opts,
          store_tag = kGlobalTag, globals = None\<rparr>)"

definition GlobalStore :: "Options \<Rightarrow> Store option" where
  "GlobalStore opts = do {
     let st = LockGC (initial_store opts);
     (h, st) \<leftarrow> AllocateArray (num_buckets st) st;
     let st = st\<lparr>symbols := h, roots := [h]\<rparr>;
     st \<leftarrow> insert_symbols (map d_self (filter (\<lambda>d. IsSymbol (d_body d)) kInitialHeap)) st;
     UnlockGC st
   }"

definition local_store :: "Pool \<Rightarrow> Options \<Rightarrow> Store" where
  "local_store g opts =
     \<lparr>memory = [], heaps = [\<lparr>h_objects = [], h_capacity = initial_heap_size opts, h_frozen = False\<rparr>],
      current_heap = 0, handles = [], handles_capacity = initial_handles opts,
      free_handle = None, roots = [Handle_nil], externals = [], symbols = Handle_nil,
      num_symbols = 0, num_buckets = 1, gc_locks = 0, gc_pending = False,
      num_gcs = 0, num_dead_handles = 0, frozen = False, options = opts,
      store_tag = kLocalTag, globals = Some g\<rparr>"

definition LocalStore :: "Store \<Rightarrow> Options \<Rightarrow> Store option" where
  "LocalStore g opts =
     (if frozen g
      then do {
        (h, st) \<leftarrow> AllocateArray 1 (local_store (Pool.truncate g) opts);
        Some (st\<lparr>symbols := h, roots := [h]\<rparr>)
      }
      else None)"

definition Pristine :: "Store \<Rightarrow> bool" where
  "Pristine st \<longleftrightarrow>
     globals st = None \<and> num_symbols st = kPristineSymbols \<and> length (handles st) = kPristineHandles"

section \<open>Freezing\<close>

text \<open>The elements of the free list become null.\<close>

partial_function (option) clear_free :: "nat option \<Rightarrow> Store \<Rightarrow> Store option" where
  "clear_free ref st =
     (case ref of
        None \<Rightarrow> Some (st\<lparr>free_handle := None\<rparr>)
      | Some i \<Rightarrow>
          if i < length (handles st)
          then case handles st ! i of
                 FreeRef n \<Rightarrow>
                   clear_free n (st\<lparr>handles := (handles st)[i := NullRef],
                                    num_dead_handles := num_dead_handles st + 1\<rparr>)
               | _ \<Rightarrow> None
          else None)"

declare clear_free.simps [code]

text \<open>
  The loop that removes null handles from the end of the table tests the address of the last
  element, which is never null: the table keeps its length. The symbol table is the handle of
  the root list itself and stays.
\<close>

definition Freeze :: "Store \<Rightarrow> Store option" where
  "Freeze st =
     (if frozen st then Some st
      else if globals st \<noteq> None then None
      else do {
        st \<leftarrow> (if gc_locks st = 0 then GC st else Some st);
        let st = st\<lparr>heaps := map (\<lambda>hp. hp\<lparr>h_capacity := heap_used st hp\<rparr>) (heaps st)\<rparr>;
        st \<leftarrow> clear_free (free_handle st) st;
        Some (st\<lparr>handles_capacity := length (handles st) * sizeof_Reference,
                 roots := take 1 (roots st), externals := [], frozen := True\<rparr>)
      })"

section \<open>Coalescing of strings\<close>

definition string_bucket :: "nat \<Rightarrow> body \<Rightarrow> nat option" where
  "string_bucket n b = map_option (\<lambda>h. unat h mod n) (CityHash64 (string_bytes b))"

text \<open>The first pass keeps the first string of each bucket.\<close>

fun cache_strings :: "nat \<Rightarrow> 'a Pool_scheme \<Rightarrow> nat list \<Rightarrow> (nat \<rightharpoonup> nat) \<Rightarrow> (nat \<rightharpoonup> nat) option" where
  "cache_strings n st [] cache = Some cache"
| "cache_strings n st (a # rest) cache =
     (let d = memory st ! a in
      if IsString (d_body d)
      then do {
        b \<leftarrow> string_bucket n (d_body d);
        cache_strings n st rest (if cache b = None then cache(b \<mapsto> a) else cache)
      }
      else cache_strings n st rest cache)"

definition same_string :: "body \<Rightarrow> body \<Rightarrow> bool" where
  "same_string x y \<longleftrightarrow>
     body_size x = body_size y \<and> body_type x = body_type y \<and> string_bytes x = string_bytes y"

text \<open>The handle that replaces a cell: that of the cached string with the same contents.\<close>

definition coalesce_cell :: "nat \<Rightarrow> (nat \<rightharpoonup> nat) \<Rightarrow> Store \<Rightarrow> Handle \<Rightarrow> Handle option" where
  "coalesce_cell n cache st h =
     (if IsNil h \<or> \<not> IsRef h then Some h
      else do {
        d \<leftarrow> Deref st h;
        if \<not> IsString (d_body d) then Some h
        else do {
          b \<leftarrow> string_bucket n (d_body d);
          i \<leftarrow> cache b;
          if Owned st h \<and> pool_address st h = Some i then Some h
          else if same_string (d_body d) (d_body (memory st ! i)) then Some (d_self (memory st ! i))
          else Some h
        }
      })"

fun map_cells :: "(Handle \<Rightarrow> Handle option) \<Rightarrow> Handle list \<Rightarrow> Handle list option" where
  "map_cells f [] = Some []"
| "map_cells f (h # hs) = do { h \<leftarrow> f h; hs \<leftarrow> map_cells f hs; Some (h # hs) }"

fun map_slots :: "(Handle \<Rightarrow> Handle option) \<Rightarrow> slot list \<Rightarrow> slot list option" where
  "map_slots f [] = Some []"
| "map_slots f ((n, v) # slots) = do {
     n \<leftarrow> f n; v \<leftarrow> f v; slots \<leftarrow> map_slots f slots; Some ((n, v) # slots) }"

fun coalesce_body :: "(Handle \<Rightarrow> Handle option) \<Rightarrow> body \<Rightarrow> body option" where
  "coalesce_body f (FrameBody proxy public slots) = map_option (FrameBody proxy public) (map_slots f slots)"
| "coalesce_body f (ArrayBody es) = map_option ArrayBody (map_cells f es)"
| "coalesce_body f (Remainder info ws) =
     (if word_type info = FRAME \<or> word_type info = ARRAY
      then map_option (Remainder info) (map_cells f ws) else Some (Remainder info ws))"
| "coalesce_body f b = Some b"

fun coalesce_objects :: "nat \<Rightarrow> (nat \<rightharpoonup> nat) \<Rightarrow> nat list \<Rightarrow> Store \<Rightarrow> Store option" where
  "coalesce_objects n cache [] st = Some st"
| "coalesce_objects n cache (a # rest) st = do {
     b \<leftarrow> coalesce_body (coalesce_cell n cache st) (d_body (memory st ! a));
     coalesce_objects n cache rest (put_object a (set_body b (memory st ! a)) st)
   }"

text \<open>
  Both passes visit every object, also the invalid ones. In a local store a cell may hold a
  string of the global store, whose bucket need not have a cached string: the code then
  compares with the null pointer.
\<close>

definition CoalesceStrings :: "nat \<Rightarrow> Store \<Rightarrow> Store option" where
  "CoalesceStrings n st =
     (if frozen st then Some st
      else do {
        let objects = concat (map h_objects (heaps st));
        cache \<leftarrow> cache_strings n st objects Map.empty;
        coalesce_objects n cache objects st
      })"

section \<open>The heap of the symbol table\<close>

definition GetSymbolHeap :: "Store \<Rightarrow> nat option" where
  "GetSymbolHeap st =
     (case pool_address st (symbols st) of
        None \<Rightarrow> None
      | Some a \<Rightarrow> find (\<lambda>k. h_objects (heaps st ! k) = [a]) [0 ..< length (heaps st)])"

definition AllocateSymbolHeap :: "Store \<Rightarrow> Store option" where
  "AllocateSymbolHeap st =
     (if GetSymbolHeap st \<noteq> None then Some st
      else do {
        a \<leftarrow> pool_address st (symbols st);
        let d = memory st ! a;
        let b = length (memory st);
        let hp = \<lparr>h_objects = [b], h_capacity = object_bytes (d_body d), h_frozen = False\<rparr>;
        Replace (symbols st) b (st\<lparr>memory := memory st @ [d], heaps := heaps st @ [hp]\<rparr>)
      })"

section \<open>Properties\<close>

text \<open>
  The table of the initial heap agrees with the code. The hash values it holds are the ones
  that hashing the names computes, and every symbol is bound to the frame whose id it is.
\<close>

theorem initial_heap_consistent:
  "list_all (\<lambda>d. case d_body d of
       SymbolBody n v hash s \<Rightarrow>
         Store_Hash s = Some hash \<and> n = Handle_nil \<and>
         Deref (initial_store kDefaultOptions) v = Some (initial_frame (bits v) (bits (d_self d)))
     | _ \<Rightarrow> True) kInitialHeap"
proof -
  have h: "Store_Hash [0x69, 0x64] = Some (Handle 0x307A1C66)"
    "Store_Hash [0x69, 0x73, 0x61] = Some (Handle 0x6966506A)"
    "Store_Hash [0x69, 0x73] = Some (Handle 0xC089FC02)"
    "Store_Hash [0x6E, 0x61, 0x6D, 0x65] = Some (Handle 0x2C9346CE)"
    by code_simp+
  have d: "Deref (initial_store kDefaultOptions) (Handle 4) = Some (initial_frame 0x04 0x14)"
    "Deref (initial_store kDefaultOptions) (Handle 8) = Some (initial_frame 0x08 0x18)"
    "Deref (initial_store kDefaultOptions) (Handle 12) = Some (initial_frame 0x0C 0x1C)"
    "Deref (initial_store kDefaultOptions) (Handle 16) = Some (initial_frame 0x10 0x20)"
    by (simp_all add: Deref_def pool_deref_def pool_address_def initial_store_def kInitialHeap_def Let_def
        IsRef_def kNumber_def IsNil_def Handle_nil_def pool_def kPoolMask_def kGlobalTag_def idx_def
        upt_conv_Cons_Cons)
  show ?thesis by (simp add: kInitialHeap_def initial_frame_def [of _ 0] initial_symbol_def h d) (simp add: initial_frame_def)
qed

lemma clear_free_frozen:
  "clear_free ref st = Some st' \<Longrightarrow> free_handle st' = None \<and> memory st' = memory st \<and> heaps st' = heaps st"
proof (induction rule: clear_free.raw_induct [rotated, consumes 1, case_names step])
  case (step loop ref st st')
  then show ?case by (fastforce split: option.splits if_splits Reference.splits)
qed

text \<open>
  C29: A frozen store is read-only. After \<^verbatim>\<open>Freeze\<close> no object and no handle can be allocated, so
  no operation that needs a new object succeeds, and looking up a symbol creates none.
\<close>

theorem frozen_store_read_only:
  assumes "Freeze st = Some st'" "\<not> frozen st"
  shows "frozen st' \<and> AllocateDatum b st' = None \<and> AllocateHandle a st' = None \<and>
    Store_Add h name val st' = None \<and>
    (\<forall>r. Store_Symbol s st' = Some r \<longrightarrow> snd r = st')"
proof -
  obtain st1 st2 where st2: "clear_free (free_handle st1) (st1\<lparr>heaps := map (\<lambda>hp. hp\<lparr>h_capacity := heap_used st1 hp\<rparr>) (heaps st1)\<rparr>) = Some st2"
    and st': "st' = st2\<lparr>handles_capacity := length (handles st2) * sizeof_Reference,
       roots := take 1 (roots st2), externals := [], frozen := True\<rparr>"
    using assms by (auto simp: Freeze_def Let_def split: if_splits bind_splits)
  note cl = clear_free_frozen [OF st2]
  have full: "\<not> heap_fits st' k (object_bytes b')" for k b'
  proof
    assume f: "heap_fits st' k (object_bytes b')"
    then have k: "k < length (heaps st1)" using cl by (simp add: heap_fits_def st')
    have "h_capacity (heaps st' ! k) = heap_used st' (heaps st' ! k)"
      using k cl by (simp add: st' heap_used_def)
    then show False using f object_bytes_pos [of b'] by (simp add: heap_fits_def)
  qed
  have frz: "frozen st'" by (simp add: st')
  have "AllocateDatum b' st' = None" for b'
    using full frz by (simp add: AllocateDatum_def AllocateDatumSlow_def Let_def)
  moreover have "AllocateHandle a st' = None"
    using cl frz by (simp add: AllocateHandle_def AllocateHandleSlow_def st' sizeof_Reference_def Let_def)
  ultimately show ?thesis
    using frz by (auto simp: Store_Add_def copy_frame_def Store_Symbol_def split: if_splits bind_splits option.splits)
qed

theorem frozen_store_read_only_witness:
  "\<exists>st'. Freeze (sample_store\<lparr>globals := None, gc_locks := 1\<rparr>) = Some st' \<and> AllocateDatum (StringBody []) st' = None"
proof -
  let ?st = "sample_store\<lparr>globals := None, gc_locks := 1\<rparr>"
  have "Freeze ?st \<noteq> None" "\<not> frozen ?st"
    by (simp_all add: Freeze_def sample_store_def Let_def clear_free.simps)
  then obtain st' where "Freeze ?st = Some st'" "\<not> frozen ?st" by blast
  from frozen_store_read_only [OF this] this(1) show ?thesis by blast
qed

end
