(* ===== verification/Fingerprints.thy ===== *)
theory Fingerprints
  imports City_Hash
begin

text \<open>
  The fingerprints of \<^verbatim>\<open>sling/util/fingerprint.cc\<close>, which the record files and the database use as keys of
  their indices. A 64-bit load is little-endian, as on the machines the code is written for.
\<close>

definition FingerprintCat :: "uint64 \<Rightarrow> uint64 \<Rightarrow> uint64" where
  "FingerprintCat fp1 fp2 =
     (let a = fp1 * 0xC6A4A7935BD1E995 + fp2 * 0x228876A7198B743
      in a + drop_bit 47 (NOT a))"

fun fingerprint_words :: "uint64 \<Rightarrow> byte list \<Rightarrow> uint64 \<times> byte list" where
  "fingerprint_words fp bs =
     (if 8 \<le> length bs then fingerprint_words (FingerprintCat fp (load_le (take 8 bs))) (drop 8 bs) else (fp, bs))"

declare fingerprint_words.simps [simp del]

fun fingerprint_residual :: "uint64 \<Rightarrow> byte list \<Rightarrow> uint64" where
  "fingerprint_residual residual [] = residual"
| "fingerprint_residual residual (b # bs) = fingerprint_residual (push_bit 8 residual OR ucast b) bs"

definition Fingerprint64 :: "byte list \<Rightarrow> uint64" where
  "Fingerprint64 bytes =
     (let (fp, rest) = fingerprint_words 0xA5B85C5E198ED849 bytes
      in FingerprintCat fp (fingerprint_residual 0 rest))"

definition Fingerprint32 :: "byte list \<Rightarrow> uint32" where
  "Fingerprint32 bytes = (let fp = Fingerprint64 bytes in ucast (fp XOR drop_bit 32 fp))"

definition WORDFP_FIRST :: uint64 where "WORDFP_FIRST = 16"

definition WordFingerprint :: "uint64 \<Rightarrow> 16 word" where
  "WordFingerprint fp =
     (let mix = (drop_bit 48 fp XOR drop_bit 32 fp XOR drop_bit 16 fp XOR fp) AND 0xFFFF
      in ucast (if mix < WORDFP_FIRST then mix + WORDFP_FIRST else mix))"

section \<open>Reserved values\<close>

lemma FingerprintCat_not_reserved: "1 < FingerprintCat fp1 fp2"
proof -
  define a where "a = fp1 * 0xC6A4A7935BD1E995 + fp2 * 0x228876A7198B743"
  define t where "t = drop_bit 47 (NOT a)"
  have na: "unat (NOT a) = 2 ^ 64 - 1 - unat a"
  proof -
    have "NOT a = - 1 - a" by (simp add: not_eq_complement)
    moreover have "unat (- 1 - a) = unat (- 1 :: uint64) - unat a" by (rule unat_sub) (rule word_order.extremum)
    ultimately show ?thesis by (simp add: unsigned_minus_1_eq_mask mask_eq_exp_minus_1)
  qed
  have t: "unat t = (2 ^ 64 - 1 - unat a) div 2 ^ 47"
    using na unat_drop_bit_eq [of 47 "NOT a"] by (simp add: t_def drop_bit_eq_div)
  have "unat a < 2 ^ 64" using unsigned_less [of a, where 'a = nat] by simp
  then have "unat a + unat t < 2 ^ 64"
    using div_le_dividend [of "2 ^ 64 - 1 - unat a" "2 ^ 47"] unfolding t by linarith
  moreover have "1 < unat a + unat t"
  proof (cases "unat a < 2")
    case True
    then have "unat a = 0 \<or> unat a = 1" by auto
    then show ?thesis unfolding t by auto
  qed simp
  ultimately have "1 < unat (a + t)" by (simp add: unat_plus_if_size word_size)
  then show ?thesis
    by (simp add: FingerprintCat_def a_def [symmetric] t_def [symmetric] word_less_nat_alt)
qed

lemma Fingerprint64_not_reserved: "1 < Fingerprint64 bytes"
  by (simp add: Fingerprint64_def FingerprintCat_not_reserved split: prod.split)

lemma WordFingerprint_not_reserved: "16 \<le> WordFingerprint fp"
proof -
  define mix where "mix = (drop_bit 48 fp XOR drop_bit 32 fp XOR drop_bit 16 fp XOR fp) AND 0xFFFF"
  have "unat (take_bit 16 x) < 2 ^ 16" for x :: uint64 using take_bit_nat_less_exp [of 16 "unat x"] by (simp add: unsigned_take_bit_eq)
  moreover have "mix = take_bit 16 (drop_bit 48 fp XOR drop_bit 32 fp XOR drop_bit 16 fp XOR fp)"
    by (simp add: mix_def take_bit_eq_mask mask_eq_exp_minus_1)
  ultimately have "unat mix < 2 ^ 16" by metis
  define m where "m = (if mix < WORDFP_FIRST then mix + WORDFP_FIRST else mix)"
  have "16 \<le> unat m \<and> unat m < 2 ^ 16"
    using \<open>unat mix < 2 ^ 16\<close>
    by (auto simp: m_def WORDFP_FIRST_def word_less_nat_alt word_le_nat_alt unat_plus_if_size word_size)
  moreover have "WordFingerprint fp = ucast m" by (simp add: WordFingerprint_def Let_def m_def mix_def)
  ultimately show ?thesis by (simp add: word_le_nat_alt unsigned_ucast_eq take_bit_nat_eq_self)
qed

section \<open>Properties\<close>

text \<open>
  C39: Fingerprints avoid the reserved values. The hash functions wrap around, but the last step of
  \<^verbatim>\<open>FingerprintCat\<close> never yields 0 or 1, the keys that the database index uses for empty and deleted
  entries, and \<^verbatim>\<open>WordFingerprint\<close> never yields one of the sixteen reserved word fingerprints.
\<close>

theorem fingerprint_never_reserved:
  "1 < FingerprintCat fp1 fp2 \<and> 1 < Fingerprint64 bytes \<and> 16 \<le> WordFingerprint fp"
  by (simp add: FingerprintCat_not_reserved Fingerprint64_not_reserved WordFingerprint_not_reserved)

end
