(* ===== verification/DB_Index.thy ===== *)
theory DB_Index
  imports Sling_Prelude "HOL-Library.Multiset" "HOL-Library.Monad_Syntax"
begin

text \<open>
  The database index of \<^verbatim>\<open>sling/db/dbindex.h\<close> and \<^verbatim>\<open>sling/db/dbindex.cc\<close>: a hash table with linear
  probing in which a key can have several values. The header and the entry table are the two parts
  of the mapped memory that the code reads; \<open>ix_backed\<close> says whether there is an index file
  behind it. A probing loop has no result if it never meets an entry that stops it or leaves
  the table, and an operation has none if its \<^verbatim>\<open>CHECK\<close> or \<^verbatim>\<open>DCHECK\<close> fails. The index implements a
  multiset of pairs of keys and values.
\<close>

section \<open>The index\<close>

definition E_MEMMAP :: Status where "E_MEMMAP = Status_Error 2000"
definition E_NOT_INDEX :: Status where "E_NOT_INDEX = Status_Error 2001"
definition E_NOT_SUPPORTED :: Status where "E_NOT_SUPPORTED = Status_Error 2002"
definition E_POSITION :: Status where "E_POSITION = Status_Error 2003"
definition E_TRUNCATED :: Status where "E_TRUNCATED = Status_Error 2004"
definition E_CAPACITY :: Status where "E_CAPACITY = Status_Error 2005"
definition E_OVERFULL :: Status where "E_OVERFULL = Status_Error 2006"
definition E_LOAD_FACTOR :: Status where "E_LOAD_FACTOR = Status_Error 2007"
definition E_ALIGNMENT :: Status where "E_ALIGNMENT = Status_Error 2008"
definition E_MISSING :: Status where "E_MISSING = Status_Error 2009"

record IndexHeader =
  ih_magic :: uint32
  ih_version :: uint32
  ih_offset :: uint64
  ih_epoch :: uint64
  ih_size :: uint64
  ih_capacity :: uint64
  ih_limit :: uint64
  ih_deletions :: uint64

record Entry =
  e_key :: uint64
  e_value :: uint64

record DatabaseIndex =
  ix_backed :: bool
  ix_header :: IndexHeader
  ix_entries :: "Entry list"
  ix_mask :: uint64
  ix_mapped_size :: uint64

definition NPOS :: uint64 where "NPOS = - 1"
definition NVAL :: uint64 where "NVAL = - 1"
definition EMPTY :: uint64 where "EMPTY = 0"
definition TOMBSTONE :: uint64 where "TOMBSTONE = 1"
definition INDEX_MAGIC :: uint32 where "INDEX_MAGIC = 0x46584449"
definition INDEX_VERSION :: uint32 where "INDEX_VERSION = 1"
definition sizeof_IndexHeader :: uint64 where "sizeof_IndexHeader = 56"
definition sizeof_Entry :: uint64 where "sizeof_Entry = 16"

definition index_full :: "DatabaseIndex \<Rightarrow> bool" where
  "index_full ix \<longleftrightarrow> ih_limit (ix_header ix) \<le> ih_size (ix_header ix) + ih_deletions (ix_header ix)"

definition num_records :: "DatabaseIndex \<Rightarrow> uint64" where
  "num_records ix = ih_size (ix_header ix) - ih_deletions (ix_header ix)"

definition num_deleted :: "DatabaseIndex \<Rightarrow> uint64" where
  "num_deleted ix = ih_deletions (ix_header ix)"

section \<open>Opening and closing\<close>

definition IsPowerOfTwo32 :: "uint64 \<Rightarrow> bool" where
  "IsPowerOfTwo32 value \<longleftrightarrow> value \<noteq> 0 \<and> value AND (value - 1) = 0"

text \<open>
  What the operating system contributes to opening an index: the status of opening the file and its
  size, whether the mapping succeeds, and the header and the entry table found in the mapped memory.
\<close>

record IndexFile =
  xf_status :: Status
  xf_size :: uint64
  xf_mapped :: bool
  xf_header :: IndexHeader
  xf_entries :: "Entry list"

definition Index_Open :: "IndexFile \<Rightarrow> Status + DatabaseIndex" where
  "Index_Open f =
     (let h = xf_header f in
      if xf_status f \<noteq> OK then Inl (xf_status f)
      else if xf_size f = 0 then Inl E_MISSING
      else if \<not> xf_mapped f then Inl E_MEMMAP
      else if ih_magic h \<noteq> INDEX_MAGIC then Inl E_NOT_INDEX
      else if ih_version h \<noteq> INDEX_VERSION then Inl E_NOT_SUPPORTED
      else if ih_offset h < sizeof_IndexHeader \<or> xf_size f < ih_offset h then Inl E_POSITION
      else if xf_size f < ih_offset h + ih_capacity h * sizeof_Entry then Inl E_TRUNCATED
      else if \<not> IsPowerOfTwo32 (ih_capacity h) then Inl E_CAPACITY
      else if ih_capacity h \<le> ih_size h + ih_deletions h then Inl E_OVERFULL
      else if ih_capacity h \<le> ih_limit h then Inl E_LOAD_FACTOR
      else Inr \<lparr>ix_backed = True, ix_header = h, ix_entries = take (unat (ih_capacity h)) (xf_entries f),
                ix_mask = ih_capacity h - 1, ix_mapped_size = xf_size f\<rparr>)"

text \<open>
  Creating an index: \<open>st_open\<close> and \<open>st_resize\<close> are the outcomes of the calls for the file, \<open>mapped\<close>
  tells whether mapping or \<^verbatim>\<open>malloc\<close> succeeds, and \<open>block\<close> is what the memory of \<^verbatim>\<open>malloc\<close> holds. A new
  file is mapped as zeros. The loop that finds the offset of the table adds pages until the header fits.
\<close>

partial_function (option) header_pages :: "uint64 \<Rightarrow> uint64 \<Rightarrow> uint64 option" where
  "header_pages page_size offset =
     (if offset < sizeof_IndexHeader then header_pages page_size (offset + page_size) else Some offset)"

declare header_pages.simps [code]

definition Index_Create ::
  "uint64 \<Rightarrow> bool \<Rightarrow> Status \<Rightarrow> Status \<Rightarrow> bool \<Rightarrow> (nat \<Rightarrow> Entry) \<Rightarrow> uint64 \<Rightarrow> uint64 \<Rightarrow>
   (Status + DatabaseIndex) option" where
  "Index_Create page_size backed st_open st_resize mapped block capacity limit =
     (if (capacity * sizeof_Entry) AND page_size \<noteq> 0 then Some (Inl E_ALIGNMENT)
      else if sint capacity \<le> sint limit then Some (Inl E_LOAD_FACTOR)
      else if \<not> IsPowerOfTwo32 capacity then Some (Inl E_CAPACITY)
      else if backed \<and> st_open \<noteq> OK then Some (Inl st_open)
      else do {
        offset \<leftarrow> header_pages page_size 0;
        if backed \<and> st_resize \<noteq> OK then Some (Inl st_resize)
        else if \<not> mapped then Some (Inl E_MEMMAP)
        else Some (Inr \<lparr>ix_backed = backed,
          ix_header = \<lparr>ih_magic = INDEX_MAGIC, ih_version = INDEX_VERSION, ih_offset = offset, ih_epoch = 0,
            ih_size = 0, ih_capacity = capacity, ih_limit = limit, ih_deletions = 0\<rparr>,
          ix_entries = map (\<lambda>i. if backed then \<lparr>e_key = 0, e_value = 0\<rparr> else block i) [0..<unat capacity],
          ix_mask = capacity - 1,
          ix_mapped_size = offset + capacity * sizeof_Entry\<rparr>)
      })"

definition Index_Flush :: "Status \<Rightarrow> Status \<Rightarrow> uint64 \<Rightarrow> DatabaseIndex \<Rightarrow> Status \<times> DatabaseIndex" where
  "Index_Flush st_table st_header epoch ix =
     (if ix_backed ix \<and> st_table \<noteq> OK then (st_table, ix)
      else (if ix_backed ix then st_header else OK, ix\<lparr>ix_header := (ix_header ix)\<lparr>ih_epoch := epoch\<rparr>\<rparr>))"

text \<open>\<^verbatim>\<open>Close\<close> releases the memory and closes the file; after that the index cannot be used.\<close>

definition Index_Close :: "Status \<Rightarrow> Status \<Rightarrow> DatabaseIndex \<Rightarrow> Status \<times> DatabaseIndex option" where
  "Index_Close st_unmap st_close ix =
     (if \<not> ix_backed ix then (OK, None)
      else if st_unmap \<noteq> OK then (st_unmap, Some ix)
      else (st_close, None))"

section \<open>Lookup and update\<close>

text \<open>The loop that all operations share: the position of the first entry, from \<open>pos\<close> on, that stops it.\<close>

partial_function (option) probe :: "(Entry \<Rightarrow> bool) \<Rightarrow> Entry list \<Rightarrow> uint64 \<Rightarrow> uint64 \<Rightarrow> uint64 option" where
  "probe stop es m pos =
     (if unat pos < length es
      then if stop (es ! unat pos) then Some pos else probe stop es m ((pos + 1) AND m)
      else None)"

declare probe.simps [code]

definition Index_Get :: "DatabaseIndex \<Rightarrow> uint64 \<Rightarrow> uint64 \<Rightarrow> (uint64 \<times> uint64) option" where
  "Index_Get ix key pos = do {
     pos \<leftarrow> probe (\<lambda>e. e_key e = key \<or> e_key e = EMPTY) (ix_entries ix) (ix_mask ix)
       (if pos = NPOS then key AND ix_mask ix else pos);
     let e = ix_entries ix ! unat pos;
     Some (if e_key e = key then e_value e else NVAL, (pos + 1) AND ix_mask ix)
   }"

definition Index_Exists :: "DatabaseIndex \<Rightarrow> uint64 \<Rightarrow> uint64 \<Rightarrow> bool option" where
  "Index_Exists ix key value = do {
     pos \<leftarrow> probe (\<lambda>e. e_key e = key \<and> e_value e = value \<or> e_key e = EMPTY) (ix_entries ix) (ix_mask ix)
       (key AND ix_mask ix);
     let e = ix_entries ix ! unat pos;
     Some (e_key e = key \<and> e_value e = value)
   }"

definition Index_Add :: "uint64 \<Rightarrow> uint64 \<Rightarrow> DatabaseIndex \<Rightarrow> (uint64 \<times> DatabaseIndex) option" where
  "Index_Add key value ix =
     (if key = EMPTY \<or> key = TOMBSTONE then None
      else do {
        pos \<leftarrow> probe (\<lambda>e. e_key e = EMPTY \<or> e_key e = TOMBSTONE) (ix_entries ix) (ix_mask ix)
          (key AND ix_mask ix);
        let h = ix_header ix;
        let h = (if e_key (ix_entries ix ! unat pos) = TOMBSTONE
                 then h\<lparr>ih_deletions := ih_deletions h - 1\<rparr> else h\<lparr>ih_size := ih_size h + 1\<rparr>);
        Some (pos, ix\<lparr>ix_header := h,
                      ix_entries := (ix_entries ix)[unat pos := \<lparr>e_key = key, e_value = value\<rparr>]\<rparr>)
      })"

definition Index_Update :: "uint64 \<Rightarrow> uint64 \<Rightarrow> uint64 \<Rightarrow> DatabaseIndex \<Rightarrow> (uint64 \<times> DatabaseIndex) option" where
  "Index_Update key oldval newval ix =
     (if key = EMPTY \<or> key = TOMBSTONE then None
      else do {
        pos \<leftarrow> probe (\<lambda>e. e_key e = key \<and> e_value e = oldval \<or> e_key e = EMPTY) (ix_entries ix) (ix_mask ix)
          (key AND ix_mask ix);
        let e = ix_entries ix ! unat pos;
        if e_key e = key \<and> e_value e = oldval
        then Some (pos, ix\<lparr>ix_entries := (ix_entries ix)[unat pos := e\<lparr>e_value := newval\<rparr>]\<rparr>)
        else Some (NPOS, ix)
      })"

text \<open>The loop of \<^verbatim>\<open>Delete\<close> is stopped by an entry whose value, not its key, is \<^verbatim>\<open>EMPTY\<close>.\<close>

definition Index_Delete :: "uint64 \<Rightarrow> uint64 \<Rightarrow> DatabaseIndex \<Rightarrow> (uint64 \<times> DatabaseIndex) option" where
  "Index_Delete key value ix =
     (if key = EMPTY \<or> key = TOMBSTONE then None
      else do {
        pos \<leftarrow> probe (\<lambda>e. e_key e = key \<and> e_value e = value \<or> e_value e = EMPTY) (ix_entries ix) (ix_mask ix)
          (key AND ix_mask ix);
        let e = ix_entries ix ! unat pos;
        if e_key e = key \<and> e_value e = value
        then Some (pos, ix\<lparr>ix_header := (ix_header ix)\<lparr>ih_deletions := ih_deletions (ix_header ix) + 1\<rparr>,
                           ix_entries := (ix_entries ix)[unat pos := e\<lparr>e_key := TOMBSTONE\<rparr>]\<rparr>)
        else Some (NVAL, ix)
      })"

section \<open>Whole tables\<close>

fun transfer_entries :: "Entry list \<Rightarrow> DatabaseIndex \<Rightarrow> DatabaseIndex option" where
  "transfer_entries [] ix = Some ix"
| "transfer_entries (e # es) ix =
     (if e_key e \<noteq> EMPTY \<and> e_key e \<noteq> TOMBSTONE
      then Index_Add (e_key e) (e_value e) ix \<bind> (\<lambda>(_, ix). transfer_entries es ix)
      else transfer_entries es ix)"

definition Index_TransferTo :: "DatabaseIndex \<Rightarrow> DatabaseIndex \<Rightarrow> DatabaseIndex option" where
  "Index_TransferTo ix index =
     (if ih_size (ix_header ix) \<le> ih_limit (ix_header index)
      then transfer_entries (take (unat (ih_capacity (ix_header ix))) (ix_entries ix)) index
      else None)"

text \<open>
  \<^verbatim>\<open>CopyFrom\<close> copies the mapped memory: header and table. Both tables start at the same offset, as
  they do in indices of the same page size; otherwise the copied table would not be at \<^verbatim>\<open>entries_\<close>.
\<close>

definition Index_CopyFrom :: "DatabaseIndex \<Rightarrow> DatabaseIndex \<Rightarrow> DatabaseIndex option" where
  "Index_CopyFrom index ix =
     (if ix_mapped_size ix = ix_mapped_size index \<and> ix_mask ix = ix_mask index \<and>
         ih_offset (ix_header ix) = ih_offset (ix_header index)
      then Some (ix\<lparr>ix_header := ix_header index, ix_entries := ix_entries index\<rparr>) else None)"

definition Index_Check :: "bool \<Rightarrow> DatabaseIndex \<Rightarrow> bool \<times> DatabaseIndex" where
  "Index_Check repair ix =
     (let es = take (unat (ih_capacity (ix_header ix))) (ix_entries ix);
          num_tombstones = (of_nat (length (filter (\<lambda>e. e_key e = TOMBSTONE) es)) :: uint64);
          num_used = of_nat (length (filter (\<lambda>e. e_key e \<noteq> TOMBSTONE \<and> e_key e \<noteq> EMPTY) es));
          total = num_used + num_tombstones
      in if total \<noteq> ih_size (ix_header ix)
         then (False, if repair then ix\<lparr>ix_header := (ix_header ix)\<lparr>ih_size := total\<rparr>\<rparr> else ix)
         else (True, ix))"

section \<open>Probing\<close>

definition table_ok :: "Entry list \<Rightarrow> uint64 \<Rightarrow> bool" where
  "table_ok es m \<longleftrightarrow> (\<exists>k<60. length es = 2 ^ k \<and> m = 2 ^ k - 1)"

lemma table_okE:
  assumes "table_ok es m"
  obtains k where "k < 60" "length es = 2 ^ k" "m = 2 ^ k - 1" "length es < 2 ^ 60" "0 < length es"
proof -
  obtain k where k: "k < 60" "length es = 2 ^ k" "m = 2 ^ k - 1" using assms by (auto simp: table_ok_def)
  then have "length es < 2 ^ 60" using power_strict_increasing [of k 60 "2::nat"] by simp
  then show thesis using that k by simp
qed

lemma and_mask_home:
  assumes "table_ok es m"
  shows "key AND m = of_nat (unat key mod length es)"
  using assms by (auto simp: table_ok_def intro!: and_mask_mod)

lemma unat_of_nat_pos:
  assumes "table_ok es m" "p < length es"
  shows "unat (of_nat p :: uint64) = p"
proof -
  have "p < 2 ^ 60" using assms by (auto elim!: table_okE)
  also have "(2::nat) ^ 60 < 2 ^ 64" by simp
  finally show ?thesis by (simp add: unat_of_nat take_bit_nat_eq_self)
qed

lemma unat_of_nat_eq_take: "unat (of_nat n :: uint64) = take_bit 64 n"
  by (simp add: unsigned_of_nat)

lemma next_position:
  assumes "table_ok es m" "p < length es"
  shows "(of_nat p + 1) AND m = of_nat (Suc p mod length es)"
proof -
  have "Suc p < 2 ^ 64" using assms by (auto elim!: table_okE)
  then have "unat (of_nat p + 1 :: uint64) = Suc p"
    using unat_of_nat_eq_take [of "Suc p"] by (simp add: take_bit_nat_eq_self add.commute)
  then show ?thesis using and_mask_home [OF assms(1), of "of_nat p + 1"] by simp
qed

lemma probe_steps:
  assumes "table_ok es m" "stop (es ! ((p + d) mod length es))"
    and "\<forall>j<d. \<not> stop (es ! ((p + j) mod length es))"
  shows "probe stop es m (of_nat (p mod length es)) = Some (of_nat ((p + d) mod length es))"
  using assms(2,3)
proof (induction d arbitrary: p)
  case 0
  have "p mod length es < length es" using assms(1) by (auto elim!: table_okE)
  then show ?case using 0 by (subst probe.simps) (simp add: unat_of_nat_pos [OF assms(1)])
next
  case (Suc d)
  have lt: "p mod length es < length es" using assms(1) by (auto elim!: table_okE)
  have "\<not> stop (es ! (p mod length es))" using Suc.prems(2) by (metis add_0_right zero_less_Suc)
  then have "probe stop es m (of_nat (p mod length es)) =
      probe stop es m (of_nat (Suc p mod length es))"
    using lt by (subst probe.simps)
      (simp add: unat_of_nat_pos [OF assms(1)] next_position [OF assms(1)] mod_Suc_eq)
  also have "\<dots> = Some (of_nat ((Suc p + d) mod length es))"
    using Suc.prems by (intro Suc.IH) (simp, metis Suc_mono add_Suc_shift)
  finally show ?case by simp
qed

text \<open>A probe finds the first entry of the rotated table that stops it.\<close>

lemma probe_first:
  assumes "table_ok es m" "\<exists>e\<in>set es. stop e" "p < length es"
  defines "d \<equiv> length (takeWhile (\<lambda>e. \<not> stop e) (rotate p es))"
  shows "probe stop es m (of_nat p) = Some (of_nat ((p + d) mod length es))"
    and "d < length es" "stop (es ! ((p + d) mod length es))"
    and "\<forall>j<d. \<not> stop (es ! ((p + j) mod length es))"
proof -
  let ?r = "rotate p es"
  have d: "d < length ?r"
  proof (rule ccontr)
    assume "\<not> d < length ?r"
    then have "takeWhile (\<lambda>e. \<not> stop e) ?r = ?r"
      using length_takeWhile_le [of "\<lambda>e. \<not> stop e" ?r] takeWhile_eq_take [of "\<lambda>e. \<not> stop e" ?r] by (simp add: d_def)
    then have "\<forall>e\<in>set ?r. \<not> stop e" by (simp add: takeWhile_eq_all_conv)
    then show False using assms(2) by simp
  qed
  then show "d < length es" by simp
  show s: "stop (es ! ((p + d) mod length es))"
    using nth_length_takeWhile [of "\<lambda>e. \<not> stop e" ?r] d nth_rotate [of d es p] by (simp add: d_def)
  show n: "\<forall>j<d. \<not> stop (es ! ((p + j) mod length es))"
  proof (intro allI impI)
    fix j assume j: "j < d"
    then have "takeWhile (\<lambda>e. \<not> stop e) ?r ! j = ?r ! j" by (simp add: d_def takeWhile_nth)
    moreover have "\<not> stop (takeWhile (\<lambda>e. \<not> stop e) ?r ! j)"
      using j nth_mem set_takeWhileD unfolding d_def by metis
    ultimately show "\<not> stop (es ! ((p + j) mod length es))"
      using j d nth_rotate [of j es p] by simp
  qed
  show "probe stop es m (of_nat p) = Some (of_nat ((p + d) mod length es))"
    using probe_steps [OF assms(1) s n] assms(3) by simp
qed

lemma probe_cong:
  assumes "\<forall>e\<in>set es. stop e = stop' e"
  shows "probe stop es m pos = probe stop' es m pos"
proof -
  have le: "probe s2 es m pos = Some q" if "probe s1 es m pos = Some q" "\<forall>e\<in>set es. s1 e = s2 e" for s1 s2 q
    using that
  proof (induction rule: probe.raw_induct [rotated, consumes 1, case_names step])
    case (step f s1 es m pos q)
    then show ?case by (subst probe.simps) (auto split: if_splits)
  qed
  show ?thesis
    using le [where ?s1.0 = stop and ?s2.0 = stop'] le [where ?s1.0 = stop' and ?s2.0 = stop] assms
    by (cases "probe stop es m pos"; cases "probe stop' es m pos") auto
qed

section \<open>The index as a multiset of pairs\<close>

definition live :: "Entry \<Rightarrow> bool" where
  "live e \<longleftrightarrow> e_key e \<noteq> EMPTY \<and> e_key e \<noteq> TOMBSTONE"

definition entry_pair :: "Entry \<Rightarrow> uint64 \<times> uint64" where
  "entry_pair e = (e_key e, e_value e)"

definition table_pairs :: "Entry list \<Rightarrow> (uint64 \<times> uint64) multiset" where
  "table_pairs es = image_mset entry_pair (filter_mset live (mset es))"

definition index_pairs :: "DatabaseIndex \<Rightarrow> (uint64 \<times> uint64) multiset" where
  "index_pairs ix = table_pairs (ix_entries ix)"

text \<open>No empty entry lies between the home of a live entry and the entry itself.\<close>

definition reachable :: "Entry list \<Rightarrow> nat \<Rightarrow> bool" where
  "reachable es i \<longleftrightarrow> (\<exists>d. (unat (e_key (es ! i)) + d) mod length es = i \<and>
     (\<forall>j<d. e_key (es ! ((unat (e_key (es ! i)) + j) mod length es)) \<noteq> EMPTY))"

definition index_inv :: "DatabaseIndex \<Rightarrow> bool" where
  "index_inv ix \<longleftrightarrow> table_ok (ix_entries ix) (ix_mask ix) \<and>
     unat (ih_capacity (ix_header ix)) = length (ix_entries ix) \<and>
     unat (ih_size (ix_header ix)) = length (filter (\<lambda>e. e_key e \<noteq> EMPTY) (ix_entries ix)) \<and>
     unat (ih_deletions (ix_header ix)) = length (filter (\<lambda>e. e_key e = TOMBSTONE) (ix_entries ix)) \<and>
     ih_size (ix_header ix) < ih_capacity (ix_header ix) \<and>
     ih_limit (ix_header ix) < ih_capacity (ix_header ix) \<and>
     (\<forall>i<length (ix_entries ix). live (ix_entries ix ! i) \<longrightarrow> reachable (ix_entries ix) i)"

text \<open>What lookups and updates leave alone.\<close>

definition same_shape :: "DatabaseIndex \<Rightarrow> DatabaseIndex \<Rightarrow> bool" where
  "same_shape ix ix' \<longleftrightarrow> ix_mask ix' = ix_mask ix \<and> ix_backed ix' = ix_backed ix \<and> ix_mapped_size ix' = ix_mapped_size ix \<and>
     ih_capacity (ix_header ix') = ih_capacity (ix_header ix) \<and> ih_limit (ix_header ix') = ih_limit (ix_header ix) \<and>
     ih_offset (ix_header ix') = ih_offset (ix_header ix) \<and> ih_epoch (ix_header ix') = ih_epoch (ix_header ix)"

lemmas special_keys = EMPTY_def TOMBSTONE_def

lemma table_pairs_update:
  assumes "i < length es"
  shows "table_pairs (es[i := e]) =
    (if live (es ! i) then table_pairs es - {#entry_pair (es ! i)#} else table_pairs es) +
    (if live e then {#entry_pair e#} else {#})"
proof -
  have mem: "es ! i \<in># mset es" using assms by simp
  have eq: "mset (es[i := e]) = add_mset e (mset es - {#es ! i#})" using assms by (rule mset_update)
  have "live (es ! i) \<Longrightarrow> es ! i \<in># filter_mset live (mset es)" using mem by simp
  then show ?thesis
    using mem by (simp add: table_pairs_def eq image_mset_Diff)
qed

lemma in_table_pairs: "(key, value) \<in># table_pairs es \<longleftrightarrow>
    (\<exists>e\<in>set es. e_key e = key \<and> e_value e = value) \<and> key \<noteq> EMPTY \<and> key \<noteq> TOMBSTONE"
  by (auto simp: table_pairs_def entry_pair_def live_def image_iff)

lemma length_filter_list_update:
  assumes "i < length xs"
  shows "length (filter P (xs[i := x])) + (if P (xs ! i) then 1 else 0) =
    length (filter P xs) + (if P x then 1 else 0)"
proof -
  have eq: "xs = take i xs @ xs ! i # drop (Suc i) xs" using assms by (simp add: id_take_nth_drop)
  have "length (filter P xs) = length (filter P (take i xs)) + (if P (xs ! i) then 1 else 0) +
      length (filter P (drop (Suc i) xs))"
    by (subst eq) simp
  then show ?thesis using assms by (simp add: upd_conv_take_nth_drop)
qed

lemma empty_slot:
  assumes "index_inv ix"
  shows "\<exists>e\<in>set (ix_entries ix). e_key e = EMPTY"
proof (rule ccontr)
  assume "\<not> ?thesis"
  then have "filter (\<lambda>e. e_key e \<noteq> EMPTY) (ix_entries ix) = ix_entries ix" by (simp add: filter_id_conv)
  then have "unat (ih_size (ix_header ix)) = unat (ih_capacity (ix_header ix))"
    using assms by (simp only: index_inv_def)
  then have "ih_size (ix_header ix) = ih_capacity (ix_header ix)" by (rule unsigned_word_eqI)
  moreover have "ih_size (ix_header ix) < ih_capacity (ix_header ix)" using assms by (simp only: index_inv_def)
  ultimately show False by simp
qed

lemma reachableD:
  assumes "index_inv ix" "e \<in> set (ix_entries ix)" "live e"
  obtains d where "ix_entries ix ! ((unat (e_key e) + d) mod length (ix_entries ix)) = e"
    "\<forall>j<d. e_key (ix_entries ix ! ((unat (e_key e) + j) mod length (ix_entries ix))) \<noteq> EMPTY"
proof -
  obtain i where i: "i < length (ix_entries ix)" "ix_entries ix ! i = e" using assms(2) by (auto simp: in_set_conv_nth)
  then have "reachable (ix_entries ix) i" using assms(1,3) by (simp add: index_inv_def)
  then show thesis using that i unfolding reachable_def by metis
qed

text \<open>A search stops at a match if there is one and at an empty entry otherwise.\<close>

lemma probe_match:
  assumes "index_inv ix" and M: "\<And>e. M e \<Longrightarrow> e_key e = key" "key \<noteq> EMPTY" "key \<noteq> TOMBSTONE"
  obtains p where "probe (\<lambda>e. M e \<or> e_key e = EMPTY) (ix_entries ix) (ix_mask ix) (key AND ix_mask ix) =
      Some (of_nat p)" "p < length (ix_entries ix)" "unat (of_nat p :: uint64) = p"
    "M (ix_entries ix ! p) \<longleftrightarrow> (\<exists>e\<in>set (ix_entries ix). M e)"
    "\<not> M (ix_entries ix ! p) \<longrightarrow> e_key (ix_entries ix ! p) = EMPTY"
proof -
  let ?es = "ix_entries ix" and ?n = "length (ix_entries ix)"
  have ok: "table_ok ?es (ix_mask ix)" using assms(1) by (simp add: index_inv_def)
  have home: "key AND ix_mask ix = of_nat (unat key mod ?n)" using and_mask_home [OF ok] .
  have lt: "unat key mod ?n < ?n" using ok by (auto elim!: table_okE)
  have "\<exists>e\<in>set ?es. M e \<or> e_key e = EMPTY" using empty_slot [OF assms(1)] by blast
  then have ex: "\<exists>e\<in>set ?es. (\<lambda>e. M e \<or> e_key e = EMPTY) e" .
  obtain d where d: "probe (\<lambda>e. M e \<or> e_key e = EMPTY) ?es (ix_mask ix) (key AND ix_mask ix) =
      Some (of_nat ((unat key + d) mod ?n))"
    "M (?es ! ((unat key + d) mod ?n)) \<or> e_key (?es ! ((unat key + d) mod ?n)) = EMPTY"
    "\<forall>j<d. \<not> (M (?es ! ((unat key + j) mod ?n)) \<or> e_key (?es ! ((unat key + j) mod ?n)) = EMPTY)"
    using probe_first [OF ok ex lt] that unfolding home mod_add_left_eq by blast
  let ?p = "(unat key + d) mod ?n"
  have p: "?p < ?n" using ok by (auto elim!: table_okE)
  have "M (?es ! ?p)" if e: "e \<in> set ?es" "M e" for e
  proof -
    have "e_key e = key" "live e" using M e(2) by (auto simp: live_def)
    then obtain d' where d': "?es ! ((unat key + d') mod ?n) = e"
      "\<forall>j<d'. e_key (?es ! ((unat key + j) mod ?n)) \<noteq> EMPTY"
      using reachableD [OF assms(1) e(1)] by metis
    then have "d \<le> d'" using d(3) e(2) by (metis linorder_not_less)
    then show ?thesis using d(2) d' e(2) by (metis le_neq_implies_less)
  qed
  then have "M (?es ! ?p) \<longleftrightarrow> (\<exists>e\<in>set ?es. M e)" using p nth_mem by metis
  then show thesis using that [of ?p] d(1,2) p unat_of_nat_pos [OF ok p] by blast
qed

section \<open>Operations\<close>

lemma Index_Exists_spec:
  assumes "index_inv ix" "key \<noteq> EMPTY" "key \<noteq> TOMBSTONE"
  shows "Index_Exists ix key value = Some ((key, value) \<in># index_pairs ix)"
proof (rule probe_match [OF assms(1), where key = key and M = "\<lambda>e. e_key e = key \<and> e_value e = value"])
  fix p
  assume p: "probe (\<lambda>e. e_key e = key \<and> e_value e = value \<or> e_key e = EMPTY) (ix_entries ix) (ix_mask ix)
      (key AND ix_mask ix) = Some (of_nat p)" "unat (of_nat p :: uint64) = p"
    "(e_key (ix_entries ix ! p) = key \<and> e_value (ix_entries ix ! p) = value) =
     (\<exists>e\<in>set (ix_entries ix). e_key e = key \<and> e_value e = value)"
  then show ?thesis using assms(2,3) by (simp add: Index_Exists_def index_pairs_def in_table_pairs)
qed (use assms in auto)

text \<open>Entries that stay non-empty keep all others reachable.\<close>

lemma reachable_update:
  assumes "reachable es i" "i < length es" "i \<noteq> p" "p < length es" "e_key e \<noteq> EMPTY"
  shows "reachable (es[p := e]) i"
proof -
  obtain d where d: "(unat (e_key (es ! i)) + d) mod length es = i"
    "\<forall>j<d. e_key (es ! ((unat (e_key (es ! i)) + j) mod length es)) \<noteq> EMPTY"
    using assms(1) by (auto simp: reachable_def)
  have "e_key (es[p := e] ! q) \<noteq> EMPTY" if "e_key (es ! q) \<noteq> EMPTY" "q < length es" for q
    using that assms(4,5) by (simp add: nth_list_update)
  moreover have "0 < length es" using assms(2) by (cases es) auto
  ultimately have "\<forall>j<d. e_key (es[p := e] ! ((unat (e_key (es ! i)) + j) mod length es)) \<noteq> EMPTY"
    using d(2) mod_less_divisor by blast
  then show ?thesis using d(1) assms(3) unfolding reachable_def by (intro exI [of _ d]) simp
qed

lemma index_inv_update:
  assumes inv: "index_inv ix" and p: "p < length (ix_entries ix)" and e: "e_key e \<noteq> EMPTY"
    and r: "live e \<longrightarrow> reachable ((ix_entries ix)[p := e]) p"
    and h: "ih_capacity h = ih_capacity (ix_header ix)" "ih_limit h = ih_limit (ix_header ix)"
      "unat (ih_size h) = length (filter (\<lambda>e. e_key e \<noteq> EMPTY) ((ix_entries ix)[p := e]))"
      "unat (ih_deletions h) = length (filter (\<lambda>e. e_key e = TOMBSTONE) ((ix_entries ix)[p := e]))"
      "ih_size h < ih_capacity h"
  shows "index_inv (ix\<lparr>ix_header := h, ix_entries := (ix_entries ix)[p := e]\<rparr>)"
proof -
  have "reachable ((ix_entries ix)[p := e]) i"
    if "i < length (ix_entries ix)" "live ((ix_entries ix)[p := e] ! i)" for i
    using that r inv reachable_update [OF _ that(1) _ p e] by (cases "i = p") (auto simp: index_inv_def)
  then show ?thesis using inv h by (auto simp: index_inv_def table_ok_def)
qed

lemma Index_Add_probe:
  assumes inv: "index_inv ix" and k: "key \<noteq> EMPTY" "key \<noteq> TOMBSTONE"
  obtains p h where "p < length (ix_entries ix)" "unat (of_nat p :: uint64) = p"
    "Index_Add key value ix = Some (of_nat p, ix\<lparr>ix_header := h,
       ix_entries := (ix_entries ix)[p := \<lparr>e_key = key, e_value = value\<rparr>]\<rparr>)"
    "h = (if e_key (ix_entries ix ! p) = TOMBSTONE
       then (ix_header ix)\<lparr>ih_deletions := ih_deletions (ix_header ix) - 1\<rparr>
       else (ix_header ix)\<lparr>ih_size := ih_size (ix_header ix) + 1\<rparr>)"
    "\<not> live (ix_entries ix ! p)"
    "reachable ((ix_entries ix)[p := \<lparr>e_key = key, e_value = value\<rparr>]) p"
proof -
  let ?es = "ix_entries ix" and ?n = "length (ix_entries ix)" and ?e = "\<lparr>e_key = key, e_value = value\<rparr>"
  let ?stop = "\<lambda>e. e_key e = EMPTY \<or> e_key e = TOMBSTONE"
  have ok: "table_ok ?es (ix_mask ix)" using inv by (simp add: index_inv_def)
  have lt: "unat key mod ?n < ?n" using ok by (auto elim!: table_okE)
  have ex: "\<exists>e\<in>set ?es. ?stop e" using empty_slot [OF inv] by blast
  obtain d where d: "probe ?stop ?es (ix_mask ix) (key AND ix_mask ix) = Some (of_nat ((unat key + d) mod ?n))"
    "?stop (?es ! ((unat key + d) mod ?n))" "\<forall>j<d. \<not> ?stop (?es ! ((unat key + j) mod ?n))"
    using probe_first [OF ok ex lt] that unfolding and_mask_home [OF ok] mod_add_left_eq by blast
  define p where "p = (unat key + d) mod ?n"
  have p: "p < ?n" using ok by (auto simp: p_def elim!: table_okE)
  have up: "unat (of_nat p :: uint64) = p" using unat_of_nat_pos [OF ok p] .
  have "reachable (?es[p := ?e]) p" using p k(1) d(3) unfolding reachable_def
    by (intro exI [of _ d]) (auto simp: p_def nth_list_update)
  then show thesis
    using that p up d(1,2) k by (simp add: Index_Add_def p_def Let_def live_def)
qed

lemma word_pred_unat: "0 < unat w \<Longrightarrow> unat (w - 1 :: uint64) = unat w - 1"
  by (simp add: unat_sub word_le_nat_alt Suc_le_eq)

lemma word_succ_unat: "unat (w :: uint64) + 1 < unat (v :: uint64) \<Longrightarrow> unat (w + 1) = unat w + 1"
  using unsigned_less [of v, where 'a = nat] by (simp add: unat_plus_if_size word_size)

lemma Index_Add_spec:
  assumes inv: "index_inv ix" and k: "key \<noteq> EMPTY" "key \<noteq> TOMBSTONE"
    and room: "unat (ih_size (ix_header ix)) + 1 < unat (ih_capacity (ix_header ix))"
  obtains pos ix' where "Index_Add key value ix = Some (pos, ix')" "index_inv ix'"
    "index_pairs ix' = add_mset (key, value) (index_pairs ix)"
    "unat pos < length (ix_entries ix)"
    "ix_entries ix' = (ix_entries ix)[unat pos := \<lparr>e_key = key, e_value = value\<rparr>]"
    "same_shape ix ix'" "unat (ih_size (ix_header ix')) \<le> unat (ih_size (ix_header ix)) + 1"
proof (rule Index_Add_probe [OF inv k])
  fix p h
  let ?es = "ix_entries ix" and ?e = "\<lparr>e_key = key, e_value = value\<rparr>"
  let ?ix = "ix\<lparr>ix_header := h, ix_entries := ?es[p := ?e]\<rparr>"
  assume p: "p < length ?es" "unat (of_nat p :: uint64) = p" and dead: "\<not> live (?es ! p)"
    and add: "Index_Add key value ix = Some (of_nat p, ?ix)"
    and h: "h = (if e_key (?es ! p) = TOMBSTONE
       then (ix_header ix)\<lparr>ih_deletions := ih_deletions (ix_header ix) - 1\<rparr>
       else (ix_header ix)\<lparr>ih_size := ih_size (ix_header ix) + 1\<rparr>)"
    and reach: "reachable (?es[p := ?e]) p"
  have tomb: "0 < unat (ih_deletions (ix_header ix))" if "e_key (?es ! p) = TOMBSTONE"
  proof -
    have "filter (\<lambda>e. e_key e = TOMBSTONE) ?es \<noteq> []" using that p(1) nth_mem by (fastforce simp: filter_empty_conv)
    then show ?thesis using inv by (auto simp: index_inv_def)
  qed
  note counts = length_filter_list_update [OF p(1), of "\<lambda>e. e_key e \<noteq> EMPTY" ?e]
    length_filter_list_update [OF p(1), of "\<lambda>e. e_key e = TOMBSTONE" ?e]
  have "index_inv ?ix"
    using inv p(1) k room dead tomb counts reach word_succ_unat [OF room] word_pred_unat
    by (intro index_inv_update) (auto simp: index_inv_def h word_less_nat_alt special_keys live_def)
  moreover have "index_pairs ?ix = add_mset (key, value) (index_pairs ix)"
    using table_pairs_update [OF p(1), of ?e] dead k by (auto simp: index_pairs_def live_def entry_pair_def)
  moreover have "same_shape ix ?ix" "unat (ih_size h) \<le> unat (ih_size (ix_header ix)) + 1"
    using word_succ_unat [OF room] by (simp_all add: h same_shape_def)
  ultimately show thesis using add p that [of "of_nat p" ?ix] by simp
qed

lemma Index_Update_spec:
  assumes inv: "index_inv ix" and k: "key \<noteq> EMPTY" "key \<noteq> TOMBSTONE"
  shows "(key, oldval) \<in># index_pairs ix \<Longrightarrow> \<exists>pos ix'. Index_Update key oldval newval ix = Some (pos, ix') \<and>
      index_inv ix' \<and> index_pairs ix' = add_mset (key, newval) (index_pairs ix - {#(key, oldval)#}) \<and>
      unat pos < length (ix_entries ix) \<and> ix_header ix' = ix_header ix \<and> same_shape ix ix' \<and>
      ix_entries ix' = (ix_entries ix)[unat pos := \<lparr>e_key = key, e_value = newval\<rparr>]"
    and "(key, oldval) \<notin># index_pairs ix \<Longrightarrow> Index_Update key oldval newval ix = Some (NPOS, ix)"
proof -
  let ?es = "ix_entries ix" and ?e = "\<lparr>e_key = key, e_value = newval\<rparr>"
  obtain p where p: "probe (\<lambda>e. e_key e = key \<and> e_value e = oldval \<or> e_key e = EMPTY) ?es (ix_mask ix)
      (key AND ix_mask ix) = Some (of_nat p)" "p < length ?es" "unat (of_nat p :: uint64) = p"
    "(e_key (?es ! p) = key \<and> e_value (?es ! p) = oldval) = (\<exists>e\<in>set ?es. e_key e = key \<and> e_value e = oldval)"
    by (rule probe_match [OF inv, where key = key and M = "\<lambda>e. e_key e = key \<and> e_value e = oldval"]) (use k in auto)
  then show "(key, oldval) \<notin># index_pairs ix \<Longrightarrow> Index_Update key oldval newval ix = Some (NPOS, ix)"
    using k by (auto simp: index_pairs_def in_table_pairs Index_Update_def Let_def)
  assume "(key, oldval) \<in># index_pairs ix"
  then have hit: "e_key (?es ! p) = key" "e_value (?es ! p) = oldval"
    using p(4) by (auto simp: index_pairs_def in_table_pairs)
  then have upd: "Index_Update key oldval newval ix = Some (of_nat p, ix\<lparr>ix_entries := ?es[p := ?e]\<rparr>)"
    using p k by (cases "?es ! p") (simp add: Index_Update_def Let_def)
  have lv: "live (?es ! p)" "live ?e" using hit k by (auto simp: live_def)
  then have "reachable ?es p" using inv p(2) by (simp add: index_inv_def)
  then have "reachable (?es[p := ?e]) p"
    using hit(1) p(2) unfolding reachable_def by (auto simp: nth_list_update)
  then have "index_inv (ix\<lparr>ix_header := ix_header ix, ix_entries := ?es[p := ?e]\<rparr>)"
    using inv p(2) k hit length_filter_list_update [OF p(2), of "\<lambda>e. e_key e \<noteq> EMPTY" ?e]
      length_filter_list_update [OF p(2), of "\<lambda>e. e_key e = TOMBSTONE" ?e]
    by (intro index_inv_update) (auto simp: index_inv_def)
  moreover have "table_pairs (?es[p := ?e]) = add_mset (key, newval) (table_pairs ?es - {#(key, oldval)#})"
    using table_pairs_update [OF p(2), of ?e] lv hit by (simp add: entry_pair_def)
  ultimately show "\<exists>pos ix'. Index_Update key oldval newval ix = Some (pos, ix') \<and> index_inv ix' \<and>
      index_pairs ix' = add_mset (key, newval) (index_pairs ix - {#(key, oldval)#}) \<and>
      unat pos < length ?es \<and> ix_header ix' = ix_header ix \<and> same_shape ix ix' \<and> ix_entries ix' = ?es[unat pos := ?e]"
    using upd p by (intro exI [of _ "of_nat p"] exI [of _ "ix\<lparr>ix_entries := ?es[p := ?e]\<rparr>"]) (simp add: index_pairs_def same_shape_def)
qed

text \<open>\<^verbatim>\<open>Delete\<close> works if the entries with the value zero are the empty ones.\<close>

definition values_ok :: "DatabaseIndex \<Rightarrow> bool" where
  "values_ok ix \<longleftrightarrow> list_all (\<lambda>e. e_value e = 0 \<longleftrightarrow> e_key e = EMPTY) (ix_entries ix)"

lemma Index_Delete_spec:
  assumes inv: "index_inv ix" and k: "key \<noteq> EMPTY" "key \<noteq> TOMBSTONE" and v: "values_ok ix"
  shows "(key, value) \<in># index_pairs ix \<Longrightarrow> \<exists>pos ix'. Index_Delete key value ix = Some (pos, ix') \<and>
      index_inv ix' \<and> index_pairs ix' = index_pairs ix - {#(key, value)#} \<and> values_ok ix' \<and>
      unat pos < length (ix_entries ix) \<and> e_key (ix_entries ix' ! unat pos) = TOMBSTONE \<and>
      same_shape ix ix' \<and> ih_size (ix_header ix') = ih_size (ix_header ix)"
    and "(key, value) \<notin># index_pairs ix \<Longrightarrow> Index_Delete key value ix = Some (NVAL, ix)"
proof -
  let ?es = "ix_entries ix"
  let ?M = "\<lambda>e. e_key e = key \<and> e_value e = value"
  obtain p where p: "probe (\<lambda>e. ?M e \<or> e_key e = EMPTY) ?es (ix_mask ix) (key AND ix_mask ix) = Some (of_nat p)"
    "p < length ?es" "unat (of_nat p :: uint64) = p" "?M (?es ! p) = (\<exists>e\<in>set ?es. ?M e)"
    by (rule probe_match [OF inv, where key = key and M = ?M]) (use k in auto)
  have "probe (\<lambda>e. ?M e \<or> e_value e = EMPTY) ?es (ix_mask ix) (key AND ix_mask ix) =
      probe (\<lambda>e. ?M e \<or> e_key e = EMPTY) ?es (ix_mask ix) (key AND ix_mask ix)"
    by (rule probe_cong) (use v in \<open>auto simp: values_ok_def list_all_iff EMPTY_def\<close>)
  then have pr: "probe (\<lambda>e. ?M e \<or> e_value e = EMPTY) ?es (ix_mask ix) (key AND ix_mask ix) = Some (of_nat p)"
    using p(1) by simp
  then show "(key, value) \<notin># index_pairs ix \<Longrightarrow> Index_Delete key value ix = Some (NVAL, ix)"
    using k p by (auto simp: index_pairs_def in_table_pairs Index_Delete_def Let_def)
  assume "(key, value) \<in># index_pairs ix"
  then have hit: "e_key (?es ! p) = key" "e_value (?es ! p) = value"
    using p(4) by (auto simp: index_pairs_def in_table_pairs)
  let ?e = "(?es ! p)\<lparr>e_key := TOMBSTONE\<rparr>"
  let ?h = "(ix_header ix)\<lparr>ih_deletions := ih_deletions (ix_header ix) + 1\<rparr>"
  let ?ix = "ix\<lparr>ix_header := ?h, ix_entries := ?es[p := ?e]\<rparr>"
  have del: "Index_Delete key value ix = Some (of_nat p, ?ix)"
    using pr p k hit by (simp add: Index_Delete_def Let_def)
  have lv: "live (?es ! p)" "\<not> live ?e" using hit k by (auto simp: live_def)
  have "length (filter (\<lambda>e. e_key e = TOMBSTONE) ?es) < length ?es"
    using hit k p(2) by (intro length_filter_less [of "?es ! p"]) auto
  then have "unat (ih_deletions (ix_header ix) + 1) = unat (ih_deletions (ix_header ix)) + 1"
    using inv unsigned_less [of "ih_capacity (ix_header ix)", where 'a = nat]
    by (simp add: unat_plus_if_size word_size index_inv_def)
  then have "index_inv ?ix"
    using inv p(2) k hit lv length_filter_list_update [OF p(2), of "\<lambda>e. e_key e \<noteq> EMPTY" ?e]
      length_filter_list_update [OF p(2), of "\<lambda>e. e_key e = TOMBSTONE" ?e]
    by (intro index_inv_update) (auto simp: index_inv_def special_keys)
  moreover have "table_pairs (?es[p := ?e]) = table_pairs ?es - {#(key, value)#}"
    using table_pairs_update [OF p(2), of ?e] lv hit by (simp add: entry_pair_def)
  moreover have "values_ok ?ix"
    using v p(2) hit k by (auto simp: values_ok_def list_all_length nth_list_update special_keys)
  ultimately show "\<exists>pos ix'. Index_Delete key value ix = Some (pos, ix') \<and> index_inv ix' \<and>
      index_pairs ix' = index_pairs ix - {#(key, value)#} \<and> values_ok ix' \<and>
      unat pos < length ?es \<and> e_key (ix_entries ix' ! unat pos) = TOMBSTONE \<and>
      same_shape ix ix' \<and> ih_size (ix_header ix') = ih_size (ix_header ix)"
    using del p by (intro exI [of _ "of_nat p"] exI [of _ ?ix]) (simp add: index_pairs_def same_shape_def)
qed

text \<open>The values that successive calls of \<^verbatim>\<open>Get\<close> return from a position on.\<close>

definition key_values :: "Entry list \<Rightarrow> uint64 \<Rightarrow> nat \<Rightarrow> uint64 list" where
  "key_values es key p =
     map e_value (filter (\<lambda>e. e_key e = key) (takeWhile (\<lambda>e. e_key e \<noteq> EMPTY) (rotate p es)))"

lemma rotate_Suc_from:
  assumes "Suc d < length es"
  shows "rotate ((p + Suc d) mod length es) es = drop (Suc d) (rotate p es) @ take (Suc d) (rotate p es)"
proof -
  have "rotate ((p + Suc d) mod length es) es = rotate (Suc d) (rotate p es)"
    by (metis add.commute rotate_conv_mod rotate_rotate)
  also have "\<dots> = drop (Suc d) (rotate p es) @ take (Suc d) (rotate p es)"
    using assms by (subst rotate_drop_take) simp
  finally show ?thesis .
qed

lemma key_values_split:
  assumes "table_ok es m" "\<exists>e\<in>set es. e_key e = EMPTY" "key \<noteq> EMPTY"
    and "d < length es" "\<forall>j<d. \<not> (e_key (es ! ((p + j) mod length es)) = key \<or> e_key (es ! ((p + j) mod length es)) = EMPTY)"
  shows "e_key (es ! ((p + d) mod length es)) = EMPTY \<Longrightarrow> key_values es key p = []"
    and "e_key (es ! ((p + d) mod length es)) = key \<Longrightarrow>
      key_values es key p = e_value (es ! ((p + d) mod length es)) # key_values es key ((p + Suc d) mod length es)"
proof -
  let ?r = "rotate p es"
  have rd: "?r ! d = es ! ((p + d) mod length es)" using assms(4) by (simp add: nth_rotate)
  have split: "?r = take d ?r @ ?r ! d # drop (Suc d) ?r" using assms(4) by (simp add: id_take_nth_drop)
  have pre: "\<forall>e\<in>set (take d ?r). e_key e \<noteq> key \<and> e_key e \<noteq> EMPTY"
    using assms(4,5) by (fastforce simp: in_set_conv_nth nth_rotate)
  then have tw: "takeWhile (\<lambda>e. e_key e \<noteq> EMPTY) (take d ?r @ ys) = take d ?r @ takeWhile (\<lambda>e. e_key e \<noteq> EMPTY) ys"
    and fl: "filter (\<lambda>e. e_key e = key) (take d ?r) = []" for ys
    by (simp_all add: filter_empty_conv)
  show "key_values es key p = []" if "e_key (es ! ((p + d) mod length es)) = EMPTY"
    unfolding key_values_def by (subst split, subst tw) (simp add: fl rd that)
  assume hit: "e_key (es ! ((p + d) mod length es)) = key"
  obtain e where e: "e \<in> set ?r" "e_key e = EMPTY" using assms(2) by auto
  moreover have "set ?r = set (take d ?r) \<union> {?r ! d} \<union> set (drop (Suc d) ?r)" by (subst split) simp
  ultimately have e': "e \<in> set (drop (Suc d) ?r)" using pre hit rd assms(3) by auto
  then have "drop (Suc d) ?r \<noteq> []" by auto
  then have "Suc d < length es" by simp
  from rotate_Suc_from [OF this] have rot: "takeWhile (\<lambda>e. e_key e \<noteq> EMPTY) (rotate ((p + Suc d) mod length es) es) =
      takeWhile (\<lambda>e. e_key e \<noteq> EMPTY) (drop (Suc d) ?r)"
    using e' e(2) by (simp add: takeWhile_append1)
  show "key_values es key p = e_value (es ! ((p + d) mod length es)) # key_values es key ((p + Suc d) mod length es)"
    unfolding key_values_def rot by (subst split, subst tw) (simp add: fl rd hit assms(3))
qed

lemma unat_NPOS: "unat NPOS = 18446744073709551615"
  by (simp add: NPOS_def unsigned_minus_1_eq_mask mask_eq_exp_minus_1)

lemma Index_Get_spec:
  assumes inv: "index_inv ix" and k: "key \<noteq> EMPTY" and p: "p < length (ix_entries ix)"
    and pos: "pos = of_nat p \<or> pos = NPOS \<and> p = unat key mod length (ix_entries ix)"
  shows "\<exists>q<length (ix_entries ix). case key_values (ix_entries ix) key p of
      [] \<Rightarrow> Index_Get ix key pos = Some (NVAL, of_nat q)
    | v # vs \<Rightarrow> Index_Get ix key pos = Some (v, of_nat q) \<and> key_values (ix_entries ix) key q = vs"
proof -
  let ?es = "ix_entries ix" and ?n = "length (ix_entries ix)"
  let ?stop = "\<lambda>e. e_key e = key \<or> e_key e = EMPTY"
  have ok: "table_ok ?es (ix_mask ix)" using inv by (simp add: index_inv_def)
  have "of_nat p \<noteq> NPOS"
    using unat_of_nat_pos [OF ok p] p ok unat_NPOS by (auto elim!: table_okE)
  then have start: "(if pos = NPOS then key AND ix_mask ix else pos) = of_nat p"
    using pos and_mask_home [OF ok] by auto
  have ex: "\<exists>e\<in>set ?es. ?stop e" using empty_slot [OF inv] by blast
  obtain d where d: "probe ?stop ?es (ix_mask ix) (of_nat p) = Some (of_nat ((p + d) mod ?n))" "d < ?n"
    "?stop (?es ! ((p + d) mod ?n))" "\<forall>j<d. \<not> ?stop (?es ! ((p + j) mod ?n))"
    using probe_first [OF ok ex p] that by blast
  have n0: "0 < ?n" using ok by (auto elim!: table_okE)
  have lt: "(p + d) mod ?n < ?n" using n0 by (rule mod_less_divisor)
  have q: "(of_nat ((p + d) mod ?n) + 1) AND ix_mask ix = of_nat ((p + Suc d) mod ?n)"
    using next_position [OF ok lt] by (simp add: mod_Suc_eq)
  have get: "Index_Get ix key pos = Some (if e_key (?es ! ((p + d) mod ?n)) = key then e_value (?es ! ((p + d) mod ?n)) else NVAL,
      of_nat ((p + Suc d) mod ?n))"
    unfolding Index_Get_def start d(1) using q unat_of_nat_pos [OF ok lt] by (simp add: Let_def)
  have "(p + Suc d) mod ?n < ?n" using n0 by (rule mod_less_divisor)
  then show ?thesis
    using get key_values_split [OF ok empty_slot [OF inv] k d(2,4)] d(3) k
    by (intro exI [of _ "(p + Suc d) mod ?n"]) auto
qed

lemma mod_add_eq_le:
  fixes n :: nat
  assumes "(a + d) mod n = (a + i) mod n" "i < n"
  shows "i \<le> d"
proof (rule ccontr)
  assume "\<not> i \<le> d"
  then have "n dvd (a + i) - (a + d)" using assms(1) mod_eq_dvd_iff_nat [of "a + d" "a + i" n] by simp
  moreover have "0 < i - d" "i - d < n" using \<open>\<not> i \<le> d\<close> assms(2) by auto
  ultimately show False using nat_dvd_not_less [of "i - d" n] by simp
qed

lemma mset_rotate: "mset (rotate n xs) = mset xs"
  by (metis append_take_drop_id mset_append rotate_drop_take union_commute)

text \<open>An entry is not separated from its home by an empty entry.\<close>

lemma reachable_in_cluster:
  assumes "index_inv ix" "key \<noteq> EMPTY" "key \<noteq> TOMBSTONE"
    and i: "i < length (ix_entries ix)" "e_key (rotate (unat key mod length (ix_entries ix)) (ix_entries ix) ! i) = key"
  shows "i < length (takeWhile (\<lambda>e. e_key e \<noteq> EMPTY) (rotate (unat key mod length (ix_entries ix)) (ix_entries ix)))"
proof -
  let ?es = "ix_entries ix" and ?n = "length (ix_entries ix)"
  let ?r = "rotate (unat key mod ?n) ?es" and ?l = "(unat key + i) mod ?n"
  have rot: "?r ! j = ?es ! ((unat key + j) mod ?n)" if "j < ?n" for j
    using that nth_rotate [of j ?es "unat key mod ?n"] by (simp add: mod_add_left_eq)
  have l: "?l < ?n" using i(1) by (auto intro!: mod_less_divisor)
  then have "reachable ?es ?l" using assms rot by (simp add: index_inv_def live_def)
  then obtain d where d: "(unat key + d) mod ?n = ?l" "\<forall>j<d. e_key (?es ! ((unat key + j) mod ?n)) \<noteq> EMPTY"
    using i rot by (auto simp: reachable_def)
  have "i \<le> d" by (rule mod_add_eq_le [OF d(1) i(1)])
  then have "\<forall>j<Suc i. e_key (?r ! j) \<noteq> EMPTY" using d(2) i assms(2) rot by (auto simp: less_Suc_eq)
  then have "Suc i \<le> length (takeWhile (\<lambda>e. e_key e \<noteq> EMPTY) ?r)"
    using i(1) by (intro length_takeWhile_less_P_nth) auto
  then show ?thesis by simp
qed

lemma key_values_home:
  assumes inv: "index_inv ix" and k: "key \<noteq> EMPTY" "key \<noteq> TOMBSTONE"
  shows "mset (key_values (ix_entries ix) key (unat key mod length (ix_entries ix))) =
    image_mset snd (filter_mset (\<lambda>x. fst x = key) (index_pairs ix))"
proof -
  let ?es = "ix_entries ix" and ?n = "length (ix_entries ix)"
  let ?r = "rotate (unat key mod ?n) ?es" and ?P = "\<lambda>e. e_key e \<noteq> EMPTY" and ?K = "\<lambda>e. e_key e = key"
  have "filter ?K (dropWhile ?P ?r) = []"
  proof (rule ccontr)
    assume "\<not> ?thesis"
    then obtain t where "t < length (dropWhile ?P ?r)" "e_key (dropWhile ?P ?r ! t) = key"
      by (auto simp: filter_empty_conv in_set_conv_nth)
    then show False
      using reachable_in_cluster [OF inv k, of "length (takeWhile ?P ?r) + t"]
        length_append [of "takeWhile ?P ?r" "dropWhile ?P ?r"] nth_append_length_plus [of "takeWhile ?P ?r" "dropWhile ?P ?r" t]
      by simp
  qed
  then have "filter ?K (takeWhile ?P ?r) = filter ?K ?r"
    using takeWhile_dropWhile_id [of ?P ?r] filter_append [of ?K "takeWhile ?P ?r" "dropWhile ?P ?r"] by simp
  then have "mset (key_values ?es key (unat key mod ?n)) = image_mset e_value (filter_mset ?K (mset ?es))"
    by (simp add: key_values_def mset_rotate)
  also have "\<dots> = image_mset snd (filter_mset (\<lambda>x. fst x = key) (index_pairs ix))"
    using k by (auto simp: index_pairs_def table_pairs_def filter_mset_image_mset filter_filter_mset entry_pair_def live_def
        multiset.map_comp o_def conj_commute intro!: image_mset_cong arg_cong [where f = "image_mset e_value"] filter_mset_cong)
  finally show ?thesis .
qed

text \<open>Rehashing adds all pairs to the new index.\<close>

lemma values_ok_update:
  assumes "values_ok ix" "e_value e \<noteq> 0" "e_key e \<noteq> EMPTY" "ix_entries ix' = (ix_entries ix)[p := e]"
  shows "values_ok ix'"
  using assms by (cases "p < length (ix_entries ix)") (auto simp: values_ok_def list_all_length nth_list_update)

lemma transfer_entries_spec:
  assumes "index_inv ix" "length (filter live es) + unat (ih_size (ix_header ix)) < unat (ih_capacity (ix_header ix))"
  shows "\<exists>ix'. transfer_entries es ix = Some ix' \<and> index_inv ix' \<and> index_pairs ix' = index_pairs ix + table_pairs es \<and>
    same_shape ix ix' \<and> unat (ih_size (ix_header ix')) \<le> unat (ih_size (ix_header ix)) + length (filter live es) \<and>
    (values_ok ix \<and> (\<forall>e\<in>set es. live e \<longrightarrow> e_value e \<noteq> 0) \<longrightarrow> values_ok ix')"
  using assms
proof (induction es arbitrary: ix)
  case (Cons e es)
  show ?case
  proof (cases "live e")
    case True
    obtain pos ix' where ix': "Index_Add (e_key e) (e_value e) ix = Some (pos, ix')" "index_inv ix'"
      "index_pairs ix' = add_mset (e_key e, e_value e) (index_pairs ix)"
      "ix_entries ix' = (ix_entries ix)[unat pos := \<lparr>e_key = e_key e, e_value = e_value e\<rparr>]" "same_shape ix ix'"
      "unat (ih_size (ix_header ix')) \<le> unat (ih_size (ix_header ix)) + 1"
      by (rule Index_Add_spec [OF Cons.prems(1), of "e_key e" "e_value e"]) (use True Cons.prems(2) in \<open>simp_all add: live_def\<close>)
    have v: "e_value e \<noteq> 0 \<and> values_ok ix \<longrightarrow> values_ok ix'"
      using values_ok_update [OF _ _ _ ix'(4)] True by (simp add: live_def)
    have "length (filter live es) + unat (ih_size (ix_header ix')) < unat (ih_capacity (ix_header ix'))"
      using ix'(5,6) Cons.prems(2) True by (simp add: same_shape_def)
    from Cons.IH [OF ix'(2) this] show ?thesis
      using ix' v True by (auto simp: live_def table_pairs_def entry_pair_def same_shape_def)
  next
    case False
    then show ?thesis using Cons.IH [OF Cons.prems(1)] Cons.prems(2) by (auto simp: live_def table_pairs_def)
  qed
qed (simp add: table_pairs_def same_shape_def)

lemma Index_TransferTo_spec:
  assumes "index_inv ix" "index_inv index" "ih_size (ix_header index) = 0"
    and "ih_size (ix_header ix) \<le> ih_limit (ix_header index)"
  shows "\<exists>index'. Index_TransferTo ix index = Some index' \<and> index_inv index' \<and>
    index_pairs index' = index_pairs index + index_pairs ix \<and> same_shape index index' \<and>
    unat (ih_size (ix_header index')) \<le> unat (ih_size (ix_header ix)) \<and> (values_ok ix \<and> values_ok index \<longrightarrow> values_ok index')"
proof -
  have le: "length (filter live (ix_entries ix)) \<le> length (filter (\<lambda>e. e_key e \<noteq> EMPTY) (ix_entries ix))"
    using length_filter_le [of live "filter (\<lambda>e. e_key e \<noteq> EMPTY) (ix_entries ix)"]
    by (simp add: live_def conj_commute cong: filter_cong)
  also have "\<dots> < unat (ih_capacity (ix_header index))"
    using assms by (simp add: index_inv_def word_less_nat_alt word_le_nat_alt)
  finally have "length (filter live (ix_entries ix)) + unat (ih_size (ix_header index)) < unat (ih_capacity (ix_header index))"
    using assms(3) by simp
  moreover have "values_ok ix \<longrightarrow> (\<forall>e\<in>set (ix_entries ix). live e \<longrightarrow> e_value e \<noteq> 0)"
    by (auto simp: values_ok_def list_all_iff live_def)
  ultimately show ?thesis
    using transfer_entries_spec [OF assms(2), of "ix_entries ix"] assms le
    by (auto simp: Index_TransferTo_def index_inv_def index_pairs_def)
qed

section \<open>New indices\<close>

lemma power_of_two_nat:
  fixes n :: nat
  assumes "n \<noteq> 0" "n AND (n - 1) = 0"
  shows "\<exists>k. n = 2 ^ k"
  using assms
proof (induction n rule: less_induct)
  case (less n)
  show ?case
  proof (cases "odd n")
    case True
    then obtain a where a: "n = 2 * a + 1" by (auto elim: oddE)
    then have "n AND (n - 1) = 2 * a" using and_nat_unfold [of n "n - 1"] by (auto simp: ac_simps)
    then have "n = 2 ^ 0" using a less.prems(2) by simp
    then show ?thesis by blast
  next
    case False
    then obtain a where a: "n = 2 * a" by (auto elim: evenE)
    then have "n AND (n - 1) = 2 * (a AND (a - 1))"
      using less.prems(1) and_nat_unfold [of n "n - 1"] by (cases a) auto
    then obtain k where "a = 2 ^ k" using less.IH [of a] less.prems a by auto
    then have "n = 2 ^ Suc k" using a by simp
    then show ?thesis by blast
  qed
qed

lemma IsPowerOfTwo32_iff: "IsPowerOfTwo32 w \<longleftrightarrow> (\<exists>k<64. w = 2 ^ k)"
proof
  assume w: "IsPowerOfTwo32 w"
  then have pos: "0 < unat w" by (simp add: IsPowerOfTwo32_def unat_gt_0)
  have "unat w AND (unat w - 1) = unat (w AND (w - 1))"
    using word_pred_unat [OF pos] by (simp add: unsigned_and_eq)
  then obtain k where k: "unat w = 2 ^ k" using w pos power_of_two_nat [of "unat w"] by (auto simp: IsPowerOfTwo32_def)
  moreover have "k < 64"
    using k unsigned_less [of w, where 'a = nat] power_less_imp_less_exp [of "2::nat" k 64] by simp
  moreover have "w = of_nat (unat w)" by simp
  then have "w = 2 ^ k" using k by (metis of_nat_numeral of_nat_power)
  ultimately show "\<exists>k<64. w = 2 ^ k" by blast
next
  assume "\<exists>k<64. w = 2 ^ k"
  then obtain k where k: "k < 64" "w = 2 ^ k" by blast
  have "w AND (w - 1) = take_bit k (2 ^ k)"
    using k(2) by (simp add: take_bit_eq_mask mask_eq_exp_minus_1)
  then show "IsPowerOfTwo32 w" using k by (simp add: IsPowerOfTwo32_def take_bit_eq_mod)
qed

lemma nonneg_sint_uint: "0 \<le> sint w \<Longrightarrow> uint w = sint (w :: uint64)"
  using sint_lt [of w] by (simp add: uint_sint take_bit_int_eq_self)

lemma Index_Create_spec:
  assumes "Index_Create page_size backed st_open st_resize mapped block capacity limit = Some (Inr ix)"
    and "unat capacity < 2 ^ 60" "0 \<le> sint limit" "\<not> backed \<longrightarrow> (\<forall>i<unat capacity. block i = \<lparr>e_key = 0, e_value = 0\<rparr>)"
  shows "index_inv ix" "index_pairs ix = {#}" "values_ok ix" "ih_size (ix_header ix) = 0"
    "ih_limit (ix_header ix) = limit" "ih_capacity (ix_header ix) = capacity" "ix_backed ix = backed"
proof -
  have "map (\<lambda>i. if backed then \<lparr>e_key = 0, e_value = 0\<rparr> else block i) [0..<unat capacity] =
      replicate (unat capacity) \<lparr>e_key = 0, e_value = 0\<rparr>"
    using assms(4) by (intro nth_equalityI) auto
  then have ix: "ix_entries ix = replicate (unat capacity) \<lparr>e_key = 0, e_value = 0\<rparr>" "ix_mask ix = capacity - 1"
    "ih_size (ix_header ix) = 0" "ih_deletions (ix_header ix) = 0" "IsPowerOfTwo32 capacity" "sint limit < sint capacity"
    "ih_limit (ix_header ix) = limit" "ih_capacity (ix_header ix) = capacity" "ix_backed ix = backed"
    using assms(1) by (auto simp: Index_Create_def split: if_splits bind_splits)
  then show "ih_size (ix_header ix) = 0" "ih_limit (ix_header ix) = limit"
    "ih_capacity (ix_header ix) = capacity" "ix_backed ix = backed" by simp_all
  obtain k where k: "k < 64" "capacity = 2 ^ k" using ix(5) IsPowerOfTwo32_iff by blast
  have uk: "unat capacity = 2 ^ k" using k unat_of_nat_eq_take [of "2 ^ k"] by simp
  then have "k < 60" using assms(2) power_less_imp_less_exp [of "2::nat" k 60] by simp
  then have ok: "table_ok (ix_entries ix) (ix_mask ix)" using ix(1,2) uk k(2) by (auto simp: table_ok_def)
  have "limit < capacity"
    using ix(6) assms(3) nonneg_sint_uint [of limit] nonneg_sint_uint [of capacity] by (simp add: word_less_def)
  moreover have "0 < capacity" using uk by (simp add: word_less_nat_alt)
  ultimately show "index_inv ix"
    using ok ix by (simp add: index_inv_def live_def special_keys filter_empty_conv)
  show "index_pairs ix = {#}" "values_ok ix"
    using ix(1) by (auto simp: index_pairs_def table_pairs_def live_def special_keys values_ok_def list_all_iff)
qed

lemma Index_Check_spec:
  assumes "index_inv ix"
  shows "Index_Check repair ix = (True, ix)"
proof -
  have counts: "length (filter (\<lambda>e. e_key e \<noteq> EMPTY) es) =
      length (filter (\<lambda>e. e_key e \<noteq> TOMBSTONE \<and> e_key e \<noteq> EMPTY) es) + length (filter (\<lambda>e. e_key e = TOMBSTONE) es)" for es
    by (induction es) (auto simp: special_keys)
  have sz: "unat (ih_size (ix_header ix)) = length (filter (\<lambda>e. e_key e \<noteq> EMPTY) (ix_entries ix))"
    and cap: "unat (ih_capacity (ix_header ix)) = length (ix_entries ix)"
    using assms by (simp_all only: index_inv_def)
  have "of_nat (unat (ih_size (ix_header ix))) = ih_size (ix_header ix)" by simp
  then have "of_nat (length (filter (\<lambda>e. e_key e \<noteq> TOMBSTONE \<and> e_key e \<noteq> EMPTY) (ix_entries ix))) +
      of_nat (length (filter (\<lambda>e. e_key e = TOMBSTONE) (ix_entries ix))) = ih_size (ix_header ix)"
    unfolding sz counts of_nat_add .
  then show ?thesis by (simp add: Index_Check_def cap Let_def)
qed

lemma index_not_full_room:
  assumes "index_inv ix" "\<not> index_full ix"
  shows "unat (ih_size (ix_header ix)) + 1 < unat (ih_capacity (ix_header ix))"
proof -
  have c: "unat (ih_capacity (ix_header ix)) < 2 ^ 60" using assms(1) by (auto simp: index_inv_def elim!: table_okE)
  moreover have "unat (ih_deletions (ix_header ix)) \<le> unat (ih_capacity (ix_header ix))"
    using assms(1) by (simp add: index_inv_def)
  moreover have s: "unat (ih_size (ix_header ix)) < unat (ih_capacity (ix_header ix))"
    "unat (ih_limit (ix_header ix)) < unat (ih_capacity (ix_header ix))"
    using assms(1) by (simp_all add: index_inv_def word_less_nat_alt)
  ultimately have "unat (ih_size (ix_header ix) + ih_deletions (ix_header ix)) =
      unat (ih_size (ix_header ix)) + unat (ih_deletions (ix_header ix))"
    by (simp add: unat_plus_if_size word_size)
  then show ?thesis using assms(2) s by (simp add: index_full_def word_less_nat_alt not_le)
qed

section \<open>Cursors\<close>

text \<open>
  A client looks up all values of a key by calling \<^verbatim>\<open>Get\<close> with the same position variable until it
  returns \<^verbatim>\<open>NVAL\<close>. The contract of such a cursor: \<open>vals p\<close> are the values still to come.
\<close>

partial_function (option) get_all :: "('p \<Rightarrow> (uint64 \<times> 'p) option) \<Rightarrow> 'p \<Rightarrow> uint64 list option" where
  "get_all get pos = do {
     (v, pos) \<leftarrow> get pos;
     if v = NVAL then Some [] else do { vs \<leftarrow> get_all get pos; Some (v # vs) }
   }"

declare get_all.simps [code]

locale index_cursor =
  fixes get :: "'p \<Rightarrow> (uint64 \<times> 'p) option"
    and valid :: "'p \<Rightarrow> bool"
    and vals :: "'p \<Rightarrow> uint64 list"
  assumes get_end: "valid p \<Longrightarrow> vals p = [] \<Longrightarrow> \<exists>q. get p = Some (NVAL, q)"
    and get_next: "valid p \<Longrightarrow> vals p = v # vs \<Longrightarrow> \<exists>q. get p = Some (v, q) \<and> valid q \<and> vals q = vs"
begin

lemma get_all_vals:
  assumes "valid p" "NVAL \<notin> set (vals p)"
  shows "get_all get p = Some (vals p)"
  using assms
proof (induction "vals p" arbitrary: p)
  case Nil
  then show ?case using get_end [of p] by (subst get_all.simps) auto
next
  case (Cons v vs)
  then obtain q where q: "get p = Some (v, q)" "valid q" "vals q = vs" using get_next [of p v vs] by auto
  then have "get_all get q = Some vs" using Cons.hyps(1) [of q] Cons.prems Cons.hyps(2) by (metis list.set_intros(2))
  moreover have "v \<noteq> NVAL" using Cons.prems(2) Cons.hyps(2) by (metis list.set_intros(1))
  ultimately show ?case using q(1) Cons.hyps(2) [symmetric] by (subst get_all.simps) simp
qed

end

definition cursor_valid :: "DatabaseIndex \<Rightarrow> uint64 \<Rightarrow> uint64 \<Rightarrow> bool" where
  "cursor_valid ix key pos \<longleftrightarrow> index_inv ix \<and> key \<noteq> EMPTY \<and> key \<noteq> TOMBSTONE \<and>
     (pos = NPOS \<or> unat pos < length (ix_entries ix))"

definition cursor_values :: "DatabaseIndex \<Rightarrow> uint64 \<Rightarrow> uint64 \<Rightarrow> uint64 list" where
  "cursor_values ix key pos = key_values (ix_entries ix) key
     (if pos = NPOS then unat key mod length (ix_entries ix) else unat pos)"

lemma cursor_start:
  assumes "cursor_valid ix key pos"
  obtains p where "p < length (ix_entries ix)" "cursor_values ix key pos = key_values (ix_entries ix) key p"
    "pos = of_nat p \<or> pos = NPOS \<and> p = unat key mod length (ix_entries ix)"
proof -
  have "0 < length (ix_entries ix)" using assms by (auto simp: cursor_valid_def index_inv_def elim!: table_okE)
  then show thesis
    using assms that [of "unat key mod length (ix_entries ix)"] that [of "unat pos"]
    by (cases "pos = NPOS") (auto simp: cursor_valid_def cursor_values_def)
qed

lemma cursor_continue:
  assumes "index_inv ix" "q < length (ix_entries ix)"
  shows "(of_nat q :: uint64) \<noteq> NPOS" "unat (of_nat q :: uint64) = q"
proof -
  have ok: "table_ok (ix_entries ix) (ix_mask ix)" using assms(1) by (simp add: index_inv_def)
  then show u: "unat (of_nat q :: uint64) = q" using assms(2) by (rule unat_of_nat_pos)
  show "(of_nat q :: uint64) \<noteq> NPOS" using u ok assms(2) unat_NPOS by (auto elim!: table_okE)
qed

interpretation index: index_cursor "Index_Get ix key" "cursor_valid ix key" "cursor_values ix key" for ix key
proof
  fix pos
  assume pos: "cursor_valid ix key pos" "cursor_values ix key pos = []"
  then obtain p where p: "p < length (ix_entries ix)" "key_values (ix_entries ix) key p = []"
    "pos = of_nat p \<or> pos = NPOS \<and> p = unat key mod length (ix_entries ix)"
    using cursor_start by metis
  then show "\<exists>q. Index_Get ix key pos = Some (NVAL, q)"
    using Index_Get_spec [of ix key p pos] pos(1) by (auto simp: cursor_valid_def)
next
  fix pos v vs
  assume pos: "cursor_valid ix key pos" "cursor_values ix key pos = v # vs"
  then obtain p where p: "p < length (ix_entries ix)" "key_values (ix_entries ix) key p = v # vs"
    "pos = of_nat p \<or> pos = NPOS \<and> p = unat key mod length (ix_entries ix)"
    using cursor_start by metis
  then obtain q where q: "q < length (ix_entries ix)" "Index_Get ix key pos = Some (v, of_nat q)"
    "key_values (ix_entries ix) key q = vs"
    using Index_Get_spec [of ix key p pos] pos(1) by (auto simp: cursor_valid_def)
  then show "\<exists>q. Index_Get ix key pos = Some (v, q) \<and> cursor_valid ix key q \<and> cursor_values ix key q = vs"
    using cursor_continue [of ix q] pos(1) by (auto simp: cursor_valid_def cursor_values_def)
qed

lemma cursor_first:
  assumes "index_inv ix" "key \<noteq> EMPTY" "key \<noteq> TOMBSTONE"
  shows "cursor_valid ix key NPOS"
    and "mset (cursor_values ix key NPOS) = image_mset snd (filter_mset (\<lambda>x. fst x = key) (index_pairs ix))"
    and "set (cursor_values ix key NPOS) = {v. (key, v) \<in># index_pairs ix}"
proof -
  show "cursor_valid ix key NPOS" using assms by (simp add: cursor_valid_def)
  show m: "mset (cursor_values ix key NPOS) = image_mset snd (filter_mset (\<lambda>x. fst x = key) (index_pairs ix))"
    using key_values_home [OF assms] by (simp add: cursor_values_def)
  show "set (cursor_values ix key NPOS) = {v. (key, v) \<in># index_pairs ix}"
    using arg_cong [OF m, of set_mset] by force
qed

section \<open>Properties\<close>

definition sample_index :: DatabaseIndex where
  "sample_index = \<lparr>ix_backed = True,
     ix_header = \<lparr>ih_magic = INDEX_MAGIC, ih_version = INDEX_VERSION, ih_offset = 4096, ih_epoch = 0,
       ih_size = 0, ih_capacity = 4, ih_limit = 3, ih_deletions = 0\<rparr>,
     ix_entries = replicate 4 \<lparr>e_key = 0, e_value = 0\<rparr>, ix_mask = 3, ix_mapped_size = 4160\<rparr>"

lemma sample_index_create: "Index_Create 4096 True OK OK True (\<lambda>_. \<lparr>e_key = 0, e_value = 0\<rparr>) 4 3 = Some (Inr sample_index)"
  by code_simp

lemma sample_index_ok: "index_inv sample_index" "index_pairs sample_index = {#}" "values_ok sample_index"
  using Index_Create_spec [OF sample_index_create] by simp_all

definition sample_index2 :: DatabaseIndex where
  "sample_index2 = sample_index\<lparr>ix_header := (ix_header sample_index)\<lparr>ih_size := 2\<rparr>,
     ix_entries := [\<lparr>e_key = 0, e_value = 0\<rparr>, \<lparr>e_key = 5, e_value = 9\<rparr>, \<lparr>e_key = 9, e_value = 7\<rparr>, \<lparr>e_key = 0, e_value = 0\<rparr>]\<rparr>"

lemma sample_index2_ok:
  "index_inv sample_index2" "index_pairs sample_index2 = {#(5, 9), (9, 7)#}" "values_ok sample_index2"
proof -
  define ix1 where "ix1 = sample_index\<lparr>ix_header := (ix_header sample_index)\<lparr>ih_size := 1\<rparr>,
     ix_entries := [\<lparr>e_key = 0, e_value = 0\<rparr>, \<lparr>e_key = 5, e_value = 9\<rparr>, \<lparr>e_key = 0, e_value = 0\<rparr>, \<lparr>e_key = 0, e_value = 0\<rparr>]\<rparr>"
  have a1: "Index_Add 5 9 sample_index = Some (1, ix1)" unfolding ix1_def by code_simp
  have a2: "Index_Add 9 7 ix1 = Some (2, sample_index2)" unfolding ix1_def by code_simp
  have i1: "index_inv ix1" "index_pairs ix1 = {#(5, 9)#}"
    using Index_Add_spec [OF sample_index_ok(1), of 5 9] a1 sample_index_ok(2)
    by (auto simp: special_keys sample_index_def)
  show "index_inv sample_index2" "index_pairs sample_index2 = {#(5, 9), (9, 7)#}"
    using Index_Add_spec [OF i1(1), of 9 7] a2 i1(2) by (auto simp: special_keys ix1_def sample_index_def add_mset_commute)
  show "values_ok sample_index2" by code_simp
qed

text \<open>
  C37: Adding to the index. As long as the index is not full, \<^verbatim>\<open>Add\<close> terminates, returns the position
  of an entry that holds the new pair, adds exactly this pair to the index and keeps the invariant:
  a chain of non-empty entries leads to every entry from its home, the header counts the used and the
  deleted entries, and an empty entry remains, so that every search ends. \<^verbatim>\<open>Exists\<close> then finds exactly
  the pairs that were there and the new one.
\<close>

theorem index_add:
  assumes "index_inv ix" "1 < key" "\<not> index_full ix"
  shows "\<exists>pos ix'. Index_Add key value ix = Some (pos, ix') \<and> index_inv ix' \<and>
    ix_entries ix' ! unat pos = \<lparr>e_key = key, e_value = value\<rparr> \<and>
    index_pairs ix' = add_mset (key, value) (index_pairs ix) \<and> Index_Check False ix' = (True, ix') \<and>
    (\<forall>k v. 1 < k \<longrightarrow> Index_Exists ix' k v = Some ((k, v) = (key, value) \<or> (k, v) \<in># index_pairs ix))"
proof -
  have k: "key \<noteq> EMPTY" "key \<noteq> TOMBSTONE" using assms(2) by (auto simp: special_keys)
  obtain pos ix' where ix': "Index_Add key value ix = Some (pos, ix')" "index_inv ix'"
    "index_pairs ix' = add_mset (key, value) (index_pairs ix)" "unat pos < length (ix_entries ix)"
    "ix_entries ix' = (ix_entries ix)[unat pos := \<lparr>e_key = key, e_value = value\<rparr>]"
    by (rule Index_Add_spec [OF assms(1) k index_not_full_room [OF assms(1,3)]])
  have "Index_Exists ix' k v = Some ((k, v) \<in># index_pairs ix')" if "1 < k" for k v
    by (rule Index_Exists_spec [OF ix'(2)]) (use that in \<open>auto simp: special_keys\<close>)
  then show ?thesis using ix' Index_Check_spec [OF ix'(2)] by auto
qed

theorem index_add_witness:
  "\<exists>pos ix'. Index_Add 13 8 sample_index2 = Some (pos, ix') \<and> index_inv ix' \<and>
    ix_entries ix' ! unat pos = \<lparr>e_key = 13, e_value = 8\<rparr> \<and>
    index_pairs ix' = {#(13, 8), (5, 9), (9, 7)#}"
proof -
  have "\<not> index_full sample_index2" by code_simp
  then show ?thesis using index_add [OF sample_index2_ok(1), of 13 8] sample_index2_ok(2) by auto
qed

text \<open>
  C38: Changing and deleting pairs. In a valid index whose entries with value zero are the empty ones, \<^verbatim>\<open>Update\<close>
  replaces one occurrence of the pair by the pair with the new value, and \<^verbatim>\<open>Delete\<close> removes one
  occurrence and leaves a tombstone; both return \<^verbatim>\<open>NPOS\<close> and change nothing if there is no such pair.
  Both terminate and keep the invariant.
\<close>

theorem index_update_delete:
  assumes "index_inv ix" "values_ok ix" "1 < key"
  shows "(\<exists>pos ix'. Index_Update key value newval ix = Some (pos, ix') \<and> index_inv ix' \<and>
      (if (key, value) \<in># index_pairs ix
       then index_pairs ix' = add_mset (key, newval) (index_pairs ix - {#(key, value)#}) \<and>
         ix_entries ix' ! unat pos = \<lparr>e_key = key, e_value = newval\<rparr>
       else pos = NPOS \<and> ix' = ix)) \<and>
    (\<exists>pos ix'. Index_Delete key value ix = Some (pos, ix') \<and> index_inv ix' \<and> values_ok ix' \<and>
      (if (key, value) \<in># index_pairs ix
       then index_pairs ix' = index_pairs ix - {#(key, value)#} \<and> e_key (ix_entries ix' ! unat pos) = TOMBSTONE
       else pos = NPOS \<and> ix' = ix))"
proof -
  have k: "key \<noteq> EMPTY" "key \<noteq> TOMBSTONE" using assms(3) by (auto simp: special_keys)
  note upd = Index_Update_spec [OF assms(1) k, of "value" newval] and del = Index_Delete_spec [OF assms(1) k assms(2), of "value"]
  show ?thesis
    by (rule conjI; cases "(key, value) \<in># index_pairs ix")
      (use upd del assms(1,2) in \<open>auto simp: NPOS_def NVAL_def\<close>)
qed

theorem index_update_delete_witness:
  "(\<exists>pos ix'. Index_Update 9 7 6 sample_index2 = Some (pos, ix') \<and> index_pairs ix' = {#(9, 6), (5, 9)#}) \<and>
   (\<exists>pos ix'. Index_Delete 5 9 sample_index2 = Some (pos, ix') \<and> index_pairs ix' = {#(9, 7)#})"
  using index_update_delete [OF sample_index2_ok(1,3), of 9 7 6] index_update_delete [OF sample_index2_ok(1,3), of 5 9 0]
    sample_index2_ok(2) by auto

text \<open>
  C36: Reading all values of a key. Calling \<^verbatim>\<open>Get\<close> from \<^verbatim>\<open>NPOS\<close> on until it returns \<^verbatim>\<open>NVAL\<close> terminates and
  returns the values of exactly the pairs with the key, each as often as it is in the index, unless
  \<^verbatim>\<open>NVAL\<close> itself has been stored as a value.
\<close>

theorem index_enumerates:
  assumes "index_inv ix" "1 < key" "(key, NVAL) \<notin># index_pairs ix"
  shows "\<exists>vs. get_all (Index_Get ix key) NPOS = Some vs \<and>
    mset vs = image_mset snd (filter_mset (\<lambda>x. fst x = key) (index_pairs ix))"
proof -
  have k: "key \<noteq> EMPTY" "key \<noteq> TOMBSTONE" using assms(2) by (auto simp: special_keys)
  note first = cursor_first [OF assms(1) k]
  have "get_all (Index_Get ix key) NPOS = Some (cursor_values ix key NPOS)"
    by (rule index.get_all_vals) (use first assms(3) in auto)
  then show ?thesis using first(2) by blast
qed

theorem index_enumerates_witness:
  "\<exists>vs. get_all (Index_Get sample_index2 9) NPOS = Some vs \<and> mset vs = {#7#}"
proof -
  have "(9, NVAL) \<notin># index_pairs sample_index2" by (simp add: sample_index2_ok(2) NVAL_def)
  then show ?thesis using index_enumerates [OF sample_index2_ok(1), of 9] by (simp add: sample_index2_ok(2))
qed

text \<open>
  Rehashing. A new index of a capacity below \<open>2 ^ 60\<close> that is created with a file is valid and
  empty, and if its limit admits the entries of the old one, \<^verbatim>\<open>TransferTo\<close> fills it with exactly
  the pairs of the old index.
\<close>

theorem index_rehash:
  assumes "Index_Create page_size True st_open st_resize mapped block capacity limit = Some (Inr new)"
    and "unat capacity < 2 ^ 60" "0 \<le> sint limit" "index_inv ix" "ih_size (ix_header ix) \<le> limit"
  shows "index_inv new \<and> index_pairs new = {#} \<and>
    (\<exists>new'. Index_TransferTo ix new = Some new' \<and> index_inv new' \<and> index_pairs new' = index_pairs ix)"
proof -
  note new = Index_Create_spec [OF assms(1-3)]
  show ?thesis using Index_TransferTo_spec [OF assms(4) new(1)] new assms(5) by auto
qed

theorem index_rehash_witness:
  "\<exists>new'. Index_TransferTo sample_index2 sample_index = Some new' \<and> index_inv new' \<and>
    index_pairs new' = {#(5, 9), (9, 7)#}"
  using index_rehash [OF sample_index_create _ _ sample_index2_ok(1)] sample_index2_ok(2)
  by (auto simp: sample_index2_def sample_index_def)

text \<open>
  Deletion stops at a value of zero. \<^verbatim>\<open>Delete\<close> compares the value, not the key, of an entry with
  \<^verbatim>\<open>EMPTY\<close>. After \<open>5 \<mapsto> 0\<close> and \<open>9 \<mapsto> 7\<close> have been added to an index with four entries, both with home
  1, the pair \<open>9 \<mapsto> 7\<close> exists but cannot be deleted.
\<close>

theorem index_delete_zero_value:
  "\<exists>ix1 ix2. Index_Add 5 0 sample_index = Some (1, ix1) \<and> Index_Add 9 7 ix1 = Some (2, ix2) \<and>
    Index_Exists ix2 9 7 = Some True \<and> Index_Delete 9 7 ix2 = Some (NPOS, ix2)"
proof -
  let ?z = "\<lparr>e_key = 0, e_value = 0\<rparr>"
  let ?ix = "\<lambda>n es. sample_index\<lparr>ix_header := (ix_header sample_index)\<lparr>ih_size := n\<rparr>, ix_entries := es\<rparr>"
  let ?ix1 = "?ix 1 [?z, \<lparr>e_key = 5, e_value = 0\<rparr>, ?z, ?z]"
  let ?ix2 = "?ix 2 [?z, \<lparr>e_key = 5, e_value = 0\<rparr>, \<lparr>e_key = 9, e_value = 7\<rparr>, ?z]"
  have "Index_Add 5 0 sample_index = Some (1, ?ix1)" by code_simp
  moreover have "Index_Add 9 7 ?ix1 = Some (2, ?ix2)" by code_simp
  moreover have "Index_Exists ?ix2 9 7 = Some True" by code_simp
  moreover have "Index_Delete 9 7 ?ix2 = Some (NPOS, ?ix2)" by code_simp
  ultimately show ?thesis by blast
qed

end
