(* ===== verification/Record_Format.thy ===== *)
theory Record_Format
  imports Varint City_Hash IO_Buffer "HOL-Library.Monad_Syntax"
begin

text \<open>
  The format of record files (\<^verbatim>\<open>sling/file/recordio.h\<close> and the first part of \<^verbatim>\<open>sling/file/recordio.cc\<close>): the file
  header, the headers of records and the search in an index page. Sizes and positions are numbers
  below \<open>2 ^ 64\<close>; where the code computes with them the wrap-around is written out. A routine that
  reads beyond the bytes that are available, or through a null pointer, has no result.
\<close>

section \<open>Records\<close>

definition DATA_RECORD :: byte where "DATA_RECORD = 1"
definition FILLER_RECORD :: byte where "FILLER_RECORD = 2"
definition INDEX_RECORD :: byte where "INDEX_RECORD = 3"
definition VDATA_RECORD :: byte where "VDATA_RECORD = 4"

lemmas record_types = DATA_RECORD_def FILLER_RECORD_def INDEX_RECORD_def VDATA_RECORD_def

definition ValidRecordType :: "byte \<Rightarrow> bool" where
  "ValidRecordType t \<longleftrightarrow> DATA_RECORD \<le> t \<and> t \<le> VDATA_RECORD"

text \<open>
  A record with key, version and value. The cells of the value are indeterminate if only its length
  is known, as after \<^verbatim>\<open>ReadKey\<close>, which sets an invalid pointer.
\<close>

record Record =
  r_type :: byte
  r_key :: "byte list"
  r_value :: "cell list"
  r_version :: nat
  r_position :: nat

definition MAX_HEADER_LEN :: nat where "MAX_HEADER_LEN = 31"
definition MAX_SKIP_LEN :: nat where "MAX_SKIP_LEN = 12"
definition MAGIC1 :: uint32 where "MAGIC1 = 0x46434552"
definition MAGIC2 :: uint32 where "MAGIC2 = 0x44434552"
definition UNCOMPRESSED :: byte where "UNCOMPRESSED = 0"
definition SNAPPY :: byte where "SNAPPY = 1"

record FileHeader =
  fh_magic :: uint32
  fh_hdrlen :: byte
  fh_compression :: byte
  fh_flags :: "16 word"
  fh_index_root :: uint64
  fh_chunk_size :: uint64
  fh_index_start :: uint64
  fh_index_page_size :: uint32
  fh_index_depth :: uint32

definition sizeof_FileHeader :: nat where "sizeof_FileHeader = 40"

record Header =
  h_type :: byte
  h_size :: nat
  h_key :: nat
  h_version :: nat

text \<open>The number of bytes read and the header, or nothing if the result is negative.\<close>

definition ReadHeader :: "byte list \<Rightarrow> (nat \<times> Header) option option" where
  "ReadHeader data = (case data of
     [] \<Rightarrow> None
   | t # p \<Rightarrow>
       if \<not> ValidRecordType t then Some None
       else case Parse64 p of
         Parsed record_size p \<Rightarrow>
           if t = FILLER_RECORD
           then Some (Some (length data - length p, \<lparr>h_type = t, h_size = unat record_size, h_key = 0, h_version = 0\<rparr>))
           else (case Parse64 p of
             Parsed key_size p \<Rightarrow>
               if t = VDATA_RECORD
               then (case Parse64 p of
                 Parsed version p \<Rightarrow> Some (Some (length data - length p,
                   \<lparr>h_type = t, h_size = unat record_size, h_key = unat key_size, h_version = unat version\<rparr>))
               | NullPtr \<Rightarrow> Some None
               | _ \<Rightarrow> None)
               else Some (Some (length data - length p,
                 \<lparr>h_type = t, h_size = unat record_size, h_key = unat key_size, h_version = 0\<rparr>))
           | NullPtr \<Rightarrow> if t = VDATA_RECORD then None else Some None
           | _ \<Rightarrow> None)
       | NullPtr \<Rightarrow> Some None
       | _ \<Rightarrow> None)"

definition WriteHeader :: "Header \<Rightarrow> byte list" where
  "WriteHeader header =
     [h_type header] @ Encode64 (of_nat (h_size header)) @
     (if h_type header \<noteq> FILLER_RECORD then Encode64 (of_nat (h_key header)) else []) @
     (if h_type header = VDATA_RECORD then Encode64 (of_nat (h_version header)) else [])"

section \<open>The file header in memory\<close>

fun store_le :: "nat \<Rightarrow> 'a::len word \<Rightarrow> byte list" where
  "store_le 0 w = []"
| "store_le (Suc n) w = ucast w # store_le n (drop_bit 8 w)"

definition file_header_bytes :: "FileHeader \<Rightarrow> byte list" where
  "file_header_bytes h = store_le 4 (fh_magic h) @ [fh_hdrlen h, fh_compression h] @ store_le 2 (fh_flags h) @
     store_le 8 (fh_index_root h) @ store_le 8 (fh_chunk_size h) @ store_le 8 (fh_index_start h) @
     store_le 4 (fh_index_page_size h) @ store_le 4 (fh_index_depth h)"

definition file_header_of :: "byte list \<Rightarrow> FileHeader" where
  "file_header_of bs = \<lparr>fh_magic = load_le (take 4 bs), fh_hdrlen = bs ! 4, fh_compression = bs ! 5,
     fh_flags = load_le (take 2 (drop 6 bs)), fh_index_root = load_le (take 8 (drop 8 bs)),
     fh_chunk_size = load_le (take 8 (drop 16 bs)), fh_index_start = load_le (take 8 (drop 24 bs)),
     fh_index_page_size = load_le (take 4 (drop 32 bs)), fh_index_depth = load_le (take 4 (drop 36 bs))\<rparr>"

section \<open>Index pages\<close>

record IndexEntry =
  ie_fingerprint :: uint64
  ie_position :: uint64

definition index_entry_bytes :: "IndexEntry \<Rightarrow> byte list" where
  "index_entry_bytes e = store_le 8 (ie_fingerprint e) @ store_le 8 (ie_position e)"

record IndexPage =
  ip_position :: nat
  ip_entries :: "IndexEntry list"
  ip_lru :: nat

fun index_entries_of :: "byte list \<Rightarrow> IndexEntry list" where
  "index_entries_of bs =
     (if length bs < 16 then []
      else \<lparr>ie_fingerprint = load_le (take 8 bs), ie_position = load_le (take 8 (drop 8 bs))\<rparr> # index_entries_of (drop 16 bs))"

declare index_entries_of.simps [simp del]

definition IndexPage_init :: "nat \<Rightarrow> byte list \<Rightarrow> IndexPage option" where
  "IndexPage_init pos data =
     (if length data mod 16 = 0 then Some \<lparr>ip_position = pos, ip_entries = index_entries_of data, ip_lru = 0\<rparr> else None)"

text \<open>The two loops of \<^verbatim>\<open>Find\<close>; \<open>lo\<close> and \<open>hi\<close> are signed and \<open>hi\<close> is \<open>-1\<close> for an empty page.\<close>

function find_bisect :: "IndexEntry list \<Rightarrow> uint64 \<Rightarrow> int \<Rightarrow> int \<Rightarrow> int \<times> int" where
  "find_bisect es fp lo hi =
     (if lo < hi
      then let mid = (lo + hi) div 2
           in if fp < ie_fingerprint (es ! nat mid) then find_bisect es fp lo (mid - 1)
              else if mid < hi \<and> ie_fingerprint (es ! nat (mid + 1)) < fp then find_bisect es fp (mid + 1) hi
              else (lo, hi)
      else (lo, hi))"
  by pat_completeness auto
termination by (relation "measure (\<lambda>(es, fp, lo, hi). nat (hi - lo))") auto

declare find_bisect.simps [simp del]

function find_forward :: "IndexEntry list \<Rightarrow> uint64 \<Rightarrow> int \<Rightarrow> int \<Rightarrow> int" where
  "find_forward es fp lo hi =
     (if lo < hi \<and> ie_fingerprint (es ! nat (lo + 1)) < fp then find_forward es fp (lo + 1) hi else lo)"
  by pat_completeness auto
termination by (relation "measure (\<lambda>(es, fp, lo, hi). nat (hi - lo))") auto

declare find_forward.simps [simp del]

definition IndexPage_Find :: "IndexPage \<Rightarrow> uint64 \<Rightarrow> int" where
  "IndexPage_Find page fp =
     (let es = ip_entries page; (lo, hi) = find_bisect es fp 0 (int (length es) - 1)
      in find_forward es fp lo hi)"

section \<open>The search in an index page\<close>

text \<open>\<open>lo\<close> is the first entry or one below the fingerprint, and no entry behind \<open>hi\<close> is below it.\<close>

definition find_inv :: "IndexEntry list \<Rightarrow> uint64 \<Rightarrow> int \<Rightarrow> int \<Rightarrow> bool" where
  "find_inv es fp lo hi \<longleftrightarrow> 0 \<le> lo \<and> lo < int (length es) \<and> hi < int (length es) \<and>
     (lo = 0 \<or> ie_fingerprint (es ! nat lo) < fp) \<and> (\<forall>i<length es. hi < int i \<longrightarrow> fp \<le> ie_fingerprint (es ! i))"

lemma find_bisect_inv:
  assumes "sorted (map ie_fingerprint es)" "find_inv es fp lo hi"
  shows "find_inv es fp (fst (find_bisect es fp lo hi)) (snd (find_bisect es fp lo hi))"
  using assms
proof (induction es fp lo hi rule: find_bisect.induct)
  case (1 es fp lo hi)
  let ?mid = "(lo + hi) div 2"
  show ?case
  proof (cases "lo < hi")
    case True
    then have mid: "lo \<le> ?mid" "?mid < hi" by auto
    consider "fp < ie_fingerprint (es ! nat ?mid)"
      | "\<not> fp < ie_fingerprint (es ! nat ?mid)" "ie_fingerprint (es ! nat (?mid + 1)) < fp"
      | "\<not> fp < ie_fingerprint (es ! nat ?mid)" "\<not> ie_fingerprint (es ! nat (?mid + 1)) < fp" by blast
    then show ?thesis
    proof cases
      case 1
      have "fp \<le> ie_fingerprint (es ! i)" if "i < length es" "?mid - 1 < int i" for i
      proof -
        have "nat ?mid \<le> i" using that(2) by linarith
        then have "ie_fingerprint (es ! nat ?mid) \<le> ie_fingerprint (es ! i)"
          using sorted_nth_mono [OF "1.prems"(1), of "nat ?mid" i] that(1) by simp
        then show ?thesis using 1 by simp
      qed
      then have "find_inv es fp lo (?mid - 1)" using "1.prems" mid by (simp add: find_inv_def)
      from "1.IH"(1) [OF True refl 1 "1.prems"(1) this] show ?thesis using True 1 by (simp add: find_bisect.simps [of es fp lo hi] Let_def)
    next
      case 2
      have "find_inv es fp (?mid + 1) hi" using "1.prems" mid 2 by (simp add: find_inv_def)
      from "1.IH"(2) [OF True refl 2(1) _ "1.prems"(1) this] show ?thesis using True 2 mid by (simp add: find_bisect.simps [of es fp lo hi] Let_def)
    next
      case 3
      then show ?thesis using True "1.prems" by (simp add: find_bisect.simps [of es fp lo hi] Let_def)
    qed
  qed (use "1.prems" in \<open>simp add: find_bisect.simps [of es fp lo hi]\<close>)
qed

lemma find_forward_inv:
  assumes "sorted (map ie_fingerprint es)" "find_inv es fp lo hi"
  shows "find_inv es fp (find_forward es fp lo hi) (find_forward es fp lo hi)"
  using assms
proof (induction es fp lo hi rule: find_forward.induct)
  case (1 es fp lo hi)
  show ?case
  proof (cases "lo < hi \<and> ie_fingerprint (es ! nat (lo + 1)) < fp")
    case True
    then have "find_inv es fp (lo + 1) hi" using "1.prems"(2) by (simp add: find_inv_def)
    from "1.IH" [OF True "1.prems"(1) this] show ?thesis using True by (simp add: find_forward.simps [of es fp lo hi])
  next
    case False
    have "fp \<le> ie_fingerprint (es ! i)" if i: "i < length es" "lo < int i" for i
    proof (cases "lo < hi")
      case True
      then have "fp \<le> ie_fingerprint (es ! nat (lo + 1))" using False by auto
      also have "\<dots> \<le> ie_fingerprint (es ! i)"
        using sorted_nth_mono [OF "1.prems"(1), of "nat (lo + 1)" i] i by simp
      finally show ?thesis .
    qed (use "1.prems"(2) i in \<open>simp add: find_inv_def\<close>)
    then show ?thesis using False "1.prems"(2) by (subst (1 2) find_forward.simps) (auto simp: find_inv_def)
  qed
qed

section \<open>Properties\<close>

text \<open>
  The search in an index page. In a page whose fingerprints are sorted, \<^verbatim>\<open>Find\<close> terminates and returns
  a valid index: that of the last entry with a fingerprint below the given one, or the first entry if there
  is none. So no entry behind it can be skipped when the lookup goes on from there.
\<close>

theorem page_find:
  assumes "sorted (map ie_fingerprint (ip_entries page))" "ip_entries page \<noteq> []"
  shows "\<exists>k<length (ip_entries page). IndexPage_Find page fp = int k \<and>
    (k = 0 \<or> ie_fingerprint (ip_entries page ! k) < fp) \<and>
    (\<forall>i<length (ip_entries page). k < i \<longrightarrow> fp \<le> ie_fingerprint (ip_entries page ! i))"
proof -
  let ?es = "ip_entries page"
  let ?r = "find_bisect ?es fp 0 (int (length ?es) - 1)"
  have "find_inv ?es fp 0 (int (length ?es) - 1)" using assms(2) by (auto simp: find_inv_def)
  note find_forward_inv [OF assms(1) find_bisect_inv [OF assms(1) this]]
  moreover have "IndexPage_Find page fp = find_forward ?es fp (fst ?r) (snd ?r)"
    by (simp add: IndexPage_Find_def Let_def split: prod.split)
  ultimately have "find_inv ?es fp (IndexPage_Find page fp) (IndexPage_Find page fp)" by simp
  then show ?thesis
    by (intro exI [of _ "nat (IndexPage_Find page fp)"]) (auto simp: find_inv_def)
qed

theorem page_find_witness:
  "\<exists>k<3. IndexPage_Find \<lparr>ip_position = 0, ip_entries = map (\<lambda>fp. \<lparr>ie_fingerprint = fp, ie_position = 0\<rparr>) [2, 5, 5], ip_lru = 0\<rparr> 5 = int k \<and>
    (k = 0 \<or> [2, 5, 5 :: uint64] ! k < 5)"
  using page_find [of "\<lparr>ip_position = 0, ip_entries = map (\<lambda>fp. \<lparr>ie_fingerprint = fp, ie_position = 0\<rparr>) [2, 5, 5], ip_lru = 0\<rparr>" 5]
  by (auto simp: less_Suc_eq numeral_3_eq_3)

end
