(* ===== verification/Record_Reader.thy ===== *)
theory Record_Reader
  imports Record_Format "HOL-Library.Sublist"
begin

text \<open>
  The reader of record files (\<^verbatim>\<open>RecordReader\<close> in \<^verbatim>\<open>sling/file/recordio.cc\<close>). The bytes of the file are an
  argument of the operations, since a writer may append to the file while it is read; the
  state of the reader holds the offset of its open file. The operating system and the
  compression library are a parameter, the record \<open>Env\<close>. The buffer for decompressed
  values and copied keys is not part of the state: it is cleared before every use.
\<close>

section \<open>Environment and state\<close>

record Env =
  os_read :: "byte list \<Rightarrow> nat \<Rightarrow> nat \<Rightarrow> Status + byte list"
  os_seek :: "nat \<Rightarrow> Status"
  os_write :: "byte list \<Rightarrow> nat \<Rightarrow> byte list \<Rightarrow> byte list \<times> Status"
  snappy_Compress :: "byte list \<Rightarrow> byte list"
  snappy_Uncompress :: "byte list \<Rightarrow> byte list option"
  snappy_GetUncompressedLength :: "byte list \<Rightarrow> nat option"

record RecordReader =
  rr_offset :: nat
  rr_size :: nat
  rr_position :: nat
  rr_readahead :: bool
  rr_validate :: bool
  rr_info :: FileHeader
  rr_input :: IOBuffer

definition EINVAL :: Status where "EINVAL = Status_Error 22"

definition Reader_Done :: "RecordReader \<Rightarrow> bool" where
  "Reader_Done rd \<longleftrightarrow> rr_size rd \<le> rr_position rd"

section \<open>Filling the input buffer\<close>

definition Reader_Fill :: "Env \<Rightarrow> byte list \<Rightarrow> nat \<Rightarrow> RecordReader \<Rightarrow> (Status \<times> RecordReader) option" where
  "Reader_Fill env data needed rd =
     (let b = IOBuffer_Flush (rr_input rd);
          requested = (if rr_readahead rd then io_remaining b else needed - io_available b)
      in if io_capacity b < needed \<or> requested = 0 then None
         else case os_read env data (rr_offset rd) requested of
           Inl st \<Rightarrow> Some (st, rd\<lparr>rr_input := b\<rparr>)
         | Inr bs \<Rightarrow>
             let b = b\<lparr>io_memory := store_cells (io_end b) (map Some bs) (io_memory b)\<rparr>
             in Some (OK, rd\<lparr>rr_offset := rr_offset rd + length bs,
                             rr_input := snd (IOBuffer_Append (length bs) b)\<rparr>))"

definition Reader_Ensure :: "Env \<Rightarrow> byte list \<Rightarrow> nat \<Rightarrow> RecordReader \<Rightarrow> (Status \<times> RecordReader) option" where
  "Reader_Ensure env data n rd =
     (if io_available (rr_input rd) < n
      then do {
        let rd = (if io_capacity (rr_input rd) < n then rd\<lparr>rr_input := IOBuffer_Resize n (rr_input rd)\<rparr> else rd);
        (st, rd) \<leftarrow> Reader_Fill env data n rd;
        Some (if st \<noteq> OK then st else if io_available (rr_input rd) < n then Status_Error 1 else OK, rd)
      }
      else Some (OK, rd))"

definition add64 :: "nat \<Rightarrow> nat \<Rightarrow> nat" where "add64 a b = (a + b) mod 2 ^ 64"

definition sub64 :: "nat \<Rightarrow> nat \<Rightarrow> nat" where "sub64 a b = (a + 2 ^ 64 - b) mod 2 ^ 64"

text \<open>The chunk size is cut to an \<^verbatim>\<open>int\<close> and converted back to 64 bits in the comparisons.\<close>

definition Reader_Validate :: "RecordReader \<Rightarrow> Header \<Rightarrow> Status" where
  "Reader_Validate rd hdr =
     (if h_type hdr = DATA_RECORD \<or> h_type hdr = VDATA_RECORD
      then let chunk_size = nat (sint (ucast (fh_chunk_size (rr_info rd)) :: 32 word) mod 2 ^ 64);
               position = rr_position rd
           in if rr_size rd < add64 (h_size hdr) position then Status_Error 1
              else if chunk_size \<noteq> 0 \<and> chunk_size < h_size hdr then Status_Error 1
              else if chunk_size \<noteq> 0 \<and>
                position div chunk_size \<noteq> sub64 (add64 position (h_size hdr)) 1 div chunk_size then Status_Error 1
              else OK
      else OK)"

section \<open>Positioning\<close>

definition Reader_Seek :: "Env \<Rightarrow> nat \<Rightarrow> RecordReader \<Rightarrow> (Status \<times> RecordReader) option" where
  "Reader_Seek env pos rd =
     (let pos = (if pos = 0 then unat (fh_hdrlen (rr_info rd)) else pos);
          offset = sint (of_nat pos - of_nat (rr_position rd) :: uint64)
      in if pos = rr_position rd then Some (OK, rd)
         else if 0 < offset \<and> offset \<le> int (io_available (rr_input rd))
         then do {
           (_, b) \<leftarrow> IOBuffer_Consume (nat offset) (rr_input rd);
           Some (OK, rd\<lparr>rr_position := pos, rr_input := b\<rparr>)
         }
         else let rd = rd\<lparr>rr_position := pos, rr_input := IOBuffer_Clear (rr_input rd), rr_readahead := False\<rparr>
              in Some (os_seek env pos, if os_seek env pos = OK then rd\<lparr>rr_offset := pos\<rparr> else rd))"

definition Reader_Rewind :: "Env \<Rightarrow> RecordReader \<Rightarrow> (Status \<times> RecordReader) option" where
  "Reader_Rewind env rd = Reader_Seek env (unat (fh_hdrlen (rr_info rd))) rd"

definition Reader_Skip :: "Env \<Rightarrow> nat \<Rightarrow> RecordReader \<Rightarrow> (Status \<times> RecordReader) option" where
  "Reader_Skip env n rd = Reader_Seek env (add64 (rr_position rd) n) rd"

section \<open>Reading records\<close>

text \<open>
  The first part of the loops of \<^verbatim>\<open>Read\<close> and \<^verbatim>\<open>ReadKey\<close>: the header of the next record that is not a filler.
\<close>

partial_function (option) next_header ::
  "Env \<Rightarrow> byte list \<Rightarrow> RecordReader \<Rightarrow> ((Status + nat \<times> Header) \<times> RecordReader) option" where
  "next_header env data rd = do {
     (st, rd) \<leftarrow> (if io_available (rr_input rd) < MAX_HEADER_LEN then Reader_Fill env data MAX_HEADER_LEN rd
                  else Some (OK, rd));
     if st \<noteq> OK then Some (Inl st, rd)
     else do {
       bytes \<leftarrow> those (io_data (rr_input rd));
       h \<leftarrow> ReadHeader bytes;
       (case h of
          None \<Rightarrow> Some (Inl (Status_Error 1), rd)
        | Some (hdrsize, hdr) \<Rightarrow>
            if rr_validate rd \<and> Reader_Validate rd hdr \<noteq> OK then Some (Inl (Reader_Validate rd hdr), rd)
            else if h_type hdr = FILLER_RECORD
            then do {
              (st, rd) \<leftarrow> Reader_Skip env (h_size hdr) rd;
              if st \<noteq> OK then Some (Inl st, rd) else next_header env data rd
            }
            else Some (Inr (hdrsize, hdr), rd))
     }
   }"

declare next_header.simps [code]

definition consume_bytes :: "nat \<Rightarrow> RecordReader \<Rightarrow> (byte list \<times> RecordReader) option" where
  "consume_bytes n rd = do {
     (cs, b) \<leftarrow> IOBuffer_Consume n (rr_input rd);
     bytes \<leftarrow> those cs;
     Some (bytes, rd\<lparr>rr_input := b\<rparr>)
   }"

definition Reader_Read :: "Env \<Rightarrow> byte list \<Rightarrow> RecordReader \<Rightarrow> ((Status + Record) \<times> RecordReader) option" where
  "Reader_Read env data rd = do {
     (h, rd) \<leftarrow> next_header env data rd;
     (case h of
        Inl st \<Rightarrow> Some (Inl st, rd)
      | Inr (hdrsize, hdr) \<Rightarrow> do {
          (_, rd) \<leftarrow> consume_bytes hdrsize rd;
          let position = rr_position rd;
          let rd = rd\<lparr>rr_position := add64 position hdrsize\<rparr>;
          (st, rd) \<leftarrow> Reader_Ensure env data (h_size hdr) rd;
          if st \<noteq> OK then Some (Inl st, rd)
          else do {
            (key, rd) \<leftarrow> consume_bytes (h_key hdr) rd;
            let value_size = sub64 (h_size hdr) (h_key hdr);
            let compression = fh_compression (rr_info rd);
            if compression \<noteq> SNAPPY \<and> compression \<noteq> UNCOMPRESSED then Some (Inl (Status_Error 1), rd)
            else do {
              (bytes, rd) \<leftarrow> consume_bytes value_size rd;
              (case (if compression = SNAPPY then snappy_Uncompress env bytes else Some bytes) of
                 None \<Rightarrow> Some (Inl EINVAL, rd)
               | Some v \<Rightarrow>
                   Some (Inr \<lparr>r_type = h_type hdr, r_key = key, r_value = map Some v, r_version = h_version hdr,
                              r_position = position\<rparr>,
                         rd\<lparr>rr_position := add64 (rr_position rd) (h_size hdr), rr_readahead := True\<rparr>))
            }
          }
        })
   }"

text \<open>The last part of \<^verbatim>\<open>ReadKey\<close> skips the value and finds out its uncompressed length.\<close>

definition skip_value :: "Env \<Rightarrow> byte list \<Rightarrow> nat \<Rightarrow> RecordReader \<Rightarrow> ((Status + nat) \<times> RecordReader) option" where
  "skip_value env data value_size rd =
     (if value_size = 0 then Some (Inr 0, rd)
      else if fh_compression (rr_info rd) = SNAPPY
      then do {
        let l = min kMax32 value_size;
        (st, rd) \<leftarrow> Reader_Ensure env data l rd;
        if st \<noteq> OK then Some (Inl st, rd)
        else do {
          (bytes, rd) \<leftarrow> consume_bytes l rd;
          vsize \<leftarrow> snappy_GetUncompressedLength env bytes;
          (st, rd) \<leftarrow> Reader_Skip env (value_size - l) (rd\<lparr>rr_position := add64 (rr_position rd) l\<rparr>);
          Some (if st \<noteq> OK then Inl st else Inr vsize, rd)
        }
      }
      else if fh_compression (rr_info rd) = UNCOMPRESSED
      then do {
        (st, rd) \<leftarrow> Reader_Skip env value_size rd;
        Some (if st \<noteq> OK then Inl st else Inr value_size, rd)
      }
      else Some (Inl (Status_Error 1), rd))"

definition Reader_ReadKey :: "Env \<Rightarrow> byte list \<Rightarrow> RecordReader \<Rightarrow> ((Status + Record) \<times> RecordReader) option" where
  "Reader_ReadKey env data rd = do {
     (h, rd) \<leftarrow> next_header env data rd;
     (case h of
        Inl st \<Rightarrow> Some (Inl st, rd)
      | Inr (hdrsize, hdr) \<Rightarrow> do {
          (_, rd) \<leftarrow> consume_bytes hdrsize rd;
          let position = rr_position rd;
          let rd = rd\<lparr>rr_position := add64 position hdrsize\<rparr>;
          (st, rd) \<leftarrow> (if 0 < h_key hdr then Reader_Ensure env data (h_key hdr) rd else Some (OK, rd));
          if st \<noteq> OK then Some (Inl st, rd)
          else do {
            (key, rd) \<leftarrow> consume_bytes (h_key hdr) rd;
            let rd = rd\<lparr>rr_position := add64 (rr_position rd) (h_key hdr)\<rparr>;
            (r, rd) \<leftarrow> skip_value env data (sub64 (h_size hdr) (h_key hdr)) rd;
            Some (case r of
                Inl st \<Rightarrow> Inl st
              | Inr vsize \<Rightarrow> Inr \<lparr>r_type = h_type hdr, r_key = key, r_value = replicate vsize None,
                  r_version = h_version hdr, r_position = position\<rparr>, rd)
          }
        })
   }"

section \<open>Opening a file\<close>

definition RecordReader_init :: "Env \<Rightarrow> byte list \<Rightarrow> nat \<Rightarrow> bool \<Rightarrow> RecordReader option" where
  "RecordReader_init env data buffer_size validate =
     (if buffer_size < sizeof_FileHeader \<or> buffer_size < MAX_HEADER_LEN then None
      else do {
        let zero = file_header_of (replicate sizeof_FileHeader 0);
        let rd = \<lparr>rr_offset = 0, rr_size = 0, rr_position = 0, rr_readahead = True, rr_validate = validate,
                  rr_info = zero, rr_input = IOBuffer_Reset buffer_size IOBuffer_init\<rparr>;
        (st, rd) \<leftarrow> Reader_Fill env data sizeof_FileHeader rd;
        if st \<noteq> OK \<or> io_available (rr_input rd) < 8 then None
        else do {
          bytes \<leftarrow> those (io_data (rr_input rd));
          let info = file_header_of (take 8 bytes @ replicate (sizeof_FileHeader - 8) 0);
          let hdrlen = unat (fh_hdrlen info);
          if (fh_magic info \<noteq> MAGIC1 \<and> fh_magic info \<noteq> MAGIC2) \<or> io_available (rr_input rd) < hdrlen then None
          else do {
            let n = max 8 (min hdrlen sizeof_FileHeader);
            let info = file_header_of (take n bytes @ replicate (sizeof_FileHeader - n) 0);
            (_, b) \<leftarrow> IOBuffer_Consume hdrlen (rr_input rd);
            Some (rd\<lparr>rr_info := info, rr_input := b, rr_position := hdrlen,
              rr_size := (if fh_index_start info \<noteq> 0 then unat (fh_index_start info) else length data)\<rparr>)
          }
        }
      })"

text \<open>\<^verbatim>\<open>ReadIndexPage\<close>; the page is an index record.\<close>

definition Reader_ReadIndexPage :: "Env \<Rightarrow> byte list \<Rightarrow> nat \<Rightarrow> RecordReader \<Rightarrow> (IndexPage \<times> RecordReader) option" where
  "Reader_ReadIndexPage env data position rd = do {
     (st, rd) \<leftarrow> Reader_Seek env position rd;
     if st \<noteq> OK then None
     else do {
       (r, rd) \<leftarrow> Reader_Read env data rd;
       (case r of
          Inl _ \<Rightarrow> None
        | Inr record \<Rightarrow> do {
            bytes \<leftarrow> those (r_value record);
            page \<leftarrow> IndexPage_init position bytes;
            Some (page, rd)
          })
     }
   }"

section \<open>Headers\<close>

definition header_ok :: "Header \<Rightarrow> bool" where
  "header_ok hdr \<longleftrightarrow> ValidRecordType (h_type hdr) \<and> h_size hdr < 2 ^ 64 \<and> h_key hdr < 2 ^ 64 \<and> h_version hdr < 2 ^ 64 \<and>
     (h_type hdr = FILLER_RECORD \<longrightarrow> h_key hdr = 0) \<and> (h_type hdr \<noteq> VDATA_RECORD \<longrightarrow> h_version hdr = 0)"

lemma unat_of_nat_uint64: "n < 2 ^ 64 \<Longrightarrow> unat (of_nat n :: uint64) = n"
  by (simp add: unsigned_of_nat take_bit_nat_eq_self)

lemma ReadHeader_WriteHeader:
  assumes "header_ok hdr"
  shows "ReadHeader (WriteHeader hdr @ rest) = Some (Some (length (WriteHeader hdr), hdr))"
  using assms
  by (cases hdr) (auto simp: ReadHeader_def WriteHeader_def header_ok_def Parse64_Encode64 unat_of_nat_uint64 record_types)

lemma length_WriteHeader: "length (WriteHeader hdr) \<le> MAX_HEADER_LEN" "0 < length (WriteHeader hdr)"
proof -
  have ten: "length (Encode64 v) \<le> 10" for v :: uint64 by (simp add: Encode64_def Encode32_def Encode32Inline_def Let_def)
  show "length (WriteHeader hdr) \<le> MAX_HEADER_LEN"
    using ten [of "of_nat (h_size hdr)"] ten [of "of_nat (h_key hdr)"] ten [of "of_nat (h_version hdr)"]
    by (auto simp: WriteHeader_def MAX_HEADER_LEN_def)
qed (simp add: WriteHeader_def)

section \<open>The reader and the file\<close>

text \<open>The operating system reads, seeks and writes as documented for files, and decompression inverts
  compression for values of less than four gigabytes, the limit of the format of the library.\<close>

definition regular :: "Env \<Rightarrow> bool" where
  "regular env \<longleftrightarrow> (\<forall>data off n. os_read env data off n = Inr (take n (drop off data))) \<and> (\<forall>pos. os_seek env pos = OK) \<and>
     (\<forall>data off bytes. os_write env data off bytes = (take off data @ bytes @ drop (off + length bytes) data, OK)) \<and>
     (\<forall>v. length v < 2 ^ 32 \<longrightarrow> snappy_Uncompress env (snappy_Compress env v) = Some v) \<and>
     (\<forall>v. length v < 2 ^ 32 \<longrightarrow> snappy_GetUncompressedLength env (take 5 (snappy_Compress env v)) = Some (length v)) \<and>
     (\<forall>v. snappy_Compress env v \<noteq> [])"

text \<open>The input buffer holds the bytes of the file from the position of the reader on.\<close>

definition reader_inv :: "byte list \<Rightarrow> RecordReader \<Rightarrow> bool" where
  "reader_inv data rd \<longleftrightarrow> io_inv (rr_input rd) \<and> MAX_HEADER_LEN \<le> io_capacity (rr_input rd) \<and>
     rr_offset rd = rr_position rd + io_available (rr_input rd) \<and> rr_offset rd \<le> length data \<and>
     io_data (rr_input rd) = map Some (take (io_available (rr_input rd)) (drop (rr_position rd) data)) \<and>
     length data < 2 ^ 63"

lemma reader_inv_bound:
  "reader_inv data rd \<Longrightarrow> rr_position rd + io_available (rr_input rd) \<le> length data"
  by (simp add: reader_inv_def)

definition same_reader :: "RecordReader \<Rightarrow> RecordReader \<Rightarrow> bool" where
  "same_reader rd rd' \<longleftrightarrow> rr_size rd' = rr_size rd \<and> rr_validate rd' = rr_validate rd \<and> rr_info rd' = rr_info rd"

lemma same_reader_refl [simp]: "same_reader rd rd"
  by (simp add: same_reader_def)

lemma same_reader_trans: "same_reader a b \<Longrightarrow> same_reader b c \<Longrightarrow> same_reader a c"
  by (simp add: same_reader_def)

lemma those_map_Some [simp]: "those (map Some xs) = Some xs"
  by (induction xs) auto

lemma take_length_take: "take (length (take n xs)) xs = take n xs"
  by (cases "n \<le> length xs") auto

lemma Flush_capacity: "io_inv b \<Longrightarrow> io_capacity (IOBuffer_Flush b) = io_capacity b"
  by (auto simp: IOBuffer_Flush_def io_defs Let_def)

text \<open>Bytes read into the free part of the buffer are appended to its contents.\<close>

lemma append_read:
  assumes "io_inv b" "length bs \<le> io_remaining b"
  defines "b' \<equiv> snd (IOBuffer_Append (length bs) (b\<lparr>io_memory := store_cells (io_end b) (map Some bs) (io_memory b)\<rparr>))"
  shows "io_inv b'" "io_data b' = io_data b @ map Some bs" "io_capacity b' = io_capacity b"
    "io_available b' = io_available b + length bs"
proof -
  let ?mem = "store_cells (io_end b) (map Some bs) (io_memory b)"
  have room: "io_end b + length bs \<le> length (io_memory b)" using assms by (auto simp: io_defs)
  then have len: "length ?mem = length (io_memory b)" by simp
  have b': "b' = b\<lparr>io_memory := ?mem, io_end := io_end b + length bs\<rparr>"
    using room len by (simp add: b'_def IOBuffer_Append_def IOBuffer_Ensure_def io_remaining_def Let_def)
  show "io_inv b'" using assms(1) room len by (simp add: b' io_inv_def)
  have "take (io_end b + length bs) ?mem = take (io_end b) (io_memory b) @ map Some bs"
    using take_store_cells [of "io_end b" "io_memory b" "map Some bs"] room by simp
  then show "io_data b' = io_data b @ map Some bs"
    using assms(1) room by (simp add: b' io_data_take io_inv_def)
  show "io_capacity b' = io_capacity b" "io_available b' = io_available b + length bs"
    using assms(1) len by (simp_all add: b' io_defs)
qed

lemma Reader_Fill_spec:
  assumes env: "regular env" and inv: "reader_inv data rd"
    and n: "needed \<le> io_capacity (rr_input rd)" "io_available (rr_input rd) < needed"
  obtains rd' where "Reader_Fill env data needed rd = Some (OK, rd')" "reader_inv data rd'"
    "rr_position rd' = rr_position rd" "same_reader rd rd'" "rr_readahead rd' = rr_readahead rd"
    "min needed (length data - rr_position rd) \<le> io_available (rr_input rd')"
    "io_capacity (rr_input rd') = io_capacity (rr_input rd)"
proof -
  let ?in = "rr_input rd"
  define b where "b = IOBuffer_Flush ?in"
  have b: "io_inv b" "io_data b = io_data ?in" "io_consumed b = 0" "io_capacity b = io_capacity ?in"
    using inv Flush_keeps [of ?in] Flush_capacity [of ?in] by (auto simp: b_def reader_inv_def)
  have av: "io_available b = io_available ?in"
    using b(1,2) inv length_io_data [of b] length_io_data [of ?in] by (simp add: reader_inv_def)
  define k where "k = (if rr_readahead rd then io_remaining b else needed - io_available b)"
  have rem: "io_remaining b = io_capacity b - io_available b"
    using b(1,3) by (auto simp: io_defs)
  then have k: "needed - io_available b \<le> k" "k \<le> io_remaining b" "k \<noteq> 0" using n b(4) av by (auto simp: k_def)
  define bs where "bs = take k (drop (rr_offset rd) data)"
  define b' where "b' = snd (IOBuffer_Append (length bs) (b\<lparr>io_memory := store_cells (io_end b) (map Some bs) (io_memory b)\<rparr>))"
  let ?rd = "rd\<lparr>rr_offset := rr_offset rd + length bs, rr_input := b'\<rparr>"
  have fill: "Reader_Fill env data needed rd = Some (OK, ?rd)"
    using env k(3) n(1) b(4)
    by (simp add: Reader_Fill_def regular_def b_def [symmetric] k_def [symmetric] bs_def [symmetric] b'_def Let_def)
  have lbs: "length bs = min k (length data - rr_offset rd)" "bs = take (length bs) (drop (rr_offset rd) data)"
    using take_length_take [of k "drop (rr_offset rd) data"] by (auto simp: bs_def)
  have b': "io_inv b'" "io_data b' = io_data b @ map Some bs" "io_capacity b' = io_capacity b"
    "io_available b' = io_available b + length bs"
    using append_read [OF b(1), of bs] lbs(1) k(2) by (simp_all add: b'_def)
  have "io_data b' = map Some (take (io_available ?in) (drop (rr_position rd) data) @ take (length bs) (drop (rr_offset rd) data))"
    using inv b'(2) b(2) lbs(2) by (simp add: reader_inv_def)
  also have "\<dots> = map Some (take (io_available b') (drop (rr_position rd) data))"
    using inv b'(4) av by (simp add: reader_inv_def take_add add.commute [of "rr_position rd"])
  finally have rd: "reader_inv data ?rd"
    using inv b'(1,3,4) b(4) av lbs(1) reader_inv_bound [OF inv] by (auto simp: reader_inv_def)
  have "min needed (length data - rr_position rd) \<le> io_available b'"
    using b'(4) lbs(1) k(1) av inv n(2) by (simp add: reader_inv_def)
  then show thesis using that [of ?rd] fill rd b'(3) b(4) by (simp add: same_reader_def)
qed

lemma Resize_grows:
  assumes "io_inv b" "io_capacity b \<le> n"
  shows "io_inv (IOBuffer_Resize n b)" "io_data (IOBuffer_Resize n b) = io_data b"
    "io_capacity (IOBuffer_Resize n b) = n" "io_available (IOBuffer_Resize n b) = io_available b"
  using assms Resize_keeps [of b n] by (auto simp: io_inv_def io_capacity_def io_available_def)

lemma Reader_Ensure_spec:
  assumes env: "regular env" and inv: "reader_inv data rd" and n: "rr_position rd + n \<le> length data"
  obtains rd' where "Reader_Ensure env data n rd = Some (OK, rd')" "reader_inv data rd'"
    "rr_position rd' = rr_position rd" "same_reader rd rd'" "rr_readahead rd' = rr_readahead rd"
    "n \<le> io_available (rr_input rd')"
proof (cases "io_available (rr_input rd) < n")
  case True
  define rd1 where "rd1 = (if io_capacity (rr_input rd) < n then rd\<lparr>rr_input := IOBuffer_Resize n (rr_input rd)\<rparr> else rd)"
  have rd1: "reader_inv data rd1" "n \<le> io_capacity (rr_input rd1)" "io_available (rr_input rd1) = io_available (rr_input rd)"
    "same_reader rd rd1" "rr_position rd1 = rr_position rd" "rr_readahead rd1 = rr_readahead rd"
    using inv Resize_grows [of "rr_input rd" n] by (auto simp: rd1_def reader_inv_def same_reader_def)
  have lt: "io_available (rr_input rd1) < n" using True rd1(3) by simp
  show ?thesis
  proof (rule Reader_Fill_spec [OF env rd1(1,2) lt])
    fix rd'
    assume rd': "Reader_Fill env data n rd1 = Some (OK, rd')" "reader_inv data rd'" "rr_position rd' = rr_position rd1"
      "same_reader rd1 rd'" "rr_readahead rd' = rr_readahead rd1"
      "min n (length data - rr_position rd1) \<le> io_available (rr_input rd')"
    then have "n \<le> io_available (rr_input rd')" using n rd1(5) by simp
    moreover from this have "Reader_Ensure env data n rd = Some (OK, rd')"
      using True rd'(1) by (simp add: Reader_Ensure_def rd1_def [symmetric] Let_def)
    ultimately show ?thesis using that rd' rd1 same_reader_trans by simp
  qed
qed (use that inv in \<open>simp add: Reader_Ensure_def\<close>)

lemma consume_bytes_spec:
  assumes "reader_inv data rd" "n \<le> io_available (rr_input rd)"
  obtains rd' where "consume_bytes n rd = Some (take n (drop (rr_position rd) data), rd')"
    "reader_inv data (rd'\<lparr>rr_position := rr_position rd + n\<rparr>)" "same_reader rd rd'"
    "rr_position rd' = rr_position rd" "rr_readahead rd' = rr_readahead rd"
    "io_available (rr_input rd') = io_available (rr_input rd) - n"
proof -
  let ?b = "rr_input rd" and ?b' = "(rr_input rd)\<lparr>io_begin := io_begin (rr_input rd) + n\<rparr>"
  have inv: "io_inv ?b" using assms(1) by (simp add: reader_inv_def)
  then have le: "n \<le> length (io_data ?b)" using assms(2) by (simp only: length_io_data)
  note con = Consume_consumes [OF inv le]
  have av: "io_available ?b' = io_available ?b - n" by (simp add: io_available_def)
  have "n \<le> length data - rr_position rd" using reader_inv_bound [OF assms(1)] assms(2) by linarith
  then have "take n (io_data ?b) = map Some (take n (drop (rr_position rd) data))"
    using assms by (simp add: reader_inv_def take_map min_absorb1)
  then have "consume_bytes n rd = Some (take n (drop (rr_position rd) data), rd\<lparr>rr_input := ?b'\<rparr>)"
    using con(1) by (simp add: consume_bytes_def)
  moreover have "io_data ?b' = map Some (take (io_available ?b') (drop (rr_position rd + n) data))"
    using con(3) assms av by (simp add: reader_inv_def drop_map drop_take drop_drop add.commute)
  then have "reader_inv data (rd\<lparr>rr_input := ?b', rr_position := rr_position rd + n\<rparr>)"
    using con(2) av assms by (simp add: reader_inv_def io_capacity_def)
  ultimately show thesis using that [of "rd\<lparr>rr_input := ?b'\<rparr>"] av by (simp add: same_reader_def)
qed

lemma sint_position_diff:
  assumes "a < 2 ^ 63" "b < 2 ^ 63"
  shows "sint (of_nat a - of_nat b :: uint64) = int a - int b"
proof -
  have eq: "of_nat a - of_nat b = (word_of_int (int a - int b) :: uint64)" by simp
  have "- (2 ^ 63) \<le> int a - int b" "int a - int b < 2 ^ 63" using assms by simp_all
  then show ?thesis unfolding eq by (simp only: sint_sbintrunc') (simp add: signed_take_bit_int_eq_self)
qed

lemma Reader_Seek_spec:
  assumes env: "regular env" and inv: "reader_inv data rd" and p: "pos \<le> length data" "pos \<noteq> 0"
  obtains rd' where "Reader_Seek env pos rd = Some (OK, rd')" "reader_inv data rd'" "rr_position rd' = pos" "same_reader rd rd'"
proof -
  let ?p = "rr_position rd" and ?b = "rr_input rd"
  have "?p \<le> length data" "length data < 2 ^ 63" using inv by (auto simp: reader_inv_def)
  then have off: "sint (of_nat pos - of_nat ?p :: uint64) = int pos - int ?p"
    using p by (intro sint_position_diff) auto
  define far where "far = rd\<lparr>rr_position := pos, rr_input := IOBuffer_Clear ?b, rr_readahead := False, rr_offset := pos\<rparr>"
  have ok: "os_seek env pos = OK" using env by (simp add: regular_def)
  have seek: "Reader_Seek env pos rd = (if pos = ?p then Some (OK, rd)
      else if ?p < pos \<and> pos - ?p \<le> io_available ?b
      then map_option (\<lambda>(_, b). (OK, rd\<lparr>rr_position := pos, rr_input := b\<rparr>)) (IOBuffer_Consume (pos - ?p) ?b)
      else Some (OK, far))"
  proof -
    have "(0 < int pos - int ?p \<and> int pos - int ?p \<le> int (io_available ?b)) = (?p < pos \<and> pos - ?p \<le> io_available ?b)"
      "nat (int pos - int ?p) = pos - ?p" by auto
    then show ?thesis
      using p(2) unfolding Reader_Seek_def Let_def if_not_P [OF p(2)] off ok far_def
      by (simp add: map_option_case split: option.split)
  qed
  have far: "reader_inv data far" using inv p by (simp add: far_def reader_inv_def IOBuffer_Clear_def io_defs)
  show thesis
  proof (cases "?p < pos \<and> pos - ?p \<le> io_available ?b")
    case True
    then obtain rd' where rd': "consume_bytes (pos - ?p) rd = Some (take (pos - ?p) (drop ?p data), rd')"
      "reader_inv data (rd'\<lparr>rr_position := pos\<rparr>)" "same_reader rd rd'"
      using consume_bytes_spec [OF inv, of "pos - ?p"] by auto
    then obtain cs b where "IOBuffer_Consume (pos - ?p) ?b = Some (cs, b)" "rd' = rd\<lparr>rr_input := b\<rparr>"
      by (auto simp: consume_bytes_def split: bind_splits)
    then have "Reader_Seek env pos rd = Some (OK, rd'\<lparr>rr_position := pos\<rparr>)"
      using True by (simp add: seek)
    then show ?thesis by (rule that [OF _ rd'(2)]) (use rd'(3) in \<open>simp_all add: same_reader_def\<close>)
  next
    case False
    show ?thesis
    proof (cases "pos = ?p")
      case True
      then show ?thesis using seek inv by (intro that [of rd]) simp_all
    next
      case ne: False
      then have "Reader_Seek env pos rd = Some (OK, far)" using False unfolding seek by auto
      then show ?thesis by (rule that [OF _ far]) (simp_all add: far_def same_reader_def)
    qed
  qed
qed

section \<open>Reading what is stored\<close>

definition bytes_at :: "byte list \<Rightarrow> nat \<Rightarrow> byte list \<Rightarrow> bool" where
  "bytes_at data pos bs \<longleftrightarrow> prefix bs (drop pos data)"

lemma bytes_at_append: "bytes_at data pos bs \<Longrightarrow> bytes_at (data @ ys) pos bs"
  by (auto simp: bytes_at_def prefix_def)

lemma bytes_at_split: "bytes_at data pos (a @ b) \<longleftrightarrow> bytes_at data pos a \<and> bytes_at data (pos + length a) b"
proof -
  have "prefix (a @ b) xs \<longleftrightarrow> prefix a xs \<and> prefix b (drop (length a) xs)" for xs
    by (auto simp: prefix_def)
  then show ?thesis by (simp add: bytes_at_def add.commute)
qed

lemma bytes_at_take: "bytes_at data pos bs \<Longrightarrow> take (length bs) (drop pos data) = bs"
  by (auto simp: bytes_at_def prefix_def)

lemma bytes_at_length: "bytes_at data pos bs \<Longrightarrow> bs \<noteq> [] \<Longrightarrow> pos + length bs \<le> length data"
  by (cases bs) (auto simp: bytes_at_def dest!: prefix_length_le)

lemma fill_header:
  assumes env: "regular env" and inv: "reader_inv data rd" and at: "bytes_at data (rr_position rd) (WriteHeader hdr)"
  obtains rd' rest where "(if io_available (rr_input rd) < MAX_HEADER_LEN then Reader_Fill env data MAX_HEADER_LEN rd
      else Some (OK, rd)) = Some (OK, rd')" "reader_inv data rd'" "rr_position rd' = rr_position rd" "same_reader rd rd'"
    "those (io_data (rr_input rd')) = Some (WriteHeader hdr @ rest)"
    "length (WriteHeader hdr) \<le> io_available (rr_input rd')"
proof -
  let ?h = "WriteHeader hdr"
  have len: "rr_position rd + length ?h \<le> length data" using bytes_at_length [OF at] length_WriteHeader(2) [of hdr] by auto
  obtain rd' where rd': "(if io_available (rr_input rd) < MAX_HEADER_LEN then Reader_Fill env data MAX_HEADER_LEN rd
      else Some (OK, rd)) = Some (OK, rd')" "reader_inv data rd'" "rr_position rd' = rr_position rd" "same_reader rd rd'"
    "min MAX_HEADER_LEN (length data - rr_position rd) \<le> io_available (rr_input rd')"
  proof (cases "io_available (rr_input rd) < MAX_HEADER_LEN")
    case True
    have cap: "MAX_HEADER_LEN \<le> io_capacity (rr_input rd)" using inv by (simp add: reader_inv_def)
    show ?thesis by (rule Reader_Fill_spec [OF env inv cap True]) (use that True in simp)
  qed (use that inv in auto)
  then have av: "length ?h \<le> io_available (rr_input rd')" using length_WriteHeader(1) [of hdr] len by simp
  have "take (io_available (rr_input rd')) (drop (rr_position rd) data) = ?h @ drop (length ?h) (take (io_available (rr_input rd')) (drop (rr_position rd) data))"
    using av append_take_drop_id [of "length ?h" "take (io_available (rr_input rd')) (drop (rr_position rd) data)"]
    using bytes_at_take [OF at] by (simp add: min_absorb1)
  then show thesis using that [OF rd'(1-4), of "drop (length ?h) (take (io_available (rr_input rd')) (drop (rr_position rd) data))"] av rd'(2,3)
    by (simp add: reader_inv_def)
qed

lemma Validate_same:
  "same_reader rd rd' \<Longrightarrow> rr_position rd' = rr_position rd \<Longrightarrow> Reader_Validate rd' hdr = Reader_Validate rd hdr"
  by (simp add: Reader_Validate_def same_reader_def)

lemma next_header_record:
  assumes env: "regular env" and inv: "reader_inv data rd" and at: "bytes_at data (rr_position rd) (WriteHeader hdr)"
    and h: "header_ok hdr" "h_type hdr \<noteq> FILLER_RECORD" "rr_validate rd \<longrightarrow> Reader_Validate rd hdr = OK"
  obtains rd' where "next_header env data rd = Some (Inr (length (WriteHeader hdr), hdr), rd')" "reader_inv data rd'"
    "rr_position rd' = rr_position rd" "same_reader rd rd'" "length (WriteHeader hdr) \<le> io_available (rr_input rd')"
proof (rule fill_header [OF env inv at])
  fix rd' rest
  assume rd': "(if io_available (rr_input rd) < MAX_HEADER_LEN then Reader_Fill env data MAX_HEADER_LEN rd
      else Some (OK, rd)) = Some (OK, rd')" "reader_inv data rd'" "rr_position rd' = rr_position rd" "same_reader rd rd'"
    "those (io_data (rr_input rd')) = Some (WriteHeader hdr @ rest)" "length (WriteHeader hdr) \<le> io_available (rr_input rd')"
  have "next_header env data rd = Some (Inr (length (WriteHeader hdr), hdr), rd')"
    using rd'(3-5) h ReadHeader_WriteHeader [OF h(1), of rest] Validate_same [OF rd'(4,3), of hdr]
    by (subst next_header.simps) (simp add: rd'(1) same_reader_def)
  then show thesis using that rd' by blast
qed

lemma next_header_filler:
  assumes env: "regular env" and inv: "reader_inv data rd" and at: "bytes_at data (rr_position rd) (WriteHeader hdr)"
    and h: "header_ok hdr" "h_type hdr = FILLER_RECORD" "0 < h_size hdr" "rr_position rd + h_size hdr \<le> length data"
  obtains rd' where "next_header env data rd = next_header env data rd'" "reader_inv data rd'"
    "rr_position rd' = rr_position rd + h_size hdr" "same_reader rd rd'"
proof (rule fill_header [OF env inv at])
  fix rd1 rest
  assume rd1: "(if io_available (rr_input rd) < MAX_HEADER_LEN then Reader_Fill env data MAX_HEADER_LEN rd
      else Some (OK, rd)) = Some (OK, rd1)" "reader_inv data rd1" "rr_position rd1 = rr_position rd" "same_reader rd rd1"
    "those (io_data (rr_input rd1)) = Some (WriteHeader hdr @ rest)"
  let ?pos = "rr_position rd + h_size hdr"
  have "length data < 2 ^ 63" using inv by (simp add: reader_inv_def)
  then have a: "add64 (rr_position rd1) (h_size hdr) = ?pos" using h(4) rd1(3) by (simp add: add64_def)
  have v: "Reader_Validate rd1 hdr = OK" using h(2) by (simp add: Reader_Validate_def record_types)
  show thesis
  proof (rule Reader_Seek_spec [OF env rd1(2) h(4)])
    fix rd2 assume rd2: "Reader_Seek env ?pos rd1 = Some (OK, rd2)" "reader_inv data rd2" "rr_position rd2 = ?pos" "same_reader rd1 rd2"
    have "next_header env data rd = next_header env data rd2"
      using rd1(5) h ReadHeader_WriteHeader [OF h(1), of rest] v rd2(1) a
      by (subst next_header.simps) (simp add: rd1(1) Reader_Skip_def)
    then show thesis using that rd2 same_reader_trans [OF rd1(4)] by blast
  qed (use h(3) in simp)
qed

text \<open>The bytes of a record with its header, key and stored value.\<close>

definition stored_value :: "Env \<Rightarrow> byte \<Rightarrow> byte list \<Rightarrow> byte list" where
  "stored_value env compression v = (if compression = SNAPPY then snappy_Compress env v else v)"

definition stored :: "Env \<Rightarrow> byte list \<Rightarrow> RecordReader \<Rightarrow> Header \<Rightarrow> byte list \<Rightarrow> byte list \<Rightarrow> bool" where
  "stored env data rd hdr key v \<longleftrightarrow>
     (let sv = stored_value env (fh_compression (rr_info rd)) v
      in header_ok hdr \<and> h_type hdr \<noteq> FILLER_RECORD \<and> h_key hdr = length key \<and> h_size hdr = length key + length sv \<and>
         length v < 2 ^ 32 \<and> bytes_at data (rr_position rd) (WriteHeader hdr @ key @ sv) \<and>
         fh_compression (rr_info rd) \<in> {SNAPPY, UNCOMPRESSED} \<and> (rr_validate rd \<longrightarrow> Reader_Validate rd hdr = OK))"

lemma reader_inv_readahead [simp]: "reader_inv data (rd\<lparr>rr_readahead := x\<rparr>) = reader_inv data rd"
  by (simp add: reader_inv_def)

lemma same_reader_update [simp]:
  "same_reader rd (rd'\<lparr>rr_position := p\<rparr>) = same_reader rd rd'" "same_reader (rd\<lparr>rr_position := p\<rparr>) rd' = same_reader rd rd'"
  "same_reader rd (rd'\<lparr>rr_readahead := x\<rparr>) = same_reader rd rd'"
  by (simp_all add: same_reader_def)

lemma consume_bytes_at:
  assumes "reader_inv data (rd\<lparr>rr_position := p\<rparr>)" "bytes_at data p bs" "length bs \<le> io_available (rr_input rd)"
  obtains rd' where "consume_bytes (length bs) rd = Some (bs, rd')" "reader_inv data (rd'\<lparr>rr_position := p + length bs\<rparr>)"
    "same_reader rd rd'" "rr_position rd' = rr_position rd" "io_available (rr_input rd') = io_available (rr_input rd) - length bs"
proof (rule consume_bytes_spec [OF assms(1), of "length bs"])
  fix rd'
  assume rd': "consume_bytes (length bs) (rd\<lparr>rr_position := p\<rparr>) = Some (take (length bs) (drop (rr_position (rd\<lparr>rr_position := p\<rparr>)) data), rd')"
    "reader_inv data (rd'\<lparr>rr_position := rr_position (rd\<lparr>rr_position := p\<rparr>) + length bs\<rparr>)"
    "same_reader (rd\<lparr>rr_position := p\<rparr>) rd'" "io_available (rr_input rd') = io_available (rr_input (rd\<lparr>rr_position := p\<rparr>)) - length bs"
  then have "consume_bytes (length bs) rd = Some (bs, rd'\<lparr>rr_position := rr_position rd\<rparr>)"
    using bytes_at_take [OF assms(2)] by (auto simp: consume_bytes_def split: bind_splits)
  then show thesis using that [of "rd'\<lparr>rr_position := rr_position rd\<rparr>"] rd'(2-4) by simp
qed (use assms(3) in simp)

lemma stored_layout:
  assumes "stored env data rd hdr key v" "reader_inv data rd"
  defines "sv \<equiv> stored_value env (fh_compression (rr_info rd)) v" and "p \<equiv> rr_position rd + length (WriteHeader hdr)"
  shows "header_ok hdr" "h_type hdr \<noteq> FILLER_RECORD" "rr_validate rd \<longrightarrow> Reader_Validate rd hdr = OK"
    "h_key hdr = length key" "h_size hdr = length key + length sv"
    "bytes_at data (rr_position rd) (WriteHeader hdr)" "bytes_at data p key" "bytes_at data (p + length key) sv"
    "fh_compression (rr_info rd) = SNAPPY \<or> fh_compression (rr_info rd) = UNCOMPRESSED"
    "p + h_size hdr \<le> length data" "length data < 2 ^ 63" "length v < 2 ^ 32"
proof -
  have all: "bytes_at data (rr_position rd) (WriteHeader hdr @ key @ sv)" and len: "h_size hdr = length key + length sv"
    using assms(1) by (auto simp: stored_def sv_def Let_def)
  then show "p + h_size hdr \<le> length data"
    using bytes_at_length [OF all] length_WriteHeader(2) [of hdr] by (auto simp: p_def)
qed (use assms in \<open>auto simp: stored_def Let_def bytes_at_split reader_inv_def\<close>)

lemma add64_small: "a + b \<le> n \<Longrightarrow> n < 2 ^ 63 \<Longrightarrow> add64 a b = a + b"
  by (simp add: add64_def)

lemma sub64_small:
  assumes "b \<le> a" "a < 2 ^ 64"
  shows "sub64 a b = a - b"
proof -
  have "a + 2 ^ 64 - b = (a - b) + 2 ^ 64" using assms(1) by simp
  then have "sub64 a b = (a - b) mod 2 ^ 64" unfolding sub64_def by (simp only: mod_add_self2)
  then show ?thesis using assms(2) by simp
qed

lemma stored_header:
  assumes env: "regular env" and inv: "reader_inv data rd" and st: "stored env data rd hdr key v"
  obtains rd1 rd2 where "next_header env data rd = Some (Inr (length (WriteHeader hdr), hdr), rd1)"
    "consume_bytes (length (WriteHeader hdr)) rd1 = Some (WriteHeader hdr, rd2)"
    "reader_inv data (rd2\<lparr>rr_position := rr_position rd + length (WriteHeader hdr)\<rparr>)" "same_reader rd rd2"
    "rr_position rd2 = rr_position rd" "add64 (rr_position rd) (length (WriteHeader hdr)) = rr_position rd + length (WriteHeader hdr)"
proof -
  note lay = stored_layout [OF st inv]
  obtain rd1 where rd1: "next_header env data rd = Some (Inr (length (WriteHeader hdr), hdr), rd1)" "reader_inv data rd1"
    "rr_position rd1 = rr_position rd" "same_reader rd rd1" "length (WriteHeader hdr) \<le> io_available (rr_input rd1)"
    by (rule next_header_record [OF env inv lay(6,1-3)])
  have "reader_inv data (rd1\<lparr>rr_position := rr_position rd\<rparr>)" using rd1(2,3) by (simp add: reader_inv_def)
  then obtain rd2 where "consume_bytes (length (WriteHeader hdr)) rd1 = Some (WriteHeader hdr, rd2)"
    "reader_inv data (rd2\<lparr>rr_position := rr_position rd + length (WriteHeader hdr)\<rparr>)" "same_reader rd1 rd2"
    "rr_position rd2 = rr_position rd1"
    by (rule consume_bytes_at [OF _ lay(6) rd1(5)])
  then show thesis
    using that [OF rd1(1)] rd1(3,4) same_reader_trans add64_small [OF _ lay(11)] lay(10) by simp
qed

lemma Reader_Read_stored:
  assumes env: "regular env" and inv: "reader_inv data rd" and st: "stored env data rd hdr key v"
  obtains rd' where "Reader_Read env data rd = Some (Inr \<lparr>r_type = h_type hdr, r_key = key, r_value = map Some v,
      r_version = h_version hdr, r_position = rr_position rd\<rparr>, rd')" "reader_inv data rd'"
    "rr_position rd' = rr_position rd + length (WriteHeader hdr) + h_size hdr" "same_reader rd rd'"
proof -
  let ?p = "rr_position rd + length (WriteHeader hdr)"
  define sv where "sv = stored_value env (fh_compression (rr_info rd)) v"
  note lay = stored_layout [OF st inv, folded sv_def]
  obtain rd1 rd2 where rd2: "next_header env data rd = Some (Inr (length (WriteHeader hdr), hdr), rd1)"
    "consume_bytes (length (WriteHeader hdr)) rd1 = Some (WriteHeader hdr, rd2)"
    "reader_inv data (rd2\<lparr>rr_position := ?p\<rparr>)" "same_reader rd rd2" "rr_position rd2 = rr_position rd"
    "add64 (rr_position rd) (length (WriteHeader hdr)) = ?p"
    by (rule stored_header [OF env inv st])
  obtain rd3 where rd3: "Reader_Ensure env data (h_size hdr) (rd2\<lparr>rr_position := ?p\<rparr>) = Some (OK, rd3)" "reader_inv data rd3"
    "rr_position rd3 = ?p" "same_reader rd2 rd3" "h_size hdr \<le> io_available (rr_input rd3)"
    using Reader_Ensure_spec [OF env rd2(3), of "h_size hdr"] lay(10) by auto
  have "reader_inv data (rd3\<lparr>rr_position := ?p\<rparr>)" using rd3(2,3) by (simp add: reader_inv_def)
  then obtain rd4 where rd4: "consume_bytes (length key) rd3 = Some (key, rd4)"
    "reader_inv data (rd4\<lparr>rr_position := ?p + length key\<rparr>)" "same_reader rd3 rd4" "rr_position rd4 = ?p"
    "length sv \<le> io_available (rr_input rd4)"
    using consume_bytes_at [OF _ lay(7)] rd3(3,5) lay(5) by (metis add_diff_cancel_left' add_leD1 diff_le_mono)
  obtain rd5 where rd5: "consume_bytes (length sv) rd4 = Some (sv, rd5)"
    "reader_inv data (rd5\<lparr>rr_position := ?p + length key + length sv\<rparr>)" "same_reader rd4 rd5" "rr_position rd5 = ?p"
    using consume_bytes_at [OF rd4(2) lay(8) rd4(5)] rd4(4) by metis
  let ?rd = "rd5\<lparr>rr_position := ?p + h_size hdr, rr_readahead := True\<rparr>"
  have same: "same_reader rd rd4" "same_reader rd rd5"
    using rd2(4) rd3(4) rd4(3) rd5(3) same_reader_trans by blast+
  have "sub64 (h_size hdr) (h_key hdr) = length sv" using lay(4,5,10,11) by (simp add: sub64_small)
  moreover have "add64 ?p (h_size hdr) = ?p + h_size hdr" using lay(10,11) by (rule add64_small)
  moreover have "(if fh_compression (rr_info rd) = SNAPPY then snappy_Uncompress env sv else Some sv) = Some v"
    using env lay(9,12) by (auto simp: sv_def stored_value_def regular_def)
  ultimately have "Reader_Read env data rd = Some (Inr \<lparr>r_type = h_type hdr, r_key = key, r_value = map Some v,
      r_version = h_version hdr, r_position = rr_position rd\<rparr>, ?rd)"
    using rd2 rd3(1,3) rd4(1,4) rd5(1,4) same lay(4,9)
    by (auto simp: Reader_Read_def same_reader_def Let_def)
  then show thesis
    by (rule that) (use rd5(2) same(2) lay(5) in \<open>simp_all add: add.assoc\<close>)
qed

lemma Reader_Skip_spec:
  assumes env: "regular env" and inv: "reader_inv data rd" and n: "rr_position rd + n \<le> length data" "0 < rr_position rd"
  obtains rd' where "Reader_Skip env n rd = Some (OK, rd')" "reader_inv data rd'" "rr_position rd' = rr_position rd + n"
    "same_reader rd rd'"
proof -
  have "add64 (rr_position rd) n = rr_position rd + n" using n(1) inv by (intro add64_small) (auto simp: reader_inv_def)
  then show thesis using that Reader_Seek_spec [OF env inv n(1)] n(2) unfolding Reader_Skip_def by (metis add_is_0 neq0_conv)
qed

lemma skip_value_stored:
  assumes env: "regular env" and inv: "reader_inv data rd" and at: "bytes_at data (rr_position rd) sv"
    and sv: "sv = stored_value env (fh_compression (rr_info rd)) v" "0 < rr_position rd" "rr_position rd + length sv \<le> length data"
    and comp: "fh_compression (rr_info rd) = SNAPPY \<or> fh_compression (rr_info rd) = UNCOMPRESSED" "length v < 2 ^ 32"
  obtains rd' where "skip_value env data (length sv) rd = Some (Inr (length v), rd')"
    "reader_inv data rd'" "rr_position rd' = rr_position rd + length sv" "same_reader rd rd'"
proof -
  let ?l = "min kMax32 (length sv)" and ?p = "rr_position rd"
  have small: "length data < 2 ^ 63" using inv by (simp add: reader_inv_def)
  consider "sv = []" "v = []" | "sv \<noteq> []" "fh_compression (rr_info rd) = SNAPPY"
    | "sv \<noteq> []" "sv = v" "fh_compression (rr_info rd) = UNCOMPRESSED" "UNCOMPRESSED \<noteq> SNAPPY"
    using sv(1) comp(1) env by (cases "sv = []") (auto simp: stored_value_def regular_def SNAPPY_def UNCOMPRESSED_def)
  then show thesis
  proof cases
    case 1
    then show ?thesis using inv by (intro that [of rd]) (simp_all add: skip_value_def)
  next
    case 3
    obtain rd' where "Reader_Skip env (length sv) rd = Some (OK, rd')" "reader_inv data rd'"
      "rr_position rd' = ?p + length sv" "same_reader rd rd'"
      by (rule Reader_Skip_spec [OF env inv sv(3,2)])
    then show ?thesis using 3 by (intro that [of rd']) (simp_all add: skip_value_def)
  next
    case 2
    have t5: "length (take 5 sv) = ?l" by (simp add: kMax32_def min.commute)
    have at5: "bytes_at data ?p (take 5 sv)" using at bytes_at_split [of data ?p "take 5 sv" "drop 5 sv"] by simp
    have le: "?p + ?l \<le> length data" using sv(3) by linarith
    obtain rd1 where rd1: "Reader_Ensure env data ?l rd = Some (OK, rd1)" "reader_inv data rd1" "rr_position rd1 = ?p"
      "same_reader rd rd1" "?l \<le> io_available (rr_input rd1)"
      by (rule Reader_Ensure_spec [OF env inv le]) (rule that)
    have "reader_inv data (rd1\<lparr>rr_position := ?p\<rparr>)" using rd1(2,3) by (simp add: reader_inv_def)
    then obtain rd2 where rd2: "consume_bytes ?l rd1 = Some (take 5 sv, rd2)"
      "reader_inv data (rd2\<lparr>rr_position := ?p + ?l\<rparr>)" "same_reader rd1 rd2" "rr_position rd2 = ?p"
      using consume_bytes_at [OF _ at5] rd1(3,5) unfolding t5 by metis
    have a: "add64 ?p ?l = ?p + ?l" using le small by (rule add64_small)
    obtain rd3 where rd3: "Reader_Skip env (length sv - ?l) (rd2\<lparr>rr_position := ?p + ?l\<rparr>) = Some (OK, rd3)"
      "reader_inv data rd3" "rr_position rd3 = ?p + length sv" "same_reader rd2 rd3"
      using Reader_Skip_spec [OF env rd2(2), of "length sv - ?l"] sv(2,3) by auto
    have "snappy_GetUncompressedLength env (take 5 sv) = Some (length v)"
      using env 2 comp(2) by (simp add: sv(1) stored_value_def regular_def)
    then have "skip_value env data (length sv) rd = Some (Inr (length v), rd3)"
      using 2 rd1(1) rd2(1,4) rd3(1) a by (simp add: skip_value_def)
    moreover have "same_reader rd rd3" using rd1(4) rd2(3) rd3(4) same_reader_trans by blast
    ultimately show ?thesis by (rule that [OF _ rd3(2,3)])
  qed
qed

lemma Reader_ReadKey_stored:
  assumes env: "regular env" and inv: "reader_inv data rd" and st: "stored env data rd hdr key v"
  obtains rd' where "Reader_ReadKey env data rd = Some (Inr \<lparr>r_type = h_type hdr, r_key = key, r_value = replicate (length v) None,
      r_version = h_version hdr, r_position = rr_position rd\<rparr>, rd')" "reader_inv data rd'"
    "rr_position rd' = rr_position rd + length (WriteHeader hdr) + h_size hdr" "same_reader rd rd'"
proof -
  let ?p = "rr_position rd + length (WriteHeader hdr)"
  define sv where "sv = stored_value env (fh_compression (rr_info rd)) v"
  note lay = stored_layout [OF st inv, folded sv_def]
  obtain rd1 rd2 where rd2: "next_header env data rd = Some (Inr (length (WriteHeader hdr), hdr), rd1)"
    "consume_bytes (length (WriteHeader hdr)) rd1 = Some (WriteHeader hdr, rd2)"
    "reader_inv data (rd2\<lparr>rr_position := ?p\<rparr>)" "same_reader rd rd2" "rr_position rd2 = rr_position rd"
    "add64 (rr_position rd) (length (WriteHeader hdr)) = ?p"
    by (rule stored_header [OF env inv st])
  have lk: "?p + length key \<le> length data" using lay(5,10) by simp
  obtain rd3 where rd3: "(if 0 < length key then Reader_Ensure env data (length key) (rd2\<lparr>rr_position := ?p\<rparr>)
      else Some (OK, rd2\<lparr>rr_position := ?p\<rparr>)) = Some (OK, rd3)" "reader_inv data rd3"
    "rr_position rd3 = ?p" "same_reader rd2 rd3" "length key \<le> io_available (rr_input rd3)"
  proof (cases "0 < length key")
    case True
    show ?thesis by (rule Reader_Ensure_spec [OF env rd2(3), of "length key"]) (use lk that True in simp_all)
  qed (use rd2(3) that in auto)
  have "reader_inv data (rd3\<lparr>rr_position := ?p\<rparr>)" using rd3(2,3) by (simp add: reader_inv_def)
  then obtain rd4 where rd4: "consume_bytes (length key) rd3 = Some (key, rd4)"
    "reader_inv data (rd4\<lparr>rr_position := ?p + length key\<rparr>)" "same_reader rd3 rd4" "rr_position rd4 = ?p"
    using consume_bytes_at [OF _ lay(7) rd3(5)] rd3(3) by metis
  have same: "same_reader rd rd4" using rd2(4) rd3(4) rd4(3) same_reader_trans by blast
  obtain rd5 where rd5: "skip_value env data (length sv) (rd4\<lparr>rr_position := ?p + length key\<rparr>) = Some (Inr (length v), rd5)"
    "reader_inv data rd5" "rr_position rd5 = ?p + length key + length sv" "same_reader rd4 rd5"
  proof (rule skip_value_stored [OF env rd4(2), where sv = sv and v = v])
    have info: "rr_info (rd4\<lparr>rr_position := ?p + length key\<rparr>) = rr_info rd" using same by (simp add: same_reader_def)
    show "bytes_at data (rr_position (rd4\<lparr>rr_position := ?p + length key\<rparr>)) sv" using lay(8) by simp
    show "sv = stored_value env (fh_compression (rr_info (rd4\<lparr>rr_position := ?p + length key\<rparr>))) v"
      unfolding info sv_def ..
    show "fh_compression (rr_info (rd4\<lparr>rr_position := ?p + length key\<rparr>)) = SNAPPY \<or>
        fh_compression (rr_info (rd4\<lparr>rr_position := ?p + length key\<rparr>)) = UNCOMPRESSED"
      unfolding info by (rule lay(9))
  qed (use lay(5,10,12) length_WriteHeader(2) [of hdr] that in simp_all)
  have "sub64 (h_size hdr) (h_key hdr) = length sv" using lay(4,5,10,11) by (simp add: sub64_small)
  moreover have "add64 ?p (length key) = ?p + length key" using lk lay(11) by (rule add64_small)
  ultimately have "Reader_ReadKey env data rd = Some (Inr \<lparr>r_type = h_type hdr, r_key = key, r_value = replicate (length v) None,
      r_version = h_version hdr, r_position = rr_position rd\<rparr>, rd5)"
    using rd2 rd3(1,3) rd4(1,4) rd5(1) lay(4) by (cases "key = []") (simp_all add: Reader_ReadKey_def Let_def)
  then show thesis by (rule that) (use rd5(2,3,4) same same_reader_trans lay(5) in auto)
qed

end
