(* ===== verification/Record_Writer.thy ===== *)
theory Record_Writer
  imports Record_Reader Fingerprints
begin

text \<open>
  The writer of record files (\<^verbatim>\<open>RecordWriter\<close> in \<^verbatim>\<open>sling/file/recordio.cc\<close>) and the proof that the
  reader reads back what has been written. As for the reader the bytes of the file are passed
  through the operations, and \<open>rw_offset\<close> is the offset of the open file. The order in which
  \<^verbatim>\<open>std::sort\<close> leaves entries with equal fingerprints is not specified: the sorting function is a parameter.
\<close>

section \<open>The writer\<close>

record RecordFileOptions =
  ro_buffer_size :: nat
  ro_chunk_size :: nat
  ro_compression :: byte
  ro_indexed :: bool
  ro_append :: bool
  ro_index_page_size :: nat
  ro_index_cache_size :: nat
  ro_validate :: bool

record RecordWriter =
  rw_offset :: nat
  rw_position :: nat
  rw_info :: FileHeader
  rw_output :: IOBuffer
  rw_index :: "IndexEntry list"
  rw_closed :: bool

definition new_file_header :: "RecordFileOptions \<Rightarrow> FileHeader" where
  "new_file_header options = \<lparr>fh_magic = MAGIC2, fh_hdrlen = of_nat sizeof_FileHeader, fh_compression = ro_compression options,
     fh_flags = 0, fh_index_root = 0, fh_chunk_size = of_nat (ro_chunk_size options), fh_index_start = 0,
     fh_index_page_size = (if ro_indexed options then of_nat (ro_index_page_size options) else 0), fh_index_depth = 0\<rparr>"

definition RecordWriter_init :: "Env \<Rightarrow> byte list \<Rightarrow> RecordFileOptions \<Rightarrow> RecordWriter option" where
  "RecordWriter_init env data options =
     (let output = IOBuffer_Reset (ro_buffer_size options) IOBuffer_init in
      if ro_append options \<and> data \<noteq> []
      then case os_read env data 0 sizeof_FileHeader of
          Inl _ \<Rightarrow> None
        | Inr bytes \<Rightarrow>
            let info = file_header_of bytes in
            if length bytes < sizeof_FileHeader \<or> os_seek env 0 \<noteq> OK \<or> (fh_magic info \<noteq> MAGIC1 \<and> fh_magic info \<noteq> MAGIC2) \<or>
              unat (fh_hdrlen info) \<noteq> sizeof_FileHeader \<or> fh_index_start info \<noteq> 0 \<or> os_seek env (length data) \<noteq> OK
            then None
            else Some \<lparr>rw_offset = length data, rw_position = length data, rw_info = info, rw_output = output,
                       rw_index = [], rw_closed = False\<rparr>
      else let info = new_file_header options
           in Some \<lparr>rw_offset = 0, rw_position = sizeof_FileHeader, rw_info = info,
                    rw_output = IOBuffer_Write (map Some (file_header_bytes info)) output,
                    rw_index = [], rw_closed = False\<rparr>)"

definition Writer_Flush :: "Env \<Rightarrow> byte list \<Rightarrow> RecordWriter \<Rightarrow> (Status \<times> byte list \<times> RecordWriter) option" where
  "Writer_Flush env data w =
     (if io_empty (rw_output w) then Some (OK, data, w)
      else do {
        bytes \<leftarrow> those (io_data (rw_output w));
        let (data, st) = os_write env data (rw_offset w) bytes;
        Some (if st \<noteq> OK then (st, data, w)
              else (OK, data, w\<lparr>rw_offset := rw_offset w + length bytes, rw_output := IOBuffer_Clear (rw_output w)\<rparr>))
      })"

partial_function (option) ZeroFill ::
  "Env \<Rightarrow> byte list \<Rightarrow> nat \<Rightarrow> RecordWriter \<Rightarrow> (Status \<times> byte list \<times> RecordWriter) option" where
  "ZeroFill env data left w =
     (if left = 0 then Some (OK, data, w)
      else do {
        let n = min (io_remaining (rw_output w)) left;
        let w = w\<lparr>rw_output := IOBuffer_Write (replicate n (Some 0)) (rw_output w)\<rparr>;
        if n = 0 then Some (OK, data, w)
        else do {
          (st, data, w) \<leftarrow> Writer_Flush env data w;
          if st \<noteq> OK then Some (st, data, w) else ZeroFill env data (left - n) w
        }
      })"

declare ZeroFill.simps [code]

definition write_bytes :: "byte list \<Rightarrow> RecordWriter \<Rightarrow> RecordWriter" where
  "write_bytes bs w = w\<lparr>rw_output := IOBuffer_Write (map Some bs) (rw_output w)\<rparr>"

definition ensure_output :: "nat \<Rightarrow> RecordWriter \<Rightarrow> RecordWriter" where
  "ensure_output n w = w\<lparr>rw_output := IOBuffer_Ensure n (rw_output w)\<rparr>"

text \<open>The part of \<^verbatim>\<open>Write\<close> that keeps records from crossing a chunk boundary.\<close>

definition write_filler ::
  "Env \<Rightarrow> byte list \<Rightarrow> nat \<Rightarrow> RecordWriter \<Rightarrow> (Status \<times> byte list \<times> RecordWriter) option" where
  "write_filler env data maxsize w =
     (let chunk_size = unat (fh_chunk_size (rw_info w));
          size_with_skip = maxsize + MAX_SKIP_LEN;
          chunk_used = rw_position w mod chunk_size
      in if chunk_size = 0 then Some (OK, data, w)
         else if chunk_size < size_with_skip then Some (Status_Error 1, data, w)
         else if chunk_size < chunk_used + size_with_skip
         then do {
           let filler = \<lparr>h_type = FILLER_RECORD, h_size = chunk_size - chunk_used, h_key = 0, h_version = 0\<rparr>;
           let w = write_bytes (WriteHeader filler) (ensure_output MAX_HEADER_LEN w);
           (st, data, w) \<leftarrow> ZeroFill env data (sub64 (h_size filler) (length (WriteHeader filler))) w;
           Some (st, data, if st \<noteq> OK then w else w\<lparr>rw_position := rw_position w + h_size filler\<rparr>)
         }
         else Some (OK, data, w))"

definition record_header :: "Record \<Rightarrow> nat \<Rightarrow> Header" where
  "record_header record value_size =
     \<lparr>h_type = (if r_version record \<noteq> 0 \<and> r_type record = DATA_RECORD then VDATA_RECORD else r_type record),
      h_size = length (r_key record) + value_size, h_key = length (r_key record), h_version = r_version record\<rparr>"

text \<open>The last part of \<^verbatim>\<open>Write\<close> appends header, key and value.\<close>

definition append_record :: "Header \<Rightarrow> nat \<Rightarrow> byte list \<Rightarrow> byte list \<Rightarrow> RecordWriter \<Rightarrow> RecordWriter" where
  "append_record hdr maxsize key v w =
     (let w' = write_bytes (WriteHeader hdr) (ensure_output maxsize w);
          w' = write_bytes v (if 0 < length key then write_bytes key w' else w')
      in w'\<lparr>rw_position := rw_position w + length (WriteHeader hdr) + length key + length v\<rparr>)"

definition Writer_Write ::
  "Env \<Rightarrow> byte list \<Rightarrow> Record \<Rightarrow> RecordWriter \<Rightarrow> ((Status + nat) \<times> byte list \<times> RecordWriter) option" where
  "Writer_Write env data record w =
     (let compression = fh_compression (rw_info w) in
      if compression \<noteq> SNAPPY \<and> compression \<noteq> UNCOMPRESSED then Some (Inl (Status_Error 1), data, w)
      else do {
        v \<leftarrow> those (r_value record);
        let value = (if compression = SNAPPY then snappy_Compress env v else v);
        let maxsize = MAX_HEADER_LEN + length (r_key record) + length value;
        (st, data, w) \<leftarrow> (if io_remaining (rw_output w) < maxsize then Writer_Flush env data w else Some (OK, data, w));
        if st \<noteq> OK then Some (Inl st, data, w)
        else do {
          (st, data, w) \<leftarrow> write_filler env data maxsize w;
          if st \<noteq> OK then Some (Inl st, data, w)
          else do {
            let position = rw_position w;
            let w = (if fh_index_page_size (rw_info w) > 0 \<and> r_type record \<noteq> INDEX_RECORD
              then w\<lparr>rw_index := rw_index w @ [\<lparr>ie_fingerprint = Fingerprint64 (r_key record), ie_position = of_nat position\<rparr>]\<rparr>
              else w);
            Some (Inr position, data,
              append_record (record_header record (length value)) maxsize (r_key record) value w)
          }
        }
      })"

section \<open>Writing the index\<close>

text \<open>Writing one level; the parent receives an entry for every page. The list shrinks by a page in each round.\<close>

function write_level ::
  "Env \<Rightarrow> byte list \<Rightarrow> IndexEntry list \<Rightarrow> nat \<Rightarrow> IndexEntry list \<Rightarrow> RecordWriter \<Rightarrow>
   (Status \<times> IndexEntry list \<times> byte list \<times> RecordWriter) option" where
  "write_level env data level page_size parent w =
     (case level of
        [] \<Rightarrow> Some (OK, parent, data, w)
      | e # _ \<Rightarrow>
          if page_size = 0 then None
          else do {
            let parent = parent @ [\<lparr>ie_fingerprint = ie_fingerprint e, ie_position = of_nat (rw_position w)\<rparr>];
            let page = \<lparr>r_type = INDEX_RECORD, r_key = [],
              r_value = map Some (concat (map index_entry_bytes (take page_size level))), r_version = 0, r_position = 0\<rparr>;
            (r, data, w) \<leftarrow> Writer_Write env data page w;
            (case r of
               Inl st \<Rightarrow> Some (st, parent, data, w)
             | Inr _ \<Rightarrow> write_level env data (drop page_size level) page_size parent w)
          })"
  by pat_completeness auto
termination by (relation "measure (\<lambda>(env, data, level, page_size, parent, w). length level)") auto

declare write_level.simps [simp del]

definition WriteIndex ::
  "(IndexEntry list \<Rightarrow> IndexEntry list) \<Rightarrow> Env \<Rightarrow> byte list \<Rightarrow> RecordWriter \<Rightarrow> (Status \<times> byte list \<times> RecordWriter) option" where
  "WriteIndex std_sort env data w = do {
     let w = w\<lparr>rw_index := std_sort (rw_index w), rw_info := (rw_info w)\<lparr>fh_index_start := of_nat (rw_position w)\<rparr>\<rparr>;
     let page_size = unat (fh_index_page_size (rw_info w));
     (st, directory, data, w) \<leftarrow> write_level env data (rw_index w) page_size [] w;
     if st \<noteq> OK then Some (st, data, w)
     else do {
       (st, root, data, w) \<leftarrow> write_level env data directory page_size [] w;
       if st \<noteq> OK then Some (st, data, w)
       else do {
         let w = w\<lparr>rw_info := (rw_info w)\<lparr>fh_index_root := of_nat (rw_position w)\<rparr>\<rparr>;
         (st, _, data, w) \<leftarrow> write_level env data root (length root) [] w;
         if st \<noteq> OK then Some (st, data, w)
         else do {
           let w = w\<lparr>rw_info := (rw_info w)\<lparr>fh_index_depth := 3\<rparr>\<rparr>;
           (st, data, w) \<leftarrow> Writer_Flush env data w;
           if st \<noteq> OK then Some (st, data, w)
           else if os_seek env 0 \<noteq> OK then Some (os_seek env 0, data, w)
           else do {
             let (data, st) = os_write env data 0 (file_header_bytes (rw_info w));
             Some (st, data, w\<lparr>rw_offset := sizeof_FileHeader\<rparr>)
           }
         }
       }
     }
   }"

definition Writer_Close ::
  "(IndexEntry list \<Rightarrow> IndexEntry list) \<Rightarrow> Env \<Rightarrow> byte list \<Rightarrow> RecordWriter \<Rightarrow> (Status \<times> byte list \<times> RecordWriter) option" where
  "Writer_Close std_sort env data w =
     (if rw_closed w then Some (OK, data, w)
      else do {
        (st, data, w) \<leftarrow> (if fh_index_page_size (rw_info w) > 0 then WriteIndex std_sort env data w else Some (OK, data, w));
        if st \<noteq> OK then Some (st, data, w)
        else do {
          (st, data, w) \<leftarrow> Writer_Flush env data w;
          Some (st, data, if st \<noteq> OK then w else w\<lparr>rw_closed := True\<rparr>)
        }
      })"

section \<open>The image of the file\<close>

text \<open>The bytes in the file followed by those that are still in the output buffer.\<close>

definition file_image :: "byte list \<Rightarrow> RecordWriter \<Rightarrow> byte list" where
  "file_image data w = data @ map the (io_data (rw_output w))"

definition writer_core :: "byte list \<Rightarrow> RecordWriter \<Rightarrow> bool" where
  "writer_core data w \<longleftrightarrow> io_inv (rw_output w) \<and> rw_offset w = length data \<and> None \<notin> set (io_data (rw_output w))"

definition same_writer :: "RecordWriter \<Rightarrow> RecordWriter \<Rightarrow> bool" where
  "same_writer w w' \<longleftrightarrow> rw_info w' = rw_info w \<and> rw_index w' = rw_index w \<and> rw_closed w' = rw_closed w"

lemma same_writer_trans: "same_writer a b \<Longrightarrow> same_writer b c \<Longrightarrow> same_writer a c"
  by (simp add: same_writer_def)

lemma those_determinate: "None \<notin> set cs \<Longrightarrow> those cs = Some (map the cs)"
proof (induction cs)
  case (Cons c cs)
  then show ?case by (cases c) auto
qed simp

lemma map_Some_the: "None \<notin> set cs \<Longrightarrow> map Some (map the cs) = cs"
  by (induction cs) auto

lemma Writer_Flush_spec:
  assumes "regular env" "writer_core data w"
  obtains data' w' where "Writer_Flush env data w = Some (OK, data', w')" "data' = file_image data w" "file_image data' w' = file_image data w"
    "writer_core data' w'" "same_writer w w'" "rw_position w' = rw_position w" "io_empty (rw_output w')"
    "io_capacity (rw_output w') = io_capacity (rw_output w)" "\<not> io_empty (rw_output w) \<longrightarrow> io_begin (rw_output w') = 0"
proof (cases "io_empty (rw_output w)")
  case True
  then have "io_data (rw_output w) = []" by (simp add: io_empty_def io_data_def)
  then show ?thesis using True assms(2) that [of data w] by (simp add: Writer_Flush_def file_image_def same_writer_def)
next
  case False
  let ?w = "w\<lparr>rw_offset := rw_offset w + length (map the (io_data (rw_output w))), rw_output := IOBuffer_Clear (rw_output w)\<rparr>"
  have "Writer_Flush env data w = Some (OK, file_image data w, ?w)"
    using False assms by (simp add: Writer_Flush_def writer_core_def those_determinate regular_def file_image_def)
  moreover have "io_data (IOBuffer_Clear b) = []" "io_inv (IOBuffer_Clear b)" "io_empty (IOBuffer_Clear b)"
    "io_capacity (IOBuffer_Clear b) = io_capacity b" "io_begin (IOBuffer_Clear b) = 0" for b
    by (simp_all add: IOBuffer_Clear_def io_defs io_empty_def)
  ultimately show ?thesis using assms(2)
    by (intro that [of "file_image data w" ?w]) (simp_all add: file_image_def writer_core_def same_writer_def)
qed

lemma write_bytes_spec:
  assumes "writer_core data w"
  shows "writer_core data (write_bytes bs w)" "file_image data (write_bytes bs w) = file_image data w @ bs"
    "same_writer w (write_bytes bs w)" "rw_position (write_bytes bs w) = rw_position w"
  using assms Write_appends [of "rw_output w" "map Some bs"]
  by (auto simp: writer_core_def file_image_def write_bytes_def same_writer_def)

lemma ensure_output_spec:
  assumes "writer_core data w"
  shows "writer_core data (ensure_output n w)" "file_image data (ensure_output n w) = file_image data w"
    "same_writer w (ensure_output n w)" "rw_position (ensure_output n w) = rw_position w"
    "n \<le> io_remaining (rw_output (ensure_output n w))"
  using assms Ensure_keeps [of "rw_output w" n]
  by (auto simp: writer_core_def file_image_def ensure_output_def same_writer_def)

lemma Write_remaining:
  assumes "length cs \<le> io_remaining b" "io_inv b"
  shows "io_remaining (IOBuffer_Write cs b) = io_remaining b - length cs" "io_capacity (IOBuffer_Write cs b) = io_capacity b"
  using assms by (auto simp: IOBuffer_Write_def IOBuffer_Ensure_def Let_def io_defs)

lemma ZeroFill_spec:
  assumes "regular env" "writer_core data w" "0 < left \<longrightarrow> 0 < io_remaining (rw_output w)"
  obtains data' w' where "ZeroFill env data left w = Some (OK, data', w')" "file_image data' w' = file_image data w @ replicate left 0"
    "writer_core data' w'" "same_writer w w'" "rw_position w' = rw_position w"
  using assms(2,3)
proof (induction left arbitrary: data w thesis rule: less_induct)
  case (less left)
  show ?case
  proof (cases "left = 0")
    case True
    then show ?thesis using less.prems(2) by (intro less.prems(1) [of data w]) (simp_all add: ZeroFill.simps [of env data] same_writer_def)
  next
    case False
    define n where "n = min (io_remaining (rw_output w)) left"
    have n: "0 < n" "n \<le> left" "n \<le> io_remaining (rw_output w)" using False less.prems(3) by (auto simp: n_def)
    let ?w = "w\<lparr>rw_output := IOBuffer_Write (replicate n (Some 0)) (rw_output w)\<rparr>"
    have w: "?w = write_bytes (replicate n 0) w" by (simp add: write_bytes_def)
    note wb = write_bytes_spec [OF less.prems(2), of "replicate n 0", folded w]
    obtain data1 w1 where w1: "Writer_Flush env data ?w = Some (OK, data1, w1)" "file_image data1 w1 = file_image data ?w"
      "writer_core data1 w1" "same_writer ?w w1" "rw_position w1 = rw_position ?w" "io_empty (rw_output w1)"
      "io_capacity (rw_output w1) = io_capacity (rw_output ?w)" "\<not> io_empty (rw_output ?w) \<longrightarrow> io_begin (rw_output w1) = 0"
      by (rule Writer_Flush_spec [OF assms(1) wb(1)])
    have inv: "io_inv (rw_output w)" using less.prems(2) by (simp add: writer_core_def)
    have "io_data (rw_output ?w) \<noteq> []" using n(1) Write_appends(2) [OF inv, of "replicate n (Some 0)"] by simp
    then have "\<not> io_empty (rw_output ?w)" by (auto simp: io_empty_def io_data_def)
    then have "io_remaining (rw_output w1) = io_capacity (rw_output ?w)" using w1(6-8) by (simp add: io_empty_def io_remaining_def io_capacity_def)
    moreover have "0 < io_capacity (rw_output w)"
      using n(1,3) unfolding io_remaining_def io_capacity_def by linarith
    then have "0 < io_capacity (rw_output ?w)"
      using n(3) Write_remaining(2) [of "replicate n (Some 0)" "rw_output w"] inv by simp
    ultimately have rem: "0 < io_remaining (rw_output w1)" by simp
    obtain data2 w2 where w2: "ZeroFill env data1 (left - n) w1 = Some (OK, data2, w2)"
      "file_image data2 w2 = file_image data1 w1 @ replicate (left - n) 0" "writer_core data2 w2" "same_writer w1 w2" "rw_position w2 = rw_position w1"
      by (rule less.IH [OF _ _ w1(3), of "left - n"]) (use n(1) False rem in simp_all)
    have "ZeroFill env data left w = Some (OK, data2, w2)"
      using False n(1) w1(1) w2(1) by (subst ZeroFill.simps) (simp add: n_def [symmetric] Let_def)
    moreover have "file_image data2 w2 = file_image data w @ replicate left 0"
      using w2(2) w1(2) wb(2) n(2) by (simp add: replicate_add [symmetric])
    moreover have "same_writer w w2" using wb(3) w1(4) w2(4) by (simp add: same_writer_def)
    moreover have "rw_position w2 = rw_position w" using wb(4) w1(5) w2(5) by simp
    ultimately show ?thesis using w2(3) by (intro less.prems(1) [of data2 w2])
  qed
qed

section \<open>Records in the image\<close>

definition filler_header :: "nat \<Rightarrow> Header" where
  "filler_header n = \<lparr>h_type = FILLER_RECORD, h_size = n, h_key = 0, h_version = 0\<rparr>"

definition filler_bytes :: "nat \<Rightarrow> byte list" where
  "filler_bytes n = WriteHeader (filler_header n) @ replicate (n - length (WriteHeader (filler_header n))) 0"

lemma filler_header_ok: "n < 2 ^ 64 \<Longrightarrow> header_ok (filler_header n)"
  by (simp add: header_ok_def filler_header_def ValidRecordType_def record_types)

lemma filler_fits:
  assumes "2 \<le> n" "n < 2 ^ 64"
  shows "length (WriteHeader (filler_header n)) \<le> n" "length (WriteHeader (filler_header n)) \<le> 11"
proof -
  have len: "length (WriteHeader (filler_header n)) = 1 + length (varint_bytes n)"
    using assms(2) by (simp add: WriteHeader_def filler_header_def Encode64_bytes unat_of_nat_uint64 record_types)
  have "n < 128 ^ Suc 9" using assms(2) by simp
  from length_varint_bytes [OF this] have ten: "length (varint_bytes n) \<le> 10" by simp
  then show "length (WriteHeader (filler_header n)) \<le> 11" using len by simp
  show "length (WriteHeader (filler_header n)) \<le> n"
  proof (cases "n < 128")
    case True
    then have "length (varint_bytes n) \<le> 1" using length_varint_bytes [of n 0] by simp
    then show ?thesis using len assms(1) by simp
  qed (use ten len in simp)
qed

lemma length_filler_bytes: "2 \<le> n \<Longrightarrow> n < 2 ^ 64 \<Longrightarrow> length (filler_bytes n) = n"
  using filler_fits [of n] by (simp add: filler_bytes_def)

definition chunk_ok :: "FileHeader \<Rightarrow> nat \<Rightarrow> bool" where
  "chunk_ok info pos \<longleftrightarrow> (fh_chunk_size info \<noteq> 0 \<longrightarrow> pos mod unat (fh_chunk_size info) + 2 \<le> unat (fh_chunk_size info))"

definition fits_chunk :: "FileHeader \<Rightarrow> nat \<Rightarrow> bool" where
  "fits_chunk info n \<longleftrightarrow> (fh_chunk_size info \<noteq> 0 \<longrightarrow> n + MAX_SKIP_LEN \<le> unat (fh_chunk_size info))"

lemma mod_fill:
  fixes p c :: nat
  assumes "0 < c"
  shows "(p + (c - p mod c)) mod c = 0"
proof -
  have "p mod c < c" using assms by simp
  then have "p + (c - p mod c) = c * (p div c) + c" using mult_div_mod_eq [of c p] by arith
  then show ?thesis by simp
qed

lemma write_filler_spec:
  assumes env: "regular env" and core: "writer_core data w" and pos: "rw_position w = length (file_image data w)"
    and chunk: "chunk_ok (rw_info w) (rw_position w)" and fit: "fits_chunk (rw_info w) maxsize"
  obtains data' w' gap where "write_filler env data maxsize w = Some (OK, data', w')" "writer_core data' w'" "same_writer w w'"
    "file_image data' w' = file_image data w @ gap" "rw_position w' = length (file_image data' w')"
    "gap = [] \<or> (\<exists>n. 2 \<le> n \<and> n < 2 ^ 64 \<and> gap = filler_bytes n)" "length gap \<le> unat (fh_chunk_size (rw_info w))"
    "fh_chunk_size (rw_info w) \<noteq> 0 \<longrightarrow>
       rw_position w' mod unat (fh_chunk_size (rw_info w)) + maxsize + MAX_SKIP_LEN \<le> unat (fh_chunk_size (rw_info w))"
proof -
  let ?c = "unat (fh_chunk_size (rw_info w))"
  define n where "n = ?c - rw_position w mod ?c"
  consider "?c = 0 \<or> rw_position w mod ?c + maxsize + MAX_SKIP_LEN \<le> ?c" | "?c \<noteq> 0" "?c < rw_position w mod ?c + (maxsize + MAX_SKIP_LEN)" by linarith
  then show thesis
  proof cases
    case 1
    then have "write_filler env data maxsize w = Some (OK, data, w)"
      using fit by (auto simp: write_filler_def Let_def fits_chunk_def unat_eq_0)
    then show ?thesis using 1 core pos by (intro that [of data w "[]"]) (auto simp: same_writer_def unat_eq_0)
  next
    case 2
    have le: "n \<le> ?c" by (simp add: n_def)
    have n: "2 \<le> n" "n < 2 ^ 64"
      using chunk 2(1) unsigned_less [of "fh_chunk_size (rw_info w)", where 'a = nat] by (auto simp: n_def chunk_ok_def unat_eq_0)
    let ?h = "WriteHeader (filler_header n)"
    define w1 where "w1 = write_bytes ?h (ensure_output MAX_HEADER_LEN w)"
    note eo = ensure_output_spec [OF core, of MAX_HEADER_LEN]
    note wb = write_bytes_spec [OF eo(1), of ?h, folded w1_def]
    have "length ?h < io_remaining (rw_output (ensure_output MAX_HEADER_LEN w))"
      using eo(5) filler_fits(2) [OF n] by (simp add: MAX_HEADER_LEN_def)
    moreover have "io_inv (rw_output (ensure_output MAX_HEADER_LEN w))" using eo(1) by (simp add: writer_core_def)
    ultimately have rem: "0 < io_remaining (rw_output w1)"
      using Write_remaining(1) [of "map Some ?h" "rw_output (ensure_output MAX_HEADER_LEN w)"] by (simp add: w1_def write_bytes_def)
    have sub: "sub64 n (length ?h) = n - length ?h" using filler_fits(1) [OF n] n(2) by (rule sub64_small)
    have hs: "h_size (filler_header n) = n" by (simp add: filler_header_def)
    obtain data2 w2 where w2: "ZeroFill env data (n - length ?h) w1 = Some (OK, data2, w2)"
      "file_image data2 w2 = file_image data w1 @ replicate (n - length ?h) 0" "writer_core data2 w2" "same_writer w1 w2" "rw_position w2 = rw_position w1"
      by (rule ZeroFill_spec [OF env wb(1)]) (use rem in auto)
    let ?w = "w2\<lparr>rw_position := rw_position w + n\<rparr>"
    have "write_filler env data maxsize w = Some (OK, data2, ?w)"
      using 2 fit w2(1,5) wb(4) eo(4) sub hs
      by (auto simp: write_filler_def Let_def fits_chunk_def unat_eq_0 n_def [symmetric] filler_header_def [symmetric] w1_def [symmetric])
    moreover have img: "file_image data2 ?w = file_image data w @ filler_bytes n"
      using w2(2) wb(2) eo(2) by (simp add: file_image_def filler_bytes_def)
    moreover have "(rw_position w + n) mod ?c = 0" using 2(1) unfolding n_def by (intro mod_fill) simp
    moreover have "writer_core data2 ?w" "same_writer w ?w"
      using w2(3,4) wb(3) eo(3) by (auto simp: writer_core_def same_writer_def)
    ultimately show ?thesis
      using that [of data2 ?w "filler_bytes n"] n pos fit length_filler_bytes [OF n] le by (auto simp: fits_chunk_def)
  qed
qed

definition record_value :: "Record \<Rightarrow> byte list" where
  "record_value r = map the (r_value r)"

text \<open>The record as it is read back: a version changes the type, and the position is that in the file.\<close>

definition read_back :: "nat \<Rightarrow> Record \<Rightarrow> Record" where
  "read_back pos r = r\<lparr>r_type := h_type (record_header r 0), r_position := pos\<rparr>"

definition record_bytes :: "Env \<Rightarrow> byte \<Rightarrow> Record \<Rightarrow> byte list" where
  "record_bytes env compression r =
     (let value = stored_value env compression (record_value r)
      in WriteHeader (record_header r (length value)) @ r_key r @ value)"

definition record_ok :: "Env \<Rightarrow> FileHeader \<Rightarrow> Record \<Rightarrow> bool" where
  "record_ok env info r \<longleftrightarrow>
     (let n = length (r_key r) + length (stored_value env (fh_compression info) (record_value r))
      in (r_type r = DATA_RECORD \<or> r_type r = VDATA_RECORD \<or> r_type r = INDEX_RECORD \<and> r_version r = 0) \<and>
         r_version r < 2 ^ 64 \<and> None \<notin> set (r_value r) \<and> length (r_value r) < 2 ^ 32 \<and> n < 2 ^ 63 \<and> fits_chunk info (MAX_HEADER_LEN + n))"

definition writer_inv :: "byte list \<Rightarrow> RecordWriter \<Rightarrow> bool" where
  "writer_inv data w \<longleftrightarrow> writer_core data w \<and> rw_position w = length (file_image data w) \<and> chunk_ok (rw_info w) (rw_position w) \<and>
     (fh_compression (rw_info w) = SNAPPY \<or> fh_compression (rw_info w) = UNCOMPRESSED) \<and> \<not> rw_closed w"

lemma record_header_ok: "record_ok env info r \<Longrightarrow>
    header_ok (record_header r (length (stored_value env (fh_compression info) (record_value r))))"
  by (auto simp: record_ok_def header_ok_def record_header_def Let_def ValidRecordType_def record_types)

lemma chunk_ok_advance:
  assumes "fh_chunk_size info \<noteq> 0 \<longrightarrow> p mod unat (fh_chunk_size info) + n + MAX_SKIP_LEN \<le> unat (fh_chunk_size info)" "k \<le> n"
  shows "chunk_ok info (p + k)"
proof (cases "fh_chunk_size info = 0")
  case False
  let ?c = "unat (fh_chunk_size info)"
  have "p mod ?c + k + 12 \<le> ?c" using assms False by (simp add: MAX_SKIP_LEN_def)
  moreover from this have "(p + k) mod ?c = p mod ?c + k" using mod_add_left_eq [of p ?c k] mod_less [of "p mod ?c + k" ?c] by simp
  ultimately show ?thesis by (simp add: chunk_ok_def)
qed (simp add: chunk_ok_def)

lemma flush_for_room:
  assumes "regular env" "writer_core data w"
  obtains data' w' where "(if io_remaining (rw_output w) < n then Writer_Flush env data w else Some (OK, data, w)) = Some (OK, data', w')"
    "file_image data' w' = file_image data w" "writer_core data' w'" "same_writer w w'" "rw_position w' = rw_position w"
proof (cases "io_remaining (rw_output w) < n")
  case True
  show ?thesis by (rule Writer_Flush_spec [OF assms]) (use True that in simp)
qed (use assms that [of data w] in \<open>simp add: same_writer_def\<close>)

lemma append_record_spec:
  assumes "writer_core data w"
  shows "writer_core data (append_record hdr maxsize key v w)" "same_writer w (append_record hdr maxsize key v w)"
    "file_image data (append_record hdr maxsize key v w) = file_image data w @ WriteHeader hdr @ key @ v"
    "rw_position (append_record hdr maxsize key v w) = rw_position w + length (WriteHeader hdr @ key @ v)"
proof -
  note e = ensure_output_spec [OF assms, of maxsize]
  note h = write_bytes_spec [OF e(1), of "WriteHeader hdr"]
  define w' where "w' = (if 0 < length key then write_bytes key (write_bytes (WriteHeader hdr) (ensure_output maxsize w))
    else write_bytes (WriteHeader hdr) (ensure_output maxsize w))"
  have w': "writer_core data w'" "file_image data w' = file_image data w @ WriteHeader hdr @ key" "same_writer w w'"
    using e(2,3) h write_bytes_spec [OF h(1), of key] by (simp_all add: w'_def same_writer_def)
  have eq: "append_record hdr maxsize key v w =
      (write_bytes v w')\<lparr>rw_position := rw_position w + length (WriteHeader hdr) + length key + length v\<rparr>"
    by (simp add: append_record_def w'_def)
  note v = write_bytes_spec [OF w'(1), of v]
  show "writer_core data (append_record hdr maxsize key v w)" "same_writer w (append_record hdr maxsize key v w)"
    "file_image data (append_record hdr maxsize key v w) = file_image data w @ WriteHeader hdr @ key @ v"
    "rw_position (append_record hdr maxsize key v w) = rw_position w + length (WriteHeader hdr @ key @ v)"
    using v w' by (simp_all add: eq writer_core_def file_image_def same_writer_def)
qed

lemma Writer_Write_steps:
  fixes env :: Env
  assumes "writer_inv data w" "None \<notin> set (r_value r)"
  defines "sv \<equiv> stored_value env (fh_compression (rw_info w)) (record_value r)"
  defines "maxsize \<equiv> MAX_HEADER_LEN + length (r_key r) + length sv"
  assumes "(if io_remaining (rw_output w) < maxsize then Writer_Flush env data w else Some (OK, data, w)) = Some (OK, data1, w1)"
    and "write_filler env data1 maxsize w1 = Some (OK, data2, w2)" "same_writer w w2"
  shows "Writer_Write env data r w = Some (Inr (rw_position w2), data2,
    append_record (record_header r (length sv)) maxsize (r_key r) sv
      (w2\<lparr>rw_index := rw_index w @ (if fh_index_page_size (rw_info w) > 0 \<and> r_type r \<noteq> INDEX_RECORD
        then [\<lparr>ie_fingerprint = Fingerprint64 (r_key r), ie_position = of_nat (rw_position w2)\<rparr>] else [])\<rparr>))"
proof -
  have "\<not> (fh_compression (rw_info w) \<noteq> SNAPPY \<and> fh_compression (rw_info w) \<noteq> UNCOMPRESSED)"
    using assms(1) by (auto simp: writer_inv_def)
  moreover have "(if fh_compression (rw_info w) = SNAPPY then snappy_Compress env (map the (r_value r)) else map the (r_value r)) = sv"
    by (simp add: sv_def stored_value_def record_value_def)
  moreover have upd: "w2\<lparr>rw_index := rw_index w\<rparr> = w2" using assms(7) by (cases w2) (simp add: same_writer_def)
  ultimately show ?thesis
    using assms(2,5-7)
    by (simp add: Writer_Write_def those_determinate Let_def maxsize_def same_writer_def) (simp only: upd simp_thms)
qed

lemma Writer_Write_spec:
  assumes env: "regular env" and inv: "writer_inv data w" and ok: "record_ok env (rw_info w) r"
  obtains data' w' gap where "Writer_Write env data r w = Some (Inr (length (file_image data w @ gap)), data', w')" "writer_inv data' w'"
    "file_image data' w' = file_image data w @ gap @ record_bytes env (fh_compression (rw_info w)) r"
    "gap = [] \<or> (\<exists>n. 2 \<le> n \<and> n < 2 ^ 64 \<and> gap = filler_bytes n)" "length gap \<le> unat (fh_chunk_size (rw_info w))" "rw_info w' = rw_info w"
    "rw_index w' = rw_index w @ (if fh_index_page_size (rw_info w) > 0 \<and> r_type r \<noteq> INDEX_RECORD
       then [\<lparr>ie_fingerprint = Fingerprint64 (r_key r), ie_position = of_nat (length (file_image data w @ gap))\<rparr>] else [])"
proof -
  define sv where "sv = stored_value env (fh_compression (rw_info w)) (record_value r)"
  define maxsize where "maxsize = MAX_HEADER_LEN + length (r_key r) + length sv"
  define hdr where "hdr = record_header r (length sv)"
  have core: "writer_core data w" using inv by (simp add: writer_inv_def)
  obtain data1 w1 where w1: "(if io_remaining (rw_output w) < maxsize then Writer_Flush env data w else Some (OK, data, w)) = Some (OK, data1, w1)"
    "file_image data1 w1 = file_image data w" "writer_core data1 w1" "same_writer w w1" "rw_position w1 = rw_position w"
    by (rule flush_for_room [OF env core])
  have "rw_position w1 = length (file_image data1 w1)" "chunk_ok (rw_info w1) (rw_position w1)" "fits_chunk (rw_info w1) maxsize"
    using inv w1 ok by (auto simp: writer_inv_def same_writer_def record_ok_def Let_def sv_def maxsize_def add.assoc)
  then obtain data2 w2 gap where w2: "write_filler env data1 maxsize w1 = Some (OK, data2, w2)" "writer_core data2 w2" "same_writer w1 w2"
    "file_image data2 w2 = file_image data1 w1 @ gap" "rw_position w2 = length (file_image data2 w2)"
    "gap = [] \<or> (\<exists>n. 2 \<le> n \<and> n < 2 ^ 64 \<and> gap = filler_bytes n)" "length gap \<le> unat (fh_chunk_size (rw_info w1))"
    "fh_chunk_size (rw_info w1) \<noteq> 0 \<longrightarrow>
       rw_position w2 mod unat (fh_chunk_size (rw_info w1)) + maxsize + MAX_SKIP_LEN \<le> unat (fh_chunk_size (rw_info w1))"
    by (rule write_filler_spec [OF env w1(3)])
  define w3 where "w3 = w2\<lparr>rw_index := rw_index w @ (if fh_index_page_size (rw_info w) > 0 \<and> r_type r \<noteq> INDEX_RECORD
       then [\<lparr>ie_fingerprint = Fingerprint64 (r_key r), ie_position = of_nat (rw_position w2)\<rparr>] else [])\<rparr>"
  have same: "same_writer w w2" using w1(4) w2(3) by (rule same_writer_trans)
  have "None \<notin> set (r_value r)" using ok by (auto simp: record_ok_def Let_def)
  from Writer_Write_steps [OF inv this, where env = env, folded sv_def, folded maxsize_def, OF w1(1) w2(1) same]
  have wr: "Writer_Write env data r w = Some (Inr (rw_position w2), data2, append_record hdr maxsize (r_key r) sv w3)"
    by (simp add: w3_def hdr_def)
  have "writer_core data2 w3" using w2(2) by (simp add: w3_def writer_core_def)
  note app = append_record_spec [OF this, of hdr maxsize "r_key r" sv]
  have len: "length (WriteHeader hdr @ r_key r @ sv) \<le> maxsize" using length_WriteHeader(1) [of hdr] by (simp add: maxsize_def)
  have chunk: "chunk_ok (rw_info w) (rw_position w2 + length (WriteHeader hdr @ r_key r @ sv))"
    by (rule chunk_ok_advance [OF _ len]) (use w2(8) w1(4) in \<open>simp add: same_writer_def\<close>)
  have img: "file_image data2 w3 = file_image data w @ gap" "rw_position w3 = rw_position w2" using w2(4) w1(2) by (simp_all add: w3_def file_image_def)
  show thesis
  proof (rule that)
    show "Writer_Write env data r w = Some (Inr (length (file_image data w @ gap)), data2, append_record hdr maxsize (r_key r) sv w3)"
      using wr w2(4,5) w1(2) by simp
    show "writer_inv data2 (append_record hdr maxsize (r_key r) sv w3)"
      using inv app chunk img w2(4,5) w1(2) same by (simp add: writer_inv_def same_writer_def w3_def)
  qed (use app img w2(4-7) w1(2,4) same in \<open>simp_all add: record_bytes_def sv_def [symmetric] hdr_def [symmetric] Let_def same_writer_def w3_def\<close>)
qed

section \<open>Files as sequences of records\<close>

text \<open>A record, as it is read back, in the bytes of a file.\<close>

definition entry_at :: "Env \<Rightarrow> byte \<Rightarrow> byte list \<Rightarrow> Record \<Rightarrow> bool" where
  "entry_at env compression data r \<longleftrightarrow>
     header_ok (record_header r (length (stored_value env compression (record_value r)))) \<and>
     (r_version r \<noteq> 0 \<longrightarrow> r_type r \<noteq> DATA_RECORD) \<and> r_type r \<noteq> FILLER_RECORD \<and> None \<notin> set (r_value r) \<and> length (r_value r) < 2 ^ 32 \<and>
     bytes_at data (r_position r) (record_bytes env compression r)"

lemma read_back_simps [simp]:
  "r_position (read_back pos r) = pos" "record_value (read_back pos r) = record_value r" "r_key (read_back pos r) = r_key r"
  "r_version (read_back pos r) = r_version r" "r_value (read_back pos r) = r_value r"
  "r_type (read_back pos r) = h_type (record_header r 0)"
  by (simp_all add: read_back_def record_value_def)

lemma record_header_read_back [simp]: "record_header (read_back pos r) n = record_header r n"
  by (simp add: record_header_def read_back_def)

lemma record_bytes_read_back [simp]: "record_bytes env compression (read_back pos r) = record_bytes env compression r"
  by (simp add: record_bytes_def)

lemma length_record_bytes: "0 < length (record_bytes env compression r)"
  using length_WriteHeader(2) by (simp add: record_bytes_def Let_def)

lemma entry_at_append: "entry_at env compression data r \<Longrightarrow> entry_at env compression (data @ ys) r"
  unfolding entry_at_def using bytes_at_append by blast

lemma bytes_at_end: "bytes_at (data @ bs) (length data) bs"
  by (simp add: bytes_at_def)

lemma entry_at_written:
  assumes "record_ok env info r"
  shows "entry_at env (fh_compression info) (data @ record_bytes env (fh_compression info) r) (read_back (length data) r)"
proof -
  have "h_type (record_header r 0) \<noteq> FILLER_RECORD" "None \<notin> set (r_value r)" "length (r_value r) < 2 ^ 32"
    "r_version r \<noteq> 0 \<longrightarrow> h_type (record_header r 0) \<noteq> DATA_RECORD"
    using assms by (auto simp: record_ok_def Let_def record_header_def record_types)
  then show ?thesis using record_header_ok [OF assms] bytes_at_end by (simp add: entry_at_def)
qed

lemma Reader_Read_entry:
  assumes "regular env" "reader_inv data rd" "\<not> rr_validate rd" "entry_at env (fh_compression (rr_info rd)) data r"
    and "rr_position rd = r_position r" "fh_compression (rr_info rd) = SNAPPY \<or> fh_compression (rr_info rd) = UNCOMPRESSED"
  obtains rd' rd'' where "Reader_Read env data rd = Some (Inr r, rd')" "reader_inv data rd'" "same_reader rd rd'"
    "rr_position rd' = r_position r + length (record_bytes env (fh_compression (rr_info rd)) r)"
    "Reader_ReadKey env data rd = Some (Inr (r\<lparr>r_value := replicate (length (r_value r)) None\<rparr>), rd'')"
    "reader_inv data rd''" "same_reader rd rd''"
proof -
  define sv where "sv = stored_value env (fh_compression (rr_info rd)) (record_value r)"
  define hdr where "hdr = record_header r (length sv)"
  have ht: "h_type hdr = r_type r" "h_version hdr = r_version r" "h_size hdr = length (r_key r) + length sv" "h_key hdr = length (r_key r)"
    using assms(4) by (auto simp: entry_at_def hdr_def record_header_def)
  have "length (record_value r) < 2 ^ 32" using assms(4) by (simp add: entry_at_def record_value_def)
  then have st: "stored env data rd hdr (r_key r) (record_value r)"
    using assms ht by (auto simp: stored_def entry_at_def sv_def [symmetric] hdr_def [symmetric] Let_def record_bytes_def)
  have nd: "None \<notin> set (r_value r)" using assms(4) by (simp add: entry_at_def)
  have r: "\<lparr>r_type = h_type hdr, r_key = r_key r, r_value = map Some (record_value r), r_version = h_version hdr,
      r_position = rr_position rd\<rparr> = r"
    "\<lparr>r_type = h_type hdr, r_key = r_key r, r_value = replicate (length (record_value r)) None, r_version = h_version hdr,
      r_position = rr_position rd\<rparr> = r\<lparr>r_value := replicate (length (r_value r)) None\<rparr>"
    unfolding ht using assms(5) map_Some_the [of "r_value r"] nd by (simp_all add: record_value_def del: map_map)
  have len: "rr_position rd + length (WriteHeader hdr) + h_size hdr = r_position r + length (record_bytes env (fh_compression (rr_info rd)) r)"
    using assms(5) ht by (simp add: record_bytes_def sv_def [symmetric] hdr_def [symmetric] Let_def)
  obtain rd' where rd': "Reader_Read env data rd = Some (Inr r, rd')" "reader_inv data rd'"
    "rr_position rd' = rr_position rd + length (WriteHeader hdr) + h_size hdr" "same_reader rd rd'"
    by (rule Reader_Read_stored [OF assms(1,2) st, unfolded r])
  obtain rd'' where "Reader_ReadKey env data rd = Some (Inr (r\<lparr>r_value := replicate (length (r_value r)) None\<rparr>), rd'')"
    "reader_inv data rd''" "same_reader rd rd''"
    by (rule Reader_ReadKey_stored [OF assms(1,2) st, unfolded r])
  with rd' show thesis using len by (intro that [of rd' rd'']) simp_all
qed

fun chain :: "Env \<Rightarrow> byte \<Rightarrow> byte list \<Rightarrow> nat \<Rightarrow> Record list \<Rightarrow> bool" where
  "chain env compression data pos [] \<longleftrightarrow> pos = length data"
| "chain env compression data pos (r # rs) \<longleftrightarrow>
     (r_position r = pos \<or> (\<exists>n. 2 \<le> n \<and> n < 2 ^ 64 \<and> bytes_at data pos (filler_bytes n) \<and> r_position r = pos + n)) \<and>
     entry_at env compression data r \<and> chain env compression data (r_position r + length (record_bytes env compression r)) rs"

lemma chain_snoc:
  assumes "chain env (fh_compression info) data pos rs" "record_ok env info r"
    and gap: "gap = [] \<or> (\<exists>n. 2 \<le> n \<and> n < 2 ^ 64 \<and> gap = filler_bytes n)"
  shows "chain env (fh_compression info) (data @ gap @ record_bytes env (fh_compression info) r) pos
    (rs @ [read_back (length (data @ gap)) r])"
  using assms(1)
proof (induction rs arbitrary: pos)
  case Nil
  have "entry_at env (fh_compression info) (data @ gap @ record_bytes env (fh_compression info) r) (read_back (length (data @ gap)) r)"
    using entry_at_written [OF assms(2), of "data @ gap"] by simp
  moreover have "bytes_at (data @ gap @ ys) (length data) gap" for ys
    using bytes_at_append [OF bytes_at_end [of data gap], of ys] by simp
  ultimately show ?case using Nil gap length_filler_bytes by auto
qed (auto intro: bytes_at_append entry_at_append)

lemma Reader_Read_chain:
  assumes env: "regular env" and inv: "reader_inv data rd" and v: "\<not> rr_validate rd"
    and ch: "chain env (fh_compression (rr_info rd)) data (rr_position rd) (r # rs)"
    and comp: "fh_compression (rr_info rd) = SNAPPY \<or> fh_compression (rr_info rd) = UNCOMPRESSED"
  obtains rd' where "Reader_Read env data rd = Some (Inr r, rd')" "reader_inv data rd'" "same_reader rd rd'"
    "rr_position rd' = r_position r + length (record_bytes env (fh_compression (rr_info rd)) r)"
proof -
  let ?c = "fh_compression (rr_info rd)"
  have e: "entry_at env ?c data r" using ch by simp
  have "\<exists>rd1. next_header env data rd = next_header env data rd1 \<and> reader_inv data rd1 \<and> rr_position rd1 = r_position r \<and> same_reader rd rd1"
  proof (cases "r_position r = rr_position rd")
    case False
    then obtain n where n: "2 \<le> n" "n < 2 ^ 64" "bytes_at data (rr_position rd) (filler_bytes n)" "r_position r = rr_position rd + n"
      using ch by auto
    have at: "bytes_at data (rr_position rd) (WriteHeader (filler_header n))"
      using n(3) by (simp add: filler_bytes_def bytes_at_split)
    have "filler_bytes n \<noteq> []" using length_filler_bytes [OF n(1,2)] n(1) by auto
    then have "rr_position rd + n \<le> length data" using bytes_at_length [OF n(3)] length_filler_bytes [OF n(1,2)] by simp
    then show ?thesis
      using next_header_filler [OF env inv at filler_header_ok [OF n(2)]] n(1,4) by (auto simp: filler_header_def)
  qed (use inv in \<open>auto intro!: exI [of _ rd]\<close>)
  then obtain rd1 where rd1: "next_header env data rd = next_header env data rd1" "reader_inv data rd1" "rr_position rd1 = r_position r" "same_reader rd rd1"
    by blast
  then have eq: "Reader_Read env data rd = Reader_Read env data rd1" by (simp add: Reader_Read_def)
  have i: "rr_info rd1 = rr_info rd" "\<not> rr_validate rd1" using rd1(4) v by (simp_all add: same_reader_def)
  obtain rd' where "Reader_Read env data rd1 = Some (Inr r, rd')" "reader_inv data rd'" "same_reader rd1 rd'"
    "rr_position rd' = r_position r + length (record_bytes env ?c r)"
    by (rule Reader_Read_entry [OF env rd1(2) i(2), unfolded i(1), OF e rd1(3) comp])
  then show thesis using that eq rd1(4) same_reader_trans by metis
qed

text \<open>The loop of a client that reads a whole file.\<close>

partial_function (option) read_all :: "Env \<Rightarrow> byte list \<Rightarrow> RecordReader \<Rightarrow> ((Status + Record list) \<times> RecordReader) option" where
  "read_all env data rd =
     (if Reader_Done rd then Some (Inr [], rd)
      else do {
        (r, rd) \<leftarrow> Reader_Read env data rd;
        (case r of
           Inl st \<Rightarrow> Some (Inl st, rd)
         | Inr record \<Rightarrow> do {
             (rs, rd) \<leftarrow> read_all env data rd;
             Some (case rs of Inl st \<Rightarrow> Inl st | Inr records \<Rightarrow> Inr (record # records), rd)
           })
      })"

declare read_all.simps [code]

lemma chain_position:
  assumes "chain env compression data pos (r # rs)"
  shows "pos < length data"
proof -
  have "record_bytes env compression r \<noteq> []" using length_record_bytes [of env compression r] by simp
  then have "r_position r + length (record_bytes env compression r) \<le> length data"
    using assms bytes_at_length [of data "r_position r" "record_bytes env compression r"] by (simp add: entry_at_def)
  moreover have "pos \<le> r_position r" using assms by auto
  ultimately show ?thesis using length_record_bytes [of env compression r] by linarith
qed

lemma read_all_chain:
  assumes "regular env" "reader_inv data rd" "\<not> rr_validate rd" "rr_size rd = length data"
    and "chain env (fh_compression (rr_info rd)) data (rr_position rd) rs"
    and "fh_compression (rr_info rd) = SNAPPY \<or> fh_compression (rr_info rd) = UNCOMPRESSED"
  shows "\<exists>rd'. read_all env data rd = Some (Inr rs, rd') \<and> Reader_Done rd'"
  using assms(2-)
proof (induction rs arbitrary: rd)
  case Nil
  then show ?case by (subst read_all.simps) (simp add: Reader_Done_def)
next
  case (Cons r rs)
  obtain rd1 where rd1: "Reader_Read env data rd = Some (Inr r, rd1)" "reader_inv data rd1" "same_reader rd rd1"
    "rr_position rd1 = r_position r + length (record_bytes env (fh_compression (rr_info rd)) r)"
    by (rule Reader_Read_chain [OF assms(1) Cons.prems(1,2,4,5)])
  then obtain rd' where "read_all env data rd1 = Some (Inr rs, rd')" "Reader_Done rd'"
    using Cons.IH [of rd1] Cons.prems by (auto simp: same_reader_def)
  moreover have "\<not> Reader_Done rd" using chain_position [OF Cons.prems(4)] Cons.prems(3) by (simp add: Reader_Done_def)
  ultimately show ?case using rd1(1) by (subst read_all.simps) simp
qed

section \<open>Opening a written file\<close>

lemma load_store_le: "load_le (store_le n w) = take_bit (8 * n) (w :: 'a::len word)"
proof (induction n arbitrary: w)
  case (Suc n)
  have "ucast (ucast w :: byte) OR push_bit 8 (take_bit (8 * n) (drop_bit 8 w)) = take_bit (8 * Suc n) w"
    by (rule bit_word_eqI) (auto simp: bit_simps)
  then show ?case using Suc by simp
qed simp

lemma length_store_le [simp]: "length (store_le n w) = n"
  by (induction n arbitrary: w) simp_all

lemma file_header_round_trip:
  "length (file_header_bytes h) = sizeof_FileHeader" "file_header_of (file_header_bytes h @ rest) = h"
  by (cases h, simp add: file_header_bytes_def sizeof_FileHeader_def)
    (cases h, simp add: file_header_bytes_def file_header_of_def load_store_le nth_append nth_Cons' take_bit_word_eq_self)

lemma file_header_prefix:
  assumes "bytes = file_header_bytes info @ rest"
  shows "fh_hdrlen (file_header_of (take 8 bytes @ ys)) = fh_hdrlen info" "fh_magic (file_header_of (take 8 bytes @ ys)) = fh_magic info"
    "file_header_of (take sizeof_FileHeader bytes) = info"
proof -
  have "take 8 bytes = store_le 4 (fh_magic info) @ [fh_hdrlen info, fh_compression info] @ store_le 2 (fh_flags info)"
    using assms by (simp add: file_header_bytes_def)
  then show "fh_hdrlen (file_header_of (take 8 bytes @ ys)) = fh_hdrlen info" "fh_magic (file_header_of (take 8 bytes @ ys)) = fh_magic info"
    by (simp_all add: file_header_of_def load_store_le nth_append take_bit_word_eq_self)
  show "file_header_of (take sizeof_FileHeader bytes) = info"
    using assms file_header_round_trip(2) [of info "[]"] by (simp add: file_header_round_trip(1))
qed

lemma IOBuffer_Reset_init:
  "io_inv (IOBuffer_Reset n IOBuffer_init)" "io_data (IOBuffer_Reset n IOBuffer_init) = []" "io_capacity (IOBuffer_Reset n IOBuffer_init) = n"
  "io_available (IOBuffer_Reset n IOBuffer_init) = 0"
  by (auto simp: IOBuffer_Reset_def IOBuffer_init_def io_defs Let_def)

lemma RecordReader_init_spec:
  assumes env: "regular env" and data: "data = file_header_bytes info @ rest" "length data < 2 ^ 63"
    and info: "fh_magic info = MAGIC2" "fh_hdrlen info = 40" "fh_index_start info = 0" and n: "sizeof_FileHeader \<le> buffer_size"
  obtains rd where "RecordReader_init env data buffer_size validate = Some rd" "reader_inv data rd" "rr_position rd = sizeof_FileHeader"
    "rr_size rd = length data" "rr_info rd = info" "rr_validate rd = validate"
proof -
  define rd0 where "rd0 = \<lparr>rr_offset = 0, rr_size = 0, rr_position = 0, rr_readahead = True, rr_validate = validate,
    rr_info = file_header_of (replicate sizeof_FileHeader 0), rr_input = IOBuffer_Reset buffer_size IOBuffer_init\<rparr>"
  have inv0: "reader_inv data rd0"
    using n data(2) by (auto simp: rd0_def reader_inv_def IOBuffer_Reset_init sizeof_FileHeader_def MAX_HEADER_LEN_def)
  have cap: "sizeof_FileHeader \<le> io_capacity (rr_input rd0)" "io_available (rr_input rd0) < sizeof_FileHeader"
    using n by (simp_all add: rd0_def IOBuffer_Reset_init sizeof_FileHeader_def)
  obtain rd1 where rd1: "Reader_Fill env data sizeof_FileHeader rd0 = Some (OK, rd1)" "reader_inv data rd1" "rr_position rd1 = rr_position rd0"
    "same_reader rd0 rd1" "min sizeof_FileHeader (length data - rr_position rd0) \<le> io_available (rr_input rd1)"
    by (rule Reader_Fill_spec [OF env inv0 cap])
  have len: "sizeof_FileHeader \<le> length data" using data(1) file_header_round_trip(1) [of info] by simp
  have av: "sizeof_FileHeader \<le> io_available (rr_input rd1)" using rd1(5) len by (simp add: rd0_def)
  define bytes where "bytes = take (io_available (rr_input rd1)) data"
  have bytes: "those (io_data (rr_input rd1)) = Some bytes" using rd1(2,3) by (simp add: reader_inv_def bytes_def rd0_def)
  have b40: "bytes = file_header_bytes info @ drop sizeof_FileHeader bytes"
    using av len file_header_round_trip(1) [of info] data(1) by (simp add: bytes_def)
  note f8 = file_header_prefix(1,2) [OF b40, unfolded info(1,2)] and info' = file_header_prefix(3) [OF b40]
  have at: "bytes_at data (rr_position rd1) (file_header_bytes info)" "length (file_header_bytes info) \<le> io_available (rr_input rd1)"
    using data(1) rd1(3) av file_header_round_trip(1) [of info] by (simp_all add: bytes_at_def rd0_def)
  have "reader_inv data (rd1\<lparr>rr_position := rr_position rd1\<rparr>)" using rd1(2) by (simp add: reader_inv_def)
  then obtain rd2 where rd2: "consume_bytes (length (file_header_bytes info)) rd1 = Some (file_header_bytes info, rd2)"
    "reader_inv data (rd2\<lparr>rr_position := rr_position rd1 + length (file_header_bytes info)\<rparr>)" "same_reader rd1 rd2"
    by (rule consume_bytes_at [OF _ at])
  then obtain cs b where b: "IOBuffer_Consume sizeof_FileHeader (rr_input rd1) = Some (cs, b)" "rd2 = rd1\<lparr>rr_input := b\<rparr>"
    by (auto simp: consume_bytes_def file_header_round_trip(1) split: bind_splits)
  let ?rd = "rd1\<lparr>rr_info := info, rr_input := b, rr_position := sizeof_FileHeader, rr_size := length data\<rparr>"
  have "\<not> (buffer_size < sizeof_FileHeader \<or> buffer_size < MAX_HEADER_LEN)" "\<not> io_available (rr_input rd1) < 8"
    "max 8 (min 40 sizeof_FileHeader) = sizeof_FileHeader" "\<not> io_available (rr_input rd1) < 40"
    using n av by (auto simp: sizeof_FileHeader_def MAX_HEADER_LEN_def)
  then have "RecordReader_init env data buffer_size validate = Some ?rd"
    using rd1(1) bytes f8 info' b(1) info(3)
    by (simp add: RecordReader_init_def rd0_def [symmetric] Let_def) (simp add: sizeof_FileHeader_def)
  moreover have "reader_inv data ?rd"
    using rd2(2) b(2) rd1(3) file_header_round_trip(1) [of info] by (simp add: reader_inv_def rd0_def)
  ultimately show thesis using rd1(4) by (intro that [of ?rd]) (simp_all add: same_reader_def rd0_def)
qed

text \<open>Writing a list of records.\<close>

fun write_all :: "Env \<Rightarrow> byte list \<Rightarrow> Record list \<Rightarrow> RecordWriter \<Rightarrow> ((Status + nat list) \<times> byte list \<times> RecordWriter) option" where
  "write_all env data [] w = Some (Inr [], data, w)"
| "write_all env data (r # rs) w = do {
     (p, data, w) \<leftarrow> Writer_Write env data r w;
     (case p of
        Inl st \<Rightarrow> Some (Inl st, data, w)
      | Inr pos \<Rightarrow> do {
          (ps, data, w) \<leftarrow> write_all env data rs w;
          Some (case ps of Inl st \<Rightarrow> Inl st | Inr ps \<Rightarrow> Inr (pos # ps), data, w)
        })
   }"

lemma write_all_chain:
  assumes "regular env" "writer_inv data w" "list_all (record_ok env (rw_info w)) rs"
    and "chain env (fh_compression (rw_info w)) (file_image data w) pos rs0"
  shows "\<exists>ps data' w'. write_all env data rs w = Some (Inr ps, data', w') \<and> writer_inv data' w' \<and> rw_info w' = rw_info w \<and>
    prefix (file_image data w) (file_image data' w') \<and> length ps = length rs \<and>
    chain env (fh_compression (rw_info w)) (file_image data' w') pos (rs0 @ map2 read_back ps rs)"
  using assms(2-)
proof (induction rs arbitrary: data w rs0)
  case Nil
  then show ?case by simp
next
  case (Cons r rs)
  let ?c = "fh_compression (rw_info w)"
  have ok: "record_ok env (rw_info w) r" using Cons.prems(2) by simp
  obtain data1 w1 gap where w1: "Writer_Write env data r w = Some (Inr (length (file_image data w @ gap)), data1, w1)" "writer_inv data1 w1"
    "file_image data1 w1 = file_image data w @ gap @ record_bytes env ?c r"
    "gap = [] \<or> (\<exists>n. 2 \<le> n \<and> n < 2 ^ 64 \<and> gap = filler_bytes n)" "rw_info w1 = rw_info w"
    by (rule Writer_Write_spec [OF assms(1) Cons.prems(1) ok])
  define r' where "r' = read_back (length (file_image data w @ gap)) r"
  have "chain env (fh_compression (rw_info w1)) (file_image data1 w1) pos (rs0 @ [r'])"
    unfolding w1(3,5) r'_def by (rule chain_snoc [OF Cons.prems(3) ok w1(4)])
  then obtain ps data' w' where "write_all env data1 rs w1 = Some (Inr ps, data', w')" "writer_inv data' w'" "rw_info w' = rw_info w"
    "prefix (file_image data1 w1) (file_image data' w')" "length ps = length rs"
    "chain env ?c (file_image data' w') pos ((rs0 @ [r']) @ map2 read_back ps rs)"
    using Cons.IH [OF w1(2), of "rs0 @ [r']"] Cons.prems(2) w1(5) by auto
  moreover from this have "prefix (file_image data w) (file_image data' w')" using w1(3) by (auto simp: prefix_def)
  ultimately show ?case using w1(1) by (simp add: r'_def)
qed

lemma RecordWriter_init_spec:
  assumes "\<not> ro_append options \<or> data = []" "ro_compression options = SNAPPY \<or> ro_compression options = UNCOMPRESSED"
    and "ro_chunk_size options < 2 ^ 64" "ro_chunk_size options = 0 \<or> 43 \<le> ro_chunk_size options"
  shows "\<exists>w. RecordWriter_init env data options = Some w \<and> writer_inv [] w \<and> rw_info w = new_file_header options \<and>
    file_image [] w = file_header_bytes (new_file_header options)"
proof -
  let ?i = "new_file_header options" and ?o = "IOBuffer_Reset (ro_buffer_size options) IOBuffer_init"
  define w where "w = \<lparr>rw_offset = 0, rw_position = sizeof_FileHeader, rw_info = ?i,
    rw_output = IOBuffer_Write (map Some (file_header_bytes ?i)) ?o, rw_index = [], rw_closed = False\<rparr>"
  have "RecordWriter_init env data options = Some w" using assms(1) by (auto simp: RecordWriter_init_def w_def Let_def)
  moreover have "io_inv (rw_output w)" "io_data (rw_output w) = map Some (file_header_bytes ?i)"
    using Write_appends [OF IOBuffer_Reset_init(1), of "map Some (file_header_bytes ?i)"] IOBuffer_Reset_init(2) by (simp_all add: w_def)
  moreover have "chunk_ok ?i sizeof_FileHeader"
    using assms(3,4) by (auto simp: chunk_ok_def new_file_header_def unat_of_nat_uint64 sizeof_FileHeader_def)
  ultimately show ?thesis
    using assms(2) file_header_round_trip(1) [of ?i]
    by (intro exI [of _ w]) (auto simp: writer_inv_def writer_core_def file_image_def w_def new_file_header_def)
qed

lemma Writer_Close_spec:
  assumes "regular env" "writer_inv data w" "fh_index_page_size (rw_info w) = 0"
  shows "\<exists>w'. Writer_Close std_sort env data w = Some (OK, file_image data w, w') \<and> rw_closed w'"
proof -
  have "writer_core data w" using assms(2) by (simp add: writer_inv_def)
  from Writer_Flush_spec [OF assms(1) this] obtain w' where "Writer_Flush env data w = Some (OK, file_image data w, w')" by metis
  then show ?thesis using assms(2,3) by (auto simp: Writer_Close_def writer_inv_def)
qed

lemma new_file_header_simps [simp]:
  "fh_magic (new_file_header options) = MAGIC2" "fh_hdrlen (new_file_header options) = 40" "fh_index_start (new_file_header options) = 0"
  "fh_compression (new_file_header options) = ro_compression options"
  "fh_chunk_size (new_file_header options) = of_nat (ro_chunk_size options)"
  "\<not> ro_indexed options \<Longrightarrow> fh_index_page_size (new_file_header options) = 0"
  by (simp_all add: new_file_header_def sizeof_FileHeader_def)

section \<open>Writing only appends\<close>

lemma Writer_Flush_offset: "Writer_Flush env data w = Some (st, data', w') \<Longrightarrow> rw_offset w \<le> rw_offset w'"
  by (auto simp: Writer_Flush_def split: if_splits bind_splits prod.splits)

lemma ZeroFill_offset:
  assumes "ZeroFill env data left w = Some r"
  shows "rw_offset w \<le> rw_offset (snd (snd r))"
  using assms
proof (induction rule: ZeroFill.raw_induct [rotated, consumes 1, case_names step])
  case (step loop env data left w r)
  let ?w = "w\<lparr>rw_output := IOBuffer_Write (replicate (min (io_remaining (rw_output w)) left) (Some 0)) (rw_output w)\<rparr>"
  from step(2) consider "r = (OK, data, w)" | "r = (OK, data, ?w)"
    | st data1 w1 where "Writer_Flush env data ?w = Some (st, data1, w1)" "r = (st, data1, w1)"
    | data1 w1 where "Writer_Flush env data ?w = Some (OK, data1, w1)"
        "loop env data1 (left - min (io_remaining (rw_output w)) left) w1 = Some r"
    by (auto simp: Let_def split: if_splits bind_splits prod.splits)
  then show ?case
  proof cases
    case (4 data1 w1)
    have "rw_offset w \<le> rw_offset w1" using Writer_Flush_offset [OF 4(1)] by simp
    also have "\<dots> \<le> rw_offset (snd (snd r))" by (rule step(1) [OF 4(2)])
    finally show ?thesis .
  qed (use Writer_Flush_offset [of env data ?w] in force)+
qed

lemma write_filler_offset: "write_filler env data n w = Some (st, data', w') \<Longrightarrow> rw_offset w \<le> rw_offset w'"
  by (auto simp: write_filler_def Let_def write_bytes_def ensure_output_def dest!: ZeroFill_offset split: if_splits bind_splits prod.splits)

lemma Writer_Write_offset:
  assumes "Writer_Write env data r w = Some (p, data', w')"
  shows "rw_offset w \<le> rw_offset w'"
proof -
  have app: "rw_offset (append_record hdr n key v w) = rw_offset w" for hdr n key v w
    by (simp add: append_record_def write_bytes_def ensure_output_def Let_def)
  have "(if b then Writer_Flush env data w else Some (OK, data, w)) = Some (st, data1, w1) \<Longrightarrow> rw_offset w \<le> rw_offset w1" for b st data1 w1
    using Writer_Flush_offset by (auto split: if_splits)
  then show ?thesis using assms
    by (fastforce simp: Writer_Write_def Let_def app dest: write_filler_offset split: if_splits bind_splits prod.splits)
qed

text \<open>The bytes that are in the file stay there.\<close>

lemma Writer_Write_extends:
  assumes "Writer_Write env data r w = Some (p, data', w')" "writer_core data w" "writer_core data' w'"
    and "file_image data' w' = file_image data w @ xs"
  shows "\<exists>ys. data' = data @ ys"
proof -
  have "length data \<le> length data'" using Writer_Write_offset [OF assms(1)] assms(2,3) by (simp add: writer_core_def)
  moreover have "prefix data (file_image data' w')" unfolding assms(4) by (simp add: file_image_def)
  moreover have "prefix data' (file_image data' w')" by (simp add: file_image_def)
  ultimately have "prefix data data'" using prefix_length_prefix by blast
  then show ?thesis by (auto simp: prefix_def)
qed

section \<open>Properties\<close>

text \<open>An environment with files in memory and a compression that only stores the length.\<close>

definition memory_env :: Env where
  "memory_env = \<lparr>os_read = (\<lambda>data off n. Inr (take n (drop off data))), os_seek = (\<lambda>_. OK),
     os_write = (\<lambda>data off bytes. (take off data @ bytes @ drop (off + length bytes) data, OK)),
     snappy_Compress = (\<lambda>v. store_le 4 (of_nat (length v) :: uint32) @ v),
     snappy_Uncompress = (\<lambda>bs. Some (drop 4 bs)),
     snappy_GetUncompressedLength = (\<lambda>bs. Some (unat (load_le (take 4 bs) :: uint32)))\<rparr>"

lemma regular_memory_env: "regular memory_env"
proof -
  have "unat (load_le (store_le 4 (of_nat n :: uint32)) :: uint32) = n" if "n < 2 ^ 32" for n
    using that by (simp add: load_store_le take_bit_word_eq_self unsigned_of_nat take_bit_nat_eq_self)
  moreover have "store_le 4 w \<noteq> []" for w :: uint32 using length_store_le [of 4 w] by force
  ultimately show ?thesis by (simp add: regular_def memory_env_def)
qed

text \<open>
  C4: Record files read back what was written. For every compression and chunk size that the records fit
  into, a list of records written to a new file and closed is read back from the bytes of the
  file, in order, with the keys, values, versions and positions, by a reader of any buffer size,
  which skips the filler records at chunk boundaries and is done after the last record. The position that
  \<^verbatim>\<open>Write\<close> returned for a record is the one with which it is read.
\<close>

theorem record_file_round_trip:
  assumes "regular env" "ro_compression options = SNAPPY \<or> ro_compression options = UNCOMPRESSED" "\<not> ro_indexed options"
    and "ro_chunk_size options < 2 ^ 64" "ro_chunk_size options = 0 \<or> 43 \<le> ro_chunk_size options"
    and "list_all (record_ok env (new_file_header options)) rs"
  shows "\<exists>w ps data w' data' w''. RecordWriter_init env [] options = Some w \<and>
    write_all env [] rs w = Some (Inr ps, data, w') \<and> Writer_Close std_sort env data w' = Some (OK, data', w'') \<and> length ps = length rs \<and>
    (length data' < 2 ^ 63 \<and> sizeof_FileHeader \<le> buffer_size \<longrightarrow>
      (\<exists>rd rd'. RecordReader_init env data' buffer_size False = Some rd \<and>
        read_all env data' rd = Some (Inr (map2 read_back ps rs), rd') \<and> Reader_Done rd'))"
proof -
  let ?i = "new_file_header options"
  obtain w where w: "RecordWriter_init env [] options = Some w" "writer_inv [] w" "rw_info w = ?i" "file_image [] w = file_header_bytes ?i"
    using RecordWriter_init_spec [OF _ assms(2,4,5), of "[]" env] by auto
  have ch: "chain env (fh_compression (rw_info w)) (file_image [] w) sizeof_FileHeader []"
    using w(4) file_header_round_trip(1) [of ?i] by simp
  obtain ps data w' where wr: "write_all env [] rs w = Some (Inr ps, data, w')" "writer_inv data w'" "rw_info w' = ?i"
    "prefix (file_header_bytes ?i) (file_image data w')" "length ps = length rs"
    "chain env (ro_compression options) (file_image data w') sizeof_FileHeader (map2 read_back ps rs)"
    using write_all_chain [OF assms(1) w(2) _ ch, of rs] assms(6) w(3,4) by auto
  have "fh_index_page_size (rw_info w') = 0" using wr(3) assms(3) by simp
  then obtain w'' where cl: "Writer_Close std_sort env data w' = Some (OK, file_image data w', w'')"
    using Writer_Close_spec [OF assms(1) wr(2)] by blast
  obtain rest where rest: "file_image data w' = file_header_bytes ?i @ rest" using wr(4) by (auto simp: prefix_def)
  have "\<exists>rd rd'. RecordReader_init env (file_image data w') buffer_size False = Some rd \<and>
      read_all env (file_image data w') rd = Some (Inr (map2 read_back ps rs), rd') \<and> Reader_Done rd'"
    if small: "length (file_image data w') < 2 ^ 63" "sizeof_FileHeader \<le> buffer_size"
  proof -
    obtain rd where rd: "RecordReader_init env (file_image data w') buffer_size False = Some rd" "reader_inv (file_image data w') rd"
      "rr_position rd = sizeof_FileHeader" "rr_size rd = length (file_image data w')" "rr_info rd = ?i" "rr_validate rd = False"
      by (rule RecordReader_init_spec [OF assms(1) rest small(1) _ _ _ small(2), of False]) simp_all
    show ?thesis
      using read_all_chain [OF assms(1) rd(2) _ rd(4), of "map2 read_back ps rs"] rd wr(6) assms(2) by simp
  qed
  then show ?thesis using w(1) wr(1,5) cl by blast
qed

definition sample_record :: "byte list \<Rightarrow> byte list \<Rightarrow> nat \<Rightarrow> Record" where
  "sample_record key v version = \<lparr>r_type = DATA_RECORD, r_key = key, r_value = map Some v, r_version = version, r_position = 0\<rparr>"

definition sample_options :: RecordFileOptions where
  "sample_options = \<lparr>ro_buffer_size = 64, ro_chunk_size = 90, ro_compression = SNAPPY, ro_indexed = False, ro_append = False,
     ro_index_page_size = 0, ro_index_cache_size = 256, ro_validate = False\<rparr>"

theorem record_file_round_trip_witness:
  "\<exists>w ps data w' data' w''. RecordWriter_init memory_env [] sample_options = Some w \<and>
    write_all memory_env [] [sample_record [1, 2] [3] 0, sample_record [4] [5, 6] 7] w = Some (Inr ps, data, w') \<and>
    Writer_Close id memory_env data w' = Some (OK, data', w'') \<and> length ps = 2 \<and>
    (length data' < 2 ^ 63 \<longrightarrow> (\<exists>rd rd'. RecordReader_init memory_env data' 40 False = Some rd \<and>
      read_all memory_env data' rd =
        Some (Inr (map2 read_back ps [sample_record [1, 2] [3] 0, sample_record [4] [5, 6] 7]), rd') \<and> Reader_Done rd'))"
proof -
  let ?rs = "[sample_record [1, 2] [3] 0, sample_record [4] [5, 6] 7]"
  have rs: "list_all (record_ok memory_env (new_file_header sample_options)) ?rs"
    by (simp add: record_ok_def Let_def sample_record_def sample_options_def memory_env_def new_file_header_def fits_chunk_def
        stored_value_def record_value_def MAX_HEADER_LEN_def MAX_SKIP_LEN_def)
  have o: "ro_compression sample_options = SNAPPY \<or> ro_compression sample_options = UNCOMPRESSED" "\<not> ro_indexed sample_options"
    "ro_chunk_size sample_options < 2 ^ 64" "ro_chunk_size sample_options = 0 \<or> 43 \<le> ro_chunk_size sample_options"
    by (simp_all add: sample_options_def)
  have n: "sizeof_FileHeader \<le> 40" "length ?rs = 2" by (simp_all add: sizeof_FileHeader_def)
  from record_file_round_trip [OF regular_memory_env o rs, where std_sort = id and buffer_size = 40]
  show ?thesis unfolding n(2) using n(1) by simp
qed

end
