(* ===== verification/Database.thy ===== *)
theory Database
  imports Record_Writer DB_Index
begin

text \<open>
  The database (\<^verbatim>\<open>sling/db/db.h\<close>, \<^verbatim>\<open>sling/db/db.cc\<close>): records are appended to the last of a sequence of record
  files, the data shards, and an index maps the fingerprints of their keys to record ids. The state
  holds the bytes of the shards (\<open>db_files\<close>), their readers, and the writer of the last shard. A null
  pointer for the writer or the index is \<open>None\<close>. File names and directories are not part of the model: shard \<open>n\<close> is
  the \<open>n\<close>-th file.
\<close>

section \<open>The state\<close>

datatype DBMode = DBOVERWRITE | DBADD | DBORDERED | DBNEWER

datatype DBResult = DBNEW | DBUPDATED | DBUNCHANGED | DBEXISTS | DBSTALE | DBFAULT

datatype Metric = GET | PUT | DELETE | NEXT | RECREAD | RECWRITE | BYTEREAD | BYTEWRITE | HIT | MISS

text \<open>
  The product of a capacity and the load factor, a floating-point number, is the function \<open>cf_limit\<close>.
\<close>

record Config =
  cf_record :: RecordFileOptions
  cf_initial_index_capacity :: uint64
  cf_data_shard_size :: uint64
  cf_limit :: "uint64 \<Rightarrow> uint64"
  cf_read_only :: bool

record Database =
  db_config :: Config
  db_files :: "byte list list"
  db_readers :: "RecordReader list"
  db_writer :: "RecordWriter option"
  db_index :: "DatabaseIndex option"
  db_dirty :: bool
  db_bulk :: bool
  db_size :: uint64
  db_counter :: "Metric \<Rightarrow> uint64"

text \<open>
  What the operating system and libraries contribute: the calls of the record files, sorting for file indices,
  whether the file of a new shard exists already, and the outcomes of the calls for the index file.
\<close>

record DBEnv =
  de_env :: Env
  de_sort :: "IndexEntry list \<Rightarrow> IndexEntry list"
  de_exists :: "nat \<Rightarrow> bool"
  de_page_size :: uint64
  de_open :: Status
  de_resize :: Status
  de_delete :: Status
  de_table :: Status
  de_header :: Status
  de_unmap :: Status
  de_close :: Status
  de_mapped :: bool
  de_block :: "nat \<Rightarrow> Entry"

definition EEXIST :: Status where "EEXIST = Status_Error 17"

definition RecordID :: "uint64 \<Rightarrow> uint64 \<Rightarrow> uint64" where
  "RecordID shard position = push_bit 48 shard OR position"

definition Shard :: "uint64 \<Rightarrow> uint64" where
  "Shard recid = drop_bit 48 recid"

definition Position :: "uint64 \<Rightarrow> uint64" where
  "Position recid = recid AND (push_bit 48 1 - 1)"

definition CurrentShard :: "Database \<Rightarrow> uint64" where
  "CurrentShard db = of_nat (length (db_readers db)) - 1"

definition inc :: "Metric \<Rightarrow> Database \<Rightarrow> Database" where
  "inc m db = db\<lparr>db_counter := (db_counter db)(m := db_counter db m + 1)\<rparr>"

definition add_metric :: "Metric \<Rightarrow> nat \<Rightarrow> Database \<Rightarrow> Database" where
  "add_metric m n db = db\<lparr>db_counter := (db_counter db)(m := db_counter db m + of_nat n)\<rparr>"

definition tail_size :: "Database \<Rightarrow> uint64" where
  "tail_size db = (case db_writer db of None \<Rightarrow> 0 | Some w \<Rightarrow> of_nat (rw_position w))"

definition Database_size :: "Database \<Rightarrow> uint64" where
  "Database_size db = db_size db + tail_size db"

text \<open>The size of \<^verbatim>\<open>RecordFile::Header\<close> is 32 bytes.\<close>

definition epoch :: "Database \<Rightarrow> uint64" where
  "epoch db = (if db_readers db = [] then 32 else RecordID (CurrentShard db) (tail_size db))"

section \<open>Readers and writers\<close>

definition set_writer :: "byte list \<Rightarrow> RecordWriter \<Rightarrow> Database \<Rightarrow> Database" where
  "set_writer data w db = db\<lparr>db_files := (db_files db)[length (db_files db) - 1 := data], db_writer := Some w\<rparr>"

definition sync_reader :: "nat \<Rightarrow> Database \<Rightarrow> Database option" where
  "sync_reader position db =
     (if db_readers db = [] then None
      else Some (db\<lparr>db_readers := (db_readers db)[length (db_readers db) - 1 := (last (db_readers db))\<lparr>rr_size := position\<rparr>]\<rparr>))"

definition SyncWriter :: "Env \<Rightarrow> Database \<Rightarrow> (Status \<times> Database) option" where
  "SyncWriter env db =
     (case db_writer db of
        None \<Rightarrow> Some (OK, db)
      | Some w \<Rightarrow> do {
          (st, data, w) \<leftarrow> Writer_Flush env (last (db_files db)) w;
          let db = set_writer data w db;
          if st \<noteq> OK then Some (st, db)
          else do {
            db \<leftarrow> sync_reader (rw_position w) db;
            Some (OK, db)
          }
        })"

definition set_reader :: "nat \<Rightarrow> RecordReader \<Rightarrow> Database \<Rightarrow> Database" where
  "set_reader i rd db = db\<lparr>db_readers := (db_readers db)[i := rd]\<rparr>"

text \<open>
  \<^verbatim>\<open>ReadRecord\<close>; \<open>old\<close> is the size of the value that the record variable holds before the call, which
  is counted if reading fails.
\<close>

definition ReadRecord :: "Env \<Rightarrow> uint64 \<Rightarrow> bool \<Rightarrow> nat \<Rightarrow> Database \<Rightarrow> ((Status + Record) \<times> Database) option" where
  "ReadRecord env recid novalue old db = do {
     (st, db) \<leftarrow> (if Shard recid = CurrentShard db then SyncWriter env db else Some (OK, db));
     if st \<noteq> OK then Some (Inl st, db)
     else do {
       let shard = unat (Shard recid);
       if length (db_readers db) \<le> shard \<or> length (db_files db) \<le> shard then None
       else do {
         let data = db_files db ! shard;
         (st, rd) \<leftarrow> Reader_Seek env (unat (Position recid)) (db_readers db ! shard);
         if st \<noteq> OK then Some (Inl st, set_reader shard rd db)
         else do {
           (r, rd) \<leftarrow> (if novalue then Reader_ReadKey env data rd else Reader_Read env data rd);
           let db = set_reader shard rd db;
           let n = (case r of Inl _ \<Rightarrow> old | Inr rec \<Rightarrow> length (r_value rec));
           Some (r, inc RECREAD (if novalue then db else add_metric BYTEREAD n db))
         }
       }
     }
   }"

section \<open>Growing\<close>

text \<open>The first part of \<^verbatim>\<open>AddDataShard\<close> closes the current writer.\<close>

definition close_writer :: "DBEnv \<Rightarrow> Database \<Rightarrow> (Status \<times> Database) option" where
  "close_writer de db =
     (case db_writer db of
        None \<Rightarrow> Some (OK, db)
      | Some w \<Rightarrow> do {
          db \<leftarrow> sync_reader (rw_position w) db;
          (st, data, w') \<leftarrow> Writer_Close (de_sort de) (de_env de) (last (db_files db)) w;
          let db = set_writer data w' (db\<lparr>db_size := db_size db + of_nat (rw_position w)\<rparr>);
          Some (if st \<noteq> OK then (st, db) else (OK, db\<lparr>db_writer := None\<rparr>))
        })"

definition AddDataShard :: "DBEnv \<Rightarrow> Database \<Rightarrow> (Status \<times> Database) option" where
  "AddDataShard de db = do {
     (st, db) \<leftarrow> close_writer de db;
     if st \<noteq> OK then Some (st, db)
     else if de_exists de (length (db_readers db)) then Some (EEXIST, db)
     else do {
       let options = (cf_record (db_config db))\<lparr>ro_append := False\<rparr>;
       w \<leftarrow> RecordWriter_init (de_env de) [] options;
       (st, data, w) \<leftarrow> Writer_Flush (de_env de) [] w;
       let db = db\<lparr>db_config := (db_config db)\<lparr>cf_record := options\<rparr>, db_files := db_files db @ [data], db_writer := Some w\<rparr>;
       if st \<noteq> OK then Some (st, db)
       else do {
         rd \<leftarrow> RecordReader_init (de_env de) data (ro_buffer_size options) (ro_validate options);
         Some (OK, db\<lparr>db_readers := db_readers db @ [rd], db_dirty := True\<rparr>)
       }
     }
   }"

definition ExpandIndex :: "DBEnv \<Rightarrow> uint64 \<Rightarrow> Database \<Rightarrow> (Status \<times> Database) option" where
  "ExpandIndex de capacity db =
     (if \<not> db_bulk db \<and> de_delete de \<noteq> OK then Some (de_delete de, db)
      else do {
        r \<leftarrow> Index_Create (de_page_size de) (\<not> db_bulk db) (de_open de) (de_resize de) (de_mapped de) (de_block de)
          capacity (cf_limit (db_config db) capacity);
        (case r of
           Inl st \<Rightarrow> Some (st, db)
         | Inr new_index \<Rightarrow> do {
             index \<leftarrow> db_index db;
             new_index \<leftarrow> Index_TransferTo index new_index;
             let (st, closed) = Index_Close (de_unmap de) (de_close de) index;
             Some (if st \<noteq> OK then (st, db\<lparr>db_index := closed\<rparr>) else (OK, db\<lparr>db_index := Some new_index, db_dirty := True\<rparr>))
           })
      })"

definition Expand :: "DBEnv \<Rightarrow> Database \<Rightarrow> (Status \<times> Database) option" where
  "Expand de db = do {
     (st, db) \<leftarrow> (case db_writer db of
         None \<Rightarrow> AddDataShard de db
       | Some w \<Rightarrow> if unat (cf_data_shard_size (db_config db)) \<le> rw_position w then AddDataShard de db else Some (OK, db));
     if st \<noteq> OK then Some (st, db)
     else do {
       index \<leftarrow> db_index db;
       if index_full index then ExpandIndex de (ih_capacity (ix_header index) * 2) db else Some (OK, db)
     }
   }"

section \<open>Records\<close>

text \<open>
  The loop of \<^verbatim>\<open>Get\<close>, \<^verbatim>\<open>Put\<close> and \<^verbatim>\<open>Delete\<close> over the records with the fingerprint of a key: it stops at the end of
  the index entries, at the first record with the key, or at an error. Only \<^verbatim>\<open>Get\<close> counts the
  records with another key.
\<close>

datatype Match = NoMatch | Match uint64 Record | Fault Status

partial_function (option) find_record ::
  "Env \<Rightarrow> bool \<Rightarrow> bool \<Rightarrow> byte list \<Rightarrow> uint64 \<Rightarrow> uint64 \<Rightarrow> nat \<Rightarrow> Database \<Rightarrow> (Match \<times> Database) option" where
  "find_record env novalue count_miss key fp pos old db = do {
     index \<leftarrow> db_index db;
     (recid, pos) \<leftarrow> Index_Get index fp pos;
     if recid = NVAL then Some (NoMatch, db)
     else do {
       (r, db) \<leftarrow> ReadRecord env recid novalue old db;
       (case r of
          Inl st \<Rightarrow> Some (Fault st, db)
        | Inr record \<Rightarrow>
            if r_key record = key then Some (Match recid record, db)
            else find_record env novalue count_miss key fp pos (length (r_value record)) (if count_miss then inc MISS db else db))
     }
   }"

declare find_record.simps [code]

text \<open>\<^verbatim>\<open>Get\<close> returns the record or nothing; \<open>old\<close> is the size of the value in the caller's record variable.\<close>

definition Database_Get :: "Env \<Rightarrow> byte list \<Rightarrow> bool \<Rightarrow> nat \<Rightarrow> Database \<Rightarrow> (Record option \<times> Database) option" where
  "Database_Get env key novalue old db = do {
     (m, db) \<leftarrow> find_record env novalue True key (Fingerprint64 key) NPOS old (inc GET db);
     Some (case m of Match _ record \<Rightarrow> (Some record, inc HIT db) | _ \<Rightarrow> (None, db))
   }"

text \<open>The tests of \<^verbatim>\<open>Put\<close> that keep an existing record.\<close>

definition keep_record :: "DBMode \<Rightarrow> Record \<Rightarrow> Record \<Rightarrow> DBResult option" where
  "keep_record mode record rec =
     (if mode = DBADD then Some DBEXISTS
      else if mode = DBORDERED \<and> r_version rec \<noteq> 0 \<and> r_version record < r_version rec then Some DBSTALE
      else if mode = DBNEWER \<and> r_version record < r_version rec then Some DBSTALE
      else if mode = DBNEWER \<and> r_version record = r_version rec then Some DBUNCHANGED
      else if r_value rec = r_value record then Some DBUNCHANGED
      else None)"

text \<open>The last part of \<^verbatim>\<open>Put\<close> and \<^verbatim>\<open>Delete\<close>: write a record to the last shard.\<close>

definition write_record :: "Env \<Rightarrow> Record \<Rightarrow> Database \<Rightarrow> ((Status + nat) \<times> Database) option" where
  "write_record env record db = do {
     w \<leftarrow> db_writer db;
     (r, data, w) \<leftarrow> Writer_Write env (last (db_files db)) record w;
     Some (r, set_writer data w db)
   }"

definition Database_Put :: "DBEnv \<Rightarrow> Record \<Rightarrow> DBMode \<Rightarrow> Database \<Rightarrow> (uint64 \<times> DBResult option \<times> Database) option" where
  "Database_Put de record mode db =
     (if cf_read_only (db_config db) then Some (NVAL, None, db)
      else if r_value record = [] then Some (- 1, None, db)
      else do {
        let fp = Fingerprint64 (r_key record);
        (m, db) \<leftarrow> find_record (de_env de) (mode = DBADD) False (r_key record) fp NPOS 0 (inc PUT db);
        let kept = (case m of Fault _ \<Rightarrow> Some (- 1, DBFAULT)
            | Match recid rec \<Rightarrow> map_option (Pair recid) (keep_record mode record rec)
            | NoMatch \<Rightarrow> None);
        (case kept of
           Some (recid, result) \<Rightarrow> Some (recid, Some result, db)
         | None \<Rightarrow> do {
             (st, db) \<leftarrow> Expand de db;
             if st \<noteq> OK then Some (- 1, None, db)
             else do {
               (r, db) \<leftarrow> write_record (de_env de) record db;
               (case r of
                  Inl _ \<Rightarrow> Some (- 1, None, db)
                | Inr pos \<Rightarrow> do {
                    let newid = RecordID (CurrentShard db) (of_nat pos);
                    let db = add_metric BYTEWRITE (length (r_value record)) (inc RECWRITE db);
                    index \<leftarrow> db_index db;
                    (result, index) \<leftarrow> (case m of
                        Match recid _ \<Rightarrow> map_option (\<lambda>(_, index). (DBUPDATED, index)) (Index_Update fp recid newid index)
                      | _ \<Rightarrow> map_option (\<lambda>(_, index). (DBNEW, index)) (Index_Add fp newid index));
                    Some (newid, Some result, db\<lparr>db_index := Some index, db_dirty := True\<rparr>)
                  })
             }
           })
      })"

definition Database_Delete :: "DBEnv \<Rightarrow> byte list \<Rightarrow> Database \<Rightarrow> (bool \<times> Database) option" where
  "Database_Delete de key db =
     (let db = inc DELETE db in
      if cf_read_only (db_config db) then Some (False, db)
      else do {
        let fp = Fingerprint64 key;
        (m, db) \<leftarrow> find_record (de_env de) False False key fp NPOS 0 db;
        (case m of
           Match recid record \<Rightarrow> do {
             (st, db) \<leftarrow> Expand de db;
             if st \<noteq> OK then Some (False, db)
             else do {
               (r, db) \<leftarrow> write_record (de_env de) (record\<lparr>r_key := key, r_value := []\<rparr>) db;
               (case r of
                  Inl _ \<Rightarrow> Some (False, db)
                | Inr _ \<Rightarrow> do {
                    index \<leftarrow> db_index db;
                    (_, index) \<leftarrow> Index_Delete fp recid index;
                    Some (True, db\<lparr>db_index := Some index, db_dirty := True\<rparr>)
                  })
             }
           }
         | _ \<Rightarrow> Some (False, db))
      })"

section \<open>Iteration\<close>

text \<open>
  The loop of \<^verbatim>\<open>Next\<close>: the next record that is active, or a deletion record if these are wanted, with the
  iterator behind it.
\<close>

partial_function (option) next_record ::
  "Env \<Rightarrow> bool \<Rightarrow> bool \<Rightarrow> uint64 \<Rightarrow> uint64 \<Rightarrow> Database \<Rightarrow> ((Record \<times> uint64) option \<times> Database) option" where
  "next_record env deletions novalue shard pos db =
     (if length (db_readers db) \<le> unat shard then Some (None, db)
      else do {
        (st, db) \<leftarrow> (if shard = CurrentShard db then SyncWriter env db else Some (OK, db));
        if st \<noteq> OK then Some (None, db)
        else if length (db_files db) \<le> unat shard then None
        else do {
          let data = db_files db ! unat shard;
          (st, rd) \<leftarrow> (if pos = 0 then Reader_Rewind env (db_readers db ! unat shard)
            else Reader_Seek env (unat pos) (db_readers db ! unat shard));
          let db = set_reader (unat shard) rd db;
          if st \<noteq> OK then Some (None, db)
          else if Reader_Done rd then next_record env deletions novalue (shard + 1) 0 db
          else do {
            (r, rd) \<leftarrow> (if novalue then Reader_ReadKey env data rd else Reader_Read env data rd);
            let db = set_reader (unat shard) rd db;
            (case r of
               Inl _ \<Rightarrow> Some (None, db)
             | Inr record \<Rightarrow> do {
                 let db = (if novalue then db else add_metric BYTEREAD (length (r_value record)) (inc RECREAD db));
                 let pos = of_nat (rr_position rd);
                 active \<leftarrow> (if r_value record = [] then Some deletions
                   else db_index db \<bind> (\<lambda>index. Index_Exists index (Fingerprint64 (r_key record)) (RecordID shard (of_nat (r_position record)))));
                 if active then Some (Some (record, RecordID shard pos), db)
                 else next_record env deletions novalue shard pos db
               })
          }
        }
      })"

declare next_record.simps [code]

definition Database_Next ::
  "Env \<Rightarrow> uint64 \<Rightarrow> bool \<Rightarrow> bool \<Rightarrow> Database \<Rightarrow> ((Record \<times> uint64) option \<times> Database) option" where
  "Database_Next env iterator deletions novalue db =
     next_record env deletions novalue (Shard iterator) (Position iterator) (inc NEXT db)"

definition Database_Valid :: "uint64 \<Rightarrow> Database \<Rightarrow> bool" where
  "Database_Valid recid db =
     (if of_nat (length (db_readers db)) \<le> Shard recid then False
      else if db_writer db \<noteq> None \<and> Shard recid = of_nat (length (db_readers db)) - 1
      then unat (Position recid) < rw_position (the (db_writer db))
      else unat (Position recid) < rr_size (db_readers db ! unat (Shard recid)))"

section \<open>Flushing and bulk mode\<close>

definition Database_Flush :: "DBEnv \<Rightarrow> Database \<Rightarrow> (Status \<times> Database) option" where
  "Database_Flush de db =
     (if \<not> db_dirty db then Some (OK, db)
      else do {
        (st, db) \<leftarrow> SyncWriter (de_env de) db;
        if st \<noteq> OK then Some (st, db)
        else case db_index db of
          None \<Rightarrow> Some (OK, db\<lparr>db_dirty := False\<rparr>)
        | Some index \<Rightarrow>
            let (st, index) = Index_Flush (de_table de) (de_header de) (epoch db) index;
                db = db\<lparr>db_index := Some index\<rparr>
            in Some (st, if st \<noteq> OK then db else db\<lparr>db_dirty := False\<rparr>)
      })"

definition Database_Bulk :: "DBEnv \<Rightarrow> bool \<Rightarrow> Database \<Rightarrow> (Status \<times> Database) option" where
  "Database_Bulk de enable db =
     (if db_bulk db = enable then Some (OK, db)
      else do {
        let db = db\<lparr>db_bulk := enable\<rparr>;
        index \<leftarrow> db_index db;
        r \<leftarrow> Index_Create (de_page_size de) (\<not> enable) (de_open de) (de_resize de) (de_mapped de) (de_block de)
          (ih_capacity (ix_header index)) (ih_limit (ix_header index));
        (case r of
           Inl st \<Rightarrow> Some (st, db)
         | Inr newidx \<Rightarrow> do {
             newidx \<leftarrow> Index_CopyFrom index newidx;
             Some (OK, db\<lparr>db_index := Some newidx, db_dirty := (if enable then db_dirty db else True)\<rparr>)
           })
      })"

section \<open>Recovery\<close>

text \<open>
  \<^verbatim>\<open>Recover\<close> rebuilds the index from the data shards, starting with a backup of the index, if there is one, at the epoch of the
  backup. The memory index takes the place of the index of the database while existing records are looked up. An index
  object whose creation failed has no entries; it is \<open>None\<close>.
\<close>

definition memory_index :: "DBEnv \<Rightarrow> uint64 \<Rightarrow> uint64 \<Rightarrow> (Status + DatabaseIndex) option" where
  "memory_index de capacity limit =
     Index_Create (de_page_size de) False (de_open de) (de_resize de) (de_mapped de) (de_block de) capacity limit"

definition recover_grow :: "DBEnv \<Rightarrow> Config \<Rightarrow> DatabaseIndex \<Rightarrow> (Status + DatabaseIndex) option" where
  "recover_grow de cf idx =
     (if \<not> index_full idx then Some (Inr idx)
      else do {
        let capacity = ih_capacity (ix_header idx) * 2;
        r \<leftarrow> memory_index de capacity (cf_limit cf capacity);
        (case r of
           Inl st \<Rightarrow> Some (Inl st)
         | Inr newidx \<Rightarrow> do { newidx \<leftarrow> Index_TransferTo idx newidx; Some (Inr newidx) })
      })"

definition recover_record :: "Env \<Rightarrow> uint64 \<Rightarrow> Record \<Rightarrow> DatabaseIndex \<Rightarrow> Database \<Rightarrow> ((Status + DatabaseIndex) \<times> Database) option" where
  "recover_record env recid record idx db =
     (let fp = Fingerprint64 (r_key record) in
      if r_value record = []
      then do { (_, idx) \<leftarrow> Index_Delete fp recid idx; Some (Inr idx, db) }
      else do {
        (m, db) \<leftarrow> find_record env True False (r_key record) fp NPOS 0 (db\<lparr>db_index := Some idx\<rparr>);
        let db = db\<lparr>db_index := None\<rparr>;
        (case m of
           Fault st \<Rightarrow> Some (Inl st, db)
         | NoMatch \<Rightarrow> do { (_, idx) \<leftarrow> Index_Add fp recid idx; Some (Inr idx, db) }
         | Match val _ \<Rightarrow> do { (_, idx) \<leftarrow> Index_Update fp val recid idx; Some (Inr idx, db) })
      })"

partial_function (option) recover_records ::
  "DBEnv \<Rightarrow> nat \<Rightarrow> RecordReader \<Rightarrow> DatabaseIndex \<Rightarrow> Database \<Rightarrow> ((Status + DatabaseIndex) \<times> Database) option" where
  "recover_records de shard rd idx db =
     (if Reader_Done rd then Some (Inr idx, db)
      else do {
        g \<leftarrow> recover_grow de (db_config db) idx;
        (case g of
           Inl st \<Rightarrow> Some (Inl st, db)
         | Inr idx \<Rightarrow> do {
             (r, rd) \<leftarrow> Reader_Read (de_env de) (db_files db ! shard) rd;
             (case r of
                Inl st \<Rightarrow> Some (Inl st, db)
              | Inr record \<Rightarrow> do {
                  (s, db) \<leftarrow> recover_record (de_env de) (RecordID (of_nat shard) (of_nat (r_position record))) record idx db;
                  (case s of Inl st \<Rightarrow> Some (Inl st, db) | Inr idx \<Rightarrow> recover_records de shard rd idx db)
                })
           })
      })"

declare recover_records.simps [code]

fun recover_shards ::
  "DBEnv \<Rightarrow> uint64 \<Rightarrow> nat list \<Rightarrow> DatabaseIndex \<Rightarrow> Database \<Rightarrow> ((Status + DatabaseIndex) \<times> Database) option" where
  "recover_shards de start_pos [] idx db = Some (Inr idx, db)"
| "recover_shards de start_pos (shard # shards) idx db =
     (if length (db_files db) \<le> shard then None
      else do {
        let options = cf_record (db_config db);
        rd \<leftarrow> RecordReader_init (de_env de) (db_files db ! shard) (ro_buffer_size options) (ro_validate options);
        (st, rd) \<leftarrow> (if start_pos \<noteq> 0 then Reader_Seek (de_env de) (unat start_pos) rd else Some (OK, rd));
        if st \<noteq> OK then Some (Inl st, db)
        else do {
          (r, db) \<leftarrow> recover_records de shard rd idx db;
          (case r of Inl st \<Rightarrow> Some (Inl st, db) | Inr idx \<Rightarrow> recover_shards de 0 shards idx db)
        }
      })"

text \<open>The first part: the index to start with.\<close>

definition recover_start :: "DBEnv \<Rightarrow> IndexFile option \<Rightarrow> uint64 \<Rightarrow> Config \<Rightarrow> (Status + DatabaseIndex) option" where
  "recover_start de backup capacity cf =
     (case backup of
        Some f \<Rightarrow> (case Index_Open f of
            Inl st \<Rightarrow> Some (Inl st)
          | Inr bak \<Rightarrow> do {
              r \<leftarrow> memory_index de (ih_capacity (ix_header bak)) (ih_limit (ix_header bak));
              (case r of
                 Inl st \<Rightarrow> Some (Inl st)
               | Inr idx \<Rightarrow> do { idx \<leftarrow> Index_CopyFrom bak idx; Some (Inr idx) })
            })
      | None \<Rightarrow>
          let capacity = (if capacity < cf_initial_index_capacity cf then cf_initial_index_capacity cf else capacity)
          in memory_index de capacity (cf_limit cf capacity))"

definition Database_Recover :: "DBEnv \<Rightarrow> IndexFile option \<Rightarrow> uint64 \<Rightarrow> Database \<Rightarrow> (Status \<times> Database) option" where
  "Database_Recover de backup capacity db =
     (if db_index db \<noteq> None then None
      else do {
        let db = db\<lparr>db_dirty := True\<rparr>;
        s \<leftarrow> recover_start de backup capacity (db_config db);
        (case s of
           Inl st \<Rightarrow> Some (st, db)
         | Inr idx \<Rightarrow> do {
             (r, db) \<leftarrow> recover_shards de (Position (ih_epoch (ix_header idx)))
               [unat (Shard (ih_epoch (ix_header idx)))..<length (db_readers db)] idx db;
             (case r of
                Inl st \<Rightarrow> Some (st, db)
              | Inr idx \<Rightarrow> do {
                  c \<leftarrow> Index_Create (de_page_size de) (\<not> db_bulk db) (de_open de) (de_resize de) (de_mapped de) (de_block de)
                    (ih_capacity (ix_header idx)) (ih_limit (ix_header idx));
                  (case c of
                     Inl st \<Rightarrow> Some (st, db)
                   | Inr index \<Rightarrow> do {
                       index \<leftarrow> Index_CopyFrom idx index;
                       let (st, index) = Index_Flush (de_table de) (de_header de) (epoch db) index;
                       Some (st, db\<lparr>db_index := Some index\<rparr>)
                     })
                })
           })
      })"

end
