(* ===== verification/Database_Log.thy ===== *)
theory Database_Log
  imports Database
begin

text \<open>
  The database refines a log. The abstract state is the sequence of the records of every shard; the active records,
  found by replaying the log, are what \<^verbatim>\<open>Get\<close> returns, \<^verbatim>\<open>Put\<close> and \<^verbatim>\<open>Delete\<close> append to the log, and \<^verbatim>\<open>Next\<close> enumerates the
  active records in the order of the log. The invariant \<open>db_ok\<close> ties the bytes of the files, the readers, the writer with its
  buffer and the hash index to the log; every operation is shown to terminate, to report no error and to keep the invariant.
\<close>

section \<open>Record ids\<close>

lemma RecordID_parts:
  assumes "i < 2 ^ 16" "p < 2 ^ 48"
  shows "Shard (RecordID (of_nat i) (of_nat p)) = of_nat i" "unat (Shard (RecordID (of_nat i) (of_nat p))) = i"
    "unat (Position (RecordID (of_nat i) (of_nat p))) = p"
proof -
  have ti: "take_bit 16 (of_nat i :: uint64) = of_nat i" using assms(1) by (simp add: take_bit_of_nat take_bit_nat_eq_self)
  have tp: "take_bit 48 (of_nat p :: uint64) = of_nat p" using assms(2) by (simp add: take_bit_of_nat take_bit_nat_eq_self)
  have "drop_bit 48 (push_bit 48 x OR take_bit 48 y) = take_bit 16 x" for x y :: uint64
    by (rule bit_word_eqI) (auto simp: bit_simps)
  from this [of "of_nat i" "of_nat p"] show s: "Shard (RecordID (of_nat i) (of_nat p)) = of_nat i"
    using ti tp by (simp add: Shard_def RecordID_def)
  show "unat (Shard (RecordID (of_nat i) (of_nat p))) = i"
    unfolding s using assms(1) by (simp add: unat_of_nat_uint64)
  have "x AND (push_bit 48 1 - 1) = take_bit 48 x" for x :: uint64
    by (simp add: take_bit_eq_mask mask_eq_exp_minus_1 push_bit_eq_mult)
  moreover have "take_bit 48 (push_bit 48 x OR take_bit 48 y) = take_bit 48 y" for x y :: uint64
    by (rule bit_word_eqI) (auto simp: bit_simps)
  from this [of "of_nat i" "of_nat p"] have "take_bit 48 (RecordID (of_nat i) (of_nat p)) = of_nat p"
    using tp by (simp add: RecordID_def)
  ultimately show "unat (Position (RecordID (of_nat i) (of_nat p))) = p"
    using assms(2) by (simp add: Position_def unat_of_nat_uint64)
qed

lemma RecordID_inject:
  assumes "i < 2 ^ 16" "p < 2 ^ 48" "j < 2 ^ 16" "q < 2 ^ 48" "RecordID (of_nat i) (of_nat p) = RecordID (of_nat j) (of_nat q)"
  shows "i = j" "p = q"
  using RecordID_parts(2,3) [OF assms(1,2)] RecordID_parts(2,3) [OF assms(3,4)] assms(5) by simp_all

lemma RecordID_not_NVAL:
  assumes "i < 2 ^ 16 - 1" "p < 2 ^ 48"
  shows "RecordID (of_nat i) (of_nat p) \<noteq> NVAL"
proof
  assume "RecordID (of_nat i) (of_nat p) = NVAL"
  moreover have "unat (Shard NVAL) = 2 ^ 16 - 1"
    by (simp add: Shard_def NVAL_def unsigned_minus_1_eq_mask mask_eq_exp_minus_1 unsigned_drop_bit_eq drop_bit_eq_div take_bit_minus_one_eq_mask)
  ultimately show False using RecordID_parts(2) [of i p] assms by simp
qed

lemma RecordID_not_zero: "i < 2 ^ 16 \<Longrightarrow> 0 < p \<Longrightarrow> p < 2 ^ 48 \<Longrightarrow> RecordID (of_nat i) (of_nat p) \<noteq> 0"
  using RecordID_parts(3) [of i p] by (auto simp: Position_def)

section \<open>Logs\<close>

text \<open>
  The abstract state of a database is its log: the records of every shard in the order in which they were written,
  with their ids. The active records are found by replaying the log: a later record replaces an earlier one
  with the same key, and a record with an empty value deletes it.
\<close>

definition shard_entries :: "nat \<Rightarrow> Record list \<Rightarrow> (uint64 \<times> Record) list" where
  "shard_entries i rs = map (\<lambda>r. (RecordID (of_nat i) (of_nat (r_position r)), r)) rs"

fun log_entries_from :: "nat \<Rightarrow> Record list list \<Rightarrow> (uint64 \<times> Record) list" where
  "log_entries_from i [] = []"
| "log_entries_from i (rs # logs) = shard_entries i rs @ log_entries_from (Suc i) logs"

definition log_entries :: "Record list list \<Rightarrow> (uint64 \<times> Record) list" where
  "log_entries logs = log_entries_from 0 logs"

definition log_step :: "(byte list \<rightharpoonup> uint64 \<times> Record) \<Rightarrow> uint64 \<times> Record \<Rightarrow> (byte list \<rightharpoonup> uint64 \<times> Record)" where
  "log_step m e = m(r_key (snd e) := if r_value (snd e) = [] then None else Some e)"

definition active :: "Record list list \<Rightarrow> (byte list \<rightharpoonup> uint64 \<times> Record)" where
  "active logs = foldl log_step Map.empty (log_entries logs)"

definition append_log :: "Record \<Rightarrow> Record list list \<Rightarrow> Record list list" where
  "append_log r logs = butlast logs @ [last logs @ [r]]"

definition active_pairs :: "(byte list \<rightharpoonup> uint64 \<times> Record) \<Rightarrow> (uint64 \<times> uint64) multiset" where
  "active_pairs m = image_mset (\<lambda>k. (Fingerprint64 k, fst (the (m k)))) (mset_set (dom m))"

lemma log_entries_from_append:
  "log_entries_from i (a @ b) = log_entries_from i a @ log_entries_from (i + length a) b"
  by (induction a arbitrary: i) auto

lemma log_entries_new_shard: "log_entries (logs @ [[]]) = log_entries logs"
  by (simp add: log_entries_def log_entries_from_append shard_entries_def)

lemma log_entries_append_log:
  assumes "logs \<noteq> []"
  shows "log_entries (append_log r logs) =
    log_entries logs @ [(RecordID (of_nat (length logs - 1)) (of_nat (r_position r)), r)]"
proof -
  have "log_entries logs = log_entries (butlast logs @ [last logs])" using assms by simp
  then show ?thesis by (simp add: append_log_def log_entries_def log_entries_from_append shard_entries_def)
qed

lemma in_log_entries_from:
  "(recid, r) \<in> set (log_entries_from i logs) \<longleftrightarrow>
    (\<exists>j<length logs. r \<in> set (logs ! j) \<and> recid = RecordID (of_nat (i + j)) (of_nat (r_position r)))"
proof (induction logs arbitrary: i)
  case (Cons rs logs)
  have "(recid, r) \<in> set (shard_entries i rs) \<longleftrightarrow> r \<in> set rs \<and> recid = RecordID (of_nat i) (of_nat (r_position r))"
    by (auto simp: shard_entries_def)
  then show ?case using Cons.IH [of "Suc i"] by (simp add: Ex_less_Suc2 ac_simps)
qed simp

lemmas in_log_entries = in_log_entries_from [of _ _ 0, folded log_entries_def, unfolded add_0]

lemma active_new_shard [simp]: "active (logs @ [[]]) = active logs"
  by (simp add: active_def log_entries_new_shard)

lemma active_append_log:
  assumes "logs \<noteq> []"
  shows "active (append_log r logs) = (active logs)(r_key r := if r_value r = [] then None
    else Some (RecordID (of_nat (length logs - 1)) (of_nat (r_position r)), r))"
  by (simp add: active_def log_entries_append_log [OF assms] log_step_def)

lemma active_cases:
  assumes "foldl log_step m es k = Some (recid, r)"
  shows "m k = Some (recid, r) \<or> (recid, r) \<in> set es \<and> r_key r = k \<and> r_value r \<noteq> []"
  using assms
proof (induction es arbitrary: m)
  case (Cons e es)
  have "log_step m e k = Some (recid, r) \<Longrightarrow> m k = Some (recid, r) \<or> e = (recid, r) \<and> r_key r = k \<and> r_value r \<noteq> []"
    by (auto simp: log_step_def split: if_splits)
  then show ?case using Cons.IH [of "log_step m e"] Cons.prems by auto
qed simp

lemma activeD:
  assumes "active logs k = Some (recid, r)"
  shows "(recid, r) \<in> set (log_entries logs)" "r_key r = k" "r_value r \<noteq> []"
  using active_cases [of Map.empty "log_entries logs" k recid r] assms by (simp_all add: active_def)

lemma finite_active: "finite (dom (active logs))"
proof -
  have "finite (dom (foldl log_step m es))" if "finite (dom m)" for m es
    using that by (induction es arbitrary: m) (auto simp: log_step_def)
  then show ?thesis by (simp add: active_def)
qed

lemma active_pairs_iff:
  assumes "finite (dom m)"
  shows "(fp, recid) \<in># active_pairs m \<longleftrightarrow> (\<exists>k r. m k = Some (recid, r) \<and> Fingerprint64 k = fp)"
  using assms by (force simp: active_pairs_def)

lemma active_pairs_delete:
  assumes "finite (dom m)" "m k = Some (recid, r)"
  shows "active_pairs (m(k := None)) = active_pairs m - {#(Fingerprint64 k, recid)#}"
proof -
  have d: "mset_set (dom m) = add_mset k (mset_set (dom m - {k}))"
    using assms by (intro mset_set.remove) auto
  have "image_mset (\<lambda>x. (Fingerprint64 x, fst (the ((m(k := None)) x)))) (mset_set (dom m - {k})) =
      image_mset (\<lambda>x. (Fingerprint64 x, fst (the (m x)))) (mset_set (dom m - {k}))"
    using assms(1) by (intro image_mset_cong) auto
  then show ?thesis using assms(2) by (simp add: active_pairs_def d)
qed

lemma active_pairs_add:
  assumes "finite (dom m)" "m k = None"
  shows "active_pairs (m(k \<mapsto> (recid, r))) = add_mset (Fingerprint64 k, recid) (active_pairs m)"
proof -
  have "k \<notin> dom m" using assms(2) by auto
  then have "image_mset (\<lambda>x. (Fingerprint64 x, fst (the ((m(k \<mapsto> (recid, r))) x)))) (mset_set (dom m)) =
      image_mset (\<lambda>x. (Fingerprint64 x, fst (the (m x)))) (mset_set (dom m))"
    using assms(1) by (intro image_mset_cong) auto
  then show ?thesis using \<open>k \<notin> dom m\<close> assms(1) by (simp add: active_pairs_def del: fun_upd_apply) simp
qed

lemma active_pairs_update:
  assumes "finite (dom m)" "m k = Some (recid, r)"
  shows "active_pairs (m(k \<mapsto> (recid', r'))) = add_mset (Fingerprint64 k, recid') (active_pairs m - {#(Fingerprint64 k, recid)#})"
  using active_pairs_add [of "m(k := None)" k recid' r'] active_pairs_delete [OF assms] assms(1) by simp

section \<open>Shards\<close>

definition info_ok :: "FileHeader \<Rightarrow> bool" where
  "info_ok info \<longleftrightarrow> fh_magic info = MAGIC2 \<and> fh_hdrlen info = 40 \<and> fh_index_start info = 0 \<and> fh_index_page_size info = 0 \<and>
     (fh_compression info = SNAPPY \<or> fh_compression info = UNCOMPRESSED) \<and> unat (fh_chunk_size info) \<le> 2 ^ 46"

text \<open>The bytes of a shard with those that are still in the buffer of the writer.\<close>

definition shard_image :: "Database \<Rightarrow> nat \<Rightarrow> byte list" where
  "shard_image db i = (case db_writer db of
     Some w \<Rightarrow> if Suc i = length (db_files db) then file_image (db_files db ! i) w else db_files db ! i
   | None \<Rightarrow> db_files db ! i)"

definition shard_ok :: "Env \<Rightarrow> byte list \<Rightarrow> byte list \<Rightarrow> Record list \<Rightarrow> RecordReader \<Rightarrow> bool" where
  "shard_ok env data img rs rd \<longleftrightarrow> reader_inv data rd \<and> \<not> rr_validate rd \<and> info_ok (rr_info rd) \<and> prefix (file_header_bytes (rr_info rd)) data \<and>
     chain env (fh_compression (rr_info rd)) img sizeof_FileHeader rs \<and> length img < 2 ^ 48"

definition writer_ok :: "Database \<Rightarrow> bool" where
  "writer_ok db \<longleftrightarrow> (case db_writer db of None \<Rightarrow> True
     | Some w \<Rightarrow> db_readers db \<noteq> [] \<and> writer_inv (last (db_files db)) w \<and> rw_info w = rr_info (last (db_readers db)))"

text \<open>The readers of the shards without a writer know the size of their file.\<close>

definition sizes_ok :: "Database \<Rightarrow> bool" where
  "sizes_ok db \<longleftrightarrow> (\<forall>i<length (db_readers db). db_writer db = None \<or> Suc i < length (db_readers db) \<longrightarrow>
     rr_size (db_readers db ! i) = length (db_files db ! i))"

definition shards_ok :: "Env \<Rightarrow> Record list list \<Rightarrow> Database \<Rightarrow> bool" where
  "shards_ok env logs db \<longleftrightarrow> length (db_files db) = length (db_readers db) \<and> length logs = length (db_readers db) \<and>
     length (db_readers db) < 2 ^ 16 \<and> writer_ok db \<and> sizes_ok db \<and>
     (\<forall>i<length (db_readers db). shard_ok env (db_files db ! i) (shard_image db i) (logs ! i) (db_readers db ! i))"

definition db_images :: "Database \<Rightarrow> byte list list" where
  "db_images db = map (shard_image db) [0..<length (db_files db)]"

text \<open>What reading leaves alone; the writer may have been flushed.\<close>

definition same_db :: "Database \<Rightarrow> Database \<Rightarrow> bool" where
  "same_db db db' \<longleftrightarrow> db_config db' = db_config db \<and> db_index db' = db_index db \<and> db_dirty db' = db_dirty db \<and> db_bulk db' = db_bulk db \<and>
     db_size db' = db_size db \<and> length (db_readers db') = length (db_readers db) \<and>
     map_option (\<lambda>w. (rw_info w, rw_position w)) (db_writer db') = map_option (\<lambda>w. (rw_info w, rw_position w)) (db_writer db) \<and>
     db_images db' = db_images db \<and> list_all2 prefix (db_files db) (db_files db')"

lemma same_db_refl [simp]: "same_db db db"
  by (simp add: same_db_def list_all2_refl)

lemma same_db_trans: "same_db a b \<Longrightarrow> same_db b c \<Longrightarrow> same_db a c"
  using list_all2_trans [of prefix prefix prefix "db_files a" "db_files b" "db_files c", OF prefix_order.trans] by (simp add: same_db_def)

lemma chain_entries:
  assumes "chain env compression data pos rs" "r \<in> set rs"
  shows "entry_at env compression data r" "pos \<le> r_position r" "r_position r < length data"
proof -
  have "entry_at env compression data r \<and> pos \<le> r_position r" using assms
  proof (induction rs arbitrary: pos)
    case (Cons r' rs)
    then have "pos \<le> r_position r'" by auto
    then show ?case using Cons.IH [of "r_position r' + length (record_bytes env compression r')"] Cons.prems by force
  qed simp
  then show e: "entry_at env compression data r" "pos \<le> r_position r" by simp_all
  have ne: "record_bytes env compression r \<noteq> []" using length_record_bytes [of env compression r] by simp
  then show "r_position r < length data"
    using bytes_at_length [of data "r_position r" "record_bytes env compression r"] e(1) length_record_bytes [of env compression r]
    unfolding entry_at_def by linarith
qed

lemma chain_inject:
  assumes "chain env compression data pos rs" "r \<in> set rs" "r' \<in> set rs" "r_position r = r_position r'"
  shows "r = r'"
  using assms
proof (induction rs arbitrary: pos)
  case (Cons r0 rs)
  let ?next = "r_position r0 + length (record_bytes env compression r0)"
  have ch: "chain env compression data ?next rs" using Cons.prems(1) by simp
  have later: "r_position r0 < r_position x" if "x \<in> set rs" for x
    using chain_entries(2) [OF ch that] length_record_bytes [of env compression r0] by linarith
  consider "r \<in> set rs" "r' \<in> set rs" | "r = r0" "r' = r0" | "r = r0" "r' \<in> set rs" | "r \<in> set rs" "r' = r0"
    using Cons.prems(2,3) by auto
  then show ?case
  proof cases
    case 1
    then show ?thesis using Cons.IH [OF ch] Cons.prems(4) by simp
  qed (use later Cons.prems(4) in force)+
qed simp

lemma reader_inv_extend:
  assumes "reader_inv data rd" "length (data @ ys) < 2 ^ 63"
  shows "reader_inv (data @ ys) rd"
  using assms by (simp add: reader_inv_def)

lemma reader_inv_size [simp]: "reader_inv data (rd\<lparr>rr_size := n\<rparr>) = reader_inv data rd"
  by (simp add: reader_inv_def)

lemma shards_okD:
  assumes "shards_ok env logs db" "i < length (db_readers db)"
  shows "shard_ok env (db_files db ! i) (shard_image db i) (logs ! i) (db_readers db ! i)"
  using assms by (simp add: shards_ok_def)

lemma last_file: "shards_ok env logs db \<Longrightarrow> db_readers db \<noteq> [] \<Longrightarrow>
    last (db_files db) = db_files db ! (length (db_readers db) - 1) \<and> last (db_readers db) = db_readers db ! (length (db_readers db) - 1)"
  unfolding shards_ok_def by (metis last_conv_nth length_0_conv)

lemma log_entryD:
  assumes "shards_ok env logs db" "(recid, r) \<in> set (log_entries logs)"
  obtains i where "i < length (db_readers db)" "r \<in> set (logs ! i)" "recid = RecordID (of_nat i) (of_nat (r_position r))"
    "Shard recid = of_nat i" "unat (Shard recid) = i" "unat (Position recid) = r_position r" "0 < r_position r" "r_position r < 2 ^ 48"
    "entry_at env (fh_compression (rr_info (db_readers db ! i))) (shard_image db i) r"
proof -
  obtain i where i: "i < length logs" "r \<in> set (logs ! i)" "recid = RecordID (of_nat i) (of_nat (r_position r))"
    using assms(2) in_log_entries by blast
  then have n: "i < length (db_readers db)" "i < 2 ^ 16" using assms(1) by (simp_all add: shards_ok_def)
  have ch: "chain env (fh_compression (rr_info (db_readers db ! i))) (shard_image db i) sizeof_FileHeader (logs ! i)"
    "length (shard_image db i) < 2 ^ 48" using shards_okD [OF assms(1) n(1)] by (simp_all add: shard_ok_def)
  note e = chain_entries [OF ch(1) i(2)]
  have p: "0 < r_position r" "r_position r < 2 ^ 48" using e(2,3) ch(2) by (simp_all add: sizeof_FileHeader_def)
  show thesis using that [OF n(1) i(2,3)] RecordID_parts [OF n(2) p(2)] i(3) p e(1) by simp
qed

lemma log_entries_inject:
  assumes "shards_ok env logs db" "(recid, r) \<in> set (log_entries logs)" "(recid, r') \<in> set (log_entries logs)"
  shows "r = r'"
proof -
  obtain i where i: "i < length (db_readers db)" "r \<in> set (logs ! i)" "unat (Shard recid) = i" "unat (Position recid) = r_position r"
    by (rule log_entryD [OF assms(1,2)])
  obtain j where j: "j < length (db_readers db)" "r' \<in> set (logs ! j)" "unat (Shard recid) = j" "unat (Position recid) = r_position r'"
    by (rule log_entryD [OF assms(1,3)])
  have "chain env (fh_compression (rr_info (db_readers db ! i))) (shard_image db i) sizeof_FileHeader (logs ! i)"
    using shards_okD [OF assms(1) i(1)] by (simp add: shard_ok_def)
  then show ?thesis using chain_inject i j by metis
qed

section \<open>Reading records\<close>

lemma SyncWriter_spec:
  assumes "regular env" "shards_ok env logs db"
  shows "\<exists>db'. SyncWriter env db = Some (OK, db') \<and> shards_ok env logs db' \<and> same_db db db' \<and>
    (\<forall>i<length (db_readers db). shard_image db' i = shard_image db i \<and> rr_info (db_readers db' ! i) = rr_info (db_readers db ! i)) \<and>
    (\<forall>i<length (db_readers db). db_files db' ! i = shard_image db' i \<and> rr_size (db_readers db' ! i) = length (db_files db' ! i))"
proof (cases "db_writer db")
  case None
  then show ?thesis using assms by (simp add: SyncWriter_def shard_image_def shards_ok_def sizes_ok_def)
next
  case (Some w)
  let ?n = "length (db_readers db) - 1"
  have ne: "db_readers db \<noteq> []" and inv: "writer_inv (last (db_files db)) w" and info: "rw_info w = rr_info (last (db_readers db))"
    and len: "length (db_files db) = length (db_readers db)"
    using assms(2) Some by (simp_all add: shards_ok_def writer_ok_def)
  have n: "?n < length (db_readers db)" "Suc ?n = length (db_readers db)" using ne by simp_all
  note l = last_file [OF assms(2) ne]
  have fne: "db_files db \<noteq> []" using ne len by auto
  have core: "writer_core (last (db_files db)) w" using inv by (simp add: writer_inv_def)
  obtain data' w' where fl: "Writer_Flush env (last (db_files db)) w = Some (OK, data', w')" "data' = file_image (last (db_files db)) w"
    "file_image data' w' = file_image (last (db_files db)) w" "writer_core data' w'" "same_writer w w'" "rw_position w' = rw_position w"
    by (rule Writer_Flush_spec [OF assms(1) core])
  have inv': "writer_inv data' w'" using inv fl by (auto simp: writer_inv_def same_writer_def)
  define db' where "db' = db\<lparr>db_files := (db_files db)[?n := data'], db_writer := Some w',
    db_readers := (db_readers db)[?n := (last (db_readers db))\<lparr>rr_size := rw_position w'\<rparr>]\<rparr>"
  have run: "SyncWriter env db = Some (OK, db')"
    using Some fl(1) ne len by (simp add: SyncWriter_def set_writer_def sync_reader_def db'_def)
  have img: "shard_image db' i = shard_image db i" "db_files db' ! i = shard_image db' i" if "i < length (db_readers db)" for i
    using that Some fl(2,3) len l by (auto simp: shard_image_def db'_def nth_list_update)
  have rd: "rr_info (db_readers db' ! i) = rr_info (db_readers db ! i)" if "i < length (db_readers db)" for i
    using that l by (simp add: db'_def nth_list_update)
  have wpos: "rw_position w' = length data'" using inv' fl(2,3) by (simp add: writer_inv_def)
  have sh: "shard_ok env (db_files db' ! i) (shard_image db' i) (logs ! i) (db_readers db' ! i)" if i: "i < length (db_readers db)" for i
  proof (cases "i = ?n")
    case True
    note ok = shards_okD [OF assms(2) i]
    have "data' = shard_image db i" "\<exists>ys. data' = db_files db ! i @ ys" "length data' < 2 ^ 48"
      using Some fl(2) l True n(2) len ok by (simp_all add: shard_image_def file_image_def shard_ok_def)
    then have "reader_inv data' (db_readers db ! i)" "prefix (file_header_bytes (rr_info (db_readers db ! i))) data'"
      using ok reader_inv_extend [of "db_files db ! i"] by (auto simp: shard_ok_def)
    then show ?thesis
      using ok img(1) [OF i] True l n(1) len \<open>data' = shard_image db i\<close> by (simp add: db'_def shard_ok_def)
  next
    case False
    then have "db_files db' ! i = db_files db ! i" "db_readers db' ! i = db_readers db ! i" by (simp_all add: db'_def)
    then show ?thesis using shards_okD [OF assms(2) i] img(1) [OF i] by simp
  qed
  have "writer_ok db'"
    using inv' ne fne info fl(5) len by (simp add: writer_ok_def db'_def same_writer_def last_list_update list_update_nonempty)
  moreover have "length (db_files db') = length (db_readers db')" "length logs = length (db_readers db')" "length (db_readers db') < 2 ^ 16"
    using assms(2) by (simp_all add: db'_def shards_ok_def)
  moreover have sz: "rr_size (db_readers db' ! i) = length (db_files db' ! i)" if i: "i < length (db_readers db)" for i
    using i n(2) wpos len assms(2) Some by (auto simp: db'_def shards_ok_def sizes_ok_def nth_list_update)
  moreover have "length (db_readers db') = length (db_readers db)" by (simp add: db'_def)
  then have "sizes_ok db'" using sz by (simp add: sizes_ok_def)
  ultimately have ok: "shards_ok env logs db'" using sh by (simp add: shards_ok_def db'_def)
  have "db_images db' = db_images db" using img(1) len by (simp add: db_images_def db'_def)
  moreover have "prefix (db_files db ! i) (db_files db' ! i)" if "i < length (db_files db)" for i
    using that fl(2) l len by (auto simp: db'_def nth_list_update file_image_def)
  then have "list_all2 prefix (db_files db) (db_files db')" by (simp add: list_all2_conv_all_nth db'_def)
  ultimately have "same_db db db'" using Some fl(5,6) by (simp add: same_db_def db'_def same_writer_def)
  then show ?thesis using run ok img rd sz by blast
qed

definition record_view :: "bool \<Rightarrow> Record \<Rightarrow> Record" where
  "record_view novalue r = (if novalue then r\<lparr>r_value := replicate (length (r_value r)) None\<rparr> else r)"

lemma record_view_key [simp]: "r_key (record_view novalue r) = r_key r" "r_version (record_view novalue r) = r_version r"
  by (simp_all add: record_view_def)

lemma shard_image_update [simp]:
  "shard_image (db\<lparr>db_counter := c\<rparr>) = shard_image db" "shard_image (db\<lparr>db_index := ix\<rparr>) = shard_image db"
  "shard_image (db\<lparr>db_dirty := d\<rparr>) = shard_image db"
  by (simp_all add: fun_eq_iff shard_image_def cong: option.case_cong if_cong)

lemma shards_ok_update [simp]:
  "shards_ok env logs (db\<lparr>db_counter := c\<rparr>) = shards_ok env logs db"
  "shards_ok env logs (db\<lparr>db_index := ix\<rparr>) = shards_ok env logs db"
  "shards_ok env logs (db\<lparr>db_dirty := d\<rparr>) = shards_ok env logs db"
  "shards_ok env logs (db\<lparr>db_bulk := d\<rparr>) = shards_ok env logs db"
  "shards_ok env logs (db\<lparr>db_size := n\<rparr>) = shards_ok env logs db"
  "shards_ok env logs (db\<lparr>db_config := cf\<rparr>) = shards_ok env logs db"
  by (simp_all add: shards_ok_def writer_ok_def sizes_ok_def shard_image_def cong: option.case_cong if_cong)

lemma shards_ok_metrics [simp]:
  "shards_ok env logs (inc m db) = shards_ok env logs db" "shards_ok env logs (add_metric m n db) = shards_ok env logs db"
  by (simp_all add: inc_def add_metric_def)

lemma same_db_metrics [simp]:
  "same_db db (inc m db') = same_db db db'" "same_db (inc m db) db' = same_db db db'"
  "same_db db (add_metric m n db') = same_db db db'" "same_db (add_metric m n db) db' = same_db db db'"
  by (simp_all add: inc_def add_metric_def same_db_def db_images_def)

lemma db_metrics [simp]:
  "db_index (inc m db) = db_index db" "db_index (add_metric m n db) = db_index db"
  "db_config (inc m db) = db_config db" "db_config (add_metric m n db) = db_config db"
  "db_writer (inc m db) = db_writer db" "db_writer (add_metric m n db) = db_writer db"
  "db_readers (inc m db) = db_readers db" "db_readers (add_metric m n db) = db_readers db"
  "db_files (inc m db) = db_files db" "db_files (add_metric m n db) = db_files db"
  "db_bulk (inc m db) = db_bulk db" "db_bulk (add_metric m n db) = db_bulk db"
  by (simp_all add: inc_def add_metric_def)

lemma set_reader_spec:
  assumes "shards_ok env logs db" "i < length (db_readers db)" "reader_inv (db_files db ! i) rd" "same_reader (db_readers db ! i) rd"
  shows "shards_ok env logs (set_reader i rd db)" "same_db db (set_reader i rd db)" "db_files (set_reader i rd db) = db_files db"
proof -
  have sh: "shard_image (set_reader i rd db) j = shard_image db j" for j by (simp add: shard_image_def set_reader_def cong: option.case_cong if_cong)
  have "shard_ok env (db_files db ! j) (shard_image db j) (logs ! j) ((db_readers db)[i := rd] ! j)" if "j < length (db_readers db)" for j
    using shards_okD [OF assms(1) that] assms(2-4) that by (auto simp: shard_ok_def nth_list_update same_reader_def)
  moreover have "rr_info (last ((db_readers db)[i := rd])) = rr_info (last (db_readers db))"
    using assms(2,4) by (cases "db_readers db = []") (simp_all add: same_reader_def last_conv_nth nth_list_update)
  then have "writer_ok (set_reader i rd db)"
    using assms(1) by (auto simp: writer_ok_def shards_ok_def set_reader_def split: option.splits)
  moreover have "sizes_ok (set_reader i rd db)"
    using assms by (auto simp: sizes_ok_def shards_ok_def set_reader_def nth_list_update same_reader_def)
  ultimately show "shards_ok env logs (set_reader i rd db)"
    using assms(1) sh by (simp add: shards_ok_def set_reader_def)
  show "same_db db (set_reader i rd db)" "db_files (set_reader i rd db) = db_files db"
    using sh by (simp_all add: same_db_def set_reader_def db_images_def list_all2_refl)
qed

text \<open>The file of a shard holds the whole shard once the writer has been flushed for the last one.\<close>

lemma sync_shard:
  assumes "regular env" "shards_ok env logs db" "i < length (db_readers db)" "shard = of_nat i"
  obtains db' where "(if shard = CurrentShard db then SyncWriter env db else Some (OK, db)) = Some (OK, db')" "shards_ok env logs db'"
    "same_db db db'" "db_files db' ! i = shard_image db' i" "shard_image db' i = shard_image db i"
    "rr_info (db_readers db' ! i) = rr_info (db_readers db ! i)" "length (db_readers db') = length (db_readers db)"
    "rr_size (db_readers db' ! i) = length (db_files db' ! i)"
proof (cases "shard = CurrentShard db")
  case True
  then show thesis using SyncWriter_spec [OF assms(1,2)] assms(3) that by (auto simp: same_db_def)
next
  case False
  have "length (db_readers db) \<noteq> 0" "length (db_files db) = length (db_readers db)" using assms(2,3) by (auto simp: shards_ok_def)
  moreover have "Suc i \<noteq> length (db_readers db)"
  proof
    assume "Suc i = length (db_readers db)"
    then have "(of_nat (length (db_readers db)) :: uint64) = of_nat i + 1" by (metis Suc_eq_plus1 of_nat_1 of_nat_add)
    then show False using False assms(4) by (simp add: CurrentShard_def)
  qed
  ultimately have "db_files db ! i = shard_image db i" "rr_size (db_readers db ! i) = length (db_files db ! i)"
    using assms(2,3) by (simp_all add: shard_image_def shards_ok_def sizes_ok_def split: option.splits)
  then show thesis using that [of db] False assms(2) by simp
qed

lemma ReadRecord_spec:
  assumes "regular env" "shards_ok env logs db" "(recid, r) \<in> set (log_entries logs)"
  obtains db' where "ReadRecord env recid novalue old db = Some (Inr (record_view novalue r), db')" "shards_ok env logs db'" "same_db db db'"
proof -
  obtain i where i: "i < length (db_readers db)" "Shard recid = of_nat i" "unat (Shard recid) = i" "unat (Position recid) = r_position r"
    "0 < r_position r" "entry_at env (fh_compression (rr_info (db_readers db ! i))) (shard_image db i) r"
    by (rule log_entryD [OF assms(2,3)])
  obtain db1 where db1: "(if Shard recid = CurrentShard db then SyncWriter env db else Some (OK, db)) = Some (OK, db1)" "shards_ok env logs db1"
    "same_db db db1" "db_files db1 ! i = shard_image db1 i" "shard_image db1 i = shard_image db i"
    "rr_info (db_readers db1 ! i) = rr_info (db_readers db ! i)" "length (db_readers db1) = length (db_readers db)"
    by (rule sync_shard [OF assms(1,2) i(1,2)])
  let ?rd = "db_readers db1 ! i" and ?data = "db_files db1 ! i"
  have i1: "i < length (db_readers db1)" "length (db_files db1) = length (db_readers db1)" using i(1) db1(2,7) by (simp_all add: shards_ok_def)
  have ok: "reader_inv ?data ?rd" "\<not> rr_validate ?rd"
    "fh_compression (rr_info ?rd) = SNAPPY \<or> fh_compression (rr_info ?rd) = UNCOMPRESSED"
    using shards_okD [OF db1(2) i1(1)] by (auto simp: shard_ok_def info_ok_def)
  have e: "entry_at env (fh_compression (rr_info ?rd)) ?data r" using i(6) db1(4-6) by simp
  have ne: "record_bytes env (fh_compression (rr_info ?rd)) r \<noteq> []"
    using length_record_bytes [of env "fh_compression (rr_info ?rd)" r] by simp
  have pos: "r_position r \<le> length ?data"
    using bytes_at_length [OF _ ne, of ?data "r_position r"] e by (auto simp: entry_at_def)
  obtain rd1 where rd1: "Reader_Seek env (r_position r) ?rd = Some (OK, rd1)" "reader_inv ?data rd1" "rr_position rd1 = r_position r"
    "same_reader ?rd rd1"
    by (rule Reader_Seek_spec [OF assms(1) ok(1) pos]) (use i(5) in simp_all)
  have s1: "\<not> rr_validate rd1" "rr_info rd1 = rr_info ?rd" using ok(2) rd1(4) by (simp_all add: same_reader_def)
  obtain rd2 rd3 where rd2: "Reader_Read env ?data rd1 = Some (Inr r, rd2)" "reader_inv ?data rd2" "same_reader rd1 rd2"
    "Reader_ReadKey env ?data rd1 = Some (Inr (r\<lparr>r_value := replicate (length (r_value r)) None\<rparr>), rd3)"
    "reader_inv ?data rd3" "same_reader rd1 rd3"
    by (rule Reader_Read_entry [OF assms(1) rd1(2) s1(1), unfolded s1(2), OF e rd1(3) ok(3)])
  define rd' where "rd' = (if novalue then rd3 else rd2)"
  have rd': "(if novalue then Reader_ReadKey env ?data rd1 else Reader_Read env ?data rd1) = Some (Inr (record_view novalue r), rd')"
    "reader_inv ?data rd'" "same_reader ?rd rd'"
    using rd2 rd1(4) same_reader_trans by (auto simp: rd'_def record_view_def)
  note sr = set_reader_spec [OF db1(2) i1(1) rd'(2,3)]
  let ?db = "set_reader i rd' db1"
  let ?db' = "inc RECREAD (if novalue then ?db else add_metric BYTEREAD (length (r_value (record_view novalue r))) ?db)"
  have run: "ReadRecord env recid novalue old db = Some (Inr (record_view novalue r), ?db')"
    unfolding ReadRecord_def db1(1) using i1 rd1(1) rd'(1) i(3,4) by (simp add: Let_def)
  show thesis by (rule that [OF run]) (use sr db1(3) same_db_trans in auto)
qed

section \<open>The abstraction\<close>

text \<open>A database is consistent with a log if the shards hold the log and the index points to the active records.\<close>

definition db_ok :: "Env \<Rightarrow> Record list list \<Rightarrow> Database \<Rightarrow> bool" where
  "db_ok env logs db \<longleftrightarrow> shards_ok env logs db \<and>
     (case db_index db of None \<Rightarrow> False
      | Some index \<Rightarrow> index_inv index \<and> values_ok index \<and> index_pairs index = active_pairs (active logs))"

lemma db_okE:
  assumes "db_ok env logs db"
  obtains index where "db_index db = Some index" "index_inv index" "values_ok index" "index_pairs index = active_pairs (active logs)"
    "shards_ok env logs db"
  using assms by (auto simp: db_ok_def split: option.splits)

lemma db_ok_same: "db_ok env logs db \<Longrightarrow> shards_ok env logs db' \<Longrightarrow> same_db db db' \<Longrightarrow> db_ok env logs db'"
  by (auto simp: db_ok_def same_db_def)

lemma db_ok_metrics [simp]:
  "db_ok env logs (inc m db) = db_ok env logs db" "db_ok env logs (add_metric m n db) = db_ok env logs db"
  by (simp_all add: db_ok_def)

text \<open>The search of a key in an index that points to records of the log.\<close>

definition log_map :: "Record list list \<Rightarrow> (byte list \<rightharpoonup> uint64 \<times> Record) \<Rightarrow> bool" where
  "log_map logs m \<longleftrightarrow> finite (dom m) \<and> (\<forall>k recid r. m k = Some (recid, r) \<longrightarrow> (recid, r) \<in> set (log_entries logs) \<and> r_key r = k)"

lemma log_map_active: "log_map logs (active logs)"
  using activeD finite_active by (simp add: log_map_def)

lemma find_record_from:
  assumes env: "regular env" and lm: "log_map logs m" and sh: "shards_ok env logs db" and ix: "db_index db = Some index"
    and cv: "cursor_valid index fp pos" "cursor_values index fp pos = vs"
    and vs: "\<forall>v\<in>set vs. \<exists>k r. m k = Some (v, r) \<and> Fingerprint64 k = fp"
  shows "\<exists>db'. find_record env novalue count_miss key fp pos old db =
      Some (case m key of
          Some (recid, r) \<Rightarrow> if recid \<in> set vs then Match recid (record_view novalue r) else NoMatch
        | None \<Rightarrow> NoMatch, db') \<and> shards_ok env logs db' \<and> same_db db db'"
  using sh ix cv vs
proof (induction vs arbitrary: pos old db)
  case Nil
  obtain q where "Index_Get index fp pos = Some (NVAL, q)" using index.get_end [OF Nil.prems(3,4)] by blast
  then show ?case using Nil.prems(1,2) by (subst find_record.simps) (auto split: option.splits)
next
  case (Cons v vs)
  note sh = Cons.prems(1)
  obtain q where q: "Index_Get index fp pos = Some (v, q)" "cursor_valid index fp q" "cursor_values index fp q = vs"
    using index.get_next [OF Cons.prems(3,4)] by blast
  obtain k r where k: "m k = Some (v, r)" "Fingerprint64 k = fp" using Cons.prems(5) by auto
  have kD: "(v, r) \<in> set (log_entries logs)" "r_key r = k" using k(1) lm by (simp_all add: log_map_def)
  obtain i where i: "i < length (db_readers db)" "v = RecordID (of_nat i) (of_nat (r_position r))" "r_position r < 2 ^ 48"
    by (rule log_entryD [OF sh kD(1)])
  have "v \<noteq> NVAL" unfolding i(2) using RecordID_not_NVAL [of i] i sh by (simp add: shards_ok_def)
  obtain db1 where db1: "ReadRecord env v novalue old db = Some (Inr (record_view novalue r), db1)" "shards_ok env logs db1" "same_db db db1"
    by (rule ReadRecord_spec [OF env sh kD(1)])
  have step: "find_record env novalue count_miss key fp pos old db =
      (if k = key then Some (Match v (record_view novalue r), db1)
       else find_record env novalue count_miss key fp q (length (r_value (record_view novalue r))) (if count_miss then inc MISS db1 else db1))"
    using Cons.prems(2) q(1) \<open>v \<noteq> NVAL\<close> db1(1) kD(2) by (subst find_record.simps) simp
  show ?case
  proof (cases "k = key")
    case True
    then show ?thesis using step k(1) db1(2,3) by simp
  next
    case False
    let ?db = "if count_miss then inc MISS db1 else db1"
    have same: "same_db db ?db" "shards_ok env logs ?db" "db_index ?db = Some index"
      using db1(2,3) Cons.prems(2) by (auto simp: same_db_def [of db db1])
    have other: "recid \<noteq> v" if "m key = Some (recid, r')" for recid r'
      using that False kD lm log_entries_inject [OF sh, of v r r'] by (auto simp: log_map_def)
    obtain db' where "find_record env novalue count_miss key fp q (length (r_value (record_view novalue r))) ?db =
      Some (case m key of
          Some (recid, r) \<Rightarrow> if recid \<in> set vs then Match recid (record_view novalue r) else NoMatch
        | None \<Rightarrow> NoMatch, db')" "shards_ok env logs db'" "same_db ?db db'"
      using Cons.IH [OF same(2,3) q(2,3)] Cons.prems(5) by auto
    then show ?thesis
      using step False other same_db_trans [OF same(1)] by (auto split: option.splits)
  qed
qed

lemma Fingerprint64_special: "Fingerprint64 k \<noteq> EMPTY" "Fingerprint64 k \<noteq> TOMBSTONE"
  using Fingerprint64_not_reserved [of k] by (auto simp: special_keys)

lemma find_record_map:
  assumes "regular env" "log_map logs m" "shards_ok env logs db" "db_index db = Some index" "index_inv index" "index_pairs index = active_pairs m"
  shows "\<exists>db'. find_record env novalue count_miss key (Fingerprint64 key) NPOS old db =
      Some (case m key of Some (recid, r) \<Rightarrow> Match recid (record_view novalue r) | None \<Rightarrow> NoMatch, db') \<and>
    shards_ok env logs db' \<and> same_db db db'"
proof -
  note cur = cursor_first [OF assms(5) Fingerprint64_special, of key]
  have fin: "finite (dom m)" using assms(2) by (simp add: log_map_def)
  have set: "set (cursor_values index (Fingerprint64 key) NPOS) = {v. \<exists>k r. m k = Some (v, r) \<and> Fingerprint64 k = Fingerprint64 key}"
    unfolding cur(3) assms(6) using active_pairs_iff [OF fin] by blast
  from find_record_from [OF assms(1-4) cur(1) refl, of novalue count_miss key old] set
  show ?thesis by (fastforce split: option.splits)
qed

lemma find_record_spec:
  assumes "regular env" "db_ok env logs db"
  shows "\<exists>db'. find_record env novalue count_miss key (Fingerprint64 key) NPOS old db =
      Some (case active logs key of Some (recid, r) \<Rightarrow> Match recid (record_view novalue r) | None \<Rightarrow> NoMatch, db') \<and>
    db_ok env logs db' \<and> same_db db db'"
proof -
  obtain index where ix: "db_index db = Some index" "index_inv index" "index_pairs index = active_pairs (active logs)" "shards_ok env logs db"
    using assms(2) by (auto elim: db_okE)
  from find_record_map [OF assms(1) log_map_active ix(4,1-3), of novalue count_miss key old] show ?thesis
    using db_ok_same [OF assms(2)] by blast
qed

lemma Database_Get_map:
  assumes "regular env" "log_map logs m" "shards_ok env logs db" "db_index db = Some index" "index_inv index" "index_pairs index = active_pairs m"
  shows "\<exists>db'. Database_Get env key novalue old db = Some (map_option (\<lambda>(_, r). record_view novalue r) (m key), db')"
  using find_record_map [OF assms(1,2), of "inc GET db" index novalue True key old] assms(3-6)
  by (auto simp: Database_Get_def split: option.splits)

lemma Database_Get_spec:
  assumes "regular env" "db_ok env logs db"
  shows "\<exists>db'. Database_Get env key novalue old db =
      Some (map_option (\<lambda>(_, r). record_view novalue r) (active logs key), db') \<and> db_ok env logs db' \<and> same_db db db'"
  using find_record_spec [OF assms(1), of logs "inc GET db" novalue True key old] assms(2)
  by (auto simp: Database_Get_def split: option.splits)

section \<open>Growing\<close>

text \<open>
  The hypotheses on the configuration and the environment: chunks and shards are small enough for the 48 bits of a position, the load
  factor is at least one half, the operating system reports no errors, new memory is cleared and pages have 4096 bytes.
\<close>

definition config_ok :: "Config \<Rightarrow> bool" where
  "config_ok cf \<longleftrightarrow> (ro_compression (cf_record cf) = SNAPPY \<or> ro_compression (cf_record cf) = UNCOMPRESSED) \<and>
     \<not> ro_indexed (cf_record cf) \<and> \<not> ro_validate (cf_record cf) \<and> sizeof_FileHeader \<le> ro_buffer_size (cf_record cf) \<and>
     (ro_chunk_size (cf_record cf) = 0 \<or> 43 \<le> ro_chunk_size (cf_record cf)) \<and> ro_chunk_size (cf_record cf) \<le> 2 ^ 46 \<and>
     unat (cf_data_shard_size cf) \<le> 2 ^ 47 \<and>
     (\<forall>k<60. 0 < k \<longrightarrow> 2 ^ k \<le> 2 * unat (cf_limit cf (2 ^ k)) \<and> unat (cf_limit cf (2 ^ k)) < 2 ^ k)"

definition env_ok :: "DBEnv \<Rightarrow> bool" where
  "env_ok de \<longleftrightarrow> regular (de_env de) \<and> (\<forall>n. \<not> de_exists de n) \<and> de_page_size de = 4096 \<and> de_open de = OK \<and> de_resize de = OK \<and>
     de_delete de = OK \<and> de_table de = OK \<and> de_header de = OK \<and> de_unmap de = OK \<and> de_close de = OK \<and> de_mapped de \<and>
     (\<forall>i. de_block de i = \<lparr>e_key = 0, e_value = 0\<rparr>)"

lemma info_ok_new:
  "config_ok cf \<Longrightarrow> info_ok (new_file_header ((cf_record cf)\<lparr>ro_append := False\<rparr>))"
  by (auto simp: config_ok_def info_ok_def unat_of_nat_uint64)

lemma close_writer_spec:
  assumes "env_ok de" "shards_ok (de_env de) logs db"
  shows "\<exists>db'. close_writer de db = Some (OK, db') \<and> shards_ok (de_env de) logs db' \<and> db_writer db' = None \<and>
    db_config db' = db_config db \<and> db_index db' = db_index db \<and> db_bulk db' = db_bulk db \<and> length (db_readers db') = length (db_readers db)"
proof (cases "db_writer db")
  case None
  then show ?thesis using assms(2) by (simp add: close_writer_def)
next
  case (Some w)
  let ?n = "length (db_readers db) - 1"
  have ne: "db_readers db \<noteq> []" and inv: "writer_inv (last (db_files db)) w" and info: "rw_info w = rr_info (last (db_readers db))"
    and len: "length (db_files db) = length (db_readers db)"
    using assms(2) Some by (simp_all add: shards_ok_def writer_ok_def)
  have n: "?n < length (db_readers db)" "Suc ?n = length (db_readers db)" using ne by simp_all
  note l = last_file [OF assms(2) ne]
  have fne: "db_files db \<noteq> []" using ne len by auto
  note okn = shards_okD [OF assms(2) n(1)]
  have "fh_index_page_size (rw_info w) = 0" using okn l info by (simp add: shard_ok_def info_ok_def)
  then obtain w' where cl: "Writer_Close (de_sort de) (de_env de) (last (db_files db)) w = Some (OK, file_image (last (db_files db)) w, w')"
    using Writer_Close_spec [OF _ inv, of "de_env de" "de_sort de"] assms(1) by (auto simp: env_ok_def)
  let ?data = "file_image (last (db_files db)) w"
  define db' where "db' = db\<lparr>db_files := (db_files db)[?n := ?data], db_writer := None, db_size := db_size db + of_nat (rw_position w),
    db_readers := (db_readers db)[?n := (last (db_readers db))\<lparr>rr_size := rw_position w\<rparr>]\<rparr>"
  have run: "close_writer de db = Some (OK, db')"
    using Some cl ne len by (simp add: close_writer_def set_writer_def sync_reader_def db'_def Let_def)
  have "shard_ok (de_env de) (db_files db' ! i) (shard_image db' i) (logs ! i) (db_readers db' ! i)" if i: "i < length (db_readers db)" for i
  proof (cases "i = ?n")
    case True
    have "?data = shard_image db i" "\<exists>ys. ?data = db_files db ! i @ ys" "length ?data < 2 ^ 48"
      using Some l True n(2) len okn by (simp_all add: shard_image_def file_image_def shard_ok_def)
    moreover from this have "reader_inv ?data (db_readers db ! i)" "prefix (file_header_bytes (rr_info (db_readers db ! i))) ?data"
      using okn True reader_inv_extend [of "db_files db ! i"] by (auto simp: shard_ok_def)
    ultimately show ?thesis
      using okn True l n(1) len inv by (simp add: db'_def shard_ok_def shard_image_def writer_inv_def)
  next
    case False
    then have "db_files db' ! i = db_files db ! i" "db_readers db' ! i = db_readers db ! i" "shard_image db i = db_files db ! i"
      "shard_image db' i = db_files db ! i"
      using i n(2) len by (simp_all add: db'_def shard_image_def split: option.splits)
    then show ?thesis using shards_okD [OF assms(2) i] by simp
  qed
  moreover have "sizes_ok db'"
    using assms(2) Some n(2) len inv by (auto simp: db'_def shards_ok_def sizes_ok_def nth_list_update writer_inv_def)
  ultimately have "shards_ok (de_env de) logs db'" using assms(2) by (simp add: shards_ok_def db'_def writer_ok_def)
  then show ?thesis using run by (simp add: db'_def)
qed

lemma new_shard:
  assumes "env_ok de" "config_ok cf"
  defines "options \<equiv> (cf_record cf)\<lparr>ro_append := False\<rparr>"
  shows "\<exists>w data w' rd. RecordWriter_init (de_env de) [] options = Some w \<and> Writer_Flush (de_env de) [] w = Some (OK, data, w') \<and>
    RecordReader_init (de_env de) data (ro_buffer_size options) (ro_validate options) = Some rd \<and> file_image data w' = data \<and>
    writer_inv data w' \<and> rw_info w' = rr_info rd \<and> rw_position w' = sizeof_FileHeader \<and> rw_info w' = new_file_header options \<and>
    shard_ok (de_env de) data data [] rd"
proof -
  let ?e = "de_env de" and ?i = "new_file_header options"
  have env: "regular ?e" using assms(1) by (simp add: env_ok_def)
  have iok: "info_ok ?i" using info_ok_new [OF assms(2)] by (simp add: options_def)
  have "\<not> ro_append options" "ro_compression options = SNAPPY \<or> ro_compression options = UNCOMPRESSED"
    "ro_chunk_size options < 2 ^ 64" "ro_chunk_size options = 0 \<or> 43 \<le> ro_chunk_size options"
    using assms(2) by (auto simp: options_def config_ok_def)
  then obtain w where w: "RecordWriter_init ?e [] options = Some w" "writer_inv [] w" "rw_info w = ?i" "file_image [] w = file_header_bytes ?i"
    using RecordWriter_init_spec [of options "[]" ?e] by auto
  have core: "writer_core [] w" using w(2) by (simp add: writer_inv_def)
  obtain data w' where fl: "Writer_Flush ?e [] w = Some (OK, data, w')" "data = file_image [] w" "file_image data w' = file_image [] w"
    "writer_core data w'" "same_writer w w'" "rw_position w' = rw_position w"
    by (rule Writer_Flush_spec [OF env core])
  have data: "data = file_header_bytes ?i @ []" "length data = sizeof_FileHeader" using fl(2) w(4) file_header_round_trip(1) [of ?i] by simp_all
  then have small: "length data < 2 ^ 63" by (simp add: sizeof_FileHeader_def)
  have inv': "writer_inv data w'" using w(2) fl by (auto simp: writer_inv_def same_writer_def)
  have buf: "sizeof_FileHeader \<le> ro_buffer_size options" using assms(2) by (simp add: options_def config_ok_def)
  obtain rd where rd: "RecordReader_init ?e data (ro_buffer_size options) (ro_validate options) = Some rd" "reader_inv data rd"
    "rr_size rd = length data" "rr_info rd = ?i" "rr_validate rd = ro_validate options"
    by (rule RecordReader_init_spec [OF env data(1) small _ _ _ buf]) (use iok in \<open>simp_all add: info_ok_def\<close>)
  have "shard_ok ?e data data [] rd"
    using rd iok data assms(2) by (simp add: shard_ok_def options_def config_ok_def sizeof_FileHeader_def)
  moreover have "rw_position w' = sizeof_FileHeader" using inv' fl(2,3) data(2) by (simp add: writer_inv_def)
  ultimately show ?thesis using w fl rd inv' data by (auto simp: same_writer_def)
qed

lemma AddDataShard_spec:
  assumes "env_ok de" "shards_ok (de_env de) logs db" "config_ok (db_config db)" "length (db_readers db) < 2 ^ 16 - 1"
  shows "\<exists>db' w. AddDataShard de db = Some (OK, db') \<and> shards_ok (de_env de) (logs @ [[]]) db' \<and> db_writer db' = Some w \<and>
    rw_position w = sizeof_FileHeader \<and> rw_info w = new_file_header ((cf_record (db_config db))\<lparr>ro_append := False\<rparr>) \<and>
    db_index db' = db_index db \<and> db_bulk db' = db_bulk db \<and> db_config db' = (db_config db)\<lparr>cf_record := (cf_record (db_config db))\<lparr>ro_append := False\<rparr>\<rparr> \<and>
    length (db_readers db') = Suc (length (db_readers db))"
proof -
  obtain db1 where db1: "close_writer de db = Some (OK, db1)" "shards_ok (de_env de) logs db1" "db_writer db1 = None"
    "db_config db1 = db_config db" "db_index db1 = db_index db" "db_bulk db1 = db_bulk db" "length (db_readers db1) = length (db_readers db)"
    using close_writer_spec [OF assms(1,2)] by blast
  let ?o = "(cf_record (db_config db))\<lparr>ro_append := False\<rparr>"
  obtain w data w' rd where n: "RecordWriter_init (de_env de) [] ?o = Some w" "Writer_Flush (de_env de) [] w = Some (OK, data, w')"
    "RecordReader_init (de_env de) data (ro_buffer_size ?o) (ro_validate ?o) = Some rd" "file_image data w' = data"
    "writer_inv data w'" "rw_info w' = rr_info rd" "rw_position w' = sizeof_FileHeader" "rw_info w' = new_file_header ?o"
    "shard_ok (de_env de) data data [] rd"
    using new_shard [OF assms(1,3)] by blast
  define db' where "db' = db1\<lparr>db_config := (db_config db1)\<lparr>cf_record := ?o\<rparr>, db_files := db_files db1 @ [data], db_writer := Some w',
    db_readers := db_readers db1 @ [rd], db_dirty := True\<rparr>"
  have "\<not> de_exists de (length (db_readers db1))" using assms(1) by (simp add: env_ok_def)
  then have run: "AddDataShard de db = Some (OK, db')" using db1(1,4) n(1-3) by (simp add: AddDataShard_def db'_def Let_def)
  have len: "length (db_files db1) = length (db_readers db1)" "length logs = length (db_readers db1)" using db1(2) by (simp_all add: shards_ok_def)
  have "shard_ok (de_env de) (db_files db' ! i) (shard_image db' i) ((logs @ [[]]) ! i) (db_readers db' ! i)"
    if "i < Suc (length (db_readers db1))" for i
  proof (cases "i < length (db_readers db1)")
    case True
    then have "shard_image db1 i = db_files db1 ! i" "shard_image db' i = db_files db1 ! i"
      using db1(3) len by (simp_all add: shard_image_def db'_def nth_append)
    then show ?thesis using shards_okD [OF db1(2) True] True len by (simp add: db'_def nth_append)
  next
    case False
    then have "i = length (db_readers db1)" using that by simp
    then show ?thesis using n(4,9) len by (simp add: db'_def nth_append shard_image_def)
  qed
  moreover have "sizes_ok db'" using db1(2,3) len by (simp add: db'_def shards_ok_def sizes_ok_def nth_append)
  ultimately have "shards_ok (de_env de) (logs @ [[]]) db'"
    using n(5,6) len assms(4) db1(7) by (simp add: shards_ok_def writer_ok_def db'_def)
  then show ?thesis using run n(7,8) db1(4-7) by (simp add: db'_def)
qed

section \<open>The index\<close>

lemma header_pages_4096: "header_pages 4096 0 = Some 4096"
  by (subst header_pages.simps, simp add: sizeof_IndexHeader_def, subst header_pages.simps, simp add: sizeof_IndexHeader_def)

lemma page_alignment: "(2 ^ k * sizeof_Entry) AND 4096 = 0 \<longleftrightarrow> k \<noteq> 8"
proof -
  have m: "2 ^ k * sizeof_Entry = 2 ^ (k + 4)" by (simp add: sizeof_Entry_def power_add)
  have "(2 ^ (k + 4) :: uint64) AND 2 ^ 12 = 0 \<longleftrightarrow> \<not> bit (2 ^ (k + 4) :: uint64) 12" by (rule and_exp_eq_0_iff_not_bit)
  then show ?thesis unfolding m by (simp add: bit_exp_iff)
qed

lemma unat_power2: "k < 64 \<Longrightarrow> unat (2 ^ k :: uint64) = 2 ^ k"
  using unat_of_nat_eq_take [of "2 ^ k"] by (simp add: take_bit_nat_eq_self)

lemma Index_Create_succeeds:
  assumes "env_ok de" "k < 60" "k \<noteq> 8" "unat limit < 2 ^ k"
  obtains ix where "Index_Create (de_page_size de) backed (de_open de) (de_resize de) (de_mapped de) (de_block de) (2 ^ k) limit = Some (Inr ix)"
    "index_inv ix" "index_pairs ix = {#}" "values_ok ix" "ih_size (ix_header ix) = 0" "ih_limit (ix_header ix) = limit"
    "ih_capacity (ix_header ix) = 2 ^ k" "ix_backed ix = backed"
proof -
  have u: "unat (2 ^ k :: uint64) = 2 ^ k" using assms(2) by (simp add: unat_power2)
  have lt60: "(2::nat) ^ k < 2 ^ 60" using assms(2) by (intro power_strict_increasing) simp_all
  have s: "sint w = int (unat w)" if "unat w < 2 ^ 60" for w :: uint64
    using that by (simp add: sint_uint signed_take_bit_int_eq_self_iff uint_nat del: of_nat_unat)
  have cap: "sint (2 ^ k :: uint64) = 2 ^ k" "sint limit = int (unat limit)" using s [of "2 ^ k"] s [of limit] u lt60 assms(4) by simp_all
  have less: "\<not> sint (2 ^ k :: uint64) \<le> sint limit" using assms(4) unfolding cap by (metis not_le of_nat_less_iff of_nat_numeral of_nat_power)
  have "IsPowerOfTwo32 (2 ^ k)" unfolding IsPowerOfTwo32_iff using assms(2) by (intro exI [of _ k]) simp
  then obtain ix where c: "Index_Create (de_page_size de) backed (de_open de) (de_resize de) (de_mapped de) (de_block de) (2 ^ k) limit = Some (Inr ix)"
    using assms(1) page_alignment assms(3) less
    by (simp add: Index_Create_def env_ok_def header_pages_4096)
  have b: "unat (2 ^ k :: uint64) < 2 ^ 60" "0 \<le> sint limit"
    "\<not> backed \<longrightarrow> (\<forall>i<unat (2 ^ k :: uint64). de_block de i = \<lparr>e_key = 0, e_value = 0\<rparr>)"
    using u lt60 cap assms(1) by (simp_all add: env_ok_def)
  show thesis by (rule that [OF c]) (fact Index_Create_spec [OF c b])+
qed

lemma index_capacity:
  assumes "index_inv ix"
  obtains k where "k < 60" "ih_capacity (ix_header ix) = 2 ^ k" "unat (ih_capacity (ix_header ix)) = 2 ^ k"
proof -
  obtain k where k: "k < 60" "length (ix_entries ix) = 2 ^ k" using assms by (auto simp: index_inv_def elim!: table_okE)
  then have u: "unat (ih_capacity (ix_header ix)) = 2 ^ k" using assms by (simp add: index_inv_def)
  then have "ih_capacity (ix_header ix) = 2 ^ k" using k(1) unat_power2 [of k] by (simp add: word_unat_eq_iff)
  then show thesis using that k(1) u by simp
qed

lemma ExpandIndex_spec:
  assumes "env_ok de" "db_ok env logs db" "config_ok (db_config db)" "db_index db = Some index"
    and "unat (ih_capacity (ix_header index)) < 2 ^ 58" "ih_capacity (ix_header index) \<noteq> 128"
  shows "\<exists>db' index'. ExpandIndex de (ih_capacity (ix_header index) * 2) db = Some (OK, db') \<and> db_ok env logs db' \<and>
    db' = db\<lparr>db_index := Some index', db_dirty := True\<rparr> \<and>
    unat (ih_size (ix_header index')) + 1 < unat (ih_capacity (ix_header index')) \<and>
    ih_capacity (ix_header index') = ih_capacity (ix_header index) * 2"
proof -
  have ix: "index_inv index" "values_ok index" "index_pairs index = active_pairs (active logs)" "shards_ok env logs db"
    using assms(2,4) by (auto elim!: db_okE)
  obtain k where k: "k < 60" "ih_capacity (ix_header index) = 2 ^ k" "unat (ih_capacity (ix_header index)) = 2 ^ k"
    by (rule index_capacity [OF ix(1)])
  have k58: "k < 58" using assms(5) k(3) power_less_imp_less_exp [of "2::nat" k 58] by simp
  have k7: "k \<noteq> 7" using assms(6) k(2) by auto
  have c2: "ih_capacity (ix_header index) * 2 = 2 ^ Suc k" by (simp add: k(2))
  let ?limit = "cf_limit (db_config db) (2 ^ Suc k)"
  have "\<forall>k<60. 0 < k \<longrightarrow> 2 ^ k \<le> 2 * unat (cf_limit (db_config db) (2 ^ k)) \<and> unat (cf_limit (db_config db) (2 ^ k)) < 2 ^ k"
    using assms(3) by (simp add: config_ok_def)
  then have lim: "2 ^ Suc k \<le> 2 * unat ?limit" "unat ?limit < 2 ^ Suc k" using k58 by (simp_all del: power_Suc)
  have sk: "Suc k < 60" "Suc k \<noteq> 8" using k58 k7 by simp_all
  obtain new where new: "Index_Create (de_page_size de) (\<not> db_bulk db) (de_open de) (de_resize de) (de_mapped de) (de_block de) (2 ^ Suc k) ?limit = Some (Inr new)"
    "index_inv new" "index_pairs new = {#}" "values_ok new" "ih_size (ix_header new) = 0" "ih_limit (ix_header new) = ?limit"
    "ih_capacity (ix_header new) = 2 ^ Suc k"
    by (rule Index_Create_succeeds [OF assms(1) sk lim(2), of "\<not> db_bulk db"])
  have sz: "unat (ih_size (ix_header index)) < 2 ^ k" using ix(1) k(3) by (simp add: index_inv_def word_less_nat_alt)
  then have "ih_size (ix_header index) \<le> ih_limit (ix_header new)" using lim(1) new(6) by (simp add: word_le_nat_alt)
  then obtain index' where t: "Index_TransferTo index new = Some index'" "index_inv index'" "index_pairs index' = index_pairs index"
    "same_shape new index'" "unat (ih_size (ix_header index')) \<le> unat (ih_size (ix_header index))" "values_ok index'"
    using Index_TransferTo_spec [OF ix(1) new(2,5)] new(3,4) ix(2) by auto
  let ?db = "db\<lparr>db_index := Some index', db_dirty := True\<rparr>"
  have "de_delete de = OK" "de_unmap de = OK" "de_close de = OK" using assms(1) by (simp_all add: env_ok_def)
  then have run: "ExpandIndex de (ih_capacity (ix_header index) * 2) db = Some (OK, ?db)"
    unfolding c2 ExpandIndex_def using new(1) t(1) assms(4) by (simp add: Index_Close_def)
  have "db_ok env logs ?db" using ix(3,4) t(2,3,6) by (simp add: db_ok_def)
  moreover have "unat (2 ^ Suc k :: uint64) = 2 * 2 ^ k" using unat_power2 [of "Suc k"] k(1) by simp
  then have "unat (ih_size (ix_header index')) + 1 < unat (ih_capacity (ix_header index'))"
    using t(4,5) sz new(7) by (simp add: same_shape_def)
  ultimately show ?thesis using run t(4) new(7) c2 by (auto simp: same_shape_def)
qed

section \<open>Writing\<close>

definition db_room :: "Database \<Rightarrow> bool" where
  "db_room db \<longleftrightarrow> length (db_readers db) < 2 ^ 16 - 1 \<and>
     (case db_index db of None \<Rightarrow> True
      | Some index \<Rightarrow> unat (ih_capacity (ix_header index)) < 2 ^ 58 \<and> ih_capacity (ix_header index) \<noteq> 128)"

lemma new_file_header_append [simp]: "new_file_header (options\<lparr>ro_append := x\<rparr>) = new_file_header options"
  by (simp add: new_file_header_def)

lemma config_ok_append [simp]: "config_ok (cf\<lparr>cf_record := (cf_record cf)\<lparr>ro_append := x\<rparr>\<rparr>) = config_ok cf"
  by (simp add: config_ok_def)

lemma Expand_shard:
  assumes "env_ok de" "db_ok (de_env de) logs db" "config_ok (db_config db)" "length (db_readers db) < 2 ^ 16 - 1"
  shows "\<exists>db' w logs'. (case db_writer db of None \<Rightarrow> AddDataShard de db
       | Some w \<Rightarrow> if unat (cf_data_shard_size (db_config db)) \<le> rw_position w then AddDataShard de db else Some (OK, db)) = Some (OK, db') \<and>
    db_ok (de_env de) logs' db' \<and> active logs' = active logs \<and> (logs' = logs \<or> logs' = logs @ [[]]) \<and> db_writer db' = Some w \<and> rw_position w \<le> 2 ^ 47 \<and>
    (rw_info w = new_file_header (cf_record (db_config db)) \<or> (\<exists>w0. db_writer db = Some w0 \<and> rw_info w = rw_info w0)) \<and>
    config_ok (db_config db') \<and> cf_read_only (db_config db') = cf_read_only (db_config db) \<and> db_index db' = db_index db \<and> db_bulk db' = db_bulk db"
    (is "\<exists>db' w logs'. ?run = Some (OK, db') \<and> _ db' w logs'")
proof (cases "\<exists>w. db_writer db = Some w \<and> rw_position w < unat (cf_data_shard_size (db_config db))")
  case True
  then obtain w where w: "db_writer db = Some w" "rw_position w < unat (cf_data_shard_size (db_config db))" by blast
  then have "?run = Some (OK, db)" "rw_position w \<le> 2 ^ 47" using assms(3) by (simp_all add: config_ok_def)
  then show ?thesis using assms(2,3) w(1) by blast
next
  case False
  have sh: "shards_ok (de_env de) logs db" using assms(2) by (simp add: db_ok_def)
  have run: "?run = AddDataShard de db" using False by (auto split: option.splits)
  obtain db' w where d: "AddDataShard de db = Some (OK, db')" "shards_ok (de_env de) (logs @ [[]]) db'" "db_writer db' = Some w"
    "rw_position w = sizeof_FileHeader" "rw_info w = new_file_header (cf_record (db_config db))" "db_index db' = db_index db" "db_bulk db' = db_bulk db"
    "db_config db' = (db_config db)\<lparr>cf_record := (cf_record (db_config db))\<lparr>ro_append := False\<rparr>\<rparr>"
    using AddDataShard_spec [OF assms(1) sh assms(3,4)] by auto
  have "db_ok (de_env de) (logs @ [[]]) db'" using assms(2) d(2,6) by (simp add: db_ok_def split: option.splits)
  moreover have "config_ok (db_config db')" "cf_read_only (db_config db') = cf_read_only (db_config db)" using assms(3) d(8) by simp_all
  moreover have "rw_position w \<le> 2 ^ 47" using d(4) by (simp add: sizeof_FileHeader_def)
  ultimately show ?thesis unfolding run using d(1,3,5-7) active_new_shard by blast
qed

lemma Expand_spec:
  assumes "env_ok de" "db_ok (de_env de) logs db" "config_ok (db_config db)" "db_room db"
  obtains db' w logs' index where "Expand de db = Some (OK, db')" "db_ok (de_env de) logs' db'" "active logs' = active logs"
    "logs' = logs \<or> logs' = logs @ [[]]" "db_writer db' = Some w" "rw_position w \<le> 2 ^ 47"
    "rw_info w = new_file_header (cf_record (db_config db)) \<or> (\<exists>w0. db_writer db = Some w0 \<and> rw_info w = rw_info w0)"
    "config_ok (db_config db')" "cf_read_only (db_config db') = cf_read_only (db_config db)" "db_index db' = Some index"
    "unat (ih_size (ix_header index)) + 1 < unat (ih_capacity (ix_header index))"
proof -
  have "length (db_readers db) < 2 ^ 16 - 1" using assms(4) by (simp add: db_room_def)
  from Expand_shard [OF assms(1-3) this] obtain db1 w logs' where e:
    "(case db_writer db of None \<Rightarrow> AddDataShard de db
       | Some w \<Rightarrow> if unat (cf_data_shard_size (db_config db)) \<le> rw_position w then AddDataShard de db else Some (OK, db)) = Some (OK, db1)"
    "db_ok (de_env de) logs' db1" "active logs' = active logs" "logs' = logs \<or> logs' = logs @ [[]]" "db_writer db1 = Some w" "rw_position w \<le> 2 ^ 47"
    "rw_info w = new_file_header (cf_record (db_config db)) \<or> (\<exists>w0. db_writer db = Some w0 \<and> rw_info w = rw_info w0)"
    "config_ok (db_config db1)" "cf_read_only (db_config db1) = cf_read_only (db_config db)" "db_index db1 = db_index db" by blast
  obtain index where ix: "db_index db1 = Some index" "index_inv index" using e(2) by (auto elim: db_okE)
  have run: "Expand de db = (if index_full index then ExpandIndex de (ih_capacity (ix_header index) * 2) db1 else Some (OK, db1))"
    unfolding Expand_def e(1) using ix(1) by simp
  show thesis
  proof (cases "index_full index")
    case True
    have r: "unat (ih_capacity (ix_header index)) < 2 ^ 58" "ih_capacity (ix_header index) \<noteq> 128"
      using assms(4) ix(1) e(10) by (simp_all add: db_room_def)
    obtain db' index' where x: "ExpandIndex de (ih_capacity (ix_header index) * 2) db1 = Some (OK, db')" "db_ok (de_env de) logs' db'"
      "db' = db1\<lparr>db_index := Some index', db_dirty := True\<rparr>"
      "unat (ih_size (ix_header index')) + 1 < unat (ih_capacity (ix_header index'))"
      using ExpandIndex_spec [OF assms(1) e(2,8) ix(1) r] by blast
    show thesis by (rule that [of db' logs' w index']) (use x e True run in simp_all)
  next
    case False
    show thesis
      by (rule that [of db1 logs' w index]) (use e False run ix index_not_full_room [OF ix(2)] in simp_all)
  qed
qed

definition putable :: "Env \<Rightarrow> FileHeader \<Rightarrow> Record \<Rightarrow> bool" where
  "putable env info r \<longleftrightarrow> record_ok env info r \<and> length (record_bytes env (fh_compression info) r) < 2 ^ 46"

lemma write_record_spec:
  assumes "regular env" "shards_ok env logs db" "db_writer db = Some w" "putable env (rw_info w) r" "rw_position w \<le> 2 ^ 47"
  obtains pos db' where "write_record env r db = Some (Inr pos, db')" "shards_ok env (append_log (read_back pos r) logs) db'"
    "db_config db' = db_config db" "db_index db' = db_index db" "db_bulk db' = db_bulk db" "length (db_readers db') = length (db_readers db)"
    "pos < 2 ^ 48" "0 < pos"
proof -
  let ?n = "length (db_readers db) - 1"
  have ne: "db_readers db \<noteq> []" and inv: "writer_inv (last (db_files db)) w" and info: "rw_info w = rr_info (last (db_readers db))"
    and len: "length (db_files db) = length (db_readers db)" "length logs = length (db_readers db)"
    using assms(2,3) by (simp_all add: shards_ok_def writer_ok_def)
  have n: "?n < length (db_readers db)" "Suc ?n = length (db_readers db)" using ne by simp_all
  note l = last_file [OF assms(2) ne]
  have fne: "db_files db \<noteq> []" "logs \<noteq> []" using ne len by auto
  note okn = shards_okD [OF assms(2) n(1)]
  have rok: "record_ok env (rw_info w) r" "length (record_bytes env (fh_compression (rw_info w)) r) < 2 ^ 46" using assms(4) by (simp_all add: putable_def)
  obtain data' w' gap where wr: "Writer_Write env (last (db_files db)) r w = Some (Inr (length (file_image (last (db_files db)) w @ gap)), data', w')"
    "writer_inv data' w'" "file_image data' w' = file_image (last (db_files db)) w @ gap @ record_bytes env (fh_compression (rw_info w)) r"
    "gap = [] \<or> (\<exists>n. 2 \<le> n \<and> n < 2 ^ 64 \<and> gap = filler_bytes n)" "length gap \<le> unat (fh_chunk_size (rw_info w))" "rw_info w' = rw_info w"
    by (rule Writer_Write_spec [OF assms(1) inv rok(1)])
  have core: "writer_core (last (db_files db)) w" "writer_core data' w'" using inv wr(2) by (simp_all add: writer_inv_def)
  note ext = Writer_Write_extends [OF wr(1) core wr(3)]
  define pos where "pos = length (file_image (last (db_files db)) w @ gap)"
  define db' where "db' = set_writer data' w' db"
  have run: "write_record env r db = Some (Inr pos, db')" using assms(3) wr(1) by (simp add: write_record_def db'_def pos_def)
  have img: "shard_image db ?n = file_image (last (db_files db)) w" "length (file_image (last (db_files db)) w) = rw_position w"
    using assms(3) l n len inv by (simp_all add: shard_image_def writer_inv_def)
  have big: "length (file_image data' w') < 2 ^ 48" "pos < 2 ^ 48"
    using wr(3,5) img(2) assms(5) rok(2) okn l info by (simp_all add: pos_def shard_ok_def info_ok_def)
  have ch: "chain env (fh_compression (rw_info w)) (file_image data' w') sizeof_FileHeader (logs ! ?n @ [read_back pos r])"
    unfolding wr(3) pos_def using okn img(1) l info by (intro chain_snoc [OF _ rok(1) wr(4)]) (simp add: shard_ok_def)
  have hdr: "sizeof_FileHeader \<le> pos" using chain_entries(2) [OF ch, of "read_back pos r"] by simp
  have sh: "shard_ok env (db_files db' ! i) (shard_image db' i) (append_log (read_back pos r) logs ! i) (db_readers db' ! i)"
    if i: "i < length (db_readers db)" for i
  proof (cases "i = ?n")
    case True
    have files: "db_files db' ! i = data'" "shard_image db' i = file_image data' w'" "db_readers db' ! i = db_readers db ! i"
      using True n len by (simp_all add: db'_def set_writer_def shard_image_def)
    have log: "append_log (read_back pos r) logs ! i = logs ! i @ [read_back pos r]"
      using True n len fne by (simp add: append_log_def nth_append last_conv_nth)
    obtain ys where ys: "data' = db_files db ! i @ ys" using ext l True by auto
    have "length data' \<le> length (file_image data' w')" by (simp add: file_image_def)
    then have "reader_inv data' (db_readers db ! i)" "prefix (file_header_bytes (rr_info (db_readers db ! i))) data'"
      using okn True big(1) reader_inv_extend [of "db_files db ! i" "db_readers db ! i" ys] ys by (simp_all add: shard_ok_def)
    then show ?thesis unfolding files log using okn True ch [folded True] big(1) l info by (simp add: shard_ok_def)
  next
    case False
    then have "db_files db' ! i = db_files db ! i" "shard_image db' i = shard_image db i" "db_readers db' ! i = db_readers db ! i"
      "append_log (read_back pos r) logs ! i = logs ! i"
      using i n len assms(3) fne by (simp_all add: db'_def set_writer_def shard_image_def append_log_def nth_append nth_butlast)
    then show ?thesis using shards_okD [OF assms(2) i] by simp
  qed
  have "writer_ok db'" using wr(2,6) ne fne info len by (simp add: writer_ok_def db'_def set_writer_def last_list_update)
  moreover have "sizes_ok db'" using assms(2,3) len by (auto simp: db'_def shards_ok_def sizes_ok_def set_writer_def nth_list_update)
  ultimately have "shards_ok env (append_log (read_back pos r) logs) db'"
    using sh assms(2) fne len n(2) by (simp add: shards_ok_def db'_def set_writer_def append_log_def)
  then show thesis using that [OF run] big(2) hdr by (simp add: db'_def set_writer_def sizeof_FileHeader_def)
qed

definition fits :: "Env \<Rightarrow> Database \<Rightarrow> Record \<Rightarrow> bool" where
  "fits env db r \<longleftrightarrow> putable env (new_file_header (cf_record (db_config db))) r \<and>
     (case db_writer db of None \<Rightarrow> True | Some w \<Rightarrow> putable env (rw_info w) r)"

lemma fits_same:
  assumes "same_db db db'"
  shows "fits env db' r = fits env db r" "db_room db' = db_room db"
  using assms by (auto simp: fits_def db_room_def same_db_def split: option.splits)

lemma expand_write:
  assumes "env_ok de" "db_ok (de_env de) logs db" "config_ok (db_config db)" "db_room db" "fits (de_env de) db r"
  obtains db1 db2 pos logs' index where "Expand de db = Some (OK, db1)" "write_record (de_env de) r db1 = Some (Inr pos, db2)"
    "shards_ok (de_env de) (append_log (read_back pos r) logs') db2" "logs' = logs \<or> logs' = logs @ [[]]" "logs' \<noteq> []" "active logs' = active logs"
    "db_index db2 = Some index" "index_inv index" "values_ok index" "index_pairs index = active_pairs (active logs)"
    "unat (ih_size (ix_header index)) + 1 < unat (ih_capacity (ix_header index))"
    "RecordID (CurrentShard db2) (of_nat pos) = RecordID (of_nat (length logs' - 1)) (of_nat pos)"
    "RecordID (CurrentShard db2) (of_nat pos) \<noteq> 0" "config_ok (db_config db2)" "cf_read_only (db_config db2) = cf_read_only (db_config db)"
proof -
  obtain db1 w logs' index where e: "Expand de db = Some (OK, db1)" "db_ok (de_env de) logs' db1" "active logs' = active logs"
    "logs' = logs \<or> logs' = logs @ [[]]" "db_writer db1 = Some w" "rw_position w \<le> 2 ^ 47"
    "rw_info w = new_file_header (cf_record (db_config db)) \<or> (\<exists>w0. db_writer db = Some w0 \<and> rw_info w = rw_info w0)"
    "config_ok (db_config db1)" "cf_read_only (db_config db1) = cf_read_only (db_config db)" "db_index db1 = Some index"
    "unat (ih_size (ix_header index)) + 1 < unat (ih_capacity (ix_header index))"
    by (rule Expand_spec [OF assms(1-4)])
  have put: "putable (de_env de) (rw_info w) r" using e(7) assms(5) by (auto simp: fits_def split: option.splits)
  have sh: "shards_ok (de_env de) logs' db1" and env: "regular (de_env de)" using e(2) assms(1) by (simp_all add: db_ok_def env_ok_def)
  obtain pos db2 where wr: "write_record (de_env de) r db1 = Some (Inr pos, db2)" "shards_ok (de_env de) (append_log (read_back pos r) logs') db2"
    "db_config db2 = db_config db1" "db_index db2 = db_index db1" "length (db_readers db2) = length (db_readers db1)" "pos < 2 ^ 48" "0 < pos"
    by (rule write_record_spec [OF env sh e(5) put e(6)])
  have ix: "index_inv index" "values_ok index" "index_pairs index = active_pairs (active logs)" using e(2,3,10) by (auto elim!: db_okE)
  have len: "length logs' = length (db_readers db1)" "db_readers db1 \<noteq> []" "length (db_readers db1) < 2 ^ 16"
    using sh e(5) by (auto simp: shards_ok_def writer_ok_def)
  then have cur: "CurrentShard db2 = of_nat (length logs' - 1)" using wr(5) by (simp add: CurrentShard_def of_nat_diff Suc_leI)
  have "logs' \<noteq> []" using len(1,2) by auto
  moreover have "RecordID (CurrentShard db2) (of_nat pos) \<noteq> 0" unfolding cur using len wr(6,7) by (intro RecordID_not_zero) auto
  ultimately show thesis
    by (intro that [OF e(1) wr(1,2) e(4)]) (use e ix wr cur in simp_all)
qed

lemma write_outcome:
  assumes "shards_ok env (append_log (read_back pos r) logs') db2" "logs' \<noteq> []" "active logs' = active logs"
    and "index_inv index'" "values_ok index'" "r_value r \<noteq> []"
    and "index_pairs index' = active_pairs ((active logs)(r_key r \<mapsto> (RecordID (of_nat (length logs' - 1)) (of_nat pos), read_back pos r)))"
  shows "db_ok env (append_log (read_back pos r) logs') (db2\<lparr>db_index := Some index', db_dirty := True\<rparr>)"
    "active (append_log (read_back pos r) logs') = (active logs)(r_key r \<mapsto> (RecordID (of_nat (length logs' - 1)) (of_nat pos), read_back pos r))"
  using assms active_append_log [OF assms(2), of "read_back pos r"] by (simp_all add: db_ok_def)

lemma keep_record_view: "keep_record mode record (record_view (mode = DBADD) rec) = keep_record mode record rec"
  by (simp add: keep_record_def record_view_def)

text \<open>The outcome of a \<^verbatim>\<open>Put\<close> that writes the record.\<close>

definition put_writes :: "DBEnv \<Rightarrow> Record list list \<Rightarrow> Record \<Rightarrow> DBMode \<Rightarrow> Database \<Rightarrow> DBResult \<Rightarrow> bool" where
  "put_writes de logs record mode db result \<longleftrightarrow> (\<exists>recid pos logs' db'. Database_Put de record mode db = Some (recid, Some result, db') \<and>
     db_ok (de_env de) logs' db' \<and> active logs' = (active logs)(r_key record \<mapsto> (recid, read_back pos record)) \<and>
     (logs' = append_log (read_back pos record) logs \<or> logs' = append_log (read_back pos record) (logs @ [[]])) \<and>
     config_ok (db_config db') \<and> cf_read_only (db_config db') = cf_read_only (db_config db))"

lemma Database_Put_run:
  assumes "\<not> cf_read_only (db_config db)" "r_value record \<noteq> []"
    and "find_record (de_env de) (mode = DBADD) False (r_key record) (Fingerprint64 (r_key record)) NPOS 0 (inc PUT db) = Some (m, db0)"
    and "m = NoMatch \<or> (\<exists>recid rec. m = Match recid rec \<and> keep_record mode record rec = None)"
    and "Expand de db0 = Some (OK, db1)" "write_record (de_env de) record db1 = Some (Inr pos, db2)" "db_index db2 = Some index"
  shows "Database_Put de record mode db =
    (case m of
       Match recid _ \<Rightarrow> map_option (\<lambda>(_, index). (DBUPDATED, index)) (Index_Update (Fingerprint64 (r_key record)) recid (RecordID (CurrentShard db2) (of_nat pos)) index)
     | _ \<Rightarrow> map_option (\<lambda>(_, index). (DBNEW, index)) (Index_Add (Fingerprint64 (r_key record)) (RecordID (CurrentShard db2) (of_nat pos)) index)) \<bind>
    (\<lambda>(result, index). Some (RecordID (CurrentShard db2) (of_nat pos), Some result,
       (add_metric BYTEWRITE (length (r_value record)) (inc RECWRITE db2))\<lparr>db_index := Some index, db_dirty := True\<rparr>))"
  using assms by (auto simp: Database_Put_def Let_def)

lemma Database_Put_spec:
  assumes "env_ok de" "db_ok (de_env de) logs db" "config_ok (db_config db)" "db_room db" "fits (de_env de) db record"
    and "\<not> cf_read_only (db_config db)" "r_value record \<noteq> []"
  shows "case active logs (r_key record) of
      None \<Rightarrow> put_writes de logs record mode db DBNEW
    | Some (recid, rec) \<Rightarrow> (case keep_record mode record rec of
          None \<Rightarrow> put_writes de logs record mode db DBUPDATED
        | Some result \<Rightarrow> \<exists>db'. Database_Put de record mode db = Some (recid, Some result, db') \<and> db_ok (de_env de) logs db' \<and> same_db db db')"
proof -
  let ?fp = "Fingerprint64 (r_key record)" and ?nv = "mode = DBADD"
  have env: "regular (de_env de)" using assms(1) by (simp add: env_ok_def)
  obtain db0 where f: "find_record (de_env de) ?nv False (r_key record) ?fp NPOS 0 (inc PUT db) =
      Some (case active logs (r_key record) of Some (recid, r) \<Rightarrow> Match recid (record_view ?nv r) | None \<Rightarrow> NoMatch, db0)"
    "db_ok (de_env de) logs db0" "same_db db db0"
    using find_record_spec [OF env, of logs "inc PUT db" ?nv False "r_key record" 0] assms(2) by auto
  have pre: "config_ok (db_config db0)" "db_room db0" "fits (de_env de) db0 record"
    using assms(3-5) fits_same [OF f(3)] f(3) by (simp_all add: same_db_def)
  obtain db1 db2 pos logs' index where ew: "Expand de db0 = Some (OK, db1)" "write_record (de_env de) record db1 = Some (Inr pos, db2)"
    "shards_ok (de_env de) (append_log (read_back pos record) logs') db2" "logs' = logs \<or> logs' = logs @ [[]]" "logs' \<noteq> []" "active logs' = active logs"
    "db_index db2 = Some index" "index_inv index" "values_ok index" "index_pairs index = active_pairs (active logs)"
    "unat (ih_size (ix_header index)) + 1 < unat (ih_capacity (ix_header index))"
    "RecordID (CurrentShard db2) (of_nat pos) = RecordID (of_nat (length logs' - 1)) (of_nat pos)"
    "RecordID (CurrentShard db2) (of_nat pos) \<noteq> 0" "config_ok (db_config db2)" "cf_read_only (db_config db2) = cf_read_only (db_config db0)"
    by (rule expand_write [OF assms(1) f(2) pre])
  let ?id = "RecordID (CurrentShard db2) (of_nat pos)"
  let ?db2 = "add_metric BYTEWRITE (length (r_value record)) (inc RECWRITE db2)"
  have written: "put_writes de logs record mode db result"
    if "Database_Put de record mode db = Some (?id, Some result, ?db2\<lparr>db_index := Some index', db_dirty := True\<rparr>)" "index_inv index'" "values_ok index'"
      "index_pairs index' = active_pairs ((active logs)(r_key record \<mapsto> (?id, read_back pos record)))" for result index'
  proof -
    note w = write_outcome [of "de_env de" pos "record" logs' ?db2 logs index', OF _ ew(5,6) that(2,3) assms(7) that(4) [unfolded ew(12)]]
    show ?thesis unfolding put_writes_def
      by (rule exI [of _ ?id], rule exI [of _ pos], rule exI [of _ "append_log (read_back pos record) logs'"], rule exI)
        (use that(1) w ew(3,4,12,14,15) f(3) in \<open>auto simp: same_db_def\<close>)
  qed
  have fpk: "1 < ?fp" by (rule Fingerprint64_not_reserved)
  show ?thesis
  proof (cases "active logs (r_key record)")
    case None
    obtain p index' where a: "Index_Add ?fp ?id index = Some (p, index')" "index_inv index'" "index_pairs index' = add_mset (?fp, ?id) (index_pairs index)"
      "ix_entries index' = (ix_entries index)[unat p := \<lparr>e_key = ?fp, e_value = ?id\<rparr>]"
      by (rule Index_Add_spec [OF ew(8) Fingerprint64_special ew(11)])
    have "values_ok index'" by (rule values_ok_update [OF ew(9) _ _ a(4)]) (use ew(13) Fingerprint64_special in simp_all)
    moreover have "index_pairs index' = active_pairs ((active logs)(r_key record \<mapsto> (?id, read_back pos record)))"
      using a(3) ew(10) active_pairs_add [of "active logs" "r_key record", OF finite_active None] by simp
    moreover have "Database_Put de record mode db = Some (?id, Some DBNEW, ?db2\<lparr>db_index := Some index', db_dirty := True\<rparr>)"
      using Database_Put_run [OF assms(6,7) f(1) _ ew(1,2,7)] None a(1) by simp
    ultimately show ?thesis using written a(2) None by simp
  next
    case (Some x)
    obtain recid rec where x: "active logs (r_key record) = Some (recid, rec)" using Some by (cases x) simp
    show ?thesis
    proof (cases "keep_record mode record rec")
      case None
      have "(?fp, recid) \<in># index_pairs index" unfolding ew(10) using active_pairs_iff [OF finite_active] x by blast
      then obtain p index' where u: "Index_Update ?fp recid ?id index = Some (p, index')" "index_inv index'"
        "index_pairs index' = add_mset (?fp, ?id) (index_pairs index - {#(?fp, recid)#})"
        "ix_entries index' = (ix_entries index)[unat p := \<lparr>e_key = ?fp, e_value = ?id\<rparr>]"
        using Index_Update_spec(1) [OF ew(8) Fingerprint64_special, of "r_key record" recid ?id] by blast
      have "values_ok index'" by (rule values_ok_update [OF ew(9) _ _ u(4)]) (use ew(13) Fingerprint64_special in simp_all)
      moreover have "index_pairs index' = active_pairs ((active logs)(r_key record \<mapsto> (?id, read_back pos record)))"
        using u(3) ew(10) active_pairs_update [OF finite_active x] by simp
      moreover have "Database_Put de record mode db = Some (?id, Some DBUPDATED, ?db2\<lparr>db_index := Some index', db_dirty := True\<rparr>)"
        using Database_Put_run [OF assms(6,7) f(1) _ ew(1,2,7)] x None u(1) keep_record_view by simp
      ultimately show ?thesis using written u(2) x None by simp
    next
      case (Some result)
      then have "Database_Put de record mode db = Some (recid, Some result, db0)"
        using f(1) x assms(6,7) keep_record_view by (simp add: Database_Put_def)
      then show ?thesis using x Some f(2,3) by simp
    qed
  qed
qed

lemma Database_Delete_spec:
  assumes "env_ok de" "db_ok (de_env de) logs db" "config_ok (db_config db)" "db_room db" "\<not> cf_read_only (db_config db)"
    and "\<And>recid rec. active logs key = Some (recid, rec) \<Longrightarrow> fits (de_env de) db (rec\<lparr>r_key := key, r_value := []\<rparr>)"
  shows "\<exists>logs' db'. Database_Delete de key db = Some (active logs key \<noteq> None, db') \<and> db_ok (de_env de) logs' db' \<and>
    active logs' = (active logs)(key := None) \<and> config_ok (db_config db') \<and> cf_read_only (db_config db') = cf_read_only (db_config db)"
proof -
  let ?fp = "Fingerprint64 key"
  have env: "regular (de_env de)" using assms(1) by (simp add: env_ok_def)
  obtain db0 where f: "find_record (de_env de) False False key ?fp NPOS 0 (inc DELETE db) =
      Some (case active logs key of Some (recid, r) \<Rightarrow> Match recid (record_view False r) | None \<Rightarrow> NoMatch, db0)"
    "db_ok (de_env de) logs db0" "same_db db db0"
    using find_record_spec [OF env, of logs "inc DELETE db" False False key 0] assms(2) by auto
  show ?thesis
  proof (cases "active logs key")
    case None
    then have "(active logs)(key := None) = active logs" by auto
    then show ?thesis using None f assms(3,5)
      by (intro exI [of _ logs] exI [of _ db0]) (simp add: Database_Delete_def Let_def same_db_def)
  next
    case (Some x)
    obtain recid rec where x: "active logs key = Some (recid, rec)" using Some by (cases x) simp
    let ?r = "rec\<lparr>r_key := key, r_value := []\<rparr>"
    have pre: "config_ok (db_config db0)" "db_room db0" "fits (de_env de) db0 ?r"
      using assms(3,4) assms(6) [OF x] fits_same [OF f(3)] f(3) by (simp_all add: same_db_def)
    obtain db1 db2 pos logs' index where ew: "Expand de db0 = Some (OK, db1)" "write_record (de_env de) ?r db1 = Some (Inr pos, db2)"
      "shards_ok (de_env de) (append_log (read_back pos ?r) logs') db2" "logs' \<noteq> []" "active logs' = active logs"
      "db_index db2 = Some index" "index_inv index" "values_ok index" "index_pairs index = active_pairs (active logs)"
      "config_ok (db_config db2)" "cf_read_only (db_config db2) = cf_read_only (db_config db0)"
      by (rule expand_write [OF assms(1) f(2) pre])
    have "(?fp, recid) \<in># index_pairs index" unfolding ew(9) using active_pairs_iff [OF finite_active] x by blast
    then obtain p index' where d: "Index_Delete ?fp recid index = Some (p, index')" "index_inv index'"
      "index_pairs index' = index_pairs index - {#(?fp, recid)#}" "values_ok index'"
      using Index_Delete_spec(1) [OF ew(7) Fingerprint64_special ew(8), of key recid] by blast
    let ?db = "db2\<lparr>db_index := Some index', db_dirty := True\<rparr>"
    have run: "Database_Delete de key db = Some (True, ?db)"
      using f(1) x assms(5) ew(1,2,6) d(1) by (simp add: Database_Delete_def Let_def record_view_def)
    have act: "active (append_log (read_back pos ?r) logs') = (active logs)(key := None)"
      using active_append_log [OF ew(4), of "read_back pos ?r"] ew(5) by simp
    have "db_ok (de_env de) (append_log (read_back pos ?r) logs') ?db"
      using ew(3) d(2-4) ew(9) act active_pairs_delete [OF finite_active x] by (simp add: db_ok_def)
    then show ?thesis using run act x ew(10,11) f(3) by (auto simp: same_db_def)
  qed
qed

section \<open>Iteration\<close>

text \<open>The entries of the log that \<^verbatim>\<open>Next\<close> returns, and the entries that an iterator has still to visit.\<close>

definition listed :: "Record list list \<Rightarrow> bool \<Rightarrow> uint64 \<times> Record \<Rightarrow> bool" where
  "listed logs deletions e \<longleftrightarrow> (if r_value (snd e) = [] then deletions else active logs (r_key (snd e)) = Some e)"

definition shard_cursor :: "Env \<Rightarrow> Record list list \<Rightarrow> Database \<Rightarrow> nat \<Rightarrow> uint64 \<Rightarrow> Record list \<Rightarrow> bool" where
  "shard_cursor env logs db i pos rs \<longleftrightarrow> set rs \<subseteq> set (logs ! i) \<and> (if pos = 0 then rs = logs ! i
     else unat pos < 2 ^ 48 \<and> chain env (fh_compression (rr_info (db_readers db ! i))) (shard_image db i) (unat pos) rs)"

definition entries_left :: "Record list list \<Rightarrow> nat \<Rightarrow> Record list \<Rightarrow> (uint64 \<times> Record) list" where
  "entries_left logs i rs = shard_entries i rs @ log_entries_from (Suc i) (drop (Suc i) logs)"

lemma Index_Exists_listed:
  assumes "db_ok env logs db" "db_index db = Some index" "r \<in> set (logs ! i)" "i < length logs" "r_value r \<noteq> []"
  shows "Index_Exists index (Fingerprint64 (r_key r)) (RecordID (of_nat i) (of_nat (r_position r))) =
    Some (active logs (r_key r) = Some (RecordID (of_nat i) (of_nat (r_position r)), r))"
proof -
  let ?id = "RecordID (of_nat i) (of_nat (r_position r))"
  have ix: "index_inv index" "index_pairs index = active_pairs (active logs)" "shards_ok env logs db" using assms(1,2) by (auto elim!: db_okE)
  have mem: "(?id, r) \<in> set (log_entries logs)" using assms(3,4) in_log_entries by blast
  have "(Fingerprint64 (r_key r), ?id) \<in># index_pairs index \<longleftrightarrow> active logs (r_key r) = Some (?id, r)"
  proof
    assume "(Fingerprint64 (r_key r), ?id) \<in># index_pairs index"
    then obtain k r' where k: "active logs k = Some (?id, r')" unfolding ix(2) using active_pairs_iff [OF finite_active] by blast
    then have "r' = r" using log_entries_inject [OF ix(3) _ mem] activeD(1) [OF k] by blast
    then show "active logs (r_key r) = Some (?id, r)" using k activeD(2) [OF k] by simp
  next
    assume "active logs (r_key r) = Some (?id, r)"
    then show "(Fingerprint64 (r_key r), ?id) \<in># index_pairs index" unfolding ix(2) using active_pairs_iff [OF finite_active] by blast
  qed
  then show ?thesis using Index_Exists_spec [OF ix(1) Fingerprint64_special] by simp
qed

lemma chain_le:
  assumes "chain env compression data pos rs"
  shows "pos \<le> length data"
proof (cases rs)
  case (Cons r rs')
  then show ?thesis using chain_position [of env compression data pos r rs'] assms by simp
qed (use assms in simp)

lemma seek_shard:
  assumes "regular env" "db_ok env logs db" "i < length (db_readers db)" "shard_cursor env logs db i pos rs"
  obtains db1 rd p where "(if (of_nat i :: uint64) = CurrentShard db then SyncWriter env db else Some (OK, db)) = Some (OK, db1)"
    "db_ok env logs db1" "same_db db db1" "length (db_files db1) = length (db_readers db1)" "reader_inv (db_files db1 ! i) rd"
    "(if pos = 0 then Reader_Rewind env (db_readers db1 ! i) else Reader_Seek env (unat pos) (db_readers db1 ! i)) = Some (OK, rd)"
    "same_reader (db_readers db1 ! i) rd" "rr_position rd = p" "rr_size rd = length (db_files db1 ! i)"
    "chain env (fh_compression (rr_info rd)) (db_files db1 ! i) p rs" "db_files db1 ! i = shard_image db1 i"
proof -
  have sh: "shards_ok env logs db" using assms(2) by (simp add: db_ok_def)
  obtain db1 where db1: "(if (of_nat i :: uint64) = CurrentShard db then SyncWriter env db else Some (OK, db)) = Some (OK, db1)" "shards_ok env logs db1"
    "same_db db db1" "db_files db1 ! i = shard_image db1 i" "shard_image db1 i = shard_image db i"
    "rr_info (db_readers db1 ! i) = rr_info (db_readers db ! i)" "length (db_readers db1) = length (db_readers db)"
    "rr_size (db_readers db1 ! i) = length (db_files db1 ! i)"
    by (rule sync_shard [OF assms(1) sh assms(3) refl])
  have i1: "i < length (db_readers db1)" using assms(3) db1(7) by simp
  note ok = shards_okD [OF db1(2) i1]
  let ?rd = "db_readers db1 ! i"
  define p where "p = (if pos = 0 then sizeof_FileHeader else unat pos)"
  have ch: "chain env (fh_compression (rr_info ?rd)) (db_files db1 ! i) p rs"
    using assms(4) ok db1(4-6) by (auto simp: shard_cursor_def shard_ok_def p_def split: if_splits)
  have p0: "p \<noteq> 0" using unat_eq_0 [of pos] by (auto simp: p_def sizeof_FileHeader_def)
  have inv: "reader_inv (db_files db1 ! i) ?rd" using ok by (simp add: shard_ok_def)
  obtain rd where rd: "Reader_Seek env p ?rd = Some (OK, rd)" "reader_inv (db_files db1 ! i) rd" "rr_position rd = p" "same_reader ?rd rd"
    by (rule Reader_Seek_spec [OF assms(1) inv chain_le [OF ch] p0])
  have "unat (fh_hdrlen (rr_info ?rd)) = sizeof_FileHeader" using ok by (simp add: shard_ok_def info_ok_def sizeof_FileHeader_def)
  then have "(if pos = 0 then Reader_Rewind env ?rd else Reader_Seek env (unat pos) ?rd) = Some (OK, rd)"
    using rd(1) by (auto simp: p_def Reader_Rewind_def split: if_splits)
  moreover have "db_ok env logs db1" by (rule db_ok_same [OF assms(2) db1(2,3)])
  moreover have "length (db_files db1) = length (db_readers db1)" using db1(2) by (simp add: shards_ok_def)
  ultimately show thesis using rd(2-4) db1 ch by (intro that [of db1 rd p]) (simp_all add: same_reader_def)
qed

lemma next_record_end:
  assumes "regular env" "db_ok env logs db" "i < length (db_readers db)" "shard_cursor env logs db i pos []"
  obtains db1 where "next_record env deletions False (of_nat i) pos db = next_record env deletions False (of_nat (Suc i)) 0 db1"
    "db_ok env logs db1" "same_db db db1"
proof -
  obtain db1 rd p where s: "(if (of_nat i :: uint64) = CurrentShard db then SyncWriter env db else Some (OK, db)) = Some (OK, db1)"
    "db_ok env logs db1" "same_db db db1" "length (db_files db1) = length (db_readers db1)" "reader_inv (db_files db1 ! i) rd"
    "(if pos = 0 then Reader_Rewind env (db_readers db1 ! i) else Reader_Seek env (unat pos) (db_readers db1 ! i)) = Some (OK, rd)"
    "same_reader (db_readers db1 ! i) rd" "rr_position rd = p" "rr_size rd = length (db_files db1 ! i)"
    "chain env (fh_compression (rr_info rd)) (db_files db1 ! i) p []"
    by (rule seek_shard [OF assms])
  have sh: "shards_ok env logs db1" using s(2) by (simp add: db_ok_def)
  have i: "i < length (db_readers db1)" "unat (of_nat i :: uint64) = i"
    using assms(2,3) s(3) by (auto simp: same_db_def unat_of_nat_uint64 db_ok_def shards_ok_def)
  have "Reader_Done rd" using s(8-10) by (simp add: Reader_Done_def)
  then have run: "next_record env deletions False (of_nat i) pos db = next_record env deletions False (of_nat (Suc i)) 0 (set_reader i rd db1)"
    using s(1,4,6) i assms(3) by (subst next_record.simps) (simp add: add.commute cong: if_cong split del: if_split)
  note sr = set_reader_spec [OF sh i(1) s(5,7)]
  show thesis by (rule that [OF run db_ok_same [OF s(2) sr(1,2)] same_db_trans [OF s(3) sr(2)]])
qed

lemma next_record_read:
  assumes "regular env" "db_ok env logs db" "i < length (db_readers db)" "shard_cursor env logs db i pos (r # rs)"
  obtains db1 pos' where "next_record env deletions False (of_nat i) pos db =
      (if listed logs deletions (RecordID (of_nat i) (of_nat (r_position r)), r) then Some (Some (r, RecordID (of_nat i) pos'), db1)
       else next_record env deletions False (of_nat i) pos' db1)"
    "db_ok env logs db1" "same_db db db1" "shard_cursor env logs db1 i pos' rs" "pos' \<noteq> 0" "unat pos' < 2 ^ 48"
proof -
  obtain db1 rd p where s: "(if (of_nat i :: uint64) = CurrentShard db then SyncWriter env db else Some (OK, db)) = Some (OK, db1)"
    "db_ok env logs db1" "same_db db db1" "length (db_files db1) = length (db_readers db1)" "reader_inv (db_files db1 ! i) rd"
    "(if pos = 0 then Reader_Rewind env (db_readers db1 ! i) else Reader_Seek env (unat pos) (db_readers db1 ! i)) = Some (OK, rd)"
    "same_reader (db_readers db1 ! i) rd" "rr_position rd = p" "rr_size rd = length (db_files db1 ! i)"
    "chain env (fh_compression (rr_info rd)) (db_files db1 ! i) p (r # rs)" "db_files db1 ! i = shard_image db1 i"
    by (rule seek_shard [OF assms])
  have sh: "shards_ok env logs db1" using s(2) by (simp add: db_ok_def)
  have i: "i < length (db_readers db1)" "unat (of_nat i :: uint64) = i" "i < length logs"
    using assms(2,3) s(3) by (auto simp: same_db_def unat_of_nat_uint64 db_ok_def shards_ok_def)
  note ok = shards_okD [OF sh i(1)]
  have rdi: "\<not> rr_validate rd" "rr_info rd = rr_info (db_readers db1 ! i)"
    "fh_compression (rr_info rd) = SNAPPY \<or> fh_compression (rr_info rd) = UNCOMPRESSED"
    using ok s(7) by (auto simp: shard_ok_def same_reader_def info_ok_def)
  obtain rd2 where rd2: "Reader_Read env (db_files db1 ! i) rd = Some (Inr r, rd2)" "reader_inv (db_files db1 ! i) rd2" "same_reader rd rd2"
    "rr_position rd2 = r_position r + length (record_bytes env (fh_compression (rr_info rd)) r)"
    by (rule Reader_Read_chain [OF assms(1) s(5) rdi(1) s(10) [folded s(8)] rdi(3)])
  have "\<not> Reader_Done rd" using chain_position [OF s(10)] s(8,9) by (simp add: Reader_Done_def)
  define db2 where "db2 = set_reader i rd2 (set_reader i rd db1)"
  define db3 where "db3 = add_metric BYTEREAD (length (r_value r)) (inc RECREAD db2)"
  define pos' where "pos' = (of_nat (rr_position rd2) :: uint64)"
  note sr1 = set_reader_spec [OF sh i(1) s(5,7)]
  have i2: "i < length (db_readers (set_reader i rd db1))" using i(1) by (simp add: set_reader_def)
  have "same_reader (db_readers (set_reader i rd db1) ! i) rd2" using rd2(3) i(1) by (simp add: set_reader_def)
  note sr2 = set_reader_spec [OF sr1(1) i2 _ this, unfolded sr1(3), OF rd2(2), folded db2_def]
  have same: "same_db db1 db3" "shards_ok env logs db3"
    using same_db_trans [OF sr1(2) sr2(2)] sr2(1) by (simp_all add: db3_def)
  have ok3: "db_ok env logs db3" by (rule db_ok_same [OF s(2) same(2,1)])
  obtain index where ix: "db_index db1 = Some index" using s(2) by (auto elim: db_okE)
  have r: "r \<in> set (logs ! i)" using assms(4) by (simp add: shard_cursor_def)
  have act: "(if r_value r = [] then Some deletions
       else db_index db2 \<bind> (\<lambda>index. Index_Exists index (Fingerprint64 (r_key r)) (RecordID (of_nat i) (of_nat (r_position r))))) =
      Some (listed logs deletions (RecordID (of_nat i) (of_nat (r_position r)), r))"
    using Index_Exists_listed [OF s(2) ix r i(3)] same(1) ix by (simp add: listed_def same_db_def db3_def)
  have run: "next_record env deletions False (of_nat i) pos db =
      (if listed logs deletions (RecordID (of_nat i) (of_nat (r_position r)), r) then Some (Some (r, RecordID (of_nat i) pos'), db3)
       else next_record env deletions False (of_nat i) pos' db3)"
    using s(1,4,6) i assms(3) \<open>\<not> Reader_Done rd\<close> rd2(1) act
    by (subst next_record.simps) (simp add: db3_def [symmetric] db2_def [symmetric] pos'_def [symmetric] cong: if_cong split del: if_split)
  have rest: "chain env (fh_compression (rr_info rd)) (db_files db1 ! i) (rr_position rd2) rs" using s(10) rd2(4) by simp
  have "length (db_files db1 ! i) < 2 ^ 48" using ok s(11) by (simp add: shard_ok_def)
  then have small: "rr_position rd2 < 2 ^ 48" "0 < rr_position rd2"
    using chain_le [OF rest] rd2(4) length_record_bytes [of env "fh_compression (rr_info rd)" r] by simp_all
  then have pos': "unat pos' = rr_position rd2" "pos' \<noteq> 0" by (auto simp: pos'_def unat_of_nat_uint64 simp flip: unat_eq_zero)
  have "shard_image db3 i = shard_image db1 i" "rr_info (db_readers db3 ! i) = rr_info rd"
    using i(1) rd2(3) by (simp_all add: db3_def db2_def set_reader_def shard_image_def inc_def add_metric_def same_reader_def cong: option.case_cong if_cong)
  then have "shard_cursor env logs db3 i pos' rs"
    using rest pos' small(1) assms(4) s(11) by (simp add: shard_cursor_def)
  then show thesis using that [OF run ok3 same_db_trans [OF s(3) same(1)]] pos' small(1) by simp
qed

text \<open>
  An iterator: the entries of the log that are still to be visited. The records that are not listed are skipped.
\<close>

definition iter_at :: "Env \<Rightarrow> Record list list \<Rightarrow> Database \<Rightarrow> nat \<Rightarrow> uint64 \<Rightarrow> (uint64 \<times> Record) list \<Rightarrow> bool" where
  "iter_at env logs db i pos es \<longleftrightarrow> i \<le> length (db_readers db) \<and>
     (if i = length (db_readers db) then es = []
      else \<exists>rs. shard_cursor env logs db i pos rs \<and> es = entries_left logs i rs)"

lemma iter_at_next_shard:
  assumes "shards_ok env logs db" "i < length (db_readers db)"
  shows "iter_at env logs db (Suc i) 0 (log_entries_from (Suc i) (drop (Suc i) logs))"
proof (cases "Suc i = length (db_readers db)")
  case True
  then show ?thesis using assms(1) by (simp add: iter_at_def shards_ok_def)
next
  case False
  then have "Suc i < length logs" using assms by (simp add: shards_ok_def)
  then have "drop (Suc i) logs = logs ! Suc i # drop (Suc (Suc i)) logs" by (rule Cons_nth_drop_Suc [symmetric])
  then show ?thesis using False assms(2) by (auto simp: iter_at_def shard_cursor_def entries_left_def)
qed

lemma next_record_spec:
  assumes "regular env" "db_ok env logs db" "iter_at env logs db i pos es"
  shows "\<exists>db'. db_ok env logs db' \<and> same_db db db' \<and>
    (case filter (listed logs deletions) es of
       [] \<Rightarrow> next_record env deletions False (of_nat i) pos db = Some (None, db')
     | e # es' \<Rightarrow> \<exists>j pos' es''. next_record env deletions False (of_nat i) pos db = Some (Some (snd e, RecordID (of_nat j) pos'), db') \<and>
         iter_at env logs db' j pos' es'' \<and> filter (listed logs deletions) es'' = es' \<and> j < 2 ^ 16 \<and> unat pos' < 2 ^ 48)"
  using assms(2,3)
proof (induction "length (db_readers db) - i + length es" arbitrary: db i pos es rule: less_induct)
  case less
  let ?n = "length (db_readers db)"
  have n: "?n < 2 ^ 16" "?n = length logs" using less.prems(1) by (simp_all add: db_ok_def shards_ok_def)
  show ?case
  proof (cases "i = ?n")
    case True
    then have "unat (of_nat i :: uint64) = ?n" using n by (simp add: unat_of_nat_uint64)
    then have "next_record env deletions False (of_nat i) pos db = Some (None, db)" by (subst next_record.simps) simp
    then show ?thesis using less.prems True by (auto simp: iter_at_def)
  next
    case False
    then have i: "i < ?n" using less.prems(2) by (simp add: iter_at_def)
    obtain rs where rs: "shard_cursor env logs db i pos rs" "es = entries_left logs i rs" using less.prems(2) False by (auto simp: iter_at_def)
    show ?thesis
    proof (cases rs)
      case Nil
      obtain db1 where d: "next_record env deletions False (of_nat i) pos db = next_record env deletions False (of_nat (Suc i)) 0 db1"
        "db_ok env logs db1" "same_db db db1"
        by (rule next_record_end [OF assms(1) less.prems(1) i rs(1) [unfolded Nil], of deletions])
      have len: "length (db_readers db1) = ?n" using d(3) by (simp add: same_db_def)
      have es: "es = log_entries_from (Suc i) (drop (Suc i) logs)" using rs(2) Nil by (simp add: entries_left_def shard_entries_def)
      have "iter_at env logs db1 (Suc i) 0 es"
        unfolding es using iter_at_next_shard [of env logs db1 i] d(2) i len by (simp add: db_ok_def)
      moreover have "length (db_readers db1) - Suc i + length es < ?n - i + length es" using i len by simp
      ultimately show ?thesis unfolding d(1) using less.hyps [OF _ d(2), of "Suc i" es 0] same_db_trans [OF d(3)] by blast
    next
      case (Cons r rs')
      obtain db1 pos' where d: "next_record env deletions False (of_nat i) pos db =
          (if listed logs deletions (RecordID (of_nat i) (of_nat (r_position r)), r) then Some (Some (r, RecordID (of_nat i) pos'), db1)
           else next_record env deletions False (of_nat i) pos' db1)"
        "db_ok env logs db1" "same_db db db1" "shard_cursor env logs db1 i pos' rs'" "pos' \<noteq> 0" "unat pos' < 2 ^ 48"
        by (rule next_record_read [OF assms(1) less.prems(1) i rs(1) [unfolded Cons], of deletions])
      have len: "length (db_readers db1) = ?n" using d(3) by (simp add: same_db_def)
      have es: "es = (RecordID (of_nat i) (of_nat (r_position r)), r) # entries_left logs i rs'"
        using rs(2) Cons by (simp add: entries_left_def shard_entries_def)
      have it: "iter_at env logs db1 i pos' (entries_left logs i rs')" using d(4) i len by (auto simp: iter_at_def)
      show ?thesis
      proof (cases "listed logs deletions (RecordID (of_nat i) (of_nat (r_position r)), r)")
        case True
        then show ?thesis using d it es i n by (auto intro!: exI [of _ db1] exI [of _ i] exI [of _ pos'] exI [of _ "entries_left logs i rs'"])
      next
        case False
        then have eq: "next_record env deletions False (of_nat i) pos db = next_record env deletions False (of_nat i) pos' db1"
          "filter (listed logs deletions) es = filter (listed logs deletions) (entries_left logs i rs')" using d(1) es by simp_all
        have "length (db_readers db1) - i + length (entries_left logs i rs') < ?n - i + length es" using es len by simp
        then show ?thesis unfolding eq using less.hyps [OF _ d(2) it] same_db_trans [OF d(3)] by blast
      qed
    qed
  qed
qed

text \<open>The loop of a client of \<^verbatim>\<open>Next\<close>.\<close>

partial_function (option) iterate :: "Env \<Rightarrow> bool \<Rightarrow> uint64 \<Rightarrow> Database \<Rightarrow> (Record list \<times> Database) option" where
  "iterate env deletions iterator db = do {
     (r, db) \<leftarrow> Database_Next env iterator deletions False db;
     (case r of
        None \<Rightarrow> Some ([], db)
      | Some (record, iterator) \<Rightarrow> do {
          (records, db) \<leftarrow> iterate env deletions iterator db;
          Some (record # records, db)
        })
   }"

declare iterate.simps [code]

lemma iterate_from:
  assumes "regular env" "db_ok env logs db" "iter_at env logs db i pos es" "Shard iterator = of_nat i" "Position iterator = pos"
  shows "\<exists>db'. iterate env deletions iterator db = Some (map snd (filter (listed logs deletions) es), db') \<and> db_ok env logs db' \<and> same_db db db'"
  using assms(2-)
proof (induction "filter (listed logs deletions) es" arbitrary: db i pos es iterator)
  case Nil
  have it: "iter_at env logs (inc NEXT db) i pos es"
    using Nil.prems(2) by (simp add: iter_at_def shard_cursor_def shard_image_def inc_def cong: option.case_cong if_cong)
  obtain db' where "next_record env deletions False (of_nat i) pos (inc NEXT db) = Some (None, db')" "db_ok env logs db'" "same_db db db'"
    using next_record_spec [OF assms(1) _ it, of deletions] Nil.prems(1) Nil.hyps by auto
  then show ?case using Nil.hyps Nil.prems(3,4) by (subst iterate.simps) (auto simp: Database_Next_def)
next
  case (Cons e es')
  have it: "iter_at env logs (inc NEXT db) i pos es"
    using Cons.prems(2) by (simp add: iter_at_def shard_cursor_def shard_image_def inc_def cong: option.case_cong if_cong)
  obtain db1 j pos' es'' where n: "next_record env deletions False (of_nat i) pos (inc NEXT db) = Some (Some (snd e, RecordID (of_nat j) pos'), db1)"
    "db_ok env logs db1" "same_db db db1" "iter_at env logs db1 j pos' es''" "filter (listed logs deletions) es'' = es'" "j < 2 ^ 16" "unat pos' < 2 ^ 48"
    using next_record_spec [OF assms(1) _ it, of deletions] Cons.prems(1) Cons.hyps(2) [symmetric] by auto
  have "of_nat (unat pos') = pos'" by simp
  then have it': "Shard (RecordID (of_nat j) pos') = of_nat j" "Position (RecordID (of_nat j) pos') = pos'"
    using RecordID_parts(1,3) [OF n(6,7)] by (simp_all add: word_unat_eq_iff)
  obtain db' where "iterate env deletions (RecordID (of_nat j) pos') db1 = Some (map snd es', db')" "db_ok env logs db'" "same_db db1 db'"
    using Cons.hyps(1) [OF n(5) [symmetric] n(2,4) it'] n(5) by auto
  then show ?case using n(1,3) Cons.hyps(2) [symmetric] Cons.prems(3,4) same_db_trans
    by (subst iterate.simps) (fastforce simp: Database_Next_def)
qed

lemma iterate_spec:
  assumes "regular env" "db_ok env logs db"
  shows "\<exists>db'. iterate env deletions 0 db = Some (map snd (filter (listed logs deletions) (log_entries logs)), db') \<and> db_ok env logs db' \<and> same_db db db'"
proof -
  have "length logs = length (db_readers db)" using assms(2) by (simp add: db_ok_def shards_ok_def)
  then have "iter_at env logs db 0 0 (log_entries logs)"
    by (cases logs) (auto simp: iter_at_def log_entries_def shard_cursor_def entries_left_def)
  then show ?thesis by (rule iterate_from [OF assms]) (simp_all add: Shard_def Position_def)
qed

end
