(* ===== verification/Database_Properties.thy ===== *)
theory Database_Properties
  imports Database_Log
begin

text \<open>
  The properties of the database: what \<^verbatim>\<open>Put\<close>, \<^verbatim>\<open>Delete\<close> and the iteration do, in terms of the log, and a
  small database on which they are applied.
\<close>

section \<open>Properties\<close>

lemma put_then_get:
  assumes "env_ok de" "put_writes de logs record mode db result"
  shows "\<exists>recid pos logs' db' db''. Database_Put de record mode db = Some (recid, Some result, db') \<and> db_ok (de_env de) logs' db' \<and>
    active logs' = (active logs)(r_key record \<mapsto> (recid, read_back pos record)) \<and>
    Database_Get (de_env de) (r_key record) False 0 db' = Some (Some (read_back pos record), db'')"
proof -
  have env: "regular (de_env de)" using assms(1) by (simp add: env_ok_def)
  obtain recid pos logs' db' where p: "Database_Put de record mode db = Some (recid, Some result, db')" "db_ok (de_env de) logs' db'"
    "active logs' = (active logs)(r_key record \<mapsto> (recid, read_back pos record))"
    using assms(2) by (auto simp: put_writes_def)
  from Database_Get_spec [OF env p(2), of "r_key record" False 0] p show ?thesis by (fastforce simp: record_view_def)
qed


definition sample_config :: Config where
  "sample_config = \<lparr>cf_record = sample_options, cf_initial_index_capacity = 512, cf_data_shard_size = 1000, cf_limit = drop_bit 1, cf_read_only = False\<rparr>"

definition sample_db :: Database where
  "sample_db = \<lparr>db_config = sample_config, db_files = [], db_readers = [], db_writer = None, db_index = Some sample_index, db_dirty = False, db_bulk = False,
     db_size = 0, db_counter = (\<lambda>_. 0)\<rparr>"

definition sample_denv :: DBEnv where
  "sample_denv = \<lparr>de_env = memory_env, de_sort = id, de_exists = (\<lambda>_. False), de_page_size = 4096, de_open = OK, de_resize = OK, de_delete = OK,
     de_table = OK, de_header = OK, de_unmap = OK, de_close = OK, de_mapped = True, de_block = (\<lambda>_. \<lparr>e_key = 0, e_value = 0\<rparr>)\<rparr>"

lemma sample_denv_ok: "env_ok sample_denv"
  by (simp add: env_ok_def sample_denv_def regular_memory_env)

lemma sample_config_ok: "config_ok sample_config"
proof -
  have "2 ^ k \<le> 2 * unat (drop_bit 1 (2 ^ k :: uint64)) \<and> unat (drop_bit 1 (2 ^ k :: uint64)) < 2 ^ k" if "0 < k" "k < 60" for k
  proof -
    have "(2::nat) ^ k = 2 * 2 ^ (k - 1)" using that(1) by (cases k) simp_all
    moreover have "unat (drop_bit 1 (2 ^ k :: uint64)) = 2 ^ k div 2"
      using unat_power2 [of k] that(2) by (simp add: unsigned_drop_bit_eq drop_bit_eq_div unat_div)
    ultimately show ?thesis by simp
  qed
  then show ?thesis
    by (auto simp: config_ok_def sample_config_def sample_options_def sizeof_FileHeader_def)
qed

lemma active_nil: "active [] = Map.empty" by (simp add: active_def log_entries_def)

lemma sample_db_ok: "db_ok memory_env [] sample_db"
  using sample_index_ok
  by (simp add: db_ok_def sample_db_def shards_ok_def writer_ok_def sizes_ok_def active_nil active_pairs_def)


lemma sample_record_ok:
  assumes "length key + length v \<le> 10" "version < 2 ^ 64"
  shows "putable memory_env (new_file_header sample_options) (sample_record key v version)"
proof -
  let ?r = "sample_record key v version" and ?i = "new_file_header sample_options"
  have len: "length (stored_value memory_env SNAPPY v) \<le> 4 + length v" by (simp add: stored_value_def memory_env_def)
  have c: "fh_compression ?i = SNAPPY" "record_value ?r = v" "r_key ?r = key" "r_version ?r = version" "r_value ?r = map Some v"
    by (simp_all add: sample_options_def new_file_header_def sample_record_def record_value_def o_def)
  have "fits_chunk ?i (MAX_HEADER_LEN + (length key + length (stored_value memory_env SNAPPY v)))"
    using len assms(1) by (simp add: fits_chunk_def sample_options_def new_file_header_def MAX_HEADER_LEN_def MAX_SKIP_LEN_def)
  then have "record_ok memory_env ?i ?r"
    using len assms c by (auto simp: record_ok_def Let_def sample_record_def)
  moreover have "length (record_bytes memory_env SNAPPY ?r) < 2 ^ 46"
    using len assms(1) length_WriteHeader(1) [of "record_header ?r (length (stored_value memory_env SNAPPY v))"] c
    by (simp add: record_bytes_def Let_def MAX_HEADER_LEN_def)
  ultimately show ?thesis using c by (simp add: putable_def)
qed

lemma sample_fits: "length key + length v \<le> 10 \<Longrightarrow> version < 2 ^ 64 \<Longrightarrow> fits memory_env sample_db (sample_record key v version)"
  using sample_record_ok by (simp add: fits_def sample_db_def sample_config_def)



text \<open>A database with one shard of given records, and an index.\<close>

definition stored_file :: "Record list \<Rightarrow> byte list" where
  "stored_file rs = file_header_bytes (new_file_header sample_options) @ concat (map (record_bytes memory_env SNAPPY) rs)"

definition stored_log :: "Record list \<Rightarrow> Record list" where
  "stored_log rs = map (\<lambda>i. read_back (length (stored_file (take i rs))) (rs ! i)) [0..<length rs]"

definition stored_db :: "Record list \<Rightarrow> DatabaseIndex option \<Rightarrow> Database" where
  "stored_db rs index = sample_db\<lparr>db_files := [stored_file rs],
     db_readers := [the (RecordReader_init memory_env (stored_file rs) 64 False)], db_index := index\<rparr>"

lemma stored_log_snoc: "stored_log (rs @ [r]) = stored_log rs @ [read_back (length (stored_file rs)) r]"
  by (simp add: stored_log_def nth_append)

lemma stored_chain:
  "\<forall>r\<in>set rs. putable memory_env (new_file_header sample_options) r \<Longrightarrow>
     chain memory_env SNAPPY (stored_file rs) sizeof_FileHeader (stored_log rs)"
proof (induction rs rule: rev_induct)
  case Nil
  then show ?case using file_header_round_trip(1) by (simp add: stored_file_def stored_log_def)
next
  case (snoc r rs)
  have "record_ok memory_env (new_file_header sample_options) r" using snoc.prems by (simp add: putable_def)
  moreover have "fh_compression (new_file_header sample_options) = SNAPPY" by (simp add: new_file_header_def sample_options_def)
  ultimately show ?case using chain_snoc [of memory_env "new_file_header sample_options" "stored_file rs" sizeof_FileHeader "stored_log rs" r "[]"] snoc
    by (simp add: stored_log_snoc stored_file_def)
qed

lemma stored_shards_ok:
  assumes "\<forall>r\<in>set rs. putable memory_env (new_file_header sample_options) r" "length (stored_file rs) < 2 ^ 48"
  shows "shards_ok memory_env [stored_log rs] (stored_db rs index)"
proof -
  let ?i = "new_file_header sample_options"
  have i: "info_ok ?i" using info_ok_new [OF sample_config_ok] by (simp add: sample_config_def)
  have small: "length (stored_file rs) < 2 ^ 63" using assms(2) by simp
  obtain rd where rd: "RecordReader_init memory_env (stored_file rs) 64 False = Some rd" "reader_inv (stored_file rs) rd"
    "rr_size rd = length (stored_file rs)" "rr_info rd = ?i" "\<not> rr_validate rd"
    by (rule RecordReader_init_spec [OF regular_memory_env stored_file_def small, where buffer_size = 64 and validate = False])
      (use i in \<open>simp_all add: info_ok_def sizeof_FileHeader_def\<close>)
  have "fh_compression ?i = SNAPPY" by (simp add: new_file_header_def sample_options_def)
  then have "shard_ok memory_env (stored_file rs) (stored_file rs) (stored_log rs) rd"
    using rd i stored_chain [OF assms(1)] assms(2) by (simp add: shard_ok_def stored_file_def)
  then show ?thesis
    using rd by (simp add: shards_ok_def stored_db_def sample_db_def writer_ok_def sizes_ok_def shard_image_def)
qed

lemma stored_file_length: "\<forall>r\<in>set rs. length (record_bytes memory_env SNAPPY r) < 2 ^ 46 \<Longrightarrow> length (stored_file rs) \<le> 40 + length rs * 2 ^ 46"
  by (induction rs rule: rev_induct) (auto simp: stored_file_def file_header_round_trip(1) sizeof_FileHeader_def)

lemma active_single:
  "active [stored_log [sample_record [1, 2] [3] 0]] = [[1, 2] \<mapsto> (40, read_back 40 (sample_record [1, 2] [3] 0))]"
  by (simp add: active_def log_entries_def shard_entries_def stored_log_def stored_file_def file_header_round_trip(1) sizeof_FileHeader_def log_step_def
      read_back_def sample_record_def RecordID_def)

lemma single_db:
  obtains index where "db_ok memory_env [stored_log [sample_record [1, 2] [3] 0]] (stored_db [sample_record [1, 2] [3] 0] (Some index))"
    "ih_capacity (ix_header index) = 4"
proof -
  let ?r = "sample_record [1, 2] [3] 0"
  have p: "\<forall>r\<in>set [?r]. putable memory_env (new_file_header sample_options) r" using sample_record_ok [of "[1, 2]" "[3]" 0] by simp
  have c: "fh_compression (new_file_header sample_options) = SNAPPY" by (simp add: new_file_header_def sample_options_def)
  have "length (stored_file [?r]) < 2 ^ 48" using stored_file_length [of "[?r]"] p c by (simp add: putable_def)
  note sh = stored_shards_ok [OF p this]
  have room: "unat (ih_size (ix_header sample_index)) + 1 < unat (ih_capacity (ix_header sample_index))" by (simp add: sample_index_def)
  obtain pos index where a: "index_inv index" "Index_Add (Fingerprint64 [1, 2]) 40 sample_index = Some (pos, index)" "index_pairs index = add_mset (Fingerprint64 [1, 2], 40) (index_pairs sample_index)"
    "ix_entries index = (ix_entries sample_index)[unat pos := \<lparr>e_key = Fingerprint64 [1, 2], e_value = 40\<rparr>]" "same_shape sample_index index"
    by (rule Index_Add_spec [OF sample_index_ok(1) Fingerprint64_special room, of "[1, 2]" 40])
  have v: "values_ok index" "ih_capacity (ix_header index) = 4"
    using values_ok_update [OF sample_index_ok(3) _ _ a(4)] Fingerprint64_special a(5) by (simp_all add: same_shape_def sample_index_def)
  have "db_ok memory_env [stored_log [?r]] (stored_db [?r] (Some index))"
    using sh a v sample_index_ok(2) active_single by (simp add: db_ok_def active_pairs_def stored_db_def)
  then show thesis using that v by blast
qed

lemma stored_db_config: "config_ok (db_config (stored_db rs index))" "\<not> cf_read_only (db_config (stored_db rs index))"
  "fits memory_env (stored_db rs index) r = putable memory_env (new_file_header sample_options) r"
  using sample_config_ok by (simp_all add: stored_db_def sample_db_def sample_config_def fits_def)


lemma chain_distinct: "chain env compression data pos rs \<Longrightarrow> distinct (map r_position rs)"
proof (induction rs arbitrary: pos)
  case (Cons r rs)
  then have ch: "chain env compression data (r_position r + length (record_bytes env compression r)) rs" by simp
  have "r_position r < r_position x" if "x \<in> set rs" for x
    using chain_entries(2) [OF ch that] length_record_bytes [of env compression r] by linarith
  then show ?case using Cons.IH [OF ch] by force
qed simp

lemma distinct_log_entries_from:
  assumes "\<forall>rs\<in>set logs. distinct (map r_position rs) \<and> (\<forall>r\<in>set rs. r_position r < 2 ^ 48)" "i + length logs \<le> 2 ^ 16"
  shows "distinct (map fst (log_entries_from i logs))"
  using assms
proof (induction logs arbitrary: i)
  case (Cons rs logs)
  have i: "i < 2 ^ 16" using Cons.prems(2) by simp
  have "inj_on (\<lambda>r. RecordID (of_nat i) (of_nat (r_position r))) (set rs)"
    using Cons.prems(1) RecordID_inject(2) [OF i _ i] by (auto simp: inj_on_def distinct_map)
  then have "distinct (map fst (shard_entries i rs))" using Cons.prems(1) by (simp add: shard_entries_def o_def distinct_map)
  moreover have "fst x \<noteq> fst y" if x: "x \<in> set (shard_entries i rs)" and y: "y \<in> set (log_entries_from (Suc i) logs)" for x y
  proof -
    obtain r where r: "r \<in> set rs" "fst x = RecordID (of_nat i) (of_nat (r_position r))" using x by (auto simp: shard_entries_def)
    obtain j r' where j: "j < length logs" "r' \<in> set (logs ! j)" "fst y = RecordID (of_nat (Suc i + j)) (of_nat (r_position r'))"
      using y in_log_entries_from [of "fst y" "snd y" "Suc i" logs] by auto
    have "r_position r < 2 ^ 48" "r_position r' < 2 ^ 48" "Suc i + j < 2 ^ 16"
      using Cons.prems r(1) j(1,2) nth_mem [OF j(1)] by auto
    then show ?thesis using RecordID_inject(1) [OF i _ _ _, of "r_position r" "Suc i + j" "r_position r'"] r(2) j(3) by force
  qed
  ultimately show ?case using Cons.IH [of "Suc i"] Cons.prems by (fastforce simp del: distinct_map)
qed simp

lemma distinct_log_entries:
  assumes "shards_ok env logs db"
  shows "distinct (log_entries logs)"
proof -
  have "distinct (map r_position rs) \<and> (\<forall>r\<in>set rs. r_position r < 2 ^ 48)" if rs: "rs \<in> set logs" for rs
  proof -
    obtain i where i: "i < length (db_readers db)" "rs = logs ! i" using rs assms by (auto simp: in_set_conv_nth shards_ok_def)
    then show ?thesis using shards_okD [OF assms i(1)] chain_distinct chain_entries(3) by (fastforce simp: shard_ok_def)
  qed
  moreover have "0 + length logs \<le> 2 ^ 16" using assms by (simp add: shards_ok_def)
  ultimately show ?thesis using distinct_log_entries_from [of logs 0] by (auto simp: log_entries_def distinct_map)
qed

lemma log_entries_records: "map snd (log_entries_from i logs) = concat logs"
  by (induction logs arbitrary: i) (simp_all add: shard_entries_def o_def)

text \<open>
  C13: Iterating over the database. Calling \<^verbatim>\<open>Next\<close> with the iterator it returned, from zero on, until it returns no record, terminates and reports
  every active record exactly once: the records have different keys, their keys are the active ones, each
  record is the active one of its key, with its value, version and position, and they come in the order of the log. Records that
  were replaced or deleted are skipped. The database stays consistent.
\<close>

theorem database_iterate:
  assumes "regular env" "db_ok env logs db"
  shows "\<exists>rs db'. iterate env False 0 db = Some (rs, db') \<and> distinct (map r_key rs) \<and>
    set rs = {r. \<exists>key recid. active logs key = Some (recid, r)} \<and> subseq rs (concat logs) \<and> db_ok env logs db'"
proof -
  define es where "es = filter (listed logs False) (log_entries logs)"
  obtain db' where it: "iterate env False 0 db = Some (map snd es, db')" "db_ok env logs db'"
    using iterate_spec [OF assms, of False] by (auto simp: es_def)
  have key: "active logs (r_key (snd e)) = Some e" if "e \<in> set es" for e
    using that by (cases "r_value (snd e) = []") (simp_all add: es_def listed_def)
  have es: "(recid, r) \<in> set es" if "active logs key = Some (recid, r)" for key recid r
    using activeD [OF that] that by (simp add: es_def listed_def)
  have "inj_on (r_key \<circ> snd) (set es)"
  proof (rule inj_onI)
    fix x y assume "x \<in> set es" "y \<in> set es" "(r_key \<circ> snd) x = (r_key \<circ> snd) y"
    then show "x = y" using key by (metis comp_apply option.inject)
  qed
  moreover have "distinct es" unfolding es_def by (rule distinct_filter) (rule distinct_log_entries, rule conjunct1, rule assms(2) [unfolded db_ok_def])
  ultimately have "distinct (map r_key (map snd es))" by (simp add: distinct_map)
  moreover have "set (map snd es) = {r. \<exists>key recid. active logs key = Some (recid, r)}"
  proof (intro set_eqI iffI)
    fix r assume "r \<in> set (map snd es)"
    then obtain recid where "(recid, r) \<in> set es" by auto
    then show "r \<in> {r. \<exists>key recid. active logs key = Some (recid, r)}" using key [of "(recid, r)"] by auto
  next
    fix r assume "r \<in> {r. \<exists>key recid. active logs key = Some (recid, r)}"
    then show "r \<in> set (map snd es)" using es by force
  qed
  moreover have "subseq (map snd es) (concat logs)"
    using subseq_map [OF subseq_filter_left, of snd "listed logs False" "log_entries logs"] log_entries_records [of 0 logs]
    by (simp add: es_def log_entries_def)
  ultimately show ?thesis using it by (intro exI [of _ "map snd es"] exI [of _ db']) simp
qed

theorem database_iterate_witness:
  "\<exists>logs db db'. iterate memory_env False 0 db = Some ([read_back 40 (sample_record [1, 2] [3] 0)], db') \<and> db_ok memory_env logs db'"
proof -
  let ?r = "sample_record [1, 2] [3] 0"
  obtain index where ok: "db_ok memory_env [stored_log [?r]] (stored_db [?r] (Some index))"
    by (rule single_db)
  obtain rs db' where it: "iterate memory_env False 0 (stored_db [?r] (Some index)) = Some (rs, db')" "distinct (map r_key rs)"
    "set rs = {r. \<exists>key recid. active [stored_log [?r]] key = Some (recid, r)}" "db_ok memory_env [stored_log [?r]] db'"
    using database_iterate [OF regular_memory_env ok] by blast
  have "set rs = {read_back 40 ?r}" using it(3) by (auto simp: active_single split: if_splits)
  moreover have "distinct rs" using it(2) by (simp add: distinct_map)
  ultimately have "rs = [read_back 40 ?r]" by (cases rs; cases "tl rs") auto
  then show ?thesis using it(1,4) by blast
qed

end
