(* ===== verification/Database_Recovery.thy ===== *)
theory Database_Recovery
  imports Database_Properties
begin

text \<open>
  Recovery of the index (\<^verbatim>\<open>Database::Recover\<close> in \<^verbatim>\<open>sling/db/db.cc\<close>): replaying the data shards rebuilds an index that points to the last
  record with a value of every key. Deletion records have no effect, so deleted records are found again.
\<close>

section \<open>Recovered records\<close>

text \<open>
  What \<^verbatim>\<open>Recover\<close> makes of the log: a later record replaces an earlier one, but a deletion record removes nothing.
\<close>

definition recover_step :: "(byte list \<rightharpoonup> uint64 \<times> Record) \<Rightarrow> uint64 \<times> Record \<Rightarrow> (byte list \<rightharpoonup> uint64 \<times> Record)" where
  "recover_step m e = (if r_value (snd e) = [] then m else m(r_key (snd e) \<mapsto> e))"

definition recovered :: "Record list list \<Rightarrow> (byte list \<rightharpoonup> uint64 \<times> Record)" where
  "recovered logs = foldl recover_step Map.empty (log_entries logs)"

definition recover_map :: "Record list list \<Rightarrow> (byte list \<rightharpoonup> uint64 \<times> Record) \<Rightarrow> bool" where
  "recover_map logs m \<longleftrightarrow> log_map logs m \<and> (\<forall>k e. m k = Some e \<longrightarrow> r_value (snd e) \<noteq> [])"

lemma recover_map_step: "recover_map logs m \<Longrightarrow> e \<in> set (log_entries logs) \<Longrightarrow> recover_map logs (recover_step m e)"
  by (cases e) (auto simp: recover_map_def log_map_def recover_step_def)

lemma recover_map_foldl: "recover_map logs m \<Longrightarrow> set es \<subseteq> set (log_entries logs) \<Longrightarrow> recover_map logs (foldl recover_step m es)"
  by (induction es arbitrary: m) (auto intro: recover_map_step)

lemma recover_map_empty: "recover_map logs Map.empty"
  by (simp add: recover_map_def log_map_def)

section \<open>Files without pending writes\<close>

definition synced :: "Database \<Rightarrow> bool" where
  "synced db \<longleftrightarrow> db_files db = db_images db"

lemma synced_same:
  assumes "synced db" "same_db db db'"
  shows "db_files db' = db_files db" "synced db'"
proof -
  have "list_all2 prefix (db_files db') (db_images db')"
    by (auto simp: db_images_def list_all2_conv_all_nth shard_image_def file_image_def split: option.splits)
  moreover have "db_images db' = db_files db" "list_all2 prefix (db_files db) (db_files db')"
    using assms by (simp_all add: synced_def same_db_def)
  ultimately show "db_files db' = db_files db"
    using list_all2_antisym [of prefix prefix "db_files db'" "db_files db", OF prefix_order.antisym] by simp
  then show "synced db'" using \<open>db_images db' = db_files db\<close> by (simp add: synced_def)
qed

section \<open>The memory index\<close>

text \<open>
  The index during recovery holds the recovered records seen so far, at most \<open>n\<close>; its capacity stays far below the
  limits of the positions as long as the log is.
\<close>

definition index_ok :: "Config \<Rightarrow> nat \<Rightarrow> (byte list \<rightharpoonup> uint64 \<times> Record) \<Rightarrow> DatabaseIndex \<Rightarrow> bool" where
  "index_ok cf n m idx \<longleftrightarrow> index_inv idx \<and> values_ok idx \<and> index_pairs idx = active_pairs m \<and> unat (ih_size (ix_header idx)) \<le> n \<and>
     ih_offset (ix_header idx) = 4096 \<and> ix_mapped_size idx = 4096 + ih_capacity (ix_header idx) * sizeof_Entry \<and> ix_backed idx = False \<and>
     ih_limit (ix_header idx) = cf_limit cf (ih_capacity (ix_header idx)) \<and> (\<exists>k. 9 \<le> k \<and> k \<le> 57 \<and> ih_capacity (ix_header idx) = 2 ^ k)"

lemma Index_Create_shape:
  assumes "env_ok de" "Index_Create (de_page_size de) backed (de_open de) (de_resize de) (de_mapped de) (de_block de) capacity limit = Some (Inr ix)"
  shows "ih_offset (ix_header ix) = 4096" "ix_mapped_size ix = 4096 + capacity * sizeof_Entry" "ix_mask ix = capacity - 1"
  using assms by (auto simp: Index_Create_def env_ok_def header_pages_4096 split: if_splits)

lemma memory_index_new:
  assumes "env_ok de" "config_ok cf" "9 \<le> k" "k \<le> 57"
  obtains idx where "memory_index de (2 ^ k) (cf_limit cf (2 ^ k)) = Some (Inr idx)" "index_ok cf 0 Map.empty idx" "ih_size (ix_header idx) = 0"
    "ih_epoch (ix_header idx) = 0"
proof -
  have lim: "unat (cf_limit cf (2 ^ k)) < 2 ^ k" using assms(2-4) by (simp add: config_ok_def)
  have k: "k < 60" "k \<noteq> 8" using assms(3,4) by simp_all
  obtain idx where c: "Index_Create (de_page_size de) False (de_open de) (de_resize de) (de_mapped de) (de_block de) (2 ^ k) (cf_limit cf (2 ^ k)) = Some (Inr idx)"
    "index_inv idx" "index_pairs idx = {#}" "values_ok idx" "ih_size (ix_header idx) = 0" "ih_limit (ix_header idx) = cf_limit cf (2 ^ k)"
    "ih_capacity (ix_header idx) = 2 ^ k" "ix_backed idx = False"
    by (rule Index_Create_succeeds [OF assms(1) k lim])
  note shape = Index_Create_shape [OF assms(1) c(1)]
  have "ih_epoch (ix_header idx) = 0" using c(1) by (auto simp: Index_Create_def split: if_splits bind_splits)
  moreover have "index_ok cf 0 Map.empty idx"
    unfolding index_ok_def using c shape assms(3,4) by (auto simp: active_pairs_def)
  ultimately show thesis using that c(1,5) by (simp add: memory_index_def)
qed

lemma tombstones_le: "length (filter (\<lambda>e. e_key e = TOMBSTONE) es) \<le> length (filter (\<lambda>e. e_key e \<noteq> EMPTY) es)"
  by (induction es) (auto simp: special_keys)

lemma recover_grow_spec:
  assumes "env_ok de" "config_ok cf" "index_ok cf n m idx" "n < 2 ^ 55"
  obtains idx' where "recover_grow de cf idx = Some (Inr idx')" "index_ok cf n m idx'"
    "unat (ih_size (ix_header idx')) + 1 < unat (ih_capacity (ix_header idx'))"
proof (cases "index_full idx")
  case False
  have inv: "index_inv idx" using assms(3) by (simp add: index_ok_def)
  show thesis by (rule that [of idx]) (use False assms(3) index_not_full_room [OF inv] in \<open>simp_all add: recover_grow_def\<close>)
next
  case True
  have ix: "index_inv idx" "values_ok idx" "index_pairs idx = active_pairs m" "unat (ih_size (ix_header idx)) \<le> n"
    "ih_limit (ix_header idx) = cf_limit cf (ih_capacity (ix_header idx))" using assms(3) by (simp_all add: index_ok_def)
  obtain k where k: "9 \<le> k" "k \<le> 57" "ih_capacity (ix_header idx) = 2 ^ k" using assms(3) by (auto simp: index_ok_def)
  have "unat (ih_deletions (ix_header idx)) \<le> unat (ih_size (ix_header idx))"
    using ix(1) tombstones_le [of "ix_entries idx"] by (simp add: index_inv_def)
  moreover have "unat (ih_limit (ix_header idx)) \<le> unat (ih_size (ix_header idx) + ih_deletions (ix_header idx))"
    using True by (simp add: index_full_def word_le_nat_alt)
  moreover have "unat (a + b) \<le> unat a + unat b" for a b :: uint64 by (simp add: unat_plus_if_size)
  ultimately have "unat (ih_limit (ix_header idx)) \<le> 2 * n" using ix(4) order_trans by (smt (verit) add_mono mult_2)
  moreover have "\<forall>j<60. 0 < j \<longrightarrow> 2 ^ j \<le> 2 * unat (cf_limit cf (2 ^ j))" using assms(2) by (simp add: config_ok_def)
  then have "2 ^ k \<le> 2 * unat (ih_limit (ix_header idx))" using k ix(5) by simp
  ultimately have "(2::nat) ^ k < 2 ^ 57" using assms(4) by simp
  then have k57: "k < 57" by (rule power_less_imp_less_exp [rotated]) simp
  obtain new where new: "memory_index de (2 ^ Suc k) (cf_limit cf (2 ^ Suc k)) = Some (Inr new)" "index_ok cf 0 Map.empty new" "ih_size (ix_header new) = 0"
    by (rule memory_index_new [OF assms(1,2), of "Suc k"]) (use k57 k(1) in simp_all)
  have nix: "index_inv new" "values_ok new" "index_pairs new = {#}" "ih_limit (ix_header new) = cf_limit cf (ih_capacity (ix_header new))"
    "ih_capacity (ix_header new) = 2 ^ Suc k"
    using new(1,2) by (auto simp: index_ok_def active_pairs_def memory_index_def Index_Create_def split: if_splits bind_splits)
  have sz: "unat (ih_size (ix_header idx)) < 2 ^ k" using ix(1) k unat_power2 [of k] by (simp add: index_inv_def word_less_nat_alt)
  have "2 ^ Suc k \<le> 2 * unat (cf_limit cf (2 ^ Suc k))" using assms(2) k57 by (simp add: config_ok_def del: power_Suc)
  then have "ih_size (ix_header idx) \<le> ih_limit (ix_header new)" using sz nix(4,5) by (simp add: word_le_nat_alt)
  then obtain idx' where t: "Index_TransferTo idx new = Some idx'" "index_inv idx'" "index_pairs idx' = index_pairs idx"
    "same_shape new idx'" "unat (ih_size (ix_header idx')) \<le> unat (ih_size (ix_header idx))" "values_ok idx'"
    using Index_TransferTo_spec [OF ix(1) nix(1) new(3)] nix(2,3) ix(2) by auto
  have c2: "ih_capacity (ix_header idx) * 2 = 2 ^ Suc k" using k(3) by simp
  have "recover_grow de cf idx = Some (Inr idx')"
    unfolding recover_grow_def c2 using True new(1) t(1) by simp
  moreover have "9 \<le> Suc k" "Suc k \<le> 57" using k(1) k57 by simp_all
  then have "index_ok cf n m idx'"
    unfolding index_ok_def using t ix(3,4) new(2) nix(5) by (auto simp: same_shape_def index_ok_def simp del: power_Suc)
  moreover have "unat (2 ^ Suc k :: uint64) = 2 * 2 ^ k" using unat_power2 [of "Suc k"] k57 by simp
  then have "unat (ih_size (ix_header idx')) + 1 < unat (ih_capacity (ix_header idx'))"
    using t(4,5) sz nix(5) by (simp add: same_shape_def)
  ultimately show thesis by (rule that)
qed

section \<open>Replaying the log\<close>

lemma recover_record_spec:
  assumes "regular env" "shards_ok env logs db" "db_index db = None" "recover_map logs m" "index_ok cf n m idx"
    and "(recid, r) \<in> set (log_entries logs)" "unat (ih_size (ix_header idx)) + 1 < unat (ih_capacity (ix_header idx))"
  obtains idx' db' where "recover_record env recid r idx db = Some (Inr idx', db')" "index_ok cf (Suc n) (recover_step m (recid, r)) idx'"
    "shards_ok env logs db'" "same_db db db'"
proof -
  let ?fp = "Fingerprint64 (r_key r)"
  have lm: "log_map logs m" and fin: "finite (dom m)" using assms(4) by (simp_all add: recover_map_def log_map_def)
  have ix: "index_inv idx" "values_ok idx" "index_pairs idx = active_pairs m" "unat (ih_size (ix_header idx)) \<le> n"
    using assms(5) by (simp_all add: index_ok_def)
  obtain i where i: "i < length (db_readers db)" "recid = RecordID (of_nat i) (of_nat (r_position r))" "0 < r_position r" "r_position r < 2 ^ 48"
    by (rule log_entryD [OF assms(2,6)])
  have id0: "recid \<noteq> 0" unfolding i(2) using i assms(2) by (intro RecordID_not_zero) (simp_all add: shards_ok_def)
  show thesis
  proof (cases "r_value r = []")
    case True
    have "(?fp, recid) \<notin># index_pairs idx"
    proof
      assume "(?fp, recid) \<in># index_pairs idx"
      then obtain k r' where k: "m k = Some (recid, r')" unfolding ix(3) using active_pairs_iff [OF fin] by blast
      then have "(recid, r') \<in> set (log_entries logs)" "r_value r' \<noteq> []" using assms(4) by (fastforce simp: recover_map_def log_map_def)+
      then show False using log_entries_inject [OF assms(2,6)] True by blast
    qed
    then have "Index_Delete ?fp recid idx = Some (NVAL, idx)" using Index_Delete_spec(2) [OF ix(1) Fingerprint64_special ix(2)] by simp
    then have "recover_record env recid r idx db = Some (Inr idx, db)" using True by (simp add: recover_record_def)
    then show thesis using that True assms(2,5) by (simp add: recover_step_def index_ok_def)
  next
    case False
    obtain db1 where f: "find_record env True False (r_key r) ?fp NPOS 0 (db\<lparr>db_index := Some idx\<rparr>) =
        Some (case m (r_key r) of Some (recid, r) \<Rightarrow> Match recid (record_view True r) | None \<Rightarrow> NoMatch, db1)"
      "shards_ok env logs db1" "same_db (db\<lparr>db_index := Some idx\<rparr>) db1"
      using find_record_map [OF assms(1) lm, of "db\<lparr>db_index := Some idx\<rparr>" idx True False "r_key r" 0] assms(2) ix(1,3) by auto
    let ?db = "db1\<lparr>db_index := None\<rparr>"
    have same: "same_db db ?db" using f(3) assms(3) by (simp add: same_db_def db_images_def)
    have shape: "same_shape idx idx' \<Longrightarrow> index_inv idx' \<Longrightarrow> values_ok idx' \<Longrightarrow> index_pairs idx' = active_pairs (recover_step m (recid, r)) \<Longrightarrow>
        unat (ih_size (ix_header idx')) \<le> Suc n \<Longrightarrow> index_ok cf (Suc n) (recover_step m (recid, r)) idx'" for idx'
      using assms(5) by (simp add: index_ok_def same_shape_def)
    show thesis
    proof (cases "m (r_key r)")
      case None
      obtain p idx' where a: "Index_Add ?fp recid idx = Some (p, idx')" "index_inv idx'" "index_pairs idx' = add_mset (?fp, recid) (index_pairs idx)"
        "ix_entries idx' = (ix_entries idx)[unat p := \<lparr>e_key = ?fp, e_value = recid\<rparr>]" "same_shape idx idx'"
        "unat (ih_size (ix_header idx')) \<le> unat (ih_size (ix_header idx)) + 1"
        by (rule Index_Add_spec [OF ix(1) Fingerprint64_special assms(7)])
      have v: "values_ok idx'" by (rule values_ok_update [OF ix(2) _ _ a(4)]) (use id0 Fingerprint64_special in simp_all)
      have p: "index_pairs idx' = active_pairs (recover_step m (recid, r))"
        using a(3) ix(3) active_pairs_add [of m "r_key r" recid r, OF fin None] False by (simp add: recover_step_def)
      have run: "recover_record env recid r idx db = Some (Inr idx', ?db)"
        using False f(1) None a(1) by (simp add: recover_record_def)
      show thesis by (rule that [OF run shape [OF a(5,2) v p]]) (use a(6) ix(4) f(2) same in simp_all)
    next
      case (Some x)
      obtain val r' where x: "m (r_key r) = Some (val, r')" using Some by (cases x) simp
      have "(?fp, val) \<in># index_pairs idx" unfolding ix(3) using active_pairs_iff [OF fin] x by blast
      then obtain p idx' where u: "Index_Update ?fp val recid idx = Some (p, idx')" "index_inv idx'"
        "index_pairs idx' = add_mset (?fp, recid) (index_pairs idx - {#(?fp, val)#})"
        "ix_entries idx' = (ix_entries idx)[unat p := \<lparr>e_key = ?fp, e_value = recid\<rparr>]" "same_shape idx idx'" "ix_header idx' = ix_header idx"
        using Index_Update_spec(1) [OF ix(1) Fingerprint64_special, of "r_key r" val recid] by blast
      have v: "values_ok idx'" by (rule values_ok_update [OF ix(2) _ _ u(4)]) (use id0 Fingerprint64_special in simp_all)
      have p: "index_pairs idx' = active_pairs (recover_step m (recid, r))"
        using u(3) ix(3) active_pairs_update [OF fin x] False by (simp add: recover_step_def)
      have run: "recover_record env recid r idx db = Some (Inr idx', ?db)"
        using False f(1) x u(1) by (simp add: recover_record_def)
      show thesis by (rule that [OF run shape [OF u(5,2) v p]]) (use u(6) ix(4) f(2) same in simp_all)
    qed
  qed
qed

text \<open>The state of the database during recovery.\<close>

definition recovering :: "DBEnv \<Rightarrow> Record list list \<Rightarrow> Database \<Rightarrow> bool" where
  "recovering de logs db \<longleftrightarrow> shards_ok (de_env de) logs db \<and> synced db \<and> db_index db = None \<and> config_ok (db_config db)"

lemma recovering_same:
  assumes "recovering de logs db" "shards_ok (de_env de) logs db'" "same_db db db'"
  shows "recovering de logs db'"
  using assms synced_same [of db db'] by (simp add: recovering_def same_db_def)

lemma recover_records_spec:
  assumes env: "env_ok de" and i: "i < length (db_readers db)"
    and rec: "recovering de logs db" and m: "recover_map logs m" "index_ok (db_config db) n m idx"
    and rd: "reader_inv (db_files db ! i) rd" "\<not> rr_validate rd" "rr_size rd = length (db_files db ! i)"
      "fh_compression (rr_info rd) = SNAPPY \<or> fh_compression (rr_info rd) = UNCOMPRESSED"
    and ch: "chain (de_env de) (fh_compression (rr_info rd)) (db_files db ! i) (rr_position rd) rs" "set rs \<subseteq> set (logs ! i)"
    and n: "n + length rs < 2 ^ 55"
  shows "\<exists>idx' db'. recover_records de i rd idx db = Some (Inr idx', db') \<and> recovering de logs db' \<and> same_db db db' \<and>
    index_ok (db_config db) (n + length rs) (foldl recover_step m (shard_entries i rs)) idx'"
  using i rec m rd ch n
proof (induction rs arbitrary: n m idx rd db)
  case Nil
  then have "Reader_Done rd" by (simp add: Reader_Done_def)
  then show ?case using Nil.prems by (subst recover_records.simps) (simp add: shard_entries_def)
next
  case (Cons r rs)
  let ?id = "RecordID (of_nat i) (of_nat (r_position r))" and ?data = "db_files db ! i"
  have env': "regular (de_env de)" using env by (simp add: env_ok_def)
  have sh: "shards_ok (de_env de) logs db" and none: "db_index db = None" and cf: "config_ok (db_config db)" and sy: "synced db"
    using Cons.prems(2) by (simp_all add: recovering_def)
  have "\<not> Reader_Done rd" using chain_position [OF Cons.prems(9)] Cons.prems(7) by (simp add: Reader_Done_def)
  have n55: "n < 2 ^ 55" using Cons.prems(11) by simp
  obtain idx1 where g: "recover_grow de (db_config db) idx = Some (Inr idx1)" "index_ok (db_config db) n m idx1"
    "unat (ih_size (ix_header idx1)) + 1 < unat (ih_capacity (ix_header idx1))"
    by (rule recover_grow_spec [OF env cf Cons.prems(4) n55])
  obtain rd1 where rd1: "Reader_Read (de_env de) ?data rd = Some (Inr r, rd1)" "reader_inv ?data rd1" "same_reader rd rd1"
    "rr_position rd1 = r_position r + length (record_bytes (de_env de) (fh_compression (rr_info rd)) r)"
    by (rule Reader_Read_chain [OF env' Cons.prems(5,6,9,8)])
  have il: "i < length logs" "r \<in> set (logs ! i)" using Cons.prems(1,10) sh by (simp_all add: shards_ok_def)
  then have mem: "(?id, r) \<in> set (log_entries logs)" using in_log_entries by blast
  obtain idx2 db1 where s: "recover_record (de_env de) ?id r idx1 db = Some (Inr idx2, db1)"
    "index_ok (db_config db) (Suc n) (recover_step m (?id, r)) idx2" "shards_ok (de_env de) logs db1" "same_db db db1"
    by (rule recover_record_spec [OF env' sh none Cons.prems(3) g(2) mem g(3)])
  have run: "recover_records de i rd idx db = recover_records de i rd1 idx2 db1"
    using \<open>\<not> Reader_Done rd\<close> g(1) rd1(1) s(1) by (subst recover_records.simps) simp
  have db1: "recovering de logs db1" "db_files db1 = db_files db" "db_config db1 = db_config db" "i < length (db_readers db1)"
    using recovering_same [OF Cons.prems(2) s(3,4)] synced_same(1) [OF sy s(4)] s(4) Cons.prems(1) by (simp_all add: same_db_def)
  have m1: "recover_map logs (recover_step m (?id, r))" by (rule recover_map_step [OF Cons.prems(3) mem])
  have "\<exists>idx' db'. recover_records de i rd1 idx2 db1 = Some (Inr idx', db') \<and> recovering de logs db' \<and> same_db db1 db' \<and>
      index_ok (db_config db1) (Suc n + length rs) (foldl recover_step (recover_step m (?id, r)) (shard_entries i rs)) idx'"
    by (rule Cons.IH [OF db1(4,1) m1])
      (use s(2) db1 rd1 Cons.prems in \<open>simp_all add: same_reader_def\<close>)
  then show ?case unfolding run using db1(3) same_db_trans [OF s(4)] by (auto simp: shard_entries_def)
qed

lemma recover_shards_spec:
  assumes env: "env_ok de" and i: "i \<le> length (db_readers db)"
    and rec: "recovering de logs db" and m: "recover_map logs m" "index_ok (db_config db) n m idx"
    and n: "n + length (log_entries_from i (drop i logs)) < 2 ^ 55"
  shows "\<exists>idx' db'. recover_shards de 0 [i..<length (db_readers db)] idx db = Some (Inr idx', db') \<and> recovering de logs db' \<and> same_db db db' \<and>
    index_ok (db_config db) (n + length (log_entries_from i (drop i logs))) (foldl recover_step m (log_entries_from i (drop i logs))) idx'"
  using i rec m n
proof (induction "length (db_readers db) - i" arbitrary: i n m idx db)
  case 0
  then have "length logs = i" by (simp add: recovering_def shards_ok_def)
  then show ?case using 0 by simp
next
  case (Suc k)
  have i: "i < length (db_readers db)" using Suc.hyps(2) by simp
  have sh: "shards_ok (de_env de) logs db" and cf: "config_ok (db_config db)" and env': "regular (de_env de)" and sy: "synced db"
    using Suc.prems(2) env by (simp_all add: recovering_def env_ok_def)
  have len: "length (db_files db) = length (db_readers db)" "length logs = length (db_readers db)" using sh by (simp_all add: shards_ok_def)
  let ?data = "db_files db ! i" and ?o = "cf_record (db_config db)" and ?info = "rr_info (db_readers db ! i)"
  note ok = shards_okD [OF sh i]
  obtain rest where rest: "?data = file_header_bytes ?info @ rest" using ok by (auto simp: shard_ok_def prefix_def)
  have img: "?data = shard_image db i" using sy i len by (metis add_0 db_images_def nth_map_upt diff_zero synced_def)
  then have small: "length ?data < 2 ^ 63" using ok by (simp add: shard_ok_def)
  have info: "fh_magic ?info = MAGIC2" "fh_hdrlen ?info = 40" "fh_index_start ?info = 0" using ok by (simp_all add: shard_ok_def info_ok_def)
  have buf: "sizeof_FileHeader \<le> ro_buffer_size ?o" "ro_validate ?o = False" using cf by (simp_all add: config_ok_def)
  obtain rd where rd: "RecordReader_init (de_env de) ?data (ro_buffer_size ?o) (ro_validate ?o) = Some rd" "reader_inv ?data rd"
    "rr_position rd = sizeof_FileHeader" "rr_size rd = length ?data" "rr_info rd = ?info" "rr_validate rd = ro_validate ?o"
    by (rule RecordReader_init_spec [OF env' rest small info buf(1)])
  have ch: "chain (de_env de) (fh_compression (rr_info rd)) ?data (rr_position rd) (logs ! i)" "\<not> rr_validate rd"
    "fh_compression (rr_info rd) = SNAPPY \<or> fh_compression (rr_info rd) = UNCOMPRESSED"
    using ok img rd(3,5,6) buf(2) by (auto simp: shard_ok_def info_ok_def)
  have "drop i logs = logs ! i # drop (Suc i) logs" using i len by (intro Cons_nth_drop_Suc [symmetric]) simp
  then have es: "log_entries_from i (drop i logs) = shard_entries i (logs ! i) @ log_entries_from (Suc i) (drop (Suc i) logs)" by simp
  have len_es: "length (shard_entries i (logs ! i)) = length (logs ! i)" by (simp add: shard_entries_def)
  obtain idx1 db1 where r: "recover_records de i rd idx db = Some (Inr idx1, db1)" "recovering de logs db1" "same_db db db1"
    "index_ok (db_config db) (n + length (logs ! i)) (foldl recover_step m (shard_entries i (logs ! i))) idx1"
    using recover_records_spec [OF env i Suc.prems(2-4) rd(2) ch(2) rd(4) ch(3,1)] Suc.prems(5) len_es unfolding es by auto
  have d1: "length (db_readers db1) = length (db_readers db)" "db_config db1 = db_config db" using r(3) by (simp_all add: same_db_def)
  have "set (shard_entries i (logs ! i)) \<subseteq> set (log_entries logs)"
    using i len in_log_entries by (force simp: shard_entries_def)
  then have m1: "recover_map logs (foldl recover_step m (shard_entries i (logs ! i)))" by (rule recover_map_foldl [OF Suc.prems(3)])
  have kk: "k = length (db_readers db1) - Suc i" using Suc.hyps(2) d1(1) by simp
  obtain idx' db' where f: "recover_shards de 0 [Suc i..<length (db_readers db1)] idx1 db1 = Some (Inr idx', db')" "recovering de logs db'" "same_db db1 db'"
    "index_ok (db_config db1) (n + length (logs ! i) + length (log_entries_from (Suc i) (drop (Suc i) logs)))
       (foldl recover_step (foldl recover_step m (shard_entries i (logs ! i))) (log_entries_from (Suc i) (drop (Suc i) logs))) idx'"
    using Suc.hyps(1) [OF kk _ r(2) m1, of "n + length (logs ! i)" idx1] r(4) d1 i Suc.prems(5) len_es unfolding es by auto
  have "recover_shards de 0 [i..<length (db_readers db)] idx db = Some (Inr idx', db')"
    using i len rd(1) r(1) f(1) d1(1) by (simp add: upt_conv_Cons)
  then show ?case using f(2-4) d1(2) same_db_trans [OF r(3)] es len_es by (auto simp: add.assoc)
qed

lemma Database_Recover_spec:
  assumes "env_ok de" "recovering de logs db" "length (log_entries logs) < 2 ^ 55" "9 \<le> k" "k \<le> 57"
    and "(if capacity < cf_initial_index_capacity (db_config db) then cf_initial_index_capacity (db_config db) else capacity) = 2 ^ k"
  shows "\<exists>db' index. Database_Recover de None capacity db = Some (OK, db') \<and> shards_ok (de_env de) logs db' \<and> db_index db' = Some index \<and>
    index_inv index \<and> values_ok index \<and> index_pairs index = active_pairs (recovered logs) \<and> ih_epoch (ix_header index) = epoch db'"
proof -
  let ?db = "db\<lparr>db_dirty := True\<rparr>"
  have rec: "recovering de logs ?db" using assms(2) by (simp add: recovering_def synced_def db_images_def)
  have none: "db_index db = None" and cf: "config_ok (db_config db)" and len: "length logs = length (db_readers db)"
    using assms(2) by (simp_all add: recovering_def shards_ok_def)
  obtain idx where idx: "memory_index de (2 ^ k) (cf_limit (db_config db) (2 ^ k)) = Some (Inr idx)" "index_ok (db_config db) 0 Map.empty idx"
    "ih_epoch (ix_header idx) = 0"
    by (rule memory_index_new [OF assms(1) cf assms(4,5)])
  have start: "recover_start de None capacity (db_config db) = Some (Inr idx)" using assms(6) idx(1) by (simp add: recover_start_def Let_def)
  have all: "log_entries_from 0 (drop 0 logs) = log_entries logs" by (simp add: log_entries_def)
  have rm: "recover_map logs Map.empty" by (rule recover_map_empty)
  obtain idx' db' where r: "recover_shards de 0 [0..<length (db_readers db)] idx ?db = Some (Inr idx', db')" "recovering de logs db'" "same_db ?db db'"
    "index_ok (db_config db) (length (log_entries logs)) (recovered logs) idx'"
    using recover_shards_spec [OF assms(1) _ rec rm, of 0 0 idx] idx(2) assms(3) all by (auto simp: recovered_def)
  have ok: "index_inv idx'" "values_ok idx'" "index_pairs idx' = active_pairs (recovered logs)" "ih_offset (ix_header idx') = 4096"
    "ix_mapped_size idx' = 4096 + ih_capacity (ix_header idx') * sizeof_Entry" "ih_limit (ix_header idx') = cf_limit (db_config db) (ih_capacity (ix_header idx'))"
    using r(4) by (simp_all add: index_ok_def)
  obtain j where j: "9 \<le> j" "j \<le> 57" "ih_capacity (ix_header idx') = 2 ^ j" using r(4) by (auto simp: index_ok_def)
  have j': "j < 60" "j \<noteq> 8" "unat (cf_limit (db_config db) (2 ^ j)) < 2 ^ j" using j cf by (simp_all add: config_ok_def)
  obtain new where new: "Index_Create (de_page_size de) (\<not> db_bulk db') (de_open de) (de_resize de) (de_mapped de) (de_block de) (2 ^ j) (cf_limit (db_config db) (2 ^ j)) =
      Some (Inr new)"
    by (rule Index_Create_succeeds [OF assms(1) j', of "\<not> db_bulk db'"])
  note shape = Index_Create_shape [OF assms(1) new]
  have mask: "ix_mask idx' = 2 ^ j - 1"
  proof -
    obtain a where a: "a < 60" "length (ix_entries idx') = 2 ^ a" "ix_mask idx' = 2 ^ a - 1" using ok(1) by (auto simp: index_inv_def elim!: table_okE)
    then have "(2::nat) ^ a = 2 ^ j" using ok(1) j(3) j'(1) unat_power2 [of j] by (simp add: index_inv_def)
    then show ?thesis using a(3) by simp
  qed
  define index where "index = new\<lparr>ix_header := (ix_header idx')\<lparr>ih_epoch := epoch db'\<rparr>, ix_entries := ix_entries idx'\<rparr>"
  have "de_table de = OK" "de_header de = OK" using assms(1) by (simp_all add: env_ok_def)
  then have run: "Database_Recover de None capacity db = Some (OK, db'\<lparr>db_index := Some index\<rparr>)"
    using none start idx(3) r(1) new ok(4-6) j(3) shape mask
    by (simp add: Database_Recover_def Shard_def Position_def Index_CopyFrom_def Index_Flush_def index_def Let_def)
  have "index_inv index" "values_ok index" "index_pairs index = active_pairs (recovered logs)"
    using ok(1-3) shape(3) mask by (simp_all add: index_def index_inv_def values_ok_def index_pairs_def)
  moreover have "shards_ok (de_env de) logs (db'\<lparr>db_index := Some index\<rparr>)" using r(2) by (simp add: recovering_def)
  moreover have "epoch (db'\<lparr>db_index := Some index\<rparr>) = epoch db'"
    by (simp add: epoch_def CurrentShard_def tail_size_def)
  ultimately show ?thesis using run by (auto simp: index_def)
qed

section \<open>Properties\<close>

lemma find_map: "find P (map f xs) = map_option f (find (P \<circ> f) xs)"
  by (induction xs) simp_all

lemma recovered_find: "map_option snd (recovered logs key) = find (\<lambda>r. r_key r = key \<and> r_value r \<noteq> []) (rev (concat logs))"
proof -
  have "foldl recover_step Map.empty es key = find (\<lambda>e. r_key (snd e) = key \<and> r_value (snd e) \<noteq> []) (rev es)" for es
    by (induction es rule: rev_induct) (auto simp: recover_step_def)
  then show ?thesis
    unfolding recovered_def log_entries_records [of 0 logs, symmetric, folded log_entries_def] rev_map find_map by (simp add: o_def)
qed

lemma recovered_active: "active logs key = Some e \<Longrightarrow> recovered logs key = Some e"
proof -
  have "foldl log_step Map.empty es key = Some e \<Longrightarrow> foldl recover_step Map.empty es key = Some e" for es
    by (induction es rule: rev_induct) (auto simp: log_step_def recover_step_def split: if_splits)
  then show "active logs key = Some e \<Longrightarrow> recovered logs key = Some e" by (simp add: active_def recovered_def)
qed

lemma recover_get:
  assumes "env_ok de" "recovering de logs db" "length (log_entries logs) < 2 ^ 55" "9 \<le> k" "k \<le> 57"
    and "(if capacity < cf_initial_index_capacity (db_config db) then cf_initial_index_capacity (db_config db) else capacity) = 2 ^ k"
  obtains db' db'' where "Database_Recover de None capacity db = Some (OK, db')" "shards_ok (de_env de) logs db'"
    "Database_Get (de_env de) key False 0 db' = Some (map_option snd (recovered logs key), db'')"
proof -
  obtain db' index where r: "Database_Recover de None capacity db = Some (OK, db')" "shards_ok (de_env de) logs db'" "db_index db' = Some index"
    "index_inv index" "index_pairs index = active_pairs (recovered logs)"
    using Database_Recover_spec [OF assms] by blast
  have env: "regular (de_env de)" using assms(1) by (simp add: env_ok_def)
  have lm: "log_map logs (recovered logs)"
    using recover_map_foldl [OF recover_map_empty order_refl] by (simp add: recover_map_def recovered_def)
  have "(\<lambda>(_, r). record_view False r) = (snd :: uint64 \<times> Record \<Rightarrow> Record)" by (auto simp: record_view_def)
  then show thesis
    using that [OF r(1,2)] Database_Get_map [OF env lm r(2-5), of key False 0] by auto
qed



text \<open>A key that was written and deleted.\<close>

definition deleted_records :: "Record list" where
  "deleted_records = [sample_record [1, 2] [3] 0, sample_record [1, 2] [] 0]"

lemma deleted_records_ok: "recovering sample_denv [stored_log deleted_records] (stored_db deleted_records None)"
proof -
  have p: "\<forall>r\<in>set deleted_records. putable memory_env (new_file_header sample_options) r"
    using sample_record_ok [of "[1, 2]" "[3]" 0] sample_record_ok [of "[1, 2]" "[]" 0] by (simp add: deleted_records_def)
  have c: "fh_compression (new_file_header sample_options) = SNAPPY" by (simp add: new_file_header_def sample_options_def)
  have "length (stored_file deleted_records) \<le> 40 + length deleted_records * 2 ^ 46" by (rule stored_file_length) (use p c in \<open>auto simp: putable_def\<close>)
  then have "length (stored_file deleted_records) < 2 ^ 48" by (simp add: deleted_records_def)
  note sh = stored_shards_ok [OF p this, of None]
  then show ?thesis using stored_db_config(1) [of deleted_records None]
    by (simp add: recovering_def sample_denv_def) (simp add: stored_db_def sample_db_def synced_def db_images_def shard_image_def)
qed

lemma deleted_log: "active [stored_log deleted_records] = Map.empty" "length (log_entries [stored_log deleted_records]) = 2"
  by (simp_all add: active_def log_entries_def shard_entries_def stored_log_def deleted_records_def log_step_def read_back_def sample_record_def)



end
