(* ===== verification/Handle_Map.thy ===== *)
theory Handle_Map
  imports Handles "HOL-Library.Monad_Syntax"
begin

text \<open>
  The handle map of \<^verbatim>\<open>sling/frame/object.h\<close> (\<^verbatim>\<open>handle_map\<close>), a hash table with linear probing from
  handles to values without constructors: a new element starts as zero bytes. The nil handle marks the empty
  nodes. A map is the list of its nodes; a reference to a value is the position of its node, which is
  good until the map grows. Positions are \<^verbatim>\<open>int\<close>s; they do not wrap around in maps of up to \<open>2 ^ 31\<close> nodes. The fill
  factor is the default of one half, the only one in use.
\<close>

unbundle bit_operations_syntax

section \<open>The map\<close>

record 'v handle_map =
  hm_nodes :: "(Handle \<times> 'v) list"
  hm_mask :: nat
  hm_capacity :: nat
  hm_size :: nat

definition hm_hash :: "Handle \<Rightarrow> nat" where
  "hm_hash key = unat (bits key)"

definition hm_allocate :: "'v \<Rightarrow> nat \<Rightarrow> (Handle \<times> 'v) list" where
  "hm_allocate zero limit = replicate limit (Handle_nil, zero)"

definition handle_map_init :: "'v \<Rightarrow> nat \<Rightarrow> 'v handle_map" where
  "handle_map_init zero limit = \<lparr>hm_nodes = hm_allocate zero limit, hm_mask = limit - 1, hm_capacity = limit div 2, hm_size = 0\<rparr>"

text \<open>The loops walk along the nodes until a condition on the key holds.\<close>

partial_function (option) hm_probe :: "(Handle \<Rightarrow> bool) \<Rightarrow> (Handle \<times> 'v) list \<Rightarrow> nat \<Rightarrow> nat \<Rightarrow> nat option" where
  "hm_probe stop nodes msk pos =
     (if length nodes \<le> pos then None
      else if stop (fst (nodes ! pos)) then Some pos
      else hm_probe stop nodes msk ((pos + 1) AND msk))"

declare hm_probe.simps [code]

fun reserve_loop :: "(Handle \<times> 'v) list \<Rightarrow> nat \<Rightarrow> (Handle \<times> 'v) list \<Rightarrow> (Handle \<times> 'v) list option" where
  "reserve_loop [] msk nodes = Some nodes"
| "reserve_loop (n # ns) msk nodes =
     (if IsNil (fst n) then reserve_loop ns msk nodes
      else do {
        pos \<leftarrow> hm_probe IsNil nodes msk (hm_hash (fst n) AND msk);
        reserve_loop ns msk (nodes[pos := n])
      })"

definition hm_reserve :: "'v \<Rightarrow> nat \<Rightarrow> 'v handle_map \<Rightarrow> 'v handle_map option" where
  "hm_reserve zero limit m = do {
     nodes \<leftarrow> reserve_loop (hm_nodes m) (limit - 1) (hm_allocate zero limit);
     Some (m\<lparr>hm_nodes := nodes, hm_mask := limit - 1, hm_capacity := limit div 2\<rparr>)
   }"

definition hm_take :: "Handle \<Rightarrow> nat \<Rightarrow> 'v handle_map \<Rightarrow> 'v handle_map" where
  "hm_take key pos m = m\<lparr>hm_nodes := (hm_nodes m)[pos := (key, snd (hm_nodes m ! pos))], hm_size := hm_size m + 1\<rparr>"

definition hm_insert :: "Handle \<Rightarrow> 'v handle_map \<Rightarrow> (nat \<times> 'v handle_map) option" where
  "hm_insert key m = do {
     pos \<leftarrow> hm_probe IsNil (hm_nodes m) (hm_mask m) (hm_hash key AND hm_mask m);
     Some (pos, hm_take key pos m)
   }"

text \<open>\<^verbatim>\<open>operator []\<close>: the position of the value of a key, which is added if it is not there.\<close>

definition hm_at :: "'v \<Rightarrow> Handle \<Rightarrow> 'v handle_map \<Rightarrow> (nat \<times> 'v handle_map) option" where
  "hm_at zero key m =
     (if IsNil key then None
      else do {
        pos \<leftarrow> hm_probe (\<lambda>k. k = key \<or> IsNil k) (hm_nodes m) (hm_mask m) (hm_hash key AND hm_mask m);
        if fst (hm_nodes m ! pos) = key then Some (pos, m)
        else if hm_size m < hm_capacity m then Some (pos, hm_take key pos m)
        else do {
          m \<leftarrow> hm_reserve zero (length (hm_nodes m) * 2) m;
          hm_insert key m
        }
      })"

definition hm_contains :: "Handle \<Rightarrow> 'v handle_map \<Rightarrow> bool option" where
  "hm_contains key m = do {
     pos \<leftarrow> hm_probe (\<lambda>k. k = key \<or> IsNil k) (hm_nodes m) (hm_mask m) (hm_hash key AND hm_mask m);
     Some (fst (hm_nodes m ! pos) = key)
   }"

text \<open>Reading and assigning through a reference.\<close>

definition hm_value_at :: "nat \<Rightarrow> 'v handle_map \<Rightarrow> 'v" where
  "hm_value_at pos m = snd (hm_nodes m ! pos)"

definition hm_assign :: "nat \<Rightarrow> 'v \<Rightarrow> 'v handle_map \<Rightarrow> 'v handle_map" where
  "hm_assign pos v m = m\<lparr>hm_nodes := (hm_nodes m)[pos := (fst (hm_nodes m ! pos), v)]\<rparr>"

section \<open>Probing\<close>

definition occupied :: "(Handle \<times> 'v) list \<Rightarrow> nat \<Rightarrow> bool" where
  "occupied ns i \<longleftrightarrow> \<not> IsNil (fst (ns ! (i mod length ns)))"

lemma and_mask_nat: "(n :: nat) AND (2 ^ k - 1) = n mod 2 ^ k"
  by (simp add: take_bit_eq_mod [symmetric] take_bit_eq_mask mask_eq_exp_minus_1)

lemma hm_probe_steps:
  assumes "length ns = 2 ^ k" "stop (fst (ns ! ((p + d) mod 2 ^ k)))" "\<forall>j<d. \<not> stop (fst (ns ! ((p + j) mod 2 ^ k)))"
  shows "hm_probe stop ns (2 ^ k - 1) (p mod 2 ^ k) = Some ((p + d) mod 2 ^ k)"
  using assms(2,3)
proof (induction d arbitrary: p)
  case 0
  have "\<not> 2 ^ k \<le> p mod 2 ^ k" by (simp add: not_le)
  then show ?case using assms(1) 0 by (subst hm_probe.simps) simp
next
  case (Suc d)
  have lt: "\<not> 2 ^ k \<le> p mod 2 ^ k" by (simp add: not_le)
  have "\<not> stop (fst (ns ! (p mod 2 ^ k)))" using Suc.prems(2) by (metis add_0_right zero_less_Suc)
  then have "hm_probe stop ns (2 ^ k - 1) (p mod 2 ^ k) = hm_probe stop ns (2 ^ k - 1) (Suc p mod 2 ^ k)"
    using assms(1) and_mask_nat [of "Suc (p mod 2 ^ k)" k] lt by (subst hm_probe.simps) (simp add: mod_Suc_eq)
  also have "\<dots> = Some ((Suc p + d) mod 2 ^ k)"
    using Suc.prems by (intro Suc.IH) (simp, metis Suc_mono add_Suc_shift)
  finally show ?case by simp
qed

lemma hm_probe_first:
  assumes "length ns = 2 ^ k" "i < 2 ^ k" "stop (fst (ns ! i))"
  obtains d where "hm_probe stop ns (2 ^ k - 1) (p AND (2 ^ k - 1)) = Some ((p + d) mod 2 ^ k)"
    "stop (fst (ns ! ((p + d) mod 2 ^ k)))" "\<forall>j<d. \<not> stop (fst (ns ! ((p + j) mod 2 ^ k)))"
proof -
  let ?P = "\<lambda>d. stop (fst (ns ! ((p + d) mod 2 ^ k)))"
  have "(p + (i + 2 ^ k - p mod 2 ^ k)) mod 2 ^ k = i"
  proof -
    have "(p mod 2 ^ k + (i + 2 ^ k - p mod 2 ^ k)) mod 2 ^ k = i" using assms(2) by (simp add: trans_le_add2 less_imp_le)
    then show ?thesis by (metis mod_add_left_eq)
  qed
  then have ex: "?P (LEAST d. ?P d)" using assms(3) by (intro LeastI [of ?P "i + 2 ^ k - p mod 2 ^ k"]) simp
  moreover have "\<forall>j<(LEAST d. ?P d). \<not> ?P j" by (blast dest: not_less_Least)
  ultimately show thesis
    using that [of "LEAST d. ?P d"] hm_probe_steps [OF assms(1), of stop p] ex and_mask_nat [of p k] by auto
qed

section \<open>The table\<close>

text \<open>
  The keys are distinct, the path from the home of a key to its node has no gap and empty nodes have zero values.
\<close>

definition table_inv :: "'v \<Rightarrow> nat \<Rightarrow> (Handle \<times> 'v) list \<Rightarrow> bool" where
  "table_inv zero k ns \<longleftrightarrow> length ns = 2 ^ k \<and>
     (\<forall>i<2 ^ k. \<forall>j<2 ^ k. fst (ns ! i) = fst (ns ! j) \<longrightarrow> \<not> IsNil (fst (ns ! i)) \<longrightarrow> i = j) \<and>
     (\<forall>i<2 ^ k. IsNil (fst (ns ! i)) \<longrightarrow> snd (ns ! i) = zero) \<and>
     (\<forall>i<2 ^ k. \<not> IsNil (fst (ns ! i)) \<longrightarrow>
        (\<exists>d. (hm_hash (fst (ns ! i)) + d) mod 2 ^ k = i \<and> (\<forall>j<d. \<not> IsNil (fst (ns ! ((hm_hash (fst (ns ! i)) + j) mod 2 ^ k))))))"

lemma table_path:
  assumes "table_inv zero k ns" "i < 2 ^ k" "\<not> IsNil (fst (ns ! i))"
  obtains d where "(hm_hash (fst (ns ! i)) + d) mod 2 ^ k = i" "\<forall>j<d. \<not> IsNil (fst (ns ! ((hm_hash (fst (ns ! i)) + j) mod 2 ^ k)))"
  using assms unfolding table_inv_def by blast

definition table_value :: "'v \<Rightarrow> (Handle \<times> 'v) list \<Rightarrow> Handle \<Rightarrow> 'v" where
  "table_value zero ns key = (case map_of ns key of Some v \<Rightarrow> v | None \<Rightarrow> zero)"

definition table_count :: "(Handle \<times> 'v) list \<Rightarrow> nat" where
  "table_count ns = length (filter (\<lambda>n. \<not> IsNil (fst n)) ns)"

lemma table_value_nth:
  assumes "table_inv zero k ns" "i < 2 ^ k" "\<not> IsNil (fst (ns ! i))"
  shows "table_value zero ns (fst (ns ! i)) = snd (ns ! i)"
proof -
  have len: "length ns = 2 ^ k" using assms(1) by (simp add: table_inv_def)
  have "ns ! i \<in> set ns" using assms(2) len by simp
  then obtain v where v: "map_of ns (fst (ns ! i)) = Some v"
    by (metis imageI map_of_eq_None_iff not_None_eq)
  then obtain j where j: "j < 2 ^ k" "ns ! j = (fst (ns ! i), v)" using map_of_SomeD [OF v] len by (metis in_set_conv_nth)
  then have "j = i" using assms by (simp add: table_inv_def)
  then show ?thesis using v j by (simp add: table_value_def) (metis snd_conv)
qed

lemma table_value_absent: "key \<notin> fst ` set ns \<Longrightarrow> table_value zero ns key = zero"
  by (simp add: table_value_def map_of_eq_None_iff [symmetric])

lemma table_gap:
  assumes "length ns = 2 ^ k" "table_count ns < 2 ^ k"
  obtains i where "i < 2 ^ k" "IsNil (fst (ns ! i))"
proof -
  have "\<not> (\<forall>n\<in>set ns. \<not> IsNil (fst n))"
    using assms filter_id_conv [of "\<lambda>n. \<not> IsNil (fst n)" ns] by (auto simp: table_count_def)
  then show thesis using that assms(1) by (auto simp: in_set_conv_nth)
qed

text \<open>Searching a key, and filling an empty node that the search has found.\<close>

definition gap_for :: "nat \<Rightarrow> (Handle \<times> 'v) list \<Rightarrow> Handle \<Rightarrow> nat \<Rightarrow> bool" where
  "gap_for k ns key pos \<longleftrightarrow> pos < 2 ^ k \<and> IsNil (fst (ns ! pos)) \<and>
     (\<exists>d. (hm_hash key + d) mod 2 ^ k = pos \<and> (\<forall>j<d. \<not> IsNil (fst (ns ! ((hm_hash key + j) mod 2 ^ k)))))"

lemma find_gap:
  assumes "length ns = 2 ^ k" "table_count ns < 2 ^ k"
  obtains pos where "hm_probe IsNil ns (2 ^ k - 1) (hm_hash key AND (2 ^ k - 1)) = Some pos" "gap_for k ns key pos"
proof -
  obtain i where i: "i < 2 ^ k" "IsNil (fst (ns ! i))" by (rule table_gap [OF assms])
  obtain d where d: "hm_probe IsNil ns (2 ^ k - 1) (hm_hash key AND (2 ^ k - 1)) = Some ((hm_hash key + d) mod 2 ^ k)"
    "IsNil (fst (ns ! ((hm_hash key + d) mod 2 ^ k)))" "\<forall>j<d. \<not> IsNil (fst (ns ! ((hm_hash key + j) mod 2 ^ k)))"
    by (rule hm_probe_first [where stop = IsNil and p = "hm_hash key", OF assms(1) i])
  then show thesis using that [OF d(1)] by (auto simp: gap_for_def)
qed

lemma find_key:
  assumes inv: "table_inv zero k ns" and n: "table_count ns < 2 ^ k" and key: "\<not> IsNil key"
  obtains pos where "hm_probe (\<lambda>k. k = key \<or> IsNil k) ns (2 ^ k - 1) (hm_hash key AND (2 ^ k - 1)) = Some pos" "pos < 2 ^ k"
    "fst (ns ! pos) = key \<or> key \<notin> fst ` set ns \<and> gap_for k ns key pos"
proof -
  let ?stop = "\<lambda>x. x = key \<or> IsNil x" and ?h = "hm_hash key"
  have len: "length ns = 2 ^ k" using inv by (simp add: table_inv_def)
  obtain i where i: "i < 2 ^ k" "IsNil (fst (ns ! i))" by (rule table_gap [OF len n])
  have s: "?stop (fst (ns ! i))" using i(2) by simp
  obtain d where d: "hm_probe ?stop ns (2 ^ k - 1) (?h AND (2 ^ k - 1)) = Some ((?h + d) mod 2 ^ k)"
    "?stop (fst (ns ! ((?h + d) mod 2 ^ k)))" "\<forall>j<d. \<not> ?stop (fst (ns ! ((?h + j) mod 2 ^ k)))"
    by (rule hm_probe_first [where stop = ?stop and p = ?h, OF len i(1) s])
  have "key \<notin> fst ` set ns" if ne: "fst (ns ! ((?h + d) mod 2 ^ k)) \<noteq> key"
  proof
    assume "key \<in> fst ` set ns"
    then obtain j where j: "j < 2 ^ k" "fst (ns ! j) = key" using len by (auto simp: in_set_conv_nth)
    then obtain e where e: "(?h + e) mod 2 ^ k = j" "\<forall>l<e. \<not> IsNil (fst (ns ! ((?h + l) mod 2 ^ k)))"
      using table_path [OF inv j(1)] key by blast
    have "IsNil (fst (ns ! ((?h + d) mod 2 ^ k)))" using d(2) ne by simp
    then have "e \<le> d" using e(2) not_le by blast
    moreover have "e \<noteq> d" using e(1) j(2) ne by auto
    ultimately have "e < d" by simp
    then show False using d(3) e(1) j(2) by blast
  qed
  moreover have "gap_for k ns key ((?h + d) mod 2 ^ k)" if "fst (ns ! ((?h + d) mod 2 ^ k)) \<noteq> key"
    unfolding gap_for_def using that d(2,3) by (intro conjI exI [of _ d]) auto
  ultimately show thesis by (intro that [OF d(1)]) auto
qed

lemma table_value_other:
  assumes "table_inv zero k ns" "table_inv zero k (ns[pos := n])" "\<not> IsNil key" "key \<noteq> fst n" "key \<noteq> fst (ns ! pos)"
  shows "table_value zero (ns[pos := n]) key = table_value zero ns key"
proof (cases "key \<in> fst ` set ns")
  case True
  then obtain j where j: "j < 2 ^ k" "fst (ns ! j) = key" using assms(1) by (auto simp: in_set_conv_nth table_inv_def)
  then have "ns[pos := n] ! j = ns ! j" using assms(5) by (cases "j = pos") simp_all
  then show ?thesis using table_value_nth [OF assms(1) j(1)] table_value_nth [OF assms(2) j(1)] j(2) assms(3) by simp
next
  case False
  then have "key \<notin> fst ` set (ns[pos := n])" using assms(4) set_update_subset_insert [of ns pos n] by auto
  then show ?thesis using False table_value_absent by metis
qed

lemma fill_gap:
  assumes inv: "table_inv zero k ns" and key: "\<not> IsNil key" "key \<notin> fst ` set ns" and gap: "gap_for k ns key pos"
  shows "table_inv zero k (ns[pos := (key, v)])" "table_count (ns[pos := (key, v)]) = Suc (table_count ns)"
    "key' \<noteq> key \<Longrightarrow> \<not> IsNil key' \<Longrightarrow> table_value zero (ns[pos := (key, v)]) key' = table_value zero ns key'"
proof -
  have len: "length ns = 2 ^ k" and pos: "pos < 2 ^ k" "IsNil (fst (ns ! pos))" using inv gap by (simp_all add: table_inv_def gap_for_def)
  have absent: "fst (ns ! j) \<noteq> key" if "j < 2 ^ k" for j using that key(2) len by (metis imageI nth_mem)
  have occ: "\<not> IsNil (fst (ns[pos := (key, v)] ! j))" if "\<not> IsNil (fst (ns ! j))" for j
    using that key(1) by (cases "j = pos") (simp_all add: len pos(1))
  show inv': "table_inv zero k (ns[pos := (key, v)])"
    unfolding table_inv_def
  proof (intro conjI allI impI)
    show "length (ns[pos := (key, v)]) = 2 ^ k" using len by simp
  next
    fix i j assume ij: "i < 2 ^ k" "j < 2 ^ k" "fst (ns[pos := (key, v)] ! i) = fst (ns[pos := (key, v)] ! j)" "\<not> IsNil (fst (ns[pos := (key, v)] ! i))"
    consider "i = pos" "j = pos" | "i = pos" "j \<noteq> pos" | "i \<noteq> pos" "j = pos" | "i \<noteq> pos" "j \<noteq> pos" by blast
    then show "i = j"
    proof cases
      case 4
      then show ?thesis using ij inv unfolding table_inv_def by simp
    qed (use ij absent [of i] absent [of j] pos(1) len in auto)
  next
    fix i assume "i < 2 ^ k" "IsNil (fst (ns[pos := (key, v)] ! i))"
    then show "snd (ns[pos := (key, v)] ! i) = zero" using inv key(1) len pos(1) by (cases "i = pos") (simp_all add: table_inv_def)
  next
    fix i assume i: "i < 2 ^ k" "\<not> IsNil (fst (ns[pos := (key, v)] ! i))"
    show "\<exists>d. (hm_hash (fst (ns[pos := (key, v)] ! i)) + d) mod 2 ^ k = i \<and>
      (\<forall>j<d. \<not> IsNil (fst (ns[pos := (key, v)] ! ((hm_hash (fst (ns[pos := (key, v)] ! i)) + j) mod 2 ^ k))))"
    proof (cases "i = pos")
      case True
      obtain d where "(hm_hash key + d) mod 2 ^ k = pos" "\<forall>j<d. \<not> IsNil (fst (ns ! ((hm_hash key + j) mod 2 ^ k)))"
        using gap unfolding gap_for_def by blast
      then show ?thesis using occ True pos(1) len by (intro exI [of _ d]) simp
    next
      case False
      then have "\<not> IsNil (fst (ns ! i))" using i(2) by simp
      then obtain d where "(hm_hash (fst (ns ! i)) + d) mod 2 ^ k = i" "\<forall>j<d. \<not> IsNil (fst (ns ! ((hm_hash (fst (ns ! i)) + j) mod 2 ^ k)))"
        using table_path [OF inv i(1)] by blast
      then show ?thesis using occ False by (intro exI [of _ d]) simp
    qed
  qed
  have "ns = take pos ns @ ns ! pos # drop (Suc pos) ns" using pos(1) len by (simp add: id_take_nth_drop)
  then have "table_count ns = table_count (take pos ns) + table_count (drop (Suc pos) ns)"
    using pos(2) by (metis (no_types, lifting) filter.simps(2) filter_append length_append table_count_def)
  then show "table_count (ns[pos := (key, v)]) = Suc (table_count ns)"
    using key(1) pos(1) len by (simp add: upd_conv_take_nth_drop table_count_def)
  show "table_value zero (ns[pos := (key, v)]) key' = table_value zero ns key'" if "key' \<noteq> key" "\<not> IsNil key'"
    using table_value_other [OF inv inv', of key'] that pos(2) by auto
qed

lemma assign_inv:
  assumes inv: "table_inv zero k ns" and pos: "pos < 2 ^ k" "\<not> IsNil (fst (ns ! pos))"
  shows "table_inv zero k (ns[pos := (fst (ns ! pos), v)])" "table_count (ns[pos := (fst (ns ! pos), v)]) = table_count ns"
    "\<not> IsNil key' \<Longrightarrow> table_value zero (ns[pos := (fst (ns ! pos), v)]) key' = (if key' = fst (ns ! pos) then v else table_value zero ns key')"
proof -
  let ?ns = "ns[pos := (fst (ns ! pos), v)]"
  have len: "length ns = 2 ^ k" using inv by (simp add: table_inv_def)
  have same: "fst (?ns ! j) = fst (ns ! j)" for j using pos(1) len by (cases "j = pos") simp_all
  show inv': "table_inv zero k ?ns"
  proof -
    have "snd (?ns ! i) = zero" if "i < 2 ^ k" "IsNil (fst (ns ! i))" for i
      using that inv pos(2) by (cases "i = pos") (simp_all add: table_inv_def)
    then show ?thesis using inv unfolding table_inv_def same by simp
  qed
  have "map fst ?ns = map fst ns" by (rule nth_equalityI) (simp_all add: same)
  moreover have "table_count xs = length (filter (\<lambda>h. \<not> IsNil h) (map fst xs))" for xs :: "(Handle \<times> 'a) list"
    by (induction xs) (simp_all add: table_count_def)
  ultimately show "table_count ?ns = table_count ns" by metis
  show "table_value zero ?ns key' = (if key' = fst (ns ! pos) then v else table_value zero ns key')" if "\<not> IsNil key'"
    using table_value_other [OF inv inv' that] table_value_nth [OF inv' pos(1)] pos len by auto
qed

section \<open>Growing\<close>

definition unique_keys :: "(Handle \<times> 'v) list \<Rightarrow> bool" where
  "unique_keys xs \<longleftrightarrow> (\<forall>i<length xs. \<forall>j<length xs. fst (xs ! i) = fst (xs ! j) \<longrightarrow> \<not> IsNil (fst (xs ! i)) \<longrightarrow> i = j)"

lemma unique_keys_Cons:
  assumes "unique_keys (n # ns)"
  shows "unique_keys ns" "\<not> IsNil (fst n) \<Longrightarrow> fst n \<notin> fst ` set ns"
proof -
  show "unique_keys ns" unfolding unique_keys_def
  proof (intro allI impI)
    fix i j assume "i < length ns" "j < length ns" "fst (ns ! i) = fst (ns ! j)" "\<not> IsNil (fst (ns ! i))"
    then show "i = j" using assms [unfolded unique_keys_def, rule_format, of "Suc i" "Suc j"] by simp
  qed
  assume nil: "\<not> IsNil (fst n)"
  show "fst n \<notin> fst ` set ns"
  proof
    assume "fst n \<in> fst ` set ns"
    then obtain j where "j < length ns" "fst (ns ! j) = fst n" by (auto simp: in_set_conv_nth)
    then show False using assms [unfolded unique_keys_def, rule_format, of 0 "Suc j"] nil by simp
  qed
qed

lemma reserve_loop_spec:
  assumes "table_inv zero k ns" "table_count ns + table_count xs \<le> 2 ^ k" "unique_keys xs" "fst ` set xs \<inter> fst ` set ns \<subseteq> {Handle_nil}"
  shows "\<exists>ns'. reserve_loop xs (2 ^ k - 1) ns = Some ns' \<and> table_inv zero k ns' \<and> table_count ns' = table_count ns + table_count xs \<and>
    fst ` set ns' \<subseteq> fst ` set xs \<union> fst ` set ns \<and> (\<forall>key. \<not> IsNil key \<longrightarrow> table_value zero ns' key = (case map_of xs key of Some v \<Rightarrow> v | None \<Rightarrow> table_value zero ns key))"
  using assms
proof (induction xs arbitrary: ns)
  case Nil
  then show ?case by (simp add: table_count_def)
next
  case (Cons n xs)
  note u = unique_keys_Cons [OF Cons.prems(3)]
  show ?case
  proof (cases "IsNil (fst n)")
    case True
    have ne: "key \<noteq> fst n" if "\<not> IsNil key" for key using that True by auto
    have c: "table_count (n # xs) = table_count xs" using True by (simp add: table_count_def)
    have pre: "table_count ns + table_count xs \<le> 2 ^ k" "fst ` set xs \<inter> fst ` set ns \<subseteq> {Handle_nil}" using c Cons.prems(2,4) by auto
    from Cons.IH [OF Cons.prems(1) pre(1) u(1) pre(2)]
    obtain ns' where ns': "reserve_loop xs (2 ^ k - 1) ns = Some ns'" "table_inv zero k ns'" "table_count ns' = table_count ns + table_count xs"
      "fst ` set ns' \<subseteq> fst ` set xs \<union> fst ` set ns"
      "\<forall>key. \<not> IsNil key \<longrightarrow> table_value zero ns' key = (case map_of xs key of Some v \<Rightarrow> v | None \<Rightarrow> table_value zero ns key)"
      by blast
    have "map_of (n # xs) key = map_of xs key" if "\<not> IsNil key" for key using ne [OF that] by (cases n) auto
    with ns'(5) have "\<forall>key. \<not> IsNil key \<longrightarrow> table_value zero ns' key = (case map_of (n # xs) key of Some v \<Rightarrow> v | None \<Rightarrow> table_value zero ns key)"
      by presburger
    moreover have "reserve_loop (n # xs) (2 ^ k - 1) ns = Some ns'" using ns'(1) True by simp
    moreover have "fst ` set ns' \<subseteq> fst ` set (n # xs) \<union> fst ` set ns" using ns'(4) by auto
    ultimately show ?thesis using ns'(2,3) c by metis
  next
    case False
    have c: "table_count (n # xs) = Suc (table_count xs)" using False by (simp add: table_count_def)
    have len: "length ns = 2 ^ k" using Cons.prems(1) by (simp add: table_inv_def)
    have "table_count ns < 2 ^ k" using Cons.prems(2) c by simp
    then obtain pos where pos: "hm_probe IsNil ns (2 ^ k - 1) (hm_hash (fst n) AND (2 ^ k - 1)) = Some pos" "gap_for k ns (fst n) pos"
      by (rule find_gap [OF len])
    have new: "fst n \<notin> fst ` set ns" 
    proof
      assume "fst n \<in> fst ` set ns"
      then have "fst n \<in> {Handle_nil}" using Cons.prems(4) by auto
      then show False using False by (simp add: IsNil_def Handle_nil_def)
    qed
    let ?ns = "ns[pos := (fst n, snd n)]"
    note f = fill_gap [OF Cons.prems(1) False new pos(2), where v = "snd n"]
    have sub: "fst ` set ?ns \<subseteq> insert (fst n) (fst ` set ns)"
      using image_mono [OF set_update_subset_insert [of ns pos "(fst n, snd n)"], of fst] by simp
    have disj: "fst ` set xs \<inter> fst ` set ?ns \<subseteq> {Handle_nil}"
    proof
      fix h assume h: "h \<in> fst ` set xs \<inter> fst ` set ?ns"
      then have "h \<noteq> fst n" using u(2) [OF False] by (metis IntD1)
      moreover have "h \<in> insert (fst n) (fst ` set ns)" using h sub by (metis IntD2 subsetD)
      ultimately have "h \<in> fst ` set (n # xs) \<inter> fst ` set ns" using h by simp
      then show "h \<in> {Handle_nil}" using Cons.prems(4) by auto
    qed
    have pre: "table_count ?ns + table_count xs \<le> 2 ^ k" using f(2) Cons.prems(2) c by simp
    from Cons.IH [OF f(1) pre u(1) disj] obtain ns' where ns': "reserve_loop xs (2 ^ k - 1) ?ns = Some ns'" "table_inv zero k ns'"
      "table_count ns' = table_count ?ns + table_count xs" "fst ` set ns' \<subseteq> fst ` set xs \<union> fst ` set ?ns"
      "\<forall>key. \<not> IsNil key \<longrightarrow> table_value zero ns' key = (case map_of xs key of Some v \<Rightarrow> v | None \<Rightarrow> table_value zero ?ns key)"
      by blast
    have at: "fst (?ns ! pos) = fst n" "snd (?ns ! pos) = snd n" using pos(2) len by (simp_all add: gap_for_def)
    have "table_value zero ?ns (fst n) = snd n"
      using table_value_nth [OF f(1), of pos] at False pos(2) by (simp add: gap_for_def)
    moreover have "map_of xs (fst n) = None" using u(2) [OF False] by (simp add: map_of_eq_None_iff)
    ultimately have "\<forall>key. \<not> IsNil key \<longrightarrow> table_value zero ns' key = (case map_of (n # xs) key of Some v \<Rightarrow> v | None \<Rightarrow> table_value zero ns key)"
    proof (intro allI impI)
      fix key assume k: "\<not> IsNil key"
      assume "table_value zero ?ns (fst n) = snd n" "map_of xs (fst n) = None"
      then show "table_value zero ns' key = (case map_of (n # xs) key of Some v \<Rightarrow> v | None \<Rightarrow> table_value zero ns key)"
        using ns'(5) k f(3) [of key] by (cases "key = fst n"; cases n) (simp_all split: option.split)
    qed
    moreover have "fst ` set ns' \<subseteq> fst ` set (n # xs) \<union> fst ` set ns"
      using ns'(4) sub by auto
    moreover have "reserve_loop (n # xs) (2 ^ k - 1) ns = Some ns'" using ns'(1) pos(1) False by simp
    moreover have "table_count ns' = table_count ns + table_count (n # xs)" using ns'(3) f(2) c by simp
    ultimately show ?thesis using ns'(2) by blast
  qed
qed

section \<open>The map as a function\<close>

definition hm_inv :: "'v \<Rightarrow> 'v handle_map \<Rightarrow> bool" where
  "hm_inv zero m \<longleftrightarrow> (\<exists>k. 0 < k \<and> table_inv zero k (hm_nodes m) \<and> hm_mask m = 2 ^ k - 1 \<and> hm_capacity m = 2 ^ k div 2 \<and>
     hm_size m = table_count (hm_nodes m) \<and> hm_size m \<le> hm_capacity m)"

definition hm_get :: "'v \<Rightarrow> 'v handle_map \<Rightarrow> Handle \<Rightarrow> 'v" where
  "hm_get zero m key = table_value zero (hm_nodes m) key"

lemma table_inv_allocate: "table_inv zero k (hm_allocate zero (2 ^ k))"
  by (simp add: table_inv_def hm_allocate_def IsNil_def Handle_nil_def)

lemma handle_map_init_spec:
  assumes "0 < k"
  shows "hm_inv zero (handle_map_init zero (2 ^ k))" "\<not> IsNil key \<Longrightarrow> hm_get zero (handle_map_init zero (2 ^ k)) key = zero"
proof -
  show "hm_inv zero (handle_map_init zero (2 ^ k))"
    using assms table_inv_allocate [of zero k]
    by (auto simp: hm_inv_def handle_map_init_def table_count_def hm_allocate_def IsNil_def Handle_nil_def)
  assume "\<not> IsNil key"
  then have "key \<notin> fst ` set (hm_allocate zero (2 ^ k))" by (auto simp: hm_allocate_def IsNil_def Handle_nil_def)
  then show "hm_get zero (handle_map_init zero (2 ^ k)) key = zero"
    by (simp add: hm_get_def handle_map_init_def table_value_absent)
qed

lemma hm_reserve_spec:
  assumes "table_inv zero k (hm_nodes m)" "hm_size m = table_count (hm_nodes m)" "hm_size m = 2 ^ k div 2" "0 < k"
  obtains m' where "hm_reserve zero (2 ^ k * 2) m = Some m'" "table_inv zero (Suc k) (hm_nodes m')" "hm_mask m' = 2 ^ Suc k - 1"
    "hm_capacity m' = 2 ^ Suc k div 2" "hm_size m' = hm_size m" "table_count (hm_nodes m') = hm_size m"
    "\<And>key. \<not> IsNil key \<Longrightarrow> hm_get zero m' key = hm_get zero m key" "fst ` set (hm_nodes m') - {Handle_nil} \<subseteq> fst ` set (hm_nodes m)"
proof -
  let ?new = "hm_allocate zero (2 ^ Suc k)"
  have u: "unique_keys (hm_nodes m)" using assms(1) by (simp add: table_inv_def unique_keys_def)
  have c: "table_count ?new = 0" "fst ` set ?new \<subseteq> {Handle_nil}" by (auto simp: table_count_def hm_allocate_def IsNil_def Handle_nil_def)
  then have pre: "table_count ?new + table_count (hm_nodes m) \<le> 2 ^ Suc k" "fst ` set (hm_nodes m) \<inter> fst ` set ?new \<subseteq> {Handle_nil}"
    using assms(2,3) by auto
  obtain ns' where ns': "reserve_loop (hm_nodes m) (2 ^ Suc k - 1) ?new = Some ns'" "table_inv zero (Suc k) ns'"
    "table_count ns' = table_count ?new + table_count (hm_nodes m)" "fst ` set ns' \<subseteq> fst ` set (hm_nodes m) \<union> fst ` set ?new"
    "\<forall>key. \<not> IsNil key \<longrightarrow> table_value zero ns' key = (case map_of (hm_nodes m) key of Some v \<Rightarrow> v | None \<Rightarrow> table_value zero ?new key)"
    using reserve_loop_spec [OF table_inv_allocate pre(1) u pre(2)] by blast
  let ?m = "m\<lparr>hm_nodes := ns', hm_mask := 2 ^ Suc k - 1, hm_capacity := 2 ^ Suc k div 2\<rparr>"
  show thesis
  proof (rule that [of ?m])
    show "hm_reserve zero (2 ^ k * 2) m = Some ?m" using ns'(1) by (simp add: hm_reserve_def mult.commute)
    show "fst ` set (hm_nodes ?m) - {Handle_nil} \<subseteq> fst ` set (hm_nodes m)" using ns'(4) c(2) by auto
    fix key assume "\<not> IsNil key"
    then have "table_value zero ?new key = zero" using c(2) by (intro table_value_absent) (auto simp: IsNil_def Handle_nil_def)
    then show "hm_get zero ?m key = hm_get zero m key"
      using ns'(5) \<open>\<not> IsNil key\<close> by (simp add: hm_get_def table_value_def [of zero "hm_nodes m"] split: option.split)
  qed (use ns' c assms in simp_all)
qed

lemma hm_take_spec:
  assumes "table_inv zero k (hm_nodes m)" "\<not> IsNil key" "key \<notin> fst ` set (hm_nodes m)" "gap_for k (hm_nodes m) key pos"
    and "0 < k" "hm_mask m = 2 ^ k - 1" "hm_capacity m = 2 ^ k div 2" "hm_size m = table_count (hm_nodes m)" "hm_size m < hm_capacity m"
  shows "hm_inv zero (hm_take key pos m)" "pos < length (hm_nodes (hm_take key pos m))" "fst (hm_nodes (hm_take key pos m) ! pos) = key"
    "\<not> IsNil key' \<Longrightarrow> hm_get zero (hm_take key pos m) key' = hm_get zero m key'"
proof -
  have pos: "pos < 2 ^ k" "length (hm_nodes m) = 2 ^ k" "snd (hm_nodes m ! pos) = zero" using assms(1,4) by (simp_all add: gap_for_def table_inv_def)
  note f = fill_gap [OF assms(1-4), where v = zero]
  show "pos < length (hm_nodes (hm_take key pos m))" "fst (hm_nodes (hm_take key pos m) ! pos) = key" using pos by (simp_all add: hm_take_def)
  show "hm_inv zero (hm_take key pos m)"
    unfolding hm_inv_def using f(1,2) pos(3) assms(5-9) by (intro exI [of _ k]) (simp add: hm_take_def)
  have "table_value zero ((hm_nodes m)[pos := (key, zero)]) key = zero"
    using table_value_nth [OF f(1), of pos] pos assms(2) by simp
  then show "hm_get zero (hm_take key pos m) key' = hm_get zero m key'" if "\<not> IsNil key'"
    using f(3) that pos(3) table_value_absent [OF assms(3)] by (cases "key' = key") (simp_all add: hm_take_def hm_get_def)
qed

lemma hm_at_spec:
  assumes "hm_inv zero m" "\<not> IsNil key"
  obtains pos m' where "hm_at zero key m = Some (pos, m')" "hm_inv zero m'" "pos < length (hm_nodes m')" "fst (hm_nodes m' ! pos) = key"
    "\<And>key'. \<not> IsNil key' \<Longrightarrow> hm_get zero m' key' = hm_get zero m key'"
proof -
  obtain k where k: "0 < k" "table_inv zero k (hm_nodes m)" "hm_mask m = 2 ^ k - 1" "hm_capacity m = 2 ^ k div 2"
    "hm_size m = table_count (hm_nodes m)" "hm_size m \<le> hm_capacity m"
    using assms(1) by (auto simp: hm_inv_def)
  have len: "length (hm_nodes m) = 2 ^ k" using k(2) by (simp add: table_inv_def)
  have "(2::nat) ^ k div 2 < 2 ^ k" by simp
  then have "table_count (hm_nodes m) < 2 ^ k" using k(4-6) by linarith
  then obtain pos where pos: "hm_probe (\<lambda>k. k = key \<or> IsNil k) (hm_nodes m) (2 ^ k - 1) (hm_hash key AND (2 ^ k - 1)) = Some pos" "pos < 2 ^ k"
    "fst (hm_nodes m ! pos) = key \<or> key \<notin> fst ` set (hm_nodes m) \<and> gap_for k (hm_nodes m) key pos"
    by (rule find_key [OF k(2) _ assms(2)])
  show thesis
  proof (cases "fst (hm_nodes m ! pos) = key")
    case True
    show ?thesis by (rule that [of pos m]) (use True pos assms k(3) len in \<open>simp_all add: hm_at_def\<close>)
  next
    case False
    then have gap: "key \<notin> fst ` set (hm_nodes m)" "gap_for k (hm_nodes m) key pos" using pos(3) by simp_all
    show ?thesis
    proof (cases "hm_size m < hm_capacity m")
      case True
      note t = hm_take_spec [OF k(2) assms(2) gap k(1,3-5) True]
      show ?thesis by (rule that [of pos "hm_take key pos m"]) (use False True pos assms k(3) t in \<open>simp_all add: hm_at_def\<close>)
    next
      case full: False
      then have half: "hm_size m = 2 ^ k div 2" using k(4,6) by simp
      obtain m1 where m1: "hm_reserve zero (2 ^ k * 2) m = Some m1" "table_inv zero (Suc k) (hm_nodes m1)" "hm_mask m1 = 2 ^ Suc k - 1"
        "hm_capacity m1 = 2 ^ Suc k div 2" "hm_size m1 = hm_size m" "table_count (hm_nodes m1) = hm_size m"
        "\<And>key. \<not> IsNil key \<Longrightarrow> hm_get zero m1 key = hm_get zero m key" "fst ` set (hm_nodes m1) - {Handle_nil} \<subseteq> fst ` set (hm_nodes m)"
        by (rule hm_reserve_spec [OF k(2,5) half k(1)]) auto
      have new: "key \<notin> fst ` set (hm_nodes m1)" using m1(8) gap(1) assms(2) by (auto simp: IsNil_def Handle_nil_def)
      have "hm_size m < 2 ^ k" using half by simp
      then have room: "table_count (hm_nodes m1) < 2 ^ Suc k" "hm_size m1 < hm_capacity m1" "hm_size m1 = table_count (hm_nodes m1)"
        using m1(4-6) by simp_all
      have len1: "length (hm_nodes m1) = 2 ^ Suc k" using m1(2) by (simp add: table_inv_def)
      obtain p where p: "hm_probe IsNil (hm_nodes m1) (2 ^ Suc k - 1) (hm_hash key AND (2 ^ Suc k - 1)) = Some p" "gap_for (Suc k) (hm_nodes m1) key p"
        by (rule find_gap [OF len1 room(1)])
      note t = hm_take_spec [OF m1(2) assms(2) new p(2) zero_less_Suc m1(3,4) room(3,2)]
      show ?thesis
        by (rule that [of p "hm_take key p m1"]) (use False full pos assms k(3) len m1 p t in \<open>simp_all add: hm_at_def hm_insert_def\<close>)
    qed
  qed
qed

lemma hm_contains_spec:
  assumes "key \<in> fst ` set (hm_nodes m)" "hm_inv zero m" "\<not> IsNil key"
  shows "hm_contains key m = Some True"
proof -
  obtain k where k: "table_inv zero k (hm_nodes m)" "hm_mask m = 2 ^ k - 1" "table_count (hm_nodes m) \<le> 2 ^ k div 2"
    using assms(2) by (auto simp: hm_inv_def)
  have "table_count (hm_nodes m) < 2 ^ k" using k(3) by (rule le_less_trans) simp
  then obtain pos where "hm_probe (\<lambda>k. k = key \<or> IsNil k) (hm_nodes m) (2 ^ k - 1) (hm_hash key AND (2 ^ k - 1)) = Some pos"
    "fst (hm_nodes m ! pos) = key \<or> key \<notin> fst ` set (hm_nodes m) \<and> gap_for k (hm_nodes m) key pos"
    by (rule find_key [OF k(1) _ assms(3)])
  then show ?thesis using assms(1) k(2) by (simp add: hm_contains_def)
qed

lemma hm_assign_spec:
  assumes "hm_inv zero m" "pos < length (hm_nodes m)" "\<not> IsNil (fst (hm_nodes m ! pos))"
  shows "hm_inv zero (hm_assign pos v m)" "hm_value_at pos m = hm_get zero m (fst (hm_nodes m ! pos))"
    "\<not> IsNil key' \<Longrightarrow> hm_get zero (hm_assign pos v m) key' = (if key' = fst (hm_nodes m ! pos) then v else hm_get zero m key')"
proof -
  obtain k where k: "0 < k" "table_inv zero k (hm_nodes m)" "hm_mask m = 2 ^ k - 1" "hm_capacity m = 2 ^ k div 2"
    "hm_size m = table_count (hm_nodes m)" "hm_size m \<le> hm_capacity m"
    using assms(1) by (auto simp: hm_inv_def)
  have pos: "pos < 2 ^ k" using k(2) assms(2) by (simp add: table_inv_def)
  note a = assign_inv [OF k(2) pos assms(3), where v = v]
  show "hm_inv zero (hm_assign pos v m)" unfolding hm_inv_def using k a(1,2) by (intro exI [of _ k]) (simp add: hm_assign_def)
  show "hm_value_at pos m = hm_get zero m (fst (hm_nodes m ! pos))"
    using table_value_nth [OF k(2) pos assms(3)] by (simp add: hm_value_at_def hm_get_def)
  show "hm_get zero (hm_assign pos v m) key' = (if key' = fst (hm_nodes m ! pos) then v else hm_get zero m key')" if "\<not> IsNil key'"
    using a(3) that by (simp add: hm_assign_def hm_get_def)
qed

section \<open>Properties\<close>

text \<open>
  C14: The handle map is a map. In a valid map \<^verbatim>\<open>operator []\<close> terminates for every key but nil and refers to the value last assigned
  to the key, or zero; assigning through the reference changes the value of this key only, also when the table has grown,
  and \<^verbatim>\<open>contains\<close> terminates.
\<close>

theorem handle_map_update:
  assumes "hm_inv zero m" "\<not> IsNil key"
  shows "\<exists>pos m'. hm_at zero key m = Some (pos, m') \<and> hm_value_at pos m' = hm_get zero m key \<and> hm_inv zero (hm_assign pos v m') \<and>
    (\<forall>key'. \<not> IsNil key' \<longrightarrow> hm_get zero (hm_assign pos v m') key' = (if key' = key then v else hm_get zero m key')) \<and>
    hm_contains key (hm_assign pos v m') = Some True"
proof -
  obtain pos m' where at: "hm_at zero key m = Some (pos, m')" "hm_inv zero m'" "pos < length (hm_nodes m')" "fst (hm_nodes m' ! pos) = key"
    "\<And>key'. \<not> IsNil key' \<Longrightarrow> hm_get zero m' key' = hm_get zero m key'"
    by (rule hm_at_spec [OF assms]) blast
  have ne: "\<not> IsNil (fst (hm_nodes m' ! pos))" using at(4) assms(2) by simp
  note a = hm_assign_spec(1,3) [OF at(2,3) ne, where v = v] hm_assign_spec(2) [OF at(2,3) ne]
  have "key \<in> fst ` set (hm_nodes (hm_assign pos v m'))"
    using at(3,4) by (auto simp: hm_assign_def image_iff intro!: bexI [of _ "(key, v)"] set_update_memI)
  then have "hm_contains key (hm_assign pos v m') = Some True" using a(1) assms(2) by (rule hm_contains_spec)
  then show ?thesis using at a assms(2) by (intro exI [of _ pos] exI [of _ m']) simp
qed

theorem handle_map_update_witness:
  "\<exists>pos m'. hm_at (0::nat) (Handle 5) (handle_map_init 0 2) = Some (pos, m') \<and> hm_value_at pos m' = 0 \<and>
    hm_get 0 (hm_assign pos 7 m') (Handle 5) = 7 \<and> hm_get 0 (hm_assign pos 7 m') (Handle 9) = 0"
proof -
  have n: "\<not> IsNil (Handle 5)" "\<not> IsNil (Handle 9)" by (simp_all add: IsNil_def)
  have "hm_inv (0::nat) (handle_map_init 0 2)" using handle_map_init_spec(1) [of 1 "0::nat"] by simp
  from handle_map_update [OF this n(1), of 7] show ?thesis using handle_map_init_spec(2) [of 1 _ "0::nat"] n by force
qed

end
