(* ===== verification/Frame_Encoder.thy ===== *)
theory Frame_Encoder
  imports Output_Streams Frame_Symbols Handle_Map
begin

text \<open>
  The binary encoder of frames (\<^verbatim>\<open>sling/frame/encoder.h\<close>, \<^verbatim>\<open>sling/frame/encoder.cc\<close>, \<^verbatim>\<open>sling/frame/wire.h\<close>). The
  encoder walks over the objects of a store and writes each of them once; a later occurrence is a reference
  to the number of the object in the output. The recursion between objects and links is tied by a partial function, whose loops
  take the recursive call as an argument.
\<close>

section \<open>The wire format\<close>

definition WIRE_REF :: uint64 where "WIRE_REF = 0"
definition WIRE_FRAME :: uint64 where "WIRE_FRAME = 1"
definition WIRE_STRING :: uint64 where "WIRE_STRING = 2"
definition WIRE_SYMBOL :: uint64 where "WIRE_SYMBOL = 3"
definition WIRE_LINK :: uint64 where "WIRE_LINK = 4"
definition WIRE_INTEGER :: uint64 where "WIRE_INTEGER = 5"
definition WIRE_FLOAT :: uint64 where "WIRE_FLOAT = 6"
definition WIRE_SPECIAL :: uint64 where "WIRE_SPECIAL = 7"

definition WIRE_NIL :: uint64 where "WIRE_NIL = 1"
definition WIRE_ID :: uint64 where "WIRE_ID = 2"
definition WIRE_ISA :: uint64 where "WIRE_ISA = 3"
definition WIRE_IS :: uint64 where "WIRE_IS = 4"
definition WIRE_ARRAY :: uint64 where "WIRE_ARRAY = 5"
definition WIRE_INDEX :: uint64 where "WIRE_INDEX = 6"
definition WIRE_RESOLVE :: uint64 where "WIRE_RESOLVE = 7"
definition WIRE_QSTRING :: uint64 where "WIRE_QSTRING = 8"
definition WIRE_NAME :: uint64 where "WIRE_NAME = 9"

definition WIRE_BINARY_MARKER :: byte where "WIRE_BINARY_MARKER = 0"

section \<open>The encoder\<close>

datatype EncoderStatus = UNRESOLVED | LINKED | ENCODED | SPECIAL

text \<open>The index of a reference has 30 bits.\<close>

record EncoderReference =
  ref_status :: EncoderStatus
  ref_index :: nat

record 's Encoder =
  enc_store :: Store
  enc_output :: "'s Output"
  enc_references :: "EncoderReference handle_map"
  enc_next_index :: nat
  enc_shallow :: bool
  enc_global :: bool

definition no_reference :: EncoderReference where
  "no_reference = \<lparr>ref_status = UNRESOLVED, ref_index = 0\<rparr>"

text \<open>The output after a write that has succeeded; a failing write aborts.\<close>

definition written_to :: "'s Output outcome option \<Rightarrow> 's Encoder \<Rightarrow> 's Encoder option" where
  "written_to r enc = (case r of Some (Done out) \<Rightarrow> Some (enc\<lparr>enc_output := out\<rparr>) | _ \<Rightarrow> None)"

definition enc_write_bytes :: "'s OutputStream \<Rightarrow> byte list \<Rightarrow> 's Encoder \<Rightarrow> 's Encoder option" where
  "enc_write_bytes vt bs enc = written_to (Output_Write vt bs (enc_output enc)) enc"

definition enc_write_varint32 :: "'s OutputStream \<Rightarrow> nat \<Rightarrow> 's Encoder \<Rightarrow> 's Encoder option" where
  "enc_write_varint32 vt n enc = written_to (Output_WriteVarint32 vt (of_nat n) (enc_output enc)) enc"

definition WriteTag :: "'s OutputStream \<Rightarrow> uint64 \<Rightarrow> uint64 \<Rightarrow> 's Encoder \<Rightarrow> 's Encoder option" where
  "WriteTag vt wire arg enc = written_to (Output_WriteVarint64 vt (wire OR push_bit 3 arg) (enc_output enc)) enc"

definition WriteReference :: "'s OutputStream \<Rightarrow> EncoderReference \<Rightarrow> 's Encoder \<Rightarrow> 's Encoder option" where
  "WriteReference vt ref enc =
     (if ref_status ref = SPECIAL then WriteTag vt WIRE_SPECIAL (of_nat (ref_index ref)) enc
      else WriteTag vt WIRE_REF (of_nat (ref_index ref)) enc)"

definition EncodeSymbol :: "'s OutputStream \<Rightarrow> byte list \<Rightarrow> uint64 \<Rightarrow> 's Encoder \<Rightarrow> 's Encoder option" where
  "EncodeSymbol vt name wire enc = do {
     enc \<leftarrow> WriteTag vt wire (of_nat (length name)) enc;
     enc_write_bytes vt name enc
   }"

text \<open>\<^verbatim>\<open>references_[handle]\<close> and the assignment of a new reference number.\<close>

definition find_reference :: "Handle \<Rightarrow> 's Encoder \<Rightarrow> (nat \<times> EncoderReference \<times> 's Encoder) option" where
  "find_reference h enc = do {
     (pos, m) \<leftarrow> hm_at no_reference h (enc_references enc);
     Some (pos, hm_value_at pos m, enc\<lparr>enc_references := m\<rparr>)
   }"

definition set_reference :: "nat \<Rightarrow> EncoderReference \<Rightarrow> 's Encoder \<Rightarrow> 's Encoder" where
  "set_reference pos ref enc = enc\<lparr>enc_references := hm_assign pos ref (enc_references enc)\<rparr>"

definition new_reference :: "nat \<Rightarrow> EncoderStatus \<Rightarrow> 's Encoder \<Rightarrow> 's Encoder" where
  "new_reference pos status enc =
     (set_reference pos \<lparr>ref_status = status, ref_index = enc_next_index enc mod 2 ^ 30\<rparr> enc)\<lparr>enc_next_index := enc_next_index enc + 1\<rparr>"

definition add_special :: "Handle \<Rightarrow> uint64 \<Rightarrow> 's Encoder \<Rightarrow> 's Encoder option" where
  "add_special h index enc = do {
     (pos, _, enc) \<leftarrow> find_reference h enc;
     Some (set_reference pos \<lparr>ref_status = SPECIAL, ref_index = unat index\<rparr> enc)
   }"

definition Encoder_init :: "'s OutputStream \<Rightarrow> Store \<Rightarrow> 's Output \<Rightarrow> bool \<Rightarrow> 's Encoder option" where
  "Encoder_init vt st out marker = do {
     let enc = \<lparr>enc_store = st, enc_output = out, enc_references = handle_map_init no_reference 1024, enc_next_index = 0,
       enc_shallow = True, enc_global = (globals st = None)\<rparr>;
     enc \<leftarrow> add_special Handle_id WIRE_ID enc;
     enc \<leftarrow> add_special Handle_isa WIRE_ISA enc;
     enc \<leftarrow> add_special Handle_is WIRE_IS enc;
     enc \<leftarrow> add_special Handle_name WIRE_NAME enc;
     if marker then written_to (Output_WriteChar vt WIRE_BINARY_MARKER (enc_output enc)) enc else Some enc
   }"

text \<open>The symbol that stands for an object in a link, or nil.\<close>

definition link_symbol :: "Store \<Rightarrow> bool \<Rightarrow> bool \<Rightarrow> Handle \<Rightarrow> Handle option" where
  "link_symbol st shallow global h =
     (if IsRef h \<and> \<not> IsNil h
      then case Deref st h of
             None \<Rightarrow> None
           | Some d \<Rightarrow>
               (case d_body d of
                  FrameBody proxy public slots \<Rightarrow>
                    Some (if proxy then snd (hd slots)
                          else if public \<and> (shallow \<or> \<not> global \<and> IsGlobalRef h) then frame_get slots Handle_id
                          else Handle_nil)
                | _ \<Rightarrow> Some Handle_nil)
      else Some Handle_nil)"

definition EncodeLink ::
  "(Handle \<Rightarrow> 's Encoder \<Rightarrow> 's Encoder option) \<Rightarrow> 's OutputStream \<Rightarrow> Handle \<Rightarrow> 's Encoder \<Rightarrow> 's Encoder option" where
  "EncodeLink object vt h enc = do {
     link \<leftarrow> link_symbol (enc_store enc) (enc_shallow enc) (enc_global enc) h;
     if IsNil link then object h enc
     else do {
       (pos, ref, enc) \<leftarrow> find_reference h enc;
       if ref_status ref = UNRESOLVED
       then do {
         d \<leftarrow> GetSymbol (enc_store enc) link;
         EncodeSymbol vt (sym_name (d_body d)) WIRE_LINK (new_reference pos LINKED enc)
       }
       else WriteReference vt ref enc
     }
   }"

fun encode_slots ::
  "(Handle \<Rightarrow> 's Encoder \<Rightarrow> 's Encoder option) \<Rightarrow> 's OutputStream \<Rightarrow> slot list \<Rightarrow> 's Encoder \<Rightarrow> 's Encoder option" where
  "encode_slots object vt [] enc = Some enc"
| "encode_slots object vt ((name, val) # slots) enc = do {
     enc \<leftarrow> EncodeLink object vt name enc;
     enc \<leftarrow> EncodeLink object vt val enc;
     encode_slots object vt slots enc
   }"

fun encode_elements ::
  "(Handle \<Rightarrow> 's Encoder \<Rightarrow> 's Encoder option) \<Rightarrow> 's OutputStream \<Rightarrow> Handle list \<Rightarrow> 's Encoder \<Rightarrow> 's Encoder option" where
  "encode_elements object vt [] enc = Some enc"
| "encode_elements object vt (e # es) enc = do {
     enc \<leftarrow> EncodeLink object vt e enc;
     encode_elements object vt es enc
   }"

lemma EncodeLink_mono [partial_function_mono]:
  assumes "\<And>h enc. mono_option (\<lambda>f. object f h enc)"
  shows "mono_option (\<lambda>f. EncodeLink (object f) vt h enc)"
  unfolding EncodeLink_def Let_def by (intro partial_function_mono assms)

lemma encode_slots_mono [partial_function_mono]:
  assumes "\<And>h enc. mono_option (\<lambda>f. object f h enc)"
  shows "mono_option (\<lambda>f. encode_slots (object f) vt slots enc)"
proof (induction slots arbitrary: enc)
  case (Cons s slots)
  then show ?case by (cases s) (simp, intro partial_function_mono assms)
qed (simp, intro partial_function_mono)

lemma encode_elements_mono [partial_function_mono]:
  assumes "\<And>h enc. mono_option (\<lambda>f. object f h enc)"
  shows "mono_option (\<lambda>f. encode_elements (object f) vt es enc)"
proof (induction es arbitrary: enc)
  case (Cons e es)
  then show ?case by (simp, intro partial_function_mono assms)
qed (simp, intro partial_function_mono)

text \<open>
  \<^verbatim>\<open>EncodeObject\<close>. A frame that is linked already is encoded as a resolution of the link, unless it
  is a proxy.
\<close>

partial_function (option) EncodeObject :: "'s OutputStream \<Rightarrow> Handle \<Rightarrow> 's Encoder \<Rightarrow> 's Encoder option" where
  "EncodeObject vt h enc =
     (if IsNil h then WriteTag vt WIRE_SPECIAL WIRE_NIL enc
      else if IsRef h
      then do {
        (pos, ref, enc) \<leftarrow> find_reference h enc;
        if ref_status ref = ENCODED \<or> ref_status ref = SPECIAL then WriteReference vt ref enc
        else do {
          d \<leftarrow> Deref (enc_store enc) h;
          if ref_status ref = LINKED
          then (case d_body d of
              FrameBody proxy _ slots \<Rightarrow>
                if proxy then WriteReference vt ref enc
                else do {
                  enc \<leftarrow> WriteTag vt WIRE_SPECIAL WIRE_RESOLVE (set_reference pos (ref\<lparr>ref_status := ENCODED\<rparr>) enc);
                  enc \<leftarrow> enc_write_varint32 vt (length slots) enc;
                  enc \<leftarrow> enc_write_varint32 vt (ref_index ref) enc;
                  encode_slots (\<lambda>h enc. EncodeObject vt h enc) vt slots enc
                }
            | _ \<Rightarrow> None)
          else (case d_body d of
              StringBody str \<Rightarrow> do {
                enc \<leftarrow> WriteTag vt WIRE_STRING (of_nat (length str)) (new_reference pos ENCODED enc);
                enc_write_bytes vt str enc
              }
            | QStringBody str qual \<Rightarrow> do {
                enc \<leftarrow> WriteTag vt WIRE_SPECIAL WIRE_QSTRING (new_reference pos ENCODED enc);
                enc \<leftarrow> enc_write_varint32 vt (length str) enc;
                enc \<leftarrow> enc_write_bytes vt str enc;
                EncodeLink (\<lambda>h enc. EncodeObject vt h enc) vt qual enc
              }
            | FrameBody proxy _ slots \<Rightarrow>
                if proxy
                then do {
                  s \<leftarrow> GetSymbol (enc_store enc) (snd (hd slots));
                  EncodeSymbol vt (sym_name (d_body s)) WIRE_LINK (new_reference pos LINKED enc)
                }
                else do {
                  enc \<leftarrow> WriteTag vt WIRE_FRAME (of_nat (length slots)) (new_reference pos ENCODED enc);
                  encode_slots (\<lambda>h enc. EncodeObject vt h enc) vt slots enc
                }
            | SymbolBody _ _ _ name \<Rightarrow> EncodeSymbol vt name WIRE_SYMBOL (new_reference pos ENCODED enc)
            | ArrayBody es \<Rightarrow> do {
                enc \<leftarrow> WriteTag vt WIRE_SPECIAL WIRE_ARRAY (new_reference pos ENCODED enc);
                enc \<leftarrow> enc_write_varint32 vt (length es) enc;
                encode_elements (\<lambda>h enc. EncodeObject vt h enc) vt es enc
              }
            | Remainder _ _ \<Rightarrow> None)
        }
      }
      else if IsInt h then WriteTag vt WIRE_INTEGER (of_int (AsInt h)) enc
      else if IsIndex h
      then do {
        enc \<leftarrow> WriteTag vt WIRE_SPECIAL WIRE_INDEX enc;
        enc_write_varint32 vt (nat (AsIndex h)) enc
      }
      else if IsFloat h then WriteTag vt WIRE_FLOAT (ucast (FloatBits h)) enc
      else None)"

declare EncodeObject.simps [code]

text \<open>\<^verbatim>\<open>EncodeAll\<close>: the bound symbols of every bucket of the symbol table.\<close>

partial_function (option) encode_bucket :: "'s OutputStream \<Rightarrow> Handle \<Rightarrow> 's Encoder \<Rightarrow> 's Encoder option" where
  "encode_bucket vt h enc =
     (if IsNil h then Some enc
      else do {
        d \<leftarrow> GetSymbol (enc_store enc) h;
        enc \<leftarrow> (if IsNil (sym_value (d_body d)) then Some enc
          else do {
            v \<leftarrow> Deref (enc_store enc) (sym_value (d_body d));
            if IsProxy (d_body v) then Some enc else EncodeObject vt (sym_value (d_body d)) enc
          });
        encode_bucket vt (sym_next (d_body d)) enc
      })"

declare encode_bucket.simps [code]

fun encode_buckets :: "'s OutputStream \<Rightarrow> Handle list \<Rightarrow> 's Encoder \<Rightarrow> 's Encoder option" where
  "encode_buckets vt [] enc = Some enc"
| "encode_buckets vt (h # hs) enc = do { enc \<leftarrow> encode_bucket vt h enc; encode_buckets vt hs enc }"

definition EncodeAll :: "'s OutputStream \<Rightarrow> 's Encoder \<Rightarrow> 's Encoder option" where
  "EncodeAll vt enc = do {
     es \<leftarrow> GetArray (enc_store enc) (symbols (enc_store enc));
     encode_buckets vt es enc
   }"

end
