(* ===== verification/Frame_Decoder.thy ===== *)
theory Frame_Decoder
  imports Input_Streams Frame_Encoder
begin

text \<open>
  The binary decoder of frames (\<^verbatim>\<open>sling/frame/decoder.h\<close>, \<^verbatim>\<open>sling/frame/decoder.cc\<close>). The table of references and the
  stack are tracked by the store, as its first two external ranges, so that a collection keeps the objects in them and
  replacing a handle reaches them. An error of the input is the value \<^verbatim>\<open>Handle::error()\<close>.
\<close>

section \<open>The decoder\<close>

record 's Decoder =
  dec_store :: Store
  dec_input :: "'s Input"
  dec_skip_known_frames :: bool

definition dec_references :: "'s Decoder \<Rightarrow> Handle list" where
  "dec_references dec = externals (dec_store dec) ! 0"

definition dec_stack :: "'s Decoder \<Rightarrow> Handle list" where
  "dec_stack dec = externals (dec_store dec) ! 1"

definition set_references :: "Handle list \<Rightarrow> 's Decoder \<Rightarrow> 's Decoder" where
  "set_references hs dec = dec\<lparr>dec_store := (dec_store dec)\<lparr>externals := (externals (dec_store dec))[0 := hs]\<rparr>\<rparr>"

definition set_stack :: "Handle list \<Rightarrow> 's Decoder \<Rightarrow> 's Decoder" where
  "set_stack hs dec = dec\<lparr>dec_store := (dec_store dec)\<lparr>externals := (externals (dec_store dec))[1 := hs]\<rparr>\<rparr>"

definition push_reference :: "Handle \<Rightarrow> 's Decoder \<Rightarrow> 's Decoder" where
  "push_reference h dec = set_references (dec_references dec @ [h]) dec"

definition Push :: "Handle \<Rightarrow> 's Decoder \<Rightarrow> 's Decoder" where
  "Push h dec = set_stack (dec_stack dec @ [h]) dec"

definition ReplaceTop :: "Handle \<Rightarrow> 's Decoder \<Rightarrow> 's Decoder" where
  "ReplaceTop h dec = set_stack (butlast (dec_stack dec) @ [h]) dec"

definition Release :: "nat \<Rightarrow> 's Decoder \<Rightarrow> 's Decoder" where
  "Release n dec = set_stack (take n (dec_stack dec)) dec"

definition Mark_stack :: "'s Decoder \<Rightarrow> nat" where
  "Mark_stack dec = length (dec_stack dec)"

definition Decoder_Reference :: "nat \<Rightarrow> 's Decoder \<Rightarrow> Handle" where
  "Decoder_Reference index dec = (if length (dec_references dec) \<le> index then Handle_error else dec_references dec ! index)"

definition Decoder_init :: "'s InputStream \<Rightarrow> Store \<Rightarrow> 's Input \<Rightarrow> bool \<Rightarrow> 's Decoder option" where
  "Decoder_init vt st inp marker = do {
     inp \<leftarrow> (if marker
       then do {
         (ch, inp) \<leftarrow> Input_Peek vt inp;
         Some (if ch = uint WIRE_BINARY_MARKER then Input_Skip vt 1 inp else inp)
       }
       else Some inp);
     Some \<lparr>dec_store = st\<lparr>externals := [] # [] # externals st\<rparr>, dec_input = inp, dec_skip_known_frames = False\<rparr>
   }"

text \<open>Reading a varint: a read past the window or an undefined shift has no result.\<close>

definition read_varint32 :: "'s InputStream \<Rightarrow> 's Decoder \<Rightarrow> (uint32 option \<times> 's Decoder) option" where
  "read_varint32 vt dec = do {
     (r, inp) \<leftarrow> Input_ReadVarint32 vt (dec_input dec);
     (case r of
        Value v \<Rightarrow> Some (Some v, dec\<lparr>dec_input := inp\<rparr>)
      | NoValue \<Rightarrow> Some (None, dec\<lparr>dec_input := inp\<rparr>)
      | _ \<Rightarrow> None)
   }"

definition read_varint64 :: "'s InputStream \<Rightarrow> 's Decoder \<Rightarrow> (uint64 option \<times> 's Decoder) option" where
  "read_varint64 vt dec = do {
     (r, inp) \<leftarrow> Input_ReadVarint64 vt (dec_input dec);
     (case r of
        Value v \<Rightarrow> Some (Some v, dec\<lparr>dec_input := inp\<rparr>)
      | NoValue \<Rightarrow> Some (None, dec\<lparr>dec_input := inp\<rparr>)
      | _ \<Rightarrow> None)
   }"

text \<open>
  Reading into a string that was allocated with zeros: the payload of a new string is indeterminate, but it is not
  read before it is filled.
\<close>

definition read_string :: "'s InputStream \<Rightarrow> Handle \<Rightarrow> nat \<Rightarrow> 's Decoder \<Rightarrow> (bool \<times> 's Decoder) option" where
  "read_string vt h len dec = do {
     (ok, data, inp) \<leftarrow> Input_Read vt len (dec_input dec);
     let dec = dec\<lparr>dec_input := inp\<rparr>;
     if ok
     then do {
       st \<leftarrow> modify h (\<lambda>d. case d_body d of
             StringBody _ \<Rightarrow> set_body (StringBody data) d
           | QStringBody _ q \<Rightarrow> set_body (QStringBody data q) d
           | _ \<Rightarrow> d) (dec_store dec);
       Some (True, dec\<lparr>dec_store := st\<rparr>)
     }
     else Some (False, dec)
   }"

definition DecodeString :: "'s InputStream \<Rightarrow> uint32 \<Rightarrow> 's Decoder \<Rightarrow> (Handle \<times> 's Decoder) option" where
  "DecodeString vt len dec = do {
     (h, st) \<leftarrow> AllocateString (replicate (unat len) 0) (dec_store dec);
     (ok, dec) \<leftarrow> read_string vt h (unat len) (dec\<lparr>dec_store := st\<rparr>);
     Some (if ok then h else Handle_error, dec)
   }"

text \<open>
  The name of a symbol is taken from the window or copied. Moving the window back by a negative size is not
  possible.
\<close>

definition read_name :: "'s InputStream \<Rightarrow> uint32 \<Rightarrow> 's Decoder \<Rightarrow> (byte list option \<times> 's Decoder) option" where
  "read_name vt len dec =
     (if sint len < 0 then None
      else case Input_TryRead (unat len) (dec_input dec) of
        (Some data, inp) \<Rightarrow> Some (Some data, dec\<lparr>dec_input := inp\<rparr>)
      | (None, inp) \<Rightarrow> do {
          (ok, data, inp) \<leftarrow> Input_ReadString vt (sint len) [] inp;
          Some (if ok then Some data else None, dec\<lparr>dec_input := inp\<rparr>)
        })"

definition DecodeSymbol :: "'s InputStream \<Rightarrow> uint32 \<Rightarrow> 's Decoder \<Rightarrow> (Handle \<times> 's Decoder) option" where
  "DecodeSymbol vt len dec = do {
     (name, dec) \<leftarrow> read_name vt len dec;
     (case name of
        None \<Rightarrow> Some (Handle_error, dec)
      | Some name \<Rightarrow> do {
          (h, st) \<leftarrow> Store_Symbol name (dec_store dec);
          Some (h, dec\<lparr>dec_store := st\<rparr>)
        })
   }"

definition DecodeLink :: "'s InputStream \<Rightarrow> uint32 \<Rightarrow> 's Decoder \<Rightarrow> (Handle \<times> 's Decoder) option" where
  "DecodeLink vt len dec = do {
     (name, dec) \<leftarrow> read_name vt len dec;
     (case name of
        None \<Rightarrow> Some (Handle_error, dec)
      | Some name \<Rightarrow> do {
          (h, st) \<leftarrow> Store_Lookup name (dec_store dec);
          Some (h, dec\<lparr>dec_store := st\<rparr>)
        })
   }"

section \<open>Compound objects\<close>

text \<open>
  The size of a qualified string with its qualifier is computed with 32 bits; for a length for which it
  wraps around, the read overruns the string.
\<close>

definition DecodeQString ::
  "('s Decoder \<Rightarrow> (Handle \<times> 's Decoder) option) \<Rightarrow> 's InputStream \<Rightarrow> 's Decoder \<Rightarrow> (Handle \<times> 's Decoder) option" where
  "DecodeQString object vt dec = do {
     let m = Mark_stack dec;
     (len, dec) \<leftarrow> read_varint32 vt dec;
     (case len of
        None \<Rightarrow> Some (Handle_error, dec)
      | Some len \<Rightarrow>
          if 2 ^ 32 \<le> unat len + sizeof_Handle then None
          else do {
            (str, st) \<leftarrow> AllocateQString (replicate (unat len) 0) Handle_nil (dec_store dec);
            (ok, dec) \<leftarrow> read_string vt str (unat len) (Push str (dec\<lparr>dec_store := st\<rparr>));
            if \<not> ok then Some (Handle_error, dec)
            else do {
              (qual, dec) \<leftarrow> object (push_reference str dec);
              if IsError qual then Some (Handle_error, dec)
              else do {
                st \<leftarrow> modify str (\<lambda>d. case d_body d of QStringBody s _ \<Rightarrow> set_body (QStringBody s qual) d | _ \<Rightarrow> d) (dec_store dec);
                Some (str, Release m (dec\<lparr>dec_store := st\<rparr>))
              }
            }
          })
   }"

text \<open>The loops return whether all elements were decoded.\<close>

fun decode_elements :: "('s Decoder \<Rightarrow> (Handle \<times> 's Decoder) option) \<Rightarrow> nat \<Rightarrow> 's Decoder \<Rightarrow> (bool \<times> 's Decoder) option" where
  "decode_elements object 0 dec = Some (True, dec)"
| "decode_elements object (Suc n) dec = do {
     (elem, dec) \<leftarrow> object dec;
     if IsError elem then Some (False, dec) else decode_elements object n (Push elem dec)
   }"

text \<open>The size of an array is computed with 32 bits; copying more elements than fit overruns it.\<close>

definition DecodeArray ::
  "('s Decoder \<Rightarrow> (Handle \<times> 's Decoder) option) \<Rightarrow> 's InputStream \<Rightarrow> 's Decoder \<Rightarrow> (Handle \<times> 's Decoder) option" where
  "DecodeArray object vt dec = do {
     (len, dec) \<leftarrow> read_varint32 vt dec;
     (case len of
        None \<Rightarrow> Some (Handle_error, dec)
      | Some len \<Rightarrow> do {
          (h, st) \<leftarrow> AllocateArray (unat len mod 2 ^ 30) (dec_store dec);
          let dec = push_reference h (dec\<lparr>dec_store := st\<rparr>);
          let m = Mark_stack dec;
          (ok, dec) \<leftarrow> decode_elements object (unat len) dec;
          if \<not> ok then Some (Handle_error, dec)
          else do {
            let elements = drop m (dec_stack dec);
            es \<leftarrow> GetArray (dec_store dec) h;
            if length es < length elements then None
            else do {
              st \<leftarrow> modify h (set_body (ArrayBody (elements @ drop (length elements) es))) (dec_store dec);
              Some (h, Release m (dec\<lparr>dec_store := st\<rparr>))
            }
          }
        })
   }"

text \<open>
  The treatment of an id slot of a new frame: a symbol of the global store becomes a local one, and a proxy for the symbol
  gives its handle to the frame.
\<close>

definition decode_id :: "Handle \<Rightarrow> nat \<Rightarrow> Handle \<Rightarrow> 's Decoder \<Rightarrow> (Handle option \<times> 's Decoder) option" where
  "decode_id val index handle dec =
     (if IsNil val \<or> \<not> IsRef val then Some (None, dec)
      else do {
        d \<leftarrow> Deref (dec_store dec) val;
        if \<not> IsSymbol (d_body d) then Some (None, dec)
        else if \<not> Owned (dec_store dec) val
        then do {
          (local, st) \<leftarrow> LocalSymbol d (dec_store dec);
          Some (Some handle, ReplaceTop local (dec\<lparr>dec_store := st\<rparr>))
        }
        else if IsNil (sym_value (d_body d)) then Some (Some handle, dec)
        else do {
          existing \<leftarrow> Deref (dec_store dec) (sym_value (d_body d));
          if \<not> IsProxy (d_body existing) then Some (Some handle, dec)
          else do {
            st \<leftarrow> ReplaceProxy (d_self existing) handle (dec_store dec);
            let dec = dec\<lparr>dec_store := st\<rparr>;
            let dec = set_references ((dec_references dec)[index := d_self existing]) dec;
            st \<leftarrow> update_object val (set_value Handle_nil) (dec_store dec);
            Some (Some (d_self existing), dec\<lparr>dec_store := st\<rparr>)
          }
        }
      })"

fun decode_slots ::
  "('s Decoder \<Rightarrow> (Handle \<times> 's Decoder) option) \<Rightarrow> nat \<Rightarrow> bool \<Rightarrow> nat \<Rightarrow> Handle \<Rightarrow> 's Decoder \<Rightarrow> (Handle option \<times> 's Decoder) option" where
  "decode_slots object 0 fresh index handle dec = Some (Some handle, dec)"
| "decode_slots object (Suc n) fresh index handle dec = do {
     (name, dec) \<leftarrow> object dec;
     if IsError name then Some (None, dec)
     else do {
       (val, dec) \<leftarrow> object (Push name dec);
       if IsError val then Some (None, dec)
       else do {
         let dec = Push val dec;
         (h, dec) \<leftarrow> (if name = Handle_id \<and> fresh then decode_id val index handle dec else Some (Some handle, dec));
         (case h of None \<Rightarrow> Some (None, dec) | Some handle \<Rightarrow> decode_slots object n fresh index handle dec)
       }
     }
   }"

fun stack_slots :: "Handle list \<Rightarrow> slot list" where
  "stack_slots (n # v # hs) = (n, v) # stack_slots hs"
| "stack_slots _ = []"

text \<open>The frame that an id slot of the stack stands for, if it is already known.\<close>

fun known_frame :: "slot list \<Rightarrow> Store \<Rightarrow> Handle option option" where
  "known_frame [] st = Some None"
| "known_frame ((n, v) # slots) st =
     (if n \<noteq> Handle_id \<or> IsNil v \<or> \<not> IsRef v then known_frame slots st
      else do {
        d \<leftarrow> Deref st v;
        (case d_body d of
           SymbolBody _ val _ _ \<Rightarrow>
             if IsNil val then known_frame slots st
             else do {
               f \<leftarrow> Deref st val;
               if IsProxy (d_body f) then known_frame slots st else Some (Some (d_self f))
             }
         | _ \<Rightarrow> known_frame slots st)
      })"

text \<open>
  \<^verbatim>\<open>DecodeFrame\<close>; \<open>replace\<close> is the reference that a resolved frame replaces, and the number of slots is an \<^verbatim>\<open>int\<close>. The size of a new
  frame is computed with 32 bits.
\<close>

definition DecodeFrame ::
  "('s Decoder \<Rightarrow> (Handle \<times> 's Decoder) option) \<Rightarrow> uint32 \<Rightarrow> nat option \<Rightarrow> 's Decoder \<Rightarrow> (Handle \<times> 's Decoder) option" where
  "DecodeFrame object slots replace dec = do {
     (handle, index, dec) \<leftarrow> (case replace of
         None \<Rightarrow> do {
           (h, st) \<leftarrow> AllocateEmptyFrame (unat slots mod 2 ^ 29) (dec_store dec);
           let dec = dec\<lparr>dec_store := st\<rparr>;
           Some (h, length (dec_references dec), push_reference h dec)
         }
       | Some index \<Rightarrow> Some (Decoder_Reference index dec, index, dec));
     if IsError handle then Some (Handle_error, dec)
     else do {
       let m = Mark_stack dec;
       (r, dec) \<leftarrow> decode_slots object (nat (sint slots)) (replace = None) index handle dec;
       (case r of
          None \<Rightarrow> Some (Handle_error, dec)
        | Some handle \<Rightarrow> do {
            let new = stack_slots (drop m (dec_stack dec));
            known \<leftarrow> (if dec_skip_known_frames dec then known_frame new (dec_store dec) else Some None);
            (case known of
               Some h \<Rightarrow>
                 let dec = Release m dec
                 in Some (h, set_references ((dec_references dec)[index := h]) dec)
             | None \<Rightarrow> do {
                 (handle, st) \<leftarrow> (if replace = None
                   then do { st \<leftarrow> UpdateFrame handle new (dec_store dec); Some (handle, st) }
                   else AllocateFrame new handle (dec_store dec));
                 Some (handle, Release m (dec\<lparr>dec_store := st\<rparr>))
               })
          })
     }
   }"

section \<open>Objects\<close>

lemma mono_case_prod: "(\<And>a b. mono_option (\<lambda>f. g f a b)) \<Longrightarrow> mono_option (\<lambda>f. case p of (a, b) \<Rightarrow> g f a b)"
  by (cases p) simp

lemma mono_case_option:
  "mono_option a \<Longrightarrow> (\<And>x. mono_option (\<lambda>f. b f x)) \<Longrightarrow> mono_option (\<lambda>f. case r of None \<Rightarrow> a f | Some x \<Rightarrow> b f x)"
  by (cases r) simp_all

lemmas mono_cases = partial_function_mono mono_case_prod mono_case_option

lemma DecodeQString_mono [partial_function_mono]:
  assumes "\<And>dec. mono_option (\<lambda>f. object f dec)"
  shows "mono_option (\<lambda>f. DecodeQString (object f) vt dec)"
  unfolding DecodeQString_def Let_def by (intro mono_cases assms)

lemma decode_elements_mono [partial_function_mono]:
  assumes "\<And>dec. mono_option (\<lambda>f. object f dec)"
  shows "mono_option (\<lambda>f. decode_elements (object f) n dec)"
proof (induction n arbitrary: dec)
  case (Suc n)
  then show ?case by (simp, intro mono_cases assms Suc)
qed (simp, intro partial_function_mono)

lemma DecodeArray_mono [partial_function_mono]:
  assumes "\<And>dec. mono_option (\<lambda>f. object f dec)"
  shows "mono_option (\<lambda>f. DecodeArray (object f) vt dec)"
  unfolding DecodeArray_def Let_def by (intro mono_cases decode_elements_mono assms)

lemma decode_slots_mono [partial_function_mono]:
  assumes "\<And>dec. mono_option (\<lambda>f. object f dec)"
  shows "mono_option (\<lambda>f. decode_slots (object f) n fresh index handle dec)"
proof (induction n arbitrary: handle dec)
  case (Suc n)
  then show ?case by (simp add: Let_def, intro mono_cases assms Suc)
qed (simp, intro partial_function_mono)

lemma DecodeFrame_mono [partial_function_mono]:
  assumes "\<And>dec. mono_option (\<lambda>f. object f dec)"
  shows "mono_option (\<lambda>f. DecodeFrame (object f) slots replace dec)"
  unfolding DecodeFrame_def Let_def by (intro mono_cases decode_slots_mono assms)

partial_function (option) DecodeObject :: "'s InputStream \<Rightarrow> 's Decoder \<Rightarrow> (Handle \<times> 's Decoder) option" where
  "DecodeObject vt dec = do {
     (r, dec) \<leftarrow> read_varint64 vt dec;
     (case r of
        None \<Rightarrow> Some (Handle_error, dec)
      | Some wire \<Rightarrow> (let arg = drop_bit 3 wire; kind = wire AND 7 in
          if kind = WIRE_REF then Some (Decoder_Reference (unat (ucast arg :: uint32)) dec, dec)
          else if kind = WIRE_FRAME then DecodeFrame (\<lambda>dec. DecodeObject vt dec) (ucast arg) None dec
          else if kind = WIRE_STRING
          then do { (h, dec) \<leftarrow> DecodeString vt (ucast arg) dec; Some (h, push_reference h dec) }
          else if kind = WIRE_SYMBOL
          then do { (h, dec) \<leftarrow> DecodeSymbol vt (ucast arg) dec; Some (h, push_reference h dec) }
          else if kind = WIRE_LINK
          then do { (h, dec) \<leftarrow> DecodeLink vt (ucast arg) dec; Some (h, push_reference h dec) }
          else if kind = WIRE_INTEGER then Some (Handle_Integer (sint (ucast arg :: uint32)), dec)
          else if kind = WIRE_FLOAT then Some (FromFloatBits (ucast arg), dec)
          else if arg = WIRE_NIL then Some (Handle_nil, dec)
          else if arg = WIRE_ID then Some (Handle_id, dec)
          else if arg = WIRE_ISA then Some (Handle_isa, dec)
          else if arg = WIRE_IS then Some (Handle_is, dec)
          else if arg = WIRE_NAME then Some (Handle_name, dec)
          else if arg = WIRE_ARRAY then DecodeArray (\<lambda>dec. DecodeObject vt dec) vt dec
          else if arg = WIRE_INDEX
          then do {
            (index, dec) \<leftarrow> read_varint32 vt dec;
            Some (case index of None \<Rightarrow> Handle_error | Some index \<Rightarrow> Handle_Index (sint index), dec)
          }
          else if arg = WIRE_RESOLVE
          then do {
            (slots, dec) \<leftarrow> read_varint32 vt dec;
            (case slots of
               None \<Rightarrow> Some (Handle_error, dec)
             | Some slots \<Rightarrow> do {
                 (replace, dec) \<leftarrow> read_varint32 vt dec;
                 (case replace of
                    None \<Rightarrow> Some (Handle_error, dec)
                  | Some replace \<Rightarrow>
                      if length (dec_references dec) \<le> unat replace then Some (Handle_error, dec)
                      else DecodeFrame (\<lambda>dec. DecodeObject vt dec) slots (Some (unat replace)) dec)
               })
          }
          else if arg = WIRE_QSTRING then DecodeQString (\<lambda>dec. DecodeObject vt dec) vt dec
          else Some (Handle_error, dec)))
   }"

declare DecodeObject.simps [code]

text \<open>
  An object that holds a handle keeps it alive as a root (\<^verbatim>\<open>Root::Root\<close> in \<^verbatim>\<open>store.h\<close>); the root is linked in behind the sentinel of
  the list.
\<close>

definition Root_init :: "Handle \<Rightarrow> Store \<Rightarrow> Store" where
  "Root_init h st =
     (if IsNil h \<or> \<not> IsRef h \<or> \<not> Owned st h \<or> frozen st then st
      else st\<lparr>roots := take 1 (roots st) @ h # drop 1 (roots st)\<rparr>)"

text \<open>\<^verbatim>\<open>DecodeAll\<close> returns the last object and all of them.\<close>

partial_function (option) decode_all :: "'s InputStream \<Rightarrow> Handle \<Rightarrow> Handle list \<Rightarrow> 's Decoder \<Rightarrow> (Handle \<times> Handle list \<times> 's Decoder) option" where
  "decode_all vt handle objects dec = do {
     (d, inp) \<leftarrow> Input_done vt (dec_input dec);
     let dec = dec\<lparr>dec_input := inp\<rparr>;
     if d then Some (handle, objects, dec)
     else do {
       (handle, dec) \<leftarrow> DecodeObject vt dec;
       if IsError handle then Some (handle, objects, dec) else decode_all vt handle (objects @ [handle]) dec
     }
   }"

declare decode_all.simps [code]

definition DecodeAll :: "'s InputStream \<Rightarrow> 's Decoder \<Rightarrow> (Handle \<times> Handle list \<times> 's Decoder) option" where
  "DecodeAll vt dec = do {
     (h, objects, dec) \<leftarrow> decode_all vt Handle_nil [] dec;
     Some (h, objects, dec\<lparr>dec_store := Root_init h (dec_store dec)\<rparr>)
   }"

section \<open>Serialization to strings\<close>

definition Decoder_Decode :: "'s InputStream \<Rightarrow> 's Decoder \<Rightarrow> (Handle \<times> 's Decoder) option" where
  "Decoder_Decode vt dec = do {
     (h, dec) \<leftarrow> DecodeObject vt dec;
     Some (h, dec\<lparr>dec_store := Root_init h (dec_store dec)\<rparr>)
   }"

text \<open>When the decoder is destroyed, the store no longer tracks its tables.\<close>

definition Decoder_end :: "'s Decoder \<Rightarrow> Store" where
  "Decoder_end dec = (dec_store dec)\<lparr>externals := drop 2 (externals (dec_store dec))\<rparr>"

text \<open>
  \<^verbatim>\<open>Encode\<close> and \<^verbatim>\<open>Decode\<close> of \<^verbatim>\<open>serialization.cc\<close>, over a \<^verbatim>\<open>StringOutputStream\<close> on an empty string and an \<^verbatim>\<open>ArrayInputStream\<close>; \<open>cap\<close>
  is the capacity of an empty string.
\<close>

definition Encode :: "(nat \<Rightarrow> nat \<Rightarrow> nat) \<Rightarrow> nat \<Rightarrow> Store \<Rightarrow> Handle \<Rightarrow> byte list option" where
  "Encode policy cap st h = do {
     let vt = StringOutputStream_vtable policy;
     r \<leftarrow> Output_init vt \<lparr>cs_chars = [], cs_capacity = cap\<rparr>;
     (case r of
        Done out \<Rightarrow> do {
          enc \<leftarrow> Encoder_init vt st out True;
          enc \<leftarrow> EncodeObject vt h enc;
          out \<leftarrow> Output_Flush vt (enc_output enc);
          Some (cs_chars (out_stream out))
        }
      | _ \<Rightarrow> None)
   }"

definition Decode :: "Store \<Rightarrow> byte list \<Rightarrow> (Handle \<times> Store) option" where
  "Decode st encoded = do {
     let vt = ArrayInputStream_vtable;
     dec \<leftarrow> Decoder_init vt st (Input_init (ArrayInputStream_init encoded (-1))) True;
     (h, dec) \<leftarrow> Decoder_Decode vt dec;
     Some (h, Decoder_end dec)
   }"

end
