(* ===== verification/Frame_Wire.thy ===== *)
theory Frame_Wire
  imports Frame_Decoder
begin

text \<open>
  What the encoder writes: a relation between the state of the reference table, an object, the bytes of its encoding and
  the next state of the table. It covers the objects whose encoding can be decoded on its own: numbers, strings, arrays and
  anonymous frames, with links to named frames. The encoder produces these bytes, and for every closed set of
  such objects there are some, so that the encoder terminates even if the objects refer to each other in cycles.
\<close>

section \<open>Encodings\<close>

type_synonym references = "(Handle \<Rightarrow> EncoderReference) \<times> nat"

definition tag_bytes :: "uint64 \<Rightarrow> uint64 \<Rightarrow> byte list" where
  "tag_bytes wire arg = Encode64 (wire OR push_bit 3 arg)"

definition size_bytes :: "nat \<Rightarrow> byte list" where
  "size_bytes n = Encode32 (of_nat n)"

definition ref_bytes :: "EncoderReference \<Rightarrow> byte list" where
  "ref_bytes r = tag_bytes (if ref_status r = SPECIAL then WIRE_SPECIAL else WIRE_REF) (of_nat (ref_index r))"

definition add_reference :: "Handle \<Rightarrow> EncoderStatus \<Rightarrow> references \<Rightarrow> references" where
  "add_reference h status s = ((fst s)(h := \<lparr>ref_status = status, ref_index = snd s mod 2 ^ 30\<rparr>), snd s + 1)"

text \<open>An object that has not been encoded and is not encoded as a link.\<close>

definition pending :: "Store \<Rightarrow> bool \<Rightarrow> bool \<Rightarrow> references \<Rightarrow> Handle \<Rightarrow> body \<Rightarrow> bool" where
  "pending st sh gl s h b \<longleftrightarrow> IsRef h \<and> \<not> IsNil h \<and> ref_status (fst s h) = UNRESOLVED \<and> link_symbol st sh gl h = Some Handle_nil \<and>
     map_option d_body (Deref st h) = Some b \<and> object_bytes b < kObjectSizeLimit"

inductive encodes :: "Store \<Rightarrow> bool \<Rightarrow> bool \<Rightarrow> byte list set \<Rightarrow> references \<Rightarrow> Handle \<Rightarrow> byte list \<Rightarrow> references \<Rightarrow> bool"
  and encodes_all :: "Store \<Rightarrow> bool \<Rightarrow> bool \<Rightarrow> byte list set \<Rightarrow> references \<Rightarrow> Handle list \<Rightarrow> byte list \<Rightarrow> references \<Rightarrow> bool"
  and encodes_slots :: "Store \<Rightarrow> bool \<Rightarrow> bool \<Rightarrow> byte list set \<Rightarrow> references \<Rightarrow> slot list \<Rightarrow> byte list \<Rightarrow> references \<Rightarrow> bool"
  for st sh gl N where
  enc_nil: "encodes st sh gl N s Handle_nil (tag_bytes WIRE_SPECIAL WIRE_NIL) s"
| enc_int: "IsInt h \<Longrightarrow> encodes st sh gl N s h (tag_bytes WIRE_INTEGER (of_int (AsInt h))) s"
| enc_index: "IsIndex h \<Longrightarrow> encodes st sh gl N s h (tag_bytes WIRE_SPECIAL WIRE_INDEX @ size_bytes (nat (AsIndex h))) s"
| enc_float: "IsFloat h \<Longrightarrow> \<not> IsIndex h \<Longrightarrow> \<not> IsError h \<Longrightarrow> encodes st sh gl N s h (tag_bytes WIRE_FLOAT (ucast (FloatBits h))) s"
| enc_ref: "IsRef h \<Longrightarrow> \<not> IsNil h \<Longrightarrow> ref_status (fst s h) \<noteq> UNRESOLVED \<Longrightarrow> link_symbol st sh gl h = Some l \<Longrightarrow>
    ref_status (fst s h) = LINKED \<longrightarrow> \<not> IsNil l \<Longrightarrow> encodes st sh gl N s h (ref_bytes (fst s h)) s"
| enc_link: "IsRef h \<Longrightarrow> \<not> IsNil h \<Longrightarrow> ref_status (fst s h) = UNRESOLVED \<Longrightarrow> link_symbol st sh gl h = Some l \<Longrightarrow> \<not> IsNil l \<Longrightarrow>
    GetSymbol st l = Some d \<Longrightarrow> sym_name (d_body d) \<in> N \<Longrightarrow>
    encodes st sh gl N s h (tag_bytes WIRE_LINK (of_nat (length (sym_name (d_body d)))) @ sym_name (d_body d)) (add_reference h LINKED s)"
| enc_string: "pending st sh gl s h (StringBody str) \<Longrightarrow>
    encodes st sh gl N s h (tag_bytes WIRE_STRING (of_nat (length str)) @ str) (add_reference h ENCODED s)"
| enc_qstring: "pending st sh gl s h (QStringBody str q) \<Longrightarrow> encodes st sh gl N (add_reference h ENCODED s) q bs s' \<Longrightarrow>
    encodes st sh gl N s h (tag_bytes WIRE_SPECIAL WIRE_QSTRING @ size_bytes (length str) @ str @ bs) s'"
| enc_array: "pending st sh gl s h (ArrayBody es) \<Longrightarrow> encodes_all st sh gl N (add_reference h ENCODED s) es bs s' \<Longrightarrow>
    encodes st sh gl N s h (tag_bytes WIRE_SPECIAL WIRE_ARRAY @ size_bytes (length es) @ bs) s'"
| enc_frame: "pending st sh gl s h (FrameBody False False slots) \<Longrightarrow> Handle_id \<notin> fst ` set slots \<Longrightarrow>
    encodes_slots st sh gl N (add_reference h ENCODED s) slots bs s' \<Longrightarrow>
    encodes st sh gl N s h (tag_bytes WIRE_FRAME (of_nat (length slots)) @ bs) s'"
| enc_done: "encodes_all st sh gl N s [] [] s"
| enc_next: "encodes st sh gl N s e bs s1 \<Longrightarrow> encodes_all st sh gl N s1 es bs' s2 \<Longrightarrow> encodes_all st sh gl N s (e # es) (bs @ bs') s2"
| enc_no_slots: "encodes_slots st sh gl N s [] [] s"
| enc_slot: "encodes st sh gl N s n bs1 s1 \<Longrightarrow> encodes st sh gl N s1 v bs2 s2 \<Longrightarrow> encodes_slots st sh gl N s2 slots bs3 s3 \<Longrightarrow>
    encodes_slots st sh gl N s ((n, v) # slots) (bs1 @ bs2 @ bs3) s3"

section \<open>Kinds of handles\<close>

lemma IsInt_kind: "IsInt h \<Longrightarrow> \<not> IsNil h" "IsInt h \<Longrightarrow> \<not> IsRef h"
  by (auto simp: tag_tests ref_tests IsNil_def)

lemma IsFloat_kind: "IsFloat h \<Longrightarrow> \<not> IsNil h" "IsFloat h \<Longrightarrow> \<not> IsRef h" "IsFloat h \<Longrightarrow> \<not> IsInt h"
  by (auto simp: tag_tests ref_tests IsNil_def)

lemma IsRef_not_error: "IsRef h \<Longrightarrow> \<not> IsError h"
proof
  assume "IsRef h" "IsError h"
  then show False by (simp add: IsError_def IsRef_def kError_def kFloatTag_def kNumber_def)
qed

lemma IsIndex_IsFloat: "IsIndex h \<Longrightarrow> IsFloat h"
proof -
  assume "IsIndex h"
  have k: "kIndexMask AND 3 = 3" by (simp add: kIndexMask_def kFloatTag_def)
  have "bits h AND 3 = (bits h AND kIndexMask) AND 3" by (simp only: and.assoc k)
  also have "\<dots> = 3" using \<open>IsIndex h\<close> k by (simp only: IsIndex_def)
  finally show ?thesis by (simp add: IsFloat_def tag_def kTagMask_def kFloatTag_def)
qed

lemma AsIndex_Index:
  assumes "IsIndex h"
  shows "Handle_Index (AsIndex h) = h" "0 \<le> AsIndex h" "AsIndex h < 2 ^ 20"
proof -
  have m: "NOT kIndexMask = push_bit 2 (mask 20)"
    by (simp add: kIndexMask_def kFloatTag_def mask_eq_exp_minus_1 push_bit_eq_mult)
  have x: "drop_bit 2 (bits h AND NOT kIndexMask) = take_bit 20 (drop_bit 2 (bits h))"
    unfolding m by (rule bit_word_eqI) (auto simp: bit_simps)
  have "push_bit 2 (take_bit 20 (drop_bit 2 (bits h))) = bits h AND NOT kIndexMask"
    unfolding m
  proof (rule bit_word_eqI)
    fix n assume "n < LENGTH(32)"
    moreover have "2 \<le> n \<Longrightarrow> Suc (Suc (n - 2)) = n" by arith
    ultimately show "bit (push_bit 2 (take_bit 20 (drop_bit 2 (bits h)))) n = bit (bits h AND push_bit 2 (mask 20)) n"
      by (cases "2 \<le> n") (auto simp: bit_simps)
  qed
  then have "push_bit 2 (word_of_int (AsIndex h)) OR kIndexMask = (bits h AND NOT kIndexMask) OR kIndexMask"
    by (simp only: AsIndex_def x word_of_int_uint)
  also have "\<dots> = bits h OR kIndexMask" by (simp add: bit.disj_conj_distrib2)
  also have "\<dots> = bits h OR (bits h AND kIndexMask)" using assms by (simp only: IsIndex_def)
  also have "\<dots> = bits h" by (rule bit_word_eqI) (auto simp: bit_simps)
  finally show "Handle_Index (AsIndex h) = h" by (simp add: Handle_Index_def)
  show "0 \<le> AsIndex h" by (simp add: AsIndex_def)
  have "AsIndex h = take_bit 20 (uint (drop_bit 2 (bits h)))" unfolding AsIndex_def x by (rule unsigned_take_bit_eq)
  then show "AsIndex h < 2 ^ 20" by (simp only: take_bit_int_less_exp)
qed

section \<open>The encoder writes encodings\<close>

lemma WriteReference_tag:
  "WriteReference vt r enc = WriteTag vt (if ref_status r = SPECIAL then WIRE_SPECIAL else WIRE_REF) (of_nat (ref_index r)) enc"
  by (simp add: WriteReference_def)

definition encoder_at :: "('s Output \<Rightarrow> bool) \<Rightarrow> Store \<Rightarrow> bool \<Rightarrow> bool \<Rightarrow> references \<Rightarrow> 's Encoder \<Rightarrow> bool" where
  "encoder_at winv st sh gl s enc \<longleftrightarrow> enc_store enc = st \<and> enc_shallow enc = sh \<and> enc_global enc = gl \<and> winv (enc_output enc) \<and>
     hm_inv no_reference (enc_references enc) \<and> (\<forall>h. \<not> IsNil h \<longrightarrow> hm_get no_reference (enc_references enc) h = fst s h) \<and>
     enc_next_index enc = snd s"

context output_stream
begin

lemma WriteTag_spec:
  assumes "encoder_at winv st sh gl s enc"
  obtains enc' where "WriteTag vt wire arg enc = Some enc'" "encoder_at winv st sh gl s enc'"
    "prod (enc_output enc') = prod (enc_output enc) @ map Some (tag_bytes wire arg)"
proof -
  have "winv (enc_output enc)" using assms by (simp add: encoder_at_def)
  then obtain out where out: "Output_WriteVarint64 vt (wire OR push_bit 3 arg) (enc_output enc) = Some (Done out)" "winv out"
    "prod out = prod (enc_output enc) @ map Some (tag_bytes wire arg)"
    using Output_WriteVarint64_spec unfolding tag_bytes_def by metis
  show thesis
    by (rule that [of "enc\<lparr>enc_output := out\<rparr>"]) (use assms out in \<open>simp_all add: WriteTag_def written_to_def encoder_at_def\<close>)
qed

lemma enc_write_bytes_spec:
  assumes "encoder_at winv st sh gl s enc"
  obtains enc' where "enc_write_bytes vt bs enc = Some enc'" "encoder_at winv st sh gl s enc'"
    "prod (enc_output enc') = prod (enc_output enc) @ map Some bs"
proof -
  have "winv (enc_output enc)" using assms by (simp add: encoder_at_def)
  then obtain out where out: "Output_Write vt bs (enc_output enc) = Some (Done out)" "winv out" "prod out = prod (enc_output enc) @ map Some bs"
    using Output_Write_spec by metis
  show thesis
    by (rule that [of "enc\<lparr>enc_output := out\<rparr>"]) (use assms out in \<open>simp_all add: enc_write_bytes_def written_to_def encoder_at_def\<close>)
qed

lemma enc_write_varint32_spec:
  assumes "encoder_at winv st sh gl s enc"
  obtains enc' where "enc_write_varint32 vt n enc = Some enc'" "encoder_at winv st sh gl s enc'"
    "prod (enc_output enc') = prod (enc_output enc) @ map Some (size_bytes n)"
proof -
  have "winv (enc_output enc)" using assms by (simp add: encoder_at_def)
  then obtain out where out: "Output_WriteVarint32 vt (of_nat n) (enc_output enc) = Some (Done out)" "winv out"
    "prod out = prod (enc_output enc) @ map Some (size_bytes n)"
    using Output_WriteVarint32_spec unfolding size_bytes_def by metis
  show thesis
    by (rule that [of "enc\<lparr>enc_output := out\<rparr>"]) (use assms out in \<open>simp_all add: enc_write_varint32_def written_to_def encoder_at_def\<close>)
qed

lemma find_reference_spec:
  assumes "encoder_at winv st sh gl s enc" "\<not> IsNil h"
  obtains pos enc' where "find_reference h enc = Some (pos, fst s h, enc')" "encoder_at winv st sh gl s enc'" "enc_output enc' = enc_output enc"
    "\<And>status. encoder_at winv st sh gl (add_reference h status s) (new_reference pos status enc')"
    "\<And>status. enc_output (new_reference pos status enc') = enc_output enc"
    "\<And>ref. encoder_at winv st sh gl ((fst s)(h := ref), snd s) (set_reference pos ref enc')"
proof -
  have inv: "hm_inv no_reference (enc_references enc)" using assms(1) by (simp add: encoder_at_def)
  obtain pos m where at: "hm_at no_reference h (enc_references enc) = Some (pos, m)" "hm_inv no_reference m" "pos < length (hm_nodes m)"
    "fst (hm_nodes m ! pos) = h" "\<And>h'. \<not> IsNil h' \<Longrightarrow> hm_get no_reference m h' = hm_get no_reference (enc_references enc) h'"
    by (rule hm_at_spec [OF inv assms(2)]) blast
  have ne: "\<not> IsNil (fst (hm_nodes m ! pos))" using at(4) assms(2) by simp
  note a = hm_assign_spec [OF at(2,3) ne]
  show thesis
  proof (rule that [of pos "enc\<lparr>enc_references := m\<rparr>"])
    show "find_reference h enc = Some (pos, fst s h, enc\<lparr>enc_references := m\<rparr>)"
      using at a(2) assms by (simp add: find_reference_def encoder_at_def)
    show "encoder_at winv st sh gl (add_reference h status s) (new_reference pos status (enc\<lparr>enc_references := m\<rparr>))" for status
      using assms(1) at a(1,3) by (simp add: encoder_at_def add_reference_def new_reference_def set_reference_def)
    show "encoder_at winv st sh gl ((fst s)(h := ref), snd s) (set_reference pos ref (enc\<lparr>enc_references := m\<rparr>))" for ref
      using assms(1) at a(1,3) by (simp add: encoder_at_def set_reference_def)
  qed (use assms at in \<open>simp_all add: encoder_at_def new_reference_def set_reference_def\<close>)
qed

lemma EncodeObject_pending:
  assumes "encoder_at winv st sh gl s enc" "pending st sh gl s h b"
  obtains pos d enc' where "find_reference h enc = Some (pos, fst s h, enc')" "ref_status (fst s h) = UNRESOLVED" "Deref (enc_store enc') h = Some d" "d_body d = b"
    "encoder_at winv st sh gl (add_reference h ENCODED s) (new_reference pos ENCODED enc')"
    "enc_output (new_reference pos ENCODED enc') = enc_output enc" "\<not> IsNil h" "IsRef h" "link_symbol (enc_store enc) (enc_shallow enc) (enc_global enc) h = Some Handle_nil"
proof -
  have p: "IsRef h" "\<not> IsNil h" "ref_status (fst s h) = UNRESOLVED" "link_symbol st sh gl h = Some Handle_nil" "map_option d_body (Deref st h) = Some b"
    using assms(2) by (simp_all add: pending_def)
  obtain pos enc' where f: "find_reference h enc = Some (pos, fst s h, enc')" "encoder_at winv st sh gl s enc'"
    "encoder_at winv st sh gl (add_reference h ENCODED s) (new_reference pos ENCODED enc')" "enc_output (new_reference pos ENCODED enc') = enc_output enc"
    by (rule find_reference_spec [OF assms(1) p(2)]) blast
  obtain d where "Deref st h = Some d" "d_body d = b" using p(5) by auto
  then show thesis using that [OF f(1) p(3) _ _ f(3,4) p(2,1)] f(2) assms(1) p(4) by (simp add: encoder_at_def)
qed

lemma IsNil_Handle_nil [simp]: "IsNil Handle_nil"
  by (simp add: IsNil_def Handle_nil_def)

lemma link_symbol_nil: "IsNil h \<or> \<not> IsRef h \<Longrightarrow> link_symbol st sh gl h = Some Handle_nil"
  by (auto simp: link_symbol_def)

lemma encodes_run:
  "encodes st sh gl N s h bs s' \<Longrightarrow> encoder_at winv st sh gl s enc \<Longrightarrow>
     \<exists>enc'. EncodeLink (EncodeObject vt) vt h enc = Some enc' \<and> encoder_at winv st sh gl s' enc' \<and>
       prod (enc_output enc') = prod (enc_output enc) @ map Some bs"
  "encodes_all st sh gl N s es bs s' \<Longrightarrow> encoder_at winv st sh gl s enc \<Longrightarrow>
     \<exists>enc'. encode_elements (EncodeObject vt) vt es enc = Some enc' \<and> encoder_at winv st sh gl s' enc' \<and>
       prod (enc_output enc') = prod (enc_output enc) @ map Some bs"
  "encodes_slots st sh gl N s slots bs s' \<Longrightarrow> encoder_at winv st sh gl s enc \<Longrightarrow>
     \<exists>enc'. encode_slots (EncodeObject vt) vt slots enc = Some enc' \<and> encoder_at winv st sh gl s' enc' \<and>
       prod (enc_output enc') = prod (enc_output enc) @ map Some bs"
proof (induction arbitrary: enc and enc and enc rule: encodes_encodes_all_encodes_slots.inducts)
  case (enc_nil s)
  obtain enc' where "WriteTag vt WIRE_SPECIAL WIRE_NIL enc = Some enc'" "encoder_at winv st sh gl s enc'"
    "prod (enc_output enc') = prod (enc_output enc) @ map Some (tag_bytes WIRE_SPECIAL WIRE_NIL)"
    by (rule WriteTag_spec [OF enc_nil])
  then show ?case by (simp add: EncodeLink_def link_symbol_nil EncodeObject.simps)
next
  case (enc_int h s)
  have k: "\<not> IsNil h" "\<not> IsRef h" using IsInt_kind [OF enc_int(1)] by simp_all
  obtain enc' where "WriteTag vt WIRE_INTEGER (of_int (AsInt h)) enc = Some enc'" "encoder_at winv st sh gl s enc'"
    "prod (enc_output enc') = prod (enc_output enc) @ map Some (tag_bytes WIRE_INTEGER (of_int (AsInt h)))"
    by (rule WriteTag_spec [OF enc_int(2)])
  then show ?case using k enc_int(1) by (simp add: EncodeLink_def link_symbol_nil EncodeObject.simps [of vt h])
next
  case (enc_index h s)
  have k: "\<not> IsNil h" "\<not> IsRef h" "\<not> IsInt h" using IsFloat_kind [OF IsIndex_IsFloat [OF enc_index(1)]] by simp_all
  obtain enc1 where e1: "WriteTag vt WIRE_SPECIAL WIRE_INDEX enc = Some enc1" "encoder_at winv st sh gl s enc1"
    "prod (enc_output enc1) = prod (enc_output enc) @ map Some (tag_bytes WIRE_SPECIAL WIRE_INDEX)"
    by (rule WriteTag_spec [OF enc_index(2)])
  obtain enc2 where "enc_write_varint32 vt (nat (AsIndex h)) enc1 = Some enc2" "encoder_at winv st sh gl s enc2"
    "prod (enc_output enc2) = prod (enc_output enc1) @ map Some (size_bytes (nat (AsIndex h)))"
    by (rule enc_write_varint32_spec [OF e1(2)])
  then show ?case using k enc_index(1) e1 by (simp add: EncodeLink_def link_symbol_nil EncodeObject.simps [of vt h])
next
  case (enc_float h s)
  have k: "\<not> IsNil h" "\<not> IsRef h" "\<not> IsInt h" using IsFloat_kind [OF enc_float(1)] by simp_all
  obtain enc' where "WriteTag vt WIRE_FLOAT (ucast (FloatBits h)) enc = Some enc'" "encoder_at winv st sh gl s enc'"
    "prod (enc_output enc') = prod (enc_output enc) @ map Some (tag_bytes WIRE_FLOAT (ucast (FloatBits h)))"
    by (rule WriteTag_spec [OF enc_float(4)])
  then show ?case using k enc_float(1,2) by (simp add: EncodeLink_def link_symbol_nil EncodeObject.simps [of vt h])
next
  case (enc_ref h s l)
  obtain pos enc1 where f: "find_reference h enc = Some (pos, fst s h, enc1)" "encoder_at winv st sh gl s enc1" "enc_output enc1 = enc_output enc"
    by (rule find_reference_spec [OF enc_ref(6,2)]) blast
  obtain enc2 where w: "WriteReference vt (fst s h) enc1 = Some enc2" "encoder_at winv st sh gl s enc2"
    "prod (enc_output enc2) = prod (enc_output enc1) @ map Some (ref_bytes (fst s h))"
    unfolding WriteReference_tag ref_bytes_def by (rule WriteTag_spec [OF f(2)])
  have "link_symbol (enc_store enc) (enc_shallow enc) (enc_global enc) h = Some l" using enc_ref(4,5,6) by (simp add: encoder_at_def)
  then have "EncodeLink (EncodeObject vt) vt h enc = Some enc2"
    using enc_ref(1-5) f w(1) by (cases "ref_status (fst s h)") (simp_all add: EncodeLink_def EncodeObject.simps [of vt h])
  then show ?case using w(2,3) f(3) by simp
next
  case (enc_link h s l d)
  obtain pos enc1 where f: "find_reference h enc = Some (pos, fst s h, enc1)" "encoder_at winv st sh gl s enc1" "enc_output enc1 = enc_output enc"
    "encoder_at winv st sh gl (add_reference h LINKED s) (new_reference pos LINKED enc1)" "enc_output (new_reference pos LINKED enc1) = enc_output enc"
    by (rule find_reference_spec [OF enc_link(8,2)]) blast
  obtain enc2 where e2: "WriteTag vt WIRE_LINK (of_nat (length (sym_name (d_body d)))) (new_reference pos LINKED enc1) = Some enc2"
    "encoder_at winv st sh gl (add_reference h LINKED s) enc2"
    "prod (enc_output enc2) = prod (enc_output (new_reference pos LINKED enc1)) @ map Some (tag_bytes WIRE_LINK (of_nat (length (sym_name (d_body d)))))"
    by (rule WriteTag_spec [OF f(4)])
  obtain enc3 where e3: "enc_write_bytes vt (sym_name (d_body d)) enc2 = Some enc3" "encoder_at winv st sh gl (add_reference h LINKED s) enc3"
    "prod (enc_output enc3) = prod (enc_output enc2) @ map Some (sym_name (d_body d))"
    by (rule enc_write_bytes_spec [OF e2(2)])
  have "link_symbol (enc_store enc) (enc_shallow enc) (enc_global enc) h = Some l" "GetSymbol (enc_store enc1) l = Some d"
    using enc_link f(2) by (simp_all add: encoder_at_def)
  then have "EncodeLink (EncodeObject vt) vt h enc = Some enc3" using enc_link f(1) e2(1) e3(1) by (simp add: EncodeLink_def EncodeSymbol_def)
  then show ?case using e2(3) e3(2,3) f(5) by simp
next
  case (enc_string s h str)
  obtain pos d enc1 where f: "find_reference h enc = Some (pos, fst s h, enc1)" "ref_status (fst s h) = UNRESOLVED" "Deref (enc_store enc1) h = Some d"
    "d_body d = StringBody str" "encoder_at winv st sh gl (add_reference h ENCODED s) (new_reference pos ENCODED enc1)"
    "enc_output (new_reference pos ENCODED enc1) = enc_output enc" "\<not> IsNil h" "IsRef h" "link_symbol (enc_store enc) (enc_shallow enc) (enc_global enc) h = Some Handle_nil"
    by (rule EncodeObject_pending [OF enc_string(2,1)])
  obtain enc2 where e2: "WriteTag vt WIRE_STRING (of_nat (length str)) (new_reference pos ENCODED enc1) = Some enc2"
    "encoder_at winv st sh gl (add_reference h ENCODED s) enc2"
    "prod (enc_output enc2) = prod (enc_output (new_reference pos ENCODED enc1)) @ map Some (tag_bytes WIRE_STRING (of_nat (length str)))"
    by (rule WriteTag_spec [OF f(5)])
  obtain enc3 where e3: "enc_write_bytes vt str enc2 = Some enc3" "encoder_at winv st sh gl (add_reference h ENCODED s) enc3"
    "prod (enc_output enc3) = prod (enc_output enc2) @ map Some str"
    by (rule enc_write_bytes_spec [OF e2(2)])
  have "EncodeLink (EncodeObject vt) vt h enc = Some enc3" using f e2(1) e3(1) by (simp add: EncodeLink_def EncodeObject.simps [of vt h])
  then show ?case using e2(3) e3(2,3) f(6) by simp
next
  case (enc_qstring s h str q bs s')
  obtain pos d enc1 where f: "find_reference h enc = Some (pos, fst s h, enc1)" "ref_status (fst s h) = UNRESOLVED" "Deref (enc_store enc1) h = Some d"
    "d_body d = QStringBody str q" "encoder_at winv st sh gl (add_reference h ENCODED s) (new_reference pos ENCODED enc1)"
    "enc_output (new_reference pos ENCODED enc1) = enc_output enc" "\<not> IsNil h" "IsRef h" "link_symbol (enc_store enc) (enc_shallow enc) (enc_global enc) h = Some Handle_nil"
    by (rule EncodeObject_pending [OF enc_qstring(4,1)])
  obtain enc2 where e2: "WriteTag vt WIRE_SPECIAL WIRE_QSTRING (new_reference pos ENCODED enc1) = Some enc2"
    "encoder_at winv st sh gl (add_reference h ENCODED s) enc2"
    "prod (enc_output enc2) = prod (enc_output (new_reference pos ENCODED enc1)) @ map Some (tag_bytes WIRE_SPECIAL WIRE_QSTRING)"
    by (rule WriteTag_spec [OF f(5)])
  obtain enc3 where e3: "enc_write_varint32 vt (length str) enc2 = Some enc3" "encoder_at winv st sh gl (add_reference h ENCODED s) enc3"
    "prod (enc_output enc3) = prod (enc_output enc2) @ map Some (size_bytes (length str))"
    by (rule enc_write_varint32_spec [OF e2(2)])
  obtain enc4 where e4: "enc_write_bytes vt str enc3 = Some enc4" "encoder_at winv st sh gl (add_reference h ENCODED s) enc4"
    "prod (enc_output enc4) = prod (enc_output enc3) @ map Some str"
    by (rule enc_write_bytes_spec [OF e3(2)])
  obtain enc5 where e5: "EncodeLink (EncodeObject vt) vt q enc4 = Some enc5" "encoder_at winv st sh gl s' enc5"
    "prod (enc_output enc5) = prod (enc_output enc4) @ map Some bs" using enc_qstring(3) e4(2) by blast
  have "EncodeLink (EncodeObject vt) vt h enc = Some enc5"
    using f e2(1) e3(1) e4(1) e5(1) by (simp add: EncodeLink_def [of _ _ h] EncodeObject.simps [of vt h])
  then show ?case using e2(3) e3(3) e4(3) e5(2,3) f(6) by simp
next
  case (enc_array s h es bs s')
  obtain pos d enc1 where f: "find_reference h enc = Some (pos, fst s h, enc1)" "ref_status (fst s h) = UNRESOLVED" "Deref (enc_store enc1) h = Some d"
    "d_body d = ArrayBody es" "encoder_at winv st sh gl (add_reference h ENCODED s) (new_reference pos ENCODED enc1)"
    "enc_output (new_reference pos ENCODED enc1) = enc_output enc" "\<not> IsNil h" "IsRef h" "link_symbol (enc_store enc) (enc_shallow enc) (enc_global enc) h = Some Handle_nil"
    by (rule EncodeObject_pending [OF enc_array(4,1)])
  obtain enc2 where e2: "WriteTag vt WIRE_SPECIAL WIRE_ARRAY (new_reference pos ENCODED enc1) = Some enc2"
    "encoder_at winv st sh gl (add_reference h ENCODED s) enc2"
    "prod (enc_output enc2) = prod (enc_output (new_reference pos ENCODED enc1)) @ map Some (tag_bytes WIRE_SPECIAL WIRE_ARRAY)"
    by (rule WriteTag_spec [OF f(5)])
  obtain enc3 where e3: "enc_write_varint32 vt (length es) enc2 = Some enc3" "encoder_at winv st sh gl (add_reference h ENCODED s) enc3"
    "prod (enc_output enc3) = prod (enc_output enc2) @ map Some (size_bytes (length es))"
    by (rule enc_write_varint32_spec [OF e2(2)])
  obtain enc4 where e4: "encode_elements (EncodeObject vt) vt es enc3 = Some enc4" "encoder_at winv st sh gl s' enc4"
    "prod (enc_output enc4) = prod (enc_output enc3) @ map Some bs" using enc_array(3) e3(2) by blast
  have "EncodeLink (EncodeObject vt) vt h enc = Some enc4" using f e2(1) e3(1) e4(1) by (simp add: EncodeLink_def [of _ _ h] EncodeObject.simps [of vt h])
  then show ?case using e2(3) e3(3) e4(2,3) f(6) by simp
next
  case (enc_frame s h slots bs s')
  obtain pos d enc1 where f: "find_reference h enc = Some (pos, fst s h, enc1)" "ref_status (fst s h) = UNRESOLVED" "Deref (enc_store enc1) h = Some d"
    "d_body d = FrameBody False False slots" "encoder_at winv st sh gl (add_reference h ENCODED s) (new_reference pos ENCODED enc1)"
    "enc_output (new_reference pos ENCODED enc1) = enc_output enc" "\<not> IsNil h" "IsRef h" "link_symbol (enc_store enc) (enc_shallow enc) (enc_global enc) h = Some Handle_nil"
    by (rule EncodeObject_pending [OF enc_frame(5,1)])
  obtain enc2 where e2: "WriteTag vt WIRE_FRAME (of_nat (length slots)) (new_reference pos ENCODED enc1) = Some enc2"
    "encoder_at winv st sh gl (add_reference h ENCODED s) enc2"
    "prod (enc_output enc2) = prod (enc_output (new_reference pos ENCODED enc1)) @ map Some (tag_bytes WIRE_FRAME (of_nat (length slots)))"
    by (rule WriteTag_spec [OF f(5)])
  obtain enc4 where e4: "encode_slots (EncodeObject vt) vt slots enc2 = Some enc4" "encoder_at winv st sh gl s' enc4"
    "prod (enc_output enc4) = prod (enc_output enc2) @ map Some bs" using enc_frame e2(2) by blast
  have "EncodeLink (EncodeObject vt) vt h enc = Some enc4" using f e2(1) e4(1) by (simp add: EncodeLink_def [of _ _ h] EncodeObject.simps [of vt h])
  then show ?case using e2(3) e4(2,3) f(6) by simp
next
  case (enc_done s)
  then show ?case by simp
next
  case (enc_next s e bs s1 es bs' s2)
  obtain enc1 where 1: "EncodeLink (EncodeObject vt) vt e enc = Some enc1" "encoder_at winv st sh gl s1 enc1"
    "prod (enc_output enc1) = prod (enc_output enc) @ map Some bs" using enc_next(2,5) by blast
  obtain enc2 where "encode_elements (EncodeObject vt) vt es enc1 = Some enc2" "encoder_at winv st sh gl s2 enc2"
    "prod (enc_output enc2) = prod (enc_output enc1) @ map Some bs'" using enc_next(4) 1(2) by blast
  then show ?case using 1 by simp
next
  case (enc_no_slots s)
  then show ?case by simp
next
  case (enc_slot s n bs1 s1 v bs2 s2 slots bs3 s3)
  obtain enc1 where 1: "EncodeLink (EncodeObject vt) vt n enc = Some enc1" "encoder_at winv st sh gl s1 enc1"
    "prod (enc_output enc1) = prod (enc_output enc) @ map Some bs1" using enc_slot(2,7) by blast
  obtain enc2 where 2: "EncodeLink (EncodeObject vt) vt v enc1 = Some enc2" "encoder_at winv st sh gl s2 enc2"
    "prod (enc_output enc2) = prod (enc_output enc1) @ map Some bs2" using enc_slot(4) 1(2) by blast
  obtain enc3 where "encode_slots (EncodeObject vt) vt slots enc2 = Some enc3" "encoder_at winv st sh gl s3 enc3"
    "prod (enc_output enc3) = prod (enc_output enc2) @ map Some bs3" using enc_slot(6) 2(2) by blast
  then show ?case using 1 2 by simp
qed

end


section \<open>Encodings extend the reference table\<close>

definition ext :: "references \<Rightarrow> references \<Rightarrow> bool" where
  "ext s s' \<longleftrightarrow> (\<forall>x. ref_status (fst s x) \<noteq> UNRESOLVED \<longrightarrow> fst s' x = fst s x)"

definition covered :: "references \<Rightarrow> Handle \<Rightarrow> bool" where
  "covered s x \<longleftrightarrow> IsNil x \<or> \<not> IsRef x \<or> ref_status (fst s x) \<noteq> UNRESOLVED"

definition unresolved :: "references \<Rightarrow> Handle set" where
  "unresolved s = {x. ref_status (fst s x) = UNRESOLVED}"

lemma ext_refl: "ext s s" by (simp add: ext_def)

lemma ext_trans: "ext s1 s2 \<Longrightarrow> ext s2 s3 \<Longrightarrow> ext s1 s3" by (simp add: ext_def)

lemma ext_add: "ref_status (fst s h) = UNRESOLVED \<Longrightarrow> ext s (add_reference h status s)"
  by (simp add: ext_def add_reference_def)

lemma covered_ext: "covered s x \<Longrightarrow> ext s s' \<Longrightarrow> covered s' x"
  by (auto simp: covered_def ext_def)

lemma covered_add: "status \<noteq> UNRESOLVED \<Longrightarrow> covered (add_reference h status s) h"
  by (simp add: covered_def add_reference_def)

lemma encodes_ext:
  "encodes st sh gl N s h bs s' \<Longrightarrow> ext s s' \<and> covered s' h"
  "encodes_all st sh gl N s es bs s' \<Longrightarrow> ext s s' \<and> (\<forall>e\<in>set es. covered s' e)"
  "encodes_slots st sh gl N s slots bs s' \<Longrightarrow> ext s s' \<and> (\<forall>(n, v)\<in>set slots. covered s' n \<and> covered s' v)"
proof (induction rule: encodes_encodes_all_encodes_slots.inducts)
  case (enc_string s h str)
  then show ?case by (simp add: ext_add covered_add pending_def)
next
  case (enc_link h s l d)
  then show ?case by (simp add: ext_add covered_add)
next
  case (enc_qstring s h str q bs s')
  then show ?case using ext_add [of s h ENCODED] covered_add [of ENCODED h s] ext_trans covered_ext by (auto simp: pending_def)
next
  case (enc_array s h es bs s')
  then show ?case using ext_add [of s h ENCODED] covered_add [of ENCODED h s] ext_trans covered_ext by (auto simp: pending_def)
next
  case (enc_frame s h slots bs s')
  then show ?case using ext_add [of s h ENCODED] covered_add [of ENCODED h s] ext_trans covered_ext unfolding pending_def by blast
next
  case (enc_next s e bs s1 es bs' s2)
  then have "ext s s2" "covered s2 e" using ext_trans covered_ext by blast+
  then show ?case using enc_next by simp
next
  case (enc_slot s n bs1 s1 v bs2 s2 slots bs3 s3)
  then have "ext s s3" "covered s3 n" "covered s3 v" using ext_trans covered_ext by blast+
  then show ?case using enc_slot by auto
qed (auto simp: ext_refl ext_add covered_add covered_def IsInt_kind IsFloat_kind IsIndex_IsFloat)

lemma finite_Handle: "finite (A :: Handle set)"
proof -
  have "(UNIV :: Handle set) \<subseteq> Handle ` UNIV" by (metis Handle.exhaust subsetI rangeI)
  then show ?thesis by (metis finite_imageI finite_subset finite subset_UNIV)
qed

lemma unresolved_add:
  "ref_status (fst s h) = UNRESOLVED \<Longrightarrow> status \<noteq> UNRESOLVED \<Longrightarrow> Suc (card (unresolved (add_reference h status s))) = card (unresolved s)"
proof -
  assume a: "ref_status (fst s h) = UNRESOLVED" "status \<noteq> UNRESOLVED"
  then have "unresolved (add_reference h status s) = unresolved s - {h}" "h \<in> unresolved s" by (auto simp: unresolved_def add_reference_def)
  then show ?thesis using card_Suc_Diff1 [OF finite_Handle, of h "unresolved s"] by simp
qed

lemma encodes_count:
  "encodes st sh gl N s h bs s' \<Longrightarrow> snd s' + card (unresolved s') = snd s + card (unresolved s)"
  "encodes_all st sh gl N s es bs s' \<Longrightarrow> snd s' + card (unresolved s') = snd s + card (unresolved s)"
  "encodes_slots st sh gl N s slots bs s' \<Longrightarrow> snd s' + card (unresolved s') = snd s + card (unresolved s)"
proof -
  have add: "snd (add_reference h status s) + card (unresolved (add_reference h status s)) = snd s + card (unresolved s)"
    if "ref_status (fst s h) = UNRESOLVED" "status \<noteq> UNRESOLVED" for h status s
    using unresolved_add [OF that] by (simp add: add_reference_def)
  show "encodes st sh gl N s h bs s' \<Longrightarrow> snd s' + card (unresolved s') = snd s + card (unresolved s)"
    "encodes_all st sh gl N s es bs s' \<Longrightarrow> snd s' + card (unresolved s') = snd s + card (unresolved s)"
    "encodes_slots st sh gl N s slots bs s' \<Longrightarrow> snd s' + card (unresolved s') = snd s + card (unresolved s)"
    by (induction rule: encodes_encodes_all_encodes_slots.inducts) (simp_all add: add pending_def)
qed

lemma unresolved_mono: "ext s s' \<Longrightarrow> card (unresolved s') \<le> card (unresolved s)"
proof -
  assume "ext s s'"
  then have "unresolved s' \<subseteq> unresolved s" by (auto simp: ext_def unresolved_def)
  then show ?thesis by (rule card_mono [OF finite_Handle])
qed

lemma encodes_index: "encodes st sh gl N s h bs s' \<Longrightarrow> snd s \<le> snd s'"
  using encodes_count(1) [of st sh gl N s h bs s'] unresolved_mono [of s s'] encodes_ext(1) [of st sh gl N s h bs s'] by simp

section \<open>Encodings exist\<close>

definition special_handles :: "Handle set" where
  "special_handles = {Handle_id, Handle_isa, Handle_is, Handle_name}"

text \<open>An object that can be encoded on its own; \<open>S\<close> is the set of the handles it may contain.\<close>

definition plain_body :: "Handle set \<Rightarrow> body \<Rightarrow> bool" where
  "plain_body S b \<longleftrightarrow> object_bytes b < kObjectSizeLimit \<and> (case b of
      StringBody _ \<Rightarrow> True
    | QStringBody _ q \<Rightarrow> q \<in> S
    | ArrayBody es \<Rightarrow> set es \<subseteq> S
    | FrameBody proxy public slots \<Rightarrow> \<not> proxy \<and> \<not> public \<and> Handle_id \<notin> fst ` set slots \<and> fst ` set slots \<subseteq> S \<and> snd ` set slots \<subseteq> S
    | _ \<Rightarrow> False)"

definition encodable :: "Store \<Rightarrow> bool \<Rightarrow> bool \<Rightarrow> byte list set \<Rightarrow> Handle set \<Rightarrow> Handle \<Rightarrow> bool" where
  "encodable st sh gl N S x \<longleftrightarrow> IsNil x \<or> IsInt x \<or> IsFloat x \<and> \<not> IsError x \<or>
     IsRef x \<and> (\<exists>l. link_symbol st sh gl x = Some l \<and>
       (x \<in> special_handles \<or>
        (if IsNil l then \<exists>d. Deref st x = Some d \<and> plain_body S (d_body d)
         else \<exists>d. GetSymbol st l = Some d \<and> sym_name (d_body d) \<in> N)))"

definition refs_ok :: "Store \<Rightarrow> bool \<Rightarrow> bool \<Rightarrow> references \<Rightarrow> bool" where
  "refs_ok st sh gl s \<longleftrightarrow> (\<forall>x\<in>special_handles. ref_status (fst s x) = SPECIAL) \<and>
     (\<forall>x. ref_status (fst s x) = LINKED \<longrightarrow> link_symbol st sh gl x \<noteq> Some Handle_nil)"

lemma refs_ok_add:
  assumes "refs_ok st sh gl s" "ref_status (fst s h) = UNRESOLVED" "status = LINKED \<longrightarrow> link_symbol st sh gl h \<noteq> Some Handle_nil"
  shows "refs_ok st sh gl (add_reference h status s)"
  using assms by (auto simp: refs_ok_def add_reference_def)

definition same_outside :: "Handle set \<Rightarrow> references \<Rightarrow> references \<Rightarrow> bool" where
  "same_outside S s s' \<longleftrightarrow> (\<forall>x. x \<notin> S \<longrightarrow> fst s' x = fst s x)"

lemma encodes_all_exists:
  assumes step: "\<And>s x. card (unresolved s) < k \<Longrightarrow> refs_ok st sh gl s \<Longrightarrow> x \<in> S \<Longrightarrow>
      \<exists>bs s'. encodes st sh gl N s x bs s' \<and> refs_ok st sh gl s' \<and> same_outside S s s'"
    and "card (unresolved s) < k" "refs_ok st sh gl s" "set es \<subseteq> S"
  shows "\<exists>bs s'. encodes_all st sh gl N s es bs s' \<and> refs_ok st sh gl s' \<and> same_outside S s s'"
  using assms(2-)
proof (induction es arbitrary: s)
  case Nil
  then show ?case using enc_done by (fastforce simp: same_outside_def)
next
  case (Cons e es)
  obtain bs s1 where 1: "encodes st sh gl N s e bs s1" "refs_ok st sh gl s1" "same_outside S s s1" using step [OF Cons.prems(1,2), of e] Cons.prems(3) by (metis list.set_intros(1) subsetD)
  have "card (unresolved s1) < k" using unresolved_mono [of s s1] encodes_ext(1) [OF 1(1)] Cons.prems(1) by simp
  then obtain bs' s2 where 2: "encodes_all st sh gl N s1 es bs' s2" "refs_ok st sh gl s2" "same_outside S s1 s2" using Cons.IH [OF _ 1(2)] Cons.prems(3) by (metis list.set_intros(2) subset_eq)
  have "same_outside S s s2" using 1(3) 2(3) by (simp add: same_outside_def)
  then show ?case using enc_next [OF 1(1) 2(1)] 2(2) by blast
qed

lemma encodes_slots_exists:
  assumes step: "\<And>s x. card (unresolved s) < k \<Longrightarrow> refs_ok st sh gl s \<Longrightarrow> x \<in> S \<Longrightarrow>
      \<exists>bs s'. encodes st sh gl N s x bs s' \<and> refs_ok st sh gl s' \<and> same_outside S s s'"
    and "card (unresolved s) < k" "refs_ok st sh gl s" "fst ` set slots \<subseteq> S" "snd ` set slots \<subseteq> S"
  shows "\<exists>bs s'. encodes_slots st sh gl N s slots bs s' \<and> refs_ok st sh gl s' \<and> same_outside S s s'"
  using assms(2-)
proof (induction slots arbitrary: s)
  case Nil
  then show ?case using enc_no_slots by (fastforce simp: same_outside_def)
next
  case (Cons e slots)
  obtain n v where e: "e = (n, v)" by (cases e)
  have m: "n \<in> S" "v \<in> S" "fst ` set slots \<subseteq> S" "snd ` set slots \<subseteq> S" using Cons.prems(3,4) e by auto
  obtain bs1 s1 where 1: "encodes st sh gl N s n bs1 s1" "refs_ok st sh gl s1" "same_outside S s s1" using step [OF Cons.prems(1,2), of n] m by blast
  have k1: "card (unresolved s1) < k" using unresolved_mono [of s s1] encodes_ext(1) [OF 1(1)] Cons.prems(1) by simp
  obtain bs2 s2 where 2: "encodes st sh gl N s1 v bs2 s2" "refs_ok st sh gl s2" "same_outside S s1 s2" using step [OF k1 1(2), of v] m by blast
  have "card (unresolved s2) < k" using unresolved_mono [of s1 s2] encodes_ext(1) [OF 2(1)] k1 by simp
  then obtain bs3 s3 where 3: "encodes_slots st sh gl N s2 slots bs3 s3" "refs_ok st sh gl s3" "same_outside S s2 s3" using Cons.IH [OF _ 2(2)] m by blast
  have "same_outside S s s3" using 1(3) 2(3) 3(3) by (simp add: same_outside_def)
  then show ?case using enc_slot [OF 1(1) 2(1) 3(1)] 3(2) e by blast
qed

lemma encodes_exists:
  assumes closed: "\<forall>x\<in>S. encodable st sh gl N S x" and "refs_ok st sh gl s" "h \<in> S"
  shows "\<exists>bs s'. encodes st sh gl N s h bs s' \<and> refs_ok st sh gl s' \<and> same_outside S s s'"
  using assms(2,3)
proof (induction "card (unresolved s)" arbitrary: s h rule: less_induct)
  case less
  have self: ?case if "encodes st sh gl N s h bs s" for bs by (intro exI [of _ bs] exI [of _ s]) (simp add: that less.prems(1) same_outside_def)
  have e: "encodable st sh gl N S h" using closed less.prems(2) by blast
  consider "IsNil h" | "IsInt h" | "IsFloat h" "\<not> IsError h"
    | l where "IsRef h" "\<not> IsNil h" "link_symbol st sh gl h = Some l" "ref_status (fst s h) \<noteq> UNRESOLVED"
    | l d where "IsRef h" "\<not> IsNil h" "link_symbol st sh gl h = Some l" "ref_status (fst s h) = UNRESOLVED" "\<not> IsNil l"
        "GetSymbol st l = Some d" "sym_name (d_body d) \<in> N"
    | d where "IsRef h" "\<not> IsNil h" "link_symbol st sh gl h = Some Handle_nil" "ref_status (fst s h) = UNRESOLVED"
        "Deref st h = Some d" "plain_body S (d_body d)"
  proof -
    have "ref_status (fst s h) = SPECIAL" if "h \<in> special_handles" using that less.prems(1) by (simp add: refs_ok_def)
    moreover have "IsNil l \<Longrightarrow> l = Handle_nil" for l by (cases l) (simp add: IsNil_def Handle_nil_def)
    ultimately show thesis using e that EncoderStatus.distinct unfolding encodable_def by metis
  qed
  then show ?case
  proof cases
    case 1
    then have "h = Handle_nil" by (cases h) (simp add: IsNil_def Handle_nil_def)
    then show ?thesis using self enc_nil by blast
  next
    case 2
    then show ?thesis using self enc_int by blast
  next
    case 3
    then show ?thesis using self enc_index enc_float by blast
  next
    case (4 l)
    have "ref_status (fst s h) = LINKED \<longrightarrow> \<not> IsNil l" using less.prems(1) 4(3) by (cases l) (auto simp: refs_ok_def IsNil_def Handle_nil_def)
    then show ?thesis using self enc_ref [OF 4(1,2,4,3)] by blast
  next
    case (5 l d)
    have "refs_ok st sh gl (add_reference h LINKED s)" using 5(3,5) by (intro refs_ok_add [OF less.prems(1) 5(4)]) auto
    moreover have "same_outside S s (add_reference h LINKED s)" using less.prems(2) by (auto simp: same_outside_def add_reference_def)
    ultimately show ?thesis using enc_link [OF 5(1,2,4,3,5,6,7)] by blast
  next
    case (6 d)
    let ?s = "add_reference h ENCODED s"
    have ok: "refs_ok st sh gl ?s" by (intro refs_ok_add [OF less.prems(1) 6(4)]) auto
    have out: "same_outside S s s'" if "same_outside S ?s s'" for s' using that less.prems(2) by (auto simp: same_outside_def add_reference_def)
    have p: "pending st sh gl s h (d_body d)" using 6 by (simp add: pending_def plain_body_def)
    have k: "card (unresolved ?s) < card (unresolved s)" using unresolved_add [OF 6(4), of ENCODED] by simp
    show ?thesis
    proof (cases "d_body d")
      case (StringBody str)
      moreover have "same_outside S ?s ?s" by (simp add: same_outside_def)
      ultimately show ?thesis using enc_string [of st sh gl s h str N] p ok out [of ?s] by metis
    next
      case (QStringBody str q)
      then have "q \<in> S" using 6(6) by (simp add: plain_body_def)
      then obtain bs s' where "encodes st sh gl N ?s q bs s'" "refs_ok st sh gl s'" "same_outside S ?s s'" using less.hyps [OF k ok] by blast
      then show ?thesis using enc_qstring p out QStringBody by metis
    next
      case (ArrayBody es)
      then have "set es \<subseteq> S" using 6(6) by (simp add: plain_body_def)
      then obtain bs s' where "encodes_all st sh gl N ?s es bs s'" "refs_ok st sh gl s'" "same_outside S ?s s'"
        using encodes_all_exists [OF less.hyps k ok] by blast
      then show ?thesis using enc_array p out ArrayBody by metis
    next
      case (FrameBody proxy public slots)
      then have f: "\<not> proxy" "\<not> public" "Handle_id \<notin> fst ` set slots" "fst ` set slots \<subseteq> S" "snd ` set slots \<subseteq> S"
        using 6(6) by (simp_all add: plain_body_def)
      then obtain bs s' where "encodes_slots st sh gl N ?s slots bs s'" "refs_ok st sh gl s'" "same_outside S ?s s'"
        using encodes_slots_exists [OF less.hyps k ok] by blast
      then show ?thesis using enc_frame [of st sh gl s h slots N bs s'] p out FrameBody f(1-3) by metis
    qed (use 6(6) in \<open>simp_all add: plain_body_def\<close>)
  qed
qed

end
