(* ===== verification/Frame_Codec.thy ===== *)
theory Frame_Codec
  imports Frame_Wire
begin

text \<open>
  The decoder reads back what the encoder writes: decoding the encoding of an object gives a copy of everything the
  object reaches, with the same sharing and the same cycles.
\<close>

section \<open>Stores that grow\<close>

definition grows :: "Store \<Rightarrow> Store \<Rightarrow> bool" where
  "grows st st' \<longleftrightarrow> (\<forall>h d. Deref st h = Some d \<longrightarrow> Deref st' h = Some d) \<and>
     (symbols st', num_symbols st', globals st', store_tag st') = (symbols st, num_symbols st, globals st, store_tag st)"

lemma grows_refl [simp]: "grows st st" by (simp add: grows_def)

lemma grows_trans: "grows st st1 \<Longrightarrow> grows st1 st2 \<Longrightarrow> grows st st2" by (simp add: grows_def)

lemma Deref_externals [simp]: "Deref (st\<lparr>externals := e\<rparr>) h = Deref st h"
proof -
  have "pool_deref (st\<lparr>externals := e\<rparr>) h = pool_deref st h" by (simp add: pool_deref_def pool_address_def split: Reference.split)
  then show ?thesis by (simp add: Deref_def split: option.split)
qed

lemma handle_inv_externals [simp]: "handle_inv (st\<lparr>externals := e\<rparr>) = handle_inv st"
  by (simp add: handle_inv_def ref_ok_def cong: Reference.case_cong)

lemma growable_externals [simp]: "growable (st\<lparr>externals := e\<rparr>) = growable st"
  by (simp add: growable_def)

lemma grows_externals [simp]: "grows (st\<lparr>externals := e\<rparr>) st' = grows st st'" "grows st (st'\<lparr>externals := e\<rparr>) = grows st st'"
  by (simp_all add: grows_def)

lemma Allocate_handles:
  assumes "Allocate b st = Some (h, st')" "handle_inv st" "growable st" "has_room st" "object_bytes b < kObjectSizeLimit"
  shows "length (handles st') \<le> length (handles st) + 1" "handles st' \<noteq> []"
proof -
  obtain a st1 where a: "AllocateDatum b st = Some (a, st1)" "allocated b st (Some (a, st1))"
    using AllocateDatum_spec [OF assms(3,5)] unfolding allocated_def by blast
  note al = allocated_inv [OF assms(2) a(2)]
  have "AllocateHandle a st1 = Some (h, st')" using assms(1) a(1) by (simp add: Allocate_def)
  moreover have "\<not> frozen st1" using al(8) assms(3) by (simp add: growable_def)
  ultimately have hb: "handle_bound a st1 h st'" using AllocateHandle_spec [OF al(1), of a] al(9) assms(4) by auto
  obtain i where i: "i < length (handles st')" "\<And>j. j < length (handles st') \<Longrightarrow> j \<noteq> i \<Longrightarrow> j < length (handles st1)"
    using hb unfolding handle_bound_def by (auto simp: put_object_def)
  have "\<not> length (handles st1) + 1 < length (handles st')"
    using i(2) [of "length (handles st1)"] i(2) [of "length (handles st1) + 1"] by (metis Suc_eq_plus1 n_not_Suc_n lessI less_irrefl less_trans not_less_eq)
  then show "length (handles st') \<le> length (handles st) + 1" using al(10) by simp
  show "handles st' \<noteq> []" using i(1) by auto
qed

lemma modify_handles: "modify h f st = Some st' \<Longrightarrow> handles st' = handles st"
  by (auto simp: modify_def put_object_def split: if_splits option.splits)

text \<open>Looking up a name that is bound in a store that has grown.\<close>

lemma find_chain_grows:
  "find_chain deref name hash h = Some r \<Longrightarrow> (\<forall>h d. deref h = Some d \<longrightarrow> deref' h = Some d) \<longrightarrow> find_chain deref' name hash h = Some r"
proof (induction rule: find_chain.raw_induct [rotated, consumes 1, case_names step])
  case (step loop deref name hash h r)
  show ?case
  proof (cases "IsNil h")
    case True
    then show ?thesis using step(2) by (simp add: find_chain.simps)
  next
    case False
    then obtain d where d: "deref h = Some d" using step(2) by (auto split: option.splits)
    then obtain n v hs s where b: "d_body d = SymbolBody n v hs s" using step(2) False by (auto split: body.splits)
    show ?thesis using step(2) step(1) [of deref name hash n r] False d b by (auto simp: find_chain.simps [of deref' _ _ h] split: if_splits)
  qed
qed

lemma FindSymbol_grows:
  assumes "grows st st'" "FindSymbol name hash st = Some r"
  shows "FindSymbol name hash st' = Some r"
proof (cases "num_symbols st > 0")
  case True
  have g: "\<forall>h d. Deref st h = Some d \<longrightarrow> Deref st' h = Some d" "symbols st' = symbols st" "num_symbols st' = num_symbols st"
    using assms(1) by (simp_all add: grows_def)
  obtain d where d: "Deref st (symbols st) = Some d" using assms(2) True by (auto simp: FindSymbol_def find_symbol_def split: option.splits)
  obtain es where es: "d_body d = ArrayBody es" using assms(2) True d by (auto simp: FindSymbol_def find_symbol_def split: body.splits)
  have "Deref st' (symbols st) = Some d" using g(1) d by blast
  then show ?thesis using assms(2) True d es g find_chain_grows [of "Deref st" name hash _ r "Deref st'"]
    by (auto simp: FindSymbol_def find_symbol_def split: if_splits)
next
  case False
  then show ?thesis using assms by (simp add: grows_def FindSymbol_def find_symbol_def)
qed

text \<open>The names a decoder can link to without changing the store.\<close>

definition resolves :: "Store \<Rightarrow> byte list \<Rightarrow> Handle \<Rightarrow> bool" where
  "resolves st name v \<longleftrightarrow> LookupExisting name st = Some v \<and> IsRef v \<and> \<not> IsNil v \<and> v \<noteq> Handle_id"

lemma resolves_grows:
  assumes "grows st st'" "resolves st name v"
  shows "resolves st' name v"
proof -
  obtain hash symb d where h: "Store_Hash name = Some hash" "ExistingSymbol name st = Some symb" "\<not> IsNil symb" "GetSymbol st symb = Some d" "v = sym_value (d_body d)"
    using assms(2) by (auto simp: resolves_def LookupExisting_def ExistingSymbol_def split: if_splits bind_splits)
  have "globals st' = globals st" using assms(1) by (simp add: grows_def)
  moreover obtain f where f: "FindSymbol name hash st = Some f" using h by (auto simp: ExistingSymbol_def split: bind_splits)
  ultimately have "ExistingSymbol name st' = Some symb" using h(1,2) FindSymbol_grows [OF assms(1) f] f by (simp add: ExistingSymbol_def split: if_splits)
  moreover have "GetSymbol st' symb = Some d" using h(4) assms(1) by (auto simp: GetSymbol_def grows_def split: option.splits body.splits)
  ultimately show ?thesis using assms(2) h by (simp add: resolves_def LookupExisting_def)
qed

lemma resolves_Lookup:
  assumes "resolves st name v"
  shows "Store_Lookup name st = Some (v, st)"
proof -
  obtain symb d where h: "ExistingSymbol name st = Some symb" "\<not> IsNil symb" "GetSymbol st symb = Some d" "v = sym_value (d_body d)"
    using assms by (auto simp: resolves_def LookupExisting_def split: if_splits bind_splits)
  obtain hash f where f: "Store_Hash name = Some hash" "FindSymbol name hash st = Some f" using h(1) by (auto simp: ExistingSymbol_def split: bind_splits)
  have "Store_Symbol name st = Some (symb, st)"
    using h(1,2) f by (auto simp: ExistingSymbol_def Store_Symbol_def split: if_splits option.splits)
  then show ?thesis using assms h by (simp add: Store_Lookup_def resolves_def)
qed


lemma Deref_GetFrame: "Deref st h = Some d \<Longrightarrow> d_body d = FrameBody proxy public slots \<Longrightarrow> GetFrame st h = Some (proxy, public, slots)"
  by (simp add: GetFrame_def)

lemma update_loop_spec:
  assumes "handle_inv st" "Owned st h" "Deref st h = Some d" "d_body d = FrameBody proxy public (pre @ old)" "length old = length slots"
    "Handle_id \<notin> fst ` set slots"
  shows "\<exists>st'. update_loop h (length pre) slots st = Some st' \<and> handle_inv st' \<and> growable st' = growable st \<and> handles st' = handles st \<and>
    others st' = others st \<and> Deref st' h = Some (set_body (FrameBody proxy public (pre @ slots)) d) \<and> (\<forall>h'. h' \<noteq> h \<longrightarrow> Deref st' h' = Deref st h')"
  using assms
proof (induction slots arbitrary: pre old st d)
  case Nil
  then have "set_body (FrameBody proxy public (pre @ [])) d = d" by (cases d) (simp add: set_body_def)
  then show ?case using Nil by simp
next
  case (Cons s slots)
  obtain n v where s: "s = (n, v)" by (cases s)
  obtain o1 old' where old: "old = o1 # old'" "length old' = length slots" using Cons.prems(5) by (cases old) auto
  let ?b = "FrameBody proxy public ((pre @ [(n, v)]) @ old')"
  obtain st1 where m: "modify h (set_body ?b) st = Some st1" "handle_inv st1" "Deref st1 h = Some (set_body ?b d)"
    "others st1 = others st" "growable st1 = growable st" "\<forall>h'. h' \<noteq> h \<longrightarrow> Deref st1 h' = Deref st h'"
    using modify_spec [OF Cons.prems(1-3), of "set_body ?b"] by (auto simp: set_body_def)
  have o: "Owned st1 h" using Cons.prems(2) m(4) by (simp add: Owned_def others_def)
  have b: "d_body (set_body ?b d) = ?b" by (simp add: set_body_def)
  have id: "n \<noteq> Handle_id" "Handle_id \<notin> fst ` set slots" using Cons.prems(6) s by auto
  have sb: "set_body x (set_body ?b d) = set_body x d" for x by (simp add: set_body_def)
  obtain st2 where u: "update_loop h (length (pre @ [(n, v)])) slots st1 = Some st2" "handle_inv st2" "growable st2 = growable st1" "handles st2 = handles st1"
    "others st2 = others st1" "Deref st2 h = Some (set_body (FrameBody proxy public ((pre @ [(n, v)]) @ slots)) d)"
    "\<forall>h'. h' \<noteq> h \<longrightarrow> Deref st2 h' = Deref st1 h'"
    using Cons.IH [OF m(2) o m(3) b old(2) id(2)] unfolding sb by blast
  have "(pre @ old)[length pre := (n, v)] = (pre @ [(n, v)]) @ old'" using old(1) by simp
  then have "update_loop h (length pre) ((n, v) # slots) st = Some st2"
    using Deref_GetFrame [OF Cons.prems(3,4)] m(1) id(1) u(1) by simp
  then show ?case using u(2-7) m(4-6) modify_handles [OF m(1)] s by simp
qed

section \<open>Reading the wire format\<close>

lemma tag_fields:
  assumes "w < 8"
  shows "(w OR push_bit 3 a) AND 7 = (w :: uint64)" "drop_bit 3 (w OR push_bit 3 a) = take_bit 61 a"
proof -
  have m: "(7 :: uint64) = mask 3" by (simp add: mask_eq_exp_minus_1)
  have w: "take_bit 3 w = w" using assms by (simp add: word_unat_eq_iff unsigned_take_bit_eq take_bit_nat_eq_self word_less_nat_alt)
  have b: "bit w n \<Longrightarrow> n < 3" for n using arg_cong [OF w, of "\<lambda>x. bit x n"] by (auto simp: bit_take_bit_iff)
  have "take_bit 3 (w OR push_bit 3 a) = w" by (simp add: take_bit_push_bit w)
  then show "(w OR push_bit 3 a) AND 7 = w" by (simp only: m take_bit_eq_mask)
  show "drop_bit 3 (w OR push_bit 3 a) = take_bit 61 a"
    by (rule bit_word_eqI) (use b in \<open>auto simp: bit_simps dest: b\<close>)
qed

lemma tag_small: "a < 2 ^ 61 \<Longrightarrow> take_bit 61 (of_nat a :: uint64) = of_nat a"
  by (simp add: take_bit_of_nat take_bit_nat_eq_self)

lemma ucast_small: "a < 2 ^ 32 \<Longrightarrow> unat (ucast (of_nat a :: uint64) :: uint32) = a"
  by (simp add: unsigned_of_nat unsigned_ucast_eq take_bit_nat_eq_self)

lemma tag_int: "- (2 ^ 31) \<le> i \<Longrightarrow> i < 2 ^ 31 \<Longrightarrow> sint (ucast (take_bit 61 (of_int i :: uint64)) :: uint32) = i"
proof -
  assume "- (2 ^ 31) \<le> i" "i < 2 ^ 31"
  have "(ucast (take_bit 61 (of_int i :: uint64)) :: uint32) = of_int i"
    by (rule bit_word_eqI) (simp add: bit_simps)
  then show ?thesis using \<open>- (2 ^ 31) \<le> i\<close> \<open>i < 2 ^ 31\<close> by (simp add: signed_of_int signed_take_bit_int_eq_self)
qed

context input_stream
begin

lemma read_tag_spec:
  assumes "rinv (dec_input dec)" "cont (dec_input dec) = tag_bytes w a @ r"
  obtains inp where "read_varint64 vt dec = Some (Some (w OR push_bit 3 a), dec\<lparr>dec_input := inp\<rparr>)" "rinv inp" "cont inp = r"
proof -
  obtain inp where "Input_ReadVarint64 vt (dec_input dec) = Some (Value (w OR push_bit 3 a), inp)" "rinv inp" "cont inp = r"
    using Input_ReadVarint64_spec [OF assms(1)] by (auto simp: assms(2) tag_bytes_def Parse64_Encode64)
  then show thesis using that by (simp add: read_varint64_def)
qed

lemma read_size_spec:
  assumes "rinv (dec_input dec)" "cont (dec_input dec) = size_bytes n @ r"
  obtains inp where "read_varint32 vt dec = Some (Some (of_nat n), dec\<lparr>dec_input := inp\<rparr>)" "rinv inp" "cont inp = r"
proof -
  obtain inp where "Input_ReadVarint32 vt (dec_input dec) = Some (Value (of_nat n), inp)" "rinv inp" "cont inp = r"
    using Input_ReadVarint32_spec [OF assms(1)] by (auto simp: assms(2) size_bytes_def Parse32_Encode32)
  then show thesis using that by (simp add: read_varint32_def)
qed

lemma read_name_spec:
  assumes "rinv (dec_input dec)" "cont (dec_input dec) = name @ r" "length name < 2 ^ 31"
  obtains inp where "read_name vt (of_nat (length name)) dec = Some (Some name, dec\<lparr>dec_input := inp\<rparr>)" "rinv inp" "cont inp = r"
proof -
  let ?n = "of_nat (length name) :: uint32"
  have n: "sint ?n = int (length name)" "unat ?n = length name"
    using assms(3) by (simp_all add: sint_uint unsigned_of_nat signed_take_bit_eq_if_positive take_bit_nat_eq_self take_bit_int_eq_self bit_iff_odd)
  show thesis
  proof (cases "length name < length (in_current (dec_input dec))")
    case True
    have "take (length name) (in_current (dec_input dec)) = name"
      using True assms(2) by (auto simp: contents_def append_eq_append_conv_if)
    then show thesis
      using that [of "(dec_input dec)\<lparr>in_current := drop (length name) (in_current (dec_input dec))\<rparr>"] advance [OF assms(1), of "length name"] True assms(2) n
      by (simp add: read_name_def Input_TryRead_def)
  next
    case False
    then show thesis using that copy_loop_spec [OF assms(1), of "length name" "[]"] assms(2) n
      by (auto simp: read_name_def Input_TryRead_def Input_ReadString_def)
  qed
qed

lemma read_string_spec:
  assumes "rinv (dec_input dec)" "cont (dec_input dec) = str @ r" "handle_inv (dec_store dec)" "Owned (dec_store dec) h" "Deref (dec_store dec) h = Some d"
    and b: "d_body d = StringBody x \<and> b = StringBody str \<or> d_body d = QStringBody x q \<and> b = QStringBody str q"
  obtains inp st where "read_string vt h (length str) dec = Some (True, dec\<lparr>dec_input := inp, dec_store := st\<rparr>)" "rinv inp" "cont inp = r"
    "handle_inv st" "growable st = growable (dec_store dec)" "handles st = handles (dec_store dec)" "others st = others (dec_store dec)"
    "Deref st h = Some (set_body b d)" "\<And>h'. h' \<noteq> h \<Longrightarrow> Deref st h' = Deref (dec_store dec) h'"
proof -
  let ?f = "\<lambda>d. case d_body d of StringBody _ \<Rightarrow> set_body (StringBody str) d | QStringBody _ q \<Rightarrow> set_body (QStringBody str q) d | _ \<Rightarrow> d"
  have f: "?f d = set_body b d" using b by auto
  have "d_self (?f d) = d_self d" unfolding f by (simp add: set_body_def)
  from modify_spec [OF assms(3-5), of ?f, OF this] obtain st where st: "modify h ?f (dec_store dec) = Some st" "handle_inv st" "Deref st h = Some (?f d)"
    "others st = others (dec_store dec)" "growable st = growable (dec_store dec)" "\<forall>h'. h' \<noteq> h \<longrightarrow> Deref st h' = Deref (dec_store dec) h'" by blast
  obtain inp where inp: "Input_Read vt (length str) (dec_input dec) = Some (True, str, inp)" "rinv inp" "cont inp = r"
    using Input_Read_spec [OF assms(1), of "length str"] by (auto simp: assms(2))
  show thesis by (rule that [of st inp]) (use st inp modify_handles [OF st(1)] f in \<open>simp_all add: read_string_def\<close>)
qed

end


section \<open>Copies of objects\<close>

text \<open>The handle of the copy of an object: \<open>R\<close> is the table of references of the decoder.\<close>

definition copy_of :: "references \<Rightarrow> Handle list \<Rightarrow> Handle \<Rightarrow> Handle" where
  "copy_of s R x = (if IsNil x \<or> \<not> IsRef x \<or> ref_status (fst s x) = SPECIAL then x else R ! ref_index (fst s x))"

fun copy_body :: "(Handle \<Rightarrow> Handle) \<Rightarrow> body \<Rightarrow> body" where
  "copy_body f (StringBody str) = StringBody str"
| "copy_body f (QStringBody str q) = QStringBody str (f q)"
| "copy_body f (SymbolBody n v h name) = SymbolBody (f n) (f v) h name"
| "copy_body f (ArrayBody es) = ArrayBody (map f es)"
| "copy_body f (FrameBody proxy public slots) = FrameBody proxy public (map (map_prod f f) slots)"
| "copy_body f (Remainder info ws) = Remainder info ws"

lemma copy_body_cong: "(\<And>x. x \<in> set (object_refs b) \<Longrightarrow> f x = g x) \<Longrightarrow> copy_body f b = copy_body g b"
  by (cases b) (auto simp: map_prod_def)

text \<open>The table of the encoder: the numbers of the objects and of the special handles.\<close>

definition special_indices :: "(Handle \<times> uint64) set" where
  "special_indices = {(Handle_id, WIRE_ID), (Handle_isa, WIRE_ISA), (Handle_is, WIRE_IS), (Handle_name, WIRE_NAME)}"

definition table_ok :: "references \<Rightarrow> bool" where
  "table_ok s \<longleftrightarrow> (\<forall>x. ref_status (fst s x) \<noteq> UNRESOLVED \<longrightarrow>
     (if ref_status (fst s x) = SPECIAL then (x, of_nat (ref_index (fst s x))) \<in> special_indices else ref_index (fst s x) < snd s))"

lemma table_ok_add:
  assumes "table_ok s" "snd s < 2 ^ 30" "status = LINKED \<or> status = ENCODED"
  shows "table_ok (add_reference h status s)"
proof -
  have m: "snd s mod 2 ^ 30 = snd s" using assms(2) by simp
  show ?thesis using assms(1,3) unfolding table_ok_def add_reference_def m by (auto split: if_splits simp: less_Suc_eq)
qed

lemma copy_of_ext:
  assumes "covered s x" "table_ok s" "ext s s'" "length R = snd s"
  shows "copy_of s' (R @ new) x = copy_of s R x"
proof (cases "IsNil x \<or> \<not> IsRef x")
  case False
  then have "ref_status (fst s x) \<noteq> UNRESOLVED" "fst s' x = fst s x" using assms(1,3) by (simp_all add: covered_def ext_def)
  moreover have "ref_status (fst s x) \<noteq> SPECIAL \<Longrightarrow> ref_index (fst s x) < length R" using assms(2,4) calculation(1) by (metis table_ok_def)
  ultimately show ?thesis by (auto simp: copy_of_def nth_append)
qed (auto simp: copy_of_def)

lemma copy_of_new:
  assumes "IsRef x" "\<not> IsNil x" "status \<noteq> SPECIAL" "snd s < 2 ^ 30" "length R = snd s"
  shows "copy_of (add_reference x status s) (R @ [h]) x = h"
  using assms by (simp add: copy_of_def add_reference_def nth_append)

text \<open>What has been decoded between two states: new objects with the contents of the encoded ones, and links that are resolved.\<close>

definition fresh_in :: "references \<Rightarrow> references \<Rightarrow> Handle \<Rightarrow> bool" where
  "fresh_in s s' x \<longleftrightarrow> ref_status (fst s x) = UNRESOLVED \<and> ref_status (fst s' x) = ENCODED"

definition copied :: "Store \<Rightarrow> references \<Rightarrow> Handle list \<Rightarrow> Store \<Rightarrow> Handle \<Rightarrow> bool" where
  "copied src s R st x \<longleftrightarrow> (\<exists>d e. Deref src x = Some d \<and> Deref st (copy_of s R x) = Some e \<and> d_body e = copy_body (copy_of s R) (d_body d) \<and>
     (\<forall>y\<in>set (object_refs (d_body d)). covered s y))"

definition linked :: "Store \<Rightarrow> bool \<Rightarrow> bool \<Rightarrow> Store \<Rightarrow> Handle \<Rightarrow> Handle \<Rightarrow> bool" where
  "linked src sh gl st x v \<longleftrightarrow> (\<exists>l d. link_symbol src sh gl x = Some l \<and> GetSymbol src l = Some d \<and> resolves st (sym_name (d_body d)) v)"

definition copies :: "Store \<Rightarrow> bool \<Rightarrow> bool \<Rightarrow> Store \<Rightarrow> references \<Rightarrow> references \<Rightarrow> Store \<Rightarrow> Store \<Rightarrow> Handle list \<Rightarrow> bool" where
  "copies src sh gl st0 s s' st st' R \<longleftrightarrow>
     (\<forall>x. fresh_in s s' x \<longrightarrow> Deref st (copy_of s' R x) = None \<and> copied src s' R st' x) \<and>
     (\<forall>x y. fresh_in s s' x \<longrightarrow> fresh_in s s' y \<longrightarrow> copy_of s' R x = copy_of s' R y \<longrightarrow> x = y) \<and>
     (\<forall>x. ref_status (fst s x) = UNRESOLVED \<longrightarrow> ref_status (fst s' x) = LINKED \<longrightarrow> linked src sh gl st0 x (copy_of s' R x))"

lemma copies_refl: "copies src sh gl st0 s s st st' R"
  by (auto simp: copies_def fresh_in_def)

lemma copied_ext:
  assumes "copied src s R st x" "covered s x" "table_ok s" "ext s s'" "length R = snd s" "grows st st'"
  shows "copied src s' (R @ new) st' x"
proof -
  obtain d e where d: "Deref src x = Some d" "Deref st (copy_of s R x) = Some e" "d_body e = copy_body (copy_of s R) (d_body d)"
    "\<forall>y\<in>set (object_refs (d_body d)). covered s y" using assms(1) unfolding copied_def by blast
  have c: "copy_body (copy_of s' (R @ new)) (d_body d) = copy_body (copy_of s R) (d_body d)"
    using d(4) copy_of_ext [OF _ assms(3-5)] by (intro copy_body_cong) blast
  have "Deref st' (copy_of s' (R @ new) x) = Some e" using copy_of_ext [OF assms(2-5)] d(2) assms(6) by (simp add: grows_def)
  moreover have "\<forall>y\<in>set (object_refs (d_body d)). covered s' y" using d(4) covered_ext assms(4) by blast
  ultimately show ?thesis using d(1,3) c unfolding copied_def by metis
qed

lemma copies_trans:
  assumes 1: "copies src sh gl st0 s s1 st st1 R" and 2: "copies src sh gl st0 s1 s2 st1 st2 (R @ new)"
    and "table_ok s1" "ext s s1" "ext s1 s2" "length R = snd s1" "grows st st1" "grows st1 st2"
  shows "copies src sh gl st0 s s2 st st2 (R @ new)"
proof -
  have old: "fst s2 x = fst s1 x \<and> copy_of s2 (R @ new) x = copy_of s1 R x \<and> covered s1 x" if "ref_status (fst s1 x) \<noteq> UNRESOLVED" for x
  proof -
    have "covered s1 x" using that by (simp add: covered_def)
    then show ?thesis using that copy_of_ext [OF _ assms(3,5,6)] assms(5) by (simp add: ext_def)
  qed
  have split: "fresh_in s s1 x \<or> fresh_in s1 s2 x" if "fresh_in s s2 x" for x
    using that old [of x] by (cases "ref_status (fst s1 x) = UNRESOLVED") (auto simp: fresh_in_def)
  have none: "Deref st h = None" if "Deref st1 h = None" for h using that assms(7) by (cases "Deref st h") (auto simp: grows_def)
  have f1: "copy_of s2 (R @ new) x = copy_of s1 R x" "Deref st (copy_of s1 R x) = None" "Deref st1 (copy_of s1 R x) \<noteq> None" "copied src s2 (R @ new) st2 x"
    if "fresh_in s s1 x" for x
  proof -
    have x: "ref_status (fst s1 x) \<noteq> UNRESOLVED" using that by (simp add: fresh_in_def)
    have c: "copied src s1 R st1 x" "Deref st (copy_of s1 R x) = None" using 1 that unfolding copies_def by blast+
    show "copy_of s2 (R @ new) x = copy_of s1 R x" "Deref st (copy_of s1 R x) = None" using old [OF x] c by simp_all
    show "Deref st1 (copy_of s1 R x) \<noteq> None" using c(1) by (auto simp: copied_def)
    show "copied src s2 (R @ new) st2 x" using copied_ext [OF c(1) _ assms(3,5,6,8)] old [OF x] by blast
  qed
  have f2: "Deref st1 (copy_of s2 (R @ new) x) = None" "copied src s2 (R @ new) st2 x" if "fresh_in s1 s2 x" for x
    using 2 that unfolding copies_def by blast+
  show ?thesis unfolding copies_def
  proof (intro conjI allI impI)
    fix x assume x: "fresh_in s s2 x"
    show "Deref st (copy_of s2 (R @ new) x) = None" "copied src s2 (R @ new) st2 x" using split [OF x] f1 [of x] f2 [of x] none by auto
    fix y assume y: "fresh_in s s2 y" and e: "copy_of s2 (R @ new) x = copy_of s2 (R @ new) y"
    have i1: "fresh_in s s1 x \<Longrightarrow> fresh_in s s1 y \<Longrightarrow> copy_of s1 R x = copy_of s1 R y \<Longrightarrow> x = y" using 1 unfolding copies_def by blast
    have i2: "fresh_in s1 s2 x \<Longrightarrow> fresh_in s1 s2 y \<Longrightarrow> x = y" using 2 e unfolding copies_def by blast
    consider "fresh_in s s1 x" "fresh_in s s1 y" | "fresh_in s1 s2 x" "fresh_in s1 s2 y" | "fresh_in s s1 x" "fresh_in s1 s2 y" | "fresh_in s1 s2 x" "fresh_in s s1 y"
      using split [OF x] split [OF y] by blast
    then show "x = y"
    proof cases
      case 1
      then show ?thesis using i1 f1(1) [OF 1(1)] f1(1) [OF 1(2)] e by simp
    next
      case 2
      then show ?thesis by (rule i2)
    next
      case 3
      then show ?thesis using f1(1,3) [OF 3(1)] f2(1) [OF 3(2)] e by simp
    next
      case 4
      then show ?thesis using f1(1,3) [OF 4(2)] f2(1) [OF 4(1)] e by simp
    qed
  next
    fix x assume x: "ref_status (fst s x) = UNRESOLVED" "ref_status (fst s2 x) = LINKED"
    show "linked src sh gl st0 x (copy_of s2 (R @ new) x)"
    proof (cases "ref_status (fst s1 x) = UNRESOLVED")
      case True
      then show ?thesis using 2 x(2) unfolding copies_def by blast
    next
      case False
      then show ?thesis using 1 x old [OF False] unfolding copies_def by metis
    qed
  qed
qed


section \<open>States of the decoder\<close>

lemma references_set_stack [simp]: "dec_references (set_stack hs dec) = dec_references dec"
  by (simp add: dec_references_def set_stack_def)

lemma stack_set_references [simp]: "dec_stack (set_references hs dec) = dec_stack dec"
  by (simp add: dec_stack_def set_references_def)

lemma stack_set_stack [simp]: "2 \<le> length (externals (dec_store dec)) \<Longrightarrow> dec_stack (set_stack hs dec) = hs"
  by (simp add: dec_stack_def set_stack_def)

lemma references_set_references [simp]: "2 \<le> length (externals (dec_store dec)) \<Longrightarrow> dec_references (set_references hs dec) = hs"
  by (cases "externals (dec_store dec)") (simp_all add: dec_references_def set_references_def)

lemma set_fields [simp]:
  "dec_input (set_stack hs dec) = dec_input dec" "dec_input (set_references hs dec) = dec_input dec"
  "dec_skip_known_frames (set_stack hs dec) = dec_skip_known_frames dec" "dec_skip_known_frames (set_references hs dec) = dec_skip_known_frames dec"
  by (simp_all add: set_stack_def set_references_def)

lemma set_store [simp]:
  "Deref (dec_store (set_stack hs dec)) = Deref (dec_store dec)" "Deref (dec_store (set_references hs dec)) = Deref (dec_store dec)"
  "handle_inv (dec_store (set_stack hs dec)) = handle_inv (dec_store dec)" "handle_inv (dec_store (set_references hs dec)) = handle_inv (dec_store dec)"
  "growable (dec_store (set_stack hs dec)) = growable (dec_store dec)" "growable (dec_store (set_references hs dec)) = growable (dec_store dec)"
  "grows (dec_store (set_stack hs dec)) st = grows (dec_store dec) st" "grows (dec_store (set_references hs dec)) st = grows (dec_store dec) st"
  "grows st (dec_store (set_stack hs dec)) = grows st (dec_store dec)" "grows st (dec_store (set_references hs dec)) = grows st (dec_store dec)"
  "handles (dec_store (set_stack hs dec)) = handles (dec_store dec)" "handles (dec_store (set_references hs dec)) = handles (dec_store dec)"
  "length (externals (dec_store (set_stack hs dec))) = length (externals (dec_store dec))"
  "length (externals (dec_store (set_references hs dec))) = length (externals (dec_store dec))"
  "Owned (dec_store (set_stack hs dec)) h = Owned (dec_store dec) h" "Owned (dec_store (set_references hs dec)) h = Owned (dec_store dec) h"
  by (auto simp: set_stack_def set_references_def Owned_def)

lemma others_store:
  assumes "others st = others (dec_store dec)"
  shows "dec_references (dec\<lparr>dec_store := st\<rparr>) = dec_references dec" "dec_stack (dec\<lparr>dec_store := st\<rparr>) = dec_stack dec"
    "length (externals st) = length (externals (dec_store dec))"
  using assms by (simp_all add: others_def dec_references_def dec_stack_def)

lemma others_grows: "others st' = others st \<Longrightarrow> (\<And>h d. Deref st h = Some d \<Longrightarrow> Deref st' h = Some d) \<Longrightarrow> grows st st'"
  by (simp add: grows_def others_def)

text \<open>
  The store \<open>st0\<close> is the one the decoder started with and \<open>K\<close> the number of its handles; every reference adds at most one
  handle to it.
\<close>

definition decoder_at :: "('s Input \<Rightarrow> bool) \<Rightarrow> nat \<Rightarrow> Store \<Rightarrow> references \<Rightarrow> 's Decoder \<Rightarrow> bool" where
  "decoder_at P K st0 s dec \<longleftrightarrow> P (dec_input dec) \<and> handle_inv (dec_store dec) \<and> growable (dec_store dec) \<and> handles (dec_store dec) \<noteq> [] \<and>
     length (handles (dec_store dec)) \<le> K + snd s \<and> 2 \<le> length (externals (dec_store dec)) \<and> \<not> dec_skip_known_frames dec \<and>
     length (dec_references dec) = snd s \<and> table_ok s \<and> (\<forall>r\<in>set (dec_references dec). IsRef r \<and> \<not> IsNil r \<and> r \<noteq> Handle_id) \<and>
     grows st0 (dec_store dec)"

lemma decoder_at_set_stack [simp]: "decoder_at P K st0 s (set_stack hs dec) = decoder_at P K st0 s dec"
  by (simp add: decoder_at_def)

lemma decoder_at_input: "decoder_at P K st0 s dec \<Longrightarrow> P inp \<Longrightarrow> decoder_at P K st0 s (dec\<lparr>dec_input := inp\<rparr>)"
  by (simp add: decoder_at_def dec_references_def)

definition base :: "byte list set \<Rightarrow> Store \<Rightarrow> bool" where
  "base N st0 \<longleftrightarrow> (globals st0 \<noteq> None \<or> Deref st0 Handle_id \<noteq> None) \<and> (\<forall>n\<in>N. length n < 2 ^ 31 \<and> (\<exists>v. resolves st0 n v))"

definition decodes :: "Store \<Rightarrow> bool \<Rightarrow> bool \<Rightarrow> ('s Input \<Rightarrow> bool) \<Rightarrow> nat \<Rightarrow> Store \<Rightarrow> references \<Rightarrow> references \<Rightarrow> 's Decoder \<Rightarrow> 's Decoder \<Rightarrow> bool" where
  "decodes src sh gl P K st0 s s' dec dec' \<longleftrightarrow> decoder_at P K st0 s' dec' \<and> grows (dec_store dec) (dec_store dec') \<and>
     (\<exists>new. dec_references dec' = dec_references dec @ new) \<and> copies src sh gl st0 s s' (dec_store dec) (dec_store dec') (dec_references dec')"

lemma copies_set_stack [simp]:
  "copies src sh gl st0 s s' (dec_store (set_stack hs dec)) st R = copies src sh gl st0 s s' (dec_store dec) st R"
  "copies src sh gl st0 s s' st (dec_store (set_stack hs dec)) R = copies src sh gl st0 s s' st (dec_store dec) R"
  by (simp_all add: copies_def copied_def)

lemma decodes_set_stack [simp]:
  "decodes src sh gl P K st0 s s' (set_stack hs dec) dec' = decodes src sh gl P K st0 s s' dec dec'"
  "decodes src sh gl P K st0 s s' dec (set_stack hs dec') = decodes src sh gl P K st0 s s' dec dec'"
  by (simp_all add: decodes_def)

lemma decodes_refl: "decoder_at P K st0 s dec \<Longrightarrow> decodes src sh gl P K st0 s s dec dec"
  by (simp add: decodes_def copies_refl)

lemma decodes_input: "decodes src sh gl P K st0 s s' (dec\<lparr>dec_input := inp\<rparr>) dec' = decodes src sh gl P K st0 s s' dec dec'"
  by (simp add: decodes_def dec_references_def)

lemma decodes_trans:
  assumes "decodes src sh gl P K st0 s s1 dec dec1" "decodes src sh gl P K st0 s1 s2 dec1 dec2" "ext s s1" "ext s1 s2"
  shows "decodes src sh gl P K st0 s s2 dec dec2"
proof -
  have at: "decoder_at P K st0 s1 dec1" "grows (dec_store dec) (dec_store dec1)" "grows (dec_store dec1) (dec_store dec2)"
    using assms(1,2) unfolding decodes_def by blast+
  obtain new where new: "dec_references dec2 = dec_references dec1 @ new" using assms(2) unfolding decodes_def by blast
  have t: "table_ok s1" "length (dec_references dec1) = snd s1" using at(1) by (simp_all add: decoder_at_def)
  have "copies src sh gl st0 s s2 (dec_store dec) (dec_store dec2) (dec_references dec1 @ new)"
    using copies_trans [OF _ _ t(1) assms(3,4) t(2) at(2,3)] assms(1,2) new unfolding decodes_def by metis
  then show ?thesis using assms(1,2) new grows_trans [OF at(2,3)] unfolding decodes_def by auto
qed

lemma decodes_at: "decodes src sh gl P K st0 s s' dec dec' \<Longrightarrow> decoder_at P K st0 s' dec'"
  by (simp add: decodes_def)

lemma decodes_copy_of:
  assumes "decodes src sh gl P K st0 s s' dec dec'" "decoder_at P K st0 s dec" "covered s x" "ext s s'"
  shows "copy_of s' (dec_references dec') x = copy_of s (dec_references dec) x"
proof -
  obtain new where new: "dec_references dec' = dec_references dec @ new" using assms(1) unfolding decodes_def by blast
  have "table_ok s" "length (dec_references dec) = snd s" using assms(2) by (simp_all add: decoder_at_def)
  then show ?thesis unfolding new by (intro copy_of_ext [OF assms(3) _ assms(4)])
qed

lemma copy_of_kind:
  assumes "decoder_at P K st0 s dec" "covered s x" "\<not> IsError x"
  shows "\<not> IsError (copy_of s (dec_references dec) x)" "x \<noteq> Handle_id \<Longrightarrow> copy_of s (dec_references dec) x \<noteq> Handle_id"
proof -
  have r: "IsRef (dec_references dec ! ref_index (fst s x))" "dec_references dec ! ref_index (fst s x) \<noteq> Handle_id"
    if "\<not> IsNil x" "IsRef x" "ref_status (fst s x) \<noteq> SPECIAL"
  proof -
    have "ref_status (fst s x) \<noteq> UNRESOLVED" using that assms(2) by (simp add: covered_def)
    then have "ref_index (fst s x) < length (dec_references dec)" using assms(1) that(3) unfolding decoder_at_def table_ok_def by metis
    then show "IsRef (dec_references dec ! ref_index (fst s x))" "dec_references dec ! ref_index (fst s x) \<noteq> Handle_id"
      using assms(1) nth_mem unfolding decoder_at_def by blast+
  qed
  show "\<not> IsError (copy_of s (dec_references dec) x)" using assms(3) IsRef_not_error [OF r(1)] by (auto simp: copy_of_def)
  show "x \<noteq> Handle_id \<Longrightarrow> copy_of s (dec_references dec) x \<noteq> Handle_id" using r(2) by (auto simp: copy_of_def)
qed


lemma kMaxHandles_30: "kMaxHandles \<le> 2 ^ 30"
  by (simp add: kMaxHandles_def)

lemma allocate_object:
  assumes at: "decoder_at P K st0 s dec" and "base N st0" "K + snd s + 1 \<le> kMaxHandles" "object_bytes b < kObjectSizeLimit"
  obtains h st where "Allocate b (dec_store dec) = Some (h, st)" "Deref (dec_store dec) h = None" "IsRef h" "\<not> IsNil h" "h \<noteq> Handle_id"
    "Owned st h" "Deref st h = Some \<lparr>d_self = h, d_marked = False, d_body = b\<rparr>" "handle_inv st" "growable st" "handles st \<noteq> []"
    "length (handles st) \<le> K + snd s + 1" "others st = others (dec_store dec)" "\<And>x. x \<noteq> h \<Longrightarrow> Deref st x = Deref (dec_store dec) x"
proof -
  let ?st = "dec_store dec"
  have d: "handle_inv ?st" "growable ?st" "handles ?st \<noteq> []" "length (handles ?st) \<le> K + snd s" "grows st0 ?st"
    using at by (simp_all add: decoder_at_def)
  have room: "has_room ?st" using d(3,4) assms(3) by (simp add: has_room_def)
  obtain h st where a: "Allocate b ?st = Some (h, st)" "handle_inv st" "growable st" "Deref ?st h = None" "Deref st h = Some \<lparr>d_self = h, d_marked = False, d_body = b\<rparr>"
    "Owned st h" "\<not> IsNil h" "others st = others ?st" "\<forall>x. x \<noteq> h \<longrightarrow> Deref st x = Deref ?st x"
    using Allocate_spec [OF d(1,2) room assms(4)] by blast
  have l: "length (handles st) \<le> K + snd s + 1" "handles st \<noteq> []" using Allocate_handles [OF a(1) d(1,2) room assms(4)] d(4) by simp_all
  have "h \<noteq> Handle_id"
  proof
    assume id: "h = Handle_id"
    then have "Deref st0 Handle_id = None" using a(4) d(5) by (cases "Deref st0 Handle_id") (auto simp: grows_def)
    then have "globals st0 \<noteq> None" using assms(2) by (simp add: base_def)
    then have "globals st \<noteq> None" using d(5) a(8) by (auto simp: grows_def others_def)
    then have "store_tag st = kLocalTag" using a(2) by (auto simp: handle_inv_def)
    then show False using a(6) id by (simp add: Owned_def Handle_id_def tag_def kTagMask_def kLocalTag_def)
  qed
  then show thesis using that [OF a(1,4) Owned_IsRef [OF a(2,6)] a(7) _ a(6,5,2,3) l(2,1) a(8)] a(9) by blast
qed

lemma push_reference_at:
  assumes at: "decoder_at P K st0 s dec" and r: "IsRef h" "\<not> IsNil h" "h \<noteq> Handle_id" "snd s < 2 ^ 30" "status = LINKED \<or> status = ENCODED"
    and d1: "P (dec_input dec1)" "handle_inv (dec_store dec1)" "growable (dec_store dec1)" "handles (dec_store dec1) \<noteq> []" "length (handles (dec_store dec1)) \<le> K + snd s + 1"
      "length (externals (dec_store dec1)) = length (externals (dec_store dec))" "dec_skip_known_frames dec1 = dec_skip_known_frames dec"
      "dec_references dec1 = dec_references dec" "grows st0 (dec_store dec1)"
  shows "decoder_at P K st0 (add_reference x status s) (push_reference h dec1)" "dec_references (push_reference h dec1) = dec_references dec @ [h]"
proof -
  have e: "2 \<le> length (externals (dec_store dec1))" using at d1(6) by (simp add: decoder_at_def)
  have t: "table_ok (add_reference x status s)" using table_ok_add at r(4,5) by (auto simp: decoder_at_def)
  show refs: "dec_references (push_reference h dec1) = dec_references dec @ [h]" using d1(8) e by (simp add: push_reference_def)
  show "decoder_at P K st0 (add_reference x status s) (push_reference h dec1)"
    unfolding decoder_at_def refs using at r d1 e t by (auto simp: decoder_at_def push_reference_def add_reference_def)
qed

lemma others_grows_aux:
  assumes "grows st st2" "others st' = others st2" "\<And>y. y \<noteq> h \<Longrightarrow> Deref st' y = Deref st2 y" "Deref st h = None"
  shows "grows st st'"
  unfolding grows_def
proof (intro conjI allI impI)
  fix y d assume "Deref st y = Some d"
  then show "Deref st' y = Some d" using assms(1,3,4) by (cases "y = h") (auto simp: grows_def)
qed (use assms(1,2) in \<open>simp add: grows_def others_def\<close>)

lemma decodes_finish:
  assumes at: "decoder_at P K st0 s dec" and small: "snd s < 2 ^ 30"
    and h: "Deref (dec_store dec) h = None" "grows (dec_store dec) (dec_store dec1)" "Deref (dec_store dec1) h \<noteq> None" "dec_references dec1 = dec_references dec @ [h]"
    and nested: "decodes src sh gl P K st0 (add_reference x ENCODED s) s' dec1 dec2" "ext (add_reference x ENCODED s) s'"
    and x: "pending src sh gl s x b" "\<forall>y\<in>set (object_refs b). covered s' y"
    and st: "handle_inv st" "growable st" "handles st = handles (dec_store dec2)" "others st = others (dec_store dec2)" "Deref st h = Some e"
      "d_body e = copy_body (copy_of s' (dec_references dec2)) b" "\<And>y. y \<noteq> h \<Longrightarrow> Deref st y = Deref (dec_store dec2) y"
  shows "decodes src sh gl P K st0 s s' dec (dec2\<lparr>dec_store := st\<rparr>)" "copy_of s' (dec_references dec2) x = h"
proof -
  let ?s1 = "add_reference x ENCODED s"
  let ?R = "dec_references dec2"
  have n: "decoder_at P K st0 s' dec2" "grows (dec_store dec1) (dec_store dec2)" "copies src sh gl st0 ?s1 s' (dec_store dec1) (dec_store dec2) ?R"
    using nested(1) unfolding decodes_def by blast+
  obtain new where new: "?R = (dec_references dec @ [h]) @ new" using nested(1) h(4) unfolding decodes_def by auto
  have p: "IsRef x" "\<not> IsNil x" "ref_status (fst s x) = UNRESOLVED" using x(1) by (simp_all add: pending_def)
  obtain dx where dx: "Deref src x = Some dx" "d_body dx = b" using x(1) by (auto simp: pending_def)
  have len: "length (dec_references dec) = snd s" "table_ok s" "grows st0 (dec_store dec)" using at by (simp_all add: decoder_at_def)
  have t1: "table_ok ?s1" by (rule table_ok_add [OF len(2) small]) simp
  have l1: "length (dec_references dec @ [h]) = snd ?s1" using len(1) by (simp add: add_reference_def)
  have s1: "fst s' x = fst ?s1 x" "ref_status (fst ?s1 x) = ENCODED" using nested(2) by (simp_all add: ext_def add_reference_def)
  have "copy_of s' ?R x = copy_of ?s1 (dec_references dec @ [h]) x"
    unfolding new by (rule copy_of_ext [OF _ t1 nested(2) l1]) (simp add: covered_def s1(2))
  also have "\<dots> = h" by (rule copy_of_new [OF p(1,2) _ small len(1)]) simp
  finally show cx: "copy_of s' ?R x = h" .
  have g: "grows (dec_store dec) st"
  by (rule others_grows_aux [OF grows_trans [OF h(2) n(2)] st(4,7) h(1)])
  have refs: "dec_references (dec2\<lparr>dec_store := st\<rparr>) = ?R" "length (externals st) = length (externals (dec_store dec2))"
    using others_store [OF st(4)] by simp_all
  have at': "decoder_at P K st0 s' (dec2\<lparr>dec_store := st\<rparr>)"
    using n(1) st(1-3) grows_trans [OF len(3) g] unfolding decoder_at_def refs by (simp add: refs)
  have other: "fresh_in ?s1 s' y" if "fresh_in s s' y" "y \<noteq> x" for y using that by (simp add: fresh_in_def add_reference_def)
  have sep: "copy_of s' ?R y \<noteq> h" "Deref (dec_store dec) (copy_of s' ?R y) = None" "copied src s' ?R st y" if y: "fresh_in s s' y" "y \<noteq> x" for y
  proof -
    have c: "Deref (dec_store dec1) (copy_of s' ?R y) = None" "copied src s' ?R (dec_store dec2) y" using n(3) other [OF y] unfolding copies_def by blast+
    show ne: "copy_of s' ?R y \<noteq> h" using c(1) h(3) by auto
    show "Deref (dec_store dec) (copy_of s' ?R y) = None" using c(1) h(2) by (cases "Deref (dec_store dec) (copy_of s' ?R y)") (auto simp: grows_def)
    show "copied src s' ?R st y" using c(2) st(7) [OF ne] unfolding copied_def by metis
  qed
  have self: "copied src s' ?R st x" using dx st(5,6) x(2) cx unfolding copied_def by metis
  have "copies src sh gl st0 s s' (dec_store dec) st ?R"
    unfolding copies_def
  proof (intro conjI allI impI)
    fix y assume y: "fresh_in s s' y"
    show "Deref (dec_store dec) (copy_of s' ?R y) = None" "copied src s' ?R st y" using sep(2,3) [OF y] self cx h(1) by (cases "y = x"; simp)+
    fix z assume z: "fresh_in s s' z" "copy_of s' ?R y = copy_of s' ?R z"
    have "fresh_in ?s1 s' y \<Longrightarrow> fresh_in ?s1 s' z \<Longrightarrow> y = z" using n(3) z(2) unfolding copies_def by blast
    then show "y = z" using z cx sep(1) [OF y] sep(1) [OF z(1)] other [OF y] other [OF z(1)] by (cases "y = x"; cases "z = x") auto
  next
    fix y assume y: "ref_status (fst s y) = UNRESOLVED" "ref_status (fst s' y) = LINKED"
    then have "y \<noteq> x" using s1 by auto
    then have "ref_status (fst ?s1 y) = UNRESOLVED" using y(1) by (simp add: add_reference_def)
    then show "linked src sh gl st0 y (copy_of s' ?R y)" using n(3) y(2) unfolding copies_def by blast
  qed
  then show "decodes src sh gl P K st0 s s' dec (dec2\<lparr>dec_store := st\<rparr>)"
    using at' g new unfolding decodes_def refs by simp
qed


lemmas WIRE_defs = WIRE_REF_def WIRE_FRAME_def WIRE_STRING_def WIRE_SYMBOL_def WIRE_LINK_def WIRE_INTEGER_def WIRE_FLOAT_def WIRE_SPECIAL_def
  WIRE_NIL_def WIRE_ID_def WIRE_ISA_def WIRE_IS_def WIRE_ARRAY_def WIRE_INDEX_def WIRE_RESOLVE_def WIRE_QSTRING_def WIRE_NAME_def

lemma take_bit_61_small: "a < 2 ^ 61 \<Longrightarrow> take_bit 61 (a :: uint64) = a"
  by (simp add: word_unat_eq_iff unsigned_take_bit_eq take_bit_nat_eq_self word_less_nat_alt)

lemma DecodeObject_wire:
  assumes "read_varint64 vt dec = Some (Some (w OR push_bit 3 a), dec1)" "w < 8"
  shows "w = WIRE_REF \<Longrightarrow> DecodeObject vt dec = Some (Decoder_Reference (unat (ucast (take_bit 61 a) :: uint32)) dec1, dec1)"
    "w = WIRE_FRAME \<Longrightarrow> DecodeObject vt dec = DecodeFrame (DecodeObject vt) (ucast (take_bit 61 a)) None dec1"
    "w = WIRE_STRING \<Longrightarrow> DecodeObject vt dec = do { (h, dec) \<leftarrow> DecodeString vt (ucast (take_bit 61 a)) dec1; Some (h, push_reference h dec) }"
    "w = WIRE_LINK \<Longrightarrow> DecodeObject vt dec = do { (h, dec) \<leftarrow> DecodeLink vt (ucast (take_bit 61 a)) dec1; Some (h, push_reference h dec) }"
    "w = WIRE_INTEGER \<Longrightarrow> DecodeObject vt dec = Some (Handle_Integer (sint (ucast (take_bit 61 a) :: uint32)), dec1)"
    "w = WIRE_FLOAT \<Longrightarrow> DecodeObject vt dec = Some (FromFloatBits (ucast (take_bit 61 a)), dec1)"
  unfolding DecodeObject.simps [of vt dec] assms(1) Option.bind_lunit prod.case option.case Let_def tag_fields [OF assms(2)]
  by (simp_all add: WIRE_defs)

lemma DecodeObject_special:
  assumes "read_varint64 vt dec = Some (Some (WIRE_SPECIAL OR push_bit 3 a), dec1)" "a < 2 ^ 61"
  shows "a = WIRE_NIL \<Longrightarrow> DecodeObject vt dec = Some (Handle_nil, dec1)"
    "(x, a) \<in> special_indices \<Longrightarrow> DecodeObject vt dec = Some (x, dec1)"
    "a = WIRE_ARRAY \<Longrightarrow> DecodeObject vt dec = DecodeArray (DecodeObject vt) vt dec1"
    "a = WIRE_INDEX \<Longrightarrow> DecodeObject vt dec = do {
       (index, dec) \<leftarrow> read_varint32 vt dec1;
       Some (case index of None \<Rightarrow> Handle_error | Some index \<Rightarrow> Handle_Index (sint index), dec)
     }"
    "a = WIRE_QSTRING \<Longrightarrow> DecodeObject vt dec = DecodeQString (DecodeObject vt) vt dec1"
proof -
  have w: "(WIRE_SPECIAL OR push_bit 3 a) AND 7 = WIRE_SPECIAL" "drop_bit 3 (WIRE_SPECIAL OR push_bit 3 a) = a"
    using tag_fields [of WIRE_SPECIAL a] take_bit_61_small [OF assms(2)] by (simp_all add: WIRE_defs)
  show "a = WIRE_NIL \<Longrightarrow> DecodeObject vt dec = Some (Handle_nil, dec1)"
    "(x, a) \<in> special_indices \<Longrightarrow> DecodeObject vt dec = Some (x, dec1)"
    "a = WIRE_ARRAY \<Longrightarrow> DecodeObject vt dec = DecodeArray (DecodeObject vt) vt dec1"
    "a = WIRE_INDEX \<Longrightarrow> DecodeObject vt dec = do {
       (index, dec) \<leftarrow> read_varint32 vt dec1;
       Some (case index of None \<Rightarrow> Handle_error | Some index \<Rightarrow> Handle_Index (sint index), dec)
     }"
    "a = WIRE_QSTRING \<Longrightarrow> DecodeObject vt dec = DecodeQString (DecodeObject vt) vt dec1"
    unfolding DecodeObject.simps [of vt dec] assms(1) Option.bind_lunit prod.case option.case Let_def w
    by (auto simp: WIRE_defs special_indices_def)
qed

lemma stack_slots_concat: "stack_slots (concat (map (\<lambda>(n, v). [f n, f v]) slots)) = map (map_prod f f) slots"
  by (induction slots) auto

lemma sizes:
  "object_bytes (StringBody str) < kObjectSizeLimit \<Longrightarrow> length str < 2 ^ 28"
  "object_bytes (QStringBody str q) < kObjectSizeLimit \<Longrightarrow> length str < 2 ^ 28"
  "object_bytes (ArrayBody es) < kObjectSizeLimit \<Longrightarrow> length es < 2 ^ 26"
  "object_bytes (FrameBody proxy public slots) < kObjectSizeLimit \<Longrightarrow> length slots < 2 ^ 25"
proof -
  have "n \<le> Align n" for n by (simp add: Align_def kObjectAlign_def)
  then have a: "object_bytes b < kObjectSizeLimit \<Longrightarrow> sizeof_Datum + body_size b < 2 ^ 28" for b
    using order.strict_trans1 by (fastforce simp: object_bytes_def kObjectSizeLimit_def)
  show "object_bytes (StringBody str) < kObjectSizeLimit \<Longrightarrow> length str < 2 ^ 28"
    "object_bytes (QStringBody str q) < kObjectSizeLimit \<Longrightarrow> length str < 2 ^ 28"
    "object_bytes (ArrayBody es) < kObjectSizeLimit \<Longrightarrow> length es < 2 ^ 26"
    "object_bytes (FrameBody proxy public slots) < kObjectSizeLimit \<Longrightarrow> length slots < 2 ^ 25"
    using a [of "StringBody str"] a [of "QStringBody str q"] a [of "ArrayBody es"] a [of "FrameBody proxy public slots"]
    by (simp_all add: sizeof_Datum_def sizeof_Handle_def sizeof_Slot_def)
qed

lemma small_sizes:
  assumes "n < 2 ^ 28"
  shows "ucast (take_bit 61 (of_nat n :: uint64)) = (of_nat n :: uint32)" "unat (of_nat n :: uint32) = n" "sint (of_nat n :: uint32) = int n"
proof -
  show u: "unat (of_nat n :: uint32) = n" using assms by (simp add: unsigned_of_nat take_bit_nat_eq_self)
  have "n < 2 ^ 61" "n < 2 ^ 32" using assms by simp_all
  then have "unat (ucast (take_bit 61 (of_nat n :: uint64)) :: uint32) = n" by (simp only: tag_small ucast_small)
  then show "ucast (take_bit 61 (of_nat n :: uint64)) = (of_nat n :: uint32)" using u by (simp only: word_unat_eq_iff)
  show "sint (of_nat n :: uint32) = int n" using assms
    by (simp add: sint_uint unsigned_of_nat signed_take_bit_eq_if_positive take_bit_nat_eq_self take_bit_int_eq_self bit_iff_odd)
qed


lemma index_not_error: "IsIndex h \<Longrightarrow> \<not> IsError h"
  by (auto simp: IsIndex_def IsError_def kError_def kIndexMask_def kFloatTag_def)

lemma int_not_error: "IsInt h \<Longrightarrow> \<not> IsError h"
  by (auto simp: IsInt_def IsError_def kError_def tag_def kTagMask_def kFloatTag_def kIntTag_def)

lemma object_bytes_template:
  "object_bytes (StringBody (replicate (length str) 0)) = object_bytes (StringBody str)"
  "object_bytes (QStringBody (replicate (length str) 0) Handle_nil) = object_bytes (QStringBody str q)"
  "object_bytes (ArrayBody (replicate (length es) Handle_nil)) = object_bytes (ArrayBody es)"
  "object_bytes (FrameBody False False (replicate (length slots) (Handle_nil, Handle_nil))) = object_bytes (FrameBody False False slots)"
  by (simp_all add: object_bytes_def)

lemma encodes_not_error: "encodes st sh gl N s x bs s' \<Longrightarrow> \<not> IsError x"
proof (induction rule: encodes_encodes_all_encodes_slots.inducts(1) [where ?P2.0 = "\<lambda>_ _ _ _. True" and ?P3.0 = "\<lambda>_ _ _ _. True"])
  case (enc_index h s)
  then show ?case using index_not_error by blast
qed (simp_all add: pending_def IsRef_not_error int_not_error, simp add: IsError_def Handle_nil_def kError_def kFloatTag_def)

lemma add_reference_index [simp]: "snd (add_reference x status s) = snd s + 1"
  by (simp add: add_reference_def)

context input_stream
begin

lemma decode_tag:
  assumes "decoder_at rinv K st0 s dec" "cont (dec_input dec) = tag_bytes w a @ r"
  obtains inp where "read_varint64 vt dec = Some (Some (w OR push_bit 3 a), dec\<lparr>dec_input := inp\<rparr>)" "decoder_at rinv K st0 s (dec\<lparr>dec_input := inp\<rparr>)" "cont inp = r"
proof -
  have "rinv (dec_input dec)" using assms(1) by (simp add: decoder_at_def)
  then obtain inp where "read_varint64 vt dec = Some (Some (w OR push_bit 3 a), dec\<lparr>dec_input := inp\<rparr>)" "rinv inp" "cont inp = r"
    using read_tag_spec assms(2) by blast
  then show thesis using that decoder_at_input [OF assms(1)] by blast
qed

lemma decode_size:
  assumes "decoder_at rinv K st0 s dec" "cont (dec_input dec) = size_bytes n @ r"
  obtains inp where "read_varint32 vt dec = Some (Some (of_nat n), dec\<lparr>dec_input := inp\<rparr>)" "decoder_at rinv K st0 s (dec\<lparr>dec_input := inp\<rparr>)" "cont inp = r"
proof -
  have "rinv (dec_input dec)" using assms(1) by (simp add: decoder_at_def)
  then obtain inp where "read_varint32 vt dec = Some (Some (of_nat n), dec\<lparr>dec_input := inp\<rparr>)" "rinv inp" "cont inp = r"
    using read_size_spec assms(2) by blast
  then show thesis using that decoder_at_input [OF assms(1)] by blast
qed

lemma decode_string:
  assumes at: "decoder_at rinv K st0 s dec" and "base N st0" "K + snd s + 1 \<le> kMaxHandles" and p: "pending src sh gl s x (StringBody str)"
    and "cont (dec_input dec) = tag_bytes WIRE_STRING (of_nat (length str)) @ str @ r"
  shows "\<exists>dec'. DecodeObject vt dec = Some (copy_of (add_reference x ENCODED s) (dec_references dec') x, dec') \<and> cont (dec_input dec') = r \<and>
    dec_stack dec' = dec_stack dec \<and> decodes src sh gl rinv K st0 s (add_reference x ENCODED s) dec dec'"
proof -
  obtain inp where i: "read_varint64 vt dec = Some (Some (WIRE_STRING OR push_bit 3 (of_nat (length str))), dec\<lparr>dec_input := inp\<rparr>)"
    "decoder_at rinv K st0 s (dec\<lparr>dec_input := inp\<rparr>)" "cont inp = str @ r" by (rule decode_tag [OF at assms(5)])
  let ?dec1 = "dec\<lparr>dec_input := inp\<rparr>"
  have size: "object_bytes (StringBody str) < kObjectSizeLimit" using p by (simp add: pending_def)
  note n = small_sizes [OF sizes(1) [OF size]]
  let ?b = "StringBody (replicate (length str) 0)"
  obtain h st where a: "Allocate ?b (dec_store ?dec1) = Some (h, st)" "Deref (dec_store ?dec1) h = None" "IsRef h" "\<not> IsNil h" "h \<noteq> Handle_id"
    "Owned st h" "Deref st h = Some \<lparr>d_self = h, d_marked = False, d_body = ?b\<rparr>" "handle_inv st" "growable st" "handles st \<noteq> []"
    "length (handles st) \<le> K + snd s + 1" "others st = others (dec_store ?dec1)" "\<And>x. x \<noteq> h \<Longrightarrow> Deref st x = Deref (dec_store ?dec1) x"
    by (rule allocate_object [OF i(2) assms(2,3), of ?b]) (use size object_bytes_template(1) [of str] in auto)
  let ?dec2 = "?dec1\<lparr>dec_store := st\<rparr>"
  obtain inp3 st3 where r: "read_string vt h (length str) ?dec2 = Some (True, ?dec2\<lparr>dec_input := inp3, dec_store := st3\<rparr>)" "rinv inp3" "cont inp3 = r"
    "handle_inv st3" "growable st3 = growable (dec_store ?dec2)" "handles st3 = handles (dec_store ?dec2)" "others st3 = others (dec_store ?dec2)"
    "Deref st3 h = Some (set_body (StringBody str) \<lparr>d_self = h, d_marked = False, d_body = ?b\<rparr>)" "\<And>h'. h' \<noteq> h \<Longrightarrow> Deref st3 h' = Deref (dec_store ?dec2) h'"
    by (rule read_string_spec [of ?dec2 str r h]) (use i(2,3) a in \<open>auto simp: decoder_at_def\<close>)
  let ?dec3 = "?dec2\<lparr>dec_input := inp3, dec_store := st3\<rparr>"
  have o: "others st3 = others (dec_store dec)" using r(7) a(12) by simp
  have g: "grows (dec_store dec) st3" by (rule others_grows_aux [OF grows_refl o]) (use r(9) a(2,13) in auto)
  have small: "snd s < 2 ^ 30" using assms(3) kMaxHandles_30 by simp
  have g0: "grows st0 st3" using at g grows_trans by (auto simp: decoder_at_def)
  have refs: "dec_references ?dec3 = dec_references dec" "dec_stack ?dec3 = dec_stack dec" "length (externals st3) = length (externals (dec_store dec))"
    using o by (simp_all add: others_def dec_references_def dec_stack_def)
  let ?dec4 = "push_reference h ?dec3"
  have at4: "decoder_at rinv K st0 (add_reference x ENCODED s) ?dec4" and refs4: "dec_references ?dec4 = dec_references dec @ [h]"
    by (rule push_reference_at [OF at a(3-5) small disjI2 [OF refl]]; use r a refs g0 in simp)+
  have o4: "Deref (dec_store ?dec4) = Deref st3" "others (dec_store ?dec4) = others (dec_store ?dec4)" by (simp_all add: push_reference_def)
  have fin: "decodes src sh gl rinv K st0 s (add_reference x ENCODED s) dec (?dec4\<lparr>dec_store := dec_store ?dec4\<rparr>)"
    "copy_of (add_reference x ENCODED s) (dec_references ?dec4) x = h"
    by (rule decodes_finish [where st = "dec_store ?dec4" and e = "set_body (StringBody str) \<lparr>d_self = h, d_marked = False, d_body = ?b\<rparr>", OF at small _ _ _ refs4 decodes_refl [OF at4] ext_refl p];
        use at4 a(2) r(8) g o4 in \<open>simp add: decoder_at_def set_body_def push_reference_def\<close>)+
  have "DecodeObject vt dec = Some (h, ?dec4)"
    using DecodeObject_wire(3) [OF i(1)] n a(1) r(1) by (simp add: WIRE_defs DecodeString_def AllocateString_def)
  moreover have "cont (dec_input ?dec4) = r" "dec_stack ?dec4 = dec_stack dec" using r(3) refs(2) by (simp_all add: push_reference_def)
  ultimately show ?thesis using fin by (intro exI [of _ ?dec4]) simp
qed

lemma decode_qstring:
  assumes at: "decoder_at rinv K st0 s dec" and "base N st0" "K + snd s' \<le> kMaxHandles" and p: "pending src sh gl s x (QStringBody str q)"
    and q: "encodes src sh gl N (add_reference x ENCODED s) q bs s'"
    and c: "cont (dec_input dec) = tag_bytes WIRE_SPECIAL WIRE_QSTRING @ size_bytes (length str) @ str @ bs @ r"
    and IH: "\<And>dec. decoder_at rinv K st0 (add_reference x ENCODED s) dec \<Longrightarrow> cont (dec_input dec) = bs @ r \<Longrightarrow>
      \<exists>dec'. DecodeObject vt dec = Some (copy_of s' (dec_references dec') q, dec') \<and> cont (dec_input dec') = r \<and>
        dec_stack dec' = dec_stack dec \<and> decodes src sh gl rinv K st0 (add_reference x ENCODED s) s' dec dec'"
  shows "\<exists>dec'. DecodeObject vt dec = Some (copy_of s' (dec_references dec') x, dec') \<and> cont (dec_input dec') = r \<and>
    dec_stack dec' = dec_stack dec \<and> decodes src sh gl rinv K st0 s s' dec dec'"
proof -
  obtain inp0 where i0: "read_varint64 vt dec = Some (Some (WIRE_SPECIAL OR push_bit 3 WIRE_QSTRING), dec\<lparr>dec_input := inp0\<rparr>)"
    "decoder_at rinv K st0 s (dec\<lparr>dec_input := inp0\<rparr>)" "cont inp0 = size_bytes (length str) @ str @ bs @ r" by (rule decode_tag [OF at c])
  obtain inp where i: "read_varint32 vt (dec\<lparr>dec_input := inp0\<rparr>) = Some (Some (of_nat (length str)), dec\<lparr>dec_input := inp\<rparr>)"
    "decoder_at rinv K st0 s (dec\<lparr>dec_input := inp\<rparr>)" "cont inp = str @ bs @ r" by (rule decode_size [OF i0(2)]) (use i0(3) in auto)
  let ?dec1 = "dec\<lparr>dec_input := inp\<rparr>"
  have size: "object_bytes (QStringBody str q) < kObjectSizeLimit" using p by (simp add: pending_def)
  note n = small_sizes [OF sizes(2) [OF size]]
  let ?b = "QStringBody (replicate (length str) 0) Handle_nil"
  have room: "K + snd s + 1 \<le> kMaxHandles" using assms(3) encodes_index [OF q] by simp
  obtain h st where a: "Allocate ?b (dec_store ?dec1) = Some (h, st)" "Deref (dec_store ?dec1) h = None" "IsRef h" "\<not> IsNil h" "h \<noteq> Handle_id"
    "Owned st h" "Deref st h = Some \<lparr>d_self = h, d_marked = False, d_body = ?b\<rparr>" "handle_inv st" "growable st" "handles st \<noteq> []"
    "length (handles st) \<le> K + snd s + 1" "others st = others (dec_store ?dec1)" "\<And>x. x \<noteq> h \<Longrightarrow> Deref st x = Deref (dec_store ?dec1) x"
    by (rule allocate_object [OF i(2) assms(2) room, of ?b]) (use size object_bytes_template(2) [of str q] in auto)
  let ?dec2 = "Push h (?dec1\<lparr>dec_store := st\<rparr>)"
  have s2: "rinv (dec_input ?dec2)" "cont (dec_input ?dec2) = str @ bs @ r" "handle_inv (dec_store ?dec2)" "Owned (dec_store ?dec2) h"
    "d_body \<lparr>d_self = h, d_marked = False, d_body = ?b\<rparr> = StringBody (replicate (length str) 0) \<and> QStringBody str Handle_nil = StringBody str \<or>
     d_body \<lparr>d_self = h, d_marked = False, d_body = ?b\<rparr> = QStringBody (replicate (length str) 0) Handle_nil \<and> QStringBody str Handle_nil = QStringBody str Handle_nil"
    using i(2,3) a by (simp_all add: decoder_at_def Push_def)
  let ?e = "set_body (QStringBody str Handle_nil) \<lparr>d_self = h, d_marked = False, d_body = ?b\<rparr>"
  obtain inp3 st3 where r: "read_string vt h (length str) ?dec2 = Some (True, ?dec2\<lparr>dec_input := inp3, dec_store := st3\<rparr>)" "rinv inp3" "cont inp3 = bs @ r"
    "handle_inv st3" "growable st3 = growable (dec_store ?dec2)" "handles st3 = handles (dec_store ?dec2)" "others st3 = others (dec_store ?dec2)"
    "Deref st3 h = Some ?e" "\<And>h'. h' \<noteq> h \<Longrightarrow> Deref st3 h' = Deref (dec_store ?dec2) h'"
    by (rule read_string_spec [where b = "QStringBody str Handle_nil", OF s2(1-4) _ s2(5)]) (use a(7) in \<open>simp add: Push_def\<close>, blast)
  let ?dec3 = "?dec2\<lparr>dec_input := inp3, dec_store := st3\<rparr>"
  have o: "others st3 = others (st\<lparr>externals := externals st3\<rparr>)" "externals st3 = (externals (dec_store dec))[1 := dec_stack dec @ [h]]"
    using r(7) a(12) by (simp_all add: others_def Push_def set_stack_def dec_stack_def)
  have g: "grows (dec_store dec) st3"
    by (rule others_grows_aux [where h = h and st = "dec_store dec" and ?st2.0 = "(dec_store dec)\<lparr>externals := externals st3\<rparr>"])
      (use o(1) r(9) a(2,12,13) in \<open>auto simp: others_def Push_def\<close>)
  have small: "snd s < 2 ^ 30" using room kMaxHandles_30 by simp
  have ext2: "2 \<le> length (externals (dec_store dec))" and g0: "grows st0 st3" using at g grows_trans by (auto simp: decoder_at_def)
  have refs: "dec_references ?dec3 = dec_references dec" "dec_stack ?dec3 = dec_stack dec @ [h]" "length (externals st3) = length (externals (dec_store dec))"
    using o(2) ext2 by (simp_all add: dec_references_def dec_stack_def)
  let ?dec4 = "push_reference h ?dec3"
  have at4: "decoder_at rinv K st0 (add_reference x ENCODED s) ?dec4" and refs4: "dec_references ?dec4 = dec_references dec @ [h]"
    by (rule push_reference_at [OF at a(3-5) small disjI2 [OF refl]]; use r a refs g0 in \<open>simp add: Push_def\<close>)+
  have ow: "Owned st3 h" using a(6) o(1) by (simp add: Owned_def others_def)
  have d4: "Deref (dec_store ?dec4) = Deref st3" "cont (dec_input ?dec4) = bs @ r" "dec_stack ?dec4 = dec_stack dec @ [h]" "Owned (dec_store ?dec4) h"
    using r(3) refs(2) ow by (simp_all add: push_reference_def)
  obtain dec5 where d5: "DecodeObject vt ?dec4 = Some (copy_of s' (dec_references dec5) q, dec5)" "cont (dec_input dec5) = r"
    "dec_stack dec5 = dec_stack dec @ [h]" "decodes src sh gl rinv K st0 (add_reference x ENCODED s) s' ?dec4 dec5"
    using IH [OF at4 d4(2)] d4(3) by auto
  have at5: "decoder_at rinv K st0 s' dec5" and g5: "grows (dec_store ?dec4) (dec_store dec5)" using d5(4) unfolding decodes_def by blast+
  have h5: "Deref (dec_store dec5) h = Some ?e" "Owned (dec_store dec5) h" "handle_inv (dec_store dec5)" "growable (dec_store dec5)"
    using g5 r(8) d4 at5 by (auto simp: grows_def Owned_def decoder_at_def)
  let ?q = "copy_of s' (dec_references dec5) q"
  let ?f = "\<lambda>d. case d_body d of QStringBody s _ \<Rightarrow> set_body (QStringBody s ?q) d | _ \<Rightarrow> d"
  obtain st6 where m: "modify h ?f (dec_store dec5) = Some st6" "handle_inv st6" "Deref st6 h = Some (?f ?e)" "others st6 = others (dec_store dec5)"
    "growable st6 = growable (dec_store dec5)" "\<forall>h'. h' \<noteq> h \<longrightarrow> Deref st6 h' = Deref (dec_store dec5) h'"
    using modify_spec [OF h5(3,2,1), of ?f] by (auto simp: set_body_def)
  note enc = encodes_ext(1) [OF q]
  have fin: "decodes src sh gl rinv K st0 s s' dec (dec5\<lparr>dec_store := st6\<rparr>)" "copy_of s' (dec_references dec5) x = h"
    by (rule decodes_finish [where st = st6 and e = "?f ?e", OF at small _ _ _ refs4 d5(4) _ p];
        use a(2) g d4(1) r(8) enc m h5 modify_handles [OF m(1)] in \<open>simp add: set_body_def push_reference_def\<close>)+
  have q5: "\<not> IsError ?q" using copy_of_kind(1) [OF at5] enc encodes_not_error [OF q] by blast
  let ?dec6 = "dec5\<lparr>dec_store := st6\<rparr>"
  have s6: "dec_stack ?dec6 = dec_stack dec @ [h]" "2 \<le> length (externals (dec_store ?dec6))" "dec_references ?dec6 = dec_references dec5"
    using others_store [OF m(4)] d5(3) at5 by (simp_all add: decoder_at_def)
  have "DecodeObject vt dec = Some (h, Release (length (dec_stack dec)) ?dec6)"
    using DecodeObject_special(5) [OF i0(1)] i(1) a(1) r(1) n d5(1) q5 m(1) sizes(2) [OF size]
    by (simp add: DecodeQString_def AllocateQString_def Mark_stack_def dec_stack_def WIRE_defs sizeof_Handle_def)
  then show ?thesis using fin s6 d5(2) by (intro exI [of _ "Release (length (dec_stack dec)) ?dec6"]) (simp add: Release_def)
qed

end


lemma encodes_index_all: "encodes_all st sh gl N s es bs s' \<Longrightarrow> snd s \<le> snd s'"
  using encodes_count(2) [of st sh gl N s es bs s'] unresolved_mono [of s s'] encodes_ext(2) [of st sh gl N s es bs s'] by simp

lemma encodes_slots_not_error: "encodes_slots st sh gl N s slots bs s' \<Longrightarrow> \<forall>(n, v)\<in>set slots. \<not> IsError n \<and> \<not> IsError v"
proof (induction slots arbitrary: s bs)
  case (Cons e slots)
  from Cons.prems show ?case
  proof (cases rule: encodes_slots.cases)
    case (enc_slot n bs1 s1 v bs2 s2 bs3)
    then show ?thesis using Cons.IH encodes_not_error by (metis (mono_tags, lifting) case_prod_conv set_ConsD)
  qed
qed simp

lemma encodes_index_slots: "encodes_slots st sh gl N s slots bs s' \<Longrightarrow> snd s \<le> snd s'"
  using encodes_count(3) [of st sh gl N s slots bs s'] unresolved_mono [of s s'] encodes_ext(3) [of st sh gl N s slots bs s'] by simp

context input_stream
begin

text \<open>Allocating an object and numbering it before its contents are decoded.\<close>

lemma decode_begin:
  assumes at: "decoder_at rinv K st0 s dec" and "base N st0" "K + snd s + 1 \<le> kMaxHandles" "object_bytes b < kObjectSizeLimit"
  obtains h st where "Allocate b (dec_store dec) = Some (h, st)" "Deref (dec_store dec) h = None"
    "decoder_at rinv K st0 (add_reference x ENCODED s) (push_reference h (dec\<lparr>dec_store := st\<rparr>))"
    "dec_references (push_reference h (dec\<lparr>dec_store := st\<rparr>)) = dec_references dec @ [h]" "dec_references (dec\<lparr>dec_store := st\<rparr>) = dec_references dec"
    "dec_stack (push_reference h (dec\<lparr>dec_store := st\<rparr>)) = dec_stack dec" "grows (dec_store dec) (dec_store (push_reference h (dec\<lparr>dec_store := st\<rparr>)))"
    "Deref (dec_store (push_reference h (dec\<lparr>dec_store := st\<rparr>))) h = Some \<lparr>d_self = h, d_marked = False, d_body = b\<rparr>"
    "Owned (dec_store (push_reference h (dec\<lparr>dec_store := st\<rparr>))) h" "\<not> IsError h"
proof -
  obtain h st where a: "Allocate b (dec_store dec) = Some (h, st)" "Deref (dec_store dec) h = None" "IsRef h" "\<not> IsNil h" "h \<noteq> Handle_id"
    "Owned st h" "Deref st h = Some \<lparr>d_self = h, d_marked = False, d_body = b\<rparr>" "handle_inv st" "growable st" "handles st \<noteq> []"
    "length (handles st) \<le> K + snd s + 1" "others st = others (dec_store dec)" "\<And>x. x \<noteq> h \<Longrightarrow> Deref st x = Deref (dec_store dec) x"
    by (rule allocate_object [OF assms]) blast
  let ?dec1 = "dec\<lparr>dec_store := st\<rparr>"
  have small: "snd s < 2 ^ 30" using assms(3) kMaxHandles_30 by simp
  have g: "grows (dec_store dec) st" by (rule others_grows_aux [OF grows_refl a(12) a(13) a(2)])
  have g0: "grows st0 st" using at g grows_trans by (auto simp: decoder_at_def)
  note refs = others_store [OF a(12)]
  show thesis
  proof (rule that [OF a(1,2)])
    show "decoder_at rinv K st0 (add_reference x ENCODED s) (push_reference h ?dec1)" "dec_references (push_reference h ?dec1) = dec_references dec @ [h]"
      by (rule push_reference_at [OF at a(3-5) small disjI2 [OF refl]]; use at a refs g0 in \<open>simp add: decoder_at_def\<close>)+
  qed (use refs a(6,7) g IsRef_not_error [OF a(3)] in \<open>simp_all add: push_reference_def\<close>)
qed

lemma decode_array:
  assumes at: "decoder_at rinv K st0 s dec" and "base N st0" "K + snd s' \<le> kMaxHandles" and p: "pending src sh gl s x (ArrayBody es)"
    and q: "encodes_all src sh gl N (add_reference x ENCODED s) es bs s'"
    and c: "cont (dec_input dec) = tag_bytes WIRE_SPECIAL WIRE_ARRAY @ size_bytes (length es) @ bs @ r"
    and IH: "\<And>dec. decoder_at rinv K st0 (add_reference x ENCODED s) dec \<Longrightarrow> cont (dec_input dec) = bs @ r \<Longrightarrow>
      \<exists>dec'. decode_elements (DecodeObject vt) (length es) dec = Some (True, dec') \<and> cont (dec_input dec') = r \<and>
        dec_stack dec' = dec_stack dec @ map (copy_of s' (dec_references dec')) es \<and> decodes src sh gl rinv K st0 (add_reference x ENCODED s) s' dec dec'"
  shows "\<exists>dec'. DecodeObject vt dec = Some (copy_of s' (dec_references dec') x, dec') \<and> cont (dec_input dec') = r \<and>
    dec_stack dec' = dec_stack dec \<and> decodes src sh gl rinv K st0 s s' dec dec'"
proof -
  obtain inp0 where i0: "read_varint64 vt dec = Some (Some (WIRE_SPECIAL OR push_bit 3 WIRE_ARRAY), dec\<lparr>dec_input := inp0\<rparr>)"
    "decoder_at rinv K st0 s (dec\<lparr>dec_input := inp0\<rparr>)" "cont inp0 = size_bytes (length es) @ bs @ r" by (rule decode_tag [OF at c])
  obtain inp where i: "read_varint32 vt (dec\<lparr>dec_input := inp0\<rparr>) = Some (Some (of_nat (length es)), dec\<lparr>dec_input := inp\<rparr>)"
    "decoder_at rinv K st0 s (dec\<lparr>dec_input := inp\<rparr>)" "cont inp = bs @ r" by (rule decode_size [OF i0(2)]) (use i0(3) in auto)
  let ?dec1 = "dec\<lparr>dec_input := inp\<rparr>"
  have size: "object_bytes (ArrayBody es) < kObjectSizeLimit" using p by (simp add: pending_def)
  have les: "length es < 2 ^ 28" using sizes(3) [OF size] by simp
  note n = small_sizes [OF les]
  let ?b = "ArrayBody (replicate (length es) Handle_nil)"
  have room: "K + snd s + 1 \<le> kMaxHandles" using assms(3) encodes_index_all [OF q] by simp
  have small: "snd s < 2 ^ 30" using room kMaxHandles_30 by simp
  obtain h st where a: "Allocate ?b (dec_store ?dec1) = Some (h, st)" "Deref (dec_store ?dec1) h = None"
    "decoder_at rinv K st0 (add_reference x ENCODED s) (push_reference h (?dec1\<lparr>dec_store := st\<rparr>))"
    "dec_references (push_reference h (?dec1\<lparr>dec_store := st\<rparr>)) = dec_references ?dec1 @ [h]" "dec_references (?dec1\<lparr>dec_store := st\<rparr>) = dec_references ?dec1"
    "dec_stack (push_reference h (?dec1\<lparr>dec_store := st\<rparr>)) = dec_stack ?dec1" "grows (dec_store ?dec1) (dec_store (push_reference h (?dec1\<lparr>dec_store := st\<rparr>)))"
    "Deref (dec_store (push_reference h (?dec1\<lparr>dec_store := st\<rparr>))) h = Some \<lparr>d_self = h, d_marked = False, d_body = ?b\<rparr>"
    "Owned (dec_store (push_reference h (?dec1\<lparr>dec_store := st\<rparr>))) h" "\<not> IsError h"
    by (rule decode_begin [OF i(2) assms(2) room, of ?b x]) (use size object_bytes_template(3) [of es] in auto)
  let ?dec4 = "push_reference h (?dec1\<lparr>dec_store := st\<rparr>)"
  have stk: "dec_stack ?dec4 = dec_stack dec" "dec_references ?dec4 = dec_references dec @ [h]" "cont (dec_input ?dec4) = bs @ r"
    using a(4,6) i(3) by (simp_all add: dec_stack_def dec_references_def) (simp add: push_reference_def)
  obtain dec5 where d5: "decode_elements (DecodeObject vt) (length es) ?dec4 = Some (True, dec5)" "cont (dec_input dec5) = r"
    "dec_stack dec5 = dec_stack dec @ map (copy_of s' (dec_references dec5)) es" "decodes src sh gl rinv K st0 (add_reference x ENCODED s) s' ?dec4 dec5"
    using IH [OF a(3) stk(3)] stk(1) by auto
  let ?e = "\<lparr>d_self = h, d_marked = False, d_body = ?b\<rparr>"
  let ?es = "map (copy_of s' (dec_references dec5)) es"
  have at5: "decoder_at rinv K st0 s' dec5" and g5: "grows (dec_store ?dec4) (dec_store dec5)" using d5(4) unfolding decodes_def by blast+
  have h5: "Deref (dec_store dec5) h = Some ?e" "Owned (dec_store dec5) h" "handle_inv (dec_store dec5)" "growable (dec_store dec5)"
    using g5 a(8,9) at5 by (auto simp: grows_def Owned_def decoder_at_def)
  obtain st6 where m: "modify h (set_body (ArrayBody ?es)) (dec_store dec5) = Some st6" "handle_inv st6" "Deref st6 h = Some (set_body (ArrayBody ?es) ?e)"
    "others st6 = others (dec_store dec5)" "growable st6 = growable (dec_store dec5)" "\<forall>h'. h' \<noteq> h \<longrightarrow> Deref st6 h' = Deref (dec_store dec5) h'"
    using modify_spec [OF h5(3,2,1), of "set_body (ArrayBody ?es)"] by (auto simp: set_body_def)
  note enc = encodes_ext(2) [OF q]
  have fin: "decodes src sh gl rinv K st0 s s' dec (dec5\<lparr>dec_store := st6\<rparr>)" "copy_of s' (dec_references dec5) x = h"
    by (rule decodes_finish [where st = st6 and e = "set_body (ArrayBody ?es) ?e", OF at small _ _ _ stk(2) d5(4) _ p];
        use a(2,7,8) enc m h5 modify_handles [OF m(1)] in \<open>simp add: set_body_def\<close>)+
  let ?dec6 = "dec5\<lparr>dec_store := st6\<rparr>"
  have s6: "dec_stack ?dec6 = dec_stack dec @ ?es" "2 \<le> length (externals (dec_store ?dec6))" "dec_references ?dec6 = dec_references dec5"
    using others_store [OF m(4)] d5(3) at5 by (simp_all add: decoder_at_def)
  have "GetArray (dec_store dec5) h = Some (replicate (length es) Handle_nil)" using h5(1) by (simp add: GetArray_def)
  then have "DecodeObject vt dec = Some (h, Release (length (dec_stack dec)) ?dec6)"
    using DecodeObject_special(3) [OF i0(1)] i(1) a(1) n d5(1,3) m(1) les stk(1)
    by (simp add: DecodeArray_def AllocateArray_def Mark_stack_def WIRE_defs Let_def)
  then show ?thesis using fin s6 d5(2) by (intro exI [of _ "Release (length (dec_stack dec)) ?dec6"]) (simp add: Release_def)
qed

lemma decode_frame:
  assumes at: "decoder_at rinv K st0 s dec" and "base N st0" "K + snd s' \<le> kMaxHandles" and p: "pending src sh gl s x (FrameBody False False slots)"
    and id: "Handle_id \<notin> fst ` set slots"
    and q: "encodes_slots src sh gl N (add_reference x ENCODED s) slots bs s'"
    and c: "cont (dec_input dec) = tag_bytes WIRE_FRAME (of_nat (length slots)) @ bs @ r"
    and IH: "\<And>dec. decoder_at rinv K st0 (add_reference x ENCODED s) dec \<Longrightarrow> cont (dec_input dec) = bs @ r \<Longrightarrow>
      \<exists>dec'. (\<forall>index handle. decode_slots (DecodeObject vt) (length slots) True index handle dec = Some (Some handle, dec')) \<and> cont (dec_input dec') = r \<and>
        dec_stack dec' = dec_stack dec @ concat (map (\<lambda>(n, v). [copy_of s' (dec_references dec') n, copy_of s' (dec_references dec') v]) slots) \<and>
        decodes src sh gl rinv K st0 (add_reference x ENCODED s) s' dec dec'"
  shows "\<exists>dec'. DecodeObject vt dec = Some (copy_of s' (dec_references dec') x, dec') \<and> cont (dec_input dec') = r \<and>
    dec_stack dec' = dec_stack dec \<and> decodes src sh gl rinv K st0 s s' dec dec'"
proof -
  obtain inp where i: "read_varint64 vt dec = Some (Some (WIRE_FRAME OR push_bit 3 (of_nat (length slots))), dec\<lparr>dec_input := inp\<rparr>)"
    "decoder_at rinv K st0 s (dec\<lparr>dec_input := inp\<rparr>)" "cont inp = bs @ r" by (rule decode_tag [OF at c])
  let ?dec1 = "dec\<lparr>dec_input := inp\<rparr>"
  have size: "object_bytes (FrameBody False False slots) < kObjectSizeLimit" using p by (simp add: pending_def)
  have les: "length slots < 2 ^ 28" using sizes(4) [OF size] by simp
  note n = small_sizes [OF les]
  let ?b = "FrameBody False False (replicate (length slots) (Handle_nil, Handle_nil))"
  have room: "K + snd s + 1 \<le> kMaxHandles" using assms(3) encodes_index_slots [OF q] by simp
  have small: "snd s < 2 ^ 30" using room kMaxHandles_30 by simp
  obtain h st where a: "Allocate ?b (dec_store ?dec1) = Some (h, st)" "Deref (dec_store ?dec1) h = None"
    "decoder_at rinv K st0 (add_reference x ENCODED s) (push_reference h (?dec1\<lparr>dec_store := st\<rparr>))"
    "dec_references (push_reference h (?dec1\<lparr>dec_store := st\<rparr>)) = dec_references ?dec1 @ [h]" "dec_references (?dec1\<lparr>dec_store := st\<rparr>) = dec_references ?dec1"
    "dec_stack (push_reference h (?dec1\<lparr>dec_store := st\<rparr>)) = dec_stack ?dec1" "grows (dec_store ?dec1) (dec_store (push_reference h (?dec1\<lparr>dec_store := st\<rparr>)))"
    "Deref (dec_store (push_reference h (?dec1\<lparr>dec_store := st\<rparr>))) h = Some \<lparr>d_self = h, d_marked = False, d_body = ?b\<rparr>"
    "Owned (dec_store (push_reference h (?dec1\<lparr>dec_store := st\<rparr>))) h" "\<not> IsError h"
    by (rule decode_begin [OF i(2) assms(2) room, of ?b x]) (use size object_bytes_template(4) [of slots] in auto)
  let ?dec4 = "push_reference h (?dec1\<lparr>dec_store := st\<rparr>)"
  have stk: "dec_stack ?dec4 = dec_stack dec" "dec_references ?dec4 = dec_references dec @ [h]" "cont (dec_input ?dec4) = bs @ r"
    using a(4,6) i(3) by (simp_all add: dec_stack_def dec_references_def) (simp add: push_reference_def)
  obtain dec5 where d5: "\<forall>index handle. decode_slots (DecodeObject vt) (length slots) True index handle ?dec4 = Some (Some handle, dec5)" "cont (dec_input dec5) = r"
    "dec_stack dec5 = dec_stack dec @ concat (map (\<lambda>(n, v). [copy_of s' (dec_references dec5) n, copy_of s' (dec_references dec5) v]) slots)"
    "decodes src sh gl rinv K st0 (add_reference x ENCODED s) s' ?dec4 dec5"
    using IH [OF a(3) stk(3)] stk(1) by auto
  let ?e = "\<lparr>d_self = h, d_marked = False, d_body = ?b\<rparr>"
  let ?f = "copy_of s' (dec_references dec5)"
  let ?slots = "map (map_prod ?f ?f) slots"
  have at5: "decoder_at rinv K st0 s' dec5" and g5: "grows (dec_store ?dec4) (dec_store dec5)" using d5(4) unfolding decodes_def by blast+
  have h5: "Deref (dec_store dec5) h = Some ?e" "Owned (dec_store dec5) h" "handle_inv (dec_store dec5)" "growable (dec_store dec5)" "\<not> dec_skip_known_frames dec5"
    using g5 a(8,9) at5 by (auto simp: grows_def Owned_def decoder_at_def)
  note enc = encodes_ext(3) [OF q]
  have id': "Handle_id \<notin> fst ` set ?slots"
  proof
    assume "Handle_id \<in> fst ` set ?slots"
    then obtain m v where m: "(m, v) \<in> set slots" "?f m = Handle_id" by auto
    have "covered s' m" "m \<noteq> Handle_id" "\<not> IsError m" using enc id m(1) encodes_slots_not_error [OF q] by force+
    then show False using copy_of_kind(2) [OF at5] m(2) by blast
  qed
  obtain st6 where m: "update_loop h 0 ?slots (dec_store dec5) = Some st6" "handle_inv st6" "growable st6 = growable (dec_store dec5)" "handles st6 = handles (dec_store dec5)"
    "others st6 = others (dec_store dec5)" "Deref st6 h = Some (set_body (FrameBody False False ?slots) ?e)" "\<forall>h'. h' \<noteq> h \<longrightarrow> Deref st6 h' = Deref (dec_store dec5) h'"
    using update_loop_spec [OF h5(3,2,1), of False False "[]" "replicate (length slots) (Handle_nil, Handle_nil)" ?slots, OF _ _ id'] by auto
  have u: "UpdateFrame h ?slots (dec_store dec5) = Some st6" using h5(1,2) m(1) by (simp add: UpdateFrame_def GetFrame_def)
  have cov: "\<forall>y\<in>set (object_refs (FrameBody False False slots)). covered s' y" using enc by auto
  have fin: "decodes src sh gl rinv K st0 s s' dec (dec5\<lparr>dec_store := st6\<rparr>)" "copy_of s' (dec_references dec5) x = h"
    by (rule decodes_finish [where st = st6 and e = "set_body (FrameBody False False ?slots) ?e", OF at small _ _ _ stk(2) d5(4) _ p cov];
        use a(2,7,8) enc m h5 in \<open>simp add: set_body_def\<close>)+
  let ?dec6 = "dec5\<lparr>dec_store := st6\<rparr>"
  have s6: "dec_stack ?dec6 = dec_stack dec5" "2 \<le> length (externals (dec_store ?dec6))" "dec_references ?dec6 = dec_references dec5"
    using others_store [OF m(5)] at5 by (simp_all add: decoder_at_def)
  have "stack_slots (drop (length (dec_stack dec)) (dec_stack dec5)) = ?slots" using d5(3) stack_slots_concat [of ?f slots] by simp
  then have "DecodeObject vt dec = Some (h, Release (length (dec_stack dec)) ?dec6)"
    using DecodeObject_wire(2) [OF i(1)] a(1,10) n d5(1) u les stk(1) h5(5)
    by (simp add: DecodeFrame_def AllocateEmptyFrame_def Mark_stack_def WIRE_defs Let_def)
  then show ?thesis using fin s6 d5(2,3) by (intro exI [of _ "Release (length (dec_stack dec)) ?dec6"]) (simp add: Release_def)
qed

lemma decode_link:
  assumes at: "decoder_at rinv K st0 s dec" and base: "base N st0" and room: "K + snd s + 1 \<le> kMaxHandles"
    and x: "IsRef x" "\<not> IsNil x" "ref_status (fst s x) = UNRESOLVED" "link_symbol src sh gl x = Some l" "\<not> IsNil l" "GetSymbol src l = Some d" "sym_name (d_body d) \<in> N"
    and c: "cont (dec_input dec) = tag_bytes WIRE_LINK (of_nat (length (sym_name (d_body d)))) @ sym_name (d_body d) @ r"
  shows "\<exists>dec'. DecodeObject vt dec = Some (copy_of (add_reference x LINKED s) (dec_references dec') x, dec') \<and> cont (dec_input dec') = r \<and>
    dec_stack dec' = dec_stack dec \<and> decodes src sh gl rinv K st0 s (add_reference x LINKED s) dec dec'"
proof -
  let ?name = "sym_name (d_body d)"
  obtain inp where i: "read_varint64 vt dec = Some (Some (WIRE_LINK OR push_bit 3 (of_nat (length ?name))), dec\<lparr>dec_input := inp\<rparr>)"
    "decoder_at rinv K st0 s (dec\<lparr>dec_input := inp\<rparr>)" "cont inp = ?name @ r" by (rule decode_tag [OF at c])
  obtain v where v: "length ?name < 2 ^ 31" "resolves st0 ?name v" using base x(7) by (auto simp: base_def)
  have "rinv (dec_input (dec\<lparr>dec_input := inp\<rparr>))" using i(2) by (simp add: decoder_at_def)
  then obtain inp2 where i2: "read_name vt (of_nat (length ?name)) (dec\<lparr>dec_input := inp\<rparr>) = Some (Some ?name, dec\<lparr>dec_input := inp2\<rparr>)" "rinv inp2" "cont inp2 = r"
    using read_name_spec [of "dec\<lparr>dec_input := inp\<rparr>" ?name r] i(3) v(1) by auto
  have "grows st0 (dec_store dec)" using at by (simp add: decoder_at_def)
  then have lk: "Store_Lookup ?name (dec_store dec) = Some (v, dec_store dec)" by (rule resolves_Lookup [OF resolves_grows [OF _ v(2)]])
  have small: "snd s < 2 ^ 30" using room kMaxHandles_30 by simp
  have v': "IsRef v" "\<not> IsNil v" "v \<noteq> Handle_id" using v(2) by (simp_all add: resolves_def)
  let ?dec2 = "dec\<lparr>dec_input := inp2\<rparr>"
  have refs: "dec_references ?dec2 = dec_references dec" "dec_stack ?dec2 = dec_stack dec" by (simp_all add: dec_references_def dec_stack_def)
  let ?dec3 = "push_reference v ?dec2"
  have at3: "decoder_at rinv K st0 (add_reference x LINKED s) ?dec3" and refs3: "dec_references ?dec3 = dec_references dec @ [v]"
    by (rule push_reference_at [OF at v' small disjI1 [OF refl]]; use at i2 refs in \<open>simp add: decoder_at_def\<close>)+
  have cx: "copy_of (add_reference x LINKED s) (dec_references ?dec3) x = v"
    unfolding refs3 by (rule copy_of_new [OF x(1,2) _ small]) (use at in \<open>simp_all add: decoder_at_def\<close>)
  have lx: "linked src sh gl st0 x v" using x(4,6) v(2) by (auto simp: linked_def)
  have "copies src sh gl st0 s (add_reference x LINKED s) (dec_store dec) (dec_store ?dec3) (dec_references ?dec3)"
    unfolding copies_def
  proof (intro conjI allI impI)
    fix y assume y: "ref_status (fst s y) = UNRESOLVED" "ref_status (fst (add_reference x LINKED s) y) = LINKED"
    then have "y = x" by (auto simp: add_reference_def split: if_splits)
    then show "linked src sh gl st0 y (copy_of (add_reference x LINKED s) (dec_references ?dec3) y)" using cx lx by simp
  qed (auto simp: fresh_in_def add_reference_def split: if_splits)
  then have "decodes src sh gl rinv K st0 s (add_reference x LINKED s) dec ?dec3"
    using at3 refs3 unfolding decodes_def by (simp add: push_reference_def)
  moreover have "ucast (take_bit 61 (of_nat (length ?name) :: uint64)) = (of_nat (length ?name) :: uint32)"
  proof -
    have "length ?name < 2 ^ 61" "length ?name < 2 ^ 32" using v(1) by simp_all
    then have "unat (ucast (take_bit 61 (of_nat (length ?name) :: uint64)) :: uint32) = unat (of_nat (length ?name) :: uint32)"
      by (simp only: tag_small ucast_small) (simp add: unsigned_of_nat take_bit_nat_eq_self)
    then show ?thesis by (simp only: word_unat_eq_iff)
  qed
  then have "DecodeObject vt dec = Some (v, ?dec3)" using DecodeObject_wire(4) [OF i(1)] i2(1) lk by (simp add: WIRE_defs DecodeLink_def)
  ultimately show ?thesis using cx i2(3) refs(2) by (intro exI [of _ ?dec3]) (simp add: push_reference_def)
qed

end


lemma copy_of_self: "IsNil x \<or> \<not> IsRef x \<or> ref_status (fst s x) = SPECIAL \<Longrightarrow> copy_of s R x = x"
  by (auto simp: copy_of_def)

context input_stream
begin

lemma decode_leaf:
  assumes "decoder_at rinv K st0 s dec" "decoder_at rinv K st0 s (dec\<lparr>dec_input := inp\<rparr>)" "cont inp = r"
    "DecodeObject vt dec = Some (copy_of s (dec_references dec) x, dec\<lparr>dec_input := inp\<rparr>)"
  shows "\<exists>dec'. DecodeObject vt dec = Some (copy_of s (dec_references dec') x, dec') \<and> cont (dec_input dec') = r \<and>
    dec_stack dec' = dec_stack dec \<and> decodes src sh gl rinv K st0 s s dec dec'"
proof -
  have "decodes src sh gl rinv K st0 s s dec (dec\<lparr>dec_input := inp\<rparr>)" using decodes_refl [OF assms(2)] by (simp only: decodes_input)
  then show ?thesis using assms(3,4) by (intro exI [of _ "dec\<lparr>dec_input := inp\<rparr>"]) (simp add: dec_references_def dec_stack_def)
qed

lemma decode_ref:
  assumes at: "decoder_at rinv K st0 s dec" and room: "snd s \<le> 2 ^ 30" and x: "IsRef x" "\<not> IsNil x" "ref_status (fst s x) \<noteq> UNRESOLVED"
    and c: "cont (dec_input dec) = ref_bytes (fst s x) @ r"
  shows "\<exists>dec'. DecodeObject vt dec = Some (copy_of s (dec_references dec') x, dec') \<and> cont (dec_input dec') = r \<and>
    dec_stack dec' = dec_stack dec \<and> decodes src sh gl rinv K st0 s s dec dec'"
proof -
  let ?n = "ref_index (fst s x)"
  let ?w = "if ref_status (fst s x) = SPECIAL then WIRE_SPECIAL else WIRE_REF"
  obtain inp where i: "read_varint64 vt dec = Some (Some (?w OR push_bit 3 (of_nat ?n)), dec\<lparr>dec_input := inp\<rparr>)"
    "decoder_at rinv K st0 s (dec\<lparr>dec_input := inp\<rparr>)" "cont inp = r" by (rule decode_tag [OF at c [unfolded ref_bytes_def]])
  have t: "table_ok s" "length (dec_references dec) = snd s" using at by (simp_all add: decoder_at_def)
  have "DecodeObject vt dec = Some (copy_of s (dec_references dec) x, dec\<lparr>dec_input := inp\<rparr>)"
  proof (cases "ref_status (fst s x) = SPECIAL")
    case True
    then have sp: "(x, of_nat ?n) \<in> special_indices" using t(1) [unfolded table_ok_def, rule_format, OF x(3)] by simp
    then have "(of_nat ?n :: uint64) < 2 ^ 61" by (auto simp: special_indices_def WIRE_defs)
    then show ?thesis using DecodeObject_special(2) [of vt dec "of_nat ?n" "dec\<lparr>dec_input := inp\<rparr>" x] i(1) sp True by (simp add: copy_of_def)
  next
    case False
    then have n: "?n < snd s" using t(1) [unfolded table_ok_def, rule_format, OF x(3)] by simp
    then have "?n < 2 ^ 61" "?n < 2 ^ 32" using room by simp_all
    then have "unat (ucast (take_bit 61 (of_nat ?n :: uint64)) :: uint32) = ?n" by (simp only: tag_small ucast_small)
    moreover have "dec_references (dec\<lparr>dec_input := inp\<rparr>) = dec_references dec" by (simp add: dec_references_def)
    ultimately show ?thesis using DecodeObject_wire(1) [OF i(1)] False n t(2) x by (simp add: WIRE_defs copy_of_def Decoder_Reference_def)
  qed
  then show ?thesis by (rule decode_leaf [OF at i(2,3)])
qed

lemma decode_encoding:
  "encodes src sh gl N s x bs s' \<Longrightarrow> decoder_at rinv K st0 s dec \<Longrightarrow> base N st0 \<Longrightarrow> cont (dec_input dec) = bs @ r \<Longrightarrow> K + snd s' \<le> kMaxHandles \<Longrightarrow>
     \<exists>dec'. DecodeObject vt dec = Some (copy_of s' (dec_references dec') x, dec') \<and> cont (dec_input dec') = r \<and> dec_stack dec' = dec_stack dec \<and>
       decodes src sh gl rinv K st0 s s' dec dec'"
  "encodes_all src sh gl N s es bs s' \<Longrightarrow> decoder_at rinv K st0 s dec \<Longrightarrow> base N st0 \<Longrightarrow> cont (dec_input dec) = bs @ r \<Longrightarrow> K + snd s' \<le> kMaxHandles \<Longrightarrow>
     \<exists>dec'. decode_elements (DecodeObject vt) (length es) dec = Some (True, dec') \<and> cont (dec_input dec') = r \<and>
       dec_stack dec' = dec_stack dec @ map (copy_of s' (dec_references dec')) es \<and> decodes src sh gl rinv K st0 s s' dec dec'"
  "encodes_slots src sh gl N s slots bs s' \<Longrightarrow> decoder_at rinv K st0 s dec \<Longrightarrow> base N st0 \<Longrightarrow> cont (dec_input dec) = bs @ r \<Longrightarrow> K + snd s' \<le> kMaxHandles \<Longrightarrow>
     Handle_id \<notin> fst ` set slots \<Longrightarrow>
     \<exists>dec'. (\<forall>index handle. decode_slots (DecodeObject vt) (length slots) True index handle dec = Some (Some handle, dec')) \<and> cont (dec_input dec') = r \<and>
       dec_stack dec' = dec_stack dec @ concat (map (\<lambda>(n, v). [copy_of s' (dec_references dec') n, copy_of s' (dec_references dec') v]) slots) \<and>
       decodes src sh gl rinv K st0 s s' dec dec'"
proof (induction arbitrary: dec r and dec r and dec r rule: encodes_encodes_all_encodes_slots.inducts)
  case (enc_nil s)
  obtain inp where i: "read_varint64 vt dec = Some (Some (WIRE_SPECIAL OR push_bit 3 WIRE_NIL), dec\<lparr>dec_input := inp\<rparr>)"
    "decoder_at rinv K st0 s (dec\<lparr>dec_input := inp\<rparr>)" "cont inp = r" by (rule decode_tag [OF enc_nil(1,3)])
  have "DecodeObject vt dec = Some (copy_of s (dec_references dec) Handle_nil, dec\<lparr>dec_input := inp\<rparr>)"
    using DecodeObject_special(1) [OF i(1)] by (simp add: WIRE_defs copy_of_def)
  then show ?case by (rule decode_leaf [OF enc_nil(1) i(2,3)])
next
  case (enc_int h s)
  obtain inp where i: "read_varint64 vt dec = Some (Some (WIRE_INTEGER OR push_bit 3 (of_int (AsInt h))), dec\<lparr>dec_input := inp\<rparr>)"
    "decoder_at rinv K st0 s (dec\<lparr>dec_input := inp\<rparr>)" "cont inp = r" by (rule decode_tag [OF enc_int(2,4)])
  note n = Integer_AsInt [OF enc_int(1)]
  have "DecodeObject vt dec = Some (copy_of s (dec_references dec) h, dec\<lparr>dec_input := inp\<rparr>)"
    using DecodeObject_wire(5) [OF i(1)] tag_int [of "AsInt h"] n IsInt_kind [OF enc_int(1)] by (simp add: WIRE_defs copy_of_def kMinInt_def kMaxInt_def)
  then show ?case by (rule decode_leaf [OF enc_int(2) i(2,3)])
next
  case (enc_index h s)
  obtain inp0 where i0: "read_varint64 vt dec = Some (Some (WIRE_SPECIAL OR push_bit 3 WIRE_INDEX), dec\<lparr>dec_input := inp0\<rparr>)"
    "decoder_at rinv K st0 s (dec\<lparr>dec_input := inp0\<rparr>)" "cont inp0 = size_bytes (nat (AsIndex h)) @ r" by (rule decode_tag [OF enc_index(2)]) (use enc_index(4) in auto)
  obtain inp where i: "read_varint32 vt (dec\<lparr>dec_input := inp0\<rparr>) = Some (Some (of_nat (nat (AsIndex h))), dec\<lparr>dec_input := inp\<rparr>)"
    "decoder_at rinv K st0 s (dec\<lparr>dec_input := inp\<rparr>)" "cont inp = r" by (rule decode_size [OF i0(2)]) (use i0(3) in auto)
  note n = AsIndex_Index [OF enc_index(1)]
  have "sint (of_nat (nat (AsIndex h)) :: uint32) = AsIndex h" using small_sizes(3) [of "nat (AsIndex h)"] n(2,3) by simp
  then have "DecodeObject vt dec = Some (copy_of s (dec_references dec) h, dec\<lparr>dec_input := inp\<rparr>)"
    using DecodeObject_special(4) [OF i0(1)] i(1) n(1) IsFloat_kind(2) [OF IsIndex_IsFloat [OF enc_index(1)]] by (simp add: WIRE_defs copy_of_def)
  then show ?case by (rule decode_leaf [OF enc_index(2) i(2,3)])
next
  case (enc_float h s)
  obtain inp where i: "read_varint64 vt dec = Some (Some (WIRE_FLOAT OR push_bit 3 (ucast (FloatBits h))), dec\<lparr>dec_input := inp\<rparr>)"
    "decoder_at rinv K st0 s (dec\<lparr>dec_input := inp\<rparr>)" "cont inp = r" by (rule decode_tag [OF enc_float(4,6)])
  have "ucast (take_bit 61 (ucast (FloatBits h) :: uint64)) = FloatBits h" by (rule bit_word_eqI) (simp add: bit_simps)
  then have "DecodeObject vt dec = Some (copy_of s (dec_references dec) h, dec\<lparr>dec_input := inp\<rparr>)"
    using DecodeObject_wire(6) [OF i(1)] IsFloat_Float(2) [OF enc_float(1)] IsFloat_kind(2) [OF enc_float(1)] by (simp add: WIRE_defs copy_of_def)
  then show ?case by (rule decode_leaf [OF enc_float(4) i(2,3)])
next
  case (enc_ref h s l)
  have "snd s \<le> 2 ^ 30" using enc_ref(9) kMaxHandles_30 by simp
  then show ?case by (rule decode_ref [OF enc_ref(6) _ enc_ref(1,2,3,8)])
next
  case (enc_link h s l d)
  show ?case by (rule decode_link [OF enc_link(8,9) _ enc_link(1,2,3,5,4,6,7)]) (use enc_link(10,11) in simp_all)
next
  case (enc_string s h str)
  show ?case by (rule decode_string [OF enc_string(2,3) _ enc_string(1)]) (use enc_string(4,5) in simp_all)
next
  case (enc_qstring s h str q bs s')
  show ?case by (rule decode_qstring [OF enc_qstring(4,5,7,1,2)]) (use enc_qstring(3,5,6,7) in auto)
next
  case (enc_array s h es bs s')
  show ?case by (rule decode_array [OF enc_array(4,5,7,1,2)]) (use enc_array(3,5,6,7) in auto)
next
  case (enc_frame s h slots bs s')
  show ?case by (rule decode_frame [OF enc_frame(5,6,8,1) _ enc_frame(2)]) (use enc_frame(3,4,6,7,8) in auto)
next
  case (enc_done s)
  then show ?case using decodes_refl [OF enc_done(1)] by simp
next
  case (enc_next s e bs s1 es bs' s2)
  note x1 = encodes_ext(1) [OF enc_next(1)] and x2 = encodes_ext(2) [OF enc_next(3)]
  have room: "K + snd s1 \<le> kMaxHandles" using enc_next(8) encodes_index_all [OF enc_next(3)] by simp
  obtain dec1 where 1: "DecodeObject vt dec = Some (copy_of s1 (dec_references dec1) e, dec1)" "cont (dec_input dec1) = bs' @ r" "dec_stack dec1 = dec_stack dec"
    "decodes src sh gl rinv K st0 s s1 dec dec1" using enc_next(2) [OF enc_next(5,6) _ room, of "bs' @ r"] enc_next(7) by auto
  let ?e = "copy_of s1 (dec_references dec1) e"
  note at1 = decodes_at [OF 1(4)]
  have ne: "\<not> IsError ?e" using copy_of_kind(1) [OF at1] x1 encodes_not_error [OF enc_next(1)] by blast
  have at1': "decoder_at rinv K st0 s1 (Push ?e dec1)" "cont (dec_input (Push ?e dec1)) = bs' @ r" "dec_stack (Push ?e dec1) = dec_stack dec @ [?e]"
    using at1 1(2,3) by (simp_all add: Push_def) (simp add: decoder_at_def)
  obtain dec2 where 2: "decode_elements (DecodeObject vt) (length es) (Push ?e dec1) = Some (True, dec2)" "cont (dec_input dec2) = r"
    "dec_stack dec2 = (dec_stack dec @ [?e]) @ map (copy_of s2 (dec_references dec2)) es" "decodes src sh gl rinv K st0 s1 s2 (Push ?e dec1) dec2"
    using enc_next(4) [OF at1'(1) enc_next(6) at1'(2) enc_next(8)] at1'(3) by auto
  have d2: "decodes src sh gl rinv K st0 s1 s2 dec1 dec2" using 2(4) by (simp add: Push_def)
  have "copy_of s2 (dec_references dec2) e = ?e" by (rule decodes_copy_of [OF d2 at1]) (use x1 x2 in blast)+
  moreover have "decodes src sh gl rinv K st0 s s2 dec dec2" by (rule decodes_trans [OF 1(4) d2]) (use x1 x2 in blast)+
  ultimately show ?case using 1(1) 2(1-3) ne by (intro exI [of _ dec2]) simp
next
  case (enc_no_slots s)
  then show ?case using decodes_refl [OF enc_no_slots(1)] by simp
next
  case (enc_slot s n bs1 s1 v bs2 s2 slots bs3 s3)
  note x1 = encodes_ext(1) [OF enc_slot(1)] and x2 = encodes_ext(1) [OF enc_slot(3)] and x3 = encodes_ext(3) [OF enc_slot(5)]
  have room2: "K + snd s2 \<le> kMaxHandles" using enc_slot(10) encodes_index_slots [OF enc_slot(5)] by simp
  have room1: "K + snd s1 \<le> kMaxHandles" using room2 encodes_index [OF enc_slot(3)] by simp
  obtain dec1 where 1: "DecodeObject vt dec = Some (copy_of s1 (dec_references dec1) n, dec1)" "cont (dec_input dec1) = bs2 @ bs3 @ r" "dec_stack dec1 = dec_stack dec"
    "decodes src sh gl rinv K st0 s s1 dec dec1" using enc_slot(2) [OF enc_slot(7,8) _ room1, of "bs2 @ bs3 @ r"] enc_slot(9) by auto
  let ?n = "copy_of s1 (dec_references dec1) n"
  note at1 = decodes_at [OF 1(4)]
  have "n \<noteq> Handle_id" "Handle_id \<notin> fst ` set slots" using enc_slot(11) by auto
  then have ne: "\<not> IsError ?n" "?n \<noteq> Handle_id" using copy_of_kind [OF at1] x1 encodes_not_error [OF enc_slot(1)] by blast+
  have at1': "decoder_at rinv K st0 s1 (Push ?n dec1)" "cont (dec_input (Push ?n dec1)) = bs2 @ bs3 @ r" "dec_stack (Push ?n dec1) = dec_stack dec @ [?n]"
    using at1 1(2,3) by (simp_all add: Push_def) (simp add: decoder_at_def)
  obtain dec2 where 2: "DecodeObject vt (Push ?n dec1) = Some (copy_of s2 (dec_references dec2) v, dec2)" "cont (dec_input dec2) = bs3 @ r"
    "dec_stack dec2 = dec_stack dec @ [?n]" "decodes src sh gl rinv K st0 s1 s2 (Push ?n dec1) dec2"
    using enc_slot(4) [OF at1'(1) enc_slot(8) at1'(2) room2] at1'(3) by auto
  have d2: "decodes src sh gl rinv K st0 s1 s2 dec1 dec2" using 2(4) by (simp add: Push_def)
  let ?v = "copy_of s2 (dec_references dec2) v"
  note at2 = decodes_at [OF 2(4)]
  have nv: "\<not> IsError ?v" using copy_of_kind(1) [OF at2] x2 encodes_not_error [OF enc_slot(3)] by blast
  have at2': "decoder_at rinv K st0 s2 (Push ?v dec2)" "cont (dec_input (Push ?v dec2)) = bs3 @ r" "dec_stack (Push ?v dec2) = dec_stack dec @ [?n, ?v]"
    using at2 2(2,3) by (simp_all add: Push_def) (simp add: decoder_at_def)
  obtain dec3 where 3: "\<forall>index handle. decode_slots (DecodeObject vt) (length slots) True index handle (Push ?v dec2) = Some (Some handle, dec3)" "cont (dec_input dec3) = r"
    "dec_stack dec3 = (dec_stack dec @ [?n, ?v]) @ concat (map (\<lambda>(n, v). [copy_of s3 (dec_references dec3) n, copy_of s3 (dec_references dec3) v]) slots)"
    "decodes src sh gl rinv K st0 s2 s3 (Push ?v dec2) dec3"
    using enc_slot(6) [OF at2'(1) enc_slot(8) at2'(2) enc_slot(10) \<open>Handle_id \<notin> fst ` set slots\<close>] at2'(3) by auto
  have d3: "decodes src sh gl rinv K st0 s2 s3 dec2 dec3" using 3(4) by (simp add: Push_def)
  have e: "ext s s1" "ext s1 s2" "ext s2 s3" "covered s1 n" "covered s2 v" using x1 x2 x3 by blast+
  have d13: "decodes src sh gl rinv K st0 s1 s3 dec1 dec3" by (rule decodes_trans [OF d2 d3 e(2,3)])
  have "copy_of s3 (dec_references dec3) n = ?n" by (rule decodes_copy_of [OF d13 at1 e(4) ext_trans [OF e(2,3)]])
  moreover have "copy_of s3 (dec_references dec3) v = ?v" by (rule decodes_copy_of [OF d3 at2 e(5,3)])
  moreover have "decodes src sh gl rinv K st0 s s3 dec dec3" by (rule decodes_trans [OF 1(4) d13 e(1) ext_trans [OF e(2,3)]])
  ultimately show ?case using 1(1) 2(1) 3(1-3) ne nv by (intro exI [of _ dec3]) (simp add: Let_def)
qed

end

end
