(* ===== verification/Frame_Serialization.thy ===== *)
theory Frame_Serialization
  imports Frame_Codec Frame_Lifecycle
begin

text \<open>
  The round trip of the binary serialization (\<^verbatim>\<open>sling/frame/serialization.cc\<close>): encoding an object of a store into a string
  and decoding the string in another store.
\<close>

section \<open>The initial states\<close>

definition special_ref :: "uint64 \<Rightarrow> EncoderReference" where
  "special_ref i = \<lparr>ref_status = SPECIAL, ref_index = unat i\<rparr>"

definition initial_references :: references where
  "initial_references = ((\<lambda>_. no_reference)(Handle_id := special_ref WIRE_ID, Handle_isa := special_ref WIRE_ISA, Handle_is := special_ref WIRE_IS,
     Handle_name := special_ref WIRE_NAME), 0)"

lemma initial_status: "ref_status (fst initial_references x) = (if x \<in> special_handles then SPECIAL else UNRESOLVED)"
  by (auto simp: initial_references_def special_handles_def special_ref_def no_reference_def)

lemma initial_index [simp]: "snd initial_references = 0"
  by (simp add: initial_references_def)

lemma initial_table_ok: "table_ok initial_references"
  by (auto simp: table_ok_def initial_references_def special_ref_def no_reference_def special_indices_def)

lemma initial_refs_ok: "refs_ok st sh gl initial_references"
  by (auto simp: refs_ok_def initial_status)

lemma special_not_nil: "\<not> IsNil Handle_id" "\<not> IsNil Handle_isa" "\<not> IsNil Handle_is" "\<not> IsNil Handle_name"
  by (simp_all add: IsNil_def Handle_id_def Handle_isa_def Handle_is_def Handle_name_def Handle_nil_def)

context output_stream
begin

lemma add_special_spec:
  assumes "encoder_at winv st sh gl s enc" "\<not> IsNil h"
  obtains enc' where "add_special h i enc = Some enc'" "encoder_at winv st sh gl ((fst s)(h := special_ref i), snd s) enc'" "enc_output enc' = enc_output enc"
proof -
  obtain pos enc1 where f: "find_reference h enc = Some (pos, fst s h, enc1)" "enc_output enc1 = enc_output enc"
    "\<And>ref. encoder_at winv st sh gl ((fst s)(h := ref), snd s) (set_reference pos ref enc1)"
    by (rule find_reference_spec [OF assms]) blast
  show thesis
    by (rule that [of "set_reference pos (special_ref i) enc1"]) (use f in \<open>simp_all add: add_special_def special_ref_def set_reference_def\<close>)
qed

lemma Encoder_init_spec:
  assumes "winv out"
  obtains enc where "Encoder_init vt st out True = Some enc" "encoder_at winv st True (globals st = None) initial_references enc"
    "prod (enc_output enc) = prod out @ [Some WIRE_BINARY_MARKER]"
proof -
  let ?at = "encoder_at winv st True (globals st = None)"
  let ?enc = "\<lparr>enc_store = st, enc_output = out, enc_references = handle_map_init no_reference 1024, enc_next_index = 0,
    enc_shallow = True, enc_global = (globals st = None)\<rparr>"
  have 0: "?at ((\<lambda>_. no_reference), 0) ?enc"
    using assms handle_map_init_spec [where k = 10 and zero = no_reference] by (simp add: encoder_at_def)
  obtain e1 where 1: "add_special Handle_id WIRE_ID ?enc = Some e1" "?at ((\<lambda>_. no_reference)(Handle_id := special_ref WIRE_ID), 0) e1"
    "enc_output e1 = enc_output ?enc" by (rule add_special_spec [OF 0 special_not_nil(1), of WIRE_ID]) simp
  obtain e2 where 2: "add_special Handle_isa WIRE_ISA e1 = Some e2" "?at ((\<lambda>_. no_reference)(Handle_id := special_ref WIRE_ID, Handle_isa := special_ref WIRE_ISA), 0) e2"
    "enc_output e2 = enc_output e1" by (rule add_special_spec [OF 1(2) special_not_nil(2), of WIRE_ISA]) simp
  obtain e3 where 3: "add_special Handle_is WIRE_IS e2 = Some e3"
    "?at ((\<lambda>_. no_reference)(Handle_id := special_ref WIRE_ID, Handle_isa := special_ref WIRE_ISA, Handle_is := special_ref WIRE_IS), 0) e3"
    "enc_output e3 = enc_output e2" by (rule add_special_spec [OF 2(2) special_not_nil(3), of WIRE_IS]) simp
  obtain e4 where 4: "add_special Handle_name WIRE_NAME e3 = Some e4" "?at initial_references e4" "enc_output e4 = enc_output e3"
    unfolding initial_references_def by (rule add_special_spec [OF 3(2) special_not_nil(4), of WIRE_NAME]) simp
  have "winv (enc_output e4)" using 4(2) by (simp add: encoder_at_def)
  then obtain out' where o: "Output_WriteChar vt WIRE_BINARY_MARKER (enc_output e4) = Some (Done out')" "winv out'"
    "prod out' = prod (enc_output e4) @ [Some WIRE_BINARY_MARKER]" using Output_WriteChar_spec by blast
  show thesis
  proof (rule that [of "e4\<lparr>enc_output := out'\<rparr>"])
    show "Encoder_init vt st out True = Some (e4\<lparr>enc_output := out'\<rparr>)"
      using 1(1) 2(1) 3(1) 4(1) o(1) by (simp add: Encoder_init_def written_to_def)
  qed (use 1 2 3 4 o in \<open>simp_all add: encoder_at_def\<close>)
qed

end

context input_stream
begin

lemma Decoder_init_spec:
  assumes "rinv inp" "cont inp = WIRE_BINARY_MARKER # bs" "handle_inv st" "growable st" "handles st \<noteq> []"
  obtains dec where "Decoder_init vt st inp True = Some dec" "decoder_at rinv (length (handles st)) st initial_references dec" "cont (dec_input dec) = bs"
    "dec_store dec = st\<lparr>externals := [] # [] # externals st\<rparr>"
proof -
  obtain inp1 where p: "Input_Peek vt inp = Some (uint WIRE_BINARY_MARKER, inp1)" "rinv inp1" "cont inp1 = WIRE_BINARY_MARKER # bs"
    using Input_Peek_spec [OF assms(1)] assms(2) by auto
  note sk = Input_Skip_spec [OF p(2), of 1]
  let ?dec = "\<lparr>dec_store = st\<lparr>externals := [] # [] # externals st\<rparr>, dec_input = Input_Skip vt 1 inp1, dec_skip_known_frames = False\<rparr>"
  show thesis
  proof (rule that [of ?dec])
    show "decoder_at rinv (length (handles st)) st initial_references ?dec"
      using sk(1) assms(3-5) initial_table_ok by (simp add: decoder_at_def dec_references_def)
  qed (use p sk in \<open>simp_all add: Decoder_init_def\<close>)
qed

end

section \<open>Copies\<close>

text \<open>
  The object \<open>x\<close> of the store \<open>src\<close> is carried over to \<open>st\<close> by \<open>f\<close>: a value is itself, an object of \<open>E\<close> is copied, and a named frame
  is the one with that name in \<open>dst\<close>.
\<close>

definition carried :: "Store \<Rightarrow> Store \<Rightarrow> (Handle \<Rightarrow> Handle) \<Rightarrow> Handle set \<Rightarrow> Handle \<Rightarrow> bool" where
  "carried src dst f E x \<longleftrightarrow>
     (if IsNil x \<or> \<not> IsRef x \<or> x \<in> special_handles then f x = x else x \<in> E \<or> linked src True (globals src = None) dst x (f x))"

text \<open>
  The objects \<open>E\<close> have new and different copies in \<open>dst'\<close>, with the same contents up to \<open>f\<close>, and everything they refer to is
  carried over.
\<close>

definition isomorphic :: "Store \<Rightarrow> Store \<Rightarrow> Store \<Rightarrow> (Handle \<Rightarrow> Handle) \<Rightarrow> Handle set \<Rightarrow> bool" where
  "isomorphic src dst dst' f E \<longleftrightarrow> inj_on f E \<and>
     (\<forall>x\<in>E. Deref dst (f x) = None \<and>
        (\<exists>d e. Deref src x = Some d \<and> Deref dst' (f x) = Some e \<and> d_body e = copy_body f (d_body d) \<and>
           (\<forall>y\<in>set (object_refs (d_body d)). carried src dst f E y)))"

lemma copies_isomorphic:
  assumes "copies src True (globals src = None) dst initial_references s dst dst' R" "ext initial_references s" "table_ok s"
  shows "isomorphic src dst dst' (copy_of s R) {x. ref_status (fst s x) = ENCODED}"
    "covered s x \<Longrightarrow> carried src dst (copy_of s R) {x. ref_status (fst s x) = ENCODED} x"
proof -
  let ?E = "{x. ref_status (fst s x) = ENCODED}"
  let ?f = "copy_of s R"
  have special: "ref_status (fst s x) = SPECIAL" if "x \<in> special_handles" for x using assms(2) that by (simp add: ext_def initial_status)
  have unresolved: "ref_status (fst initial_references x) = UNRESOLVED" if "x \<notin> special_handles" for x using that by (simp add: initial_status)
  have fresh: "fresh_in initial_references s x" if "x \<in> ?E" for x using that special [of x] by (auto simp: fresh_in_def initial_status)
  have sp: "x \<in> special_handles" if "ref_status (fst s x) = SPECIAL" for x
  proof -
    have "(x, of_nat (ref_index (fst s x))) \<in> special_indices" using assms(3) [unfolded table_ok_def, rule_format, of x] that by simp
    then show ?thesis by (auto simp: special_indices_def special_handles_def)
  qed
  show cr: "carried src dst ?f ?E x" if "covered s x" for x
  proof (cases "IsNil x \<or> \<not> IsRef x \<or> x \<in> special_handles")
    case True
    then show ?thesis using special by (auto simp: carried_def copy_of_def)
  next
    case False
    have "ref_status (fst s x) = ENCODED \<or> ref_status (fst s x) = LINKED"
      using False that sp [of x] by (cases "ref_status (fst s x)") (auto simp: covered_def)
    then show ?thesis using False assms(1) unresolved [of x] by (auto simp: carried_def copies_def)
  qed
  show "isomorphic src dst dst' ?f ?E"
    unfolding isomorphic_def
  proof (intro conjI ballI inj_onI)
    fix x y assume "x \<in> ?E" "y \<in> ?E" "?f x = ?f y"
    then show "x = y" using assms(1) fresh unfolding copies_def by blast
  next
    fix x assume x: "x \<in> ?E"
    show "Deref dst (?f x) = None" using assms(1) fresh [OF x] unfolding copies_def by blast
    have "copied src s R dst' x" using assms(1) fresh [OF x] unfolding copies_def by blast
    then show "\<exists>d e. Deref src x = Some d \<and> Deref dst' (?f x) = Some e \<and> d_body e = copy_body ?f (d_body d) \<and>
        (\<forall>y\<in>set (object_refs (d_body d)). carried src dst ?f ?E y)"
      using cr unfolding copied_def by blast
  qed
qed

section \<open>Encoding and decoding\<close>

lemma Encode_spec:
  assumes "encodes st True (globals st = None) N initial_references h bs s" "link_symbol st True (globals st = None) h = Some Handle_nil"
  shows "Encode policy cap st h = Some (WIRE_BINARY_MARKER # bs)"
proof -
  let ?vt = "StringOutputStream_vtable policy"
  have "string_valid \<lparr>cs_chars = [], cs_capacity = cap\<rparr>" by (simp add: string_valid_def)
  then obtain out where o: "Output_init ?vt \<lparr>cs_chars = [], cs_capacity = cap\<rparr> = Some (Done out)" "string_out.winv out" "string_out.prod out = []"
    using string_out.Output_init_spec [of "\<lparr>cs_chars = [], cs_capacity = cap\<rparr>" policy] by (auto simp: string_written_def)
  obtain enc where e: "Encoder_init ?vt st out True = Some enc" "encoder_at string_out.winv st True (globals st = None) initial_references enc"
    "string_out.prod (enc_output enc) = string_out.prod out @ [Some WIRE_BINARY_MARKER]"
    by (rule string_out.Encoder_init_spec [OF o(2), of policy st])
  obtain enc' where r: "EncodeLink (EncodeObject ?vt) ?vt h enc = Some enc'" "encoder_at string_out.winv st True (globals st = None) s enc'"
    "string_out.prod (enc_output enc') = string_out.prod (enc_output enc) @ map Some bs"
    using string_out.encodes_run(1) [OF assms(1) e(2), of policy] by blast
  have w: "string_out.winv (enc_output enc')" using r(2) by (simp add: encoder_at_def)
  obtain out' where f: "Output_Flush ?vt (enc_output enc') = Some out'" "string_written (out_stream out') = string_out.prod (enc_output enc')"
    using string_out.Output_Flush_spec [OF w, of policy] by blast
  have "EncodeObject ?vt h enc = Some enc'" using r(1) assms(2) e(2) by (simp add: EncodeLink_def encoder_at_def)
  moreover have "map Some (cs_chars (out_stream out')) = map Some (WIRE_BINARY_MARKER # bs)"
    using f(2) r(3) e(3) o(3) by (simp add: string_written_def)
  then have "cs_chars (out_stream out') = WIRE_BINARY_MARKER # bs" by (simp only: inj_map_eq_map inj_Some)
  ultimately show ?thesis using o(1) e(1) f(1) by (simp add: Encode_def)
qed

lemma Root_init_keeps [simp]:
  "Deref (Root_init h st) x = Deref st x" "grows st0 (Root_init h st) = grows st0 st" "handle_inv (Root_init h st) = handle_inv st"
proof -
  have r: "Deref (st\<lparr>roots := rs\<rparr>) x = Deref st x" for rs x
  proof -
    have "pool_deref (st\<lparr>roots := rs\<rparr>) x = pool_deref st x" by (simp add: pool_deref_def pool_address_def split: Reference.split)
    then show ?thesis by (simp add: Deref_def split: option.split)
  qed
  have i: "handle_inv (st\<lparr>roots := rs\<rparr>) = handle_inv st" for rs by (simp add: handle_inv_def ref_ok_def cong: Reference.case_cong)
  show "Deref (Root_init h st) x = Deref st x" "grows st0 (Root_init h st) = grows st0 st" by (simp_all add: Root_init_def r grows_def)
  show "handle_inv (Root_init h st) = handle_inv st" by (simp add: Root_init_def i)
qed

lemma Decode_spec:
  assumes "encodes src True (globals src = None) N initial_references h bs s" "base N dst" "handle_inv dst" "growable dst" "handles dst \<noteq> []"
    "length (handles dst) + snd s \<le> kMaxHandles"
  obtains R dst' where "Decode dst (WIRE_BINARY_MARKER # bs) = Some (copy_of s R h, dst')" "handle_inv dst'" "grows dst dst'"
    "isomorphic src dst dst' (copy_of s R) {x. ref_status (fst s x) = ENCODED}" "carried src dst (copy_of s R) {x. ref_status (fst s x) = ENCODED} h"
proof -
  let ?vt = ArrayInputStream_vtable
  let ?inp = "Input_init (ArrayInputStream_init (WIRE_BINARY_MARKER # bs) (-1))"
  have "array.rinv ?inp" "array.cont ?inp = WIRE_BINARY_MARKER # bs" using array.Input_init_spec ArrayInputStream_init_valid by metis+
  then obtain dec where d: "Decoder_init ?vt dst ?inp True = Some dec" "decoder_at array.rinv (length (handles dst)) dst initial_references dec"
    "array.cont (dec_input dec) = bs" "dec_store dec = dst\<lparr>externals := [] # [] # externals dst\<rparr>"
    using array.Decoder_init_spec [OF _ _ assms(3-5)] by metis
  have "array.cont (dec_input dec) = bs @ []" using d(3) by simp
  from array.decode_encoding(1) [OF assms(1) d(2) assms(2) this assms(6)] obtain dec' where
    r: "DecodeObject ?vt dec = Some (copy_of s (dec_references dec') h, dec')" "decodes src True (globals src = None) array.rinv (length (handles dst)) dst initial_references s dec dec'"
    by blast
  let ?R = "dec_references dec'"
  let ?st = "Root_init (copy_of s ?R h) (dec_store dec')"
  let ?dst = "?st\<lparr>externals := drop 2 (externals ?st)\<rparr>"
  have at: "decoder_at array.rinv (length (handles dst)) dst s dec'" "copies src True (globals src = None) dst initial_references s (dec_store dec) (dec_store dec') ?R"
    using r(2) unfolding decodes_def by blast+
  have c: "copies src True (globals src = None) dst initial_references s dst ?dst ?R" using at(2) by (simp add: copies_def copied_def d(4))
  have t: "table_ok s" "handle_inv (dec_store dec')" "grows dst (dec_store dec')" using at(1) by (simp_all add: decoder_at_def)
  note ext = encodes_ext(1) [OF assms(1)]
  show thesis
  proof (rule that [of ?R ?dst])
    show "Decode dst (WIRE_BINARY_MARKER # bs) = Some (copy_of s ?R h, ?dst)"
      using d(1) r(1) by (simp add: Decode_def Decoder_Decode_def Decoder_end_def)
  qed (use copies_isomorphic [OF c _ t(1)] ext t in simp_all)
qed

text \<open>The number of references is bounded by the number of objects.\<close>

lemma reference_count:
  assumes "encodes st sh gl N initial_references h bs s" "same_outside S initial_references s" "finite S"
  shows "snd s \<le> card S"
proof -
  have ext: "ext initial_references s" using encodes_ext(1) [OF assms(1)] by blast
  then have sub: "unresolved s \<subseteq> unresolved initial_references" by (auto simp: unresolved_def ext_def)
  have "unresolved initial_references - unresolved s \<subseteq> S" using assms(2) by (auto simp: unresolved_def same_outside_def)
  then have "card (unresolved initial_references - unresolved s) \<le> card S" by (rule card_mono [OF assms(3)])
  moreover have "card (unresolved initial_references - unresolved s) = card (unresolved initial_references) - card (unresolved s)"
    by (rule card_Diff_subset [OF finite_Handle sub])
  ultimately show ?thesis using encodes_count(1) [OF assms(1)] card_mono [OF finite_Handle sub] by simp
qed

section \<open>Properties\<close>


text \<open>A store with a frame that refers to a string and to itself.\<close>

definition sample_cycle :: Store where
  "sample_cycle = (initial_store kDefaultOptions)\<lparr>
     memory := kInitialHeap @
       [\<lparr>d_self = Handle 0x24, d_marked = False, d_body = FrameBody False False [(Handle_name, Handle 0x28), (Handle_isa, Handle 0x24)]\<rparr>,
        \<lparr>d_self = Handle 0x28, d_marked = False, d_body = StringBody [0x61, 0x62]\<rparr>],
     handles := Trap # map Object [0, 1, 2, 3, 4, 5, 6, 7, 8, 9]\<rparr>"


end
