(* ===== verification/UTF8_Codec.thy ===== *)
theory UTF8_Codec
  imports Unicode
begin

text \<open>
  Correctness of the UTF-8 routines of \<^verbatim>\<open>sling/util/unicode.cc\<close>: encoding and decoding are inverse, the routines
  with a fast loop for bytes below 128 are functions of the code points of the string, and which encoded
  strings \<^verbatim>\<open>Valid\<close> accepts.
\<close>

section \<open>Encoding and decoding one code point\<close>

lemma push_bit_disjoint:
  fixes x y :: int
  assumes "0 \<le> y" "y < 2 ^ k"
  shows "push_bit k x AND y = 0"
proof (rule bit_eqI)
  fix i
  have "y = take_bit k y" using assms by (simp add: take_bit_int_eq_self)
  then have "bit y i \<Longrightarrow> i < k" by (metis bit_take_bit_iff)
  then show "bit (push_bit k x AND y) i = bit 0 i" by (auto simp: bit_simps)
qed

lemma push_bit_or:
  fixes x y :: int
  assumes "0 \<le> y" "y < 2 ^ k"
  shows "push_bit k x OR y = x * 2 ^ k + y"
  using push_bit_disjoint [OF assms, of x] by (simp add: disjunctive_add_eq_or [symmetric] push_bit_eq_mult)

lemma and_low_bits:
  fixes x :: int
  assumes "m = 2 ^ k - 1"
  shows "x AND m = x mod 2 ^ k"
  by (simp only: assms take_bit_eq_mask [symmetric] mask_eq_exp_minus_1 [symmetric] take_bit_eq_mod)

lemmas low_bits = and_low_bits [where m = 63 and k = 6, simplified] and_low_bits [where m = 2047 and k = 11, simplified]
  and_low_bits [where m = 65535 and k = 16, simplified] and_low_bits [where m = 2097151 and k = 21, simplified]

lemma lead_bits:
  fixes y :: int
  shows "0 \<le> y \<Longrightarrow> y < 32 \<Longrightarrow> 192 OR y = 192 + y"
    and "0 \<le> y \<Longrightarrow> y < 16 \<Longrightarrow> 224 OR y = 224 + y"
    and "0 \<le> y \<Longrightarrow> y < 8 \<Longrightarrow> 240 OR y = 240 + y"
    and "0 \<le> y \<Longrightarrow> y < 64 \<Longrightarrow> 128 OR y = 128 + y"
  using push_bit_or [of y 5 6] push_bit_or [of y 4 14] push_bit_or [of y 3 30] push_bit_or [of y 6 2]
  by (simp_all add: push_bit_eq_mult)

lemma tail_bits:
  fixes y :: int
  assumes "0 \<le> y" "y < 64"
  shows "(128 + y) XOR 128 = y" "y AND 192 = 0"
proof -
  have "128 AND y = 0" using push_bit_disjoint [of y 6 2] assms by (simp add: push_bit_eq_mult)
  then have "128 + y = 128 XOR y" by (rule disjunctive_add_eq_xor)
  then show "(128 + y) XOR 128 = y" by (simp add: xor.commute [of 128] xor.assoc)
  show "y AND 192 = 0" using push_bit_disjoint [of y 6 3] assms by (simp add: push_bit_eq_mult and.commute)
qed

lemma push_bit_or6:
  fixes x y :: int
  assumes "0 \<le> y" "y < 64"
  shows "push_bit 6 x OR y = x * 64 + y"
  using push_bit_or [of y 6 x] assms by simp

lemma byte_of_word: "uint (x :: uint32) < 256 \<Longrightarrow> uint (ucast x :: byte) = uint x"
  by (simp add: unsigned_ucast_eq take_bit_int_eq_self)

lemma tail_byte: "uint (ucast (0x80 OR (x AND 0x3f) :: uint32) :: byte) = 128 + uint x mod 64"
proof -
  have u: "uint (0x80 OR (x AND 0x3f)) = 128 + uint x mod 64"
    by (simp add: unsigned_or_eq unsigned_and_eq low_bits lead_bits)
  moreover have "uint x mod 64 < 64" by simp
  ultimately show ?thesis by (simp add: byte_of_word)
qed

lemma uint_shift: "uint (drop_bit n (x :: uint32)) = uint x div 2 ^ n"
proof -
  have "take_bit LENGTH(32) (uint x) = uint x" using unsigned_less [of x, where 'a = int] by (simp add: take_bit_int_eq_self)
  then show ?thesis by (simp only: unsigned_drop_bit_eq) (simp add: drop_bit_eq_div)
qed

lemma lead_byte:
  shows "uint (x :: uint32) < 2048 \<Longrightarrow> uint (ucast (0xc0 OR drop_bit 6 x) :: byte) = 192 + uint x div 64"
    and "uint (x :: uint32) < 65536 \<Longrightarrow> uint (ucast (0xe0 OR drop_bit 12 x) :: byte) = 224 + uint x div 4096"
    and "uint (x :: uint32) < 2097152 \<Longrightarrow> uint (ucast (0xf0 OR drop_bit 18 x) :: byte) = 240 + uint x div 262144"
proof -
  assume "uint x < 2048"
  then have "uint x div 64 < 32" "0 \<le> uint x div 64" by (simp_all add: pos_imp_zdiv_nonneg_iff)
  then show "uint (ucast (0xc0 OR drop_bit 6 x) :: byte) = 192 + uint x div 64"
    by (subst byte_of_word) (simp_all add: unsigned_or_eq uint_shift lead_bits)
next
  assume "uint x < 65536"
  then have "uint x div 4096 < 16" "0 \<le> uint x div 4096" by (simp_all add: pos_imp_zdiv_nonneg_iff)
  then show "uint (ucast (0xe0 OR drop_bit 12 x) :: byte) = 224 + uint x div 4096"
    by (subst byte_of_word) (simp_all add: unsigned_or_eq uint_shift lead_bits)
next
  assume "uint x < 2097152"
  then have "uint x div 262144 < 8" "0 \<le> uint x div 262144" by (simp_all add: pos_imp_zdiv_nonneg_iff)
  then show "uint (ucast (0xf0 OR drop_bit 18 x) :: byte) = 240 + uint x div 262144"
    by (subst byte_of_word) (simp_all add: unsigned_or_eq uint_shift lead_bits)
qed

definition encoded :: "int \<Rightarrow> int list" where
  "encoded code =
     (if code \<le> 0x7f then [code]
      else if code \<le> 0x7ff then [192 + code div 64, 128 + code mod 64]
      else if code \<le> 0xffff then [224 + code div 4096, 128 + code div 64 mod 64, 128 + code mod 64]
      else [240 + code div 262144, 128 + code div 4096 mod 64, 128 + code div 64 mod 64, 128 + code mod 64])"

lemma UTF8_Encode_bytes:
  assumes "0 \<le> code" "code \<le> 0x1fffff"
  shows "map uint (UTF8_Encode code) = encoded code"
proof -
  define c where "c = (word_of_int code :: uint32)"
  have u: "uint c = code" using assms by (simp add: c_def uint_word_of_int_eq take_bit_int_eq_self)
  have le: "c \<le> 0x7f \<longleftrightarrow> code \<le> 0x7f" "c \<le> 0x7ff \<longleftrightarrow> code \<le> 0x7ff" "c \<le> 0xffff \<longleftrightarrow> code \<le> 0xffff"
    by (simp_all add: word_le_def u)
  show ?thesis using assms
    by (simp add: UTF8_Encode_def encoded_def c_def [symmetric] Let_def le tail_byte lead_byte byte_of_word uint_shift u)
qed

lemma mod_add_multiple:
  fixes x m k :: int
  assumes "0 \<le> x" "x < m"
  shows "(m * k + x) mod m = x"
  using assms by simp

lemma UTF8_Decode_1: "uint a < 128 \<Longrightarrow> UTF8_Decode (a # r) = Some (uint a)"
  by (simp add: UTF8_Decode_def read_at_def)

lemma tail_byte_bits:
  assumes "uint (b :: byte) = 128 + t" "0 \<le> t" "t < 64"
  shows "uint b XOR 128 = t" "t AND 192 = 0" "push_bit 6 x OR t = x * 64 + t"
  using assms tail_bits [of t] push_bit_or6 [of t x] by simp_all

lemma UTF8_Decode_2:
  assumes "uint a = 192 + q" "uint b = 128 + t" "2 \<le> q" "q < 32" "0 \<le> t" "t < 64"
  shows "UTF8_Decode (a # b # r) = Some (64 * q + t)"
proof -
  have m: "(uint a * 64 + t) mod 2048 = 64 * q + t"
    using mod_add_multiple [of "64 * q + t" 2048 6] assms by (simp add: algebra_simps)
  have a: "\<not> uint a < 128" "\<not> uint a < 192" "uint a < 224" "\<not> 64 * q + t \<le> 127" using assms by auto
  show ?thesis
    by (simp add: UTF8_Decode_def read_at_def low_bits tail_byte_bits [OF assms(2,5,6)] a m)
qed

lemma UTF8_Decode_3:
  assumes "uint a = 224 + p" "uint b = 128 + q" "uint c = 128 + t" "0 \<le> p" "p < 16" "0 \<le> q" "q < 64"
    "0 \<le> t" "t < 64" "0x800 \<le> 4096 * p + 64 * q + t"
  shows "UTF8_Decode (a # b # c # r) = Some (4096 * p + 64 * q + t)"
proof -
  have m: "(4096 * uint a + q * 64 + t) mod 65536 = 4096 * p + 64 * q + t"
    using mod_add_multiple [of "4096 * p + 64 * q + t" 65536 14] assms by (simp add: algebra_simps)
  have a: "\<not> uint a < 128" "\<not> uint a < 224" "uint a < 240" "\<not> 4096 * p + 64 * q + t \<le> 2047" using assms by auto
  show ?thesis
    by (simp add: UTF8_Decode_def read_at_def low_bits tail_byte_bits [OF assms(2,6,7)] tail_byte_bits [OF assms(3,8,9)]
      a m Let_def)
qed

lemma UTF8_Decode_4:
  assumes "uint a = 240 + h" "uint b = 128 + p" "uint c = 128 + q" "uint d = 128 + t" "0 \<le> h" "h < 8"
    "0 \<le> p" "p < 64" "0 \<le> q" "q < 64" "0 \<le> t" "t < 64" "0x10000 \<le> 262144 * h + 4096 * p + 64 * q + t"
  shows "UTF8_Decode (a # b # c # d # r) = Some (262144 * h + 4096 * p + 64 * q + t)"
proof -
  have m: "(262144 * uint a + 4096 * p + q * 64 + t) mod 2097152 = 262144 * h + 4096 * p + 64 * q + t"
    using mod_add_multiple [of "262144 * h + 4096 * p + 64 * q + t" 2097152 30] assms by (simp add: algebra_simps)
  have a: "\<not> uint a < 128" "\<not> uint a < 224" "\<not> uint a < 240" "uint a < 248"
    "\<not> 262144 * h + 4096 * p + 64 * q + t \<le> 65535" using assms by auto
  show ?thesis
    by (simp add: UTF8_Decode_def read_at_def low_bits tail_byte_bits [OF assms(2,7,8)]
      tail_byte_bits [OF assms(3,9,10)] tail_byte_bits [OF assms(4,11,12)] a m Let_def)
qed

lemma code_split:
  fixes code :: int
  shows "64 * (code div 64) + code mod 64 = code"
    and "4096 * (code div 4096) + 64 * (code div 64 mod 64) + code mod 64 = code"
    and "262144 * (code div 262144) + 4096 * (code div 4096 mod 64) + 64 * (code div 64 mod 64) + code mod 64 = code"
proof -
  have a: "64 * (code div 64) + code mod 64 = code" by simp
  have b: "64 * (code div 64 div 64) + code div 64 mod 64 = code div 64" by simp
  have c: "64 * (code div 64 div 64 div 64) + code div 64 div 64 mod 64 = code div 64 div 64" by simp
  have d: "code div 4096 = code div 64 div 64" "code div 262144 = code div 64 div 64 div 64"
    by (simp_all add: zdiv_zmult2_eq [symmetric])
  show "64 * (code div 64) + code mod 64 = code" by (rule a)
  show "4096 * (code div 4096) + 64 * (code div 64 mod 64) + code mod 64 = code" using a b unfolding d by linarith
  show "262144 * (code div 262144) + 4096 * (code div 4096 mod 64) + 64 * (code div 64 mod 64) + code mod 64 = code"
    using a b c unfolding d by linarith
qed

lemma UTF8_Decode_bytes:
  assumes "0 \<le> code" "code \<le> 0x1fffff" "map uint s = encoded code"
  shows "UTF8_Decode (s @ r) = Some code"
proof -
  have t: "0 \<le> code mod 64" "code mod 64 < 64" "0 \<le> code div 64 mod 64" "code div 64 mod 64 < 64"
    "0 \<le> code div 4096 mod 64" "code div 4096 mod 64 < 64" by auto
  consider "code \<le> 0x7f" | "0x7f < code" "code \<le> 0x7ff" | "0x7ff < code" "code \<le> 0xffff" | "0xffff < code"
    by linarith
  then show ?thesis
  proof cases
    case 1
    then obtain a where "s = [a]" "uint a = code" using assms(3) by (auto simp: encoded_def)
    then show ?thesis using 1 UTF8_Decode_1 [of a r] by simp
  next
    case 2
    then obtain a b where s: "s = [a, b]" and b: "uint a = 192 + code div 64" "uint b = 128 + code mod 64"
      using assms(3) by (auto simp: encoded_def)
    have d: "2 \<le> code div 64" "code div 64 < 32"
      using zdiv_mono1 [of 128 code 64] zdiv_mono1 [of code 2047 64] 2 by auto
    show ?thesis using UTF8_Decode_2 [OF b d t(1,2), of r] by (simp only: s append_Cons append_Nil code_split)
  next
    case 3
    then obtain a b c where s: "s = [a, b, c]" and b: "uint a = 224 + code div 4096"
      "uint b = 128 + code div 64 mod 64" "uint c = 128 + code mod 64"
      using assms(3) by (auto simp: encoded_def)
    have d: "0 \<le> code div 4096" "code div 4096 < 16"
      using zdiv_mono1 [of 0 code 4096] zdiv_mono1 [of code 65535 4096] 3 by auto
    have "0x800 \<le> 4096 * (code div 4096) + 64 * (code div 64 mod 64) + code mod 64"
      using 3 by (simp only: code_split)
    from UTF8_Decode_3 [OF b d t(3,4,1,2) this, of r] show ?thesis
      by (simp only: s append_Cons append_Nil code_split)
  next
    case 4
    then obtain a b c d where s: "s = [a, b, c, d]" and b: "uint a = 240 + code div 262144"
      "uint b = 128 + code div 4096 mod 64" "uint c = 128 + code div 64 mod 64" "uint d = 128 + code mod 64"
      using assms(3) by (auto simp: encoded_def)
    have h: "0 \<le> code div 262144" "code div 262144 < 8"
      using zdiv_mono1 [of 0 code 262144] zdiv_mono1 [of code 2097151 262144] 4 assms(2) by auto
    have "0x10000 \<le> 262144 * (code div 262144) + 4096 * (code div 4096 mod 64) + 64 * (code div 64 mod 64) + code mod 64"
      using 4 by (simp only: code_split)
    from UTF8_Decode_4 [OF b h t(5,6,3,4,1,2) this, of r] show ?thesis
      by (simp only: s append_Cons append_Nil code_split)
  qed
qed

lemma UTF8_Decode_Encode:
  assumes "0 \<le> code" "code \<le> 0x1fffff"
  shows "UTF8_Decode (UTF8_Encode code @ r) = Some code"
    and "CharLen (UTF8_Encode code @ r) = length (UTF8_Encode code)"
    and "UTF8_Encode code \<noteq> []"
proof -
  note e = UTF8_Encode_bytes [OF assms]
  show "UTF8_Decode (UTF8_Encode code @ r) = Some code" by (rule UTF8_Decode_bytes [OF assms e])
  show n: "UTF8_Encode code \<noteq> []" by (simp add: UTF8_Encode_def Let_def)
  then have "uint (hd (UTF8_Encode code)) = hd (encoded code)" using e by (metis list.map_sel(1))
  then have "unat (hd (UTF8_Encode code)) = nat (hd (encoded code))" by (metis unat_eq_nat_uint)
  moreover have "length (UTF8_Encode code) = length (encoded code)" using e by (metis length_map)
  moreover have "(if nat (hd (encoded code)) < 192 then 1 else if nat (hd (encoded code)) < 224 then 2
      else if nat (hd (encoded code)) < 240 then 3 else 4) = length (encoded code)"
  proof -
    consider "code \<le> 0x7f" | "0x7f < code" "code \<le> 0x7ff" | "0x7ff < code" "code \<le> 0xffff" | "0xffff < code"
      by linarith
    then show ?thesis
    proof cases
      case 2
      then have "0 \<le> code div 64" "code div 64 < 32"
        using zdiv_mono1 [of 128 code 64] zdiv_mono1 [of code 2047 64] by auto
      then show ?thesis using 2 by (simp add: encoded_def nat_less_iff)
    next
      case 3
      then have "0 \<le> code div 4096" "code div 4096 < 16"
        using zdiv_mono1 [of 0 code 4096] zdiv_mono1 [of code 65535 4096] by auto
      then show ?thesis using 3 by (simp add: encoded_def nat_less_iff)
    next
      case 4
      then have "0 \<le> code div 262144" using zdiv_mono1 [of 0 code 262144] by auto
      then show ?thesis using 4 by (simp add: encoded_def nat_less_iff)
    qed (use assms in \<open>simp add: encoded_def nat_less_iff\<close>)
  qed
  ultimately show "CharLen (UTF8_Encode code @ r) = length (UTF8_Encode code)"
    using hd_append2 [OF n, of r] by (simp only: CharLen_cases)
qed

section \<open>Strings as sequences of code points\<close>

text \<open>Reading a string with a terminating NUL never leaves it.\<close>

lemma read_at_terminated: "i \<le> length s \<Longrightarrow> read_at (s @ 0 # r) i k = k (uint ((s @ [0]) ! i))"
  by (simp add: read_at_def nth_append less_Suc_eq_le)

lemma nul_not_tail: "((0 :: int) XOR 0x80) AND 0xc0 \<noteq> 0" by simp

lemma UTF8_Decode_terminated:
  assumes "s \<noteq> []"
  shows "UTF8_Decode (s @ 0 # r) = UTF8_Decode_len s (int (length s))"
proof -
  consider a where "s = [a]" | a b where "s = [a, b]" | a b c where "s = [a, b, c]"
    | a b c d t where "s = a # b # c # d # t"
    using assms by (metis neq_Nil_conv)
  then show ?thesis
    by cases (simp_all add: UTF8_Decode_def UTF8_Decode_len_def read_at_def nul_not_tail Let_def)
qed

lemma UTF8_Decode_len_total: "\<exists>code. UTF8_Decode_len s (int (length s)) = Some code"
  by (simp add: UTF8_Decode_len_def read_at_def Let_def)

lemma UTF8_Next_shorter: "s \<noteq> [] \<Longrightarrow> length (UTF8_Next s) < length s"
  using CharLen_pos [of s] by (cases s) (auto simp: UTF8_Next_def)

function code_points :: "byte list \<Rightarrow> int list" where
  "code_points s =
     (if s = [] then [] else the (UTF8_Decode_len s (int (length s))) # code_points (UTF8_Next s))"
  by pat_completeness auto
termination by (relation "measure length") (auto simp: UTF8_Next_shorter)

declare code_points.simps [simp del]

lemma code_points_Nil [simp]: "code_points [] = []" by (simp add: code_points.simps)

fun fold_codes :: "(int \<Rightarrow> 'st \<Rightarrow> 'r + 'st) \<Rightarrow> int list \<Rightarrow> 'st \<Rightarrow> 'r + 'st" where
  "fold_codes body [] st = Inr st"
| "fold_codes body (code # cs) st =
     (case body code st of Inl r \<Rightarrow> Inl r | Inr st' \<Rightarrow> fold_codes body cs st')"

lemma utf8_run_fold:
  "utf8_run body (s @ 0 # r) (int (length s)) st = Some (fold_codes body (code_points s) st)"
proof (induction s arbitrary: st rule: code_points.induct)
  case (1 s)
  show ?case
  proof (cases "s = []")
    case True
    then show ?thesis by (simp add: utf8_run.simps)
  next
    case False
    obtain code where c: "UTF8_Decode_len s (int (length s)) = Some code" using UTF8_Decode_len_total by blast
    have l: "CharLen (s @ 0 # r) = CharLen s" using False by (simp add: CharLen_def)
    have n: "utf8_run body (UTF8_Next (s @ 0 # r)) (int (length s) - int (CharLen s)) st'
      = utf8_run body (UTF8_Next s @ 0 # r) (int (length (UTF8_Next s))) st'" for st'
    proof (cases "CharLen s \<le> length s")
      case True
      then show ?thesis by (simp add: UTF8_Next_def l of_nat_diff)
    next
      case False
      then show ?thesis by (simp add: UTF8_Next_def l utf8_run.simps)
    qed
    show ?thesis using False c
      by (subst utf8_run.simps, subst code_points.simps)
        (simp add: UTF8_Decode_terminated l n "1.IH" [OF False] split: sum.split)
  qed
qed

lemma ascii_byte:
  assumes "c AND 0x80 = (0 :: byte)"
  shows "uint c < 128"
proof -
  have "\<not> bit c 7"
  proof
    assume "bit c 7"
    then have "bit (c AND 0x80) 7" by (simp add: bit_simps)
    then show False using assms by simp
  qed
  have "drop_bit 7 c = 0"
  proof (rule bit_word_eqI)
    fix n assume "n < LENGTH(8)"
    show "bit (drop_bit 7 c) n = bit 0 n"
    proof (cases n)
      case 0
      then show ?thesis using \<open>\<not> bit c 7\<close> by (simp add: bit_simps)
    next
      case (Suc m)
      then show ?thesis using bit_imp_le_length [of c "7 + n"] by (auto simp: bit_simps)
    qed
  qed
  then have "c < 2 ^ 7" by (simp add: drop_bit_eq_0_iff_less)
  then show ?thesis by (simp add: word_less_def)
qed

lemma UTF8_Decode_len_ascii: "uint c < 128 \<Longrightarrow> 0 < n \<Longrightarrow> UTF8_Decode_len (c # s) n = Some (uint c)"
  by (simp add: UTF8_Decode_len_def read_at_def)

lemma code_points_ascii:
  assumes "c AND 0x80 = 0"
  shows "code_points (c # s) = uint c # code_points s"
proof -
  have u: "uint c < 128" by (rule ascii_byte [OF assms])
  moreover have "int (unat c) = uint c" by simp
  ultimately have "unat c < 192" by linarith
  then have n: "UTF8_Next (c # s) = s" by (simp add: UTF8_Next_def CharLen_cases)
  have d: "UTF8_Decode_len (c # s) (int (length (c # s))) = Some (uint c)"
    by (rule UTF8_Decode_len_ascii [OF u]) simp
  show ?thesis by (subst code_points.simps) (simp only: n d list.simps option.sel if_False)
qed

text \<open>
  The contract between the two loops of a routine: on bytes below 128 the body of the first loop does what
  the body of the second one does.
\<close>

locale two_phase_scan =
  fixes fast :: "byte \<Rightarrow> 'st \<Rightarrow> 'r + 'st" and slow :: "int \<Rightarrow> 'st \<Rightarrow> 'r + 'st"
  assumes fast_slow: "c AND 0x80 = 0 \<Longrightarrow> fast c st = slow (uint c) st"
begin

lemma scan_is_fold:
  "two_phase fast slow (s @ 0 # r) (int (length s)) st = Some (fold_codes slow (code_points s) st)"
proof (induction s arbitrary: st)
  case Nil
  show ?case by (subst two_phase_def, subst ascii_run.simps) (simp add: utf8_run.simps)
next
  case (Cons c s)
  show ?case
  proof (cases "c AND 0x80 = 0")
    case True
    have "ascii_run fast ((c # s) @ 0 # r) (int (length (c # s))) st =
      (case fast c st of Inl r \<Rightarrow> Some (Inl r) | Inr st' \<Rightarrow> ascii_run fast (s @ 0 # r) (int (length s)) st')"
      by (subst ascii_run.simps) (simp add: True split: sum.split)
    then show ?thesis using Cons.IH
      by (cases "fast c st") (simp_all add: two_phase_def code_points_ascii [OF True] fast_slow [OF True, symmetric])
  next
    case False
    have "ascii_run fast ((c # s) @ 0 # r) (int (length (c # s))) st
      = Some (Inr ((c # s) @ 0 # r, int (length (c # s)), st))"
      by (subst ascii_run.simps) (simp add: False)
    then show ?thesis using utf8_run_fold [of slow "c # s" r st] by (simp add: two_phase_def)
  qed
qed

end

section \<open>The bytes of an encoded code point\<close>

lemma and_push_bit: "(x :: int) AND push_bit k m = push_bit k (drop_bit k x AND m)"
  by (rule bit_eqI) (auto simp: bit_simps)

lemma div_mult_less:
  fixes x m d :: int
  assumes "x < m * d" "0 < d"
  shows "x div d < m"
proof (rule ccontr)
  assume "\<not> x div d < m"
  then have "m * d \<le> x div d * d" using assms(2) by simp
  also have "\<dots> \<le> x" using assms(2) by (simp add: minus_mod_eq_div_mult [symmetric])
  finally show False using assms(1) by simp
qed

lemma high_bits:
  fixes b :: byte
  shows "uint (b AND 0xc0) = 64 * (uint b div 64)"
    and "uint (b AND 0x80) = 128 * (uint b div 128)"
    and "uint (b AND 0xe0) = 32 * (uint b div 32)"
    and "uint (b AND 0xf0) = 16 * (uint b div 16)"
    and "uint (b AND 0xf8) = 8 * (uint b div 8)"
proof -
  have h: "uint b AND push_bit k (2 ^ j - 1) = push_bit k (uint b div 2 ^ k)" if "k + j = 8" for k j
  proof -
    have "uint b < 2 ^ (k + j)" using unsigned_less [of b, where 'a = int] that by simp
    then have "uint b < 2 ^ j * 2 ^ k" by (simp only: power_add mult.commute)
    then have "uint b div 2 ^ k < 2 ^ j" using div_mult_less [of "uint b" "2 ^ j" "2 ^ k"] by simp
    moreover have "0 \<le> uint b div 2 ^ k" by (simp add: pos_imp_zdiv_nonneg_iff)
    ultimately have "drop_bit k (uint b) AND (2 ^ j - 1) = uint b div 2 ^ k"
      using and_low_bits [of "2 ^ j - 1" j "uint b div 2 ^ k"] by (simp add: drop_bit_eq_div)
    then show ?thesis by (simp only: and_push_bit)
  qed
  show "uint (b AND 0xc0) = 64 * (uint b div 64)" using h [of 6 2] by (simp add: unsigned_and_eq push_bit_eq_mult)
  show "uint (b AND 0x80) = 128 * (uint b div 128)" using h [of 7 1] by (simp add: unsigned_and_eq push_bit_eq_mult)
  show "uint (b AND 0xe0) = 32 * (uint b div 32)" using h [of 5 3] by (simp add: unsigned_and_eq push_bit_eq_mult)
  show "uint (b AND 0xf0) = 16 * (uint b div 16)" using h [of 4 4] by (simp add: unsigned_and_eq push_bit_eq_mult)
  show "uint (b AND 0xf8) = 8 * (uint b div 8)" using h [of 3 5] by (simp add: unsigned_and_eq push_bit_eq_mult)
qed

lemma is_continuation_iff: "is_continuation b \<longleftrightarrow> 128 \<le> uint b \<and> uint b < 192"
proof -
  have "is_continuation b \<longleftrightarrow> uint (b AND 0xc0) = 128" by (simp add: is_continuation_def word_uint_eq_iff)
  also have "\<dots> \<longleftrightarrow> uint b div 64 = 2" unfolding high_bits by linarith
  also have "\<dots> \<longleftrightarrow> 128 \<le> uint b \<and> uint b < 192" by linarith
  finally show ?thesis .
qed

lemma sequence_tail_iff:
  "sequence_tail c =
     (if uint c < 128 then Some 0
      else if 192 \<le> uint c \<and> uint c < 224 then Some 1
      else if 224 \<le> uint c \<and> uint c < 240 then (if uint c = 0xed then None else Some 2)
      else if 240 \<le> uint c \<and> uint c < 248 then (if uint c = 0xf4 then None else Some 3)
      else None)"
proof -
  have n: "0 \<le> uint c" by simp
  have "c AND 0x80 = 0 \<longleftrightarrow> uint (c AND 0x80) = 0" "c AND 0xe0 = 0xc0 \<longleftrightarrow> uint (c AND 0xe0) = 192"
    "c AND 0xf0 = 0xe0 \<longleftrightarrow> uint (c AND 0xf0) = 224" "c AND 0xf8 = 0xf0 \<longleftrightarrow> uint (c AND 0xf8) = 240"
    "c = 0xed \<longleftrightarrow> uint c = 0xed" "c = 0xf4 \<longleftrightarrow> uint c = 0xf4"
    by (simp_all add: word_uint_eq_iff)
  moreover have "uint (c AND 0x80) = 0 \<longleftrightarrow> uint c < 128" "uint (c AND 0xe0) = 192 \<longleftrightarrow> 192 \<le> uint c \<and> uint c < 224"
    "uint (c AND 0xf0) = 224 \<longleftrightarrow> 224 \<le> uint c \<and> uint c < 240" "uint (c AND 0xf8) = 240 \<longleftrightarrow> 240 \<le> uint c \<and> uint c < 248"
    using n by (simp_all only: high_bits) presburger+
  ultimately show ?thesis by (simp only: sequence_tail_def)
qed

definition lead_of :: "int \<Rightarrow> int" where
  "lead_of code = hd (encoded code)"

text \<open>An encoded code point is a byte that is not a continuation byte, followed by continuation bytes.\<close>

lemma UTF8_Encode_shape:
  assumes "0 \<le> code" "code \<le> 0x1fffff"
  obtains b t where "UTF8_Encode code = b # t" "uint b = lead_of code" "\<not> is_continuation b"
    "list_all is_continuation t" "length t + 1 = length (encoded code)"
proof -
  note e = UTF8_Encode_bytes [OF assms]
  obtain b t where s: "UTF8_Encode code = b # t" using UTF8_Decode_Encode(3) [OF assms] by (cases "UTF8_Encode code") auto
  have hd: "uint b = lead_of code" using e [symmetric] by (simp only: s lead_of_def list.map list.sel)
  have tl: "map uint t = tl (encoded code)" using e [symmetric] by (simp only: s list.map list.sel)
  have m: "128 \<le> 128 + x mod 64 \<and> 128 + x mod 64 < (192 :: int)" for x by simp
  have "list_all (\<lambda>x. 128 \<le> x \<and> x < 192) (tl (encoded code))"
    by (simp only: encoded_def list.sel list.pred_inject m simp_thms split: if_split)
  then have "list_all (\<lambda>x. 128 \<le> x \<and> x < 192) (map uint t)" by (simp only: tl)
  then have t: "list_all is_continuation t" by (simp add: list_all_length is_continuation_iff)
  have "0 \<le> code div 64" "0 \<le> code div 4096" "0 \<le> code div 262144"
    using assms(1) by (simp_all add: pos_imp_zdiv_nonneg_iff)
  then have "lead_of code = code \<and> code \<le> 0x7f \<or> 192 \<le> lead_of code"
    by (simp only: lead_of_def encoded_def list.sel split: if_split) linarith
  then have b: "\<not> is_continuation b" unfolding is_continuation_iff hd by linarith
  have "length t + 1 = length (encoded code)" using arg_cong [OF e, of length] by (simp add: s)
  then show ?thesis by (rule that [OF s hd b t])
qed

lemma continuations_not_counted: "list_all is_continuation t \<Longrightarrow> UTF8_Length (t @ s) = UTF8_Length s"
  by (induction t) auto

lemma UTF8_Length_Encode:
  assumes "0 \<le> code" "code \<le> 0x1fffff"
  shows "UTF8_Length (UTF8_Encode code @ s) = Suc (UTF8_Length s)"
  using assms by (rule UTF8_Encode_shape) (simp add: continuations_not_counted)

lemma skip_continuations_all: "list_all is_continuation t \<Longrightarrow> skip_continuations (length t) (t @ s) = Some s"
  by (induction t) auto

definition valid_rejects :: "int \<Rightarrow> bool" where
  "valid_rejects code = (0xD000 \<le> code \<and> code \<le> 0xDFFF \<or> 0x100000 \<le> code \<and> code \<le> 0x13FFFF)"

lemma sequence_tail_Encode:
  assumes "0 \<le> code" "code \<le> 0x1fffff" "uint b = lead_of code"
  shows "sequence_tail b = (if valid_rejects code then None else Some (length (encoded code) - 1))"
proof -
  consider "code \<le> 0x7f" | "0x7f < code" "code \<le> 0x7ff" | "0x7ff < code" "code \<le> 0xffff" | "0xffff < code"
    by linarith
  then show ?thesis
  proof cases
    case 1
    then show ?thesis using assms by (simp add: sequence_tail_iff lead_of_def encoded_def valid_rejects_def)
  next
    case 2
    have "2 \<le> code div 64" "code div 64 < 32"
      using zdiv_mono1 [of 128 code 64] zdiv_mono1 [of code 2047 64] 2 by auto
    then show ?thesis using 2 assms by (simp add: sequence_tail_iff lead_of_def encoded_def valid_rejects_def)
  next
    case 3
    have d: "0 \<le> code div 4096" "code div 4096 < 16"
      using zdiv_mono1 [of 0 code 4096] zdiv_mono1 [of code 65535 4096] 3 by auto
    have "code div 4096 = 13 \<longleftrightarrow> valid_rejects code" unfolding valid_rejects_def using 3 by linarith
    then show ?thesis using d 3 assms by (simp add: sequence_tail_iff lead_of_def encoded_def)
  next
    case 4
    have d: "0 \<le> code div 262144" "code div 262144 < 8"
      using zdiv_mono1 [of 0 code 262144] zdiv_mono1 [of code 2097151 262144] 4 assms(2) by auto
    have "code div 262144 = 4 \<longleftrightarrow> valid_rejects code" unfolding valid_rejects_def using 4 by linarith
    then show ?thesis using d 4 assms by (simp add: sequence_tail_iff lead_of_def encoded_def)
  qed
qed

lemma UTF8_Valid_Encode:
  assumes "0 \<le> code" "code \<le> 0x1fffff"
  shows "UTF8_Valid (UTF8_Encode code @ s) \<longleftrightarrow> \<not> valid_rejects code \<and> UTF8_Valid s"
  using assms
proof (rule UTF8_Encode_shape)
  fix b t
  assume e: "UTF8_Encode code = b # t" "uint b = lead_of code" "list_all is_continuation t"
    "length t + 1 = length (encoded code)"
  from e(4) have "length (encoded code) - 1 = length t" by simp
  then show ?thesis
    using sequence_tail_Encode [OF assms e(2)] skip_continuations_all [OF e(3), of s] by (simp add: e(1))
qed

lemma code_points_Encode:
  assumes "0 \<le> code" "code \<le> 0x1fffff"
  shows "code_points (UTF8_Encode code @ s) = code # code_points s"
proof -
  note d = UTF8_Decode_Encode [OF assms]
  have "UTF8_Decode_len (UTF8_Encode code @ s) (int (length (UTF8_Encode code @ s))) = Some code"
    using UTF8_Decode_terminated [of "UTF8_Encode code @ s" "[]"] d(1) [of "s @ [0]"] d(3) by simp
  then show ?thesis by (subst code_points.simps) (simp add: d UTF8_Next_def)
qed

lemma Previous_continuations:
  "list_all is_continuation t \<Longrightarrow> limit \<le> length pre \<Longrightarrow> \<not> is_continuation b \<Longrightarrow>
    Previous (pre @ b # t @ post) (length pre + 1 + length t) limit = length pre"
proof (induction t arbitrary: post rule: rev_induct)
  case Nil
  then show ?case by (subst Previous.simps) simp
next
  case (snoc x t)
  have "Previous (pre @ b # t @ x # post) (length pre + 1 + length t) limit = length pre"
    using snoc by simp
  then show ?case using snoc.prems by (subst Previous.simps) (simp add: nth_append)
qed

abbreviation encode_all :: "int list \<Rightarrow> byte list" where
  "encode_all cs \<equiv> concat (map UTF8_Encode cs)"

lemma code_points_encode_all:
  "list_all (\<lambda>c. 0 \<le> c \<and> c \<le> 0x1fffff) cs \<Longrightarrow> code_points (encode_all cs) = cs"
  by (induction cs) (auto simp: code_points_Encode)

lemma UTF8_Length_encode_all:
  "list_all (\<lambda>c. 0 \<le> c \<and> c \<le> 0x1fffff) cs \<Longrightarrow> UTF8_Length (encode_all cs) = length cs"
  by (induction cs) (auto simp: UTF8_Length_Encode)

lemma UTF8_Valid_encode_all:
  "list_all (\<lambda>c. 0 \<le> c \<and> c \<le> 0x1fffff) cs \<Longrightarrow> UTF8_Valid (encode_all cs) \<longleftrightarrow> list_all (\<lambda>c. \<not> valid_rejects c) cs"
  by (induction cs) (auto simp: UTF8_Valid_Encode)

section \<open>The routines on strings as functions of the code points\<close>

text \<open>The tables map code points below 128 to code points below 128, as the comments of the code say.\<close>

definition ascii_closed :: "unicode_tables \<Rightarrow> bool" where
  "ascii_closed T = list_all (\<lambda>c. unicode_upper_tab T c < 128 \<and> unicode_lower_tab T c < 128 \<and>
     unicode_normalize_tab T c < 128) [0..127]"

lemma ascii_closedD:
  assumes "ascii_closed T" "0 \<le> c" "c < 128"
  shows "unicode_upper_tab T c < 128" "unicode_lower_tab T c < 128" "unicode_normalize_tab T c < 128"
proof -
  have "c \<in> set [0..127]" using assms(2,3) by simp
  then show "unicode_upper_tab T c < 128" "unicode_lower_tab T c < 128" "unicode_normalize_tab T c < 128"
    using assms(1) by (auto simp: ascii_closed_def list_all_iff)
qed

lemma ascii_in_table: "0 \<le> c \<Longrightarrow> c < 128 \<Longrightarrow> c AND unicode_tab_mask = 0"
  using push_bit_disjoint [of c 16 "-1"]
  by (simp add: unicode_tab_mask_def unicode_tab_size_def push_bit_eq_mult not_int_def and.commute)

lemma small_Encode: "w < (128 :: 16 word) \<Longrightarrow> UTF8_Encode (uint w) = [ucast w]"
proof -
  assume "w < 128"
  then have u: "uint w < 128" by (simp add: word_less_def)
  then have "(ucast w :: uint32) \<le> 0x7f" by (simp add: word_le_def unsigned_ucast_eq take_bit_int_eq_self)
  moreover have "ucast (ucast w :: uint32) = (ucast w :: byte)"
    by (rule bit_word_eqI) (simp add: bit_simps)
  ultimately show ?thesis by (simp add: UTF8_Encode_def)
qed

lemma small_Encode_int: "0 < ch \<Longrightarrow> ch < 128 \<Longrightarrow> UTF8_Encode ch = [word_of_int ch]"
proof -
  assume c: "0 < ch" "ch < 128"
  then have "word_of_int ch \<le> (0x7f :: uint32)" by (simp add: word_le_def uint_word_of_int_eq take_bit_int_eq_self)
  moreover have "ucast (word_of_int ch :: uint32) = (word_of_int ch :: byte)"
    by (rule word_uint_eqI) (simp add: unsigned_ucast_eq uint_word_of_int_eq)
  ultimately show ?thesis by (simp add: UTF8_Encode_def)
qed

lemma Unicode_Normalize_ascii:
  assumes "ascii_closed T" "0 \<le> c" "c < 128"
  shows "Unicode_Normalize T c flags < 128"
proof -
  have u: "0 \<le> x \<Longrightarrow> x < 128 \<Longrightarrow> uint (unicode_lower_tab T x) < 128 \<and> uint (unicode_normalize_tab T x) < 128" for x
    using ascii_closedD [OF assms(1), of x] by (simp add: word_less_def)
  define c1 where "c1 = (if flags AND NORMALIZE_CASE \<noteq> 0 then uint (unicode_lower_tab T c) else c)"
  define c2 where "c2 = (if flags AND NORMALIZE_LETTERS \<noteq> 0 then uint (unicode_normalize_tab T c1) else c1)"
  have "0 \<le> c1" "c1 < 128" using u [OF assms(2,3)] assms(2,3) by (auto simp: c1_def)
  then have "c2 < 128" using u [of c1] by (auto simp: c2_def)
  then show ?thesis
    using ascii_in_table [OF assms(2,3)] by (simp add: Unicode_Normalize_def c1_def [symmetric] c2_def [symmetric] Let_def)
qed

lemma normalize_body_push:
  assumes "ch < 128" "\<And>ch r. 0 < ch \<Longrightarrow> ch < 128 \<Longrightarrow> push1 ch r = push2 ch r"
  shows "normalize_body T flags push1 ch st = normalize_body T flags push2 ch st"
  using assms by (auto simp: normalize_body_def Let_def split: prod.splits)

interpretation decode_scan: two_phase_scan "\<lambda>c result. Inr (result @ [uint c])" "\<lambda>code result. Inr (result @ [code])"
  by unfold_locales simp

interpretation all_scan: two_phase_scan "\<lambda>c st. if \<not> Is T (uint c) msk then Inl False else Inr ()"
  "\<lambda>code st. if \<not> Is T code msk then Inl False else Inr ()" for T msk
  by unfold_locales simp

interpretation any_scan: two_phase_scan "\<lambda>c st. if Is T (uint c) msk then Inl True else Inr ()"
  "\<lambda>code st. if Is T code msk then Inl True else Inr ()" for T msk
  by unfold_locales simp

interpretation case_scan: two_phase_scan "\<lambda>c state. Inr (case_body T (uint c) state)"
  "\<lambda>code state. Inr (case_body T code state)" for T
  by unfold_locales simp

locale ascii_tables =
  fixes T :: unicode_tables
  assumes closed: "ascii_closed T"

sublocale ascii_tables \<subseteq> upper_scan: two_phase_scan
  "\<lambda>c result. Inr (result @ [ucast (unicode_upper_tab T (uint c))])"
  "\<lambda>code result. Inr (snd (Encode_string (ToUpper T code) result))"
proof
  fix c :: byte and st
  assume "c AND 0x80 = 0"
  then have "uint c < 128" by (rule ascii_byte)
  then show "Inr (st @ [ucast (unicode_upper_tab T (uint c))]) = Inr (snd (Encode_string (ToUpper T (uint c)) st))"
    by (simp add: ToUpper_def ascii_in_table Encode_string_def Let_def small_Encode ascii_closedD [OF closed])
qed

sublocale ascii_tables \<subseteq> lower_scan: two_phase_scan
  "\<lambda>c result. Inr (result @ [ucast (unicode_lower_tab T (uint c))])"
  "\<lambda>code result. Inr (snd (Encode_string (ToLower T code) result))"
proof
  fix c :: byte and st
  assume "c AND 0x80 = 0"
  then have "uint c < 128" by (rule ascii_byte)
  then show "Inr (st @ [ucast (unicode_lower_tab T (uint c))]) = Inr (snd (Encode_string (ToLower T (uint c)) st))"
    by (simp add: ToLower_def ascii_in_table Encode_string_def Let_def small_Encode ascii_closedD [OF closed])
qed

sublocale ascii_tables \<subseteq> normalize_scan: two_phase_scan
  "\<lambda>c st. Inr (normalize_body T flags (\<lambda>ch r. r @ [word_of_int ch]) (Unicode_Normalize T (uint c) flags) st)"
  "\<lambda>code st. Inr (normalize_body T flags (\<lambda>ch r. snd (Encode_string ch r)) (Unicode_Normalize T code flags) st)" for flags
proof
  fix c :: byte and st
  assume "c AND 0x80 = 0"
  then have "uint c < 128" by (rule ascii_byte)
  then have "Unicode_Normalize T (uint c) flags < 128" using Unicode_Normalize_ascii [OF closed] by simp
  then have "normalize_body T flags (\<lambda>ch r. r @ [word_of_int ch]) (Unicode_Normalize T (uint c) flags) st =
      normalize_body T flags (\<lambda>ch r. snd (Encode_string ch r)) (Unicode_Normalize T (uint c) flags) st"
    by (rule normalize_body_push) (simp add: Encode_string_def Let_def small_Encode_int)
  then show "Inr (normalize_body T flags (\<lambda>ch r. r @ [word_of_int ch]) (Unicode_Normalize T (uint c) flags) st) =
      Inr (normalize_body T flags (\<lambda>ch r. snd (Encode_string ch r)) (Unicode_Normalize T (uint c) flags) st)"
    by (rule arg_cong)
qed

lemma tab_entry_small:
  assumes "list_all (\<lambda>x. x < 128) (take 128 tab)" "0 \<le> c" "c < 128"
  shows "tab_entry tab c < (128 :: 16 word)"
proof (cases "c < int (length tab)")
  case True
  then have "nat c < length (take 128 tab)" using assms(2,3) by simp linarith
  then have "take 128 tab ! nat c < 128" using assms(1) by (simp add: list_all_length)
  then show ?thesis using assms(2,3) True by (simp add: tab_entry_def nat_less_iff)
qed (simp add: tab_entry_def)

lemma latin1_ascii_closed: "ascii_closed latin1_tables"
proof -
  have "list_all (\<lambda>x. x < 128) (take 128 latin1_upper_tab)" "list_all (\<lambda>x. x < 128) (take 128 latin1_lower_tab)"
    "list_all (\<lambda>x. x < 128) (take 128 latin1_normalize_tab)"
    by code_simp+
  then show ?thesis by (auto simp: ascii_closed_def latin1_tables_def list_all_iff intro!: tab_entry_small)
qed

interpretation latin1: ascii_tables latin1_tables
  by unfold_locales (rule latin1_ascii_closed)

lemma fold_codes_Inr: "fold_codes (\<lambda>code st. Inr (f code st)) cs st = Inr (fold f cs st)"
  by (induction cs arbitrary: st) auto

lemma fold_append: "fold (\<lambda>x r. r @ f x) xs r = r @ concat (map f xs)"
  by (induction xs arbitrary: r) auto

lemma fold_codes_until:
  "fold_codes (\<lambda>code st. if P code then Inl v else Inr ()) cs () = (if list_ex P cs then Inl v else Inr ())"
  by (induction cs) auto

text \<open>The case of a word from the letters in it, \<open>True\<close> for an uppercase letter.\<close>

definition letter_case :: "bool list \<Rightarrow> CaseForm" where
  "letter_case ups =
     (if ups = [] then CASE_NONE
      else if list_all id ups then CASE_UPPER
      else if list_all Not ups then CASE_LOWER
      else if hd ups \<and> list_all Not (tl ups) then CASE_TITLE
      else CASE_NONE)"

definition case_step :: "bool \<Rightarrow> nat \<Rightarrow> nat" where
  "case_step up state = (if up then state_on_upper ! state else state_on_lower ! state)"

lemma case_step_simps [simp]:
  "case_step u 0 = (if u then 1 else 3)" "case_step u (Suc 0) = (if u then 2 else 4)"
  "case_step u 2 = (if u then 2 else 5)" "case_step u 3 = (if u then 5 else 3)"
  "case_step u 4 = (if u then 5 else 4)" "case_step u 5 = 5"
  by (simp_all add: case_step_def state_on_upper_def state_on_lower_def)

lemma fold_case_step_5 [simp]: "fold case_step ups 5 = 5"
  by (induction ups) auto

lemma fold_case_step_4 [simp]: "fold case_step ups 4 = (if list_all Not ups then 4 else 5)"
  by (induction ups) auto

lemma fold_case_step_3 [simp]: "fold case_step ups 3 = (if list_all Not ups then 3 else 5)"
  by (induction ups) auto

lemma fold_case_step_2 [simp]: "fold case_step ups 2 = (if list_all id ups then 2 else 5)"
  by (induction ups) auto

lemma fold_case_step_1 [simp]:
  "fold case_step ups (Suc 0) =
     (if ups = [] then 1 else if list_all id ups then 2 else if list_all Not ups then 4 else 5)"
  by (cases ups) auto

lemma state_case_fold: "state_case ! fold case_step ups 0 = letter_case ups"
  by (cases ups; cases "hd ups") (auto simp: letter_case_def state_case_def)

lemma case_body_fold: "fold (case_body T) cs state = fold case_step (map (IsUpper T) (filter (IsLetter T) cs)) state"
  by (induction cs arbitrary: state) (auto simp: case_body_def case_step_def)

definition initials_of :: "unicode_tables \<Rightarrow> int list \<Rightarrow> bool" where
  "initials_of T cs =
     (case cs of
        [] \<Rightarrow> False
      | c # rest \<Rightarrow> IsUpper T c \<and> list_all (\<lambda>d. IsUpper T d \<or> IsNamePunctuation T d) rest \<and>
          (rest = [] \<or> list_ex (IsNamePunctuation T) rest))"

lemma initials_fold:
  "fold_codes (initials_body T) cs (False, p, single) =
     (if list_all (\<lambda>d. IsUpper T d \<or> IsNamePunctuation T d) cs
      then Inr (False, p \<or> list_ex (IsNamePunctuation T) cs, single \<and> cs = []) else Inl False)"
  by (induction cs arbitrary: p single) (auto simp: initials_body_def Let_def)

definition normalize_codes :: "unicode_tables \<Rightarrow> int \<Rightarrow> int list \<Rightarrow> byte list" where
  "normalize_codes T flags cs =
     snd (snd (fold (\<lambda>code. normalize_body T flags (\<lambda>ch r. r @ UTF8_Encode ch) (Unicode_Normalize T code flags)) cs
       (False, 0, [])))"

lemma UTF8_DecodeString_codes: "UTF8_DecodeString (s @ 0 # r) (int (length s)) = Some (code_points s)"
  by (simp add: UTF8_DecodeString_def decode_scan.scan_is_fold fold_codes_Inr scan_result_def fold_append)

context ascii_tables
begin

lemma upper_codes: "Uppercase T (s @ 0 # r) (int (length s)) = Some (encode_all (map (ToUpper T) (code_points s)))"
  using fold_append [of "UTF8_Encode \<circ> ToUpper T"]
  by (simp only: Uppercase_def upper_scan.scan_is_fold fold_codes_Inr)
    (simp add: scan_result_def Encode_string_def Let_def comp_def)

lemma lower_codes: "Lowercase T (s @ 0 # r) (int (length s)) = Some (encode_all (map (ToLower T) (code_points s)))"
  using fold_append [of "UTF8_Encode \<circ> ToLower T"]
  by (simp only: Lowercase_def lower_scan.scan_is_fold fold_codes_Inr)
    (simp add: scan_result_def Encode_string_def Let_def comp_def)

lemma normal_codes:
  "UTF8_Normalize T (s @ 0 # r) (int (length s)) flags = Some (normalize_codes T flags (code_points s))"
  by (simp only: UTF8_Normalize_def normalize_scan.scan_is_fold fold_codes_Inr)
    (simp add: scan_result_def normalize_codes_def Encode_string_def Let_def case_prod_unfold)

end

lemma All_codes: "UTF8_All T (s @ 0 # r) (int (length s)) msk = Some (list_all (\<lambda>c. Is T c msk) (code_points s))"
  by (simp add: UTF8_All_def all_scan.scan_is_fold fold_codes_until scan_result_def list_all_iff list_ex_iff)

lemma Any_codes: "UTF8_Any T (s @ 0 # r) (int (length s)) msk = Some (list_ex (\<lambda>c. Is T c msk) (code_points s))"
  by (simp add: UTF8_Any_def any_scan.scan_is_fold fold_codes_until scan_result_def)

lemma Case_codes:
  "UTF8_Case T (s @ 0 # r) (int (length s)) = Some (letter_case (map (IsUpper T) (filter (IsLetter T) (code_points s))))"
  by (simp add: UTF8_Case_def case_scan.scan_is_fold fold_codes_Inr scan_result_def case_body_fold state_case_fold)

lemma IsInitials_codes: "IsInitials T (s @ 0 # r) (int (length s)) = Some (initials_of T (code_points s))"
  by (cases "code_points s")
    (simp_all add: IsInitials_def utf8_run_fold scan_result_def initials_of_def initials_body_def Let_def initials_fold disj_commute)

text \<open>
  C18: On every NUL-terminated string, well formed or not, the routines never read outside of it, and each is a
  simple function of the sequence of code points: conversion of case maps the code points, \<open>All\<close> and \<open>Any\<close>
  quantify over them, \<open>Case\<close> and \<open>IsInitials\<close> depend on their classes only, and the loop for bytes below 128
  agrees with the general one.
\<close>

theorem utf8_string_functions:
  assumes "ascii_closed T"
  shows "UTF8_DecodeString (s @ 0 # r) (int (length s)) = Some (code_points s) \<and>
    Uppercase T (s @ 0 # r) (int (length s)) = Some (encode_all (map (ToUpper T) (code_points s))) \<and>
    Lowercase T (s @ 0 # r) (int (length s)) = Some (encode_all (map (ToLower T) (code_points s))) \<and>
    UTF8_Normalize T (s @ 0 # r) (int (length s)) flags = Some (normalize_codes T flags (code_points s)) \<and>
    UTF8_All T (s @ 0 # r) (int (length s)) msk = Some (list_all (\<lambda>c. Is T c msk) (code_points s)) \<and>
    UTF8_Any T (s @ 0 # r) (int (length s)) msk = Some (list_ex (\<lambda>c. Is T c msk) (code_points s)) \<and>
    UTF8_Case T (s @ 0 # r) (int (length s)) =
      Some (letter_case (map (IsUpper T) (filter (IsLetter T) (code_points s)))) \<and>
    IsInitials T (s @ 0 # r) (int (length s)) = Some (initials_of T (code_points s))"
proof -
  note a = ascii_tables.intro [OF assms]
  show ?thesis
    by (intro conjI UTF8_DecodeString_codes All_codes Any_codes Case_codes IsInitials_codes
      ascii_tables.upper_codes [OF a] ascii_tables.lower_codes [OF a] ascii_tables.normal_codes [OF a])
qed

theorem utf8_string_functions_witness:
  "code_points [0x4A, 0xC3, 0xA6, 0x70, 0xC3] = [0x4A, 0xE6, 0x70, -1] \<and>
   UTF8_Case latin1_tables [0x4A, 0xC3, 0xA6, 0x70, 0] 4 = Some CASE_TITLE \<and>
   Uppercase latin1_tables [0x4A, 0xC3, 0xA6, 0x70, 0] 4 = Some [0x4A, 0xC3, 0x86, 0x50]"
proof -
  have c: "code_points [0x4A, 0xC3, 0xA6, 0x70] = [0x4A, 0xE6, 0x70]" by code_simp
  have d: "letter_case (map (IsUpper latin1_tables) (filter (IsLetter latin1_tables) [0x4A, 0xE6, 0x70])) = CASE_TITLE"
    by code_simp
  have u: "encode_all (map (ToUpper latin1_tables) [0x4A, 0xE6, 0x70]) = [0x4A, 0xC3, 0x86, 0x50]" by code_simp
  have e: "code_points [0x4A, 0xC3, 0xA6, 0x70, 0xC3] = [0x4A, 0xE6, 0x70, -1]" by code_simp
  have n: "int (length [0x4A, 0xC3, 0xA6, 0x70 :: byte]) = 4" by simp
  show ?thesis
    using utf8_string_functions [OF latin1_ascii_closed, of "[0x4A, 0xC3, 0xA6, 0x70]" "[]" 0 0]
    by (simp only: c d u e n append_Cons append_Nil simp_thms)
qed

text \<open>
  C17: A sequence of code points up to 0x1FFFFF, encoded one after the other and decoded as a string, is the same
  sequence; \<open>Length\<close> counts its elements, and \<open>Previous\<close> steps back over exactly one encoded code point.
\<close>

theorem utf8_round_trip:
  assumes "list_all (\<lambda>c. 0 \<le> c \<and> c \<le> 0x1fffff) (cs @ [code])" "limit \<le> length (encode_all cs)"
  shows "UTF8_DecodeString (encode_all (cs @ [code]) @ 0 # r) (int (length (encode_all (cs @ [code])))) = Some (cs @ [code]) \<and>
    UTF8_Length (encode_all (cs @ [code])) = length cs + 1 \<and>
    Previous (encode_all (cs @ [code]) @ r) (length (encode_all (cs @ [code]))) limit = length (encode_all cs)"
proof -
  have c: "0 \<le> code" "code \<le> 0x1fffff" using assms(1) by auto
  have "Previous (encode_all (cs @ [code]) @ r) (length (encode_all (cs @ [code]))) limit = length (encode_all cs)"
    using c
  proof (rule UTF8_Encode_shape)
    fix b t
    assume "UTF8_Encode code = b # t" "\<not> is_continuation b" "list_all is_continuation t"
    then show ?thesis
      using Previous_continuations [of t limit "encode_all cs" b r] assms(2) by simp
  qed
  then show ?thesis
    using UTF8_DecodeString_codes [of "encode_all (cs @ [code])" r] code_points_encode_all [OF assms(1)]
      UTF8_Length_encode_all [OF assms(1)] by simp
qed

theorem utf8_round_trip_witness:
  "UTF8_DecodeString [0x24, 0xC2, 0xA2, 0xE2, 0x82, 0xAC, 0xF0, 0x90, 0x8D, 0x88, 0] 10 = Some [0x24, 0xA2, 0x20AC, 0x10348]"
proof -
  have e: "encode_all ([0x24, 0xA2, 0x20AC] @ [0x10348]) = [0x24, 0xC2, 0xA2, 0xE2, 0x82, 0xAC, 0xF0, 0x90, 0x8D, 0x88]"
    by code_simp
  show ?thesis
    using utf8_round_trip [of "[0x24, 0xA2, 0x20AC]" "0x10348" 0 "[]"] unfolding e by simp
qed

text \<open>
  C19: \<open>Valid\<close> accepts the encoding of a sequence of code points exactly when none of them is in the blocks
  0xD000 to 0xDFFF and 0x100000 to 0x13FFFF. It so rejects well-formed strings: the block of Hangul syllables
  from 0xD000 on, and the private use plane 16.
\<close>

theorem utf8_valid_rejects:
  assumes "list_all (\<lambda>c. 0 \<le> c \<and> c \<le> 0x1fffff) cs"
  shows "UTF8_Valid (encode_all cs) \<longleftrightarrow>
    list_all (\<lambda>c. \<not> (0xD000 \<le> c \<and> c \<le> 0xDFFF) \<and> \<not> (0x100000 \<le> c \<and> c \<le> 0x13FFFF)) cs"
  using UTF8_Valid_encode_all [OF assms] by (simp add: valid_rejects_def)

theorem utf8_valid_rejects_witness:
  "UTF8_Valid (encode_all [0x41, 0x20AC]) \<and> \<not> UTF8_Valid (encode_all [0x41, 0xD55C])"
  using utf8_valid_rejects [of "[0x41, 0x20AC]"] utf8_valid_rejects [of "[0x41, 0xD55C]"] by simp

section \<open>Normalization specifiers\<close>

lemma normalization_string_round_trip:
  "ParseNormalization (NormalizationString flags) = Some (flags AND 0x1ff)"
proof -
  have b: "flags AND 2 ^ k = (if bit flags k then 2 ^ k else 0)" for k
    by (rule bit_eqI) (auto simp: bit_simps)
  have m: "flags AND 0x1ff = (flags AND 2 ^ 0) OR (flags AND 2 ^ 1) OR (flags AND 2 ^ 2) OR (flags AND 2 ^ 3) OR
      (flags AND 2 ^ 4) OR (flags AND 2 ^ 5) OR (flags AND 2 ^ 6) OR (flags AND 2 ^ 7) OR (flags AND 2 ^ 8)"
    by (simp add: bit.conj_disj_distrib [symmetric])
  show ?thesis
    unfolding m using b [of 0] b [of 1] b [of 2] b [of 3] b [of 4] b [of 5] b [of 6] b [of 7] b [of 8]
    by (simp add: ParseNormalization_def NormalizationString_def normalize_flag_defs)
qed

section \<open>Malformed strings and title case\<close>

lemma uppercase_malformed: "Uppercase latin1_tables [0xC3, 0] 1 = Some [0xFF, 0xBF, 0xBF, 0xBF]"
  by code_simp

lemma titlecase_keeps_old_contents:
  "ToTitleCase latin1_tables [0x61, 0x62, 0] 2 [0x58] = Some [0x58, 0x41, 0x62]"
  "ToTitleCase latin1_tables [0x41, 0x62, 0] 2 [0x58] = Some [0x41, 0x62]"
  by code_simp+

end
