(* ===== verification/Document_Spans.thy ===== *)
theory Document_Spans
  imports Sling_Prelude "HOL-Library.Monad_Syntax"
begin

text \<open>
  The index of mention spans of a document (\<^verbatim>\<open>sling/nlp/document/document.h\<close>, \<^verbatim>\<open>document.cc\<close>). Spans are linked by
  parent, sibling and child pointers, and every token points to the smallest span that covers it. A
  \<^verbatim>\<open>Span *\<close> is the position of the span in \<^verbatim>\<open>spans_\<close>, or \<open>None\<close> for the null pointer. The result \<open>None\<close> of an
  operation is an access outside of the document or a loop that does not end.
\<close>

section \<open>Spans and tokens\<close>

type_synonym span_ptr = "nat option"

record Span =
  sp_begin :: nat
  sp_end :: nat
  sp_parent :: span_ptr
  sp_sibling :: span_ptr
  sp_children :: span_ptr

definition new_span :: "nat \<Rightarrow> nat \<Rightarrow> Span" where
  "new_span b e = \<lparr>sp_begin = b, sp_end = e, sp_parent = None, sp_sibling = None, sp_children = None\<rparr>"

text \<open>The part of a document the span index works on: the leaf pointers \<^verbatim>\<open>span_\<close> of the tokens and the spans.\<close>

record span_index =
  leaves :: "span_ptr list"
  spans :: "Span list"

definition Span_length :: "Span \<Rightarrow> nat" where "Span_length s = sp_end s - sp_begin s"

definition Span_Contains :: "Span \<Rightarrow> Span \<Rightarrow> bool" where
  "Span_Contains s other = (sp_begin s \<le> sp_begin other \<and> sp_end other \<le> sp_end s)"

definition Span_Contains_token :: "Span \<Rightarrow> nat \<Rightarrow> bool" where
  "Span_Contains_token s t = (sp_begin s \<le> t \<and> t < sp_end s)"

definition Span_ContainedBy :: "Span \<Rightarrow> Span \<Rightarrow> bool" where
  "Span_ContainedBy s other = (sp_begin other \<le> sp_begin s \<and> sp_end s \<le> sp_end other)"

definition span_at :: "Span list \<Rightarrow> nat \<Rightarrow> Span option" where
  "span_at S p = (if p < length S then Some (S ! p) else None)"

definition set_parent :: "span_ptr \<Rightarrow> nat \<Rightarrow> Span list \<Rightarrow> Span list" where
  "set_parent v p S = S[p := (S ! p)\<lparr>sp_parent := v\<rparr>]"

definition set_sibling :: "span_ptr \<Rightarrow> nat \<Rightarrow> Span list \<Rightarrow> Span list" where
  "set_sibling v p S = S[p := (S ! p)\<lparr>sp_sibling := v\<rparr>]"

definition set_children :: "span_ptr \<Rightarrow> nat \<Rightarrow> Span list \<Rightarrow> Span list" where
  "set_children v p S = S[p := (S ! p)\<lparr>sp_children := v\<rparr>]"

text \<open>\<^verbatim>\<open>Span::outer\<close>, which is also the loop of \<^verbatim>\<open>Insert\<close> to the top-level span.\<close>

partial_function (option) outer :: "Span list \<Rightarrow> nat \<Rightarrow> nat option" where
  "outer S s =
     do { sp \<leftarrow> span_at S s;
          case sp_parent sp of None \<Rightarrow> Some s | Some p \<Rightarrow> outer S p }"

section \<open>The smallest enclosing span\<close>

datatype relation = Same | Crosses | Encloses | Neither

text \<open>The three tests of the loop in \<^verbatim>\<open>EnclosingSpan\<close>, in their order.\<close>

definition relation_to :: "nat \<Rightarrow> nat \<Rightarrow> Span \<Rightarrow> relation" where
  "relation_to b e sp =
     (let delta_b = int b - int (sp_begin sp);
          delta_e = int e - int (sp_end sp)
      in if delta_b = 0 \<and> delta_e = 0 then Same
         else if delta_b * delta_e > 0 then Crosses
         else if delta_b \<ge> 0 \<and> delta_e \<le> 0 then Encloses
         else Neither)"

datatype climb = Match nat | Crossing | Enclosing nat | Outside

partial_function (option) enclosing_climb :: "span_ptr \<Rightarrow> Span list \<Rightarrow> nat \<Rightarrow> nat \<Rightarrow> climb option" where
  "enclosing_climb s S b e =
     (case s of
        None \<Rightarrow> Some Outside
      | Some p \<Rightarrow>
          do { sp \<leftarrow> span_at S p;
               if relation_to b e sp = Same then Some (Match p)
               else if relation_to b e sp = Crosses then Some Crossing
               else if relation_to b e sp = Encloses then Some (Enclosing p)
               else enclosing_climb (sp_parent sp) S b e })"

text \<open>The loop over the tokens, as a recursion over their leaf pointers; it returns the span and the flag \<^verbatim>\<open>crossing\<close>.\<close>

fun enclosing_loop :: "Span list \<Rightarrow> nat \<Rightarrow> nat \<Rightarrow> span_ptr \<Rightarrow> span_ptr \<Rightarrow> span_ptr list \<Rightarrow> (span_ptr \<times> bool) option" where
  "enclosing_loop S b e enclosing prev [] = Some (enclosing, False)"
| "enclosing_loop S b e enclosing prev (s # ls) =
     (if s = prev then enclosing_loop S b e enclosing prev ls
      else do { r \<leftarrow> enclosing_climb s S b e;
                case r of
                  Match p \<Rightarrow> Some (Some p, False)
                | Crossing \<Rightarrow> Some (None, True)
                | Enclosing p \<Rightarrow>
                    enclosing_loop S b e (if enclosing = None then Some p else enclosing) s ls
                | Outside \<Rightarrow> enclosing_loop S b e enclosing s ls })"

definition tokens_between :: "'a list \<Rightarrow> nat \<Rightarrow> nat \<Rightarrow> 'a list option" where
  "tokens_between xs b e = (if e \<le> length xs then Some (take (e - b) (drop b xs)) else if e \<le> b then Some [] else None)"

definition EnclosingSpan :: "span_index \<Rightarrow> nat \<Rightarrow> nat \<Rightarrow> (span_ptr \<times> bool) option" where
  "EnclosingSpan d b e =
     do { ls \<leftarrow> tokens_between (leaves d) b e;
          enclosing_loop (spans d) b e None None ls }"

section \<open>Insertion\<close>

text \<open>The loop that chains the top-level spans of the tokens; it returns \<^verbatim>\<open>children\<close>, \<^verbatim>\<open>tail\<close> and the spans.\<close>

fun chain_tops :: "span_ptr \<Rightarrow> span_ptr \<Rightarrow> Span list \<Rightarrow> span_ptr list \<Rightarrow> (span_ptr \<times> span_ptr \<times> Span list) option" where
  "chain_tops children tail S [] = Some (children, tail, S)"
| "chain_tops children tail S (None # ls) = chain_tops children tail S ls"
| "chain_tops children tail S (Some p # ls) =
     do { s \<leftarrow> outer S p;
          if Some s = tail then chain_tops children tail S ls
          else chain_tops (if children = None then Some s else children) (Some s)
                 (case tail of None \<Rightarrow> S | Some q \<Rightarrow> set_sibling (Some s) q S) ls }"

text \<open>The loop over the children of the enclosing span, with \<^verbatim>\<open>left\<close>, \<^verbatim>\<open>right\<close>, \<^verbatim>\<open>left_prev\<close> and \<^verbatim>\<open>right_next\<close>.\<close>

partial_function (option) scan_children ::
  "span_ptr \<Rightarrow> Span list \<Rightarrow> nat \<Rightarrow> nat \<Rightarrow> span_ptr \<Rightarrow> span_ptr \<Rightarrow> span_ptr \<Rightarrow> span_ptr \<Rightarrow>
     (span_ptr \<times> span_ptr \<times> span_ptr \<times> span_ptr) option" where
  "scan_children s S b e left right left_prev right_next =
     (case s of
        None \<Rightarrow> Some (left, right, left_prev, right_next)
      | Some p \<Rightarrow>
          do { sp \<leftarrow> span_at S p;
               if b \<le> sp_begin sp \<and> sp_end sp \<le> e then
                 scan_children (sp_sibling sp) S b e (if left = None then Some p else left) (Some p) left_prev right_next
               else if sp_begin sp < b then
                 scan_children (sp_sibling sp) S b e left right (Some p) right_next
               else if e \<le> sp_begin sp \<and> right_next = None then
                 scan_children (sp_sibling sp) S b e left right left_prev (Some p)
               else scan_children (sp_sibling sp) S b e left right left_prev right_next })"

partial_function (option) set_parents :: "span_ptr \<Rightarrow> span_ptr \<Rightarrow> Span list \<Rightarrow> Span list option" where
  "set_parents child v S =
     (case child of
        None \<Rightarrow> Some S
      | Some p \<Rightarrow>
          do { sp \<leftarrow> span_at S p;
               set_parents (sp_sibling sp) v (set_parent v p S) })"

definition move_leaves :: "nat \<Rightarrow> nat \<Rightarrow> span_ptr \<Rightarrow> span_ptr \<Rightarrow> span_ptr list \<Rightarrow> span_ptr list" where
  "move_leaves b e old new ls =
     take b ls @ map (\<lambda>s. if s = old then new else s) (take (e - b) (drop b ls)) @ drop (max b e) ls"

definition insert_top :: "span_index \<Rightarrow> nat \<Rightarrow> nat \<Rightarrow> (nat \<times> Span list) option" where
  "insert_top d b e =
     do { ls \<leftarrow> tokens_between (leaves d) b e;
          (children, tail, S) \<leftarrow> chain_tops None None (spans d) ls;
          let S = (case tail of None \<Rightarrow> S | Some q \<Rightarrow> set_sibling None q S);
          Some (length S, S @ [(new_span b e)\<lparr>sp_children := children\<rparr>]) }"

definition insert_below :: "span_index \<Rightarrow> nat \<Rightarrow> nat \<Rightarrow> nat \<Rightarrow> (nat \<times> Span list) option" where
  "insert_below d enclosing b e =
     do { encl \<leftarrow> span_at (spans d) enclosing;
          (left, right, left_prev, right_next) \<leftarrow> scan_children (sp_children encl) (spans d) b e None None None None;
          let span = length (spans d);
          let S = spans d @ [(new_span b e)\<lparr>sp_parent := Some enclosing, sp_children := left\<rparr>];
          let S = (case left_prev of
                     Some q \<Rightarrow> set_sibling (Some span) q S
                   | None \<Rightarrow> set_children (Some span) enclosing S);
          let S = set_sibling right_next span S;
          Some (span, case right of None \<Rightarrow> S | Some q \<Rightarrow> set_sibling None q S) }"

definition Insert :: "nat \<Rightarrow> nat \<Rightarrow> span_index \<Rightarrow> (span_ptr \<times> span_index) option" where
  "Insert b e d =
     do { (enclosing, crossing) \<leftarrow> EnclosingSpan d b e;
          if crossing then Some (None, d)
          else if (case enclosing of
                     None \<Rightarrow> False
                   | Some p \<Rightarrow> sp_begin (spans d ! p) = b \<and> sp_end (spans d ! p) = e) then Some (enclosing, d)
          else
            do { (span, S) \<leftarrow> (case enclosing of None \<Rightarrow> insert_top d b e | Some p \<Rightarrow> insert_below d p b e);
                 S \<leftarrow> set_parents (sp_children (S ! span)) (Some span) S;
                 Some (Some span, d\<lparr>leaves := move_leaves b e (sp_parent (S ! span)) (Some span) (leaves d), spans := S\<rparr>) } }"

section \<open>Removal and lookup\<close>

text \<open>The loop over the children of a removed span; it returns the last child and the spans.\<close>

partial_function (option) lift_children :: "span_ptr \<Rightarrow> span_ptr \<Rightarrow> span_ptr \<Rightarrow> Span list \<Rightarrow> (span_ptr \<times> Span list) option" where
  "lift_children child parent lst S =
     (case child of
        None \<Rightarrow> Some (lst, S)
      | Some p \<Rightarrow>
          do { sp \<leftarrow> span_at S p;
               lift_children (sp_sibling sp) parent (Some p) (set_parent parent p S) })"

text \<open>
  The loop for the pointer \<^verbatim>\<open>next\<close> that refers to the removed span: \<open>None\<close> is the field \<^verbatim>\<open>children_\<close> of the
  parent, \<open>Some q\<close> the field \<^verbatim>\<open>sibling_\<close> of the span \<open>q\<close>.
\<close>

partial_function (option) find_link :: "Span list \<Rightarrow> nat \<Rightarrow> span_ptr \<Rightarrow> span_ptr \<Rightarrow> span_ptr option" where
  "find_link S span link child =
     (if child = Some span then Some link
      else do { p \<leftarrow> child; sp \<leftarrow> span_at S p; find_link S span (Some p) (sp_sibling sp) })"

definition Remove :: "nat \<Rightarrow> span_index \<Rightarrow> span_index option" where
  "Remove span d =
     do { sp \<leftarrow> span_at (spans d) span;
          let ls = move_leaves (sp_begin sp) (sp_end sp) (Some span) (sp_parent sp) (leaves d);
          (lst, S) \<leftarrow> lift_children (sp_children sp) (sp_parent sp) None (spans d);
          S \<leftarrow> (case sp_parent sp of
                  None \<Rightarrow> Some S
                | Some parent \<Rightarrow>
                    do { par \<leftarrow> span_at S parent;
                         link \<leftarrow> find_link S span None (sp_children par);
                         let set_next = (\<lambda>v S. case link of None \<Rightarrow> set_children v parent S | Some q \<Rightarrow> set_sibling v q S);
                         case lst of
                           Some c \<Rightarrow> Some (set_sibling (sp_sibling sp) c (set_next (sp_children sp) S))
                         | None \<Rightarrow> Some (set_next (sp_sibling sp) S) });
          Some (d\<lparr>leaves := ls, spans := S\<rparr>) }"

partial_function (option) get_span_climb :: "span_ptr \<Rightarrow> Span list \<Rightarrow> nat \<Rightarrow> nat \<Rightarrow> span_ptr option" where
  "get_span_climb s S b e =
     (case s of
        None \<Rightarrow> Some None
      | Some p \<Rightarrow>
          do { sp \<leftarrow> span_at S p;
               if sp_begin sp = b \<and> sp_end sp = e then Some (Some p) else get_span_climb (sp_parent sp) S b e })"

definition GetSpan :: "nat \<Rightarrow> nat \<Rightarrow> span_index \<Rightarrow> span_ptr option" where
  "GetSpan b e d = (if b < length (leaves d) then get_span_climb (leaves d ! b) (spans d) b e else None)"

definition GetSpanAt :: "nat \<Rightarrow> span_index \<Rightarrow> span_ptr option" where
  "GetSpanAt t d = (if t < length (leaves d) then Some (leaves d ! t) else None)"

definition ClearAnnotations :: "span_index \<Rightarrow> span_index" where
  "ClearAnnotations d = d\<lparr>leaves := map (\<lambda>_. None) (leaves d), spans := []\<rparr>"

text \<open>The spans of a copy of a document: every span of the vector is inserted again.\<close>

fun copy_spans :: "Span list \<Rightarrow> span_index \<Rightarrow> span_index option" where
  "copy_spans [] d = Some d"
| "copy_spans (s # S) d =
     do { (p, d) \<leftarrow> Insert (sp_begin s) (sp_end s) d;
          _ \<leftarrow> p;
          copy_spans S d }"

declare outer.simps [code] enclosing_climb.simps [code] scan_children.simps [code] set_parents.simps [code]
  lift_children.simps [code] find_link.simps [code] get_span_climb.simps [code]

definition new_index :: "nat \<Rightarrow> span_index" where
  "new_index n = \<lparr>leaves = replicate n None, spans = []\<rparr>"

end
