(* ===== verification/Span_Tree.thy ===== *)
theory Span_Tree
  imports Document_Spans
begin

text \<open>
  The invariant of the span index of \<^verbatim>\<open>sling/nlp/document/document.cc\<close> and the lemmas on its parts: climbing from a
  token to the enclosing span, the effect of a new or removed interval on the family of spans, and the
  loops over chains of siblings. \<open>L\<close> is the set of live spans, those that are in the index.
\<close>

section \<open>Invariant\<close>

abbreviation beg :: "Span list \<Rightarrow> nat \<Rightarrow> nat" where "beg S i \<equiv> sp_begin (S ! i)"
abbreviation fin :: "Span list \<Rightarrow> nat \<Rightarrow> nat" where "fin S i \<equiv> sp_end (S ! i)"

definition covers :: "Span list \<Rightarrow> nat \<Rightarrow> nat \<Rightarrow> nat \<Rightarrow> bool" where
  "covers S b e j \<longleftrightarrow> beg S j \<le> b \<and> e \<le> fin S j"

definition inside :: "Span list \<Rightarrow> nat \<Rightarrow> nat \<Rightarrow> nat \<Rightarrow> bool" where
  "inside S b e j \<longleftrightarrow> b \<le> beg S j \<and> fin S j \<le> e \<and> \<not> (beg S j = b \<and> fin S j = e)"

definition crosses :: "nat \<Rightarrow> nat \<Rightarrow> nat \<Rightarrow> nat \<Rightarrow> bool" where
  "crosses b e b' e' \<longleftrightarrow> b' < b \<and> b < e' \<and> e' < e \<or> b < b' \<and> b' < e \<and> e < e'"

definition holds :: "Span list \<Rightarrow> nat \<Rightarrow> nat \<Rightarrow> bool" where
  "holds S t j \<longleftrightarrow> beg S j \<le> t \<and> t < fin S j"

text \<open>The smallest of the live spans \<open>L\<close> with a property, or none.\<close>

definition smallest :: "nat set \<Rightarrow> Span list \<Rightarrow> (nat \<Rightarrow> bool) \<Rightarrow> span_ptr \<Rightarrow> bool" where
  "smallest L S P r \<longleftrightarrow>
     (case r of
        None \<Rightarrow> \<forall>j\<in>L. \<not> P j
      | Some i \<Rightarrow> i \<in> L \<and> P i \<and> (\<forall>j\<in>L. P j \<longrightarrow> covers S (beg S i) (fin S i) j))"

fun linked :: "Span list \<Rightarrow> span_ptr \<Rightarrow> nat list \<Rightarrow> bool" where
  "linked S p [] \<longleftrightarrow> p = None"
| "linked S p (x # xs) \<longleftrightarrow> p = Some x \<and> linked S (sp_sibling (S ! x)) xs"

definition in_order :: "Span list \<Rightarrow> nat list \<Rightarrow> bool" where
  "in_order S xs \<longleftrightarrow> sorted_wrt (\<lambda>x y. fin S x \<le> beg S y) xs"

definition child_list :: "nat set \<Rightarrow> Span list \<Rightarrow> span_ptr \<Rightarrow> nat list \<Rightarrow> bool" where
  "child_list L S p xs \<longleftrightarrow> set xs = {j \<in> L. sp_parent (S ! j) = p} \<and> in_order S xs"

definition laminar :: "nat set \<Rightarrow> Span list \<Rightarrow> nat \<Rightarrow> bool" where
  "laminar L S n \<longleftrightarrow> L \<subseteq> {..<length S} \<and> (\<forall>i\<in>L. beg S i < fin S i \<and> fin S i \<le> n) \<and>
     (\<forall>i\<in>L. \<forall>j\<in>L. i \<noteq> j \<longrightarrow>
        (beg S i, fin S i) \<noteq> (beg S j, fin S j) \<and> \<not> crosses (beg S i) (fin S i) (beg S j) (fin S j))"

definition above :: "Span list \<Rightarrow> nat \<Rightarrow> nat \<Rightarrow> bool" where
  "above S i j \<longleftrightarrow> j \<noteq> i \<and> covers S (beg S i) (fin S i) j"

definition span_inv :: "nat set \<Rightarrow> span_index \<Rightarrow> bool" where
  "span_inv L d \<longleftrightarrow>
     laminar L (spans d) (length (leaves d)) \<and>
     (\<forall>i\<in>L. smallest L (spans d) (above (spans d) i) (sp_parent (spans d ! i))) \<and>
     (\<forall>t<length (leaves d). smallest L (spans d) (holds (spans d) t) (leaves d ! t)) \<and>
     (\<forall>i\<in>L. \<exists>xs. linked (spans d) (sp_children (spans d ! i)) xs \<and> child_list L (spans d) (Some i) xs)"

lemma laminarD:
  assumes "laminar L S n" "i \<in> L"
  shows "i < length S" "beg S i < fin S i" "fin S i \<le> n"
    "j \<in> L \<Longrightarrow> i \<noteq> j \<Longrightarrow> \<not> crosses (beg S i) (fin S i) (beg S j) (fin S j)"
    "j \<in> L \<Longrightarrow> beg S i = beg S j \<Longrightarrow> fin S i = fin S j \<Longrightarrow> i = j"
  using assms by (auto simp: laminar_def)

text \<open>Two live spans are disjoint, or one is above the other.\<close>

lemma laminar_cases:
  assumes "laminar L S n" "i \<in> L" "j \<in> L"
  obtains "i = j" | "fin S i \<le> beg S j" | "fin S j \<le> beg S i" | "above S i j" "\<not> covers S (beg S j) (fin S j) i"
    | "above S j i" "\<not> covers S (beg S i) (fin S i) j"
proof (cases "i = j")
  case False
  note a = laminarD(4) [OF assms False] laminarD(5) [OF assms] laminarD(2) [OF assms(1,2)] laminarD(2) [OF assms(1,3)]
  then show ?thesis using False that unfolding crosses_def above_def covers_def by (metis (no_types) le_less_linear less_le_not_le nat_less_le not_le_imp_less)
qed (use that in auto)

lemma span_at_live: "laminar L S n \<Longrightarrow> i \<in> L \<Longrightarrow> span_at S i = Some (S ! i)"
  by (auto simp: span_at_def laminar_def)

lemma relation_to_simps:
  assumes "b < e" "sp_begin sp < sp_end sp"
  shows "relation_to b e sp = Same \<longleftrightarrow> sp_begin sp = b \<and> sp_end sp = e"
    and "relation_to b e sp = Crosses \<longleftrightarrow> b < sp_begin sp \<and> e < sp_end sp \<or> sp_begin sp < b \<and> sp_end sp < e"
    and "relation_to b e sp = Encloses \<longleftrightarrow> sp_begin sp \<le> b \<and> e \<le> sp_end sp \<and> \<not> (sp_begin sp = b \<and> sp_end sp = e)"
  using assms by (auto simp: relation_to_def Let_def zero_less_mult_iff split: if_splits)

subsection \<open>Climbing to the enclosing span\<close>

definition climb_spec :: "nat set \<Rightarrow> Span list \<Rightarrow> nat \<Rightarrow> nat \<Rightarrow> nat \<Rightarrow> climb \<Rightarrow> bool" where
  "climb_spec L S b e t r \<longleftrightarrow>
     (case r of
        Match i \<Rightarrow> i \<in> L \<and> beg S i = b \<and> fin S i = e
      | Crossing \<Rightarrow> \<exists>j\<in>L. crosses b e (beg S j) (fin S j)
      | Enclosing i \<Rightarrow> smallest L S (covers S b e) (Some i) \<and> \<not> (beg S i = b \<and> fin S i = e) \<and>
          (\<forall>j\<in>L. holds S t j \<longrightarrow> inside S b e j \<or> covers S b e j)
      | Outside \<Rightarrow> \<forall>j\<in>L. holds S t j \<longrightarrow> inside S b e j)"

lemma climb_correct:
  assumes inv: "laminar L S n" "\<forall>i\<in>L. smallest L S (above S i) (sp_parent (S ! i))"
    and t: "b \<le> t" "t < e"
    and s: "case s of None \<Rightarrow> \<forall>j\<in>L. holds S t j \<longrightarrow> inside S b e j
      | Some i \<Rightarrow> i \<in> L \<and> holds S t i \<and> (\<forall>j\<in>L. holds S t j \<longrightarrow> covers S (beg S i) (fin S i) j \<or> inside S b e j)"
  shows "\<exists>r. enclosing_climb s S b e = Some r \<and> climb_spec L S b e t r"
  using s
proof (induction "case s of None \<Rightarrow> 0 | Some i \<Rightarrow> Suc (n - (fin S i - beg S i))" arbitrary: s rule: less_induct)
  case less
  show ?case
  proof (cases s)
    case None
    then show ?thesis using less.prems by (subst enclosing_climb.simps) (simp add: climb_spec_def)
  next
    case (Some i)
    then have i: "i \<in> L" "holds S t i"
      and up: "\<And>j. j \<in> L \<Longrightarrow> holds S t j \<Longrightarrow> covers S (beg S i) (fin S i) j \<or> inside S b e j"
      using less.prems by auto
    note li = laminarD [OF inv(1) i(1)]
    have be: "b < e" using t by simp
    note rel = relation_to_simps [OF be li(2)]
    show ?thesis
    proof (cases "relation_to b e (S ! i)")
      case Same
      then show ?thesis using rel i span_at_live [OF inv(1) i(1)] Some
        by (subst enclosing_climb.simps) (simp add: climb_spec_def)
    next
      case Crosses
      then have "crosses b e (beg S i) (fin S i)" using rel i(2) t by (auto simp: crosses_def holds_def)
      then show ?thesis using Crosses i(1) span_at_live [OF inv(1) i(1)] Some
        by (subst enclosing_climb.simps) (auto simp: climb_spec_def)
    next
      case Encloses
      then have c: "covers S b e i" "\<not> (beg S i = b \<and> fin S i = e)" using rel by (auto simp: covers_def)
      have h: "covers S b e j \<Longrightarrow> holds S t j" for j using t by (auto simp: covers_def holds_def)
      have "covers S b e j \<Longrightarrow> \<not> inside S b e j" for j by (auto simp: covers_def inside_def)
      then have "smallest L S (covers S b e) (Some i)"
        using i(1) c(1) up h by (auto simp: smallest_def)
      moreover have "\<forall>j\<in>L. holds S t j \<longrightarrow> inside S b e j \<or> covers S b e j"
        using up c(1) by (fastforce simp: covers_def)
      ultimately show ?thesis using Encloses i(1) c(2) span_at_live [OF inv(1) i(1)] Some
        by (subst enclosing_climb.simps) (auto simp: climb_spec_def)
    next
      case Neither
      have ins: "inside S b e i"
      proof -
        have "relation_to b e (S ! i) \<noteq> Same" "relation_to b e (S ! i) \<noteq> Crosses" "relation_to b e (S ! i) \<noteq> Encloses"
          using Neither by auto
        then show ?thesis unfolding rel inside_def using i(2) t by (auto simp: holds_def)
      qed
      let ?p = "sp_parent (S ! i)"
      have p: "smallest L S (above S i) ?p" using inv(2) i(1) by blast
      have next_ok: "case ?p of None \<Rightarrow> \<forall>j\<in>L. holds S t j \<longrightarrow> inside S b e j
        | Some k \<Rightarrow> k \<in> L \<and> holds S t k \<and> (\<forall>j\<in>L. holds S t j \<longrightarrow> covers S (beg S k) (fin S k) j \<or> inside S b e j)"
      proof (cases ?p)
        case None
        then have "\<And>j. j \<in> L \<Longrightarrow> covers S (beg S i) (fin S i) j \<Longrightarrow> j = i" using p by (auto simp: smallest_def above_def)
        then show ?thesis using up ins None by auto
      next
        case (Some k)
        then have k: "k \<in> L" "above S i k" "\<And>j. j \<in> L \<Longrightarrow> above S i j \<Longrightarrow> covers S (beg S k) (fin S k) j"
          using p by (auto simp: smallest_def)
        have "holds S t k" using k(2) i(2) by (auto simp: holds_def above_def covers_def)
        moreover have "covers S (beg S k) (fin S k) j \<or> inside S b e j" if "j \<in> L" "holds S t j" for j
          using up [OF that] k(3) [OF that(1)] ins by (auto simp: above_def)
        ultimately show ?thesis using k(1) Some by simp
      qed
      have "(case ?p of None \<Rightarrow> 0 | Some i \<Rightarrow> Suc (n - (fin S i - beg S i))) < (case s of None \<Rightarrow> 0 | Some i \<Rightarrow> Suc (n - (fin S i - beg S i)))"
      proof (cases ?p)
        case (Some k)
        then have k: "k \<in> L" "above S i k" using p by (auto simp: smallest_def)
        note lk = laminarD [OF inv(1) k(1)]
        have c: "k \<noteq> i" "beg S k \<le> beg S i" "fin S i \<le> fin S k" using k(2) by (auto simp: above_def covers_def)
        then have "beg S k < beg S i \<or> fin S i < fin S k"
          using laminarD(5) [OF inv(1) i(1) k(1)] by (metis le_neq_implies_less)
        then have "fin S i - beg S i < fin S k - beg S k" using c li(2) by linarith
        moreover have "fin S k - beg S k \<le> n" using lk(3) by simp
        ultimately show ?thesis using Some \<open>s = Some i\<close> by simp
      qed (use \<open>s = Some i\<close> in simp)
      from less.hyps [OF this next_ok] obtain r where "enclosing_climb ?p S b e = Some r" "climb_spec L S b e t r" by blast
      then show ?thesis using Neither span_at_live [OF inv(1) i(1)] Some
        by (subst enclosing_climb.simps) simp
    qed
  qed
qed

definition apart :: "nat set \<Rightarrow> Span list \<Rightarrow> nat \<Rightarrow> nat \<Rightarrow> nat set \<Rightarrow> bool" where
  "apart L S b e T \<longleftrightarrow>
     (\<forall>t\<in>T. \<forall>j\<in>L. holds S t j \<longrightarrow> inside S b e j \<or> covers S b e j \<and> \<not> (beg S j = b \<and> fin S j = e))"

definition enclosing_spec :: "nat set \<Rightarrow> Span list \<Rightarrow> nat \<Rightarrow> nat \<Rightarrow> span_ptr \<times> bool \<Rightarrow> bool" where
  "enclosing_spec L S b e rc \<longleftrightarrow>
     (case rc of (r, c) \<Rightarrow>
        c \<and> (\<exists>j\<in>L. crosses b e (beg S j) (fin S j)) \<or>
        \<not> c \<and> (\<exists>i\<in>L. r = Some i \<and> beg S i = b \<and> fin S i = e) \<or>
        \<not> c \<and> smallest L S (covers S b e) r \<and> apart L S b e {b..<e})"

lemma climb_apart:
  assumes "climb_spec L S b e t r" "r = Outside \<or> r = Enclosing i"
  shows "apart L S b e {t}"
proof (cases "r = Outside")
  case True
  then show ?thesis using assms(1) by (auto simp: climb_spec_def apart_def)
next
  case False
  then have c: "smallest L S (covers S b e) (Some i)" "\<not> (beg S i = b \<and> fin S i = e)"
    "\<And>j. j \<in> L \<Longrightarrow> holds S t j \<Longrightarrow> inside S b e j \<or> covers S b e j"
    using assms by (auto simp: climb_spec_def)
  have "\<not> (beg S j = b \<and> fin S j = e)" if "j \<in> L" for j
    using c(1,2) that by (fastforce simp: smallest_def covers_def)
  then show ?thesis using c(3) by (auto simp: apart_def)
qed

lemma climb_enclosing:
  assumes "climb_spec L S b e t r" "b \<le> t" "t < e"
  shows "r = Outside \<Longrightarrow> smallest L S (covers S b e) None" "r = Enclosing i \<Longrightarrow> smallest L S (covers S b e) (Some i)"
proof -
  have h: "covers S b e j \<Longrightarrow> holds S t j" for j using assms(2,3) by (auto simp: covers_def holds_def)
  have "covers S b e j \<Longrightarrow> \<not> inside S b e j" for j by (auto simp: covers_def inside_def)
  then show "r = Outside \<Longrightarrow> smallest L S (covers S b e) None" using assms(1) h by (auto simp: climb_spec_def smallest_def)
  show "r = Enclosing i \<Longrightarrow> smallest L S (covers S b e) (Some i)" using assms(1) by (auto simp: climb_spec_def)
qed

lemma same_leaf_apart:
  assumes "smallest L S (holds S t) p" "smallest L S (holds S t') p" "apart L S b e {t'}"
  shows "apart L S b e {t}"
proof (cases p)
  case None
  then show ?thesis using assms(1) by (auto simp: smallest_def apart_def)
next
  case (Some i)
  have "holds S t' j" if "j \<in> L" "holds S t j" for j
    using assms(1,2) Some that by (fastforce simp: smallest_def covers_def holds_def)
  then show ?thesis using assms(3) by (auto simp: apart_def)
qed

lemma apart_Suc: "b \<le> k \<Longrightarrow> apart L S b e {b..<k} \<Longrightarrow> apart L S b e {k} \<Longrightarrow> apart L S b e {b..<Suc k}"
  by (simp add: atLeastLessThanSuc) (simp add: apart_def)

lemma no_cover:
  assumes "smallest L S (holds S k) None" "b \<le> k" "k < e"
  shows "smallest L S (covers S b e) None"
  using assms by (auto simp: smallest_def covers_def holds_def)

lemma enclosing_loop_correct:
  assumes inv: "laminar L S n" "\<forall>i\<in>L. smallest L S (above S i) (sp_parent (S ! i))"
    and leaf: "\<And>t. t < e \<Longrightarrow> smallest L S (holds S t) (leaf t)"
    and be: "b < e"
  shows "b \<le> k \<Longrightarrow> k \<le> e \<Longrightarrow> apart L S b e {b..<k} \<Longrightarrow> (k = b \<longrightarrow> enclosing = None) \<Longrightarrow>
    (b < k \<longrightarrow> smallest L S (covers S b e) enclosing) \<Longrightarrow> prev = None \<or> (\<exists>t\<in>{b..<k}. leaf t = prev) \<Longrightarrow>
    \<exists>rc. enclosing_loop S b e enclosing prev (map leaf [k..<e]) = Some rc \<and> enclosing_spec L S b e rc"
proof (induction "e - k" arbitrary: k enclosing prev)
  case 0
  then show ?case using be by (auto simp: enclosing_spec_def)
next
  case (Suc x)
  then have k: "b \<le> k" "k < e" by auto
  then have u: "map leaf [k..<e] = leaf k # map leaf [Suc k..<e]" by (simp add: upt_conv_Cons)
  have x: "x = e - Suc k" using Suc.hyps(2) by simp
  note lk = leaf [OF k(2)]
  show ?case
  proof (cases "leaf k = prev")
    case True
    have a: "apart L S b e {k}"
    proof (cases prev)
      case None
      then show ?thesis using lk True by (auto simp: smallest_def apart_def)
    next
      case (Some i)
      then obtain t where t: "t \<in> {b..<k}" "leaf t = prev" using Suc.prems(6) by auto
      then have "smallest L S (holds S t) prev" using leaf [of t] k by simp
      moreover have "apart L S b e {t}" using Suc.prems(3) t(1) by (auto simp: apart_def)
      ultimately show ?thesis using same_leaf_apart [of L S k prev t] lk True by blast
    qed
    have s: "smallest L S (covers S b e) enclosing"
    proof (cases "b < k")
      case False
      then have "prev = None" using Suc.prems(6) by auto
      then show ?thesis using no_cover [of L S k b e] lk True k Suc.prems(4) False by simp
    qed (use Suc.prems(5) in blast)
    have "prev = None \<or> (\<exists>t\<in>{b..<Suc k}. leaf t = prev)" using Suc.prems(6) by auto
    then show ?thesis
      using Suc.hyps(1) [OF x, of enclosing prev] apart_Suc [OF k(1) Suc.prems(3) a] s k True by (simp add: u)
  next
    case False
    have "case leaf k of None \<Rightarrow> \<forall>j\<in>L. holds S k j \<longrightarrow> inside S b e j
      | Some i \<Rightarrow> i \<in> L \<and> holds S k i \<and> (\<forall>j\<in>L. holds S k j \<longrightarrow> covers S (beg S i) (fin S i) j \<or> inside S b e j)"
      using lk by (auto simp: smallest_def split: option.splits)
    from climb_correct [OF inv k this] obtain r where
      r: "enclosing_climb (leaf k) S b e = Some r" "climb_spec L S b e k r" by blast
    have p: "leaf k = None \<or> (\<exists>t\<in>{b..<Suc k}. leaf t = leaf k)" using k by auto
    show ?thesis
    proof (cases r)
      case (Match i)
      then show ?thesis using r False by (auto simp: u climb_spec_def enclosing_spec_def)
    next
      case Crossing
      then show ?thesis using r False by (auto simp: u climb_spec_def enclosing_spec_def)
    next
      case (Enclosing i)
      have a: "apart L S b e {k}" using climb_apart [OF r(2)] Enclosing by blast
      have i: "smallest L S (covers S b e) (Some i)" using climb_enclosing(2) [OF r(2) k] Enclosing by blast
      have s: "smallest L S (covers S b e) (if enclosing = None then Some i else enclosing)"
        using i Suc.prems(4,5) k by (cases enclosing) auto
      show ?thesis
        using Suc.hyps(1) [OF x, of "if enclosing = None then Some i else enclosing" "leaf k"]
          apart_Suc [OF k(1) Suc.prems(3) a] s k p r False Enclosing by (simp add: u)
    next
      case Outside
      have a: "apart L S b e {k}" using climb_apart [OF r(2)] Outside by blast
      have i: "smallest L S (covers S b e) None" using climb_enclosing(1) [OF r(2) k] Outside by blast
      have "smallest L S (covers S b e) enclosing"
      proof (cases "b < k")
        case False
        then show ?thesis using i Suc.prems(4) k by simp
      qed (use Suc.prems(5) in blast)
      then show ?thesis
        using Suc.hyps(1) [OF x, of enclosing "leaf k"] apart_Suc [OF k(1) Suc.prems(3) a] k p r False Outside
        by (simp add: u)
    qed
  qed
qed

lemma tokens_between_map: "b \<le> e \<Longrightarrow> e \<le> length xs \<Longrightarrow> tokens_between xs b e = Some (map (\<lambda>t. xs ! t) [b..<e])"
  by (simp add: tokens_between_def) (rule nth_equalityI; simp)

lemma EnclosingSpan_correct:
  assumes "span_inv L d" "b < e" "e \<le> length (leaves d)"
  shows "\<exists>rc. EnclosingSpan d b e = Some rc \<and> enclosing_spec L (spans d) b e rc"
  using enclosing_loop_correct [of L "spans d" "length (leaves d)" e "\<lambda>t. leaves d ! t" b b None None] assms
  by (simp add: EnclosingSpan_def tokens_between_map span_inv_def apart_def)

subsection \<open>Inserting into and removing from the family of spans\<close>

text \<open>\<open>S'\<close> has the intervals of \<open>S\<close>.\<close>

definition same_bounds :: "nat set \<Rightarrow> Span list \<Rightarrow> Span list \<Rightarrow> bool" where
  "same_bounds L S S' \<longleftrightarrow> (\<forall>i\<in>L. beg S' i = beg S i \<and> fin S' i = fin S i)"

lemma smallest_SomeD:
  assumes "smallest L S P (Some i)"
  shows "i \<in> L" "P i" "j \<in> L \<Longrightarrow> P j \<Longrightarrow> covers S (beg S i) (fin S i) j"
  using assms by (auto simp: smallest_def)

lemma smallest_NoneD: "smallest L S P None \<Longrightarrow> j \<in> L \<Longrightarrow> \<not> P j"
  by (auto simp: smallest_def)

lemma covers_antisym:
  assumes "laminar L S n" "i \<in> L" "j \<in> L" "covers S (beg S i) (fin S i) j" "covers S (beg S j) (fin S j) i"
  shows "i = j"
  using laminarD(5) [OF assms(1-3)] assms(4,5) by (auto simp: covers_def)

lemma covers_trans:
  "covers S (beg S i) (fin S i) j \<Longrightarrow> covers S b e i \<Longrightarrow> covers S b e j"
  by (auto simp: covers_def)

lemma apartD:
  assumes "apart L S b e {b..<e}" "j \<in> L" "b \<le> t" "t < e" "holds S t j"
  shows "inside S b e j \<or> covers S b e j" "\<not> (beg S j = b \<and> fin S j = e)"
  using assms by (auto simp: apart_def inside_def)

lemma apart_disjoint:
  assumes "laminar L S n" "apart L S b e {b..<e}" "j \<in> L" "b < e"
  obtains "fin S j \<le> b" | "e \<le> beg S j" | "inside S b e j" "\<not> covers S b e j"
    | "covers S b e j" "\<not> inside S b e j" "\<not> (beg S j = b \<and> fin S j = e)"
proof (cases "fin S j \<le> b \<or> e \<le> beg S j")
  case False
  have h: "holds S (max b (beg S j)) j" "b \<le> max b (beg S j)" "max b (beg S j) < e"
    using False laminarD(2) [OF assms(1,3)] assms(4) by (auto simp: holds_def)
  have "inside S b e j \<Longrightarrow> \<not> covers S b e j" by (auto simp: inside_def covers_def)
  then show ?thesis using apartD [OF assms(2,3) h(2,3,1)] that by blast
qed (use that in blast)

lemma laminar_insert:
  assumes "laminar L S n" "apart L S b e {b..<e}" "b < e" "e \<le> n"
    and "same_bounds L S S'" "length S' = Suc (length S)" "beg S' (length S) = b" "fin S' (length S) = e"
  shows "laminar (insert (length S) L) S' n"
proof -
  have sb: "\<And>i. i \<in> L \<Longrightarrow> beg S' i = beg S i" "\<And>i. i \<in> L \<Longrightarrow> fin S' i = fin S i"
    using assms(5) by (auto simp: same_bounds_def)
  have new: "(beg S j, fin S j) \<noteq> (b, e) \<and> \<not> crosses b e (beg S j) (fin S j) \<and> \<not> crosses (beg S j) (fin S j) b e"
    if "j \<in> L" for j
    using assms(1,2) that assms(3)
    by (rule apart_disjoint) (use assms(3) in \<open>auto simp: crosses_def inside_def covers_def\<close>)
  show ?thesis unfolding laminar_def
  proof (intro conjI ballI impI)
    show "insert (length S) L \<subseteq> {..<length S'}" using assms(1,6) by (auto simp: laminar_def)
  next
    fix i assume "i \<in> insert (length S) L"
    then show "beg S' i < fin S' i" "fin S' i \<le> n" using assms sb laminarD(2,3) [OF assms(1)] by auto
  next
    fix i j assume ij: "i \<in> insert (length S) L" "j \<in> insert (length S) L" "i \<noteq> j"
    then show "(beg S' i, fin S' i) \<noteq> (beg S' j, fin S' j)" "\<not> crosses (beg S' i) (fin S' i) (beg S' j) (fin S' j)"
      using new [of i] new [of j] sb assms(7,8) laminarD(4,5) [OF assms(1), of i j] by auto
  qed
qed

lemma smallest_transfer:
  assumes "smallest L S P r" "same_bounds L S S'" "\<And>j. j \<in> L \<Longrightarrow> P' j \<longleftrightarrow> P j" "k \<notin> L"
    and "P' k \<Longrightarrow> \<exists>i. r = Some i \<and> covers S' (beg S i) (fin S i) k"
  shows "smallest (insert k L) S' P' r"
proof (cases r)
  case None
  then show ?thesis using assms by (auto simp: smallest_def)
next
  case (Some i)
  note i = smallest_SomeD [OF assms(1) [unfolded Some]]
  have "covers S' (beg S' i) (fin S' i) j" if "j \<in> L" "P j" for j
    using i(3) [OF that] assms(2) that(1) i(1) by (auto simp: same_bounds_def covers_def)
  then show ?thesis using i assms Some by (auto simp: smallest_def same_bounds_def)
qed

lemma parents_insert:
  assumes lam: "laminar L S n" and par: "\<forall>i\<in>L. smallest L S (above S i) (sp_parent (S ! i))"
    and enc: "smallest L S (covers S b e) enc" and ap: "apart L S b e {b..<e}" and be: "b < e"
    and sb: "same_bounds L S S'" "beg S' k = b" "fin S' k = e" and k: "k \<notin> L"
    and p': "\<And>i. i \<in> L \<Longrightarrow> sp_parent (S' ! i) = (if inside S b e i \<and> sp_parent (S ! i) = enc then Some k else sp_parent (S ! i))"
      "sp_parent (S' ! k) = enc"
  shows "\<forall>i\<in>insert k L. smallest (insert k L) S' (above S' i) (sp_parent (S' ! i))"
proof
  fix i assume "i \<in> insert k L"
  then consider "i = k" | "i \<in> L" by blast
  then show "smallest (insert k L) S' (above S' i) (sp_parent (S' ! i))"
  proof cases
    case 1
    have "smallest (insert k L) S' (above S' k) enc"
    proof (rule smallest_transfer [OF enc sb(1) _ k])
      show "above S' k j \<longleftrightarrow> covers S b e j" if "j \<in> L" for j
        using that sb k by (auto simp: above_def covers_def same_bounds_def)
      show "above S' k k \<Longrightarrow> \<exists>i. enc = Some i \<and> covers S' (beg S i) (fin S i) k" by (simp add: above_def)
    qed
    then show ?thesis using 1 p'(2) by simp
  next
    case 2
    then have bi: "beg S' i = beg S i" "fin S' i = fin S i" and ik: "i \<noteq> k" using sb(1) k by (auto simp: same_bounds_def)
    have ab: "above S' i j \<longleftrightarrow> above S i j" if "j \<in> L" for j
      using that sb(1) bi by (auto simp: above_def covers_def same_bounds_def)
    have abk: "above S' i k \<longleftrightarrow> b \<le> beg S i \<and> fin S i \<le> e" using bi sb(2,3) ik by (auto simp: above_def covers_def)
    have pi: "smallest L S (above S i) (sp_parent (S ! i))" using par 2 by blast
    show ?thesis
    proof (cases "inside S b e i \<and> sp_parent (S ! i) = enc")
      case True
      have "covers S' b e j" if "j \<in> L" "above S i j" for j
      proof (cases enc)
        case None
        then show ?thesis using True pi that by (auto simp: smallest_def)
      next
        case (Some q)
        then have "covers S (beg S q) (fin S q) j" using True pi that by (auto simp: smallest_def)
        moreover have "covers S b e q" using enc Some by (auto simp: smallest_def)
        ultimately show ?thesis using sb(1) that(1) by (auto simp: covers_def same_bounds_def)
      qed
      moreover have "covers S' b e k" using sb(2,3) by (simp add: covers_def)
      moreover have "above S' i k" using True by (simp add: abk inside_def)
      ultimately show ?thesis using True 2 ab sb(2,3) by (auto simp: p'(1) smallest_def)
    next
      case False
      have "smallest (insert k L) S' (above S' i) (sp_parent (S ! i))"
      proof (rule smallest_transfer [OF pi sb(1) ab k])
        assume "above S' i k"
        then have c: "b \<le> beg S i" "fin S i \<le> e" by (simp_all add: abk)
        have ins: "inside S b e i"
          using lam ap 2 be
        proof (rule apart_disjoint)
          assume "covers S b e i" "\<not> (beg S i = b \<and> fin S i = e)"
          then show ?thesis using c by (auto simp: covers_def)
        qed (use c be laminarD(2) [OF lam 2] in auto)
        then have ne: "sp_parent (S ! i) \<noteq> enc" using False by blast
        have up: "above S i q" if "q \<in> L" "covers S b e q" for q
          using that c ins by (auto simp: above_def covers_def inside_def)
        show "\<exists>p. sp_parent (S ! i) = Some p \<and> covers S' (beg S p) (fin S p) k"
        proof (cases "sp_parent (S ! i)")
          case None
          then have "enc = None" using enc up pi by (cases enc) (auto simp: smallest_def)
          then show ?thesis using ne None by simp
        next
          case (Some p)
          note p = smallest_SomeD [OF pi [unfolded Some]]
          have o: "\<not> fin S p \<le> b" "\<not> e \<le> beg S p"
            using p(2) c laminarD(2) [OF lam 2] by (auto simp: above_def covers_def)
          have "inside S b e p"
            using lam ap p(1) be
          proof (rule apart_disjoint)
            assume cp: "covers S b e p"
            show ?thesis
            proof (cases enc)
              case None
              then show ?thesis using enc cp p(1) by (auto simp: smallest_def)
            next
              case (Some q)
              note q = smallest_SomeD [OF enc [unfolded Some]]
              have "p = q" by (rule covers_antisym [OF lam p(1) q(1)]) (use p(3) q(3) up q(1,2) p(1) cp in auto)
              then show ?thesis using ne Some \<open>sp_parent (S ! i) = Some p\<close> by simp
            qed
          qed (use o in auto)
          then show ?thesis using Some sb(2,3) by (auto simp: inside_def covers_def)
        qed
      qed
      then show ?thesis using p'(1) [OF 2] False by auto
    qed
  qed
qed

lemma leaves_insert:
  assumes lam: "laminar L S n" and leaf: "smallest L S (holds S t) l"
    and enc: "smallest L S (covers S b e) enc" and ap: "apart L S b e {b..<e}" and be: "b < e"
    and sb: "same_bounds L S S'" "beg S' k = b" "fin S' k = e" and k: "k \<notin> L"
  shows "smallest (insert k L) S' (holds S' t) (if b \<le> t \<and> t < e \<and> l = enc then Some k else l)"
proof -
  have h: "holds S' t j \<longleftrightarrow> holds S t j" if "j \<in> L" for j using that sb(1) by (auto simp: holds_def same_bounds_def)
  have hk: "holds S' t k \<longleftrightarrow> b \<le> t \<and> t < e" using sb by (auto simp: holds_def)
  show ?thesis
  proof (cases "b \<le> t \<and> t < e \<and> l = enc")
    case True
    have "covers S b e j" if "j \<in> L" "holds S t j" for j
      using leaf enc True that by (cases enc) (auto simp: smallest_def covers_def)
    then have "covers S' b e j" if "j \<in> L" "holds S t j" for j
      using that sb(1) by (auto simp: covers_def same_bounds_def)
    moreover have "covers S' b e k" using sb(2,3) by (simp add: covers_def)
    ultimately show ?thesis using True h hk sb(2,3) by (auto simp: smallest_def)
  next
    case False
    have "smallest (insert k L) S' (holds S' t) l"
    proof (rule smallest_transfer [OF leaf sb(1) h k])
      assume "holds S' t k"
      then have t: "b \<le> t" "t < e" by (simp_all add: hk)
      then have ne: "l \<noteq> enc" using False by blast
      have up: "holds S t q" if "covers S b e q" for q using that t by (auto simp: covers_def holds_def)
      show "\<exists>p. l = Some p \<and> covers S' (beg S p) (fin S p) k"
      proof (cases l)
        case None
        then have "enc = None" using enc up leaf by (cases enc) (auto simp: smallest_def)
        then show ?thesis using ne None by simp
      next
        case (Some p)
        note p = smallest_SomeD [OF leaf [unfolded Some]]
        have "inside S b e p"
        proof (rule ccontr)
          assume "\<not> inside S b e p"
          then have cp: "covers S b e p" using apartD(1) [OF ap p(1) t p(2)] by blast
          show False
          proof (cases enc)
            case None
            then show ?thesis using enc cp p(1) by (auto simp: smallest_def)
          next
            case (Some q)
            note q = smallest_SomeD [OF enc [unfolded Some]]
            have "p = q" by (rule covers_antisym [OF lam p(1) q(1)]) (use p(3) q(3) up q(1,2) p(1) cp in auto)
            then show ?thesis using ne Some \<open>l = Some p\<close> by simp
          qed
        qed
        then show ?thesis using Some sb(2,3) by (auto simp: inside_def covers_def)
      qed
    qed
    then show ?thesis using False by auto
  qed
qed

subsection \<open>Chains of siblings\<close>

lemma linked_cong:
  "(\<And>x. x \<in> set xs \<Longrightarrow> sp_sibling (S' ! x) = sp_sibling (S ! x)) \<Longrightarrow> linked S' p xs \<longleftrightarrow> linked S p xs"
  by (induction xs arbitrary: p) auto

definition first_of :: "nat list \<Rightarrow> span_ptr" where
  "first_of xs = (if xs = [] then None else Some (hd xs))"

definition last_of :: "nat list \<Rightarrow> span_ptr" where
  "last_of xs = (if xs = [] then None else Some (last xs))"

lemma linked_first: "linked S p xs \<Longrightarrow> p = first_of xs"
  by (cases xs) (auto simp: first_of_def)

text \<open>The sibling pointers of a chain: each element points to the next one, the last to \<open>q\<close>.\<close>

fun segment :: "Span list \<Rightarrow> nat list \<Rightarrow> span_ptr \<Rightarrow> bool" where
  "segment S [] q \<longleftrightarrow> True"
| "segment S (x # xs) q \<longleftrightarrow> sp_sibling (S ! x) = (if xs = [] then q else Some (hd xs)) \<and> segment S xs q"

lemma linked_segment: "linked S p xs \<longleftrightarrow> p = first_of xs \<and> segment S xs None"
  by (induction xs arbitrary: p) (auto simp: first_of_def)

lemma segment_append:
  "segment S (xs @ ys) q \<longleftrightarrow> segment S xs (if ys = [] then q else Some (hd ys)) \<and> segment S ys q"
  by (induction xs) auto

lemma segment_cong:
  "(\<And>x. x \<in> set xs \<Longrightarrow> sp_sibling (S' ! x) = sp_sibling (S ! x)) \<Longrightarrow> segment S' xs q \<longleftrightarrow> segment S xs q"
  by (induction xs) auto

lemma segment_set_last:
  assumes "segment S xs q" "distinct xs" "xs \<noteq> []" "last xs < length S"
  shows "segment (set_sibling r (last xs) S) xs r"
  using assms
proof (induction xs)
  case (Cons x xs)
  then show ?case by (cases "xs = []") (auto simp: set_sibling_def nth_list_update)
qed simp

lemma in_order_distinct:
  assumes "in_order S xs" "\<And>x. x \<in> set xs \<Longrightarrow> beg S x < fin S x"
  shows "distinct xs"
  using assms by (induction xs) (fastforce simp: in_order_def)+

subsection \<open>The loops over chains\<close>

definition reparented :: "span_ptr \<Rightarrow> nat set \<Rightarrow> Span list \<Rightarrow> Span list \<Rightarrow> bool" where
  "reparented v X S S' \<longleftrightarrow> length S' = length S \<and>
     (\<forall>i<length S. S' ! i = (if i \<in> X then (S ! i)\<lparr>sp_parent := v\<rparr> else S ! i))"

lemma reparented_step:
  assumes "reparented v X (set_parent v x S) S'" "x < length S"
  shows "reparented v (insert x X) S S'"
  unfolding reparented_def
proof (intro conjI allI impI)
  show "length S' = length S" using assms by (simp add: reparented_def set_parent_def)
  fix i assume "i < length S"
  then show "S' ! i = (if i \<in> insert x X then (S ! i)\<lparr>sp_parent := v\<rparr> else S ! i)"
    using assms by (cases "i = x") (auto simp: reparented_def set_parent_def)
qed

lemma set_parents_correct:
  assumes "linked S p xs" "set xs \<subseteq> {..<length S}"
  shows "\<exists>S'. set_parents p v S = Some S' \<and> reparented v (set xs) S S'"
  using assms
proof (induction xs arbitrary: p S)
  case Nil
  then show ?case by (subst set_parents.simps) (simp add: reparented_def)
next
  case (Cons x xs)
  let ?S = "set_parent v x S"
  have len: "length ?S = length S" by (simp add: set_parent_def)
  have "linked ?S (sp_sibling (S ! x)) xs"
    using Cons.prems by (subst linked_cong [of xs _ S]) (auto simp: set_parent_def nth_list_update)
  from Cons.IH [OF this] Cons.prems obtain S' where
    s: "set_parents (sp_sibling (S ! x)) v ?S = Some S'" "reparented v (set xs) ?S S'" by (auto simp: len)
  have "reparented v (set (x # xs)) S S'"
    using reparented_step [OF s(2)] Cons.prems(2) by simp
  moreover have "set_parents p v S = Some S'"
    using Cons.prems s(1) by (subst set_parents.simps) (simp add: span_at_def)
  ultimately show ?case by blast
qed

lemma lift_children_correct:
  assumes "linked S p xs" "set xs \<subseteq> {..<length S}"
  shows "\<exists>S'. lift_children p v lst S = Some (if xs = [] then lst else Some (last xs), S') \<and> reparented v (set xs) S S'"
  using assms
proof (induction xs arbitrary: p S lst)
  case Nil
  then show ?case by (subst lift_children.simps) (simp add: reparented_def)
next
  case (Cons x xs)
  let ?S = "set_parent v x S"
  have len: "length ?S = length S" by (simp add: set_parent_def)
  have "linked ?S (sp_sibling (S ! x)) xs"
    using Cons.prems by (subst linked_cong [of xs _ S]) (auto simp: set_parent_def nth_list_update)
  from Cons.IH [OF this] Cons.prems obtain S' where
    s: "lift_children (sp_sibling (S ! x)) v (Some x) ?S = Some (if xs = [] then Some x else Some (last xs), S')"
    "reparented v (set xs) ?S S'" by (auto simp: len)
  have "reparented v (set (x # xs)) S S'"
    using reparented_step [OF s(2)] Cons.prems(2) by simp
  moreover have "lift_children p v lst S = Some (if x # xs = [] then lst else Some (last (x # xs)), S')"
    using Cons.prems s(1) by (subst lift_children.simps) (simp add: span_at_def)
  ultimately show ?case by blast
qed

lemma find_link_correct:
  assumes "linked S p (xs @ x # ys)" "set xs \<subseteq> {..<length S}" "x \<notin> set xs"
  shows "find_link S x link p = Some (if xs = [] then link else Some (last xs))"
  using assms
proof (induction xs arbitrary: p link)
  case Nil
  then show ?case by (subst find_link.simps) simp
next
  case (Cons a xs)
  then show ?case by (subst find_link.simps) (simp add: span_at_def)
qed

lemma scan_children_after:
  assumes "linked S p C" "\<And>x. x \<in> set C \<Longrightarrow> x < length S \<and> e \<le> beg S x \<and> beg S x < fin S x" "b < e"
  shows "scan_children p S b e l r lp rn = Some (l, r, lp, if rn = None then first_of C else rn)"
  using assms
proof (induction C arbitrary: p rn)
  case Nil
  then show ?case by (subst scan_children.simps) (simp add: first_of_def)
next
  case (Cons x C)
  have "beg S x < fin S x" "e \<le> beg S x" "x < length S" using Cons.prems(2) by auto
  moreover have "scan_children (sp_sibling (S ! x)) S b e l r lp rn' = Some (l, r, lp, if rn' = None then first_of C else rn')" for rn'
    using Cons by simp
  ultimately show ?case using Cons.prems(1,3)
    by (subst scan_children.simps) (auto simp: span_at_def first_of_def)
qed

lemma scan_children_inside:
  assumes "linked S p (B @ C)" "\<And>x. x \<in> set B \<Longrightarrow> x < length S \<and> b \<le> beg S x \<and> fin S x \<le> e"
    "\<And>x. x \<in> set C \<Longrightarrow> x < length S \<and> e \<le> beg S x \<and> beg S x < fin S x" "b < e"
  shows "scan_children p S b e l r lp None =
    Some (if l = None then first_of B else l, if B = [] then r else Some (last B), lp, first_of C)"
  using assms
proof (induction B arbitrary: p l r)
  case Nil
  then show ?case using scan_children_after [of S p C e b l r lp None] by (simp add: first_of_def)
next
  case (Cons x B)
  have "scan_children (sp_sibling (S ! x)) S b e l' r' lp None =
    Some (if l' = None then first_of B else l', if B = [] then r' else Some (last B), lp, first_of C)" for l' r'
    using Cons by simp
  then show ?case using Cons.prems
    by (subst scan_children.simps) (auto simp: span_at_def first_of_def)
qed

lemma scan_children_correct:
  assumes "linked S p (A @ B @ C)" "\<And>x. x \<in> set A \<Longrightarrow> x < length S \<and> beg S x < b"
    "\<And>x. x \<in> set B \<Longrightarrow> x < length S \<and> b \<le> beg S x \<and> fin S x \<le> e"
    "\<And>x. x \<in> set C \<Longrightarrow> x < length S \<and> e \<le> beg S x \<and> beg S x < fin S x" "b < e"
  shows "scan_children p S b e None None lp None =
    Some (first_of B, last_of B, if A = [] then lp else Some (last A), first_of C)"
  using assms
proof (induction A arbitrary: p lp)
  case Nil
  then show ?case using scan_children_inside [of S p B C b e None None lp] by (simp add: last_of_def)
next
  case (Cons x A)
  have "scan_children (sp_sibling (S ! x)) S b e None None lp' None =
    Some (first_of B, last_of B, if A = [] then lp' else Some (last A), first_of C)" for lp'
    using Cons by simp
  moreover have "x < length S" "beg S x < b" using Cons.prems(2) [of x] by auto
  ultimately show ?case using Cons.prems(1)
    by (subst scan_children.simps) (simp add: span_at_def)
qed

subsection \<open>Inserting below a span\<close>

lemma set_fields_length [simp]:
  "length (set_sibling v q S) = length S" "length (set_children v q S) = length S" "length (set_parent v q S) = length S"
  by (simp_all add: set_sibling_def set_children_def set_parent_def)

lemma set_sibling_nth: "set_sibling v q S ! i = (if i = q \<and> q < length S then (S ! i)\<lparr>sp_sibling := v\<rparr> else S ! i)"
  by (cases "q < length S") (auto simp: set_sibling_def nth_list_update not_less list_update_beyond)

lemma set_children_nth: "set_children v q S ! i = (if i = q \<and> q < length S then (S ! i)\<lparr>sp_children := v\<rparr> else S ! i)"
  by (cases "q < length S") (auto simp: set_children_def nth_list_update not_less list_update_beyond)

lemma set_sibling_fields [simp]:
  "sp_begin (set_sibling v q S ! i) = sp_begin (S ! i)" "sp_end (set_sibling v q S ! i) = sp_end (S ! i)"
  "sp_parent (set_sibling v q S ! i) = sp_parent (S ! i)" "sp_children (set_sibling v q S ! i) = sp_children (S ! i)"
  "q < length S \<Longrightarrow> sp_sibling (set_sibling v q S ! i) = (if i = q then v else sp_sibling (S ! i))"
  by (simp_all add: set_sibling_nth)

lemma set_children_fields [simp]:
  "sp_begin (set_children v q S ! i) = sp_begin (S ! i)" "sp_end (set_children v q S ! i) = sp_end (S ! i)"
  "sp_parent (set_children v q S ! i) = sp_parent (S ! i)" "sp_sibling (set_children v q S ! i) = sp_sibling (S ! i)"
  "q < length S \<Longrightarrow> sp_children (set_children v q S ! i) = (if i = q then v else sp_children (S ! i))"
  by (simp_all add: set_children_nth)

text \<open>What the two ways of inserting a span do to the spans.\<close>

definition inserted :: "nat set \<Rightarrow> Span list \<Rightarrow> nat \<Rightarrow> nat \<Rightarrow> span_ptr \<Rightarrow> Span list \<Rightarrow> bool" where
  "inserted L S b e enc S' \<longleftrightarrow>
     length S' = Suc (length S) \<and> same_bounds L S S' \<and> beg S' (length S) = b \<and> fin S' (length S) = e \<and>
     (\<forall>i\<in>L. sp_parent (S' ! i) =
        (if inside S b e i \<and> sp_parent (S ! i) = enc then Some (length S) else sp_parent (S ! i))) \<and>
     sp_parent (S' ! length S) = enc \<and>
     (\<forall>i\<in>insert (length S) L. \<exists>xs. linked S' (sp_children (S' ! i)) xs \<and> child_list (insert (length S) L) S' (Some i) xs)"

lemma order_partition:
  assumes "in_order S xs" "b < e"
    "\<And>x. x \<in> set xs \<Longrightarrow> beg S x < fin S x \<and> (fin S x \<le> b \<or> b \<le> beg S x \<and> fin S x \<le> e \<or> e \<le> beg S x)"
  shows "\<exists>A B C. xs = A @ B @ C \<and> (\<forall>x\<in>set A. fin S x \<le> b) \<and> (\<forall>x\<in>set B. b \<le> beg S x \<and> fin S x \<le> e) \<and>
    (\<forall>x\<in>set C. e \<le> beg S x)"
  using assms
proof (induction xs)
  case (Cons x xs)
  have ord: "\<And>y. y \<in> set xs \<Longrightarrow> fin S x \<le> beg S y" and io: "in_order S xs" using Cons.prems(1) by (auto simp: in_order_def)
  have x: "beg S x < fin S x" "fin S x \<le> b \<or> b \<le> beg S x \<and> fin S x \<le> e \<or> e \<le> beg S x" using Cons.prems(3) by auto
  from Cons.IH [OF io Cons.prems(2)] Cons.prems(3) obtain A B C where
    s: "xs = A @ B @ C" "\<forall>x\<in>set A. fin S x \<le> b" "\<forall>x\<in>set B. b \<le> beg S x \<and> fin S x \<le> e" "\<forall>x\<in>set C. e \<le> beg S x" by auto
  consider "fin S x \<le> b" | "b \<le> beg S x" "fin S x \<le> e" | "e \<le> beg S x" using x(2) by blast
  then show ?case
  proof cases
    case 1
    then show ?thesis using s by (intro exI [of _ "x # A"] exI [of _ B] exI [of _ C]) auto
  next
    case 2
    have "A = []"
    proof (cases A)
      case (Cons a A')
      then have "a \<in> set xs" "fin S a \<le> b" using s by auto
      then show ?thesis using ord [of a] 2 x(1) Cons.prems(3) [of a] by fastforce
    qed
    then show ?thesis using s 2 by (intro exI [of _ "[]"] exI [of _ "x # B"] exI [of _ C]) auto
  next
    case 3
    then have "\<forall>y\<in>set xs. e \<le> beg S y" using ord x(1) by fastforce
    then show ?thesis using 3 by (intro exI [of _ "[]"] exI [of _ "[]"] exI [of _ "x # xs"]) auto
  qed
qed auto

lemma insert_below_chain:
  assumes link: "linked S (sp_children (S ! p)) (A @ B @ C)" and dist: "distinct (A @ B @ C)"
    and len: "set (A @ B @ C) \<subseteq> {..<length S}" "p < length S"
    and S1: "S1 = S @ [(new_span b e)\<lparr>sp_parent := Some p, sp_children := first_of B\<rparr>]"
    and S2: "S2 = (if A = [] then set_children (Some (length S)) p S1 else set_sibling (Some (length S)) (last A) S1)"
    and S3: "S3 = set_sibling (first_of C) (length S) S2"
    and S4: "S4 = (if B = [] then S3 else set_sibling None (last B) S3)"
  shows "linked S4 (sp_children (S4 ! p)) (A @ length S # C)" "linked S4 (sp_children (S4 ! length S)) B"
    "\<And>x. x < length S \<Longrightarrow> x \<notin> set (A @ B @ C) \<Longrightarrow> sp_sibling (S4 ! x) = sp_sibling (S ! x)"
    "\<And>x. x < length S \<Longrightarrow> x \<noteq> p \<Longrightarrow> sp_children (S4 ! x) = sp_children (S ! x)"
    "length S4 = Suc (length S)" "beg S4 (length S) = b" "fin S4 (length S) = e" "sp_parent (S4 ! length S) = Some p"
    "\<And>x. x < length S \<Longrightarrow> beg S4 x = beg S x \<and> fin S4 x = fin S x \<and> sp_parent (S4 ! x) = sp_parent (S ! x)"
proof -
  let ?k = "length S"
  have l: "length S1 = Suc ?k" "length S2 = Suc ?k" "length S3 = Suc ?k" by (simp_all add: S1 S2 S3)
  have la: "A \<noteq> [] \<Longrightarrow> last A < ?k" "B \<noteq> [] \<Longrightarrow> last B < ?k" using len(1) last_in_set by fastforce+
  have n1: "x < ?k \<Longrightarrow> S1 ! x = S ! x" for x by (simp add: S1 nth_append)
  have k1: "S1 ! ?k = (new_span b e)\<lparr>sp_parent := Some p, sp_children := first_of B\<rparr>" by (simp add: S1)
  have sib: "sp_sibling (S4 ! x) = (if B \<noteq> [] \<and> x = last B then None else if x = ?k then first_of C
      else if A \<noteq> [] \<and> x = last A then Some ?k else sp_sibling (S1 ! x))" for x
    using la l by (auto simp: S4 S3 S2)
  have seg: "segment S (A @ B @ C) None" "sp_children (S ! p) = first_of (A @ B @ C)" using link by (simp_all add: linked_segment)
  then have segs: "segment S A (if B @ C = [] then None else Some (hd (B @ C)))"
    "segment S B (if C = [] then None else Some (hd C))" "segment S C None"
    by (simp_all add: segment_append)
  have sk: "\<And>x. x \<in> set (A @ B @ C) \<Longrightarrow> x < ?k" using len(1) by auto
  have lastA: "A \<noteq> [] \<Longrightarrow> last A \<in> set A" and lastB: "B \<noteq> [] \<Longrightarrow> last B \<in> set B" by simp_all
  have d: "\<And>x. x \<in> set A \<Longrightarrow> x \<notin> set B \<and> x \<notin> set C" "\<And>x. x \<in> set B \<Longrightarrow> x \<notin> set A \<and> x \<notin> set C"
    using dist by (auto simp: disjoint_iff)
  have nl: "A \<noteq> [] \<Longrightarrow> last A \<notin> set B \<and> last A \<notin> set C" "B \<noteq> [] \<Longrightarrow> last B \<notin> set A \<and> last B \<notin> set C"
    using lastA lastB d by blast+
  have segA: "segment S4 A (Some ?k)"
  proof (cases "A = []")
    case False
    have "segment (set_sibling (Some ?k) (last A) S) A (Some ?k)"
      by (rule segment_set_last [OF segs(1)]) (use False dist la in auto)
    then show ?thesis
      by (rule segment_cong [THEN iffD2, rotated]) (use False nl lastB la sk in \<open>auto simp: sib n1\<close>)
  qed simp
  have segB: "segment S4 B None"
  proof (cases "B = []")
    case False
    have "segment (set_sibling None (last B) S) B None"
      by (rule segment_set_last [OF segs(2)]) (use False dist la in auto)
    then show ?thesis
      by (rule segment_cong [THEN iffD2, rotated]) (use False nl lastA la sk in \<open>auto simp: sib n1\<close>)
  qed simp
  have segC: "segment S4 C None"
    by (rule segment_cong [THEN iffD2, rotated, OF segs(3)]) (use nl sk in \<open>auto simp: sib n1\<close>)
  have sibk: "sp_sibling (S4 ! ?k) = first_of C" using la by (auto simp: sib)
  have ch: "sp_children (S4 ! x) = (if A = [] \<and> x = p then Some ?k else sp_children (S1 ! x))" for x
    using l len(2) by (auto simp: S4 S3 S2)
  have "sp_children (S4 ! p) = first_of (A @ ?k # C)"
    using seg(2) len(2) by (auto simp: ch n1 first_of_def)
  then show "linked S4 (sp_children (S4 ! p)) (A @ ?k # C)"
    using segA segC sibk by (simp add: linked_segment segment_append first_of_def)
  have "sp_children (S4 ! ?k) = first_of B" using len(2) by (simp add: ch k1)
  then show "linked S4 (sp_children (S4 ! ?k)) B" using segB by (simp add: linked_segment)
  show "sp_sibling (S4 ! x) = sp_sibling (S ! x)" if "x < ?k" "x \<notin> set (A @ B @ C)" for x
    using that lastA lastB by (auto simp: sib n1)
  show "sp_children (S4 ! x) = sp_children (S ! x)" if "x < ?k" "x \<noteq> p" for x using that by (simp add: ch n1)
  show "length S4 = Suc ?k" using l by (simp add: S4)
  show "beg S4 ?k = b" "fin S4 ?k = e" "sp_parent (S4 ! ?k) = Some p"
    by (simp_all add: S4 S3 S2 k1 new_span_def)
  show "beg S4 x = beg S x \<and> fin S4 x = fin S x \<and> sp_parent (S4 ! x) = sp_parent (S ! x)" if "x < ?k" for x
    using that by (simp add: S4 S3 S2 n1)
qed

end
