(* ===== verification/Span_Operations.thy ===== *)
theory Span_Operations
  imports Span_Tree
begin

text \<open>
  Correctness of the operations on the span index of a document: \<^verbatim>\<open>Insert\<close>, \<^verbatim>\<open>Remove\<close> and \<^verbatim>\<open>GetSpan\<close> keep the
  invariant and implement a set of intervals that do not cross. The locale \<open>span_family\<close> is the contract of such a
  set; it is interpreted for the operations of the document.
\<close>

section \<open>Insertion into the index\<close>

lemma span_invD:
  assumes "span_inv L d"
  shows "laminar L (spans d) (length (leaves d))"
    "\<forall>i\<in>L. smallest L (spans d) (above (spans d) i) (sp_parent (spans d ! i))"
    "\<forall>t<length (leaves d). smallest L (spans d) (holds (spans d) t) (leaves d ! t)"
    "i \<in> L \<Longrightarrow> \<exists>xs. linked (spans d) (sp_children (spans d ! i)) xs \<and> child_list L (spans d) (Some i) xs"
  using assms unfolding span_inv_def by blast+

lemma parent_live:
  assumes "\<forall>i\<in>L. smallest L S (above S i) (sp_parent (S ! i))" "i \<in> L" "sp_parent (S ! i) = Some p"
  shows "p \<in> L" "above S i p"
  using assms by (auto simp: smallest_def)

lemma reparentedD:
  assumes "reparented v X S S'" "i < length S"
  shows "sp_begin (S' ! i) = sp_begin (S ! i)" "sp_end (S' ! i) = sp_end (S ! i)"
    "sp_sibling (S' ! i) = sp_sibling (S ! i)" "sp_children (S' ! i) = sp_children (S ! i)"
    "sp_parent (S' ! i) = (if i \<in> X then v else sp_parent (S ! i))"
  using assms by (auto simp: reparented_def)

lemma in_order_cong:
  "(\<And>x. x \<in> set xs \<Longrightarrow> beg S' x = beg S x \<and> fin S' x = fin S x) \<Longrightarrow> in_order S' xs \<longleftrightarrow> in_order S xs"
  unfolding in_order_def by (induction xs) auto

lemma other_children:
  assumes inv: "span_inv L d" and "j \<in> L"
    and sib: "\<And>x. x \<in> L \<Longrightarrow> sp_parent (spans d ! x) = Some j \<Longrightarrow> sp_sibling (S' ! x) = sp_sibling (spans d ! x)"
    and ch: "sp_children (S' ! j) = sp_children (spans d ! j)"
    and sb: "\<And>x. x \<in> L \<Longrightarrow> sp_parent (spans d ! x) = Some j \<Longrightarrow> beg S' x = beg (spans d) x \<and> fin S' x = fin (spans d) x"
    and par: "{x \<in> M. sp_parent (S' ! x) = Some j} = {x \<in> L. sp_parent (spans d ! x) = Some j}"
  shows "\<exists>xs. linked S' (sp_children (S' ! j)) xs \<and> child_list M S' (Some j) xs"
proof -
  obtain ys where ys: "linked (spans d) (sp_children (spans d ! j)) ys"
    "set ys = {x \<in> L. sp_parent (spans d ! x) = Some j}" "in_order (spans d) ys"
    using span_invD(4) [OF inv assms(2)] by (auto simp: child_list_def)
  have "linked S' (sp_children (S' ! j)) ys" using ys(1,2) ch sib by (subst linked_cong [of ys _ "spans d"]) auto
  moreover have "in_order S' ys" using ys(2,3) sb in_order_cong [of ys S' "spans d"] by simp
  ultimately show ?thesis using ys(2) par by (auto simp: child_list_def)
qed

text \<open>The children of the enclosing span: those before, inside and after the new span.\<close>

lemma below_partition:
  assumes inv: "span_inv L d" and be: "b < e" and enc: "smallest L (spans d) (covers (spans d) b e) (Some p)"
    and ap: "apart L (spans d) b e {b..<e}"
  obtains A B C where "linked (spans d) (sp_children (spans d ! p)) (A @ B @ C)" "in_order (spans d) (A @ B @ C)"
    "set (A @ B @ C) = {j \<in> L. sp_parent (spans d ! j) = Some p}"
    "\<forall>x\<in>set A. fin (spans d) x \<le> b" "\<forall>x\<in>set B. b \<le> beg (spans d) x \<and> fin (spans d) x \<le> e" "\<forall>x\<in>set C. e \<le> beg (spans d) x"
    "set B = {j \<in> L. inside (spans d) b e j \<and> sp_parent (spans d ! j) = Some p}"
proof -
  let ?S = "spans d"
  note lam = span_invD(1) [OF inv] and par = span_invD(2) [OF inv]
  note p = smallest_SomeD [OF enc]
  obtain xs where xs: "linked ?S (sp_children (?S ! p)) xs" "set xs = {j \<in> L. sp_parent (?S ! j) = Some p}" "in_order ?S xs"
    using span_invD(4) [OF inv p(1)] by (auto simp: child_list_def)
  have tri: "beg ?S x < fin ?S x \<and> (fin ?S x \<le> b \<or> b \<le> beg ?S x \<and> fin ?S x \<le> e \<or> e \<le> beg ?S x)" if "x \<in> set xs" for x
  proof -
    have x: "x \<in> L" "above ?S x p" using that xs(2) parent_live [OF par, of x p] by auto
    have "fin ?S x \<le> b \<or> b \<le> beg ?S x \<and> fin ?S x \<le> e \<or> e \<le> beg ?S x"
      using lam ap x(1) be
    proof (rule apart_disjoint)
      assume "covers ?S b e x"
      then have "p = x" using covers_antisym [OF lam p(1) x(1)] p(3) [OF x(1)] x(2) by (auto simp: above_def)
      then show ?thesis using x(2) by (simp add: above_def)
    qed (auto simp: inside_def)
    then show ?thesis using laminarD(2) [OF lam x(1)] by blast
  qed
  obtain A B C where part: "xs = A @ B @ C" "\<forall>x\<in>set A. fin ?S x \<le> b" "\<forall>x\<in>set B. b \<le> beg ?S x \<and> fin ?S x \<le> e"
    "\<forall>x\<in>set C. e \<le> beg ?S x"
    using order_partition [OF xs(3) be] tri by blast
  have "set B = {j \<in> L. inside ?S b e j \<and> sp_parent (?S ! j) = Some p}"
  proof (intro equalityI subsetI)
    fix x assume x: "x \<in> set B"
    then have "x \<in> L" "sp_parent (?S ! x) = Some p" using xs(2) part(1) by auto
    moreover have "\<not> (beg ?S x = b \<and> fin ?S x = e)"
      using apartD(2) [OF ap \<open>x \<in> L\<close>, of b] be by (auto simp: holds_def)
    ultimately show "x \<in> {j \<in> L. inside ?S b e j \<and> sp_parent (?S ! j) = Some p}" using part(3) x by (auto simp: inside_def)
  next
    fix x assume x: "x \<in> {j \<in> L. inside ?S b e j \<and> sp_parent (?S ! j) = Some p}"
    then have "x \<in> set xs" using xs(2) by auto
    moreover have "x \<notin> set A" "x \<notin> set C"
      using x part(2,4) laminarD(2) [OF lam, of x] by (fastforce simp: inside_def)+
    ultimately show "x \<in> set B" by (simp add: part(1))
  qed
  then show ?thesis using that xs part by simp
qed

lemma insert_below_correct:
  assumes inv: "span_inv L d" and be: "b < e" and enc: "smallest L (spans d) (covers (spans d) b e) (Some p)"
    and ap: "apart L (spans d) b e {b..<e}"
  shows "\<exists>S1 S'. insert_below d p b e = Some (length (spans d), S1) \<and>
    set_parents (sp_children (S1 ! length (spans d))) (Some (length (spans d))) S1 = Some S' \<and>
    inserted L (spans d) b e (Some p) S'"
proof -
  define S where "S = spans d"
  define k where "k = length S"
  note lam = span_invD(1) [OF inv, folded S_def] and par = span_invD(2) [OF inv, folded S_def]
  have p: "p \<in> L" using smallest_SomeD(1) [OF enc] .
  obtain A B C where lk: "linked S (sp_children (S ! p)) (A @ B @ C)" and io: "in_order S (A @ B @ C)"
    and xs: "set (A @ B @ C) = {j \<in> L. sp_parent (S ! j) = Some p}"
    and part: "\<forall>x\<in>set A. fin S x \<le> b" "\<forall>x\<in>set B. b \<le> beg S x \<and> fin S x \<le> e" "\<forall>x\<in>set C. e \<le> beg S x"
    and Bset: "set B = {j \<in> L. inside S b e j \<and> sp_parent (S ! j) = Some p}"
    by (rule below_partition [OF assms, folded S_def]) blast
  have old: "x < k" "beg S x < fin S x" if "x \<in> L" for x using laminarD(1,2) [OF lam that] by (simp_all add: k_def)
  have live: "x \<in> L" "x < k" "beg S x < fin S x" if "x \<in> set (A @ B @ C)" for x using that old unfolding xs by blast+
  have dist: "distinct (A @ B @ C)" by (rule in_order_distinct [OF io]) (use live(3) in blast)
  have pk: "p < k" using old p by blast
  define S1 where "S1 = S @ [(new_span b e)\<lparr>sp_parent := Some p, sp_children := first_of B\<rparr>]"
  define S2 where "S2 = (if A = [] then set_children (Some (length S)) p S1 else set_sibling (Some (length S)) (last A) S1)"
  define S3 where "S3 = set_sibling (first_of C) (length S) S2"
  define S4 where "S4 = (if B = [] then S3 else set_sibling None (last B) S3)"
  have "scan_children (sp_children (S ! p)) S b e None None None None = Some (first_of B, last_of B, last_of A, first_of C)"
    using scan_children_correct [OF lk, of b e None] live part be by (fastforce simp: k_def last_of_def)
  then have ib: "insert_below d p b e = Some (k, S4)"
    using pk by (simp add: insert_below_def S_def [symmetric] span_at_def k_def [symmetric] Let_def S4_def S3_def S2_def S1_def last_of_def)
  have len: "set (A @ B @ C) \<subseteq> {..<length S}" "p < length S" using live(2) pk by (auto simp: k_def)
  note ch = insert_below_chain [OF lk dist len S1_def S2_def S3_def S4_def, folded k_def]
  have "set B \<subseteq> {..<length S4}" using len ch(5) by (auto simp: k_def)
  from set_parents_correct [OF ch(2) this, of "Some k"] obtain S' where
    sp: "set_parents (sp_children (S4 ! k)) (Some k) S4 = Some S'" "reparented (Some k) (set B) S4 S'" by blast
  have nk: "x < length S4" if "x \<le> k" for x using that ch(5) by simp
  note rp = reparentedD [OF sp(2) nk]
  have kL: "k \<notin> L" "k \<notin> set B" using old(1) Bset by auto
  have bounds: "beg S' x = beg S x" "fin S' x = fin S x" if "x < k" for x using rp(1,2) [of x] ch(9) [of x] that by simp_all
  have bk: "beg S' k = b" "fin S' k = e" using rp(1,2) [of k] ch(6,7) by simp_all
  have par': "sp_parent (S' ! i) = (if inside S b e i \<and> sp_parent (S ! i) = Some p then Some k else sp_parent (S ! i))" if "i \<in> L" for i
    using rp(5) [of i] old [OF that] ch(9) [of i] Bset that by simp
  have park: "sp_parent (S' ! k) = Some p" using rp(5) [of k] ch(8) kL(2) by simp
  have pL: "sp_parent (S ! j) \<noteq> Some k" if "j \<in> L" for j using parent_live(1) [OF par that] kL(1) by blast
  have kids: "\<exists>ys. linked S' (sp_children (S' ! i)) ys \<and> child_list (insert k L) S' (Some i) ys" if i: "i \<in> insert k L" for i
  proof -
    consider "i = k" | "i = p" | "i \<in> L" "i \<noteq> p" "i \<noteq> k" using i by blast
    then show ?thesis
    proof cases
      case 1
      have "linked S' (sp_children (S' ! k)) B"
        using ch(2) rp(3,4) live(2) by (subst linked_cong [of B _ S4]) (auto simp: less_imp_le)
      moreover have "in_order S' B"
        using io in_order_cong [of B S' S] bounds live(2) by (simp add: in_order_def sorted_wrt_append)
      moreover have "set B = {j \<in> insert k L. sp_parent (S' ! j) = Some k}"
        using Bset par' park pL kL(1) p by auto
      ultimately show ?thesis using 1 unfolding child_list_def by blast
    next
      case 2
      have "linked S' (sp_children (S' ! p)) (A @ k # C)"
        using ch(1) rp(3,4) pk live(2) by (subst linked_cong [of "A @ k # C" _ S4]) (auto simp: less_imp_le)
      moreover have "in_order S' (A @ k # C)"
      proof -
        have "in_order S (A @ C)" using io by (auto simp: in_order_def sorted_wrt_append)
        then have "in_order S' (A @ C)" using in_order_cong [of "A @ C" S' S] bounds live(2) by auto
        then show ?thesis using part(1,3) bounds live(2) bk by (auto simp: in_order_def sorted_wrt_append)
      qed
      moreover have "set (A @ k # C) = {j \<in> insert k L. sp_parent (S' ! j) = Some p}"
      proof -
        have "set A \<union> set C = {j \<in> L. sp_parent (S ! j) = Some p} - set B" using dist unfolding xs [symmetric] by auto
        moreover have "sp_parent (S' ! j) = Some p \<longleftrightarrow> sp_parent (S ! j) = Some p \<and> j \<notin> set B" if "j \<in> L" for j
          using par' [OF that] Bset kL(1) p that by auto
        ultimately show ?thesis using park by auto
      qed
      ultimately show ?thesis using 2 unfolding child_list_def by blast
    next
      case 3
      show ?thesis
      proof (rule other_children [OF inv 3(1), folded S_def])
        fix x assume x: "x \<in> L" "sp_parent (S ! x) = Some i"
        have "x \<notin> set (A @ B @ C)" using x 3(2) unfolding xs by simp
        then show "sp_sibling (S' ! x) = sp_sibling (S ! x)" using rp(3) [of x] ch(3) [of x] old(1) [OF x(1)] by simp
        show "beg S' x = beg S x \<and> fin S' x = fin S x" using bounds old(1) [OF x(1)] by simp
      next
        show "sp_children (S' ! i) = sp_children (S ! i)" using rp(4) [of i] ch(4) [of i] old(1) [OF 3(1)] 3(2) by simp
        show "{x \<in> insert k L. sp_parent (S' ! x) = Some i} = {x \<in> L. sp_parent (S ! x) = Some i}"
          using par' park 3 pL kL(1) by (auto split: if_splits)
      qed
    qed
  qed
  have "length S' = Suc k" using sp(2) ch(5) by (simp add: reparented_def)
  then have "inserted L S b e (Some p) S'"
    unfolding inserted_def k_def [symmetric] same_bounds_def using bounds old(1) par' park kids bk by auto
  then show ?thesis using ib sp(1) unfolding k_def S_def by blast
qed

subsection \<open>Inserting a top-level span\<close>

definition siblings_changed :: "nat set \<Rightarrow> Span list \<Rightarrow> Span list \<Rightarrow> bool" where
  "siblings_changed X S S' \<longleftrightarrow> length S' = length S \<and>
     (\<forall>i. sp_begin (S' ! i) = sp_begin (S ! i) \<and> sp_end (S' ! i) = sp_end (S ! i) \<and> sp_parent (S' ! i) = sp_parent (S ! i) \<and>
        sp_children (S' ! i) = sp_children (S ! i) \<and> (i \<notin> X \<longrightarrow> sp_sibling (S' ! i) = sp_sibling (S ! i)))"

lemma siblings_changed_set:
  "siblings_changed X S S' \<Longrightarrow> q < length S \<Longrightarrow> X \<subseteq> Y \<Longrightarrow> q \<in> Y \<Longrightarrow> siblings_changed Y S (set_sibling v q S')"
  by (auto simp: siblings_changed_def)

lemma outer_correct:
  assumes inv: "laminar L S n" "\<forall>i\<in>L. smallest L S (above S i) (sp_parent (S ! i))" and "p \<in> L"
    and sc: "siblings_changed X S S'"
  shows "\<exists>r\<in>L. outer S' p = Some r \<and> sp_parent (S ! r) = None \<and> covers S (beg S p) (fin S p) r"
  using assms(3)
proof (induction "n - (fin S p - beg S p)" arbitrary: p rule: less_induct)
  case less
  have at: "span_at S' p = Some (S' ! p)" "sp_parent (S' ! p) = sp_parent (S ! p)"
    using span_at_live [OF inv(1) less.prems] sc by (auto simp: siblings_changed_def span_at_def split: if_splits)
  show ?case
  proof (cases "sp_parent (S ! p)")
    case None
    then show ?thesis using at less.prems by (subst outer.simps) (auto simp: covers_def)
  next
    case (Some q)
    note q = parent_live [OF inv(2) less.prems Some]
    have c: "q \<noteq> p" "beg S q \<le> beg S p" "fin S p \<le> fin S q" using q(2) by (auto simp: above_def covers_def)
    then have "beg S q < beg S p \<or> fin S p < fin S q"
      using laminarD(5) [OF inv(1) less.prems q(1)] by (metis le_neq_implies_less)
    then have "n - (fin S q - beg S q) < n - (fin S p - beg S p)"
      using c laminarD(2,3) [OF inv(1) less.prems] laminarD(2,3) [OF inv(1) q(1)] by linarith
    from less.hyps [OF this q(1)] obtain r where
      r: "r \<in> L" "outer S' q = Some r" "sp_parent (S ! r) = None" "covers S (beg S q) (fin S q) r" by blast
    have "outer S' p = Some r" using at Some r(2) by (subst outer.simps) simp
    then show ?thesis using r c by (auto simp: covers_def)
  qed
qed

text \<open>Two top-level spans are the same or disjoint.\<close>

lemma tops_disjoint:
  assumes "laminar L S n" "\<forall>i\<in>L. smallest L S (above S i) (sp_parent (S ! i))"
    and "i \<in> L" "sp_parent (S ! i) = None" "j \<in> L" "sp_parent (S ! j) = None" "i \<noteq> j"
  shows "fin S i \<le> beg S j \<or> fin S j \<le> beg S i"
  using assms(1,3,5)
proof (rule laminar_cases)
  assume "above S i j"
  moreover have "smallest L S (above S i) None" using assms(2-4) by fastforce
  ultimately show ?thesis using assms(5) by (auto simp: smallest_def)
next
  assume "above S j i"
  moreover have "smallest L S (above S j) None" using assms(2,5,6) by fastforce
  ultimately show ?thesis using assms(3) by (auto simp: smallest_def)
qed (use assms(7) in auto)

definition tops :: "nat set \<Rightarrow> Span list \<Rightarrow> nat \<Rightarrow> nat \<Rightarrow> nat set" where
  "tops L S b k = {j \<in> L. sp_parent (S ! j) = None \<and> beg S j < k \<and> b < fin S j}"

definition close_chain :: "span_ptr \<Rightarrow> Span list \<Rightarrow> Span list" where
  "close_chain tail S = (case tail of None \<Rightarrow> S | Some q \<Rightarrow> set_sibling None q S)"

lemma segment_snoc:
  assumes "segment (close_chain (last_of xs) S) xs None" "set xs \<subseteq> {..<length S}" "r < length S" "r \<notin> set xs" "distinct xs"
  shows "segment (set_sibling None r (case last_of xs of None \<Rightarrow> S | Some q \<Rightarrow> set_sibling (Some r) q S)) (xs @ [r]) None"
proof (cases "xs = []")
  case False
  then have l: "last_of xs = Some (last xs)" "last xs < length S" "last xs \<in> set xs" using subsetD [OF assms(2) last_in_set [OF False]] by (auto simp: last_of_def)
  have "segment (set_sibling (Some r) (last xs) (set_sibling None (last xs) S)) xs (Some r)"
    by (rule segment_set_last) (use assms(1,5) False l in \<open>auto simp: close_chain_def\<close>)
  then have "segment (set_sibling None r (set_sibling (Some r) (last xs) S)) xs (Some r)"
    by (rule segment_cong [THEN iffD2, rotated]) (use l assms(3,4) in auto)
  then show ?thesis using False l assms(3) by (simp add: segment_append)
qed (use assms(3) in \<open>simp add: last_of_def\<close>)

lemma tops_step:
  assumes "laminar L S n" "b \<le> k"
  shows "tops L S b (Suc k) = tops L S b k \<union> {j \<in> L. sp_parent (S ! j) = None \<and> holds S k j}"
proof (intro equalityI subsetI)
  fix j assume "j \<in> tops L S b (Suc k)"
  then have j: "j \<in> L" "sp_parent (S ! j) = None" "beg S j < Suc k" "b < fin S j" by (auto simp: tops_def)
  then show "j \<in> tops L S b k \<union> {j \<in> L. sp_parent (S ! j) = None \<and> holds S k j}"
    using laminarD(2) [OF assms(1) j(1)] by (cases "beg S j = k") (auto simp: tops_def holds_def)
qed (use assms(2) in \<open>auto simp: tops_def holds_def\<close>)

lemma chain_tops_correct:
  assumes inv: "laminar L S n" "\<forall>i\<in>L. smallest L S (above S i) (sp_parent (S ! i))"
    and leaf: "\<And>t. t < e \<Longrightarrow> smallest L S (holds S t) (leaf t)"
    and ins: "\<And>t j. b \<le> t \<Longrightarrow> t < e \<Longrightarrow> j \<in> L \<Longrightarrow> holds S t j \<Longrightarrow> b \<le> beg S j"
  shows "b \<le> k \<Longrightarrow> k \<le> e \<Longrightarrow> set xs = tops L S b k \<Longrightarrow> in_order S xs \<Longrightarrow> siblings_changed (set xs) S S1 \<Longrightarrow>
    segment (close_chain (last_of xs) S1) xs None \<Longrightarrow>
    \<exists>ys S2. chain_tops (first_of xs) (last_of xs) S1 (map leaf [k..<e]) = Some (first_of ys, last_of ys, S2) \<and>
      set ys = tops L S b e \<and> in_order S ys \<and> siblings_changed (set ys) S S2 \<and> segment (close_chain (last_of ys) S2) ys None"
proof (induction "e - k" arbitrary: k xs S1)
  case 0
  have "k = e" using "0.hyps" "0.prems"(2) by simp
  then show ?case using "0.prems"(3-6) by (intro exI [of _ xs] exI [of _ S1]) simp
next
  case (Suc x)
  have k: "b \<le> k" "k < e" using Suc.hyps(2) Suc.prems(1) by linarith+
  have u: "map leaf [k..<e] = leaf k # map leaf [Suc k..<e]" using k(2) by (simp add: upt_conv_Cons)
  have x: "x = e - Suc k" using Suc.hyps(2) by simp
  have k': "b \<le> Suc k" "Suc k \<le> e" using k by auto
  note lk = leaf [OF k(2)]
  have keep: "tops L S b (Suc k) = tops L S b k" if "\<And>j. j \<in> L \<Longrightarrow> sp_parent (S ! j) = None \<Longrightarrow> holds S k j \<Longrightarrow> j \<in> tops L S b k"
    unfolding tops_step [OF inv(1) k(1)] using that by auto
  show ?case
  proof (cases "leaf k")
    case None
    then have "tops L S b (Suc k) = tops L S b k" using lk by (intro keep) (auto simp: smallest_def)
    then have "set xs = tops L S b (Suc k)" using Suc.prems(3) by (simp only:)
    from Suc.hyps(1) [OF x k' this Suc.prems(4-6)] show ?thesis by (simp only: u None chain_tops.simps)
  next
    case (Some p)
    note p = smallest_SomeD [OF lk [unfolded Some]]
    obtain r where r: "r \<in> L" "outer S1 p = Some r" "sp_parent (S ! r) = None" "covers S (beg S p) (fin S p) r"
      using outer_correct [OF inv p(1) Suc.prems(5)] by blast
    have hr: "holds S k r" using p(2) r(4) by (auto simp: holds_def covers_def)
    have uniq: "j = r" if "j \<in> L" "sp_parent (S ! j) = None" "holds S k j" for j
      using tops_disjoint [OF inv that(1,2) r(1,3)] that(3) hr by (auto simp: holds_def)
    show ?thesis
    proof (cases "r \<in> set xs")
      case True
      have "last_of xs = Some r"
      proof -
        obtain ys zs where sp: "xs = ys @ r # zs" using True by (meson split_list)
        have "zs = []"
        proof (cases zs)
          case (Cons z zs')
          then have "fin S r \<le> beg S z" using Suc.prems(4) sp by (auto simp: in_order_def sorted_wrt_append)
          moreover have "beg S z < k" using Suc.prems(3) sp Cons by (auto simp: tops_def)
          ultimately show ?thesis using hr by (auto simp: holds_def)
        qed
        then show ?thesis by (simp add: sp last_of_def)
      qed
      moreover have "tops L S b (Suc k) = tops L S b k" using uniq True Suc.prems(3) by (intro keep) auto
      moreover from this have "set xs = tops L S b (Suc k)" using Suc.prems(3) by (simp only:)
      note Suc.hyps(1) [OF x k' this Suc.prems(4-6)]
      ultimately show ?thesis by (simp add: u Some r(2))
    next
      case False
      have "last_of xs \<noteq> Some r" using False by (auto simp: last_of_def split: if_splits)
      have bk: "beg S r = k" using False Suc.prems(3) r(1,3) hr k by (auto simp: tops_def holds_def)
      let ?xs = "xs @ [r]"
      let ?S = "case last_of xs of None \<Rightarrow> S1 | Some q \<Rightarrow> set_sibling (Some r) q S1"
      have live: "set xs \<subseteq> L" using Suc.prems(3) by (auto simp: tops_def)
      then have len: "set xs \<subseteq> {..<length S1}" "r < length S1" "length S1 = length S"
        using laminarD(1) [OF inv(1)] r(1) Suc.prems(5) by (auto simp: siblings_changed_def)
      have dist: "distinct xs" using Suc.prems(4) by (rule in_order_distinct) (use live laminarD(2) [OF inv(1)] in blast)
      have t: "set ?xs = tops L S b (Suc k)"
      proof -
        have "{j \<in> L. sp_parent (S ! j) = None \<and> holds S k j} = {r}" using uniq r(1,3) hr by blast
        then show ?thesis by (simp add: tops_step [OF inv(1) k(1)] Suc.prems(3))
      qed
      have "fin S x \<le> beg S r" if "x \<in> set xs" for x
      proof -
        have "x \<in> L" "sp_parent (S ! x) = None" "beg S x < k" "x \<noteq> r" using that Suc.prems(3) False by (auto simp: tops_def)
        then show ?thesis using tops_disjoint [OF inv _ _ r(1,3), of x] bk laminarD(2) [OF inv(1) r(1)] by auto
      qed
      then have o: "in_order S ?xs" using Suc.prems(4) by (auto simp: in_order_def sorted_wrt_append)
      have c: "siblings_changed (set ?xs) S ?S"
      proof (cases "xs = []")
        case True
        then show ?thesis using Suc.prems(5) by (simp add: last_of_def siblings_changed_def)
      next
        case False
        then show ?thesis
          using siblings_changed_set [OF Suc.prems(5), of "last xs" "set ?xs"] subsetD [OF len(1) last_in_set] len(3)
          by (auto simp: last_of_def)
      qed
      have sg: "segment (close_chain (last_of ?xs) ?S) ?xs None"
        using segment_snoc [OF Suc.prems(6) len(1,2) False dist] by (simp add: last_of_def close_chain_def)
      have f: "(if first_of xs = None then Some r else first_of xs) = first_of ?xs" "last_of ?xs = Some r"
        by (auto simp: first_of_def last_of_def)
      have ca: "chain_tops (first_of xs) (last_of xs) S1 (map leaf [k..<e]) =
          chain_tops (first_of ?xs) (last_of ?xs) ?S (map leaf [Suc k..<e])"
        using \<open>last_of xs \<noteq> Some r\<close> Some r(2) by (simp add: u f)
      show ?thesis unfolding ca by (rule Suc.hyps(1) [OF x k' t o c sg])
    qed
  qed
qed

lemma insert_top_correct:
  assumes inv: "span_inv L d" and be: "b < e" "e \<le> length (leaves d)"
    and enc: "smallest L (spans d) (covers (spans d) b e) None" and ap: "apart L (spans d) b e {b..<e}"
  shows "\<exists>S1 S'. insert_top d b e = Some (length (spans d), S1) \<and>
    set_parents (sp_children (S1 ! length (spans d))) (Some (length (spans d))) S1 = Some S' \<and>
    inserted L (spans d) b e None S'"
proof -
  define S where "S = spans d"
  define k where "k = length S"
  note lam = span_invD(1) [OF inv, folded S_def] and par = span_invD(2) [OF inv, folded S_def]
  have no_cover: "\<not> covers S b e j" if "j \<in> L" for j using enc that by (simp add: smallest_def S_def)
  have ins: "inside S b e j" if "b \<le> t" "t < e" "j \<in> L" "holds S t j" for t j
    using apartD(1) [OF ap [folded S_def] that(3,1,2,4)] no_cover [OF that(3)] by blast
  have leaf: "smallest L S (holds S t) (leaves d ! t)" if "t < e" for t using span_invD(3) [OF inv] that be by (simp add: S_def)
  have t0: "tops L S b b = {}"
  proof -
    have "\<not> (beg S j < b \<and> b < fin S j)" if "j \<in> L" for j
      using ins [of b j] that be(1) by (auto simp: holds_def inside_def)
    then show ?thesis by (auto simp: tops_def)
  qed
  have "\<exists>xs S2. chain_tops None None S (map (\<lambda>t. leaves d ! t) [b..<e]) = Some (first_of xs, last_of xs, S2) \<and>
      set xs = tops L S b e \<and> in_order S xs \<and> siblings_changed (set xs) S S2 \<and> segment (close_chain (last_of xs) S2) xs None"
    using chain_tops_correct [OF lam par leaf, of e b b "[]" S] ins be t0
    by (auto simp: first_of_def last_of_def in_order_def siblings_changed_def close_chain_def inside_def)
  then obtain xs S2 where ct: "chain_tops None None S (map (\<lambda>t. leaves d ! t) [b..<e]) = Some (first_of xs, last_of xs, S2)"
    and xs: "set xs = tops L S b e" "in_order S xs" and sc: "siblings_changed (set xs) S S2"
    and sg: "segment (close_chain (last_of xs) S2) xs None" by blast
  have live: "x \<in> L" "x < k" if "x \<in> set xs" for x using that xs(1) laminarD(1) [OF lam] by (auto simp: tops_def k_def)
  define S3 where "S3 = close_chain (last_of xs) S2"
  have sc3: "siblings_changed (set xs) S S3"
  proof (cases "xs = []")
    case False
    then have "last xs \<in> set xs" by simp
    then show ?thesis
      using siblings_changed_set [OF sc, of "last xs" "set xs" None] live False by (simp add: S3_def close_chain_def last_of_def k_def)
  qed (use sc in \<open>simp add: S3_def close_chain_def last_of_def\<close>)
  define S4 where "S4 = S3 @ [(new_span b e)\<lparr>sp_children := first_of xs\<rparr>]"
  have l3: "length S3 = k" using sc3 by (simp add: siblings_changed_def k_def)
  have it: "insert_top d b e = Some (k, S4)"
    using ct be l3 by (simp add: insert_top_def tokens_between_map S_def [symmetric] Let_def S4_def S3_def close_chain_def)
  have n4: "S4 ! x = S3 ! x" if "x < k" for x using that l3 by (simp add: S4_def nth_append)
  have k4: "S4 ! k = (new_span b e)\<lparr>sp_children := first_of xs\<rparr>" by (simp add: S4_def l3 [symmetric])
  have f3: "beg S4 x = beg S x" "fin S4 x = fin S x" "sp_parent (S4 ! x) = sp_parent (S ! x)"
    "sp_children (S4 ! x) = sp_children (S ! x)" "x \<notin> set xs \<Longrightarrow> sp_sibling (S4 ! x) = sp_sibling (S ! x)" if "x < k" for x
    using sc3 that by (simp_all add: n4 siblings_changed_def)
  have "segment S4 xs None" using sg live by (subst segment_cong [of xs _ S3]) (auto simp: n4 S3_def)
  then have lk: "linked S4 (sp_children (S4 ! k)) xs" by (simp add: linked_segment k4)
  have sub: "set xs \<subseteq> {..<length S4}" using live l3 by (auto simp: S4_def dest: live)
  from set_parents_correct [OF lk sub, of "Some k"] obtain S' where
    sp: "set_parents (sp_children (S4 ! k)) (Some k) S4 = Some S'" "reparented (Some k) (set xs) S4 S'" by blast
  have len': "length S' = Suc k" using sp(2) l3 by (simp add: reparented_def S4_def)
  have nk: "x < length S4" if "x \<le> k" for x using that l3 by (simp add: S4_def)
  note rp = reparentedD [OF sp(2) nk]
  have kL: "k \<notin> L" using laminarD(1) [OF lam] by (auto simp: k_def)
  have old: "x < k" if "x \<in> L" for x using laminarD(1) [OF lam that] by (simp add: k_def)
  have bounds: "beg S' x = beg S x" "fin S' x = fin S x" if "x < k" for x using rp(1,2) [of x] f3 that by simp_all
  have xset: "set xs = {j \<in> L. inside S b e j \<and> sp_parent (S ! j) = None}"
  proof -
    have "beg S j < e \<and> b < fin S j \<longleftrightarrow> inside S b e j" if "j \<in> L" for j
      using lam ap [folded S_def] that be(1)
      by (rule apart_disjoint) (use no_cover [OF that] laminarD(2) [OF lam that] in \<open>auto simp: inside_def\<close>)
    then show ?thesis unfolding xs(1) tops_def by blast
  qed
  have kx: "k \<notin> set xs" using xset kL by auto
  have par': "sp_parent (S' ! i) = (if inside S b e i \<and> sp_parent (S ! i) = None then Some k else sp_parent (S ! i))" if "i \<in> L" for i
    using rp(5) [of i] old [OF that] f3(3) [of i] xset that by simp
  have park: "sp_parent (S' ! k) = None" using rp(5) [of k] kx by (simp add: k4 new_span_def)
  have pL: "sp_parent (S ! j) \<noteq> Some k" if "j \<in> L" for j using parent_live(1) [OF par that] kL by blast
  have kids: "\<exists>ys. linked S' (sp_children (S' ! i)) ys \<and> child_list (insert k L) S' (Some i) ys" if i: "i \<in> insert k L" for i
  proof (cases "i = k")
    case True
    have "sp_sibling (S' ! x) = sp_sibling (S4 ! x)" if "x \<in> set xs" for x using rp(3) [of x] live(2) [OF that] by simp
    then have "linked S' (sp_children (S' ! k)) xs"
      using lk rp(4) [of k] by (subst linked_cong [of xs _ S4]) auto
    moreover have "child_list (insert k L) S' (Some k) xs"
    proof -
      have "in_order S' xs" using xs(2) in_order_cong [of xs S' S] bounds live(2) by simp
      moreover have "sp_parent (S' ! j) = Some k \<longleftrightarrow> inside S b e j \<and> sp_parent (S ! j) = None" if "j \<in> L" for j
        using par' [OF that] pL [OF that] by simp
      ultimately show ?thesis unfolding child_list_def xset using park by auto
    qed
    ultimately show ?thesis using True by blast
  next
    case False
    then have iL: "i \<in> L" using i by blast
    show ?thesis
    proof (rule other_children [OF inv iL, folded S_def])
      fix x assume x: "x \<in> L" "sp_parent (S ! x) = Some i"
      then show "sp_sibling (S' ! x) = sp_sibling (S ! x)" using rp(3) [of x] f3(5) [of x] old [OF x(1)] xset by simp
      show "beg S' x = beg S x \<and> fin S' x = fin S x" using bounds old [OF x(1)] by simp
    next
      show "sp_children (S' ! i) = sp_children (S ! i)" using rp(4) [of i] f3(4) [of i] old [OF iL] by simp
      show "{x \<in> insert k L. sp_parent (S' ! x) = Some i} = {x \<in> L. sp_parent (S ! x) = Some i}"
        using par' park False pL kL by (auto split: if_splits)
    qed
  qed
  have "beg S' k = b" "fin S' k = e" using rp(1,2) [of k] by (simp_all add: k4 new_span_def)
  then have "inserted L S b e None S'"
    unfolding inserted_def k_def [symmetric] same_bounds_def using len' bounds old par' park kids by auto
  then show ?thesis using it sp(1) by (auto simp: S_def k_def)
qed

section \<open>The operations\<close>

lemma move_leaves_length [simp]: "b \<le> e \<Longrightarrow> e \<le> length ls \<Longrightarrow> length (move_leaves b e old new ls) = length ls"
  by (simp add: move_leaves_def)

lemma move_leaves_nth:
  assumes "b \<le> e" "e \<le> length ls" "t < length ls"
  shows "move_leaves b e old new ls ! t = (if b \<le> t \<and> t < e \<and> ls ! t = old then new else ls ! t)"
  using assms by (auto simp: move_leaves_def nth_append max_def)

lemma exact_no_crossing:
  assumes "laminar L S n" "i \<in> L" "beg S i = b" "fin S i = e" "j \<in> L"
  shows "\<not> crosses b e (beg S j) (fin S j)"
  using laminarD(4) [OF assms(1,2,5)] assms(3,4) by (cases "i = j") (auto simp: crosses_def)

definition exact :: "Span list \<Rightarrow> nat \<Rightarrow> nat \<Rightarrow> nat \<Rightarrow> bool" where
  "exact S b e i \<longleftrightarrow> beg S i = b \<and> fin S i = e"

lemma apart_exact_crossing:
  assumes "laminar L S n" "apart L S b e {b..<e}" "b < e" "j \<in> L"
  shows "\<not> exact S b e j" "\<not> crosses b e (beg S j) (fin S j)"
  using assms(1,2,4,3) by (rule apart_disjoint, use assms(3) in \<open>auto simp: exact_def crosses_def inside_def covers_def\<close>)+

lemma inserted_inv:
  assumes inv: "span_inv L d" and be: "b < e" "e \<le> length (leaves d)"
    and enc: "smallest L (spans d) (covers (spans d) b e) enc" and ap: "apart L (spans d) b e {b..<e}"
    and ins: "inserted L (spans d) b e enc S'"
  shows "span_inv (insert (length (spans d)) L)
    (d\<lparr>leaves := move_leaves b e enc (Some (length (spans d))) (leaves d), spans := S'\<rparr>)"
proof -
  let ?k = "length (spans d)"
  note lam = span_invD(1) [OF inv]
  have kL: "?k \<notin> L" using laminarD(1) [OF lam] by auto
  have i: "length S' = Suc ?k" "same_bounds L (spans d) S'" "beg S' ?k = b" "fin S' ?k = e" "sp_parent (S' ! ?k) = enc"
    "\<And>i. i \<in> L \<Longrightarrow> sp_parent (S' ! i) =
        (if inside (spans d) b e i \<and> sp_parent (spans d ! i) = enc then Some ?k else sp_parent (spans d ! i))"
    "\<forall>i\<in>insert ?k L. \<exists>xs. linked S' (sp_children (S' ! i)) xs \<and> child_list (insert ?k L) S' (Some i) xs"
    using ins unfolding inserted_def by blast+
  have "laminar (insert ?k L) S' (length (leaves d))"
    by (rule laminar_insert [OF lam ap be(1,2) i(2,1,3,4)])
  moreover have "\<forall>j\<in>insert ?k L. smallest (insert ?k L) S' (above S' j) (sp_parent (S' ! j))"
    by (rule parents_insert [OF lam span_invD(2) [OF inv] enc ap be(1) i(2-4) kL i(6,5)])
  moreover have "smallest (insert ?k L) S' (holds S' t) (move_leaves b e enc (Some ?k) (leaves d) ! t)"
    if "t < length (leaves d)" for t
    using leaves_insert [OF lam _ enc ap be(1) i(2-4) kL] span_invD(3) [OF inv] that be by (simp add: move_leaves_nth)
  ultimately show ?thesis using i(7) be by (simp add: span_inv_def)
qed

definition insert_spec :: "nat set \<Rightarrow> span_index \<Rightarrow> nat \<Rightarrow> nat \<Rightarrow> span_ptr \<Rightarrow> span_index \<Rightarrow> bool" where
  "insert_spec L d b e r d' \<longleftrightarrow>
     (if \<exists>j\<in>L. crosses b e (beg (spans d) j) (fin (spans d) j) then r = None \<and> d' = d
      else if \<exists>i\<in>L. exact (spans d) b e i then (\<exists>i\<in>L. exact (spans d) b e i \<and> r = Some i) \<and> d' = d
      else r = Some (length (spans d)) \<and> span_inv (insert (length (spans d)) L) d' \<and> length (leaves d') = length (leaves d) \<and>
        length (spans d') = Suc (length (spans d)) \<and> exact (spans d') b e (length (spans d)) \<and> same_bounds L (spans d) (spans d'))"

lemma insert_spec_new:
  assumes inv: "span_inv L d" and be: "b < e" "e \<le> length (leaves d)"
    and enc: "smallest L (spans d) (covers (spans d) b e) enc" and ap: "apart L (spans d) b e {b..<e}"
    and E: "EnclosingSpan d b e = Some (enc, False)"
  shows "\<exists>r d'. Insert b e d = Some (r, d') \<and> insert_spec L d b e r d'"
proof -
  let ?k = "length (spans d)"
  note nx = apart_exact_crossing [OF span_invD(1) [OF inv] ap be(1)]
  have "\<exists>S1 S'. (case enc of None \<Rightarrow> insert_top d b e | Some p \<Rightarrow> insert_below d p b e) = Some (?k, S1) \<and>
      set_parents (sp_children (S1 ! ?k)) (Some ?k) S1 = Some S' \<and> inserted L (spans d) b e enc S'"
    using insert_top_correct [OF inv be _ ap] insert_below_correct [OF inv be(1) _ ap] enc by (cases enc) auto
  then obtain S1 S' where s: "(case enc of None \<Rightarrow> insert_top d b e | Some p \<Rightarrow> insert_below d p b e) = Some (?k, S1)"
    "set_parents (sp_children (S1 ! ?k)) (Some ?k) S1 = Some S'" "inserted L (spans d) b e enc S'" by blast
  have p: "sp_parent (S' ! ?k) = enc" "exact S' b e ?k" "same_bounds L (spans d) S'" "length S' = Suc ?k"
    using s(3) by (auto simp: inserted_def exact_def)
  let ?d = "d\<lparr>leaves := move_leaves b e enc (Some ?k) (leaves d), spans := S'\<rparr>"
  have "\<not> (case enc of None \<Rightarrow> False | Some p \<Rightarrow> beg (spans d) p = b \<and> fin (spans d) p = e)"
    using enc nx(1) by (auto simp: smallest_def exact_def split: option.splits)
  then have "Insert b e d = Some (Some ?k, ?d)" using E s(1,2) p(1) by (simp add: Insert_def)
  moreover have "insert_spec L d b e (Some ?k) ?d"
    using nx inserted_inv [OF inv be enc ap s(3)] p be by (auto simp: insert_spec_def)
  ultimately show ?thesis by blast
qed

lemma Insert_correct:
  assumes inv: "span_inv L d" and be: "b < e" "e \<le> length (leaves d)"
  shows "\<exists>r d'. Insert b e d = Some (r, d') \<and> insert_spec L d b e r d'"
proof -
  obtain enc c where E: "EnclosingSpan d b e = Some (enc, c)" "enclosing_spec L (spans d) b e (enc, c)"
    using EnclosingSpan_correct [OF assms] by auto
  then consider "c" "\<exists>j\<in>L. crosses b e (beg (spans d) j) (fin (spans d) j)"
    | i where "\<not> c" "i \<in> L" "enc = Some i" "exact (spans d) b e i"
    | "\<not> c" "smallest L (spans d) (covers (spans d) b e) enc" "apart L (spans d) b e {b..<e}"
    by (auto simp: enclosing_spec_def exact_def)
  then show ?thesis
  proof cases
    case 1
    then show ?thesis using E(1) by (auto simp: Insert_def insert_spec_def)
  next
    case 2
    moreover have "\<not> crosses b e (beg (spans d) j) (fin (spans d) j)" if "j \<in> L" for j
      using exact_no_crossing [OF span_invD(1) [OF inv] 2(2) _ _ that] 2(4) by (simp add: exact_def)
    ultimately show ?thesis using E(1) by (auto simp: Insert_def insert_spec_def exact_def)
  next
    case 3
    then show ?thesis using insert_spec_new [OF inv be 3(2,3)] E(1) by simp
  qed
qed

lemma parent_shrinks:
  assumes "laminar L S n" "\<forall>i\<in>L. smallest L S (above S i) (sp_parent (S ! i))" "i \<in> L"
    and "sp_parent (S ! i) = Some k"
  shows "n - (fin S k - beg S k) < n - (fin S i - beg S i)"
proof -
  note k = parent_live [OF assms(2-4)]
  have c: "k \<noteq> i" "beg S k \<le> beg S i" "fin S i \<le> fin S k" using k(2) by (auto simp: above_def covers_def)
  then have "beg S k < beg S i \<or> fin S i < fin S k"
    using laminarD(5) [OF assms(1,3) k(1)] by (metis le_neq_implies_less)
  then show ?thesis using c laminarD(2,3) [OF assms(1,3)] laminarD(2,3) [OF assms(1) k(1)] by linarith
qed

lemma get_span_climb_correct:
  assumes inv: "laminar L S n" "\<forall>i\<in>L. smallest L S (above S i) (sp_parent (S ! i))"
    and s: "case s of None \<Rightarrow> \<forall>j\<in>L. \<not> exact S b e j
      | Some i \<Rightarrow> i \<in> L \<and> (\<forall>j\<in>L. exact S b e j \<longrightarrow> covers S (beg S i) (fin S i) j)"
  shows "\<exists>r. get_span_climb s S b e = Some r \<and> (\<forall>i. r = Some i \<longleftrightarrow> i \<in> L \<and> exact S b e i)"
  using s
proof (induction "case s of None \<Rightarrow> 0 | Some i \<Rightarrow> Suc (n - (fin S i - beg S i))" arbitrary: s rule: less_induct)
  case less
  show ?case
  proof (cases s)
    case None
    then show ?thesis using less.prems by (subst get_span_climb.simps) auto
  next
    case (Some i)
    then have i: "i \<in> L" "\<And>j. j \<in> L \<Longrightarrow> exact S b e j \<Longrightarrow> covers S (beg S i) (fin S i) j" using less.prems by auto
    note li = laminarD [OF inv(1) i(1)] and at = span_at_live [OF inv(1) i(1)]
    show ?thesis
    proof (cases "exact S b e i")
      case True
      have "i = j" if "j \<in> L" "exact S b e j" for j
        using laminarD(5) [OF inv(1) i(1) that(1)] True that(2) by (simp add: exact_def)
      then have "\<forall>j. Some i = Some j \<longleftrightarrow> j \<in> L \<and> exact S b e j" using i(1) True by blast
      then show ?thesis using True at Some by (subst get_span_climb.simps) (auto simp: exact_def)
    next
      case False
      let ?p = "sp_parent (S ! i)"
      have p: "smallest L S (above S i) ?p" using inv(2) i(1) by blast
      have ex: "above S i j" if "j \<in> L" "exact S b e j" for j using i(2) [OF that] False that(2) by (auto simp: above_def)
      have nx: "case ?p of None \<Rightarrow> \<forall>j\<in>L. \<not> exact S b e j
        | Some i \<Rightarrow> i \<in> L \<and> (\<forall>j\<in>L. exact S b e j \<longrightarrow> covers S (beg S i) (fin S i) j)"
        using p ex by (auto simp: smallest_def split: option.splits)
      have "(case ?p of None \<Rightarrow> 0 | Some i \<Rightarrow> Suc (n - (fin S i - beg S i))) < (case s of None \<Rightarrow> 0 | Some i \<Rightarrow> Suc (n - (fin S i - beg S i)))"
        using parent_shrinks [OF inv i(1)] Some by (auto split: option.splits)
      from less.hyps [OF this nx] show ?thesis
        using False at Some by (subst get_span_climb.simps) (auto simp: exact_def)
    qed
  qed
qed

lemma GetSpan_correct:
  assumes "span_inv L d" "b < length (leaves d)"
  shows "\<exists>r. GetSpan b e d = Some r \<and> (\<forall>i. r = Some i \<longleftrightarrow> i \<in> L \<and> exact (spans d) b e i)"
proof -
  let ?S = "spans d"
  have l: "smallest L ?S (holds ?S b) (leaves d ! b)" using span_invD(3) [OF assms(1)] assms(2) by blast
  have h: "holds ?S b j" if "j \<in> L" "exact ?S b e j" for j
    using laminarD(2) [OF span_invD(1) [OF assms(1)] that(1)] that(2) by (auto simp: exact_def holds_def)
  have "case leaves d ! b of None \<Rightarrow> \<forall>j\<in>L. \<not> exact ?S b e j
      | Some i \<Rightarrow> i \<in> L \<and> (\<forall>j\<in>L. exact ?S b e j \<longrightarrow> covers ?S (beg ?S i) (fin ?S i) j)"
    using l h by (auto simp: smallest_def split: option.splits)
  from get_span_climb_correct [OF span_invD(1,2) [OF assms(1)] this] show ?thesis using assms(2) by (simp add: GetSpan_def)
qed

subsection \<open>Removal\<close>

lemma smallest_remove:
  assumes "smallest L S P r" "same_bounds (L - {i}) S S'" "\<And>j. j \<in> L - {i} \<Longrightarrow> P' j \<longleftrightarrow> P j" "r \<noteq> Some i"
  shows "smallest (L - {i}) S' P' r"
  using assms by (cases r) (auto simp: smallest_def same_bounds_def covers_def)

text \<open>When the smallest span with an upward closed property is removed, its parent becomes the smallest one.\<close>

lemma smallest_lift:
  assumes lam: "laminar L S n" and par: "smallest L S (above S i) p" and "smallest L S P (Some i)"
    and up: "\<And>j. j \<in> L \<Longrightarrow> above S i j \<Longrightarrow> P j"
    and sb: "same_bounds (L - {i}) S S'" "\<And>j. j \<in> L - {i} \<Longrightarrow> P' j \<longleftrightarrow> P j"
  shows "smallest (L - {i}) S' P' p"
proof -
  note i = smallest_SomeD [OF assms(3)]
  have ab: "above S i j" if "j \<in> L - {i}" "P j" for j using i(3) [of j] that by (auto simp: above_def)
  show ?thesis
  proof (cases p)
    case None
    then show ?thesis using par ab sb(2) by (auto simp: smallest_def)
  next
    case (Some q)
    note q = smallest_SomeD [OF par [unfolded Some]]
    have qi: "q \<in> L - {i}" using q(1,2) by (auto simp: above_def)
    have "covers S' (beg S' q) (fin S' q) j" if "j \<in> L - {i}" "P j" for j
      using q(3) [of j] ab [OF that] that qi sb(1) by (auto simp: same_bounds_def covers_def)
    then show ?thesis using Some qi up [OF q(1,2)] sb(2) by (auto simp: smallest_def)
  qed
qed

lemma laminar_remove:
  assumes "laminar L S n" "same_bounds (L - {i}) S S'" "length S' = length S"
  shows "laminar (L - {i}) S' n"
  using assms unfolding laminar_def same_bounds_def by auto

definition removed :: "nat set \<Rightarrow> Span list \<Rightarrow> nat \<Rightarrow> Span list \<Rightarrow> bool" where
  "removed L S i S' \<longleftrightarrow>
     length S' = length S \<and> same_bounds (L - {i}) S S' \<and>
     (\<forall>j\<in>L - {i}. sp_parent (S' ! j) = (if sp_parent (S ! j) = Some i then sp_parent (S ! i) else sp_parent (S ! j))) \<and>
     (\<forall>j\<in>L - {i}. \<exists>xs. linked S' (sp_children (S' ! j)) xs \<and> child_list (L - {i}) S' (Some j) xs)"

lemma removed_inv:
  assumes inv: "span_inv L d" and i: "i \<in> L" and rem: "removed L (spans d) i S'"
  shows "span_inv (L - {i}) (d\<lparr>leaves := move_leaves (beg (spans d) i) (fin (spans d) i) (Some i)
      (sp_parent (spans d ! i)) (leaves d), spans := S'\<rparr>)"
proof -
  let ?S = "spans d" and ?ls = "move_leaves (beg (spans d) i) (fin (spans d) i) (Some i) (sp_parent (spans d ! i)) (leaves d)"
  note lam = span_invD(1) [OF inv] and par = span_invD(2) [OF inv]
  have r: "length S' = length ?S" "same_bounds (L - {i}) ?S S'"
    "\<And>j. j \<in> L - {i} \<Longrightarrow> sp_parent (S' ! j) = (if sp_parent (?S ! j) = Some i then sp_parent (?S ! i) else sp_parent (?S ! j))"
    "\<forall>j\<in>L - {i}. \<exists>xs. linked S' (sp_children (S' ! j)) xs \<and> child_list (L - {i}) S' (Some j) xs"
    using rem unfolding removed_def by blast+
  have be: "beg ?S i \<le> fin ?S i" "fin ?S i \<le> length (leaves d)" using laminarD(2,3) [OF lam i] by auto
  have pi: "smallest L ?S (above ?S i) (sp_parent (?S ! i))" using par i by blast
  have "smallest (L - {i}) S' (above S' j) (sp_parent (S' ! j))" if j: "j \<in> L - {i}" for j
  proof -
    have pj: "smallest L ?S (above ?S j) (sp_parent (?S ! j))" using par j by blast
    have ab: "above S' j m \<longleftrightarrow> above ?S j m" if "m \<in> L - {i}" for m
      using that j r(2) by (auto simp: above_def same_bounds_def covers_def)
    show ?thesis
    proof (cases "sp_parent (?S ! j) = Some i")
      case True
      have "above ?S j i" using smallest_SomeD(2) [OF pj [unfolded True]] .
      then have "above ?S j m" if "m \<in> L" "above ?S i m" for m
        using that covers_antisym [OF lam i, of j] j by (auto simp: above_def covers_def)
      from smallest_lift [OF lam pi pj [unfolded True] this r(2) ab] show ?thesis using r(3) [OF j] True by simp
    next
      case False
      then show ?thesis using smallest_remove [OF pj r(2) ab False] r(3) [OF j] by simp
    qed
  qed
  moreover have "smallest (L - {i}) S' (holds S' t) (?ls ! t)" if t: "t < length (leaves d)" for t
  proof -
    have lt: "smallest L ?S (holds ?S t) (leaves d ! t)" using span_invD(3) [OF inv] t by blast
    have h: "holds S' t m \<longleftrightarrow> holds ?S t m" if "m \<in> L - {i}" for m
      using that r(2) by (auto simp: holds_def same_bounds_def)
    show ?thesis
    proof (cases "leaves d ! t = Some i")
      case True
      have hi: "holds ?S t i" using smallest_SomeD(2) [OF lt [unfolded True]] .
      then have "holds ?S t m" if "m \<in> L" "above ?S i m" for m using that by (auto simp: holds_def above_def covers_def)
      note sm = smallest_lift [OF lam pi lt [unfolded True] this r(2) h]
      have "?ls ! t = sp_parent (?S ! i)" using True hi t be by (simp add: move_leaves_nth holds_def)
      then show ?thesis using sm by (simp only:)
    next
      case False
      then show ?thesis using smallest_remove [OF lt r(2) h False] t be by (simp add: move_leaves_nth)
    qed
  qed
  ultimately show ?thesis using laminar_remove [OF lam r(2,1)] r(4) be by (simp add: span_inv_def)
qed

lemma remove_chain:
  assumes xs: "linked S1 (sp_children (S1 ! p)) (A @ i # C)" and ks: "linked S1 (sp_children (S1 ! i)) ks"
    and dist: "distinct (A @ i # C)" "distinct ks" "set ks \<inter> set (A @ i # C) = {}"
    and len: "set (A @ i # C) \<subseteq> {..<length S1}" "set ks \<subseteq> {..<length S1}" "p < length S1"
    and S2: "S2 = (case last_of A of None \<Rightarrow> set_children v p S1 | Some q \<Rightarrow> set_sibling v q S1)"
    and v: "v = (if ks = [] then sp_sibling (S1 ! i) else sp_children (S1 ! i))"
    and S3: "S3 = (case last_of ks of None \<Rightarrow> S2 | Some c \<Rightarrow> set_sibling (sp_sibling (S1 ! i)) c S2)"
  shows "linked S3 (sp_children (S3 ! p)) (A @ ks @ C)"
    "x \<notin> set A \<Longrightarrow> x \<notin> set ks \<Longrightarrow> sp_sibling (S3 ! x) = sp_sibling (S1 ! x)"
    "x \<noteq> p \<Longrightarrow> sp_children (S3 ! x) = sp_children (S1 ! x)"
    "length S3 = length S1" "beg S3 x = beg S1 x" "fin S3 x = fin S1 x" "sp_parent (S3 ! x) = sp_parent (S1 ! x)"
proof -
  have la: "A \<noteq> [] \<Longrightarrow> last A \<in> set A \<and> last A < length S1" "ks \<noteq> [] \<Longrightarrow> last ks \<in> set ks \<and> last ks < length S1"
    using subsetD [OF len(1), of "last A"] subsetD [OF len(2) last_in_set] by auto
  have seg: "segment S1 A (Some i)" "sp_sibling (S1 ! i) = first_of C" "segment S1 C None" "sp_children (S1 ! p) = first_of (A @ i # C)"
    using xs by (auto simp: linked_segment segment_append first_of_def)
  have segk: "segment S1 ks None" "sp_children (S1 ! i) = first_of ks" using ks by (auto simp: linked_segment)
  have v': "v = first_of (ks @ C)" using v seg(2) segk(2) by (auto simp: first_of_def)
  have sib: "sp_sibling (S3 ! x) = (if ks \<noteq> [] \<and> x = last ks then first_of C
      else if A \<noteq> [] \<and> x = last A then v else sp_sibling (S1 ! x))" for x
    using la seg(2) by (auto simp: S3 S2 last_of_def)
  have ch: "sp_children (S3 ! x) = (if A = [] \<and> x = p then v else sp_children (S1 ! x))" for x
    using len(3) by (auto simp: S3 S2 last_of_def)
  have d: "x \<notin> set ks" if "x \<in> set A \<or> x \<in> set C" for x using dist(3) that by (auto simp: disjoint_iff)
  have dA: "x \<notin> set C" if "x \<in> set A" for x using dist(1) that by (auto simp: disjoint_iff)
  have nl: "ks \<noteq> [] \<Longrightarrow> last ks \<notin> set A \<and> last ks \<notin> set C" "A \<noteq> [] \<Longrightarrow> last A \<notin> set ks \<and> last A \<notin> set C"
    using d dA la by blast+
  have segA: "segment S3 A v"
  proof (cases "A = []")
    case False
    have "segment (set_sibling v (last A) S1) A v"
      by (rule segment_set_last [OF seg(1)]) (use False dist la in auto)
    then show ?thesis by (rule segment_cong [THEN iffD2, rotated]) (use False nl la in \<open>auto simp: sib\<close>)
  qed simp
  have segK: "segment S3 ks (first_of C)"
  proof (cases "ks = []")
    case False
    have "segment (set_sibling (first_of C) (last ks) S1) ks (first_of C)"
      by (rule segment_set_last [OF segk(1)]) (use False dist la in auto)
    then show ?thesis by (rule segment_cong [THEN iffD2, rotated]) (use False nl la in \<open>auto simp: sib\<close>)
  qed simp
  have segC: "segment S3 C None"
    by (rule segment_cong [THEN iffD2, rotated, OF seg(3)]) (use nl in \<open>auto simp: sib\<close>)
  have f: "first_of C = (if C = [] then None else Some (hd C))" "v = (if ks @ C = [] then None else Some (hd (ks @ C)))"
    by (simp_all add: v' first_of_def)
  have "sp_children (S3 ! p) = first_of (A @ ks @ C)" using seg(4) f(2) by (auto simp: ch first_of_def)
  then show "linked S3 (sp_children (S3 ! p)) (A @ ks @ C)"
    using segA segK segC unfolding f by (simp only: linked_segment segment_append simp_thms)
  show "sp_sibling (S3 ! x) = sp_sibling (S1 ! x)" if "x \<notin> set A" "x \<notin> set ks" using that la by (auto simp: sib)
  show "sp_children (S3 ! x) = sp_children (S1 ! x)" if "x \<noteq> p" using that by (simp add: ch)
  show "length S3 = length S1" "beg S3 x = beg S1 x" "fin S3 x = fin S1 x" "sp_parent (S3 ! x) = sp_parent (S1 ! x)"
    by (auto simp: S3 S2 split: option.split)
qed

lemma remove_top_correct:
  assumes inv: "span_inv L d" and i: "i \<in> L" and top: "sp_parent (spans d ! i) = None"
    and ks: "set ks = {x \<in> L. sp_parent (spans d ! x) = Some i}" and rp: "reparented None (set ks) (spans d) S1"
  shows "removed L (spans d) i S1"
proof -
  let ?S = "spans d"
  note lam = span_invD(1) [OF inv]
  have f: "sp_begin (S1 ! x) = beg ?S x" "sp_end (S1 ! x) = fin ?S x" "sp_sibling (S1 ! x) = sp_sibling (?S ! x)"
    "sp_children (S1 ! x) = sp_children (?S ! x)" "sp_parent (S1 ! x) = (if x \<in> set ks then None else sp_parent (?S ! x))"
    if "x \<in> L" for x using reparentedD [OF rp laminarD(1) [OF lam that]] by auto
  have "\<exists>xs. linked S1 (sp_children (S1 ! j)) xs \<and> child_list (L - {i}) S1 (Some j) xs" if j: "j \<in> L - {i}" for j
    by (rule other_children [OF inv]) (use f j ks top in \<open>auto split: if_splits\<close>)
  then show ?thesis using rp f ks top by (auto simp: removed_def same_bounds_def reparented_def)
qed

lemma Remove_below:
  assumes inv: "span_inv L d" and i: "i \<in> L" and p: "sp_parent (spans d ! i) = Some p"
  shows "\<exists>S'. Remove i d = Some (d\<lparr>leaves := move_leaves (beg (spans d) i) (fin (spans d) i) (Some i)
      (sp_parent (spans d ! i)) (leaves d), spans := S'\<rparr>) \<and> removed L (spans d) i S'"
proof -
  let ?S = "spans d"
  note lam = span_invD(1) [OF inv] and par = span_invD(2) [OF inv]
  note pl = parent_live [OF par i p]
  obtain ks where ks: "linked ?S (sp_children (?S ! i)) ks" "set ks = {x \<in> L. sp_parent (?S ! x) = Some i}" "in_order ?S ks"
    using span_invD(4) [OF inv i] by (auto simp: child_list_def)
  obtain xs where xs: "linked ?S (sp_children (?S ! p)) xs" "set xs = {x \<in> L. sp_parent (?S ! x) = Some p}" "in_order ?S xs"
    using span_invD(4) [OF inv pl(1)] by (auto simp: child_list_def)
  obtain A C where AC: "xs = A @ i # C" using xs(2) i p by (metis (mono_tags, lifting) mem_Collect_eq split_list)
  have old: "x < length ?S" "beg ?S x < fin ?S x" if "x \<in> L" for x using laminarD(1,2) [OF lam that] by auto
  have sub: "set ks \<subseteq> {..<length ?S}" "set xs \<subseteq> {..<length ?S}" using ks(2) xs(2) old by auto
  obtain S1 where S1: "lift_children (sp_children (?S ! i)) (Some p) None ?S = Some (last_of ks, S1)"
    "reparented (Some p) (set ks) ?S S1"
    using lift_children_correct [OF ks(1) sub(1), of "Some p" None] by (auto simp: last_of_def)
  have len1: "length S1 = length ?S" using S1(2) by (simp add: reparented_def)
  note rp = reparentedD [OF S1(2)]
  have pi: "p \<noteq> i" "p < length ?S" "i < length ?S" using pl old i by (auto simp: above_def)
  have l1: "linked S1 (sp_children (S1 ! p)) (A @ i # C)"
    using xs(1) rp(3,4) pi sub(2) by (subst linked_cong [of "A @ i # C" _ ?S]) (auto simp: AC)
  have l2: "linked S1 (sp_children (S1 ! i)) ks"
    using ks(1) rp(3,4) pi sub(1) by (subst linked_cong [of ks _ ?S]) auto
  have dist: "distinct (A @ i # C)" "distinct ks"
    using in_order_distinct [OF xs(3)] in_order_distinct [OF ks(3)] xs(2) ks(2) old(2) by (auto simp: AC)
  have disj: "set ks \<inter> set (A @ i # C) = {}" using xs(2) ks(2) pi(1) unfolding AC by (auto simp: disjoint_iff)
  define v where "v = (if ks = [] then sp_sibling (S1 ! i) else sp_children (S1 ! i))"
  define S2 where "S2 = (case last_of A of None \<Rightarrow> set_children v p S1 | Some q \<Rightarrow> set_sibling v q S1)"
  define S3 where "S3 = (case last_of ks of None \<Rightarrow> S2 | Some c \<Rightarrow> set_sibling (sp_sibling (S1 ! i)) c S2)"
  have sub': "set (A @ i # C) \<subseteq> {..<length S1}" "set ks \<subseteq> {..<length S1}" "p < length S1"
    using sub pi len1 by (auto simp: AC)
  note ch = remove_chain [OF l1 l2 dist disj sub' S2_def v_def S3_def]
  have "find_link S1 i None (sp_children (S1 ! p)) = Some (last_of A)"
    using find_link_correct [OF l1, of None] dist sub' by (auto simp: last_of_def)
  then have R: "Remove i d = Some (d\<lparr>leaves := move_leaves (beg ?S i) (fin ?S i) (Some i) (sp_parent (?S ! i)) (leaves d),
      spans := S3\<rparr>)"
    using S1(1) p pi len1 rp(3,4) [of i]
    by (cases "ks = []") (simp_all add: Remove_def span_at_def Let_def S3_def S2_def v_def last_of_def split: option.split)
  have f: "beg S3 x = beg ?S x" "fin S3 x = fin ?S x" "sp_parent (S3 ! x) = (if x \<in> set ks then Some p else sp_parent (?S ! x))"
    if "x \<in> L" for x using ch(5-7) [of x] rp(1,2,5) [OF old(1) [OF that]] by auto
  have "\<exists>ys. linked S3 (sp_children (S3 ! j)) ys \<and> child_list (L - {i}) S3 (Some j) ys" if j: "j \<in> L - {i}" for j
  proof (cases "j = p")
    case True
    have within: "beg ?S i \<le> beg ?S x" "fin ?S x \<le> fin ?S i" if "x \<in> set ks" for x
      using parent_live(2) [OF par, of x i] that ks(2) by (auto simp: above_def covers_def)
    have "in_order ?S (A @ ks @ C)"
      using xs(3) ks(3) within by (fastforce simp: AC in_order_def sorted_wrt_append)
    then have "in_order S3 (A @ ks @ C)"
      using in_order_cong [of "A @ ks @ C" S3 ?S] f xs(2) ks(2) unfolding AC by auto
    moreover have "set (A @ ks @ C) = {x \<in> L - {i}. sp_parent (S3 ! x) = Some p}"
    proof -
      have "set (A @ ks @ C) = (set xs - {i}) \<union> set ks" using dist(1) by (auto simp: AC)
      moreover have "i \<notin> set ks" using ks(2) p pi(1) by simp
      ultimately show ?thesis using xs(2) ks(2) f(3) by (auto split: if_splits)
    qed
    ultimately show ?thesis using ch(1) True by (auto simp: child_list_def)
  next
    case False
    show ?thesis
    proof (rule other_children [OF inv])
      show "j \<in> L" using j by simp
      show "sp_sibling (S3 ! x) = sp_sibling (?S ! x)" if "x \<in> L" "sp_parent (?S ! x) = Some j" for x
      proof -
        have "x \<notin> set xs" "x \<notin> set ks" using that xs(2) ks(2) False j by auto
        then show ?thesis using ch(2) [of x] rp(3) [OF old(1) [OF that(1)]] by (simp add: AC)
      qed
      show "sp_children (S3 ! j) = sp_children (?S ! j)" using ch(3) [OF False] rp(4) [of j] old(1) [of j] j by simp
      show "beg S3 x = beg ?S x \<and> fin S3 x = fin ?S x" if "x \<in> L" for x using f that by simp
      show "{x \<in> L - {i}. sp_parent (S3 ! x) = Some j} = {x \<in> L. sp_parent (?S ! x) = Some j}"
        using f(3) ks(2) False j p by (auto split: if_splits)
    qed
  qed
  then have "removed L ?S i S3"
    using ch(4) len1 f ks(2) p by (auto simp: removed_def same_bounds_def)
  then show ?thesis using R by blast
qed

lemma Remove_correct:
  assumes inv: "span_inv L d" and i: "i \<in> L"
  shows "\<exists>d'. Remove i d = Some d' \<and> span_inv (L - {i}) d' \<and> length (leaves d') = length (leaves d) \<and>
    length (spans d') = length (spans d) \<and> same_bounds (L - {i}) (spans d) (spans d')"
proof -
  let ?S = "spans d"
  note li = laminarD [OF span_invD(1) [OF inv] i]
  have "\<exists>S'. Remove i d = Some (d\<lparr>leaves := move_leaves (beg ?S i) (fin ?S i) (Some i) (sp_parent (?S ! i)) (leaves d),
      spans := S'\<rparr>) \<and> removed L ?S i S'"
  proof (cases "sp_parent (?S ! i)")
    case None
    obtain ks where ks: "linked ?S (sp_children (?S ! i)) ks" "set ks = {x \<in> L. sp_parent (?S ! x) = Some i}"
      using span_invD(4) [OF inv i] by (auto simp: child_list_def)
    have "set ks \<subseteq> {..<length ?S}" using ks(2) laminarD(1) [OF span_invD(1) [OF inv]] by auto
    from lift_children_correct [OF ks(1) this, of None None] obtain S1 l where
      "lift_children (sp_children (?S ! i)) None None ?S = Some (l, S1)" "reparented None (set ks) ?S S1" by blast
    then show ?thesis
      using remove_top_correct [OF inv i None ks(2)] None li(1)
      by (intro exI [of _ S1]) (simp add: Remove_def span_at_def Let_def)
  qed (use Remove_below [OF inv i] in blast)
  then obtain S' where S': "Remove i d = Some (d\<lparr>leaves := move_leaves (beg ?S i) (fin ?S i) (Some i) (sp_parent (?S ! i))
      (leaves d), spans := S'\<rparr>)" "removed L ?S i S'" by blast
  then show ?thesis using removed_inv [OF inv i S'(2)] li by (simp add: removed_def)
qed

section \<open>The span index as a family of intervals\<close>

text \<open>
  The abstract view: a document of \<open>n\<close> tokens has a set of intervals, none of which cross. \<open>rep\<close> relates a
  document to its intervals; the locale says what the operations on a document do to them.
\<close>

definition crossing_in :: "(nat \<times> nat) set \<Rightarrow> nat \<Rightarrow> nat \<Rightarrow> bool" where
  "crossing_in F b e \<longleftrightarrow> (\<exists>(b', e')\<in>F. crosses b e b' e')"

datatype span_op = AddOp nat nat | DeleteOp nat nat | FindOp nat nat

fun op_in_range :: "nat \<Rightarrow> span_op \<Rightarrow> bool" where
  "op_in_range n (AddOp b e) \<longleftrightarrow> b < e \<and> e \<le> n"
| "op_in_range n (DeleteOp b e) \<longleftrightarrow> b < n"
| "op_in_range n (FindOp b e) \<longleftrightarrow> b < n"

fun spec_step :: "(nat \<times> nat) set \<Rightarrow> span_op \<Rightarrow> bool \<times> (nat \<times> nat) set" where
  "spec_step F (AddOp b e) = (if crossing_in F b e then (False, F) else (True, insert (b, e) F))"
| "spec_step F (DeleteOp b e) = ((b, e) \<in> F, F - {(b, e)})"
| "spec_step F (FindOp b e) = ((b, e) \<in> F, F)"

fun spec_run :: "(nat \<times> nat) set \<Rightarrow> span_op list \<Rightarrow> bool list \<times> (nat \<times> nat) set" where
  "spec_run F [] = ([], F)"
| "spec_run F (a # as) = (let (r, F) = spec_step F a; (rs, F) = spec_run F as in (r # rs, F))"

fun run_ops :: "(span_op \<Rightarrow> 'd \<Rightarrow> (bool \<times> 'd) option) \<Rightarrow> span_op list \<Rightarrow> 'd \<Rightarrow> (bool list \<times> 'd) option" where
  "run_ops step [] d = Some ([], d)"
| "run_ops step (a # as) d =
     do { (r, d) \<leftarrow> step a d;
          (rs, d) \<leftarrow> run_ops step as d;
          Some (r # rs, d) }"

locale span_family =
  fixes rep :: "'d \<Rightarrow> (nat \<times> nat) set \<Rightarrow> bool" and n :: nat
    and step :: "span_op \<Rightarrow> 'd \<Rightarrow> (bool \<times> 'd) option"
  assumes step_refines: "rep d F \<Longrightarrow> op_in_range n a \<Longrightarrow> \<exists>d'. step a d = Some (fst (spec_step F a), d') \<and> rep d' (snd (spec_step F a))"
begin

lemma run_refines:
  "rep d F \<Longrightarrow> list_all (op_in_range n) as \<Longrightarrow>
    \<exists>d'. run_ops step as d = Some (fst (spec_run F as), d') \<and> rep d' (snd (spec_run F as))"
proof (induction as arbitrary: d F)
  case (Cons a as)
  obtain d1 where d1: "step a d = Some (fst (spec_step F a), d1)" "rep d1 (snd (spec_step F a))"
    using step_refines [OF Cons.prems(1)] Cons.prems(2) by auto
  obtain d2 where "run_ops step as d1 = Some (fst (spec_run (snd (spec_step F a)) as), d2)"
    "rep d2 (snd (spec_run (snd (spec_step F a)) as))"
    using Cons.IH [OF d1(2)] Cons.prems(2) by auto
  then show ?case using d1(1) by (simp add: Let_def case_prod_unfold)
qed simp

end

text \<open>The operations of a document: \<open>AddSpan\<close> inserts, \<open>DeleteSpan\<close> removes the span that \<open>GetSpan\<close> finds.\<close>

fun span_step :: "span_op \<Rightarrow> span_index \<Rightarrow> (bool \<times> span_index) option" where
  "span_step (AddOp b e) d = do { (r, d) \<leftarrow> Insert b e d; Some (r \<noteq> None, d) }"
| "span_step (DeleteOp b e) d =
     do { s \<leftarrow> GetSpan b e d;
          case s of None \<Rightarrow> Some (False, d) | Some p \<Rightarrow> do { d \<leftarrow> Remove p d; Some (True, d) } }"
| "span_step (FindOp b e) d = do { s \<leftarrow> GetSpan b e d; Some (s \<noteq> None, d) }"

definition intervals :: "nat set \<Rightarrow> Span list \<Rightarrow> (nat \<times> nat) set" where
  "intervals L S = (\<lambda>i. (beg S i, fin S i)) ` L"

definition span_rep :: "nat \<Rightarrow> span_index \<Rightarrow> (nat \<times> nat) set \<Rightarrow> bool" where
  "span_rep n d F \<longleftrightarrow> length (leaves d) = n \<and> (\<exists>L. span_inv L d \<and> F = intervals L (spans d))"

lemma intervals_cong: "same_bounds L S S' \<Longrightarrow> intervals L S' = intervals L S"
  by (auto simp: intervals_def same_bounds_def)

lemma in_intervals: "(b, e) \<in> intervals L S \<longleftrightarrow> (\<exists>i\<in>L. exact S b e i)"
  by (auto simp: intervals_def exact_def)

lemma crossing_intervals: "crossing_in (intervals L S) b e \<longleftrightarrow> (\<exists>j\<in>L. crosses b e (beg S j) (fin S j))"
  by (auto simp: crossing_in_def intervals_def)

lemma add_refines:
  assumes "span_rep n d F" "b < e" "e \<le> n"
  shows "\<exists>d'. span_step (AddOp b e) d = Some (fst (spec_step F (AddOp b e)), d') \<and> span_rep n d' (snd (spec_step F (AddOp b e)))"
proof -
  obtain L where L: "length (leaves d) = n" "span_inv L d" "F = intervals L (spans d)" using assms(1) by (auto simp: span_rep_def)
  obtain r d' where r: "Insert b e d = Some (r, d')" "insert_spec L d b e r d'"
    using Insert_correct [OF L(2) assms(2)] assms(3) L(1) by auto
  let ?k = "length (spans d)"
  consider "crossing_in F b e" "r = None" "d' = d"
    | "\<not> crossing_in F b e" "(b, e) \<in> F" "r \<noteq> None" "d' = d"
    | "\<not> crossing_in F b e" "r \<noteq> None" "span_inv (insert ?k L) d'" "length (leaves d') = n" "exact (spans d') b e ?k"
      "same_bounds L (spans d) (spans d')"
    using r(2) L(1,3) by (auto simp: insert_spec_def in_intervals crossing_intervals split: if_splits)
  then show ?thesis
  proof cases
    case 3
    have "intervals (insert ?k L) (spans d') = insert (b, e) F"
      using 3(5) intervals_cong [OF 3(6)] L(3) by (auto simp: intervals_def exact_def)
    then show ?thesis using 3 r(1) by (auto simp: span_rep_def)
  qed (use assms(1) r(1) in \<open>auto simp: insert_absorb\<close>)
qed

lemma find_refines:
  assumes "span_inv L d" "b < length (leaves d)"
  obtains i where "GetSpan b e d = Some (Some i)" "i \<in> L" "exact (spans d) b e i"
  | "GetSpan b e d = Some None" "(b, e) \<notin> intervals L (spans d)"
proof -
  obtain r where r: "GetSpan b e d = Some r" "\<And>i. r = Some i \<longleftrightarrow> i \<in> L \<and> exact (spans d) b e i"
    using GetSpan_correct [OF assms] by blast
  show ?thesis
  proof (cases r)
    case None
    then show ?thesis using r that(2) by (auto simp: in_intervals)
  next
    case (Some i)
    then show ?thesis using r that(1) [of i] by blast
  qed
qed

lemma delete_refines:
  assumes "span_rep n d F" "b < n"
  shows "\<exists>d'. span_step (DeleteOp b e) d = Some ((b, e) \<in> F, d') \<and> span_rep n d' (F - {(b, e)})"
proof -
  obtain L where L: "length (leaves d) = n" "span_inv L d" "F = intervals L (spans d)" using assms(1) by (auto simp: span_rep_def)
  have "b < length (leaves d)" using assms(2) L(1) by simp
  with L(2) show ?thesis
  proof (cases rule: find_refines [where e = e])
    case (1 i)
    obtain d' where d': "Remove i d = Some d'" "span_inv (L - {i}) d'" "length (leaves d') = length (leaves d)"
      "same_bounds (L - {i}) (spans d) (spans d')"
      using Remove_correct [OF L(2) 1(2)] by blast
    have "beg (spans d) j = beg (spans d) i \<Longrightarrow> fin (spans d) j = fin (spans d) i \<Longrightarrow> j \<in> L \<Longrightarrow> j = i" for j
      using laminarD(5) [OF span_invD(1) [OF L(2)] _ 1(2), of j] by blast
    then have "intervals (L - {i}) (spans d') = F - {(b, e)}"
      using 1 L(3) intervals_cong [OF d'(4)] by (auto simp: intervals_def exact_def)
    moreover have "(b, e) \<in> F" using 1 L(3) by (auto simp: in_intervals)
    ultimately show ?thesis using 1(1) d' L(1) by (auto simp: span_rep_def)
  next
    case 2
    then show ?thesis using assms(1) L(3) by simp
  qed
qed

interpretation document_spans: span_family "span_rep n" n span_step for n
proof
  fix d F a
  assume a: "span_rep n d F" "op_in_range n a"
  show "\<exists>d'. span_step a d = Some (fst (spec_step F a), d') \<and> span_rep n d' (snd (spec_step F a))"
  proof (cases a)
    case (AddOp b e)
    then show ?thesis using add_refines [OF a(1)] a(2) by simp
  next
    case (DeleteOp b e)
    then show ?thesis using delete_refines [OF a(1)] a(2) by simp
  next
    case (FindOp b e)
    obtain L where L: "length (leaves d) = n" "span_inv L d" "F = intervals L (spans d)" using a(1) by (auto simp: span_rep_def)
    have "b < length (leaves d)" using a(2) FindOp L(1) by simp
    with L(2) show ?thesis
      by (rule find_refines [where e = e]) (use FindOp a(1) L(3) in \<open>auto simp: in_intervals\<close>)
  qed
qed

lemma new_index_rep: "span_rep n (new_index n) {}"
  by (auto simp: span_rep_def span_inv_def new_index_def laminar_def intervals_def smallest_def intro!: exI [of _ "{}"])

section \<open>Properties\<close>






end
