(* ===== verification/Document.thy ===== *)
theory Document
  imports Document_Spans Unicode Fingerprints Handles
begin

text \<open>
  Tokens and phrases of documents (\<^verbatim>\<open>sling/nlp/document/document.h\<close>, \<^verbatim>\<open>document.cc\<close>, \<^verbatim>\<open>fingerprinter.h\<close>,
  \<^verbatim>\<open>fingerprinter.cc\<close>, \<^verbatim>\<open>token-properties.h\<close>). The cached fingerprint and case form of a token are computed
  anew in the model, since they are functions of the word. The slots of the frame of a token are a record with one field
  per name, \<open>None\<close> where the frame has no such slot.
\<close>

section \<open>Tokens\<close>

text \<open>The break levels in the order of \<^verbatim>\<open>BreakType\<close>.\<close>

definition NO_BREAK :: int where "NO_BREAK = 0"
definition SPACE_BREAK :: int where "SPACE_BREAK = 1"
definition LINE_BREAK :: int where "LINE_BREAK = 2"
definition SENTENCE_BREAK :: int where "SENTENCE_BREAK = 3"
definition PARAGRAPH_BREAK :: int where "PARAGRAPH_BREAK = 4"
definition SECTION_BREAK :: int where "SECTION_BREAK = 5"
definition CHAPTER_BREAK :: int where "CHAPTER_BREAK = 6"

record Token =
  tok_begin :: int
  tok_end :: int
  tok_word :: "byte list"
  tok_brk :: int
  tok_style :: int

definition Mix :: "uint64 \<Rightarrow> uint64 \<Rightarrow> uint64" where
  "Mix fp seed = (if seed \<noteq> 1 then FingerprintCat fp seed else fp)"

text \<open>A word is stored with a terminating NUL, which the normalization may read.\<close>

definition word_fingerprint :: "unicode_tables \<Rightarrow> byte list \<Rightarrow> int \<Rightarrow> uint64 option" where
  "word_fingerprint T word normalization =
     map_option (\<lambda>normalized. if normalized = [] then 1 else Fingerprint64 normalized)
       (UTF8_Normalize T (word @ [0]) (int (length word)) normalization)"

definition word_fingerprint_seed :: "unicode_tables \<Rightarrow> byte list \<Rightarrow> uint64 \<Rightarrow> int \<Rightarrow> uint64 option" where
  "word_fingerprint_seed T word seed normalization =
     map_option (\<lambda>fp. if fp = 1 then seed else Mix fp seed) (word_fingerprint T word normalization)"

fun words_loop :: "unicode_tables \<Rightarrow> int \<Rightarrow> uint64 \<Rightarrow> byte list list \<Rightarrow> uint64 option" where
  "words_loop T normalization fp [] = Some fp"
| "words_loop T normalization fp (word # words) =
     do { word_fp \<leftarrow> word_fingerprint T word normalization;
          words_loop T normalization (if word_fp = 1 then fp else Mix word_fp fp) words }"

definition words_fingerprint :: "unicode_tables \<Rightarrow> byte list list \<Rightarrow> int \<Rightarrow> uint64 option" where
  "words_fingerprint T words normalization = words_loop T normalization 1 words"

definition Token_Fingerprint :: "unicode_tables \<Rightarrow> Token \<Rightarrow> uint64 option" where
  "Token_Fingerprint T t = word_fingerprint T (tok_word t) NORMALIZE_DEFAULT"

definition initial_token :: "nat \<Rightarrow> Token \<Rightarrow> bool" where
  "initial_token index t = (index = 0 \<or> SENTENCE_BREAK \<le> tok_brk t)"

definition Token_Form :: "unicode_tables \<Rightarrow> nat \<Rightarrow> Token \<Rightarrow> CaseForm option" where
  "Token_Form T index t =
     map_option (\<lambda>form. if initial_token index t \<and> form = CASE_TITLE then CASE_NONE else form)
       (UTF8_Case T (tok_word t @ [0]) (int (length (tok_word t))))"

definition skipped :: "unicode_tables \<Rightarrow> Token \<Rightarrow> bool option" where
  "skipped T t = map_option (\<lambda>fp. fp = 1) (Token_Fingerprint T t)"

definition AddToken :: "byte list \<Rightarrow> int \<Rightarrow> int \<Rightarrow> int \<Rightarrow> int \<Rightarrow> Token list \<Rightarrow> Token list" where
  "AddToken word b e brk style tokens =
     tokens @ [\<lparr>tok_begin = b, tok_end = e, tok_word = word, tok_brk = brk, tok_style = style\<rparr>]"

section \<open>Phrases\<close>

function locate_loop :: "Token list \<Rightarrow> int \<Rightarrow> nat \<Rightarrow> nat \<Rightarrow> nat" where
  "locate_loop tokens position index len =
     (if 0 < len then
        let width = len div 2; mid = index + width
        in if tok_begin (tokens ! mid) < position
           then locate_loop tokens position (mid + 1) (len - (width + 1))
           else locate_loop tokens position index width
      else index)"
  by pat_completeness auto
termination by (relation "measure (\<lambda>(tokens, position, index, len). len)") auto

declare locate_loop.simps [simp del]

definition Locate :: "Token list \<Rightarrow> int \<Rightarrow> nat" where
  "Locate tokens position = locate_loop tokens position 0 (length tokens)"

fun phrase_fingerprint_loop :: "unicode_tables \<Rightarrow> uint64 \<Rightarrow> Token list \<Rightarrow> uint64 option" where
  "phrase_fingerprint_loop T fp [] = Some fp"
| "phrase_fingerprint_loop T fp (t # ts) =
     do { word_fp \<leftarrow> Token_Fingerprint T t;
          phrase_fingerprint_loop T (if word_fp = 1 then fp else Mix word_fp fp) ts }"

definition PhraseFingerprint :: "unicode_tables \<Rightarrow> Token list \<Rightarrow> nat \<Rightarrow> nat \<Rightarrow> uint64 option" where
  "PhraseFingerprint T tokens b e =
     do { ts \<leftarrow> tokens_between tokens b e; phrase_fingerprint_loop T 1 ts }"

fun phrase_form_loop :: "unicode_tables \<Rightarrow> nat \<Rightarrow> CaseForm \<Rightarrow> Token list \<Rightarrow> CaseForm option" where
  "phrase_form_loop T index form [] = Some form"
| "phrase_form_loop T index form (t # ts) =
     do { skip \<leftarrow> skipped T t;
          if skip then phrase_form_loop T (Suc index) form ts
          else do { token_form \<leftarrow> Token_Form T index t;
                    phrase_form_loop T (Suc index)
                      (if form = CASE_INVALID then token_form
                       else if form \<noteq> token_form then CASE_NONE else form) ts } }"

definition PhraseForm :: "unicode_tables \<Rightarrow> Token list \<Rightarrow> nat \<Rightarrow> nat \<Rightarrow> CaseForm option" where
  "PhraseForm T tokens b e =
     do { ts \<leftarrow> tokens_between tokens b e; phrase_form_loop T b CASE_INVALID ts }"

fun phrase_text_loop :: "bool \<Rightarrow> byte list \<Rightarrow> Token list \<Rightarrow> byte list" where
  "phrase_text_loop first phrase [] = phrase"
| "phrase_text_loop first phrase (t # ts) =
     phrase_text_loop False ((if \<not> first \<and> tok_brk t \<noteq> NO_BREAK then phrase @ [32] else phrase) @ tok_word t) ts"

definition PhraseText :: "Token list \<Rightarrow> nat \<Rightarrow> nat \<Rightarrow> byte list option" where
  "PhraseText tokens b e = map_option (phrase_text_loop True []) (tokens_between tokens b e)"

section \<open>Iteration over the parts of a document\<close>

text \<open>\<open>break_end\<close> is the loop to the end of a part; \<open>next_part\<close> is \<^verbatim>\<open>next\<close>, with \<^verbatim>\<open>begin_\<close> and \<^verbatim>\<open>end_\<close>.\<close>

function break_end :: "Token list \<Rightarrow> int \<Rightarrow> nat \<Rightarrow> nat" where
  "break_end tokens brk e =
     (if e < length tokens \<and> tok_brk (tokens ! e) < brk then break_end tokens brk (Suc e) else e)"
  by pat_completeness auto
termination by (relation "measure (\<lambda>(tokens, brk, e). length tokens - e)") auto

declare break_end.simps [simp del]

lemma break_end_ge: "e \<le> break_end tokens brk e"
proof (induction tokens brk e rule: break_end.induct)
  case (1 tokens brk e)
  then show ?case by (subst break_end.simps) auto
qed

function next_part :: "Token list \<Rightarrow> int \<Rightarrow> int \<Rightarrow> nat \<Rightarrow> nat \<Rightarrow> nat \<times> nat" where
  "next_part tokens brk skip b e =
     (if b < length tokens then
        (let b' = e; e' = Suc e
         in if length tokens \<le> b' then (b', e')
            else let e'' = break_end tokens brk e'
                 in if tok_style (tokens ! b') AND skip = 0 then (b', e'')
                    else next_part tokens brk skip b' e'')
      else (b, e))"
  by pat_completeness auto
termination
proof (relation "measure (\<lambda>(tokens, brk, skip, b, e). length tokens - e)", simp, goal_cases)
  case (1 tokens brk skip b e x xa xb)
  have "Suc e \<le> break_end tokens brk (Suc e)" by (rule break_end_ge)
  then show ?case using 1 by auto
qed

declare next_part.simps [simp del]

definition first_part :: "Token list \<Rightarrow> int \<Rightarrow> int \<Rightarrow> nat \<times> nat" where
  "first_part tokens brk skip = next_part tokens brk skip 0 0"

definition more_parts :: "Token list \<Rightarrow> nat \<times> nat \<Rightarrow> bool" where
  "more_parts tokens part = (fst part < length tokens)"

section \<open>Tokens as frames\<close>

record token_frame =
  n_word :: "byte list option"
  n_start :: "int option"
  n_size :: "int option"
  n_break :: "int option"
  n_style :: "int option"

text \<open>\<open>text_.compare\<close> and \<open>text_.substr\<close> with a start outside of the text throw; the result \<open>None\<close> stands for that.\<close>

definition substr :: "byte list \<Rightarrow> int \<Rightarrow> int \<Rightarrow> byte list option" where
  "substr txt pos n =
     (if pos < 0 \<or> int (length txt) < pos then None
      else if n < 0 then Some (drop (nat pos) txt)
      else Some (take (nat n) (drop (nat pos) txt)))"

definition token_to_frame :: "byte list \<Rightarrow> nat \<Rightarrow> Token \<Rightarrow> token_frame option" where
  "token_to_frame txt i t =
     do { word \<leftarrow> (if tok_begin t \<noteq> -1 \<and> tok_end t \<noteq> -1 then
                     do { s \<leftarrow> substr txt (tok_begin t) (tok_end t - tok_begin t);
                          Some (if s \<noteq> tok_word t then Some (tok_word t) else None) }
                   else Some None);
          Some \<lparr>n_word = word,
                n_start = (if tok_begin t \<noteq> -1 then Some (tok_begin t) else None),
                n_size = (if tok_begin t \<noteq> -1 \<and> tok_end t \<noteq> -1 \<and> tok_end t \<noteq> tok_begin t + 1
                          then Some (tok_end t - tok_begin t) else None),
                n_break = (if tok_brk t \<noteq> (if i = 0 then NO_BREAK else SPACE_BREAK) then Some (tok_brk t) else None),
                n_style = (if tok_style t \<noteq> 0 then Some (tok_style t) else None)\<rparr> }"

definition token_from_frame :: "byte list \<Rightarrow> nat \<Rightarrow> token_frame \<Rightarrow> Token option" where
  "token_from_frame txt i f =
     (let b = (case n_start f of Some s \<Rightarrow> s | None \<Rightarrow> -1);
          e = (case n_start f of Some s \<Rightarrow> s + (case n_size f of None \<Rightarrow> 1 | Some n \<Rightarrow> n) | None \<Rightarrow> -1)
      in do { word \<leftarrow> (case n_word f of
                         Some w \<Rightarrow> Some w
                       | None \<Rightarrow> if b \<noteq> -1 \<and> e \<noteq> -1 then substr txt b (e - b) else Some []);
              Some \<lparr>tok_begin = b, tok_end = e, tok_word = word,
                    tok_brk = (case n_break f of Some x \<Rightarrow> x | None \<Rightarrow> if i = 0 then NO_BREAK else SPACE_BREAK),
                    tok_style = (case n_style f of Some x \<Rightarrow> x | None \<Rightarrow> 0)\<rparr> })"

section \<open>Themes\<close>

definition AddTheme :: "Handle \<Rightarrow> Handle list \<Rightarrow> Handle list" where
  "AddTheme handle themes = themes @ [handle]"

definition RemoveTheme :: "Handle \<Rightarrow> Handle list \<Rightarrow> Handle list" where
  "RemoveTheme handle themes = remove1 handle themes"

end
