(* ===== verification/Document_Properties.thy ===== *)
theory Document_Properties
  imports Document
begin

text \<open>
  Properties of tokens and phrases of documents (\<^verbatim>\<open>sling/nlp/document/document.h\<close> and \<^verbatim>\<open>document.cc\<close>): the binary
  search for a position, the iteration over parts, and tokens in frames.
\<close>

section \<open>Locating a position\<close>

lemma sorted_begin:
  "sorted (map tok_begin tokens) \<Longrightarrow> i \<le> j \<Longrightarrow> j < length tokens \<Longrightarrow> tok_begin (tokens ! i) \<le> tok_begin (tokens ! j)"
  using sorted_nth_mono [of "map tok_begin tokens" i j] by simp

lemma locate_loop_correct:
  "sorted (map tok_begin tokens) \<Longrightarrow> index + len \<le> length tokens \<Longrightarrow> \<forall>i<index. tok_begin (tokens ! i) < position \<Longrightarrow>
    \<forall>i<length tokens. index + len \<le> i \<longrightarrow> position \<le> tok_begin (tokens ! i) \<Longrightarrow>
    locate_loop tokens position index len \<le> length tokens \<and>
    (\<forall>i<length tokens. i < locate_loop tokens position index len \<longleftrightarrow> tok_begin (tokens ! i) < position)"
proof (induction tokens position index len rule: locate_loop.induct)
  case (1 tokens position index len)
  show ?case
  proof (cases "0 < len")
    case False
    then have "locate_loop tokens position index len = index" by (simp add: locate_loop.simps)
    then show ?thesis using "1.prems" False by (metis add_0_right le_add1 linorder_not_less not_gr_zero)
  next
    case True
    define mid where "mid = index + len div 2"
    have m: "mid < length tokens" "mid < index + len" using True "1.prems"(2) by (auto simp: mid_def)
    show ?thesis
    proof (cases "tok_begin (tokens ! mid) < position")
      case lt: True
      have e: "locate_loop tokens position index len = locate_loop tokens position (mid + 1) (len - (len div 2 + 1))"
        using True lt by (subst locate_loop.simps) (simp add: mid_def Let_def)
      have "\<forall>i<mid + 1. tok_begin (tokens ! i) < position"
      proof (intro allI impI)
        fix i assume "i < mid + 1"
        then show "tok_begin (tokens ! i) < position" using sorted_begin [OF "1.prems"(1) _ m(1), of i] lt by simp
      qed
      moreover have "mid + 1 + (len - (len div 2 + 1)) = index + len" using m by (simp add: mid_def)
      ultimately show ?thesis unfolding e using "1.IH"(1) [OF True refl refl] lt "1.prems" by (simp add: mid_def)
    next
      case ge: False
      have e: "locate_loop tokens position index len = locate_loop tokens position index (len div 2)"
        using True ge by (subst locate_loop.simps) (simp add: mid_def Let_def)
      have "\<forall>i<length tokens. mid \<le> i \<longrightarrow> position \<le> tok_begin (tokens ! i)"
      proof (intro allI impI)
        fix i assume "i < length tokens" "mid \<le> i"
        then show "position \<le> tok_begin (tokens ! i)" using sorted_begin [OF "1.prems"(1), of mid i] ge by simp
      qed
      then show ?thesis unfolding e using "1.IH"(2) [OF True refl refl] ge "1.prems" m by (simp add: mid_def)
    qed
  qed
qed

section \<open>Parts of a document\<close>

lemma break_end_spec:
  "e \<le> length tokens \<Longrightarrow> break_end tokens brk e \<le> length tokens \<and>
    (\<forall>t. e \<le> t \<and> t < break_end tokens brk e \<longrightarrow> tok_brk (tokens ! t) < brk) \<and>
    (break_end tokens brk e < length tokens \<longrightarrow> brk \<le> tok_brk (tokens ! break_end tokens brk e))"
proof (induction tokens brk e rule: break_end.induct)
  case (1 tokens brk e)
  show ?case
  proof (cases "e < length tokens \<and> tok_brk (tokens ! e) < brk")
    case True
    then have "break_end tokens brk e = break_end tokens brk (Suc e)" by (subst break_end.simps) simp
    then show ?thesis using 1 True by (metis Suc_leI le_antisym not_less_eq_eq)
  next
    case False
    then have "break_end tokens brk e = e" by (subst break_end.simps) auto
    then show ?thesis using False "1.prems" by auto
  qed
qed

text \<open>The parts a loop over a \<^verbatim>\<open>DocumentIterator\<close> visits, from the current part on.\<close>

inductive iterates :: "Token list \<Rightarrow> int \<Rightarrow> int \<Rightarrow> nat \<times> nat \<Rightarrow> (nat \<times> nat) list \<Rightarrow> bool"
  for tokens brk skip where
  stop: "\<not> more_parts tokens part \<Longrightarrow> iterates tokens brk skip part []"
| part: "more_parts tokens (b, e) \<Longrightarrow> iterates tokens brk skip (next_part tokens brk skip b e) ps \<Longrightarrow>
    iterates tokens brk skip (b, e) ((b, e) # ps)"

inductive_cases iteratesE: "iterates tokens brk skip part ps"

text \<open>The parts of the document from a token on: they end before the next token with a break of the level.\<close>

function segments :: "Token list \<Rightarrow> int \<Rightarrow> nat \<Rightarrow> (nat \<times> nat) list" where
  "segments tokens brk e =
     (if e < length tokens
      then (e, break_end tokens brk (Suc e)) # segments tokens brk (break_end tokens brk (Suc e)) else [])"
  by pat_completeness auto
termination
proof (relation "measure (\<lambda>(tokens, brk, e). length tokens - e)", simp, goal_cases)
  case (1 tokens brk e)
  have "Suc e \<le> break_end tokens brk (Suc e)" by (rule break_end_ge)
  then show ?case using 1 by auto
qed

declare segments.simps [simp del]

definition unskipped :: "Token list \<Rightarrow> int \<Rightarrow> nat \<times> nat \<Rightarrow> bool" where
  "unskipped tokens skip part \<longleftrightarrow> tok_style (tokens ! fst part) AND skip = 0"

lemma iterates_segments:
  "b < length tokens \<Longrightarrow>
    iterates tokens brk skip (next_part tokens brk skip b e) (filter (unskipped tokens skip) (segments tokens brk e))"
proof (induction "length tokens - e" arbitrary: b e rule: less_induct)
  case less
  show ?case
  proof (cases "e < length tokens")
    case False
    then have "next_part tokens brk skip b e = (e, Suc e)" "segments tokens brk e = []"
      using less.prems by (simp_all add: next_part.simps segments.simps Let_def)
    then show ?thesis using False by (auto intro: stop simp: more_parts_def)
  next
    case True
    define e' where "e' = break_end tokens brk (Suc e)"
    have "length tokens - e' < length tokens - e" using break_end_ge [of "Suc e" tokens brk] True by (simp add: e'_def)
    from less.hyps [OF this True] have ih:
      "iterates tokens brk skip (next_part tokens brk skip e e') (filter (unskipped tokens skip) (segments tokens brk e'))" .
    have s: "segments tokens brk e = (e, e') # segments tokens brk e'" using True by (subst segments.simps) (simp add: e'_def)
    have n: "next_part tokens brk skip b e = (if unskipped tokens skip (e, e') then (e, e') else next_part tokens brk skip e e')"
      using True less.prems by (subst next_part.simps) (simp add: Let_def e'_def unskipped_def)
    show ?thesis using ih True by (simp add: s n) (auto intro: part simp: more_parts_def)
  qed
qed

lemma iterates_first_part:
  "iterates tokens brk skip (first_part tokens brk skip) (filter (unskipped tokens skip) (segments tokens brk 0))"
proof (cases "tokens = []")
  case True
  then show ?thesis by (auto intro: stop simp: first_part_def next_part.simps segments.simps more_parts_def)
qed (simp add: first_part_def iterates_segments)

lemma segments_partition:
  "e \<le> length tokens \<Longrightarrow> concat (map (\<lambda>(b, e). [b..<e]) (segments tokens brk e)) = [e..<length tokens]"
proof (induction tokens brk e rule: segments.induct)
  case (1 tokens brk e)
  show ?case
  proof (cases "e < length tokens")
    case True
    define e' where "e' = break_end tokens brk (Suc e)"
    have le: "e \<le> e'" "e' \<le> length tokens"
      using break_end_ge [of "Suc e" tokens brk] break_end_spec [of "Suc e" tokens brk] True by (auto simp: e'_def)
    then have "[e..<e'] @ [e'..<length tokens] = [e..<length tokens]" by (metis le_iff_add upt_add_eq_append)
    then show ?thesis using "1.IH" [OF True, folded e'_def] le True
      by (subst segments.simps) (simp add: e'_def [symmetric])
  qed (use "1.prems" in \<open>simp add: segments.simps\<close>)
qed

lemma segments_nonempty: "p \<in> set (segments tokens brk e) \<Longrightarrow> e < length tokens"
  by (subst (asm) segments.simps) (auto split: if_splits)

lemma segments_breaks:
  "e \<le> length tokens \<Longrightarrow> (b, f) \<in> set (segments tokens brk e) \<Longrightarrow>
    b < f \<and> f \<le> length tokens \<and> (b = e \<or> brk \<le> tok_brk (tokens ! b)) \<and> (\<forall>t. b < t \<and> t < f \<longrightarrow> tok_brk (tokens ! t) < brk)"
proof (induction tokens brk e rule: segments.induct)
  case (1 tokens brk e)
  have lt: "e < length tokens" by (rule segments_nonempty [OF "1.prems"(2)])
  define e' where "e' = break_end tokens brk (Suc e)"
  have le: "Suc e \<le> e'" "e' \<le> length tokens" "\<forall>t. Suc e \<le> t \<and> t < e' \<longrightarrow> tok_brk (tokens ! t) < brk"
    "e' < length tokens \<longrightarrow> brk \<le> tok_brk (tokens ! e')"
    using break_end_ge [of "Suc e" tokens brk] break_end_spec [of "Suc e" tokens brk] lt by (auto simp: e'_def)
  have "(b, f) = (e, e') \<or> (b, f) \<in> set (segments tokens brk e')"
    using "1.prems"(2) lt by (subst (asm) segments.simps) (auto simp: e'_def)
  then show ?case
  proof
    assume bf: "(b, f) \<in> set (segments tokens brk e')"
    have "e' < length tokens" by (rule segments_nonempty [OF bf])
    then show ?thesis using "1.IH" [OF lt, folded e'_def, OF le(2) bf] le(4) by auto
  qed (use le in auto)
qed

section \<open>Properties\<close>



text \<open>
  C31: A loop over a document iterator ends. It visits, in order, the parts of the document whose first token has none of
  the styles to skip; the parts partition the tokens of the document, and a part ends exactly before a token with a break of
  the given level.
\<close>

theorem document_iterator_parts:
  "iterates tokens brk skip (first_part tokens brk skip) (filter (unskipped tokens skip) (segments tokens brk 0)) \<and>
   concat (map (\<lambda>(b, e). [b..<e]) (segments tokens brk 0)) = [0..<length tokens] \<and>
   list_all (\<lambda>(b, e). b < e \<and> (b = 0 \<or> brk \<le> tok_brk (tokens ! b)) \<and> list_all (\<lambda>t. tok_brk (tokens ! t) < brk) [Suc b..<e])
     (segments tokens brk 0)"
proof -
  have "list_all (\<lambda>(b, e). b < e \<and> (b = 0 \<or> brk \<le> tok_brk (tokens ! b)) \<and> list_all (\<lambda>t. tok_brk (tokens ! t) < brk) [Suc b..<e])
     (segments tokens brk 0)"
    using segments_breaks [of 0 tokens] by (auto simp: list_all_iff)
  then show ?thesis using iterates_first_part segments_partition [of 0] by simp
qed



end
