(* ===== verification/Parser_State.thy ===== *)
theory Parser_State
  imports Span_Operations Frame_Decoder
begin

text \<open>
  The transition system of the parser: \<^verbatim>\<open>sling/nlp/parser/parser-action.h\<close>, \<^verbatim>\<open>parser-state.h\<close> and \<^verbatim>\<open>parser-state.cc\<close>, with the
  operations of documents it uses (\<^verbatim>\<open>AddSpan\<close>, \<^verbatim>\<open>Span::Evoke\<close>, \<^verbatim>\<open>Evokes\<close> and \<^verbatim>\<open>EvokesType\<close> of
  \<^verbatim>\<open>sling/nlp/document/document.cc\<close>) on the span index and the frame store. The left values of results are the
  ways to fail: a null span or an access outside of a table or of the document, a failure of the store (it is full, or
  a handle is not a frame that can be changed), and the fatal error for a cascade action.
\<close>

datatype parse_error = BadAccess | StoreFailure | FatalError

fun sum_bind :: "parse_error + 'a \<Rightarrow> ('a \<Rightarrow> parse_error + 'b) \<Rightarrow> parse_error + 'b" where
  "sum_bind (Inl err) f = Inl err"
| "sum_bind (Inr x) f = f x"

definition access :: "'a option \<Rightarrow> parse_error + 'a" where
  "access v = (case v of None \<Rightarrow> Inl BadAccess | Some x \<Rightarrow> Inr x)"

definition in_store :: "'a option \<Rightarrow> parse_error + 'a" where
  "in_store v = (case v of None \<Rightarrow> Inl StoreFailure | Some x \<Rightarrow> Inr x)"

section \<open>Documents with mentions\<close>

record doc_names =
  nm_begin :: Handle
  nm_length :: Handle
  nm_evokes :: Handle

record doc_state =
  doc_index :: span_index
  mentions :: "Handle list"
  doc_store :: Store

text \<open>
  The mention frames are kept alive by the roots of the store; while a mention frame is built, the slots are an
  external of the store.
\<close>

definition create_mention :: "doc_names \<Rightarrow> nat \<Rightarrow> nat \<Rightarrow> Handle \<Rightarrow> Store \<Rightarrow> (Handle \<times> Store) option" where
  "create_mention names b e type st =
     (let len = e - b;
          slots = (if type \<noteq> Handle_nil then [(Handle_isa, type)] else []) @
            [(nm_begin names, Handle_Integer (int b))] @
            (if len \<noteq> 1 then [(nm_length names, Handle_Integer (int len))] else [])
      in do { (h, st) \<leftarrow> AllocateFrame slots Handle_nil (st\<lparr>externals := concat (map (\<lambda>(n, v). [n, v]) slots) # externals st\<rparr>);
              let st = Root_init h st;
              Some (h, st\<lparr>externals := drop 1 (externals st)\<rparr>) })"

text \<open>The end of the last root that was added to the store, if it was linked into the list of roots.\<close>

definition root_linked :: "Handle \<Rightarrow> Store \<Rightarrow> bool" where
  "root_linked h st \<longleftrightarrow> \<not> (IsNil h \<or> \<not> IsRef h \<or> \<not> Owned st h \<or> frozen st)"

definition Root_unlink :: "bool \<Rightarrow> Store \<Rightarrow> Store" where
  "Root_unlink was_linked st = (if was_linked then st\<lparr>roots := take 1 (roots st) @ drop 2 (roots st)\<rparr> else st)"

definition AddSpan :: "doc_names \<Rightarrow> nat \<Rightarrow> nat \<Rightarrow> Handle \<Rightarrow> doc_state \<Rightarrow> parse_error + span_ptr \<times> doc_state" where
  "AddSpan names b e type doc =
     sum_bind (access (Insert b e (doc_index doc))) (\<lambda>(span, d).
       case span of
         None \<Rightarrow> Inr (None, doc)
       | Some p \<Rightarrow>
           let ms = mentions doc @ replicate (length (spans d) - length (mentions doc)) Handle_nil;
               doc = doc\<lparr>doc_index := d, mentions := ms\<rparr>
           in if IsNil (ms ! p) then
                sum_bind (in_store (create_mention names b e type (doc_store doc))) (\<lambda>(h, st).
                  Inr (Some p, doc\<lparr>mentions := ms[p := h], doc_store := st\<rparr>))
              else if type \<noteq> Handle_nil then
                sum_bind (in_store (GetFrame (doc_store doc) (ms ! p))) (\<lambda>(_, _, slots).
                  if frame_isa slots type then Inr (Some p, doc)
                  else sum_bind (in_store (Store_Add (ms ! p) Handle_isa type (doc_store doc)))
                         (\<lambda>st. Inr (Some p, doc\<lparr>doc_store := st\<rparr>)))
              else Inr (Some p, doc))"

definition Span_Evoke :: "doc_names \<Rightarrow> span_ptr \<Rightarrow> Handle \<Rightarrow> doc_state \<Rightarrow> parse_error + doc_state" where
  "Span_Evoke names span frame doc =
     (case span of
        None \<Rightarrow> Inl BadAccess
      | Some p \<Rightarrow>
          if p < length (mentions doc)
          then sum_bind (in_store (Store_Add (mentions doc ! p) (nm_evokes names) frame (doc_store doc)))
                 (\<lambda>st. Inr (doc\<lparr>doc_store := st\<rparr>))
          else Inl BadAccess)"

definition mention_slots :: "nat \<Rightarrow> doc_state \<Rightarrow> parse_error + slot list" where
  "mention_slots p doc =
     (if p < length (mentions doc)
      then sum_bind (in_store (GetFrame (doc_store doc) (mentions doc ! p))) (\<lambda>(_, _, slots). Inr slots)
      else Inl BadAccess)"

definition Span_Evokes :: "doc_names \<Rightarrow> nat \<Rightarrow> Handle \<Rightarrow> doc_state \<Rightarrow> parse_error + bool" where
  "Span_Evokes names p frame doc =
     sum_bind (mention_slots p doc) (\<lambda>slots. Inr (frame_has_value slots (nm_evokes names) frame))"

fun evokes_type_loop :: "doc_names \<Rightarrow> Store \<Rightarrow> Handle \<Rightarrow> slot list \<Rightarrow> parse_error + bool" where
  "evokes_type_loop names st type [] = Inr False"
| "evokes_type_loop names st type ((name, val) # slots) =
     (if name \<noteq> nm_evokes names then evokes_type_loop names st type slots
      else sum_bind (in_store (GetFrame st val)) (\<lambda>(_, _, fs).
        if (if IsNil type then IsNil (frame_get fs Handle_isa) else frame_isa fs type) then Inr True
        else evokes_type_loop names st type slots))"

definition Span_EvokesType :: "doc_names \<Rightarrow> nat \<Rightarrow> Handle \<Rightarrow> doc_state \<Rightarrow> parse_error + bool" where
  "Span_EvokesType names p type doc =
     sum_bind (mention_slots p doc) (evokes_type_loop names (doc_store doc) type)"

section \<open>Actions and states\<close>

datatype ParserAction =
    SHIFT
  | MARK
  | EVOKE nat Handle
  | REFER nat nat
  | CONNECT nat Handle nat
  | ASSIGN nat Handle Handle
  | CASCADE nat

record AttentionSlot =
  at_frame :: Handle
  at_created :: nat
  at_focused :: nat
  at_span :: span_ptr

record Marker =
  mk_token :: nat
  mk_step :: nat

record ParserState =
  ps_doc :: doc_state
  ps_begin :: nat
  ps_end :: nat
  ps_current :: nat
  ps_step :: nat
  attention :: "AttentionSlot list"
  marks :: "Marker list"

definition MAX_MARK_DEPTH :: nat where "MAX_MARK_DEPTH = 5"

definition new_parser_state :: "doc_state \<Rightarrow> nat \<Rightarrow> nat \<Rightarrow> ParserState" where
  "new_parser_state doc b e =
     \<lparr>ps_doc = doc, ps_begin = b, ps_end = e, ps_current = b, ps_step = 0, attention = [], marks = []\<rparr>"

definition Switch :: "doc_state \<Rightarrow> nat \<Rightarrow> nat \<Rightarrow> bool \<Rightarrow> ParserState \<Rightarrow> ParserState" where
  "Switch doc b e reset ps =
     ps\<lparr>ps_doc := doc, ps_begin := b, ps_end := e, ps_current := b, ps_step := 0, marks := [],
        attention := (if reset then [] else attention ps)\<rparr>"

definition parser_done :: "ParserState \<Rightarrow> bool" where
  "parser_done ps = (ps_current ps = ps_end ps)"

text \<open>The center of attention has index 0 and is the last element of the buffer.\<close>

definition attention_pos :: "ParserState \<Rightarrow> nat \<Rightarrow> nat option" where
  "attention_pos ps index =
     (if index < length (attention ps) then Some (length (attention ps) - index - 1) else None)"

definition Attention :: "ParserState \<Rightarrow> nat \<Rightarrow> parse_error + AttentionSlot" where
  "Attention ps index = sum_bind (access (attention_pos ps index)) (\<lambda>i. Inr (attention ps ! i))"

definition GetFocus :: "nat \<Rightarrow> ParserState \<Rightarrow> Handle list" where
  "GetFocus k ps = take k (map at_frame (rev (attention ps)))"

fun attention_index_loop :: "Handle \<Rightarrow> AttentionSlot list \<Rightarrow> nat \<Rightarrow> int" where
  "attention_index_loop frame [] i = -1"
| "attention_index_loop frame (s # slots) i =
     (if at_frame s = frame then int i else attention_index_loop frame slots (Suc i))"

definition AttentionIndex :: "Handle \<Rightarrow> int \<Rightarrow> ParserState \<Rightarrow> int" where
  "AttentionIndex frame k ps =
     (let n = int (length (attention ps)); k = (if k < 0 \<or> n < k then n else k)
      in attention_index_loop frame (take (nat k) (rev (attention ps))) 0)"

definition Add_attention :: "Handle \<Rightarrow> span_ptr \<Rightarrow> ParserState \<Rightarrow> ParserState" where
  "Add_attention frame span ps =
     ps\<lparr>attention := attention ps @ [\<lparr>at_frame = frame, at_created = ps_step ps, at_focused = ps_step ps, at_span = span\<rparr>]\<rparr>"

text \<open>The loop of \<^verbatim>\<open>Move\<close> that copies each slot from its successor.\<close>

function shift_slots :: "nat \<Rightarrow> nat \<Rightarrow> 'a list \<Rightarrow> 'a list" where
  "shift_slots i e xs = (if i < e then shift_slots (Suc i) e (xs[i := xs ! Suc i]) else xs)"
  by pat_completeness auto
termination by (relation "measure (\<lambda>(i, e, xs). e - i)") auto

declare shift_slots.simps [simp del]

definition refocus :: "nat \<Rightarrow> span_ptr \<Rightarrow> AttentionSlot \<Rightarrow> AttentionSlot" where
  "refocus step span s = s\<lparr>at_focused := step, at_span := (if span \<noteq> None then span else at_span s)\<rparr>"

definition Move :: "nat \<Rightarrow> nat \<Rightarrow> span_ptr \<Rightarrow> ParserState \<Rightarrow> parse_error + ParserState" where
  "Move index position span ps =
     (let xs = attention ps; n = length xs
      in if n \<le> index \<or> index < position then Inl BadAccess
         else
           let start = n - index - 1; fin_pos = n - position - 1;
               slot = refocus (ps_step ps) span (xs ! start)
           in if index = position then Inr (ps\<lparr>attention := xs[start := slot]\<rparr>)
              else Inr (ps\<lparr>attention := (shift_slots start fin_pos xs)[fin_pos := slot]\<rparr>))"

definition Center :: "nat \<Rightarrow> span_ptr \<Rightarrow> ParserState \<Rightarrow> parse_error + ParserState" where
  "Center index span ps = Move index 0 span ps"

section \<open>Transitions\<close>

text \<open>The phrase of an \<^verbatim>\<open>EVOKE\<close> or \<^verbatim>\<open>REFER\<close> action: from the last mark for length zero.\<close>

definition phrase_of :: "nat \<Rightarrow> ParserState \<Rightarrow> (nat \<times> nat) option" where
  "phrase_of len ps =
     (if len = 0 then
        (if marks ps = [] then None else Some (mk_token (last (marks ps)), ps_current ps + 1))
      else Some (ps_current ps, ps_current ps + len))"

definition pop_mark :: "nat \<Rightarrow> ParserState \<Rightarrow> ParserState" where
  "pop_mark len ps = (if len = 0 then ps\<lparr>marks := butlast (marks ps)\<rparr> else ps)"

definition Shift :: "ParserState \<Rightarrow> ParserState" where
  "Shift ps = ps\<lparr>ps_current := ps_current ps + 1\<rparr>"

definition Mark_action :: "ParserState \<Rightarrow> ParserState" where
  "Mark_action ps = ps\<lparr>marks := marks ps @ [\<lparr>mk_token = ps_current ps, mk_step = ps_step ps\<rparr>]\<rparr>"

definition Evoke_action :: "doc_names \<Rightarrow> nat \<Rightarrow> Handle \<Rightarrow> ParserState \<Rightarrow> parse_error + ParserState" where
  "Evoke_action names len type ps =
     sum_bind (access (phrase_of len ps)) (\<lambda>(b, e).
     sum_bind (AddSpan names b e Handle_nil (ps_doc ps)) (\<lambda>(span, doc).
     sum_bind (in_store (AllocateFrame (if IsNil type then [] else [(Handle_isa, type)]) Handle_nil (doc_store doc))) (\<lambda>(h, st).
     sum_bind (Span_Evoke names span h (doc\<lparr>doc_store := Root_init h st\<rparr>)) (\<lambda>doc.
       Inr (Add_attention h span ((pop_mark len ps)\<lparr>ps_doc :=
         doc\<lparr>doc_store := Root_unlink (root_linked h st) (doc_store doc)\<rparr>\<rparr>))))))"

definition Refer_action :: "doc_names \<Rightarrow> nat \<Rightarrow> nat \<Rightarrow> ParserState \<Rightarrow> parse_error + ParserState" where
  "Refer_action names len index ps =
     sum_bind (access (phrase_of len ps)) (\<lambda>(b, e).
     sum_bind (AddSpan names b e Handle_nil (ps_doc ps)) (\<lambda>(span, doc).
     sum_bind (Attention ps index) (\<lambda>slot.
     sum_bind (Span_Evoke names span (at_frame slot) doc) (\<lambda>doc.
       Center index span ((pop_mark len ps)\<lparr>ps_doc := doc\<rparr>)))))"

definition add_slot :: "Handle \<Rightarrow> Handle \<Rightarrow> Handle \<Rightarrow> ParserState \<Rightarrow> parse_error + ParserState" where
  "add_slot subject role object ps =
     sum_bind (in_store (Store_Add subject role object (doc_store (ps_doc ps))))
       (\<lambda>st. Inr (ps\<lparr>ps_doc := (ps_doc ps)\<lparr>doc_store := st\<rparr>\<rparr>))"

definition Connect_action :: "nat \<Rightarrow> Handle \<Rightarrow> nat \<Rightarrow> ParserState \<Rightarrow> parse_error + ParserState" where
  "Connect_action source role target ps =
     sum_bind (Attention ps source) (\<lambda>subject.
     sum_bind (Attention ps target) (\<lambda>object.
     sum_bind (add_slot (at_frame subject) role (at_frame object) ps) (\<lambda>ps.
       if source < target then Move target (source + 1) None ps
       else if target < source then Move source (target + 1) None ps
       else Inr ps)))"

definition Assign_action :: "nat \<Rightarrow> Handle \<Rightarrow> Handle \<Rightarrow> ParserState \<Rightarrow> parse_error + ParserState" where
  "Assign_action frame role val ps =
     sum_bind (Attention ps frame) (\<lambda>subject. add_slot (at_frame subject) role val ps)"

fun apply_action :: "doc_names \<Rightarrow> ParserAction \<Rightarrow> ParserState \<Rightarrow> parse_error + ParserState" where
  "apply_action names SHIFT ps = Inr (Shift ps)"
| "apply_action names MARK ps = Inr (Mark_action ps)"
| "apply_action names (EVOKE len type) ps = Evoke_action names len type ps"
| "apply_action names (REFER len target) ps = Refer_action names len target ps"
| "apply_action names (CONNECT source role target) ps = Connect_action source role target ps"
| "apply_action names (ASSIGN source role label) ps = Assign_action source role label ps"
| "apply_action names (CASCADE delegate) ps = Inl FatalError"

definition Apply :: "doc_names \<Rightarrow> ParserAction \<Rightarrow> ParserState \<Rightarrow> parse_error + ParserState" where
  "Apply names action ps =
     sum_bind (apply_action names action ps) (\<lambda>ps. Inr (ps\<lparr>ps_step := ps_step ps + 1\<rparr>))"

text \<open>
  The tests of \<^verbatim>\<open>CanApply\<close> for \<^verbatim>\<open>EVOKE\<close> and \<^verbatim>\<open>REFER\<close>: the phrase is inside the input, the index of the antecedent is valid, and the phrase
  crosses no span; for an existing span the last test decides.
\<close>

definition can_mention :: "nat \<Rightarrow> bool \<Rightarrow> ParserState \<Rightarrow> (nat \<Rightarrow> parse_error + bool) \<Rightarrow> parse_error + bool" where
  "can_mention len valid_index ps exists =
     (case phrase_of len ps of
        None \<Rightarrow> Inr False
      | Some (b, e) \<Rightarrow>
          if ps_end ps < e then Inr False
          else if \<not> valid_index then Inr False
          else sum_bind (access (EnclosingSpan (doc_index (ps_doc ps)) b e)) (\<lambda>(enclosing, crossing).
            if crossing then Inr False
            else case enclosing of
                   None \<Rightarrow> Inr True
                 | Some p \<Rightarrow>
                     if sp_begin (spans (doc_index (ps_doc ps)) ! p) = b \<and> sp_end (spans (doc_index (ps_doc ps)) ! p) = e
                     then exists p else Inr True))"

fun CanApply :: "doc_names \<Rightarrow> ParserAction \<Rightarrow> ParserState \<Rightarrow> parse_error + bool" where
  "CanApply names (CASCADE delegate) ps = Inr (0 < delegate)"
| "CanApply names SHIFT ps = Inr (ps_current ps < ps_end ps)"
| "CanApply names MARK ps = Inr (ps_current ps < ps_end ps \<and> length (marks ps) < MAX_MARK_DEPTH)"
| "CanApply names (EVOKE len type) ps =
     can_mention len True ps (\<lambda>p. sum_bind (Span_EvokesType names p type (ps_doc ps)) (\<lambda>r. Inr (\<not> r)))"
| "CanApply names (REFER len index) ps =
     can_mention len (index < length (attention ps)) ps (\<lambda>p.
       sum_bind (Attention ps index) (\<lambda>slot.
       sum_bind (Span_Evokes names p (at_frame slot) (ps_doc ps)) (\<lambda>r. Inr (\<not> r))))"
| "CanApply names (ASSIGN source role label) ps =
     (if length (attention ps) \<le> source then Inr False
      else sum_bind (Attention ps source) (\<lambda>slot.
           sum_bind (in_store (GetFrame (doc_store (ps_doc ps)) (at_frame slot))) (\<lambda>(_, _, slots).
             Inr (\<not> frame_has_value slots role label))))"
| "CanApply names (CONNECT source role target) ps =
     (if length (attention ps) \<le> source \<or> length (attention ps) \<le> target then Inr False
      else sum_bind (Attention ps source) (\<lambda>s.
           sum_bind (Attention ps target) (\<lambda>t.
           sum_bind (in_store (GetFrame (doc_store (ps_doc ps)) (at_frame s))) (\<lambda>(_, _, slots).
             Inr (\<not> frame_has_value slots role (at_frame t))))))"

end
