(* ===== verification/Parser_Properties.thy ===== *)
theory Parser_Properties
  imports Parser_State
begin

text \<open>
  The invariant of parser states, that every action admitted by \<^verbatim>\<open>CanApply\<close> keeps it and never accesses anything
  outside of the document, the attention buffer or the mark stack, and what follows for the runs of the transition
  system.
\<close>

section \<open>Errors\<close>

text \<open>A result that is a failure of the store or has the property.\<close>

definition unless_store :: "('a \<Rightarrow> bool) \<Rightarrow> parse_error + 'a \<Rightarrow> bool" where
  "unless_store P r = (case r of Inl err \<Rightarrow> err = StoreFailure | Inr x \<Rightarrow> P x)"

lemma unless_store_simps [simp]:
  "unless_store P (Inr x) = P x" "unless_store P (Inl err) = (err = StoreFailure)"
  by (simp_all add: unless_store_def)

lemma unless_store_bind:
  "unless_store P r \<Longrightarrow> (\<And>x. P x \<Longrightarrow> unless_store Q (f x)) \<Longrightarrow> unless_store Q (sum_bind r f)"
  by (cases r) auto

lemma unless_in_store [simp]: "unless_store P (in_store v) = (\<forall>x. v = Some x \<longrightarrow> P x)"
  by (cases v) (auto simp: in_store_def)

lemma unless_store_mono: "unless_store P r \<Longrightarrow> (\<And>x. P x \<Longrightarrow> Q x) \<Longrightarrow> unless_store Q r"
  by (cases r) auto

lemma sum_bind_Inr: "sum_bind r f = Inr y \<longleftrightarrow> (\<exists>x. r = Inr x \<and> f x = Inr y)"
  by (cases r) auto

lemma access_simps [simp]: "access (Some x) = Inr x" "access v = Inr x \<longleftrightarrow> v = Some x"
  by (auto simp: access_def split: option.splits)

section \<open>The attention buffer\<close>

lemma shift_slots_length [simp]: "length (shift_slots i e xs) = length xs"
  by (induction i e xs rule: shift_slots.induct) (subst shift_slots.simps, simp)

lemma shift_slots_nth:
  "e < length xs \<Longrightarrow> j < length xs \<Longrightarrow>
     shift_slots i e xs ! j = (if i \<le> j \<and> j < e then xs ! Suc j else xs ! j)"
proof (induction i e xs rule: shift_slots.induct)
  case (1 i e xs)
  show ?case
  proof (cases "i < e")
    case True
    then show ?thesis using "1.IH" [OF True] "1.prems" by (subst shift_slots.simps) (auto simp: nth_list_update)
  qed (use "1.prems" in \<open>subst shift_slots.simps, auto\<close>)
qed

text \<open>The effect of \<^verbatim>\<open>Move\<close> in the order of attention: the slot is taken out and put back at the position.\<close>

definition moved :: "nat \<Rightarrow> nat \<Rightarrow> 'a \<Rightarrow> 'a list \<Rightarrow> 'a list" where
  "moved index position x xs =
     take position xs @ x # drop position (take index xs) @ drop (Suc index) xs"

lemma moved_nth:
  assumes "position \<le> index" "index < length xs" "j < length xs"
  shows "moved index position x xs ! j =
    (if j < position then xs ! j else if j = position then x else if j \<le> index then xs ! (j - 1) else xs ! j)"
proof -
  have m: "length (take position xs) = position" "length (drop position (take index xs)) = index - position"
    using assms by simp_all
  consider "j < position" | "j = position" | "position < j" "j \<le> index" | "index < j" by linarith
  then show ?thesis
  proof cases
    case 3
    then obtain k where k: "j = Suc (position + k)" using less_iff_Suc_add by blast
    then have "k < index - position" using 3 by simp
    then show ?thesis using 3 k assms by (simp add: moved_def nth_append m)
  next
    case 4
    then obtain k where k: "j = Suc (index + k)" using less_iff_Suc_add by blast
    then have "j - position = Suc (index - position + k)" "\<not> index + k - position < index - position" using assms by simp_all
    then show ?thesis using 4 k assms by (simp add: moved_def nth_append m)
  qed (use assms in \<open>simp_all add: moved_def nth_append\<close>)
qed

lemma moved_length: "position \<le> index \<Longrightarrow> index < length xs \<Longrightarrow> length (moved index position x xs) = length xs"
  by (simp add: moved_def)

lemma Move_moved:
  assumes "position \<le> index" "index < length (attention ps)"
  shows "Move index position span ps = Inr (ps\<lparr>attention := rev (moved index position
    (refocus (ps_step ps) span (rev (attention ps) ! index)) (rev (attention ps)))\<rparr>)"
proof -
  let ?xs = "attention ps" and ?n = "length (attention ps)"
  let ?x = "refocus (ps_step ps) span (?xs ! (?n - index - 1))"
  have x: "rev ?xs ! index = ?xs ! (?n - index - 1)" using assms by (simp add: rev_nth)
  have "(if index = position then ?xs[?n - index - 1 := ?x]
      else (shift_slots (?n - index - 1) (?n - position - 1) ?xs)[?n - position - 1 := ?x]) =
    rev (moved index position ?x (rev ?xs))" (is "?l = ?r")
  proof (rule nth_equalityI)
    show "length ?l = length ?r" using assms by (simp add: moved_length)
    fix j assume "j < length ?l"
    then have j: "j < ?n" by (simp split: if_splits)
    have "?r ! j = moved index position ?x (rev ?xs) ! (?n - Suc j)"
      using j assms by (simp add: rev_nth moved_length)
    also have "\<dots> = (if ?n - Suc j < position then ?xs ! j else if ?n - Suc j = position then ?x
        else if ?n - Suc j \<le> index then ?xs ! Suc j else ?xs ! j)"
      using j assms by (subst moved_nth) (auto simp: rev_nth Suc_diff_Suc)
    also have "\<dots> = ?l ! j"
      using j assms by (auto simp: shift_slots_nth nth_list_update)
    finally show "?l ! j = ?r ! j" by simp
  qed
  then show ?thesis using assms by (auto simp: Move_def Let_def x)
qed


section \<open>Mentions\<close>

definition doc_ok :: "nat \<Rightarrow> doc_state \<Rightarrow> bool" where
  "doc_ok n doc \<longleftrightarrow> (\<exists>L. span_inv L (doc_index doc)) \<and> length (leaves (doc_index doc)) = n \<and>
     length (mentions doc) = length (spans (doc_index doc))"

text \<open>The document has kept its spans and has the span \<open>p\<close> for a phrase.\<close>

definition mentioned :: "nat \<Rightarrow> doc_state \<Rightarrow> nat \<Rightarrow> nat \<Rightarrow> span_ptr \<Rightarrow> doc_state \<Rightarrow> bool" where
  "mentioned n doc b e span doc' \<longleftrightarrow> doc_ok n doc' \<and> length (spans (doc_index doc)) \<le> length (spans (doc_index doc')) \<and>
     (\<exists>p. span = Some p \<and> p < length (spans (doc_index doc')) \<and> exact (spans (doc_index doc')) b e p)"

lemma Insert_not_None:
  assumes "EnclosingSpan d b e = Some (enc, False)" "Insert b e d = Some (r, d')"
  shows "r \<noteq> None"
  using assms by (auto simp: Insert_def bind_eq_Some_conv split: option.splits if_splits)

lemma doc_ok_store [simp]: "doc_ok n (doc\<lparr>doc_store := st\<rparr>) = doc_ok n doc"
  by (simp add: doc_ok_def)

lemma Insert_mentioned:
  assumes ok: "doc_ok n doc" and be: "b < e" "e \<le> n" and E: "EnclosingSpan (doc_index doc) b e = Some (enc, False)"
  obtains p d' where "Insert b e (doc_index doc) = Some (Some p, d')" "p < length (spans d')" "exact (spans d') b e p"
    "length (spans (doc_index doc)) \<le> length (spans d')" "\<exists>L. span_inv L d'" "length (leaves d') = n"
proof -
  let ?d = "doc_index doc"
  obtain L where L: "span_inv L ?d" "length (leaves ?d) = n" using ok by (auto simp: doc_ok_def)
  obtain r d' where r: "Insert b e ?d = Some (r, d')" "insert_spec L ?d b e r d'"
    using Insert_correct [OF L(1) be(1)] be(2) L(2) by auto
  from Insert_not_None [OF E r(1)] r(2) consider
      i where "i \<in> L" "exact (spans ?d) b e i" "r = Some i" "d' = ?d"
    | "r = Some (length (spans ?d))" "span_inv (insert (length (spans ?d)) L) d'" "length (leaves d') = length (leaves ?d)"
      "length (spans d') = Suc (length (spans ?d))" "exact (spans d') b e (length (spans ?d))"
    unfolding insert_spec_def by (auto split: if_splits)
  then show thesis
  proof cases
    case (1 i)
    show thesis by (rule that [of i d']) (use 1 r(1) L laminarD(1) [OF span_invD(1) [OF L(1)]] in auto)
  next
    case 2
    show thesis by (rule that [of "length (spans ?d)" d']) (use 2 r(1) L(2) in auto)
  qed
qed

lemma AddSpan_mentioned:
  assumes ok: "doc_ok n doc" and be: "b < e" "e \<le> n" and E: "EnclosingSpan (doc_index doc) b e = Some (enc, False)"
  shows "unless_store (\<lambda>(span, doc'). mentioned n doc b e span doc') (AddSpan names b e type doc)"
proof -
  obtain p d' where i: "Insert b e (doc_index doc) = Some (Some p, d')" "p < length (spans d')" "exact (spans d') b e p"
    "length (spans (doc_index doc)) \<le> length (spans d')" "\<exists>L. span_inv L d'" "length (leaves d') = n"
    using Insert_mentioned [OF assms] .
  have m: "mentioned n doc b e (Some p) (doc\<lparr>doc_index := d', mentions := ms, doc_store := st\<rparr>)"
    if "length ms = length (spans d')" for ms st
    using i that by (auto simp: mentioned_def doc_ok_def)
  let ?ms = "mentions doc @ replicate (length (spans d') - length (mentions doc)) Handle_nil"
  have l: "length ?ms = length (spans d')" using ok i(4) by (simp add: doc_ok_def)
  have m': "mentioned n doc b e (Some p) (doc\<lparr>doc_index := d', mentions := ?ms\<rparr>)"
    using m [OF l, of "doc_store doc"] by simp
  have m1: "mentioned n doc b e (Some p) (doc\<lparr>doc_index := d', mentions := ?ms[p := h], doc_store := st\<rparr>)"
    "mentioned n doc b e (Some p) (doc\<lparr>doc_index := d', mentions := ?ms, doc_store := st\<rparr>)" for h st
    using m [OF l] m [of "?ms[p := h]"] l by simp_all
  show ?thesis unfolding AddSpan_def i(1) access_simps sum_bind.simps prod.case option.case Let_def
    by (auto intro!: unless_store_bind [where P = "\<lambda>_. True"] simp: m' m1)
qed

lemma mentioned_store [simp]: "mentioned n doc0 b e span (doc\<lparr>doc_store := st\<rparr>) = mentioned n doc0 b e span doc"
  by (simp add: mentioned_def)

lemma Span_Evoke_ok:
  assumes "mentioned n doc0 b e span doc"
  shows "unless_store (mentioned n doc0 b e span) (Span_Evoke names span frame doc)"
proof -
  obtain p where "span = Some p" "p < length (mentions doc)" using assms by (auto simp: mentioned_def doc_ok_def)
  then show ?thesis using assms by (auto simp: Span_Evoke_def intro!: unless_store_bind [where P = "\<lambda>_. True"])
qed

section \<open>The invariant of the parser\<close>

definition slot_ok :: "ParserState \<Rightarrow> AttentionSlot \<Rightarrow> bool" where
  "slot_ok ps s \<longleftrightarrow> at_created s \<le> at_focused s \<and> at_focused s \<le> ps_step ps \<and>
     (\<exists>p. at_span s = Some p \<and> p < length (spans (doc_index (ps_doc ps))))"

definition mark_ok :: "ParserState \<Rightarrow> Marker \<Rightarrow> bool" where
  "mark_ok ps m \<longleftrightarrow> ps_begin ps \<le> mk_token m \<and> mk_token m \<le> ps_current ps \<and> mk_step m \<le> ps_step ps"

definition parser_inv :: "nat \<Rightarrow> ParserState \<Rightarrow> bool" where
  "parser_inv n ps \<longleftrightarrow> doc_ok n (ps_doc ps) \<and> ps_begin ps \<le> ps_current ps \<and> ps_current ps \<le> ps_end ps \<and> ps_end ps \<le> n \<and>
     length (marks ps) \<le> MAX_MARK_DEPTH \<and> list_all (mark_ok ps) (marks ps) \<and> sorted (map mk_token (marks ps)) \<and>
     list_all (slot_ok ps) (attention ps)"

text \<open>What the actions other than \<^verbatim>\<open>SHIFT\<close> and \<^verbatim>\<open>MARK\<close> keep of a state.\<close>

definition same_input :: "ParserState \<Rightarrow> ParserState \<Rightarrow> bool" where
  "same_input ps ps' \<longleftrightarrow> ps_begin ps' = ps_begin ps \<and> ps_end ps' = ps_end ps \<and> ps_current ps' = ps_current ps \<and>
     ps_step ps' = ps_step ps"

lemma parser_inv_step:
  "parser_inv n ps \<Longrightarrow> parser_inv n (ps\<lparr>ps_step := ps_step ps + 1\<rparr>)"
  by (auto simp: parser_inv_def list_all_iff slot_ok_def mark_ok_def le_SucI)

lemma phrase_bounds:
  assumes "parser_inv n ps" "phrase_of len ps = Some (b, e)" "e \<le> ps_end ps"
  shows "b < e" "e \<le> n" "ps_begin ps \<le> b"
proof -
  have i: "ps_begin ps \<le> ps_current ps" "ps_end ps \<le> n" "\<And>m. m \<in> set (marks ps) \<Longrightarrow> mark_ok ps m"
    using assms(1) by (auto simp: parser_inv_def list_all_iff)
  have m: "marks ps \<noteq> [] \<Longrightarrow> mark_ok ps (last (marks ps))" by (rule i(3)) simp
  from assms(2) consider "0 < len" "b = ps_current ps" "e = ps_current ps + len"
    | "marks ps \<noteq> []" "b = mk_token (last (marks ps))" "e = ps_current ps + 1"
    by (auto simp: phrase_of_def split: if_splits)
  then show "b < e" "e \<le> n" "ps_begin ps \<le> b" using i(1,2) m assms(3) by (cases; simp add: mark_ok_def)+
qed

lemma can_mentionD:
  assumes "can_mention len v ps f = Inr True"
  obtains b e enc where "phrase_of len ps = Some (b, e)" "e \<le> ps_end ps" "v"
    "EnclosingSpan (doc_index (ps_doc ps)) b e = Some (enc, False)"
proof -
  obtain b e where p: "phrase_of len ps = Some (b, e)" using assms by (auto simp: can_mention_def split: option.splits)
  show thesis
  proof (rule that [OF p])
    show "e \<le> ps_end ps" "v" using assms p by (auto simp: can_mention_def split: if_splits)
    then show "EnclosingSpan (doc_index (ps_doc ps)) b e = Some (fst (the (EnclosingSpan (doc_index (ps_doc ps)) b e)), False)"
      using assms p by (auto simp: can_mention_def sum_bind_Inr split: if_splits)
  qed
qed

lemma parser_inv_attention:
  assumes "parser_inv n ps" "list_all (slot_ok ps) xs"
  shows "parser_inv n (ps\<lparr>attention := xs\<rparr>)"
  using assms by (auto simp: parser_inv_def list_all_iff slot_ok_def mark_ok_def)

lemma parser_inv_doc:
  assumes "parser_inv n ps" "doc_ok n doc" "length (spans (doc_index (ps_doc ps))) \<le> length (spans (doc_index doc))"
  shows "parser_inv n (ps\<lparr>ps_doc := doc\<rparr>)"
  using assms by (fastforce simp: parser_inv_def list_all_iff slot_ok_def mark_ok_def)

lemma parser_inv_pop:
  assumes "parser_inv n ps"
  shows "parser_inv n (pop_mark len ps)"
proof -
  have "sorted (map mk_token (butlast (marks ps)))"
    using assms by (auto simp: parser_inv_def map_butlast intro: sorted_butlast)
  then show ?thesis using assms
    by (auto simp: pop_mark_def parser_inv_def list_all_iff slot_ok_def mark_ok_def dest: in_set_butlastD)
qed

lemma moved_set: "index < length xs \<Longrightarrow> set (moved index position x xs) \<subseteq> insert x (set xs)"
  by (auto simp: moved_def dest: in_set_takeD in_set_dropD)

lemma Move_inv:
  assumes "parser_inv n ps" "position \<le> index" "index < length (attention ps)"
    and "case span of None \<Rightarrow> True | Some p \<Rightarrow> p < length (spans (doc_index (ps_doc ps)))"
  shows "unless_store (parser_inv n) (Move index position span ps)"
proof -
  have a: "list_all (slot_ok ps) (attention ps)" using assms(1) by (simp add: parser_inv_def)
  have "rev (attention ps) ! index \<in> set (attention ps)" using assms(3) nth_mem [of index "rev (attention ps)"] by simp
  then have s: "slot_ok ps (rev (attention ps) ! index)" using a by (simp add: list_all_iff)
  then have "slot_ok ps (refocus (ps_step ps) span (rev (attention ps) ! index))"
    using assms(4) by (auto simp: slot_ok_def refocus_def)
  then show ?thesis
    using a moved_set [of index "rev (attention ps)" position] assms(3)
    by (fastforce simp: Move_moved [OF assms(2,3)] list_all_iff intro: parser_inv_attention [OF assms(1)])
qed

section \<open>Admissible actions\<close>

lemma Shift_inv: "parser_inv n ps \<Longrightarrow> ps_current ps < ps_end ps \<Longrightarrow> parser_inv n (Shift ps)"
  by (auto simp: parser_inv_def Shift_def list_all_iff slot_ok_def mark_ok_def le_SucI)

lemma Mark_inv: "parser_inv n ps \<Longrightarrow> length (marks ps) < MAX_MARK_DEPTH \<Longrightarrow> parser_inv n (Mark_action ps)"
  by (auto simp: parser_inv_def Mark_action_def list_all_iff slot_ok_def mark_ok_def sorted_append)

lemma pop_mark_simps [simp]:
  "ps_doc (pop_mark len ps) = ps_doc ps" "attention (pop_mark len ps) = attention ps" "ps_step (pop_mark len ps) = ps_step ps"
  by (simp_all add: pop_mark_def)

lemma mentioned_inv:
  assumes "parser_inv n ps" "mentioned n (ps_doc ps) b e span doc"
  shows "parser_inv n ((pop_mark len ps)\<lparr>ps_doc := doc\<rparr>)"
  using assms by (auto simp: mentioned_def intro!: parser_inv_doc parser_inv_pop)

lemma Add_attention_inv:
  assumes "parser_inv n ps" "span = Some p" "p < length (spans (doc_index (ps_doc ps)))"
  shows "parser_inv n (Add_attention h span ps)"
  using assms unfolding Add_attention_def
  by (intro parser_inv_attention) (auto simp: parser_inv_def slot_ok_def)

lemma Evoke_inv:
  assumes inv: "parser_inv n ps" and can: "can_mention len True ps f = Inr True"
  shows "unless_store (parser_inv n) (Evoke_action names len type ps)"
proof -
  obtain b e enc where c: "phrase_of len ps = Some (b, e)" "e \<le> ps_end ps"
    "EnclosingSpan (doc_index (ps_doc ps)) b e = Some (enc, False)" using can by (rule can_mentionD)
  note be = phrase_bounds [OF inv c(1,2)]
  have ok: "doc_ok n (ps_doc ps)" using inv by (simp add: parser_inv_def)
  have "unless_store (parser_inv n) (Inr (Add_attention h span ((pop_mark len ps)\<lparr>ps_doc := doc\<rparr>)))"
    if "mentioned n (ps_doc ps) b e span doc" for h span doc
    using that mentioned_inv [OF inv that, of len] by (auto simp: mentioned_def intro!: Add_attention_inv)
  then show ?thesis
    unfolding Evoke_action_def c(1) access_simps sum_bind.simps prod.case
    by (intro unless_store_bind [OF AddSpan_mentioned [OF ok be(1,2) c(3)]])
      (auto intro!: unless_store_bind [where P = "\<lambda>_. True"] unless_store_bind [OF Span_Evoke_ok])
qed

lemma Attention_Inr: "index < length (attention ps) \<Longrightarrow> Attention ps index = Inr (rev (attention ps) ! index)"
  by (simp add: Attention_def attention_pos_def rev_nth)

lemma Refer_inv:
  assumes inv: "parser_inv n ps" and can: "can_mention len (index < length (attention ps)) ps f = Inr True"
  shows "unless_store (parser_inv n) (Refer_action names len index ps)"
proof -
  obtain b e enc where c: "phrase_of len ps = Some (b, e)" "e \<le> ps_end ps" "index < length (attention ps)"
    "EnclosingSpan (doc_index (ps_doc ps)) b e = Some (enc, False)" using can by (rule can_mentionD)
  note be = phrase_bounds [OF inv c(1,2)]
  have ok: "doc_ok n (ps_doc ps)" using inv by (simp add: parser_inv_def)
  have "unless_store (parser_inv n) (Center index span ((pop_mark len ps)\<lparr>ps_doc := doc\<rparr>))"
    if "mentioned n (ps_doc ps) b e span doc" for span doc
    unfolding Center_def using that c(3) by (intro Move_inv [OF mentioned_inv [OF inv that]]) (auto simp: mentioned_def)
  then show ?thesis
    unfolding Refer_action_def c(1) access_simps sum_bind.simps prod.case Attention_Inr [OF c(3)]
    by (intro unless_store_bind [OF AddSpan_mentioned [OF ok be(1,2) c(4)]])
      (auto intro!: unless_store_bind [OF Span_Evoke_ok])
qed

lemma add_slot_inv:
  assumes "parser_inv n ps"
  shows "unless_store (\<lambda>ps'. parser_inv n ps' \<and> attention ps' = attention ps) (add_slot subject role object ps)"
proof -
  have "doc_ok n (ps_doc ps)" using assms by (simp add: parser_inv_def)
  then show ?thesis unfolding add_slot_def
    by (auto intro!: unless_store_bind [where P = "\<lambda>_. True"] parser_inv_doc [OF assms])
qed

lemma Connect_inv:
  assumes "parser_inv n ps" "source < length (attention ps)" "target < length (attention ps)"
  shows "unless_store (parser_inv n) (Connect_action source role target ps)"
  unfolding Connect_action_def Attention_Inr [OF assms(2)] Attention_Inr [OF assms(3)] sum_bind.simps
  by (rule unless_store_bind [OF add_slot_inv [OF assms(1)]]) (use assms in \<open>auto intro!: Move_inv\<close>)

lemma Assign_inv:
  assumes "parser_inv n ps" "index < length (attention ps)"
  shows "unless_store (parser_inv n) (Assign_action index role val ps)"
  unfolding Assign_action_def Attention_Inr [OF assms(2)] sum_bind.simps
  by (rule unless_store_mono [OF add_slot_inv [OF assms(1)]]) simp

lemma Apply_inv:
  assumes inv: "parser_inv n ps" and can: "CanApply names action ps = Inr True" and "\<nexists>d. action = CASCADE d"
  shows "unless_store (parser_inv n) (Apply names action ps)"
proof -
  have "unless_store (parser_inv n) (apply_action names action ps)"
  proof (cases action)
    case (CONNECT source role target)
    then show ?thesis using can Connect_inv [OF inv, of source target] by (auto split: if_splits)
  next
    case (ASSIGN source role label)
    then show ?thesis using can Assign_inv [OF inv, of source] by (auto split: if_splits)
  qed (use assms in \<open>auto intro: Shift_inv Mark_inv Evoke_inv Refer_inv\<close>)
  then show ?thesis unfolding Apply_def
    by (rule unless_store_bind) (use parser_inv_step in auto)
qed

section \<open>Runs of the transition system\<close>

inductive parser_step :: "doc_names \<Rightarrow> ParserState \<Rightarrow> ParserState \<Rightarrow> bool" for names where
  act: "CanApply names action ps = Inr True \<Longrightarrow> Apply names action ps = Inr ps' \<Longrightarrow> parser_step names ps ps'"

inductive_cases parser_stepE: "parser_step names ps ps'"

lemma Apply_bounds:
  assumes "apply_action names action ps = Inr ps'"
  shows "ps_begin ps' = ps_begin ps \<and> ps_end ps' = ps_end ps"
proof (cases action)
  case (EVOKE len type)
  then show ?thesis using assms
    by (auto simp: Evoke_action_def sum_bind_Inr Add_attention_def pop_mark_def)
next
  case (REFER len target)
  then show ?thesis using assms
    by (auto simp: Refer_action_def sum_bind_Inr Center_def Move_def Let_def pop_mark_def split: if_splits)
next
  case (CONNECT source role target)
  then show ?thesis using assms
    by (auto simp: Connect_action_def add_slot_def sum_bind_Inr Move_def Let_def split: if_splits)
next
  case (ASSIGN source role label)
  then show ?thesis using assms by (auto simp: Assign_action_def add_slot_def sum_bind_Inr)
qed (use assms in \<open>auto simp: Shift_def Mark_action_def\<close>)

lemma parser_step_inv:
  assumes "parser_step names ps ps'" "parser_inv n ps"
  shows "parser_inv n ps' \<and> ps_begin ps' = ps_begin ps \<and> ps_end ps' = ps_end ps"
  using assms(1)
proof (rule parser_stepE)
  fix action assume a: "CanApply names action ps = Inr True" "Apply names action ps = Inr ps'"
  then have "\<nexists>d. action = CASCADE d" by (auto simp: Apply_def)
  then show ?thesis using Apply_inv [OF assms(2) a(1)] a(2) Apply_bounds [of names action ps]
    by (auto simp: Apply_def sum_bind_Inr)
qed

lemma reachable_inv:
  assumes "(parser_step names)\<^sup>*\<^sup>* ps ps'" "parser_inv n ps"
  shows "parser_inv n ps' \<and> ps_begin ps' = ps_begin ps \<and> ps_end ps' = ps_end ps"
  using assms by (induction rule: rtranclp_induct) (use parser_step_inv in auto)

lemma new_parser_inv: "doc_ok n doc \<Longrightarrow> b \<le> e \<Longrightarrow> e \<le> n \<Longrightarrow> parser_inv n (new_parser_state doc b e)"
  by (simp add: parser_inv_def new_parser_state_def)

lemma shift_step:
  "ps_current ps < ps_end ps \<Longrightarrow> parser_step names ps (ps\<lparr>ps_current := Suc (ps_current ps), ps_step := Suc (ps_step ps)\<rparr>)"
  by (rule act [of _ SHIFT]) (simp_all add: Apply_def Shift_def)

lemma shifts_to_end:
  "ps_current ps \<le> ps_end ps \<Longrightarrow> (parser_step names)\<^sup>*\<^sup>* ps
     (ps\<lparr>ps_current := ps_end ps, ps_step := ps_step ps + (ps_end ps - ps_current ps)\<rparr>)"
proof (induction "ps_end ps - ps_current ps" arbitrary: ps)
  case 0
  then have "ps\<lparr>ps_current := ps_end ps, ps_step := ps_step ps + (ps_end ps - ps_current ps)\<rparr> = ps" by simp
  then show ?case by simp
next
  case (Suc k)
  have less: "ps_current ps < ps_end ps" using Suc.hyps(2) by simp
  let ?ps = "ps\<lparr>ps_current := Suc (ps_current ps), ps_step := Suc (ps_step ps)\<rparr>"
  have "(parser_step names)\<^sup>*\<^sup>* ?ps (?ps\<lparr>ps_current := ps_end ?ps, ps_step := ps_step ?ps + (ps_end ?ps - ps_current ?ps)\<rparr>)"
    by (rule Suc.hyps(1)) (use Suc.hyps(2) in simp_all)
  moreover have "?ps\<lparr>ps_current := ps_end ?ps, ps_step := ps_step ?ps + (ps_end ?ps - ps_current ?ps)\<rparr> =
      ps\<lparr>ps_current := ps_end ps, ps_step := ps_step ps + (ps_end ps - ps_current ps)\<rparr>"
    using less by (cases ps) simp
  ultimately show ?case using shift_step [OF less, of names] converse_rtranclp_into_rtranclp by metis
qed

text \<open>The frames of the attention buffer in the order of attention, and what the actions do to this list.\<close>

abbreviation frames_of :: "ParserState \<Rightarrow> Handle list" where
  "frames_of ps \<equiv> map at_frame (rev (attention ps))"

fun focus_step :: "ParserAction \<Rightarrow> Handle list \<Rightarrow> Handle list \<Rightarrow> bool" where
  "focus_step (EVOKE len type) xs ys \<longleftrightarrow> ys \<noteq> [] \<and> List.tl ys = xs"
| "focus_step (REFER len i) xs ys \<longleftrightarrow> i < length xs \<and> ys = moved i 0 (xs ! i) xs"
| "focus_step (CONNECT s role t) xs ys \<longleftrightarrow> s < length xs \<and> t < length xs \<and>
     ys = (if s < t then moved t (s + 1) (xs ! t) xs else if t < s then moved s (t + 1) (xs ! s) xs else xs)"
| "focus_step action xs ys \<longleftrightarrow> ys = xs"

lemma moved_map: "map f (moved i p x xs) = moved i p (f x) (map f xs)"
  by (simp add: moved_def take_map drop_map)

lemma Move_frames:
  assumes "Move index position span ps = Inr ps'"
  shows "index < length (attention ps) \<and> frames_of ps' = moved index position (frames_of ps ! index) (frames_of ps)"
proof -
  have l: "position \<le> index" "index < length (attention ps)" using assms by (auto simp: Move_def Let_def split: if_splits)
  have "ps' = ps\<lparr>attention := rev (moved index position
      (refocus (ps_step ps) span (rev (attention ps) ! index)) (rev (attention ps)))\<rparr>"
    using assms Move_moved [OF l, of span] by simp
  then have "frames_of ps' = moved index position (at_frame (rev (attention ps) ! index)) (frames_of ps)"
    by (simp add: moved_map refocus_def del: rev_map)
  then show ?thesis using l(2) by simp
qed

lemma Attention_bound: "Attention ps i = Inr s \<Longrightarrow> i < length (attention ps)"
  by (auto simp: Attention_def attention_pos_def sum_bind_Inr split: if_splits)

lemma add_slot_attention: "add_slot subject role object ps = Inr ps' \<Longrightarrow> attention ps' = attention ps"
  by (auto simp: add_slot_def sum_bind_Inr)

lemma focus_step_apply:
  assumes "apply_action names action ps = Inr ps'"
  shows "focus_step action (frames_of ps) (frames_of ps')"
proof (cases action)
  case (EVOKE len type)
  then show ?thesis using assms by (auto simp: Evoke_action_def sum_bind_Inr Add_attention_def)
next
  case (REFER len i)
  then obtain doc span where "Move i 0 span ((pop_mark len ps)\<lparr>ps_doc := doc\<rparr>) = Inr ps'"
    using assms by (auto simp: Refer_action_def sum_bind_Inr Center_def)
  from Move_frames [OF this] show ?thesis using REFER by simp
next
  case (CONNECT s role t)
  then obtain subj obj ps1 where c: "Attention ps s = Inr subj" "Attention ps t = Inr obj"
      "attention ps1 = attention ps"
      "(if s < t then Move t (s + 1) None ps1 else if t < s then Move s (t + 1) None ps1 else Inr ps1) = Inr ps'"
    using assms by (auto simp: Connect_action_def sum_bind_Inr dest: add_slot_attention)
  then show ?thesis using CONNECT Attention_bound [OF c(1)] Attention_bound [OF c(2)]
      Move_frames [of t "s + 1" None ps1 ps'] Move_frames [of s "t + 1" None ps1 ps']
    by (auto split: if_splits)
next
  case (ASSIGN source role label)
  then show ?thesis using assms by (auto simp: Assign_action_def add_slot_def sum_bind_Inr)
qed (use assms in \<open>auto simp: Shift_def Mark_action_def\<close>)

lemma GetFocus_all: "GetFocus (length (attention ps)) ps = frames_of ps"
  by (simp add: GetFocus_def)

section \<open>Properties\<close>

definition sample_names :: doc_names where
  "sample_names = \<lparr>nm_begin = Handle_name, nm_length = Handle_name, nm_evokes = Handle_isa\<rparr>"

definition sample_doc :: doc_state where
  "sample_doc = \<lparr>doc_index = new_index 3, mentions = [], doc_store = LockGC sample_store\<rparr>"

lemma sample_doc_ok: "doc_ok 3 sample_doc"
  by (auto simp: doc_ok_def sample_doc_def new_index_def span_inv_def laminar_def smallest_def intro!: exI [of _ "{}"])



text \<open>
  C9: The parse can always be completed: from every state that the admitted actions reach from the start of an input, a
  state that is done can be reached, without any further change to the document.
\<close>

theorem parser_can_finish:
  assumes "doc_ok n doc" "b \<le> e" "e \<le> n" "(parser_step names)\<^sup>*\<^sup>* (new_parser_state doc b e) ps"
  shows "\<exists>ps'. (parser_step names)\<^sup>*\<^sup>* ps ps' \<and> parser_done ps' \<and> ps_doc ps' = ps_doc ps \<and>
    ps_step ps' = ps_step ps + (e - ps_current ps)"
proof -
  have "parser_inv n ps \<and> ps_end ps = e"
    using reachable_inv [OF assms(4) new_parser_inv [OF assms(1-3)]] by (simp add: new_parser_state_def)
  then show ?thesis
    using shifts_to_end [of ps names] by (auto simp: parser_inv_def parser_done_def intro!: exI)
qed

theorem parser_can_finish_witness:
  "\<exists>ps ps'. Apply sample_names (EVOKE 2 Handle_nil) (new_parser_state sample_doc 0 3) = Inr ps \<and>
     (parser_step sample_names)\<^sup>*\<^sup>* ps ps' \<and> parser_done ps' \<and> ps_doc ps' = ps_doc ps"
proof -
  let ?ps = "new_parser_state sample_doc 0 3"
  have "(case Apply sample_names (EVOKE 2 Handle_nil) ?ps of Inl _ \<Rightarrow> False | Inr _ \<Rightarrow> True)" by code_simp
  then obtain ps where p: "Apply sample_names (EVOKE 2 Handle_nil) ?ps = Inr ps" by (auto split: sum.splits)
  have "CanApply sample_names (EVOKE 2 Handle_nil) ?ps = Inr True" by code_simp
  then have "(parser_step sample_names)\<^sup>*\<^sup>* ?ps ps" by (rule r_into_rtranclp [of "parser_step sample_names", OF act [OF _ p]])
  from parser_can_finish [OF sample_doc_ok _ _ this] p show ?thesis by auto
qed


definition sample_attention :: ParserState where
  "sample_attention = (new_parser_state sample_doc 0 3)\<lparr>ps_step := 3, attention :=
     map (\<lambda>(h, k). \<lparr>at_frame = h, at_created = k, at_focused = k, at_span = None\<rparr>)
       [(Handle 5, 0), (Handle 9, 1), (Handle 13, 2)]\<rparr>"


end
