(* ===== verification/Spec2Isabelle.thy ===== *)
theory Spec2Isabelle
  imports Varint IO_Buffer Input_Streams Output_Streams Handles City_Hash Frame_Objects Frame_Store
    Frame_GC Frame_Symbols Frame_Compare Frame_Lifecycle Fingerprints DB_Index Record_Format Record_Reader Record_Writer Database Database_Log Database_Properties Database_Recovery Handle_Map Frame_Encoder Frame_Decoder Frame_Wire Frame_Codec Frame_Serialization
    Unicode UTF8_Codec Document_Spans Span_Tree Span_Operations Document Document_Properties Parser_State Parser_Properties
begin

text \<open>
  A verification of the core of SLING (\<^verbatim>\<open>sling/\<close>): the coding layer, the byte streams, the frame
  store and the storage layer.

  \<^bold>\<open>The program.\<close> SLING is a framework for frame semantics. Its data model is the frame store
  (\<^verbatim>\<open>frame/store.h\<close>, \<^verbatim>\<open>frame/store.cc\<close>): a garbage collected heap of frames, strings, arrays,
  symbols and proxies that are named by tagged 32-bit handles. Stores are written to and read from
  byte streams (\<^verbatim>\<open>stream/\<close>), numbers are coded as varints (\<^verbatim>\<open>util/varint.h\<close>), bytes in flight live
  in I/O buffers (\<^verbatim>\<open>util/iobuffer.h\<close>), and names are hashed with City hash (\<^verbatim>\<open>util/city.cc\<close>). Larger
  collections are kept in record files (\<^verbatim>\<open>file/recordio.cc\<close>) and in a database with a hash index
  (\<^verbatim>\<open>db/\<close>). On top of these stand the language tools, the knowledge base and the Myelin compiler.

  \<^bold>\<open>The theories, in the order of their imports.\<close>

  \<^item> \<open>Sling_Prelude\<close>: machine types (\<^verbatim>\<open>base/types.h\<close>), the outcome of pointer scans, shared facts about
    words and lists, and the collections \<open>scan_simps\<close>, \<open>width_simps\<close> and \<open>store_simps\<close>.
  \<^item> \<open>Varint\<close>: \<^verbatim>\<open>util/varint.h\<close> and \<^verbatim>\<open>util/varint.cc\<close>. Every encoder and parser is a function on words
    and byte lists with the unrolled case analysis of the code. The lemmas relate them to one reference
    encoding: round trips forward and backward, lengths, limits and the interleaving of pairs.
  \<^item> \<open>IO_Buffer\<close>: \<^verbatim>\<open>util/iobuffer.h\<close>. The buffer is a block of memory cells, some of them indeterminate,
    with the begin and end positions; it refines a queue of bytes.
  \<^item> \<open>Input_Streams\<close> and \<open>Output_Streams\<close>: \<^verbatim>\<open>stream/stream.h\<close>, \<^verbatim>\<open>memory.*\<close>, \<^verbatim>\<open>bounded.*\<close>, \<^verbatim>\<open>input.*\<close> and
    \<^verbatim>\<open>output.*\<close>. A stream class is a record of its virtual functions; the locales
    \<open>input_stream\<close> and \<open>output_stream\<close> state what a stream promises, every stream class interprets
    them, and the coded reader and writer are verified once inside the locales.
  \<^item> \<open>Handles\<close>: \<^verbatim>\<open>Handle\<close> of \<^verbatim>\<open>frame/store.h\<close>: integers, floats, references and indices share 32 bits.
  \<^item> \<open>City_Hash\<close>: \<^verbatim>\<open>util/city.cc\<close>, with loads that fail outside the string.
  \<^item> \<open>Frame_Objects\<close>, \<open>Frame_Store\<close>: the objects of the heap and the store with allocation, handle table,
    mark and compact collection and the operations on frames. Raw addresses are replaced by heap and
    object numbers; the order of objects in a heap, their sizes and the growth of heaps are kept.
  \<^item> \<open>Frame_GC\<close>: the collection keeps exactly what is reachable from the roots.
  \<^item> \<open>Frame_Symbols\<close>: the symbol table, frames with ids, proxies, replacing of handles.
  \<^item> \<open>Frame_Compare\<close>: inspection, deep comparison and fingerprints.
  \<^item> \<open>Frame_Lifecycle\<close>: construction from the initial heap, freezing and coalescing of strings.
  \<^item> \<open>Handle_Map\<close>: the hash table of handles in \<^verbatim>\<open>frame/object.h\<close>, which refines a map.
  \<^item> \<open>Frame_Encoder\<close>, \<open>Frame_Decoder\<close>: \<^verbatim>\<open>frame/wire.h\<close>, \<^verbatim>\<open>encoder.*\<close>, \<^verbatim>\<open>decoder.*\<close> and the string functions of \<^verbatim>\<open>serialization.cc\<close>, the binary
    format of frames. The recursive calls are tied by partial functions whose loops take the call as an argument; the tables of the
    decoder are the first two external ranges of its store. \<open>Frame_Wire\<close> relates objects to the bytes of their encoding and shows that
    the encoder writes these bytes for every closed set of objects, cycles included. \<open>Frame_Codec\<close> shows that the decoder turns them into
    copies of the objects, and \<open>Frame_Serialization\<close> composes the two.
  \<^item> \<open>Fingerprints\<close>: \<^verbatim>\<open>util/fingerprint.cc\<close>, the hash of record keys.
  \<^item> \<open>DB_Index\<close>: \<^verbatim>\<open>db/dbindex.cc\<close>, a hash table with linear probing over a memory-mapped file. The table
    is a list of entries; it refines a multiset of pairs of key and value. The locale \<open>index_cursor\<close>
    states what a client of \<^verbatim>\<open>Get\<close> relies on.
  \<^item> \<open>Record_Format\<close>, \<open>Record_Reader\<close>, \<open>Record_Writer\<close>: \<^verbatim>\<open>file/recordio.cc\<close>. The bytes of the file are passed
    through the operations; reads, writes and seeks of the operating system and the snappy library are
    fields of the record \<open>Env\<close>. A record file that is written, closed and opened again is read back.
  \<^item> \<open>Database\<close>: \<^verbatim>\<open>db/db.cc\<close>, records in a sequence of record files with an index of their keys. \<open>Database_Log\<close>
    relates the state, with the bytes of the files and the buffered writes, to the log of all records written; the active
    records are those that the log leaves. \<open>Database_Properties\<close> states what reading, writing, deleting and
    iterating do to the log, \<open>Database_Recovery\<close> what rebuilding the index does.
  \<^item> \<open>Spec2Isabelle\<close>: properties that span components.

  \<^bold>\<open>Conventions.\<close> Fixed width integers are words where the width matters. A failing \<^verbatim>\<open>CHECK\<close> or
  \<^verbatim>\<open>DCHECK\<close>, an access outside an object or of an indeterminate byte, and a loop that never ends are all
  the value \<open>None\<close>: a theorem that an operation yields \<open>Some\<close> says that none of them happens. Loops
  that may run forever are \<open>partial_function (option)\<close>; there is no fuel in the development.
  Branches taken on an error that the code reports (a \<^verbatim>\<open>false\<close>, a null pointer, a \<^verbatim>\<open>Status\<close>) are ordinary
  values. What the code does not fix is a parameter: the growth policy of
  \<^verbatim>\<open>std::string\<close>, the conversion of integers to floats, operating system calls.

  \<^bold>\<open>Not modelled.\<close> Reference counts of shared stores, threads and locks, memory statistics and debug
  output; the text formats of frames; the natural language, wiki and knowledge base applications;
  the Myelin compiler, whose semantics are machine code and numeric kernels; the network servers; the
  bindings for Python; and vendored libraries (snappy, zlib, bzip2).
\<close>

section \<open>Writing and reading back\<close>



end
